(* ===== verification/Prelude.thy ===== *)
theory Prelude
  imports Main "HOL-Library.Word"
begin

text \<open>
  Shared vocabulary of the development: bytes and Go strings, slices, the decimal
  text conversions of Go's strconv package, big-endian integers, and the generic list
  lemmas the component theories use.

  A Go byte is an \<open>8 word\<close>; a byte slice and a Go string are both lists of bytes
  (Go strings are immutable byte sequences, and the conversions between the two copy), so
  \<open>bytes_of\<close> only names literals. A Go \<open>int\<close> that only ever counts bytes
  or digits of a buffer is an \<open>int\<close>; where the code's arithmetic can overflow the
  width is kept (theory Decimal). A fallible Go function returns a sum whose left
  side is the error.
\<close>

unbundle bit_operations_syntax

type_synonym byte = "8 word"
type_synonym bytes = "byte list"

named_theorems codec_simps \<open>unfolding equations of the codec operations\<close>
named_theorems roundtrip \<open>decode-after-encode facts\<close>

subsection \<open>Go strings and byte slices\<close>

definition bytes_of :: "string \<Rightarrow> bytes" where
  "bytes_of s = map of_char s"

lemma length_bytes_of [simp]: "length (bytes_of s) = length s"
  by (simp add: bytes_of_def)

lemma unat_byte_lt [simp]: "unat (x :: byte) < 256"
  using unsigned_less [of x] by simp

text \<open>The slice expression \<open>xs[a:b]\<close>, for bounds the caller has checked
  (\<open>slice_ok\<close>); Go panics outside them.\<close>

definition slice :: "'a list \<Rightarrow> int \<Rightarrow> int \<Rightarrow> 'a list" where
  "slice xs a b = take (nat (b - a)) (drop (nat a) xs)"

definition slice_ok :: "'a list \<Rightarrow> int \<Rightarrow> int \<Rightarrow> bool" where
  "slice_ok xs a b \<longleftrightarrow> 0 \<le> a \<and> a \<le> b \<and> b \<le> int (length xs)"

lemma length_slice [simp]: "slice_ok xs a b \<Longrightarrow> length (slice xs a b) = nat (b - a)"
  by (auto simp: slice_def slice_ok_def)

lemma slice_append_mid:
  "slice (xs @ ys @ zs) (int (length xs)) (int (length xs) + int (length ys)) = ys"
  by (simp add: slice_def)

lemma slice_append_mid':
  "a = int (length xs) \<Longrightarrow> b = a + int (length ys) \<Longrightarrow> slice (xs @ ys @ zs) a b = ys"
  by (simp add: slice_def)

lemma slice_cat:
  assumes "0 \<le> a" "a \<le> b" "b \<le> c"
  shows "slice xs a b @ slice xs b c = slice xs a c"
proof -
  have "nat (c - a) = nat (b - a) + nat (c - b)" "nat b = nat a + nat (b - a)"
    using assms by auto
  then show ?thesis
    by (simp add: slice_def take_add add.commute)
qed

lemma slice_prefix: "0 \<le> b \<Longrightarrow> slice xs 0 b = take (nat b) xs"
  by (simp add: slice_def)

text \<open>Go's integer division truncates towards zero.\<close>

definition go_div :: "int \<Rightarrow> int \<Rightarrow> int" where
  "go_div a b = sgn a * sgn b * (\<bar>a\<bar> div \<bar>b\<bar>)"

lemma go_div_pos: "0 \<le> a \<Longrightarrow> 0 < b \<Longrightarrow> go_div a b = a div b"
  by (cases "a = 0") (simp_all add: go_div_def)

subsection \<open>Decimal text (strconv)\<close>

definition is_digit :: "byte \<Rightarrow> bool" where
  "is_digit c \<longleftrightarrow> 48 \<le> c \<and> c \<le> 57"

definition digit_of :: "nat \<Rightarrow> byte" where
  "digit_of d = 48 + of_nat d"

definition digit_val :: "byte \<Rightarrow> nat" where
  "digit_val c = unat (c - 48)"

lemma digit_byte_cases: "d < 10 \<Longrightarrow> d \<in> {0,1,2,3,4,5,6,7,8,9 :: nat}"
  by auto

lemma digit_of_digit [simp]: "d < 10 \<Longrightarrow> is_digit (digit_of d)"
  by (drule digit_byte_cases) (auto simp: is_digit_def digit_of_def)

lemma digit_val_of [simp]: "d < 10 \<Longrightarrow> digit_val (digit_of d) = d"
  by (drule digit_byte_cases) (auto simp: digit_val_def digit_of_def)

lemma digit_val_lt [simp]: "is_digit c \<Longrightarrow> digit_val c < 10"
  by (auto simp: is_digit_def digit_val_def word_le_nat_alt unat_sub)

lemma digit_val_le: "is_digit c \<Longrightarrow> digit_val c \<le> 9"
  by (auto simp: is_digit_def digit_val_def word_le_nat_alt unat_sub)

lemma digit_of_val [simp]: "is_digit c \<Longrightarrow> digit_of (digit_val c) = c"
  by (simp add: digit_of_def digit_val_def)

lemma is_digit_zero [simp]: "is_digit 48"
  by (simp add: is_digit_def)

lemma digit_val_zero [simp]: "digit_val 48 = 0"
  by (simp add: digit_val_def)

text \<open>\<open>strconv.FormatUint\<close> and \<open>FormatInt\<close> in base 10.\<close>

fun fmt_nat :: "nat \<Rightarrow> bytes" where
  "fmt_nat n = (if n < 10 then [digit_of n] else fmt_nat (n div 10) @ [digit_of (n mod 10)])"

declare fmt_nat.simps [simp del]

definition fmt_int :: "int \<Rightarrow> bytes" where
  "fmt_int i = (if i < 0 then 45 # fmt_nat (nat (- i)) else fmt_nat (nat i))"

text \<open>The value of a string of digits.\<close>

definition dec_val :: "bytes \<Rightarrow> nat" where
  "dec_val ds = foldl (\<lambda>n c. n * 10 + digit_val c) 0 ds"

lemma dec_val_Nil [simp]: "dec_val [] = 0"
  by (simp add: dec_val_def)

lemma dec_val_snoc [simp]: "dec_val (ds @ [c]) = dec_val ds * 10 + digit_val c"
  by (simp add: dec_val_def)

lemma dec_val_foldl: "foldl (\<lambda>n c. n * 10 + digit_val c) a ds = a * 10 ^ length ds + dec_val ds"
proof (induction ds rule: rev_induct)
  case Nil
  then show ?case by simp
next
  case (snoc c ds)
  then show ?case by (simp add: algebra_simps)
qed

lemma dec_val_append: "dec_val (xs @ ys) = dec_val xs * 10 ^ length ys + dec_val ys"
proof -
  have "dec_val (xs @ ys) = foldl (\<lambda>n c. n * 10 + digit_val c) (dec_val xs) ys"
    by (simp add: dec_val_def)
  then show ?thesis by (simp add: dec_val_foldl)
qed

lemma dec_val_Cons: "dec_val (c # ds) = digit_val c * 10 ^ length ds + dec_val ds"
  using dec_val_append [of "[c]" ds] by (simp add: dec_val_def)

lemma dec_val_zeros [simp]: "dec_val (replicate k 48 @ ds) = dec_val ds"
  by (induction k) (simp_all add: dec_val_Cons)

lemma dec_val_fmt_nat [simp]: "dec_val (fmt_nat n) = n"
proof (induction n rule: fmt_nat.induct)
  case (1 n)
  show ?case
  proof (cases "n < 10")
    case True
    then show ?thesis by (simp add: fmt_nat.simps [of n] dec_val_def)
  next
    case False
    with 1 show ?thesis by (simp add: fmt_nat.simps [of n])
  qed
qed

lemma fmt_nat_digits: "list_all is_digit (fmt_nat n)"
proof (induction n rule: fmt_nat.induct)
  case (1 n)
  then show ?case by (cases "n < 10") (simp_all add: fmt_nat.simps [of n])
qed

lemma fmt_nat_nonempty [simp]: "fmt_nat n \<noteq> []"
  by (subst fmt_nat.simps) simp

lemma dec_val_bound: "list_all is_digit ds \<Longrightarrow> dec_val ds < 10 ^ length ds"
proof (induction ds)
  case Nil
  then show ?case by simp
next
  case (Cons c ds)
  have "digit_val c \<le> 9" using Cons.prems by (simp add: digit_val_le)
  then have "digit_val c * 10 ^ length ds \<le> 9 * 10 ^ length ds" by simp
  moreover have "dec_val ds < 10 ^ length ds" using Cons by simp
  ultimately show ?case by (simp only: dec_val_Cons length_Cons power_Suc)
qed

lemma fmt_nat_length: "0 < k \<Longrightarrow> length (fmt_nat n) \<le> k \<longleftrightarrow> n < 10 ^ k"
proof (induction n arbitrary: k rule: fmt_nat.induct)
  case (1 n)
  show ?case
  proof (cases "n < 10")
    case True
    moreover have "(10::nat) \<le> 10 ^ k" using \<open>0 < k\<close> by (cases k) auto
    ultimately show ?thesis using \<open>0 < k\<close> by (simp add: fmt_nat.simps [of n])
  next
    case False
    then have len: "length (fmt_nat n) = Suc (length (fmt_nat (n div 10)))"
      by (simp add: fmt_nat.simps [of n])
    obtain j where k: "k = Suc j" using \<open>0 < k\<close> by (cases k) auto
    show ?thesis
    proof (cases "j = 0")
      case True
      have "length (fmt_nat (n div 10)) > 0" by simp
      with True False len k show ?thesis by simp
    next
      case j: False
      have "length (fmt_nat (n div 10)) \<le> j \<longleftrightarrow> n div 10 < 10 ^ j"
        using 1 False j by simp
      also have "\<dots> \<longleftrightarrow> n < 10 ^ k"
        by (simp add: k div_less_iff_less_mult mult.commute)
      finally show ?thesis using len k by simp
    qed
  qed
qed

text \<open>Printing the value of a digit string gives the string without leading zeros.\<close>

lemma fmt_nat_unique:
  assumes "list_all is_digit ds" and "ds \<noteq> []" and "length ds = 1 \<or> hd ds \<noteq> 48"
  shows "fmt_nat (dec_val ds) = ds"
  using assms
proof (induction ds rule: rev_induct)
  case Nil
  then show ?case by simp
next
  case (snoc c ds)
  show ?case
  proof (cases ds)
    case Nil
    with snoc.prems show ?thesis by (simp add: fmt_nat.simps [of "digit_val c"] dec_val_Cons)
  next
    case (Cons b bs)
    with snoc.prems have b: "b \<noteq> 48" "is_digit b" and c: "is_digit c" by auto
    have IH: "fmt_nat (dec_val ds) = ds" using snoc Cons by simp
    have "digit_val b \<noteq> 0"
    proof
      assume "digit_val b = 0"
      with digit_of_val [OF b(2)] have "b = 48" by (simp add: digit_of_def)
      with b show False by simp
    qed
    then have "1 \<le> dec_val ds"
      using Cons by (simp add: dec_val_Cons Suc_le_eq)
    then have "\<not> dec_val (ds @ [c]) < 10" by simp
    moreover have "dec_val (ds @ [c]) div 10 = dec_val ds" "dec_val (ds @ [c]) mod 10 = digit_val c"
      using c by simp_all
    ultimately show ?thesis
      using IH c by (subst fmt_nat.simps) simp
  qed
qed

text \<open>\<open>strconv.ParseUint\<close> and \<open>ParseInt\<close> in base 10 at a bit size: at least one
  digit, digits only after the optional sign, and the value in range.\<close>

datatype num_error = ErrSyntax | ErrRange

definition parse_uint :: "nat \<Rightarrow> bytes \<Rightarrow> num_error + nat" where
  "parse_uint bits s =
     (if s = [] \<or> \<not> list_all is_digit s then Inl ErrSyntax
      else if dec_val s < 2 ^ bits then Inr (dec_val s) else Inl ErrRange)"

definition parse_int :: "nat \<Rightarrow> bytes \<Rightarrow> num_error + int" where
  "parse_int bits s =
     (if s = [] then Inl ErrSyntax
      else let neg = (hd s = 45); ds = (if hd s = 45 \<or> hd s = 43 then tl s else s)
        in if ds = [] \<or> \<not> list_all is_digit ds then Inl ErrSyntax
           else let v = (if neg then - int (dec_val ds) else int (dec_val ds))
             in if - (2 ^ (bits - 1)) \<le> v \<and> v < 2 ^ (bits - 1) then Inr v else Inl ErrRange)"

lemma is_digit_not_sign [simp]: "is_digit c \<Longrightarrow> c \<noteq> 45" "is_digit c \<Longrightarrow> c \<noteq> 43"
  by (auto simp: is_digit_def)

lemma parse_uint_digits:
  "list_all is_digit ds \<Longrightarrow> ds \<noteq> [] \<Longrightarrow> dec_val ds < 2 ^ bits \<Longrightarrow> parse_uint bits ds = Inr (dec_val ds)"
  by (simp add: parse_uint_def)

lemma parse_int_digits:
  assumes "list_all is_digit ds" "ds \<noteq> []" "dec_val ds < 2 ^ (bits - 1)"
  shows "parse_int bits ds = Inr (int (dec_val ds))"
proof -
  obtain c cs where c: "ds = c # cs" "is_digit c" "c \<noteq> 45" "c \<noteq> 43"
    using assms(1,2) by (cases ds) auto
  have "int (dec_val ds) < 2 ^ (bits - 1)"
    using assms(3) by (metis of_nat_less_iff of_nat_numeral of_nat_power)
  moreover have "- (2 ^ (bits - 1)) \<le> int (dec_val ds)"
    by (rule order_trans [of _ 0]) simp_all
  ultimately show ?thesis
    using assms(1) c by (simp add: parse_int_def Let_def)
qed

subsection \<open>Big-endian integers\<close>

primrec be_bytes :: "nat \<Rightarrow> nat \<Rightarrow> bytes" where
  "be_bytes 0 v = []"
| "be_bytes (Suc k) v = be_bytes k (v div 256) @ [of_nat v]"

definition be_val :: "bytes \<Rightarrow> nat" where
  "be_val bs = foldl (\<lambda>n c. n * 256 + unat c) 0 bs"

lemma length_be_bytes [simp]: "length (be_bytes k v) = k"
  by (induction k arbitrary: v) simp_all

lemma be_val_Nil [simp]: "be_val [] = 0"
  by (simp add: be_val_def)

lemma be_val_snoc [simp]: "be_val (bs @ [c]) = be_val bs * 256 + unat c"
  by (simp add: be_val_def)

lemma unat_of_nat_byte: "unat (of_nat n :: byte) = n mod 256"
  by (simp add: unat_of_nat take_bit_eq_mod)

lemma be_val_be_bytes: "be_val (be_bytes k v) = v mod 256 ^ k"
proof (induction k arbitrary: v)
  case 0
  then show ?case by simp
next
  case (Suc k)
  have "be_val (be_bytes (Suc k) v) = (v div 256 mod 256 ^ k) * 256 + v mod 256"
    by (simp add: Suc unat_of_nat_byte)
  also have "\<dots> = v mod (256 * 256 ^ k)"
    by (simp add: mod_mult2_eq)
  finally show ?case by simp
qed

lemma be_val_be_bytes_id [roundtrip]: "v < 256 ^ k \<Longrightarrow> be_val (be_bytes k v) = v"
  by (simp add: be_val_be_bytes)

lemma be_bytes_be_val: "be_bytes (length bs) (be_val bs) = bs"
proof (induction bs rule: rev_induct)
  case Nil
  then show ?case by simp
next
  case (snoc c bs)
  have "unat c < 256" by simp
  then have "(be_val bs * 256 + unat c) div 256 = be_val bs" by simp
  moreover have "(of_nat (be_val bs * 256 + unat c) :: byte) = c"
    using \<open>unat c < 256\<close> by (simp only: word_unat_eq_iff unat_of_nat_byte) simp
  ultimately show ?case using snoc by simp
qed

lemma be_val_bound: "be_val bs < 256 ^ length bs"
proof (induction bs rule: rev_induct)
  case Nil
  then show ?case by simp
next
  case (snoc c bs)
  have "be_val bs * 256 + unat c < Suc (be_val bs) * 256" by simp
  also have "\<dots> \<le> 256 ^ length bs * 256"
    using snoc by (intro mult_right_mono) simp_all
  finally show ?case by (simp add: mult.commute)
qed

subsection \<open>Nibbles\<close>

lemma and_15: "x AND 15 = take_bit 4 (x :: byte)"
  by (simp add: take_bit_eq_mask mask_eq_exp_minus_1)

lemma unat_drop_bit_4: "unat (drop_bit 4 (x :: byte)) = unat x div 16"
  by (simp add: unsigned_drop_bit_eq drop_bit_eq_div [where 'a = nat] take_bit_nat_eq_self)

lemma unat_take_bit_4: "unat (take_bit 4 (x :: byte)) = unat x mod 16"
  by (simp add: unsigned_take_bit_eq take_bit_eq_mod [where 'a = nat])

lemma nibble_self: "x < 16 \<Longrightarrow> take_bit 4 (x :: byte) = x"
  by (simp add: word_unat_eq_iff unat_take_bit_4 word_less_nat_alt)

lemma nibble_bit: "x < 16 \<Longrightarrow> bit (x :: byte) n \<Longrightarrow> n < 4"
  using nibble_self [of x] bit_take_bit_iff [of 4 x n] by auto

lemma nibble_hi [simp]: "hi < 16 \<Longrightarrow> drop_bit 4 (push_bit 4 hi) = (hi :: byte)"
  by (rule bit_word_eqI) (auto simp: bit_simps dest: nibble_bit)

lemma nibble_hi0 [simp]: "lo < 16 \<Longrightarrow> drop_bit 4 lo = (0 :: byte)"
  by (rule bit_word_eqI) (auto simp: bit_simps dest: nibble_bit)

lemma nibble_lo0 [simp]: "take_bit 4 (push_bit 4 x) = (0 :: byte)"
  by (rule bit_word_eqI) (auto simp: bit_simps)

lemma nibble_join [simp]: "push_bit 4 (drop_bit 4 x) OR take_bit 4 x = (x :: byte)"
  by (rule bit_word_eqI) (auto simp: bit_simps)

lemma drop_bit_4_lt [simp]: "drop_bit 4 (x :: byte) < 16"
  by (simp add: word_less_nat_alt unat_drop_bit_4 less_mult_imp_div_less)

lemma take_bit_4_lt [simp]: "take_bit 4 (x :: byte) < 16"
  by (simp add: word_less_nat_alt unat_take_bit_4)

text \<open>Selecting entries keyed by the elements of a list keeps the keys unique.\<close>

lemma map_filter_fst_distinct:
  "distinct xs \<Longrightarrow> (\<And>x y. f x = Some y \<Longrightarrow> fst y = x) \<Longrightarrow> distinct (map fst (List.map_filter f xs))"
proof (induction xs)
  case (Cons x xs)
  have "fst ` set (List.map_filter f xs) \<subseteq> set xs"
    using Cons.prems(2) by (fastforce simp: List.map_filter_def)
  with Cons show ?case by (auto simp: List.map_filter_simps split: option.split)
qed (simp add: List.map_filter_simps)

end
