(* ===== verification/Bitmap.thy ===== *)
theory Bitmap
  imports Prelude
begin

text \<open>
  The presence bitmap, \<^verbatim>\<open>src/iso8583/bitmap.go\<close>: three 64-bit words, data element \<open>n\<close> in
  1..192 being bit \<open>(n-1) mod 64\<close> of word \<open>(n-1) div 64\<close>, counted from the most
  significant bit. The array of three words is a record of three fields, so every value of the
  type is a bitmap; \<open>bits.LeadingZeros64\<close> and \<open>OnesCount64\<close> of Go's \<^verbatim>\<open>math/bits\<close> are
  defined on the bits of the word.
\<close>

type_synonym u64 = "64 word"

record bitmap =
  word0 :: u64
  word1 :: u64
  word2 :: u64

definition bitmap0 :: bitmap where
  "bitmap0 = \<lparr>word0 = 0, word1 = 0, word2 = 0\<rparr>"

definition maxDEIndex :: int where "maxDEIndex = 192"
definition contSecondary :: int where "contSecondary = 1"
definition contTertiary :: int where "contTertiary = 65"

text \<open>Array access at an index the caller has checked to be 0, 1 or 2.\<close>

definition word_at :: "bitmap \<Rightarrow> int \<Rightarrow> u64" where
  "word_at b i = (if i = 0 then word0 b else if i = 1 then word1 b else word2 b)"

definition put_word :: "bitmap \<Rightarrow> int \<Rightarrow> u64 \<Rightarrow> bitmap" where
  "put_word b i v =
     (if i = 0 then b\<lparr>word0 := v\<rparr> else if i = 1 then b\<lparr>word1 := v\<rparr> else b\<lparr>word2 := v\<rparr>)"

definition wordBit :: "int \<Rightarrow> int \<times> u64" where
  "wordBit de = (let idx = de - 1 in (idx div 64, push_bit (nat (63 - idx mod 64)) 1))"

definition IsSet :: "bitmap \<Rightarrow> int \<Rightarrow> bool" where
  "IsSet b de =
     (if de < 1 \<or> de > maxDEIndex then False
      else case wordBit de of (w, m) \<Rightarrow> word_at b w AND m \<noteq> 0)"

definition Set :: "bitmap \<Rightarrow> int \<Rightarrow> bitmap" where
  "Set b de =
     (if de < 1 \<or> de > maxDEIndex then b
      else case wordBit de of (w, m) \<Rightarrow> put_word b w (word_at b w OR m))"

definition Clear :: "bitmap \<Rightarrow> int \<Rightarrow> bitmap" where
  "Clear b de =
     (if de < 1 \<or> de > maxDEIndex then b
      else case wordBit de of (w, m) \<Rightarrow> put_word b w (word_at b w AND NOT m))"

text \<open>The exported accessors index the array with the caller's value; outside 0..2 they
  panic (\<open>None\<close>).\<close>

definition Word :: "bitmap \<Rightarrow> int \<Rightarrow> u64 option" where
  "Word b i = (if 0 \<le> i \<and> i < 3 then Some (word_at b i) else None)"

definition SetWord :: "bitmap \<Rightarrow> int \<Rightarrow> u64 \<Rightarrow> bitmap option" where
  "SetWord b i v = (if 0 \<le> i \<and> i < 3 then Some (put_word b i v) else None)"

definition bitlist :: "u64 \<Rightarrow> bool list" where
  "bitlist w = map (\<lambda>i. bit w (63 - i)) [0..<64]"

definition OnesCount64 :: "u64 \<Rightarrow> nat" where
  "OnesCount64 w = length (filter id (bitlist w))"

definition LeadingZeros64 :: "u64 \<Rightarrow> nat" where
  "LeadingZeros64 w = length (takeWhile Not (bitlist w))"

definition Count :: "bitmap \<Rightarrow> int" where
  "Count b =
     (let n = int (OnesCount64 (word0 b) + OnesCount64 (word1 b) + OnesCount64 (word2 b));
          n = (if IsSet b contSecondary then n - 1 else n)
      in if IsSet b contTertiary then n - 1 else n)"

definition Width :: "bitmap \<Rightarrow> int" where
  "Width b = (if IsSet b contTertiary then 192 else if IsSet b contSecondary then 128 else 64)"

subsection \<open>Words as sets of positions\<close>

lemma and_mask_bit: "k < 64 \<Longrightarrow> (w :: u64) AND push_bit k 1 \<noteq> 0 \<longleftrightarrow> bit w k"
  by (simp add: and_exp_eq_0_iff_not_bit)

definition positions :: "u64 \<Rightarrow> nat list" where
  "positions w = filter (\<lambda>i. bit w (63 - i)) [0..<64]"

lemma OnesCount64_positions: "OnesCount64 w = length (positions w)"
  by (simp add: OnesCount64_def bitlist_def positions_def filter_map comp_def)

lemma LeadingZeros64_first:
  assumes "w \<noteq> 0"
  shows "LeadingZeros64 w < 64 \<and> bit w (63 - LeadingZeros64 w) \<and> (\<forall>i < LeadingZeros64 w. \<not> bit w (63 - i))"
proof -
  from assms obtain n where n: "bit w n" by (auto simp: bit_eq_iff)
  then have "n < 64" using bit_imp_le_length [OF n] by simp
  with n have "\<exists>x \<in> set (bitlist w). x"
    by (auto simp: bitlist_def image_iff intro!: bexI [of _ "63 - n"])
  then have lt: "LeadingZeros64 w < length (bitlist w)"
    unfolding LeadingZeros64_def by (metis (full_types) takeWhile_eq_all_conv length_takeWhile_le le_neq_implies_less
        takeWhile_eq_take take_all_iff order_refl)
  then have "bitlist w ! LeadingZeros64 w"
    unfolding LeadingZeros64_def using nth_length_takeWhile by blast
  moreover have "\<not> bitlist w ! i" if "i < LeadingZeros64 w" for i
    using that unfolding LeadingZeros64_def
    by (metis nth_mem set_takeWhileD takeWhile_nth)
  ultimately show ?thesis using lt by (auto simp: bitlist_def)
qed

lemma positions_step:
  assumes "w \<noteq> 0"
  shows "positions w = LeadingZeros64 w #
    positions (w AND NOT (push_bit (63 - LeadingZeros64 w) 1))"
proof -
  let ?l = "LeadingZeros64 w"
  let ?w = "w AND NOT (push_bit (63 - ?l) 1)"
  note l = LeadingZeros64_first [OF assms]
  have cut: "[0..<64] = [0..<?l] @ ?l # [Suc ?l..<64]"
    using l upt_add_eq_append [of 0 ?l "64 - ?l"] upt_conv_Cons [of ?l 64]
    by (simp del: upt_rec_numeral)
  have b: "bit ?w (63 - i) \<longleftrightarrow> bit w (63 - i) \<and> i \<noteq> ?l" if "i < 64" for i
    using that l by (auto simp: bit_simps)
  have "filter (\<lambda>i. bit w (63 - i)) [0..<?l] = []" "filter (\<lambda>i. bit ?w (63 - i)) [0..<?l] = []"
    using l b by (auto simp: filter_empty_conv)
  moreover have "filter (\<lambda>i. bit ?w (63 - i)) [Suc ?l..<64] = filter (\<lambda>i. bit w (63 - i)) [Suc ?l..<64]"
    using b by (intro filter_cong) auto
  ultimately show ?thesis
    using l b [of ?l] by (simp add: positions_def cut del: upt_Suc)
qed

lemma positions_zero [simp]: "positions 0 = []"
  by (simp add: positions_def)

lemma in_positions [simp]: "i \<in> set (positions w) \<longleftrightarrow> i < 64 \<and> bit w (63 - i)"
  by (auto simp: positions_def)

subsection \<open>Iteration\<close>

text \<open>\<open>Range\<close> calls \<open>yield\<close> on each present element and stops when it returns false. The callback
  works on a state \<open>'s\<close> of its caller; the second component of a result says whether the
  iteration goes on.\<close>

function range_word :: "int \<Rightarrow> (int \<Rightarrow> 's \<Rightarrow> 's \<times> bool) \<Rightarrow> u64 \<Rightarrow> 's \<Rightarrow> 's \<times> bool" where
  "range_word base yield w s =
     (if w = 0 then (s, True)
      else let lz = LeadingZeros64 w;
               de = base + int lz + 1;
               w' = w AND NOT (push_bit (63 - lz) 1)
        in if de \<noteq> contSecondary \<and> de \<noteq> contTertiary then
             (case yield de s of (s', go) \<Rightarrow> if go then range_word base yield w' s' else (s', False))
           else range_word base yield w' s)"
  by pat_completeness auto

termination
  by (relation "measure (\<lambda>(base, yield, w, s). OnesCount64 w)")
    (simp_all add: OnesCount64_positions, simp_all add: positions_step)

declare range_word.simps [simp del]

fun range_words :: "bitmap \<Rightarrow> (int \<Rightarrow> 's \<Rightarrow> 's \<times> bool) \<Rightarrow> int list \<Rightarrow> 's \<Rightarrow> 's \<times> bool" where
  "range_words b yield [] s = (s, True)"
| "range_words b yield (w # ws) s =
     (case range_word (w * 64) yield (word_at b w) s of
        (s', go) \<Rightarrow> if go then range_words b yield ws s' else (s', False))"

definition Range :: "bitmap \<Rightarrow> (int \<Rightarrow> 's \<Rightarrow> 's \<times> bool) \<Rightarrow> 's \<Rightarrow> 's" where
  "Range b yield s = fst (range_words b yield [0, 1, 2] s)"

definition bitmap_string :: "bitmap \<Rightarrow> bytes" where
  "bitmap_string b =
     (let (out, first) = Range b (\<lambda>de (out, first).
            ((out @ (if \<not> first then [32] else []) @ fmt_int de, False), True)) (bytes_of ''Bitmap{'', True)
      in out @ bytes_of ''} width='' @ fmt_int (Width b))"

text \<open>The elements a range yields, as a list, and what a callback makes of a list.\<close>

definition data_elements :: "bitmap \<Rightarrow> int list" where
  "data_elements b = filter (\<lambda>de. IsSet b de \<and> de \<noteq> contSecondary \<and> de \<noteq> contTertiary) [1..192]"

fun run_yield :: "(int \<Rightarrow> 's \<Rightarrow> 's \<times> bool) \<Rightarrow> int list \<Rightarrow> 's \<Rightarrow> 's \<times> bool" where
  "run_yield yield [] s = (s, True)"
| "run_yield yield (de # ds) s =
     (case yield de s of (s', go) \<Rightarrow> if go then run_yield yield ds s' else (s', False))"

lemma run_yield_append:
  "run_yield yield (xs @ ys) s =
     (case run_yield yield xs s of (s', go) \<Rightarrow> if go then run_yield yield ys s' else (s', False))"
  by (induction xs arbitrary: s) (auto split: prod.split)

definition is_data :: "int \<Rightarrow> bool" where
  "is_data de \<longleftrightarrow> de \<noteq> contSecondary \<and> de \<noteq> contTertiary"

lemma range_word_eq:
  "range_word base yield w s =
     run_yield yield (filter is_data (map (\<lambda>i. base + int i + 1) (positions w))) s"
  unfolding is_data_def
proof (induction base yield w s rule: range_word.induct)
  case (1 base yield w s)
  show ?case
  proof (cases "w = 0")
    case True
    then show ?thesis by (simp add: range_word.simps)
  next
    case False
    with 1 show ?thesis
      by (subst range_word.simps, subst positions_step)
        (auto simp: Let_def split: prod.split)
  qed
qed

lemma IsSet_bit:
  "IsSet b de \<longleftrightarrow> 1 \<le> de \<and> de \<le> 192 \<and> bit (word_at b ((de - 1) div 64)) (63 - nat ((de - 1) mod 64))"
proof -
  have "nat (63 - (de - 1) mod 64) = 63 - nat ((de - 1) mod 64)" by (simp add: nat_diff_distrib)
  then show ?thesis
    by (auto simp: IsSet_def wordBit_def maxDEIndex_def Let_def and_exp_eq_0_iff_not_bit)
qed

lemma IsSet_word:
  "k \<in> {0, 1, 2} \<Longrightarrow> i < 64 \<Longrightarrow> IsSet b (k * 64 + int i + 1) \<longleftrightarrow> bit (word_at b k) (63 - i)"
  by (auto simp: IsSet_bit)

lemma word_elements:
  assumes "k \<in> {0, 1, 2}"
  shows "map (\<lambda>i. k * 64 + int i + 1) (positions (word_at b k))
    = filter (IsSet b) [k * 64 + 1..k * 64 + 64]"
proof -
  have up: "[k * 64 + 1..k * 64 + 64] = map (\<lambda>i. k * 64 + int i + 1) [0..<64]"
    by (rule nth_equalityI) (simp_all add: algebra_simps del: upto_rec_numeral upt_rec_numeral)
  have "positions (word_at b k) = filter (\<lambda>i. IsSet b (k * 64 + int i + 1)) [0..<64]"
    unfolding positions_def by (rule filter_cong) (simp_all add: IsSet_word [OF assms])
  then show ?thesis by (simp add: up filter_map comp_def del: upt_rec_numeral)
qed

lemma data_elements_words:
  "data_elements b = filter is_data (filter (IsSet b) [1..64])
     @ filter is_data (filter (IsSet b) [65..128]) @ filter is_data (filter (IsSet b) [129..192])"
proof -
  have "[1..192] = [1..64] @ [65..128] @ [129..192::int]"
    using upto_split2 [of 1 64 192] upto_split2 [of 65 128 192] by (simp del: upto_rec_numeral)
  then show ?thesis by (simp add: data_elements_def is_data_def del: upto_rec_numeral)
qed

lemma Range_eq: "Range b yield s = fst (run_yield yield (data_elements b) s)"
proof -
  note e = word_elements [of 0 b] word_elements [of 1 b] word_elements [of 2 b]
  show ?thesis
    using e by (simp add: Range_def range_word_eq data_elements_words run_yield_append
        split: prod.split del: upto_rec_numeral)
qed

subsection \<open>The bitmap as a set\<close>

definition in_range :: "int \<Rightarrow> bool" where
  "in_range de \<longleftrightarrow> 1 \<le> de \<and> de \<le> 192"

lemma word_index: "in_range de \<Longrightarrow> (de - 1) div 64 \<in> {0, 1, 2}"
  by (auto simp: in_range_def)

lemma word_at_put [simp]:
  "i \<in> {0, 1, 2} \<Longrightarrow> j \<in> {0, 1, 2} \<Longrightarrow> word_at (put_word b i v) j = (if i = j then v else word_at b j)"
  by (auto simp: word_at_def put_word_def)

lemma position_inj:
  "(d - 1) div 64 = (e - 1) div 64 \<Longrightarrow> 63 - nat ((d - 1) mod 64) = 63 - nat ((e - 1) mod 64) \<Longrightarrow> d = (e :: int)"
proof -
  assume div_eq: "(d - 1) div 64 = (e - 1) div 64"
    and mod_eq: "63 - nat ((d - 1) mod 64) = 63 - nat ((e - 1) mod 64)"
  have "nat ((d - 1) mod 64) < 64" "nat ((e - 1) mod 64) < 64" by (simp_all add: nat_less_iff)
  with mod_eq have "nat ((d - 1) mod 64) = nat ((e - 1) mod 64)" by linarith
  then have "(d - 1) mod 64 = (e - 1) mod 64" by simp
  with div_eq have "d - 1 = e - 1" by (metis div_mult_mod_eq)
  then show "d = e" by simp
qed

lemma mask_position: "nat (63 - (de - 1) mod 64) = 63 - nat ((de - 1) mod 64)"
  by (simp add: nat_diff_distrib)

lemma update_bits:
  assumes "in_range d" "in_range e"
    and "\<And>n. n < 64 \<Longrightarrow> bit (f (word_at b ((d - 1) div 64))) n \<longleftrightarrow>
      (if n = 63 - nat ((d - 1) mod 64) then on else bit (word_at b ((d - 1) div 64)) n)"
  shows "IsSet (put_word b ((d - 1) div 64) (f (word_at b ((d - 1) div 64)))) e \<longleftrightarrow>
    (if e = d then on else IsSet b e)"
proof -
  have idx: "(d - 1) div 64 \<in> {0, 1, 2}" "(e - 1) div 64 \<in> {0, 1, 2}"
    using assms(1,2) word_index by blast+
  show ?thesis
  proof (cases "e = d")
    case True
    have "63 - nat ((d - 1) mod 64) < 64" by simp
    with True assms show ?thesis unfolding IsSet_bit word_at_put [OF idx] in_range_def by simp
  next
    case False
    then have "(d - 1) div 64 = (e - 1) div 64 \<Longrightarrow> 63 - nat ((e - 1) mod 64) \<noteq> 63 - nat ((d - 1) mod 64)"
      using position_inj [of d e] by metis
    moreover have "63 - nat ((e - 1) mod 64) < 64" by simp
    ultimately show ?thesis
      using False assms(3) [of "63 - nat ((e - 1) mod 64)"]
      unfolding IsSet_bit word_at_put [OF idx]
      by (cases "(d - 1) div 64 = (e - 1) div 64") (simp_all only: if_False if_True simp_thms)
  qed
qed

lemma IsSet_range: "IsSet b e \<Longrightarrow> in_range e"
  by (simp add: IsSet_bit in_range_def)

lemma IsSet_empty: "\<not> IsSet bitmap0 e"
  by (simp add: IsSet_bit bitmap0_def word_at_def)

lemma IsSet_put_out: "\<not> in_range e \<Longrightarrow> \<not> IsSet b e"
  using IsSet_range by blast

lemma IsSet_Set: "IsSet (Set b d) e \<longleftrightarrow> IsSet b e \<or> e = d \<and> in_range d"
proof (cases "in_range d \<and> in_range e")
  case True
  then have "Set b d = put_word b ((d - 1) div 64)
      (word_at b ((d - 1) div 64) OR push_bit (63 - nat ((d - 1) mod 64)) 1)"
    by (auto simp: Set_def in_range_def maxDEIndex_def wordBit_def Let_def mask_position)
  moreover have "IsSet (put_word b ((d - 1) div 64)
      (word_at b ((d - 1) div 64) OR push_bit (63 - nat ((d - 1) mod 64)) 1)) e \<longleftrightarrow> (if e = d then True else IsSet b e)"
    using True by (intro update_bits) (auto simp: bit_simps)
  ultimately show ?thesis using True by auto
next
  case False
  then show ?thesis
    using IsSet_range [of _ e] by (auto simp: Set_def in_range_def maxDEIndex_def)
qed

lemma IsSet_Clear: "IsSet (Clear b d) e \<longleftrightarrow> IsSet b e \<and> e \<noteq> d"
proof (cases "in_range d \<and> in_range e")
  case True
  then have "Clear b d = put_word b ((d - 1) div 64)
      (word_at b ((d - 1) div 64) AND NOT (push_bit (63 - nat ((d - 1) mod 64)) 1))"
    by (auto simp: Clear_def in_range_def maxDEIndex_def wordBit_def Let_def mask_position)
  moreover have "IsSet (put_word b ((d - 1) div 64)
      (word_at b ((d - 1) div 64) AND NOT (push_bit (63 - nat ((d - 1) mod 64)) 1))) e \<longleftrightarrow> (if e = d then False else IsSet b e)"
    using True by (intro update_bits) (auto simp: bit_simps)
  ultimately show ?thesis using True by auto
next
  case False
  then show ?thesis
    using IsSet_range [of _ e] by (auto simp: Clear_def in_range_def maxDEIndex_def)
qed

lemma word_eq_IsSet:
  assumes "k \<in> {0, 1, 2}" and "\<And>de. in_range de \<Longrightarrow> IsSet a de \<longleftrightarrow> IsSet b de"
  shows "word_at a k = word_at b k"
proof (rule bit_word_eqI)
  fix n assume "n < LENGTH(64)"
  then have n: "63 - (63 - n) = n" "63 - n < 64" by simp_all
  then have "in_range (k * 64 + int (63 - n) + 1)" using assms(1) by (auto simp: in_range_def)
  then show "bit (word_at a k) n \<longleftrightarrow> bit (word_at b k) n"
    using assms n IsSet_word [of k "63 - n" a] IsSet_word [of k "63 - n" b] by simp
qed

lemma bitmap_eqI: "(\<And>de. in_range de \<Longrightarrow> IsSet a de \<longleftrightarrow> IsSet b de) \<Longrightarrow> a = b"
  using word_eq_IsSet [of 0 a b] word_eq_IsSet [of 1 a b] word_eq_IsSet [of 2 a b]
  by (simp add: word_at_def)

lemma Count_eq: "Count b = int (length (data_elements b))"
proof -
  let ?set = "filter (IsSet b) [1..192]"
  have all: "[1..192] = [1..64] @ [65..128] @ [129..192::int]"
    using upto_split2 [of 1 64 192] upto_split2 [of 65 128 192] by (simp del: upto_rec_numeral)
  have "length (positions (word_at b k)) = length (filter (IsSet b) [k * 64 + 1..k * 64 + 64])"
    if "k \<in> {0, 1, 2}" for k
    using word_elements [OF that, of b] by (metis length_map)
  note len = this [of 0] this [of 1] this [of 2]
  have ones: "OnesCount64 (word0 b) + OnesCount64 (word1 b) + OnesCount64 (word2 b) = length ?set"
    unfolding all using len by (simp add: OnesCount64_positions word_at_def del: upto_rec_numeral)
  have "filter (\<lambda>de. \<not> is_data de) ?set = filter (IsSet b) (filter (\<lambda>de. \<not> is_data de) [1..192])"
    by (simp only: filter_filter conj_commute)
  also have "filter (\<lambda>de. \<not> is_data de) [1..192] = [1, 65]"
  proof -
    have "[1..192] = 1 # [2..64] @ 65 # [66..192::int]"
      using upto_split2 [of 1 64 192] upto_rec1 [of 1 64] upto_rec1 [of 65 192]
      by (simp del: upto_rec_numeral)
    then show ?thesis
      by (simp add: is_data_def contSecondary_def contTertiary_def filter_empty_conv del: upto_rec_numeral)
  qed
  finally have rest: "filter (\<lambda>de. \<not> is_data de) ?set = filter (IsSet b) [1, 65]" .
  have "data_elements b = filter is_data ?set"
    by (simp add: data_elements_def is_data_def del: upto_rec_numeral)
  then have "int (length ?set) = int (length (data_elements b)) + int (length (filter (IsSet b) [1, 65]))"
    by (simp only: sum_length_filter_compl [of is_data ?set, symmetric] rest of_nat_add)
  then show ?thesis
    unfolding Count_def ones contSecondary_def contTertiary_def by (simp add: Let_def del: upto_rec_numeral)
qed

subsection \<open>The contract of a presence set\<close>

text \<open>What the engine relies on when it derives a bitmap from the present fields: elements can be
  added and removed one at a time, membership is all there is to a set, and elements outside the
  range are never members.\<close>

locale presence_set =
  fixes empty :: 'b
    and member :: "'b \<Rightarrow> int \<Rightarrow> bool"
    and ins :: "'b \<Rightarrow> int \<Rightarrow> 'b"
    and del :: "'b \<Rightarrow> int \<Rightarrow> 'b"
    and ok :: "int \<Rightarrow> bool"
  assumes member_empty: "\<not> member empty e"
    and member_ins: "member (ins b d) e \<longleftrightarrow> member b e \<or> e = d \<and> ok d"
    and member_del: "member (del b d) e \<longleftrightarrow> member b e \<and> e \<noteq> d"
    and extensional: "(\<And>e. ok e \<Longrightarrow> member a e \<longleftrightarrow> member b e) \<Longrightarrow> a = b"
begin

definition of_list :: "int list \<Rightarrow> 'b" where
  "of_list ds = fold (\<lambda>d b. ins b d) ds empty"

lemma member_fold: "member (fold (\<lambda>d b. ins b d) ds b) e \<longleftrightarrow> member b e \<or> e \<in> set ds \<and> ok e"
  by (induction ds arbitrary: b) (auto simp: member_ins)

lemma member_of_list: "member (of_list ds) e \<longleftrightarrow> e \<in> set ds \<and> ok e"
  by (simp add: of_list_def member_fold member_empty)

lemma of_list_canonical:
  assumes "\<And>e. ok e \<Longrightarrow> e \<in> set xs \<longleftrightarrow> e \<in> set ys"
  shows "of_list xs = of_list ys"
  using assms by (intro extensional) (simp add: member_of_list)

lemma del_ins: "\<not> member b d \<Longrightarrow> del (ins b d) d = b"
  by (rule extensional) (auto simp: member_ins member_del)

lemma ins_ins: "ins (ins b d) e = ins (ins b e) d"
  by (rule extensional) (auto simp: member_ins)

end

interpretation bm: presence_set bitmap0 IsSet Set Clear in_range
  by unfold_locales (fact IsSet_empty IsSet_Set IsSet_Clear bitmap_eqI)+

lemma data_elements_set: "set (data_elements b) = {de. IsSet b de \<and> is_data de}"
  by (auto simp: data_elements_def is_data_def dest: IsSet_range simp: in_range_def
      simp del: upto_rec_numeral)

lemma data_elements_sorted: "sorted_wrt (<) (data_elements b)"
  unfolding data_elements_def by (rule sorted_wrt_filter) (rule sorted_wrt_upto)

subsection \<open>Properties\<close>

text \<open>The bitmap implements a set of data elements: setting and clearing change exactly their own
  element, elements outside 1..192 never become present, and two bitmaps built from the same
  elements are equal whatever the order and the repetitions.\<close>

theorem bitmap_implements_set:
  "IsSet (Set b d) e = (IsSet b e \<or> e = d \<and> in_range d)
   \<and> IsSet (Clear b d) e = (IsSet b e \<and> e \<noteq> d)
   \<and> (set xs = set ys \<longrightarrow> fold (\<lambda>d b. Set b d) xs bitmap0 = fold (\<lambda>d b. Set b d) ys bitmap0)"
  using bm.of_list_canonical [of xs ys] bm.member_ins [of b d e] bm.member_del [of b d e]
  unfolding bm.of_list_def by blast

theorem bitmap_implements_set_witness:
  "fold (\<lambda>d b. Set b d) [2, 70] bitmap0 = fold (\<lambda>d b. Set b d) [70, 2, 70] bitmap0"
  using bitmap_implements_set [of bitmap0 1 1 "[2, 70]" "[70, 2, 70]"] by (simp add: insert_commute)

text \<open>The leading-zeros loop of \<open>Range\<close> visits exactly the present data elements, each once, in
  ascending order, never a continuation bit, and stops as soon as the callback asks; \<open>Count\<close> is
  the number of elements a full iteration visits.\<close>

theorem Range_visits:
  "Range b yield s = fst (run_yield yield (data_elements b) s)
   \<and> sorted_wrt (<) (data_elements b)
   \<and> set (data_elements b) = {de. IsSet b de \<and> de \<noteq> contSecondary \<and> de \<noteq> contTertiary}
   \<and> Count b = int (length (data_elements b))
   \<and> Range b (\<lambda>de ds. (ds @ [de], True)) [] = data_elements b"
proof -
  have "run_yield (\<lambda>de ds. (ds @ [de], True)) xs acc = (acc @ xs, True)" for xs acc :: "int list"
    by (induction xs arbitrary: acc) simp_all
  then show ?thesis
    using data_elements_sorted [of b] data_elements_set [of b, unfolded is_data_def]
    by (simp add: Range_eq Count_eq)
qed

end
