(* ===== verification/EBCDIC.thy ===== *)
theory EBCDIC
  imports Prelude
begin

text \<open>
  EBCDIC translation, \<^verbatim>\<open>src/internal/ebcdic/ebcdic.go\<close>: the two 256-entry arrays of a
  code page are functions on bytes, filled by the same loops as \<open>newTable\<close>.
\<close>

definition sub_byte :: byte where "sub_byte = 0x3F"
definition ebcdicQ :: byte where "ebcdicQ = 0x6F"
definition ebcdicSP :: byte where "ebcdicSP = 0x40"

record ebcdic_table =
  e2a :: "byte \<Rightarrow> byte"
  a2e :: "byte \<Rightarrow> byte"

definition DecodeByte :: "ebcdic_table \<Rightarrow> byte \<Rightarrow> byte" where
  "DecodeByte t b = e2a t b"

definition EncodeByte :: "ebcdic_table \<Rightarrow> byte \<Rightarrow> byte" where
  "EncodeByte t b = a2e t b"

definition ebcdic_decode :: "ebcdic_table \<Rightarrow> bytes \<Rightarrow> bytes" where
  "ebcdic_decode t b = map (e2a t) b"

definition ebcdic_encode :: "ebcdic_table \<Rightarrow> bytes \<Rightarrow> bytes" where
  "ebcdic_encode t b = map (a2e t) b"

definition invariant :: "(byte \<times> byte) list" where
  "invariant = [
     (0x40, 0x20),
     (0x4B, 0x2E), (0x4C, 0x3C), (0x4D, 0x28), (0x4E, 0x2B), (0x4F, 0x7C),
     (0x50, 0x26),
     (0x5A, 0x21), (0x5B, 0x24), (0x5C, 0x2A), (0x5D, 0x29), (0x5E, 0x3B),
     (0x60, 0x2D), (0x61, 0x2F),
     (0x6B, 0x2C), (0x6C, 0x25), (0x6D, 0x5F), (0x6E, 0x3E), (0x6F, 0x3F),
     (0x79, 0x60),
     (0x7A, 0x3A), (0x7B, 0x23), (0x7C, 0x40), (0x7D, 0x27), (0x7E, 0x3D), (0x7F, 0x22),
     (0xA1, 0x7E),
     (0xC0, 0x7B), (0xD0, 0x7D), (0xE0, 0x5C)]"

definition ranges :: "(byte \<times> byte \<times> nat) list" where
  "ranges = [
     (0xF0, 0x30, 10),
     (0xC1, 0x41, 9),
     (0xD1, 0x4A, 9),
     (0xE2, 0x53, 8),
     (0x81, 0x61, 9),
     (0x91, 0x6A, 9),
     (0xA2, 0x73, 8)]"

definition cp037Extra :: "(byte \<times> byte) list" where
  "cp037Extra = [(0xBA, 0x5B), (0xBB, 0x5D)]"

definition cp1047Extra :: "(byte \<times> byte) list" where
  "cp1047Extra = [(0x5F, 0x5E), (0xAD, 0x5B), (0xBD, 0x5D)]"

definition set_pair :: "byte \<times> byte \<Rightarrow> ebcdic_table \<Rightarrow> ebcdic_table" where
  "set_pair p t = t\<lparr>e2a := (e2a t)(fst p := snd p), a2e := (a2e t)(snd p := fst p)\<rparr>"

definition expand_range :: "byte \<times> byte \<times> nat \<Rightarrow> (byte \<times> byte) list" where
  "expand_range r = (case r of (e, a, n) \<Rightarrow> map (\<lambda>i. (e + of_nat i, a + of_nat i)) [0..<n])"

definition newTable :: "(byte \<times> byte) list \<Rightarrow> ebcdic_table" where
  "newTable extra =
     (let t0 = \<lparr>e2a = (\<lambda>_. sub_byte), a2e = (\<lambda>_. ebcdicQ)\<rparr>;
          t1 = fold set_pair invariant t0;
          t2 = fold (\<lambda>r. fold set_pair (expand_range r)) ranges t1;
          t3 = fold set_pair extra t2
      in t3\<lparr>a2e := (a2e t3)(0x20 := ebcdicSP)\<rparr>)"

datatype code_page = CP037 | CP1047

fun table_of :: "code_page \<Rightarrow> ebcdic_table" where
  "table_of CP037 = newTable cp037Extra"
| "table_of CP1047 = newTable cp1047Extra"

subsection \<open>The tables are inverse on the covered characters\<close>

text \<open>All assignments of a page, in the order \<open>newTable\<close> makes them.\<close>

definition page_pairs :: "(byte \<times> byte) list \<Rightarrow> (byte \<times> byte) list" where
  "page_pairs extra = invariant @ concat (map expand_range ranges) @ extra"

lemma fold_fold_concat: "fold (\<lambda>r. fold f (g r)) rs t = fold f (concat (map g rs)) t"
  by (induction rs arbitrary: t) simp_all

lemma fold_set_pair:
  "distinct (map fst ps) \<Longrightarrow> distinct (map snd ps) \<Longrightarrow>
     (\<forall>(e, a) \<in> set ps. e2a (fold set_pair ps t) e = a \<and> a2e (fold set_pair ps t) a = e)
     \<and> (\<forall>e. e \<notin> fst ` set ps \<longrightarrow> e2a (fold set_pair ps t) e = e2a t e)
     \<and> (\<forall>a. a \<notin> snd ` set ps \<longrightarrow> a2e (fold set_pair ps t) a = a2e t a)"
  by (induction ps arbitrary: t) (auto simp: set_pair_def image_iff)

lemma newTable_pairs:
  assumes "distinct (map fst (page_pairs extra))" and "distinct (map snd (page_pairs extra))"
    and "(e, a) \<in> set (page_pairs extra)"
  shows "e2a (newTable extra) e = a" and "a2e (newTable extra) a = e"
proof -
  define t0 where "t0 = \<lparr>e2a = (\<lambda>_. sub_byte), a2e = (\<lambda>_. ebcdicQ)\<rparr>"
  define t where "t = fold set_pair (page_pairs extra) t0"
  have new: "newTable extra = t\<lparr>a2e := (a2e t)(0x20 := ebcdicSP)\<rparr>"
    by (simp add: newTable_def t_def t0_def page_pairs_def fold_fold_concat Let_def)
  have all: "\<forall>(e, a) \<in> set (page_pairs extra). e2a t e = a \<and> a2e t a = e"
    using fold_set_pair [OF assms(1,2), of t0] by (simp add: t_def)
  moreover have "(0x40, 0x20) \<in> set (page_pairs extra)"
    by (simp add: page_pairs_def invariant_def)
  ultimately have sp: "a2e t 0x20 = 0x40" by auto
  from all assms(3) have "e2a t e = a" "a2e t a = e" by auto
  with new sp show "e2a (newTable extra) e = a" "a2e (newTable extra) a = e"
    by (auto simp: ebcdicSP_def)
qed

fun extra_of :: "code_page \<Rightarrow> (byte \<times> byte) list" where
  "extra_of CP037 = cp037Extra"
| "extra_of CP1047 = cp1047Extra"

lemma table_of_extra: "table_of cp = newTable (extra_of cp)"
  by (cases cp) simp_all

lemmas page_eval = page_pairs_def invariant_def ranges_def cp037Extra_def cp1047Extra_def
  expand_range_def upt_rec

lemma distinct_via: "distinct (map (\<lambda>x. f (g x)) xs) \<Longrightarrow> distinct (map g xs)"
  by (induction xs) auto

lemma pairs_distinct:
  "distinct (map fst (page_pairs (extra_of cp)))" "distinct (map snd (page_pairs (extra_of cp)))"
proof -
  have "distinct (map (\<lambda>p. unat (fst p)) (page_pairs (extra_of cp)))"
    by (cases cp) (simp_all add: page_eval)
  then show "distinct (map fst (page_pairs (extra_of cp)))" by (rule distinct_via)
  have "distinct (map (\<lambda>p. unat (snd p)) (page_pairs (extra_of cp)))"
    by (cases cp) (simp_all add: page_eval)
  then show "distinct (map snd (page_pairs (extra_of cp)))" by (rule distinct_via)
qed

text \<open>The characters a page carries: printable ASCII, but for \<open>^\<close>, which page 037 lacks.\<close>

definition covered :: "code_page \<Rightarrow> byte \<Rightarrow> bool" where
  "covered cp a \<longleftrightarrow> 0x20 \<le> a \<and> a \<le> 0x7E \<and> (cp = CP037 \<longrightarrow> a \<noteq> 0x5E)"

lemma covered_check:
  "list_all (\<lambda>n. cp = CP037 \<and> n = 94 \<or>
     n \<in> set (map (\<lambda>p. unat (snd p)) (page_pairs (extra_of cp)))) [32..<127]"
  by (cases cp) (simp_all add: page_eval)

lemma covered_pair:
  assumes "covered cp a"
  shows "\<exists>e. (e, a) \<in> set (page_pairs (extra_of cp))"
proof -
  have "unat a \<in> {32..<127}"
    using assms by (auto simp: covered_def word_le_nat_alt)
  moreover have "\<not> (cp = CP037 \<and> unat a = 94)"
    using assms by (auto simp: covered_def word_unat_eq_iff)
  ultimately have "unat a \<in> set (map (\<lambda>p. unat (snd p)) (page_pairs (extra_of cp)))"
    using covered_check [of cp, unfolded list_all_iff set_upt] by blast
  then show ?thesis by (auto simp: image_iff simp flip: word_unat_eq_iff)
qed

lemma covered_byte [simp]: "covered cp a \<Longrightarrow> e2a (table_of cp) (a2e (table_of cp) a) = a"
  using covered_pair [of cp a] newTable_pairs [OF pairs_distinct] by (auto simp: table_of_extra)

lemma ebcdic_roundtrip [roundtrip]:
  "list_all (covered cp) s \<Longrightarrow> ebcdic_decode (table_of cp) (ebcdic_encode (table_of cp) s) = s"
  by (induction s) (simp_all add: ebcdic_decode_def ebcdic_encode_def)

lemma length_ebcdic [simp]:
  "length (ebcdic_encode t s) = length s" "length (ebcdic_decode t s) = length s"
  by (simp_all add: ebcdic_encode_def ebcdic_decode_def)

lemma ebcdic_encode_append: "ebcdic_encode t (xs @ ys) = ebcdic_encode t xs @ ebcdic_encode t ys"
  by (simp add: ebcdic_encode_def)

lemma digit_covered: "is_digit c \<Longrightarrow> covered cp c"
  by (auto simp: is_digit_def covered_def word_le_nat_alt)

lemma digits_covered: "list_all is_digit s \<Longrightarrow> list_all (covered cp) s"
  by (auto simp: list_all_iff digit_covered)

subsection \<open>Properties\<close>

text \<open>On each code page every printable ASCII string the page carries survives encoding and
  decoding, byte for byte.\<close>

theorem ebcdic_codec_roundtrip:
  "list_all (covered cp) s \<Longrightarrow>
     length (ebcdic_encode (table_of cp) s) = length s
     \<and> ebcdic_decode (table_of cp) (ebcdic_encode (table_of cp) s) = s"
  by (simp add: ebcdic_roundtrip)

theorem ebcdic_codec_roundtrip_witness:
  "ebcdic_decode (table_of CP1047) (ebcdic_encode (table_of CP1047) [65, 94, 48]) = [65, 94, 48]"
  using ebcdic_codec_roundtrip [of CP1047 "[65, 94, 48]"] by (simp add: covered_def)

end
