(* ===== verification/Hex.thy ===== *)
theory Hex
  imports EBCDIC
begin

text \<open>
  Hexadecimal text: Go's \<^verbatim>\<open>encoding/hex\<close> as the sources use it, and the upper-casing
  pass of \<^verbatim>\<open>src/fieldcodec/bitmap.go\<close>.
\<close>

definition hex_char :: "byte \<Rightarrow> byte" where
  "hex_char n = (if n < 10 then 48 + n else 87 + n)"

definition from_hex_char :: "byte \<Rightarrow> byte option" where
  "from_hex_char c =
     (if 48 \<le> c \<and> c \<le> 57 then Some (c - 48)
      else if 97 \<le> c \<and> c \<le> 102 then Some (c - 97 + 10)
      else if 65 \<le> c \<and> c \<le> 70 then Some (c - 65 + 10)
      else None)"

primrec hex_encode :: "bytes \<Rightarrow> bytes" where
  "hex_encode [] = []"
| "hex_encode (x # xs) = hex_char (drop_bit 4 x) # hex_char (x AND 15) # hex_encode xs"

fun hex_decode :: "bytes \<Rightarrow> bytes option" where
  "hex_decode [] = Some []"
| "hex_decode [c] = None"
| "hex_decode (a # b # cs) =
     (case (from_hex_char a, from_hex_char b) of
        (Some hi, Some lo) \<Rightarrow> (case hex_decode cs of
            Some out \<Rightarrow> Some ((push_bit 4 hi OR lo) # out) | None \<Rightarrow> None)
      | _ \<Rightarrow> None)"

definition upper_hex_char :: "byte \<Rightarrow> byte" where
  "upper_hex_char c = (if 97 \<le> c \<and> c \<le> 102 then c - 97 + 65 else c)"

definition upperHex :: "bytes \<Rightarrow> bytes" where
  "upperHex b = map upper_hex_char b"

definition hex_text :: "byte \<Rightarrow> bool" where
  "hex_text c \<longleftrightarrow> 48 \<le> c \<and> c \<le> 57 \<or> 65 \<le> c \<and> c \<le> 70"

lemma nibble_list_all:
  assumes "list_all P (map of_nat [0..<16])" and "n < (16 :: byte)"
  shows "P n"
proof -
  have "unat n \<in> {0..<16}" using assms(2) by (simp add: word_less_nat_alt)
  moreover have "P (of_nat k)" if "k \<in> {0..<16}" for k
    using assms(1) that by (simp only: list_all_iff set_map set_upt) blast
  ultimately have "P (of_nat (unat n))" by blast
  then show ?thesis by simp
qed

lemma from_hex_char_lower [simp]: "n < 16 \<Longrightarrow> from_hex_char (hex_char n) = Some n"
  by (rule nibble_list_all) (simp_all add: upt_rec hex_char_def from_hex_char_def)

lemma from_hex_char_upper [simp]: "n < 16 \<Longrightarrow> from_hex_char (upper_hex_char (hex_char n)) = Some n"
  by (rule nibble_list_all) (simp_all add: upt_rec hex_char_def upper_hex_char_def from_hex_char_def)

lemma hex_text_upper [simp]: "n < 16 \<Longrightarrow> hex_text (upper_hex_char (hex_char n))"
  by (rule nibble_list_all) (simp_all add: upt_rec hex_char_def upper_hex_char_def hex_text_def)

lemma length_hex_encode [simp]: "length (hex_encode xs) = 2 * length xs"
  by (induction xs) simp_all

lemma length_upperHex [simp]: "length (upperHex b) = length b"
  by (simp add: upperHex_def)

lemma and_15_lt [simp]: "x AND 15 < (16 :: byte)"
  using take_bit_4_lt [of x] by (simp only: and_15)

lemma hex_roundtrip [simp]: "hex_decode (hex_encode xs) = Some xs"
  by (induction xs) (simp_all add: and_15)

lemma hex_roundtrip_upper [simp]: "hex_decode (upperHex (hex_encode xs)) = Some xs"
  by (induction xs) (simp_all add: upperHex_def and_15)

lemma hex_encode_text: "list_all hex_text (upperHex (hex_encode xs))"
  by (induction xs) (simp_all add: upperHex_def)

lemma length_hex_decode: "hex_decode s = Some xs \<Longrightarrow> length s = 2 * length xs"
  by (induction s arbitrary: xs rule: hex_decode.induct) (auto split: option.splits)

lemma hex_text_covered: "hex_text c \<Longrightarrow> covered cp c"
  by (auto simp: hex_text_def covered_def word_le_nat_alt)

lemma hex_texts_covered: "list_all hex_text s \<Longrightarrow> list_all (covered cp) s"
  by (auto simp: list_all_iff hex_text_covered)

end
