(* ===== verification/BCD.thy ===== *)
theory BCD
  imports Prelude
begin

text \<open>
  Packed binary-coded decimal, \<^verbatim>\<open>src/internal/bcd/bcd.go\<close>: two decimal digits per
  byte, high nibble first, an odd count padded with a zero nibble on the left
  (\<open>Pack\<close>, \<open>Unpack\<close>) or on the right (\<open>PackRight\<close>, \<open>UnpackRight\<close>).
\<close>

datatype bcd_error = BcdNonDigit | BcdBadNibble | BcdShort | BcdNegCount

definition PackedLen :: "int \<Rightarrow> int" where
  "PackedLen n = go_div (n + 1) 2"

definition nibble :: "byte \<Rightarrow> bcd_error + byte" where
  "nibble c = (if c < 48 \<or> c > 57 then Inl BcdNonDigit else Inr (c - 48))"

text \<open>The loop of \<open>Pack\<close> over the digits that remain; it is entered with an even
  number of them.\<close>

fun pack_loop :: "bytes \<Rightarrow> bcd_error + bytes" where
  "pack_loop (a # b # ds) =
     (case nibble a of Inl e \<Rightarrow> Inl e
      | Inr hi \<Rightarrow> (case nibble b of Inl e \<Rightarrow> Inl e
      | Inr lo \<Rightarrow> (case pack_loop ds of Inl e \<Rightarrow> Inl e
      | Inr out \<Rightarrow> Inr ((push_bit 4 hi OR lo) # out))))"
| "pack_loop _ = Inr []"

definition Pack :: "bytes \<Rightarrow> bcd_error + bytes" where
  "Pack digits =
     (if odd (length digits)
      then (case nibble (hd digits) of Inl e \<Rightarrow> Inl e
            | Inr d \<Rightarrow> (case pack_loop (tl digits) of Inl e \<Rightarrow> Inl e | Inr out \<Rightarrow> Inr (d # out)))
      else pack_loop digits)"

text \<open>The loop of \<open>Unpack\<close> over the packed bytes that remain.\<close>

fun unpack_loop :: "bytes \<Rightarrow> bcd_error + bytes" where
  "unpack_loop [] = Inr []"
| "unpack_loop (x # xs) =
     (let hi = drop_bit 4 x; lo = x AND 15
      in if hi > 9 \<or> lo > 9 then Inl BcdBadNibble
         else (case unpack_loop xs of Inl e \<Rightarrow> Inl e
               | Inr out \<Rightarrow> Inr ((48 + hi) # (48 + lo) # out)))"

definition Unpack :: "bytes \<Rightarrow> int \<Rightarrow> bcd_error + bytes" where
  "Unpack b n =
     (if n < 0 then Inl BcdNegCount
      else if PackedLen n > int (length b) then Inl BcdShort
      else let used = nat (PackedLen n)
        in if odd n
           then (let lo = hd b AND 15
                 in if lo > 9 then Inl BcdBadNibble
                    else (case unpack_loop (drop 1 (take used b)) of Inl e \<Rightarrow> Inl e
                          | Inr out \<Rightarrow> Inr ((48 + lo) # out)))
           else unpack_loop (take used b))"

fun PackRight :: "bytes \<Rightarrow> bcd_error + bytes" where
  "PackRight [] = Inr []"
| "PackRight [a] = (case nibble a of Inl e \<Rightarrow> Inl e | Inr hi \<Rightarrow> Inr [push_bit 4 hi OR 0])"
| "PackRight (a # b # ds) =
     (case nibble a of Inl e \<Rightarrow> Inl e
      | Inr hi \<Rightarrow> (case nibble b of Inl e \<Rightarrow> Inl e
      | Inr lo \<Rightarrow> (case PackRight ds of Inl e \<Rightarrow> Inl e
      | Inr out \<Rightarrow> Inr ((push_bit 4 hi OR lo) # out))))"

text \<open>The loop of \<open>UnpackRight\<close> over the digit positions that remain.\<close>

primrec unpack_right_loop :: "bytes \<Rightarrow> nat list \<Rightarrow> bcd_error + bytes" where
  "unpack_right_loop b [] = Inr []"
| "unpack_right_loop b (i # is) =
     (let nib = (if even i then drop_bit 4 (b ! (i div 2)) else b ! (i div 2) AND 15)
      in if nib > 9 then Inl BcdBadNibble
         else (case unpack_right_loop b is of Inl e \<Rightarrow> Inl e | Inr out \<Rightarrow> Inr ((48 + nib) # out)))"

definition UnpackRight :: "bytes \<Rightarrow> int \<Rightarrow> bcd_error + bytes" where
  "UnpackRight b n =
     (if n < 0 then Inl BcdNegCount
      else if PackedLen n > int (length b) then Inl BcdShort
      else unpack_right_loop b [0..<nat n])"

subsection \<open>Nibbles\<close>

lemma PackedLen_nat: "0 \<le> n \<Longrightarrow> PackedLen n = (n + 1) div 2"
  by (simp add: PackedLen_def go_div_pos)

lemma nibble_digit: "is_digit c \<Longrightarrow> nibble c = Inr (c - 48)"
  by (auto simp: nibble_def is_digit_def)

lemma nibble_Inr_iff: "nibble c = Inr d \<longleftrightarrow> is_digit c \<and> d = c - 48"
  by (auto simp: nibble_def is_digit_def)

lemma digit_nibble: "is_digit c \<Longrightarrow> c - 48 < 16" "is_digit c \<Longrightarrow> \<not> 9 < c - 48"
  by (auto simp: is_digit_def word_le_nat_alt word_less_nat_alt unat_sub)

lemma nibble_digit_ge: "\<not> 9 < (n :: byte) \<Longrightarrow> is_digit (48 + n)"
  by (simp add: is_digit_def word_le_nat_alt word_less_nat_alt unat_word_ariths)

lemmas nibble_simps = nibble_digit digit_nibble and_15 nibble_self

subsection \<open>Round trips\<close>

text \<open>Packing an even number of digits always succeeds, fills half as many bytes, and
  unpacks to the same digits.\<close>

lemma pack_loop_ok:
  "list_all is_digit ds \<Longrightarrow> even (length ds) \<Longrightarrow>
     \<exists>p. pack_loop ds = Inr p \<and> 2 * length p = length ds \<and> unpack_loop p = Inr ds"
proof (induction ds rule: pack_loop.induct)
  case (1 a b ds)
  then obtain p where "pack_loop ds = Inr p" "2 * length p = length ds" "unpack_loop p = Inr ds"
    by (auto simp: nibble_simps)
  with "1.prems" show ?case by (simp add: nibble_simps Let_def)
qed simp_all

lemma Pack_ok:
  assumes "list_all is_digit ds"
  shows "\<exists>p. Pack ds = Inr p \<and> int (length p) = PackedLen (int (length ds))
    \<and> Unpack (p @ rest) (int (length ds)) = Inr ds"
proof (cases "even (length ds)")
  case True
  with pack_loop_ok [OF assms] obtain p
    where p: "pack_loop ds = Inr p" "2 * length p = length ds" "unpack_loop p = Inr ds" by blast
  then have "PackedLen (int (length ds)) = int (length p)"
    by (simp add: PackedLen_nat)
  with p True show ?thesis by (simp add: Pack_def Unpack_def)
next
  case False
  then obtain c cs where ds: "ds = c # cs" by (cases ds) auto
  with False assms pack_loop_ok [of cs] obtain p
    where p: "pack_loop cs = Inr p" "2 * length p = length cs" "unpack_loop p = Inr cs" by auto
  have c: "is_digit c" using assms ds by simp
  have len: "PackedLen (1 + int (length cs)) = 1 + int (length p)"
    using p(2) by (simp add: PackedLen_nat)
  with p False c ds show ?thesis
    by (simp add: Pack_def Unpack_def nibble_simps Let_def nat_add_distrib)
qed

lemma pack_loop_digits: "pack_loop ds = Inr p \<Longrightarrow> even (length ds) \<Longrightarrow> list_all is_digit ds"
  by (induction ds arbitrary: p rule: pack_loop.induct)
    (auto simp: nibble_Inr_iff split: sum.splits)

lemma Pack_digits: "Pack ds = Inr p \<Longrightarrow> list_all is_digit ds"
proof (cases "even (length ds)")
  case True
  assume "Pack ds = Inr p"
  with True show ?thesis by (auto simp: Pack_def dest: pack_loop_digits)
next
  case False
  assume *: "Pack ds = Inr p"
  from False obtain c cs where "ds = c # cs" by (cases ds) auto
  with * False show ?thesis
    by (auto simp: Pack_def nibble_Inr_iff split: sum.splits dest: pack_loop_digits)
qed

lemma Pack_Inr_iff: "(\<exists>p. Pack ds = Inr p) \<longleftrightarrow> list_all is_digit ds"
  using Pack_ok Pack_digits by blast

text \<open>Unpacking yields exactly the requested number of digits, and only digits.\<close>

lemma unpack_loop_ok:
  "unpack_loop b = Inr ds \<Longrightarrow> list_all is_digit ds \<and> length ds = 2 * length b"
  by (induction b arbitrary: ds)
    (auto simp: Let_def nibble_digit_ge split: sum.splits if_splits)

lemma Unpack_digits:
  assumes "Unpack b n = Inr ds"
  shows "list_all is_digit ds \<and> int (length ds) = n"
proof -
  have n: "0 \<le> n" "PackedLen n \<le> int (length b)"
    using assms by (auto simp: Unpack_def split: if_splits)
  have len: "length (take (nat (PackedLen n)) b) = nat (PackedLen n)"
    using n by simp
  show ?thesis
  proof (cases "odd n")
    case True
    then obtain out where "unpack_loop (drop 1 (take (nat (PackedLen n)) b)) = Inr out"
      "ds = (48 + (hd b AND 15)) # out" "\<not> 9 < hd b AND 15"
      using assms n by (auto simp: Unpack_def Let_def split: if_splits sum.splits)
    moreover have "1 + 2 * (n div 2) = n" using True by (metis add.commute odd_two_times_div_two_succ)
    ultimately show ?thesis
      using unpack_loop_ok [of "drop 1 (take (nat (PackedLen n)) b)" out] len n True
      by (auto simp: nibble_digit_ge PackedLen_nat)
  next
    case False
    then have "unpack_loop (take (nat (PackedLen n)) b) = Inr ds"
      using assms n by (simp add: Unpack_def Let_def)
    with unpack_loop_ok [OF this] len n False show ?thesis
      by (auto simp: PackedLen_nat)
  qed
qed

subsection \<open>Right-aligned packing\<close>

lemma unpack_right_loop_shift:
  "unpack_right_loop (x # b) (map (\<lambda>i. Suc (Suc i)) is) = unpack_right_loop b is"
  by (induction "is") (auto simp: Let_def split: sum.split)

lemma upt_2: "[0..<Suc (Suc n)] = 0 # 1 # map (\<lambda>i. Suc (Suc i)) [0..<n]"
  by (induction n) simp_all

lemma PackRight_loop_ok:
  "list_all is_digit ds \<Longrightarrow>
     \<exists>p. PackRight ds = Inr p \<and> length p = (length ds + 1) div 2
       \<and> unpack_right_loop (p @ rest) [0..<length ds] = Inr ds"
proof (induction ds rule: PackRight.induct)
  case 1
  then show ?case by simp
next
  case (2 a)
  then show ?case by (simp add: nibble_simps Let_def)
next
  case (3 a b ds)
  then obtain p where p: "PackRight ds = Inr p" "length p = (length ds + 1) div 2"
      "unpack_right_loop (p @ rest) [0..<length ds] = Inr ds"
    by (auto simp: nibble_simps)
  with 3 show ?case
    by (simp add: nibble_simps Let_def upt_2 unpack_right_loop_shift del: upt_Suc)
qed

lemma PackRight_ok:
  assumes "list_all is_digit ds"
  shows "\<exists>p. PackRight ds = Inr p \<and> int (length p) = PackedLen (int (length ds))
    \<and> UnpackRight (p @ rest) (int (length ds)) = Inr ds"
proof -
  obtain p where "PackRight ds = Inr p" "length p = (length ds + 1) div 2"
      "unpack_right_loop (p @ rest) [0..<length ds] = Inr ds"
    using PackRight_loop_ok [OF assms] by blast
  then show ?thesis by (simp add: UnpackRight_def PackedLen_nat zdiv_int add.commute)
qed

lemma PackRight_digits: "PackRight ds = Inr p \<Longrightarrow> list_all is_digit ds"
  by (induction ds arbitrary: p rule: PackRight.induct)
    (auto simp: nibble_Inr_iff split: sum.splits)

subsection \<open>Properties\<close>

text \<open>Packing accepts exactly the digit strings, in both alignments; the packed form takes
  \<open>PackedLen\<close> bytes, and unpacking that many digits from the front of any buffer that starts
  with it returns the digits.\<close>

theorem bcd_roundtrip:
  "((\<exists>p. Pack ds = Inr p) \<longleftrightarrow> list_all is_digit ds)
   \<and> (list_all is_digit ds \<longrightarrow>
       (\<exists>p q. Pack ds = Inr p \<and> PackRight ds = Inr q
         \<and> int (length p) = PackedLen (int (length ds)) \<and> int (length q) = PackedLen (int (length ds))
         \<and> Unpack (p @ rest) (int (length ds)) = Inr ds
         \<and> UnpackRight (q @ rest) (int (length ds)) = Inr ds))"
  using Pack_ok [of ds rest] PackRight_ok [of ds rest] Pack_Inr_iff [of ds] by blast

theorem bcd_roundtrip_witness:
  "\<exists>p q. Pack [49, 50, 51] = Inr p \<and> PackRight [49, 50, 51] = Inr q
    \<and> Unpack (p @ [255]) 3 = Inr [49, 50, 51] \<and> UnpackRight (q @ [255]) 3 = Inr [49, 50, 51]"
  using bcd_roundtrip [of "[49, 50, 51]" "[255]"] by (simp add: is_digit_def) blast

end
