(* ===== verification/Decimal.thy ===== *)
theory Decimal
  imports Complex_Main Prelude
begin

text \<open>
  Exact fixed-point amounts, \<^verbatim>\<open>src/iso8583/decimal.go\<close>. An \<open>int64\<close> is an \<open>int\<close>
  in the range \<open>int64\<close>; every machine operation is written with the wrap-around
  \<open>wrap64\<close>, so that the overflow checks are checked and not assumed.
\<close>

definition int64 :: "int \<Rightarrow> bool" where
  "int64 x \<longleftrightarrow> - (2 ^ 63) \<le> x \<and> x < 2 ^ 63"

definition wrap64 :: "int \<Rightarrow> int" where
  "wrap64 x = (x + 2 ^ 63) mod 2 ^ 64 - 2 ^ 63"

text \<open>Go's remainder has the sign of the dividend.\<close>

definition go_mod :: "int \<Rightarrow> int \<Rightarrow> int" where
  "go_mod a b = a - b * go_div a b"

record decimal =
  Unscaled :: int
  Scale :: nat

datatype decimal_error = ErrDecimalOverflow | ErrDecimalPrecision | ErrScaleTooLarge

definition maxScale :: nat where "maxScale = 18"

text \<open>The loop of \<open>pow10\<close>, \<open>n\<close> rounds from \<open>r\<close>.\<close>

primrec pow10_loop :: "nat \<Rightarrow> int \<Rightarrow> int" where
  "pow10_loop 0 r = r"
| "pow10_loop (Suc n) r = pow10_loop n (wrap64 (r * 10))"

definition pow10 :: "nat \<Rightarrow> int option" where
  "pow10 n = (if n > maxScale then None else Some (pow10_loop n 1))"

definition NewDecimal :: "int \<Rightarrow> nat \<Rightarrow> decimal" where
  "NewDecimal unscaled scale = \<lparr>Unscaled = unscaled, Scale = scale\<rparr>"

definition decimal_string :: "decimal \<Rightarrow> bytes" where
  "decimal_string d =
     (if Scale d = 0 then fmt_int (Unscaled d)
      else let neg = Unscaled d < 0;
               mag = (if neg then nat (- (Unscaled d + 1)) + 1 else nat (Unscaled d));
               digits = fmt_nat mag;
               scale = Scale d
        in (if neg then [45] else []) @
           (if length digits \<le> scale
            then [48, 46] @ replicate (scale - length digits) 48 @ digits
            else let split = length digits - scale in take split digits @ [46] @ drop split digits))"

definition mulCheck :: "int \<Rightarrow> int \<Rightarrow> int option" where
  "mulCheck a b =
     (if a = 0 \<or> b = 0 then Some 0
      else let r = wrap64 (a * b) in if wrap64 (go_div r b) \<noteq> a then None else Some r)"

definition addCheck :: "int \<Rightarrow> int \<Rightarrow> int option" where
  "addCheck a b = (let r = wrap64 (a + b) in if (r > a) \<noteq> (b > 0) then None else Some r)"

definition Rescale :: "decimal \<Rightarrow> nat \<Rightarrow> decimal_error + decimal" where
  "Rescale d scale =
     (if scale > maxScale then Inl ErrScaleTooLarge
      else if scale = Scale d then Inr d
      else if scale > Scale d
      then (case pow10 (scale - Scale d) of
              None \<Rightarrow> Inl ErrDecimalOverflow
            | Some factor \<Rightarrow> (case mulCheck (Unscaled d) factor of
                None \<Rightarrow> Inl ErrDecimalOverflow
              | Some hi \<Rightarrow> Inr \<lparr>Unscaled = hi, Scale = scale\<rparr>))
      else (case pow10 (Scale d - scale) of
              None \<Rightarrow> Inl ErrDecimalOverflow
            | Some factor \<Rightarrow>
                if go_mod (Unscaled d) factor \<noteq> 0 then Inl ErrDecimalPrecision
                else Inr \<lparr>Unscaled = wrap64 (go_div (Unscaled d) factor), Scale = scale\<rparr>))"

definition decimal_add :: "decimal \<Rightarrow> decimal \<Rightarrow> decimal_error + decimal" where
  "decimal_add d d2 =
     (let scale = (if Scale d2 > Scale d then Scale d2 else Scale d)
      in case Rescale d scale of Inl e \<Rightarrow> Inl e
         | Inr a \<Rightarrow> (case Rescale d2 scale of Inl e \<Rightarrow> Inl e
         | Inr b \<Rightarrow> (case addCheck (Unscaled a) (Unscaled b) of
               None \<Rightarrow> Inl ErrDecimalOverflow
             | Some s \<Rightarrow> Inr \<lparr>Unscaled = s, Scale = scale\<rparr>)))"

definition decimal_IsZero :: "decimal \<Rightarrow> bool" where
  "decimal_IsZero d \<longleftrightarrow> Unscaled d = 0"

subsection \<open>Wrap-around and the overflow checks\<close>

lemma wrap64_id [simp]: "int64 x \<Longrightarrow> wrap64 x = x"
  by (simp add: int64_def wrap64_def)

lemma int64_wrap64 [simp]: "int64 (wrap64 x)"
  by (simp add: int64_def wrap64_def)

lemma wrap64_shift: "\<exists>k. wrap64 x = x + k * 2 ^ 64"
proof -
  have "wrap64 x = x - 2 ^ 64 * ((x + 2 ^ 63) div 2 ^ 64)"
    unfolding wrap64_def by (simp add: minus_mult_div_eq_mod [symmetric])
  then show ?thesis by (intro exI [of _ "- ((x + 2 ^ 63) div 2 ^ 64)"]) simp
qed

lemma addCheck_eq:
  assumes "int64 a" and "int64 b"
  shows "addCheck a b = (if int64 (a + b) then Some (a + b) else None)"
proof (cases "int64 (a + b)")
  case True
  then show ?thesis by (auto simp: addCheck_def)
next
  case False
  consider "a + b \<ge> 2 ^ 63" | "a + b < - (2 ^ 63)" using False by (auto simp: int64_def)
  then show ?thesis
  proof cases
    case 1
    then have "wrap64 (a + b) = a + b - 2 ^ 64"
      using assms unfolding wrap64_def int64_def by (simp add: mod_pos_geq)
    with 1 False assms show ?thesis by (auto simp: addCheck_def int64_def)
  next
    case 2
    then have "wrap64 (a + b) = a + b + 2 ^ 64"
      using assms unfolding wrap64_def int64_def
      by (subst mod_add_self2 [symmetric]) simp
    with 2 False assms show ?thesis by (auto simp: addCheck_def int64_def)
  qed
qed

lemma go_div_exact: "b \<noteq> 0 \<Longrightarrow> go_div (a * b) b = a"
proof -
  assume "b \<noteq> 0"
  then have "sgn b * sgn b = 1" by (simp add: sgn_if)
  with \<open>b \<noteq> 0\<close> show ?thesis by (simp add: go_div_def abs_mult sgn_mult mult.assoc mult_sgn_abs)
qed

lemma go_mod_bound: "b \<noteq> 0 \<Longrightarrow> \<bar>go_mod a b\<bar> < \<bar>b\<bar>"
proof -
  assume b: "b \<noteq> 0"
  have "go_mod a b = sgn a * (\<bar>a\<bar> mod \<bar>b\<bar>)"
    using b by (auto simp: go_mod_def go_div_def sgn_if minus_mult_div_eq_mod [symmetric] algebra_simps)
  then show ?thesis using b by (auto simp: sgn_if abs_mult)
qed

lemma go_mod_zero_iff: "b \<noteq> 0 \<Longrightarrow> go_mod a b = 0 \<longleftrightarrow> b dvd a"
proof
  assume "go_mod a b = 0"
  then have "a = b * go_div a b" by (simp add: go_mod_def)
  then show "b dvd a" by (rule dvdI)
next
  assume "b \<noteq> 0" "b dvd a"
  then obtain k where "a = k * b" by (auto elim: dvdE)
  with \<open>b \<noteq> 0\<close> show "go_mod a b = 0" by (simp add: go_mod_def go_div_exact)
qed

lemma mulCheck_eq:
  assumes "int64 a" and "int64 b" and "0 < b"
  shows "mulCheck a b = (if int64 (a * b) then Some (a * b) else None)"
proof (cases "a = 0")
  case True
  then show ?thesis by (simp add: mulCheck_def int64_def)
next
  case False
  obtain k where k: "wrap64 (a * b) = a * b + k * 2 ^ 64" using wrap64_shift by blast
  have "int64 (go_div (wrap64 (a * b)) b)"
  proof -
    have "\<bar>wrap64 (a * b)\<bar> div b \<le> \<bar>wrap64 (a * b)\<bar>"
      using assms(3) zdiv_mono2 [of "\<bar>wrap64 (a * b)\<bar>" 1 b] by simp
    moreover have "\<bar>wrap64 (a * b)\<bar> div b < 2 ^ 63 \<or> wrap64 (a * b) < 0"
      using calculation int64_wrap64 [of "a * b"] by (auto simp: int64_def)
    moreover have "\<bar>wrap64 (a * b)\<bar> \<le> 2 ^ 63"
      using int64_wrap64 [of "a * b"] by (auto simp: int64_def)
    moreover have "0 \<le> \<bar>wrap64 (a * b)\<bar> div b"
      using assms(3) by (simp add: pos_imp_zdiv_nonneg_iff)
    ultimately show ?thesis
      using assms(3) by (auto simp: go_div_def int64_def sgn_if)
  qed
  then have chk: "mulCheck a b = (if go_div (wrap64 (a * b)) b = a then Some (wrap64 (a * b)) else None)"
    using False assms(3) by (simp add: mulCheck_def Let_def)
  show ?thesis
  proof (cases "int64 (a * b)")
    case True
    then show ?thesis using chk assms(3) by (simp add: go_div_exact)
  next
    case over: False
    have "go_div (wrap64 (a * b)) b \<noteq> a"
    proof
      assume "go_div (wrap64 (a * b)) b = a"
      then have "go_mod (wrap64 (a * b)) b = k * 2 ^ 64"
        by (simp add: go_mod_def k)
      with go_mod_bound [of b "wrap64 (a * b)"] assms have "\<bar>k\<bar> * 2 ^ 64 < 2 ^ 63"
        by (simp add: int64_def abs_mult)
      then have "k = 0" by simp
      with k have "int64 (a * b)" by (metis add.right_neutral int64_wrap64 mult_zero_left)
      with over show False by simp
    qed
    with chk over show ?thesis by simp
  qed
qed

subsection \<open>Rescaling and addition are exact\<close>

lemma int64_shrink: "int64 (u * 10 ^ k) \<Longrightarrow> int64 u"
proof (cases "0 \<le> u")
  case True
  assume "int64 (u * 10 ^ k)"
  moreover have "u * 1 \<le> u * 10 ^ k" using True by (intro mult_left_mono) simp_all
  ultimately show ?thesis using True unfolding int64_def by linarith
next
  case False
  assume "int64 (u * 10 ^ k)"
  moreover have "u * 10 ^ k \<le> u * 1" using False by (intro mult_left_mono_neg) simp_all
  ultimately show ?thesis using False unfolding int64_def by linarith
qed

lemma pow10_loop_eq: "int64 (r * 10 ^ n) \<Longrightarrow> pow10_loop n r = r * 10 ^ n"
proof (induction n arbitrary: r)
  case 0
  then show ?case by simp
next
  case (Suc n)
  then have "int64 (r * 10)" using int64_shrink [of "r * 10" n] by (simp add: mult.assoc)
  with Suc show ?case by (simp add: mult.assoc)
qed

lemma pow10_le: "n \<le> 18 \<Longrightarrow> (10::int) ^ n \<le> 10 ^ 18"
  by (rule power_increasing) simp_all

lemma pow10_int64: "n \<le> 18 \<Longrightarrow> int64 (10 ^ n)"
  using pow10_le [of n] by (auto simp: int64_def intro: order_trans [of _ 0])

lemma pow10_eq: "pow10 n = (if n \<le> 18 then Some (10 ^ n) else None)"
  using pow10_loop_eq [of 1 n] pow10_int64 [of n] by (simp add: pow10_def maxScale_def)

text \<open>The number a decimal stands for.\<close>

definition dec_value :: "decimal \<Rightarrow> rat" where
  "dec_value d = of_int (Unscaled d) / 10 ^ Scale d"

text \<open>The number is an \<open>int64\<close> count of units of \<open>10\<^sup>-\<^sup>s\<close>.\<close>

definition fits :: "rat \<Rightarrow> nat \<Rightarrow> bool" where
  "fits q s \<longleftrightarrow> (\<exists>u. int64 u \<and> q = of_int u / 10 ^ s)"

lemma dec_value_down:
  "(of_int u :: rat) / 10 ^ (s + k) = of_int v / 10 ^ s \<longleftrightarrow> u = v * 10 ^ k"
proof -
  have "(of_int u :: rat) / 10 ^ (s + k) = of_int v / 10 ^ s \<longleftrightarrow> (of_int u :: rat) = of_int v * 10 ^ k"
    by (simp add: power_add field_simps)
  also have "\<dots> \<longleftrightarrow> (of_int u :: rat) = of_int (v * 10 ^ k)" by simp
  finally show ?thesis by (simp only: of_int_eq_iff)
qed

lemma dec_value_up:
  "(of_int u :: rat) / 10 ^ s = of_int v / 10 ^ (s + k) \<longleftrightarrow> v = u * 10 ^ k"
  by (rule trans [OF eq_commute]) (rule dec_value_down)

lemma fits_up: "fits (of_int u / 10 ^ s) (s + k) \<longleftrightarrow> int64 (u * 10 ^ k)"
  by (simp only: fits_def dec_value_up) simp

lemma fits_down: "int64 u \<Longrightarrow> fits (of_int u / 10 ^ (s + k)) s \<longleftrightarrow> 10 ^ k dvd u"
  unfolding fits_def dec_value_down dvd_def
  by (metis int64_shrink mult.commute)

lemma Rescale_up:
  assumes "int64 (Unscaled d)" and "Scale d < s" and "s \<le> 18"
  shows "Rescale d s =
    (if int64 (Unscaled d * 10 ^ (s - Scale d))
     then Inr \<lparr>Unscaled = Unscaled d * 10 ^ (s - Scale d), Scale = s\<rparr> else Inl ErrDecimalOverflow)"
  using assms mulCheck_eq [OF assms(1), of "10 ^ (s - Scale d)"]
  by (simp add: Rescale_def maxScale_def pow10_eq pow10_int64)

lemma Rescale_down:
  assumes "int64 (Unscaled d)" and "s < Scale d" and "Scale d - s \<le> 18"  and "s \<le> 18"
  shows "Rescale d s =
    (if 10 ^ (Scale d - s) dvd Unscaled d
     then Inr \<lparr>Unscaled = Unscaled d div 10 ^ (Scale d - s), Scale = s\<rparr> else Inl ErrDecimalPrecision)"
proof (cases "10 ^ (Scale d - s) dvd Unscaled d")
  case True
  then obtain u where u: "Unscaled d = u * 10 ^ (Scale d - s)" by (metis dvd_def mult.commute)
  then have "int64 u" using assms(1) by (simp add: int64_shrink)
  with True u assms show ?thesis
    by (simp add: Rescale_def maxScale_def pow10_eq go_mod_zero_iff go_div_exact)
next
  case False
  with assms show ?thesis by (simp add: Rescale_def maxScale_def pow10_eq go_mod_zero_iff)
qed

lemma Rescale_exact:
  assumes "int64 (Unscaled d)" and "Scale d \<le> 18"
  shows "(\<exists>d'. Rescale d s = Inr d') \<longleftrightarrow> s \<le> 18 \<and> fits (dec_value d) s"
    and "Rescale d s = Inr d' \<Longrightarrow> Scale d' = s \<and> int64 (Unscaled d') \<and> dec_value d' = dec_value d"
proof -
  consider "18 < s" | "s = Scale d" | "Scale d < s" "s \<le> 18" | "s < Scale d"
    using assms(2) by linarith
  then have "((\<exists>d'. Rescale d s = Inr d') \<longleftrightarrow> s \<le> 18 \<and> fits (dec_value d) s) \<and>
    (Rescale d s = Inr d' \<longrightarrow> Scale d' = s \<and> int64 (Unscaled d') \<and> dec_value d' = dec_value d)"
  proof cases
    case 1
    then show ?thesis by (simp add: Rescale_def maxScale_def)
  next
    case 2
    with assms show ?thesis by (auto simp: Rescale_def maxScale_def fits_def dec_value_def)
  next
    case 3
    then obtain k where k: "s = Scale d + k" by (metis less_imp_add_positive)
    have "fits (dec_value d) s \<longleftrightarrow> int64 (Unscaled d * 10 ^ k)"
      unfolding dec_value_def k by (rule fits_up)
    with Rescale_up [OF assms(1) 3] 3 k show ?thesis by (auto simp: dec_value_def power_add)
  next
    case 4
    then obtain k where k: "Scale d = s + k" by (metis less_imp_add_positive)
    have "fits (dec_value d) s \<longleftrightarrow> 10 ^ k dvd Unscaled d"
      unfolding dec_value_def k by (rule fits_down [OF assms(1)])
    with Rescale_down [OF assms(1) 4] 4 k assms show ?thesis
      by (auto simp: dec_value_def power_add mult.commute [of "10 ^ k"] elim!: dvdE dest: int64_shrink)
  qed
  then show "(\<exists>d'. Rescale d s = Inr d') \<longleftrightarrow> s \<le> 18 \<and> fits (dec_value d) s"
    and "Rescale d s = Inr d' \<Longrightarrow> Scale d' = s \<and> int64 (Unscaled d') \<and> dec_value d' = dec_value d"
    by blast+
qed

text \<open>Addition aligns both operands at the larger scale; it returns the exact sum, and it
  fails exactly when an aligned operand or the sum does not fit.\<close>

lemma decimal_add_exact:
  assumes "int64 (Unscaled d)" "Scale d \<le> 18" and "int64 (Unscaled d2)" "Scale d2 \<le> 18"
  defines "s \<equiv> max (Scale d) (Scale d2)"
  shows "(\<exists>r. decimal_add d d2 = Inr r) \<longleftrightarrow>
      fits (dec_value d) s \<and> fits (dec_value d2) s \<and> fits (dec_value d + dec_value d2) s"
    and "decimal_add d d2 = Inr r \<Longrightarrow>
      Scale r = s \<and> int64 (Unscaled r) \<and> dec_value r = dec_value d + dec_value d2"
proof -
  have s: "(if Scale d2 > Scale d then Scale d2 else Scale d) = s" "s \<le> 18"
    using assms(2,4) by (simp_all add: s_def)
  note up = Rescale_exact [OF assms(1,2), of s] Rescale_exact [OF assms(3,4), of s]
  have fits_sum: "fits (of_int a / 10 ^ s + of_int b / 10 ^ s) s \<longleftrightarrow> int64 (a + b)" for a b
  proof -
    have "(of_int a / 10 ^ s + of_int b / 10 ^ s :: rat) = of_int (a + b) / 10 ^ s"
      by (simp add: add_divide_distrib)
    then show ?thesis using fits_up [of "a + b" s 0] by simp
  qed
  have *: "decimal_add d d2 = (case addCheck (Unscaled a) (Unscaled b) of
        None \<Rightarrow> Inl ErrDecimalOverflow | Some v \<Rightarrow> Inr \<lparr>Unscaled = v, Scale = s\<rparr>)"
    if "Rescale d s = Inr a" "Rescale d2 s = Inr b" for a b
    using that by (simp add: decimal_add_def s Let_def)
  have none: "\<nexists>r. decimal_add d d2 = Inr r"
    if "\<not> (\<exists>a. Rescale d s = Inr a) \<or> \<not> (\<exists>b. Rescale d2 s = Inr b)"
    using that by (auto simp: decimal_add_def s Let_def split: sum.splits)
  have "((\<exists>r. decimal_add d d2 = Inr r) \<longleftrightarrow>
      fits (dec_value d) s \<and> fits (dec_value d2) s \<and> fits (dec_value d + dec_value d2) s) \<and>
    (decimal_add d d2 = Inr r \<longrightarrow>
      Scale r = s \<and> int64 (Unscaled r) \<and> dec_value r = dec_value d + dec_value d2)"
  proof (cases "(\<exists>a. Rescale d s = Inr a) \<and> (\<exists>b. Rescale d2 s = Inr b)")
    case True
    then obtain a b where ab: "Rescale d s = Inr a" "Rescale d2 s = Inr b" by blast
    have a: "Scale a = s" "int64 (Unscaled a)" "dec_value a = dec_value d"
      and b: "Scale b = s" "int64 (Unscaled b)" "dec_value b = dec_value d2"
      using up(2) [OF ab(1)] up(4) [OF ab(2)] by auto
    have sum: "dec_value d + dec_value d2 = of_int (Unscaled a) / 10 ^ s + of_int (Unscaled b) / 10 ^ s"
      using a b by (metis dec_value_def)
    have "fits (dec_value d) s" "fits (dec_value d2) s" using up(1,3) ab s by blast+
    with * [OF ab] addCheck_eq [OF a(2) b(2)] fits_sum [of "Unscaled a" "Unscaled b"] show ?thesis
      by (auto simp: sum) (auto simp: dec_value_def add_divide_distrib)
  next
    case False
    with none up(1,3) s show ?thesis by auto
  qed
  then show "(\<exists>r. decimal_add d d2 = Inr r) \<longleftrightarrow>
      fits (dec_value d) s \<and> fits (dec_value d2) s \<and> fits (dec_value d + dec_value d2) s"
    and "decimal_add d d2 = Inr r \<Longrightarrow>
      Scale r = s \<and> int64 (Unscaled r) \<and> dec_value r = dec_value d + dec_value d2"
    by blast+
qed

subsection \<open>Properties\<close>

text \<open>Rescaling never changes the value; it succeeds exactly when the target scale is at most
  18 and the same value has a 64-bit coefficient at that scale.\<close>

theorem Rescale_correct:
  assumes "int64 (Unscaled d)" and "Scale d \<le> 18"
  shows "((\<exists>d'. Rescale d s = Inr d') \<longleftrightarrow> s \<le> 18 \<and> fits (dec_value d) s)
    \<and> (\<forall>d'. Rescale d s = Inr d' \<longrightarrow> Scale d' = s \<and> int64 (Unscaled d') \<and> dec_value d' = dec_value d)"
  using Rescale_exact [OF assms] by blast

theorem Rescale_correct_witness:
  "\<exists>d'. Rescale \<lparr>Unscaled = 1250, Scale = 3\<rparr> 2 = Inr d' \<and> dec_value d' = dec_value \<lparr>Unscaled = 1250, Scale = 3\<rparr>"
proof -
  have "Rescale \<lparr>Unscaled = 1250, Scale = 3\<rparr> 2 = Inr \<lparr>Unscaled = 125, Scale = 2\<rparr>" by code_simp
  then show ?thesis
    using Rescale_correct [of "\<lparr>Unscaled = 1250, Scale = 3\<rparr>" 2] by (simp add: int64_def)
qed

text \<open>Addition of two decimals aligns them at the larger scale and returns the exact sum, or
  reports overflow exactly when an aligned operand or the sum has no 64-bit coefficient there.\<close>

theorem decimal_add_correct:
  assumes "int64 (Unscaled d)" "Scale d \<le> 18" and "int64 (Unscaled d2)" "Scale d2 \<le> 18"
  shows "((\<exists>r. decimal_add d d2 = Inr r) \<longleftrightarrow>
      fits (dec_value d) (max (Scale d) (Scale d2)) \<and> fits (dec_value d2) (max (Scale d) (Scale d2))
      \<and> fits (dec_value d + dec_value d2) (max (Scale d) (Scale d2)))
    \<and> (\<forall>r. decimal_add d d2 = Inr r \<longrightarrow>
      Scale r = max (Scale d) (Scale d2) \<and> dec_value r = dec_value d + dec_value d2)"
  using decimal_add_exact [OF assms] by blast

theorem decimal_add_correct_witness:
  "\<exists>r. decimal_add \<lparr>Unscaled = 15, Scale = 1\<rparr> \<lparr>Unscaled = 225, Scale = 2\<rparr> = Inr r \<and> Scale r = 2
     \<and> dec_value r = dec_value \<lparr>Unscaled = 15, Scale = 1\<rparr> + dec_value \<lparr>Unscaled = 225, Scale = 2\<rparr>"
proof -
  have "decimal_add \<lparr>Unscaled = 15, Scale = 1\<rparr> \<lparr>Unscaled = 225, Scale = 2\<rparr> = Inr \<lparr>Unscaled = 375, Scale = 2\<rparr>"
    by code_simp
  then show ?thesis
    using decimal_add_correct [of "\<lparr>Unscaled = 15, Scale = 1\<rparr>" "\<lparr>Unscaled = 225, Scale = 2\<rparr>"]
    by (simp add: int64_def)
qed

end
