(* ===== verification/FieldPath.thy ===== *)
theory FieldPath
  imports Prelude
begin

text \<open>
  Field paths, \<^verbatim>\<open>src/iso8583/path.go\<close>: the inline array and its length are a list of
  at most \<open>maxPathDepth\<close> elements (unused array slots are always zero values), and
  the process-wide memo of \<open>ParsePath\<close> is an explicit state \<open>path_cache\<close> that each
  parse takes and returns.
\<close>

definition maxPathDepth :: nat where "maxPathDepth = 6"

text \<open>\<open>N\<close> is an \<open>int32\<close>, \<open>-1\<close> for a tag element.\<close>

record path_elem =
  N :: int
  Tag :: bytes

type_synonym field_path = "path_elem list"

definition to_int32 :: "int \<Rightarrow> int" where
  "to_int32 n = (n + 2 ^ 31) mod 2 ^ 32 - 2 ^ 31"

definition IsTag :: "path_elem \<Rightarrow> bool" where
  "IsTag e \<longleftrightarrow> Tag e \<noteq> []"

definition elem_string :: "path_elem \<Rightarrow> bytes" where
  "elem_string e = (if Tag e \<noteq> [] then Tag e else fmt_int (N e))"

definition DE :: "int \<Rightarrow> field_path" where
  "DE n = [\<lparr>N = to_int32 n, Tag = []\<rparr>]"

definition path_Len :: "field_path \<Rightarrow> int" where
  "path_Len p = int (length p)"

text \<open>\<open>None\<close> is the panic.\<close>

definition path_At :: "field_path \<Rightarrow> int \<Rightarrow> path_elem option" where
  "path_At p i = (if i < 0 \<or> i \<ge> path_Len p then None else Some (p ! nat i))"

definition path_Head :: "field_path \<Rightarrow> path_elem option" where
  "path_Head p = path_At p 0"

definition path_Tail :: "field_path \<Rightarrow> field_path" where
  "path_Tail p = (if length p \<le> 1 then [] else drop 1 p)"

definition path_Push :: "field_path \<Rightarrow> path_elem \<Rightarrow> field_path option" where
  "path_Push p e = (if length p \<ge> maxPathDepth then None else Some (p @ [e]))"

fun path_string :: "field_path \<Rightarrow> bytes" where
  "path_string [] = []"
| "path_string [e] = elem_string e"
| "path_string (e # es) = elem_string e @ [46] @ path_string es"

definition path_IsZero :: "field_path \<Rightarrow> bool" where
  "path_IsZero p \<longleftrightarrow> p = []"

subsection \<open>Parsing\<close>

datatype elem_error = EmptyElem | InvalidChar | InvalidElem | OutOfRange

datatype path_error = ErrEmptyPath | ErrPathTooDeep | PathError bytes elem_error

definition is_upper_hex :: "byte \<Rightarrow> bool" where
  "is_upper_hex c \<longleftrightarrow> 65 \<le> c \<and> c \<le> 70"

definition is_lower_hex :: "byte \<Rightarrow> bool" where
  "is_lower_hex c \<longleftrightarrow> 97 \<le> c \<and> c \<le> 102"

definition to_upper :: "byte \<Rightarrow> byte" where
  "to_upper c = (if 97 \<le> c \<and> c \<le> 122 then c - 32 else c)"

definition ToUpper :: "bytes \<Rightarrow> bytes" where
  "ToUpper s = map to_upper s"

text \<open>The scan of \<open>parseElem\<close>: \<open>None\<close> at an invalid character, otherwise whether a hex
  letter was seen (then \<open>allDigits\<close> is false).\<close>

fun scan_elem :: "bytes \<Rightarrow> bool \<Rightarrow> bool option" where
  "scan_elem [] hasHex = Some hasHex"
| "scan_elem (c # cs) hasHex =
     (if is_digit c then scan_elem cs hasHex
      else if is_upper_hex c \<or> is_lower_hex c then scan_elem cs True
      else None)"

definition parseElem :: "bytes \<Rightarrow> elem_error + path_elem" where
  "parseElem seg =
     (case scan_elem seg False of
        None \<Rightarrow> Inl InvalidChar
      | Some True \<Rightarrow> Inr \<lparr>N = -1, Tag = ToUpper seg\<rparr>
      | Some False \<Rightarrow> (case parse_int 32 seg of
            Inl _ \<Rightarrow> Inl OutOfRange
          | Inr n \<Rightarrow> Inr \<lparr>N = to_int32 n, Tag = []\<rparr>))"

text \<open>One completed segment \<open>seg\<close> of the input \<open>s\<close>, added to the path so far.\<close>

definition add_segment :: "bytes \<Rightarrow> bytes \<Rightarrow> field_path \<Rightarrow> path_error + field_path" where
  "add_segment s seg p =
     (if seg = [] then Inl (PathError s EmptyElem)
      else if length p \<ge> maxPathDepth then Inl ErrPathTooDeep
      else (case parseElem seg of Inl e \<Rightarrow> Inl (PathError s e) | Inr el \<Rightarrow> Inr (p @ [el])))"

text \<open>The loop of \<open>parsePathUncached\<close>: the input that remains, the current segment and the
  path so far.\<close>

fun parse_loop :: "bytes \<Rightarrow> bytes \<Rightarrow> bytes \<Rightarrow> field_path \<Rightarrow> path_error + field_path" where
  "parse_loop s [] seg p = add_segment s seg p"
| "parse_loop s (c # cs) seg p =
     (if c \<noteq> 46 then parse_loop s cs (seg @ [c]) p
      else (case add_segment s seg p of Inl e \<Rightarrow> Inl e | Inr p' \<Rightarrow> parse_loop s cs [] p'))"

definition parsePathUncached :: "bytes \<Rightarrow> path_error + field_path" where
  "parsePathUncached s =
     (case parse_loop s s [] [] of Inl e \<Rightarrow> Inl e
      | Inr p \<Rightarrow> if p = [] then Inl ErrEmptyPath else Inr p)"

record path_cache =
  cache_m :: "bytes \<rightharpoonup> field_path"
  cache_size :: nat
  ring :: "bytes list"
  cache_next :: nat
  limit :: nat

definition pathCache0 :: path_cache where
  "pathCache0 = \<lparr>cache_m = Map.empty, cache_size = 0, ring = replicate 512 [], cache_next = 0, limit = 512\<rparr>"

definition cacheLookup :: "path_cache \<Rightarrow> bytes \<Rightarrow> field_path option" where
  "cacheLookup c s = cache_m c s"

text \<open>\<open>cache_size\<close> is \<open>len(pathCache.m)\<close>: deleting a present key lowers it, storing an absent
  one raises it.\<close>

definition cache_delete :: "bytes \<Rightarrow> path_cache \<Rightarrow> path_cache" where
  "cache_delete k c =
     c\<lparr>cache_m := (cache_m c)(k := None),
       cache_size := (if cache_m c k = None then cache_size c else cache_size c - 1)\<rparr>"

definition cache_put :: "bytes \<Rightarrow> field_path \<Rightarrow> path_cache \<Rightarrow> path_cache" where
  "cache_put k p c =
     c\<lparr>cache_m := (cache_m c)(k \<mapsto> p),
       cache_size := (if cache_m c k = None then cache_size c + 1 else cache_size c)\<rparr>"

definition cacheStore :: "bytes \<Rightarrow> field_path \<Rightarrow> path_cache \<Rightarrow> path_cache" where
  "cacheStore s p c =
     (if cache_m c s \<noteq> None then c
      else let old = ring c ! cache_next c;
               c1 = (if cache_size c \<ge> limit c \<and> old \<noteq> [] then cache_delete old c else c);
               c2 = cache_put s p c1
        in c2\<lparr>ring := (ring c2)[cache_next c2 := s],
              cache_next := (cache_next c2 + 1) mod limit c2\<rparr>)"

definition ParsePath :: "path_cache \<Rightarrow> bytes \<Rightarrow> path_cache \<times> (path_error + field_path)" where
  "ParsePath c s =
     (if s = [] then (c, Inl ErrEmptyPath)
      else case cacheLookup c s of
        Some p \<Rightarrow> (c, Inr p)
      | None \<Rightarrow> (case parsePathUncached s of
            Inl e \<Rightarrow> (c, Inl e)
          | Inr p \<Rightarrow> (cacheStore s p c, Inr p)))"

definition MustPath :: "path_cache \<Rightarrow> bytes \<Rightarrow> (path_cache \<times> field_path) option" where
  "MustPath c s = (case ParsePath c s of (c', Inl _) \<Rightarrow> None | (c', Inr p) \<Rightarrow> Some (c', p))"

subsection \<open>Printing and parsing are inverse\<close>

text \<open>The canonical elements: a non-negative \<open>int32\<close>, or an upper-case hex tag with at least
  one letter.\<close>

definition is_hex_char :: "byte \<Rightarrow> bool" where
  "is_hex_char c \<longleftrightarrow> is_digit c \<or> is_upper_hex c \<or> is_lower_hex c"

definition wf_elem :: "path_elem \<Rightarrow> bool" where
  "wf_elem e \<longleftrightarrow>
     (if Tag e = [] then 0 \<le> N e \<and> N e < 2 ^ 31
      else N e = -1 \<and> list_all (\<lambda>c. is_digit c \<or> is_upper_hex c) (Tag e) \<and> list_ex is_upper_hex (Tag e))"

definition wf_path :: "field_path \<Rightarrow> bool" where
  "wf_path p \<longleftrightarrow> p \<noteq> [] \<and> length p \<le> maxPathDepth \<and> list_all wf_elem p"

lemma scan_elem_eq:
  "scan_elem s h = (if list_all is_hex_char s then Some (h \<or> \<not> list_all is_digit s) else None)"
  by (induction s arbitrary: h) (auto simp: is_hex_char_def)

lemma hex_digit_disjoint: "is_digit c \<Longrightarrow> \<not> is_upper_hex c" "is_digit c \<Longrightarrow> \<not> is_lower_hex c"
  by (auto simp: is_digit_def is_upper_hex_def is_lower_hex_def word_le_nat_alt)

lemma to_upper_hex:
  "is_digit c \<Longrightarrow> to_upper c = c" "is_upper_hex c \<Longrightarrow> to_upper c = c"
  "is_lower_hex c \<Longrightarrow> is_upper_hex (to_upper c)"
  by (auto simp: is_digit_def is_upper_hex_def is_lower_hex_def to_upper_def word_le_nat_alt unat_sub)

lemma ToUpper_id: "list_all (\<lambda>c. is_digit c \<or> is_upper_hex c) t \<Longrightarrow> ToUpper t = t"
  by (induction t) (auto simp: ToUpper_def to_upper_hex)

lemma to_int32_id: "0 \<le> n \<Longrightarrow> n < 2 ^ 31 \<Longrightarrow> to_int32 n = n"
  by (simp add: to_int32_def)

lemma digits_hex: "list_all is_digit s \<Longrightarrow> list_all is_hex_char s"
  by (auto simp: list_all_iff is_hex_char_def)

lemma parseElem_string:
  assumes "wf_elem e"
  shows "parseElem (elem_string e) = Inr e"
proof (cases "Tag e = []")
  case True
  with assms have n: "0 \<le> N e" "N e < 2 ^ 31" by (simp_all add: wf_elem_def)
  have str: "elem_string e = fmt_nat (nat (N e))" using True n by (simp add: elem_string_def fmt_int_def)
  have "parse_int 32 (fmt_nat (nat (N e))) = Inr (N e)"
    using parse_int_digits [of "fmt_nat (nat (N e))" 32] fmt_nat_digits n by simp
  with True n show ?thesis
    by (simp add: parseElem_def str scan_elem_eq digits_hex fmt_nat_digits to_int32_id)
next
  case False
  with assms have "list_all is_hex_char (Tag e)" "\<not> list_all is_digit (Tag e)" "ToUpper (Tag e) = Tag e"
      "N e = -1"
    by (auto simp: wf_elem_def list_all_iff list_ex_iff is_hex_char_def intro: ToUpper_id
        dest: hex_digit_disjoint(1))
  with False show ?thesis by (simp add: parseElem_def elem_string_def scan_elem_eq)
qed

lemma parseElem_wf:
  assumes "parseElem seg = Inr e" and "seg \<noteq> []"
  shows "wf_elem e"
proof (cases "list_all is_digit seg")
  case True
  with assms have "parse_int 32 seg = Inr (int (dec_val seg))" "dec_val seg < 2 ^ 31"
      "e = \<lparr>N = to_int32 (int (dec_val seg)), Tag = []\<rparr>"
    by (auto simp: parseElem_def scan_elem_eq digits_hex parse_int_def Let_def
        split: if_splits sum.splits dest: list.set_sel(1) simp: list_all_iff)
  then show ?thesis by (simp add: wf_elem_def to_int32_id)
next
  case False
  with assms have hex: "list_all is_hex_char seg" and e: "e = \<lparr>N = -1, Tag = ToUpper seg\<rparr>"
    by (auto simp: parseElem_def scan_elem_eq split: if_splits)
  have "list_all (\<lambda>c. is_digit c \<or> is_upper_hex c) (ToUpper seg)"
    using hex by (auto simp: list_all_iff ToUpper_def is_hex_char_def to_upper_hex)
  moreover have "list_ex is_upper_hex (ToUpper seg)"
    using hex False unfolding list_all_iff list_ex_iff ToUpper_def is_hex_char_def set_map
    by (metis imageI to_upper_hex(2,3))
  moreover have "ToUpper seg \<noteq> []" using assms(2) by (simp add: ToUpper_def)
  ultimately show ?thesis by (simp add: wf_elem_def e)
qed

lemma elem_string_nodot: "wf_elem e \<Longrightarrow> 46 \<notin> set (elem_string e) \<and> elem_string e \<noteq> []"
  using fmt_nat_digits [of "nat (N e)"]
  by (auto simp: wf_elem_def elem_string_def fmt_int_def list_all_iff is_digit_def is_upper_hex_def
      word_le_nat_alt split: if_splits)

lemma parse_loop_skip:
  "46 \<notin> set xs \<Longrightarrow> parse_loop s (xs @ ys) seg p = parse_loop s ys (seg @ xs) p"
  by (induction xs arbitrary: seg) auto

lemma parse_loop_string:
  assumes "list_all wf_elem q" and "q \<noteq> []" and "length p + length q \<le> maxPathDepth"
  shows "parse_loop s (path_string q) [] p = Inr (p @ q)"
  using assms
proof (induction q arbitrary: p rule: path_string.induct)
  case (2 e)
  then show ?case
    using elem_string_nodot [of e] parse_loop_skip [of "elem_string e" s "[]" "[]" p]
    by (simp add: add_segment_def parseElem_string)
next
  case (3 e e' es)
  then have "wf_elem e" "length p < maxPathDepth" by simp_all
  then show ?case
    using 3 elem_string_nodot [of e]
    by (simp add: parse_loop_skip add_segment_def parseElem_string)
qed simp

lemma parse_print: "wf_path p \<Longrightarrow> parsePathUncached (path_string p) = Inr p"
  by (simp add: parsePathUncached_def wf_path_def parse_loop_string)

lemma add_segment_wf:
  "add_segment s seg p = Inr p' \<Longrightarrow> length p \<le> maxPathDepth \<Longrightarrow> list_all wf_elem p \<Longrightarrow> wf_path p'"
  by (auto simp: add_segment_def wf_path_def dest: parseElem_wf split: if_splits sum.splits)

lemma parse_loop_wf:
  "parse_loop s cs seg p = Inr q \<Longrightarrow> length p \<le> maxPathDepth \<Longrightarrow> list_all wf_elem p \<Longrightarrow> wf_path q"
proof (induction s cs seg p rule: parse_loop.induct)
  case (1 s seg p)
  then show ?case by (auto dest: add_segment_wf)
next
  case (2 s c cs seg p)
  show ?case
  proof (cases "c = 46")
    case True
    with "2.prems" obtain p' where p': "add_segment s seg p = Inr p'" "parse_loop s cs [] p' = Inr q"
      by (auto split: sum.splits)
    with "2.prems" have "wf_path p'" by (auto dest: add_segment_wf)
    with "2.IH"(2) True p' show ?thesis by (simp add: wf_path_def)
  next
    case False
    with 2 show ?thesis by simp
  qed
qed

lemma parse_wf: "parsePathUncached s = Inr p \<Longrightarrow> wf_path p"
  by (auto simp: parsePathUncached_def dest!: parse_loop_wf split: sum.splits if_splits)

subsection \<open>The memo is transparent and bounded\<close>

text \<open>The ring is filled from the left; the keys it holds are exactly the keys of the map.\<close>

definition cache_inv :: "path_cache \<Rightarrow> bool" where
  "cache_inv c \<longleftrightarrow>
     0 < limit c \<and> length (ring c) = limit c \<and> cache_next c < limit c
     \<and> (\<forall>s p. cache_m c s = Some p \<longrightarrow> parsePathUncached s = Inr p)
     \<and> cache_size c \<le> limit c
     \<and> distinct (take (cache_size c) (ring c))
     \<and> dom (cache_m c) = set (take (cache_size c) (ring c))
     \<and> [] \<notin> dom (cache_m c)
     \<and> (cache_size c < limit c \<longrightarrow> cache_next c = cache_size c)"

lemma cache_inv_init: "cache_inv pathCache0"
  by (simp add: cache_inv_def pathCache0_def)

lemma cacheStore_inv:
  assumes inv: "cache_inv c" and "s \<noteq> []" and "parsePathUncached s = Inr p"
  shows "cache_inv (cacheStore s p c)"
proof (cases "cache_m c s = None")
  case False
  with inv show ?thesis by (simp add: cacheStore_def)
next
  case new: True
  then have s_new: "s \<notin> set (take (cache_size c) (ring c))"
    using inv unfolding cache_inv_def by (metis domIff)
  show ?thesis
  proof (cases "cache_size c < limit c")
    case True
    then have nx: "cache_next c = cache_size c" "cache_size c < length (ring c)"
      using inv by (simp_all add: cache_inv_def)
    have upd: "take (Suc (cache_size c)) ((ring c)[cache_size c := s]) = take (cache_size c) (ring c) @ [s]"
      using nx by (simp add: take_Suc_conv_app_nth take_update_swap list_update_append)
    have "cacheStore s p c =
        c\<lparr>cache_m := (cache_m c)(s \<mapsto> p), cache_size := Suc (cache_size c),
          ring := (ring c)[cache_size c := s], cache_next := Suc (cache_size c) mod limit c\<rparr>"
      using True new nx by (simp add: cacheStore_def cache_put_def Let_def)
    with inv True assms(2,3) upd s_new show ?thesis
      by (auto simp: cache_inv_def mod_Suc split: if_splits)
  next
    case False
    then have full: "cache_size c = limit c" "take (cache_size c) (ring c) = ring c"
      using inv by (simp_all add: cache_inv_def)
    let ?old = "ring c ! cache_next c"
    have old: "?old \<in> set (ring c)" using inv by (simp add: cache_inv_def)
    then have old_in: "cache_m c ?old \<noteq> None" "?old \<noteq> []"
      using inv full unfolding cache_inv_def by (metis domIff)+
    have "cacheStore s p c =
        c\<lparr>cache_m := (cache_m c)(?old := None, s \<mapsto> p), cache_size := limit c,
          ring := (ring c)[cache_next c := s], cache_next := Suc (cache_next c) mod limit c\<rparr>"
      using False new old_in full inv
      by (auto simp: cacheStore_def cache_put_def cache_delete_def Let_def cache_inv_def)
    moreover have "set ((ring c)[cache_next c := s]) = insert s (set (ring c) - {?old})"
      using inv full(2) set_update_distinct [of "ring c" "cache_next c" s]
      by (simp add: cache_inv_def)
    moreover have "distinct ((ring c)[cache_next c := s])"
      using inv full s_new distinct_list_update [of "ring c" s "cache_next c"]
      by (auto simp: cache_inv_def)
    ultimately show ?thesis
      using inv full assms(2,3) by (auto simp: cache_inv_def)
  qed
qed

lemma ParsePath_inv: "cache_inv c \<Longrightarrow> cache_inv (fst (ParsePath c s))"
  by (auto simp: ParsePath_def cacheLookup_def cacheStore_inv split: option.split sum.split)

lemma ParsePath_transparent:
  "cache_inv c \<Longrightarrow> snd (ParsePath c s) = (if s = [] then Inl ErrEmptyPath else parsePathUncached s)"
  by (auto simp: ParsePath_def cacheLookup_def cache_inv_def split: option.split sum.split)

lemma cache_inv_card: "cache_inv c \<Longrightarrow> card (dom (cache_m c)) = cache_size c \<and> cache_size c \<le> limit c"
  by (auto simp: cache_inv_def distinct_card)

lemma ParsePath_limit: "limit (fst (ParsePath c s)) = limit c"
  by (auto simp: ParsePath_def cacheStore_def cache_put_def cache_delete_def Let_def
      split: option.split sum.split)

lemma parse_runs_inv: "cache_inv c \<Longrightarrow> cache_inv (fold (\<lambda>s c. fst (ParsePath c s)) ss c)"
  by (induction ss arbitrary: c) (simp_all add: ParsePath_inv)

lemma parse_runs_limit: "limit (fold (\<lambda>s c. fst (ParsePath c s)) ss c) = limit c"
  by (induction ss arbitrary: c) (simp_all add: ParsePath_limit)

subsection \<open>Properties\<close>

text \<open>Whatever the parser accepts is a canonical path of one to six elements, and printing any
  canonical path and parsing it again returns the same path; so parsing is stable under
  re-printing.\<close>

theorem path_roundtrip:
  "(wf_path p \<longrightarrow> parsePathUncached (path_string p) = Inr p)
   \<and> (parsePathUncached s = Inr q \<longrightarrow> wf_path q \<and> parsePathUncached (path_string q) = Inr q)"
  using parse_print parse_wf by blast

theorem path_roundtrip_witness:
  "parsePathUncached (bytes_of ''55.9f26'') = Inr [\<lparr>N = 55, Tag = []\<rparr>, \<lparr>N = -1, Tag = bytes_of ''9F26''\<rparr>]
   \<and> parsePathUncached (path_string [\<lparr>N = 55, Tag = []\<rparr>, \<lparr>N = -1, Tag = bytes_of ''9F26''\<rparr>])
     = Inr [\<lparr>N = 55, Tag = []\<rparr>, \<lparr>N = -1, Tag = bytes_of ''9F26''\<rparr>]"
proof -
  have "parsePathUncached (bytes_of ''55.9f26'') = Inr [\<lparr>N = 55, Tag = []\<rparr>, \<lparr>N = -1, Tag = bytes_of ''9F26''\<rparr>]"
    by code_simp
  then show ?thesis
    using path_roundtrip [of "[]" "bytes_of ''55.9f26''"] by blast
qed

text \<open>After any sequence of parses the memo holds at most its limit of 512 paths, and every parse
  returns what the uncached parser returns.\<close>

theorem path_cache_transparent:
  fixes ss :: "bytes list"
  defines "c \<equiv> fold (\<lambda>s c. fst (ParsePath c s)) ss pathCache0"
  shows "card (dom (cache_m c)) = cache_size c \<and> cache_size c \<le> 512
    \<and> snd (ParsePath c s) = (if s = [] then Inl ErrEmptyPath else parsePathUncached s)"
proof -
  have "cache_inv c" "limit c = 512"
    by (simp_all add: c_def parse_runs_inv cache_inv_init parse_runs_limit, simp add: pathCache0_def)
  with cache_inv_card [of c] ParsePath_transparent [of c s] show ?thesis by simp
qed

end
