(* ===== verification/Errors.thy ===== *)
theory Errors
  imports BCD Decimal FieldPath
begin

text \<open>
  The errors of the message engine and of the codec packages, one constructor per error value of
  \<^verbatim>\<open>src/iso8583/errors.go\<close>, \<^verbatim>\<open>src/fieldcodec/fieldcodec.go\<close>,
  \<^verbatim>\<open>src/lengthcodec/length.go\<close>, \<^verbatim>\<open>src/fieldcodec/tlv/bertlv.go\<close> and
  \<^verbatim>\<open>src/fieldcodec/subfield/subfield.go\<close>; errors of the packages below are wrapped.
  \<open>Panic\<close> stands for a Go run-time panic (a nil dereference or an index out of range) on a branch
  where the code does not guard against it.
\<close>

datatype error =
    ErrTooLong | ErrNonDigit | ErrNegative | ErrOddNibble | ErrBadHex | ErrShortBitmap
  | ErrLenTruncated | ErrLenOverflow | ErrLenBadDigit
  | ErrTlvTruncated | ErrTlvIndefinite | ErrTlvNotComposite | ErrSubNotComposite
  | errNotPresent | errNotText | errNotNumeric | errWrongKind | errTruncated | errUnknownDE
  | errSealed | errBadLength | errNoComposite
  | errNestedTLV field_path | errDENotComposite int | errUnsupportedType
  | ErrBCD bcd_error | ErrDecimal decimal_error | ErrNum num_error | ErrHex | ErrPath path_error
  | FieldError (err_path: field_path) (err_offset: int) (err_name: bytes) (err_cause: error)
  | Panic

type_synonym 'a result = "error + 'a"

text \<open>Sequencing of fallible steps: the first error stops.\<close>

definition bind_result :: "'a result \<Rightarrow> ('a \<Rightarrow> 'b result) \<Rightarrow> 'b result" where
  "bind_result r f = (case r of Inl e \<Rightarrow> Inl e | Inr x \<Rightarrow> f x)"

lemma bind_result_simps [simp]: "bind_result (Inl e) f = Inl e" "bind_result (Inr x) f = f x"
  by (simp_all add: bind_result_def)

lemma bind_result_Inr: "bind_result r f = Inr y \<longleftrightarrow> (\<exists>x. r = Inr x \<and> f x = Inr y)"
  by (cases r) simp_all

lemma bind_result_cong [fundef_cong]:
  "r = r' \<Longrightarrow> (\<And>x. r' = Inr x \<Longrightarrow> f x = f' x) \<Longrightarrow> bind_result r f = bind_result r' f'"
  by (cases r') (simp_all add: bind_result_def)

end
