(* ===== verification/BitmapCodec.thy ===== *)
theory BitmapCodec
  imports Bitmap Hex Errors
begin

text \<open>
  The bitmap wire codecs, \<^verbatim>\<open>src/fieldcodec/bitmap.go\<close>: the three word representations
  behind the \<open>wordRepr\<close> interface, and the codec that reads and writes one to three levels
  through it. The reader's laws are proved once for any representation that satisfies the
  interface contract, and the contract is shown of all three.
\<close>

datatype word_repr = BinWord | HexWord | EbcdicWord

definition contMSB :: u64 where "contMSB = push_bit 63 1"

text \<open>The words to emit, the secondary and tertiary ones only where the level is emitted, and the
  number of levels.\<close>

definition levelWords :: "bitmap \<Rightarrow> int \<Rightarrow> u64 list \<times> nat" where
  "levelWords bm maxLevels =
     (let w0 = word0 bm; w1 = word1 bm; w2 = word2 bm;
          need3 = (w2 \<noteq> 0 \<and> maxLevels \<ge> 3);
          need2 = ((w1 \<noteq> 0 \<or> need3) \<and> maxLevels \<ge> 2)
      in ([if need2 then w0 OR contMSB else w0, if need3 then w1 OR contMSB else w1, w2],
          if need3 then 3 else if need2 then 2 else 1))"

definition wireLen :: "word_repr \<Rightarrow> int" where
  "wireLen r = (case r of BinWord \<Rightarrow> 8 | HexWord \<Rightarrow> 16 | EbcdicWord \<Rightarrow> 16)"

definition PutUint64 :: "u64 \<Rightarrow> bytes" where
  "PutUint64 w = be_bytes 8 (unat w)"

definition Uint64 :: "bytes \<Rightarrow> u64" where
  "Uint64 bs = of_nat (be_val (take 8 bs))"

definition repr_put :: "word_repr \<Rightarrow> bytes \<Rightarrow> u64 \<Rightarrow> bytes" where
  "repr_put r dst w = (case r of
      BinWord \<Rightarrow> dst @ PutUint64 w
    | HexWord \<Rightarrow> dst @ upperHex (hex_encode (PutUint64 w))
    | EbcdicWord \<Rightarrow> dst @ ebcdic_encode (table_of CP037) (upperHex (hex_encode (PutUint64 w))))"

definition repr_get :: "word_repr \<Rightarrow> bytes \<Rightarrow> u64 option" where
  "repr_get r s = (case r of
      BinWord \<Rightarrow> Some (Uint64 s)
    | HexWord \<Rightarrow> map_option Uint64 (hex_decode s)
    | EbcdicWord \<Rightarrow> map_option Uint64 (hex_decode (ebcdic_decode (table_of CP037) s)))"

definition repr_name :: "word_repr \<Rightarrow> bytes" where
  "repr_name r = (case r of BinWord \<Rightarrow> bytes_of ''bitmap.bin'' | HexWord \<Rightarrow> bytes_of ''bitmap.hex''
     | EbcdicWord \<Rightarrow> bytes_of ''bitmap.ebcdic'')"

fun read_levels :: "word_repr \<Rightarrow> bytes \<Rightarrow> int \<Rightarrow> int list \<Rightarrow> int \<Rightarrow> bitmap \<Rightarrow> (bitmap \<times> int) result" where
  "read_levels r src maxLevels [] off bm = Inr (bm, off)"
| "read_levels r src maxLevels (level # levels) off bm =
     (let wl = wireLen r in
      if off < 0 \<or> off > int (length src) \<or> int (length src) - off < wl then Inl ErrShortBitmap
      else case repr_get r (slice src off (off + wl)) of
        None \<Rightarrow> Inl ErrBadHex
      | Some w \<Rightarrow>
          let bm' = put_word bm level w; off' = off + wl
          in if w AND contMSB = 0 \<or> level + 1 \<ge> maxLevels then Inr (bm', off')
             else read_levels r src maxLevels levels off' bm')"

definition ReadBitmap :: "word_repr \<Rightarrow> bytes \<Rightarrow> int \<Rightarrow> int \<Rightarrow> (bitmap \<times> int) result" where
  "ReadBitmap r src off maxLevels = read_levels r src maxLevels [0, 1, 2] off bitmap0"

definition WriteBitmap :: "word_repr \<Rightarrow> bytes \<Rightarrow> bitmap \<Rightarrow> int \<Rightarrow> bytes result" where
  "WriteBitmap r dst bm maxLevels =
     (case levelWords bm maxLevels of (w, n) \<Rightarrow> Inr (foldl (repr_put r) dst (take n w)))"

lemma and_contMSB: "w AND contMSB = 0 \<longleftrightarrow> \<not> bit w 63"
  unfolding contMSB_def push_bit_of_1 by (rule and_exp_eq_0_iff_not_bit)

lemma bit_contMSB: "bit contMSB n \<longleftrightarrow> n = 63"
  unfolding contMSB_def push_bit_of_1 bit_exp_iff by (auto simp: possible_bit_def)

lemma contMSB_nonzero [simp]: "contMSB \<noteq> 0"
  using bit_contMSB [of 63] by auto

subsection \<open>The word representation contract\<close>

locale word_codec =
  fixes r :: word_repr
  assumes put_append: "repr_put r dst w = dst @ repr_put r [] w"
    and put_length: "int (length (repr_put r [] w)) = wireLen r"
    and get_put: "repr_get r (repr_put r [] w) = Some w"
begin

lemma read_level:
  assumes "src = pre @ repr_put r [] w @ rest" and "off = int (length pre)"
  shows "read_levels r src maxLevels (level # levels) off bm =
    (if w AND contMSB = 0 \<or> level + 1 \<ge> maxLevels then Inr (put_word bm level w, off + wireLen r)
     else read_levels r src maxLevels levels (off + wireLen r) (put_word bm level w))"
proof -
  have "slice src off (off + wireLen r) = repr_put r [] w"
    using assms by (simp add: slice_append_mid flip: put_length [of w])
  then show ?thesis
    using assms put_length [of w] by (simp add: get_put Let_def)
qed

definition written :: "bitmap \<Rightarrow> int \<Rightarrow> bytes" where
  "written bm ml = (case levelWords bm ml of (w, n) \<Rightarrow> foldl (repr_put r) [] (take n w))"

lemma foldl_put: "foldl (repr_put r) dst ws = dst @ concat (map (repr_put r []) ws)"
proof (induction ws arbitrary: dst)
  case Nil
  then show ?case by simp
next
  case (Cons w ws)
  have "foldl (repr_put r) dst (w # ws) = repr_put r dst w @ concat (map (repr_put r []) ws)"
    by (simp add: Cons)
  then show ?case using put_append [of dst w] by simp
qed

lemma WriteBitmap_written: "WriteBitmap r dst bm ml = Inr (dst @ written bm ml)"
  by (simp add: WriteBitmap_def written_def foldl_put split: prod.split)

text \<open>What the reader finds in a written bitmap: the emitted words, the others zero.\<close>

definition reread :: "bitmap \<Rightarrow> int \<Rightarrow> bitmap" where
  "reread bm ml = (case levelWords bm ml of (w, n) \<Rightarrow>
     \<lparr>word0 = w ! 0, word1 = (if n \<ge> 2 then w ! 1 else 0), word2 = (if n \<ge> 3 then w ! 2 else 0)\<rparr>)"

lemma read_written:
  assumes "1 \<le> ml" "2 \<le> ml \<Longrightarrow> word0 bm AND contMSB = 0" "3 \<le> ml \<Longrightarrow> word1 bm AND contMSB = 0"
    and src: "src = pre @ written bm ml @ rest" and off: "off = int (length pre)"
  shows "ReadBitmap r src off ml = Inr (reread bm ml, off + int (length (written bm ml)))"
proof -
  let ?w = "fst (levelWords bm ml)" and ?n = "snd (levelWords bm ml)"
  have wr: "written bm ml = concat (map (repr_put r []) (take ?n ?w))"
    by (simp add: written_def foldl_put split: prod.split)
  consider "?n = 1" "ml < 2 \<or> ?w ! 0 AND contMSB = 0"
    | "?n = 2" "2 \<le> ml" "?w ! 0 AND contMSB \<noteq> 0" "ml < 3 \<or> ?w ! 1 AND contMSB = 0"
    | "?n = 3" "3 \<le> ml" "?w ! 0 AND contMSB \<noteq> 0" "?w ! 1 AND contMSB \<noteq> 0"
    using assms(1-3)
    by (cases "3 \<le> ml"; cases "2 \<le> ml"; cases "word2 bm = 0"; cases "word1 bm = 0")
      (simp_all add: levelWords_def Let_def)
  then show ?thesis
  proof cases
    case 1
    then have "written bm ml = repr_put r [] (?w ! 0)"
      by (simp add: wr levelWords_def Let_def)
    with 1 src off read_level [OF _ off, of src "?w ! 0" rest] show ?thesis
      by (auto simp: ReadBitmap_def reread_def put_length put_word_def bitmap0_def split: prod.split)
  next
    case 2
    then have "written bm ml = repr_put r [] (?w ! 0) @ repr_put r [] (?w ! 1)"
      by (simp add: wr levelWords_def Let_def numeral_2_eq_2)
    with 2 src off read_level [OF _ off, of src "?w ! 0" "repr_put r [] (?w ! 1) @ rest"]
      read_level [of src "pre @ repr_put r [] (?w ! 0)" "?w ! 1" rest "off + wireLen r"]
    show ?thesis
      by (auto simp: ReadBitmap_def reread_def put_length put_word_def bitmap0_def split: prod.split)
  next
    case 3
    then have "written bm ml = repr_put r [] (?w ! 0) @ repr_put r [] (?w ! 1) @ repr_put r [] (?w ! 2)"
      by (simp add: wr levelWords_def Let_def numeral_3_eq_3 numeral_2_eq_2)
    with 3 src off read_level [OF _ off, of src "?w ! 0" "repr_put r [] (?w ! 1) @ repr_put r [] (?w ! 2) @ rest"]
      read_level [of src "pre @ repr_put r [] (?w ! 0)" "?w ! 1" "repr_put r [] (?w ! 2) @ rest" "off + wireLen r"]
      read_level [of src "pre @ repr_put r [] (?w ! 0) @ repr_put r [] (?w ! 1)" "?w ! 2" rest "off + wireLen r + wireLen r"]
    show ?thesis
      by (auto simp: ReadBitmap_def reread_def put_length put_word_def bitmap0_def split: prod.split)
  qed
qed

lemma contMSB_IsSet:
  "word0 bm AND contMSB = 0 \<longleftrightarrow> \<not> IsSet bm 1" "word1 bm AND contMSB = 0 \<longleftrightarrow> \<not> IsSet bm 65"
  by (simp_all add: and_contMSB IsSet_bit word_at_def)

lemma IsSet_reread:
  assumes "is_data de"
  shows "IsSet (reread bm ml) de \<longleftrightarrow> IsSet bm de \<and> (ml < 3 \<longrightarrow> de \<le> 128) \<and> (ml < 2 \<longrightarrow> de \<le> 64)"
proof (cases "in_range de")
  case False
  then show ?thesis using IsSet_range by blast
next
  case True
  obtain k i where de: "de = k * 64 + int i + 1" "k \<in> {0, 1, 2}" "i < 64"
  proof
    show "de = (de - 1) div 64 * 64 + int (nat ((de - 1) mod 64)) + 1" by simp
    show "(de - 1) div 64 \<in> {0, 1, 2}" using word_index [OF True] .
    show "nat ((de - 1) mod 64) < 64" by (simp add: nat_less_iff)
  qed
  have i0: "i \<noteq> 0" if "k = 0 \<or> k = 1"
    using assms that de by (auto simp: is_data_def contSecondary_def contTertiary_def)
  have msb: "bit (w OR contMSB) (63 - i) \<longleftrightarrow> bit w (63 - i)" if "i \<noteq> 0" for w :: u64
    using that by (auto simp: bit_or_iff bit_contMSB)
  have w: "IsSet b de \<longleftrightarrow> bit (word_at b k) (63 - i)" for b
    using IsSet_word [OF de(2,3)] de(1) by simp
  show ?thesis
    unfolding w using de(2,3) i0 msb
    by (auto simp: reread_def levelWords_def Let_def word_at_def de(1) split: if_splits)
qed

end

lemma Uint64_PutUint64 [simp]: "Uint64 (PutUint64 w) = w"
proof -
  have "unat w < 256 ^ 8" using unsigned_less [of w] by simp
  then show ?thesis by (simp add: Uint64_def PutUint64_def be_val_be_bytes_id)
qed

lemma length_PutUint64 [simp]: "length (PutUint64 w) = 8"
  by (simp add: PutUint64_def)

interpretation bin_word: word_codec BinWord
  by unfold_locales (simp_all add: repr_put_def repr_get_def wireLen_def)

interpretation hex_word: word_codec HexWord
  by unfold_locales (simp_all add: repr_put_def repr_get_def wireLen_def)

interpretation ebcdic_word: word_codec EbcdicWord
  by unfold_locales (simp_all add: repr_put_def repr_get_def wireLen_def ebcdic_roundtrip
      hex_texts_covered hex_encode_text del: table_of.simps)

lemma word_codec_all: "word_codec r"
  by (cases r) (simp_all add: bin_word.word_codec_axioms hex_word.word_codec_axioms
      ebcdic_word.word_codec_axioms)

lemma bitmap_reread:
  assumes "1 \<le> ml" "2 \<le> ml \<Longrightarrow> \<not> IsSet bm 1" "3 \<le> ml \<Longrightarrow> \<not> IsSet bm 65"
  shows "\<exists>wire bm'. (\<forall>dst. WriteBitmap r dst bm ml = Inr (dst @ wire))
    \<and> (\<forall>pre rest. ReadBitmap r (pre @ wire @ rest) (int (length pre)) ml
        = Inr (bm', int (length pre) + int (length wire)))
    \<and> (\<forall>de. is_data de \<longrightarrow>
        IsSet bm' de = (IsSet bm de \<and> (ml < 3 \<longrightarrow> de \<le> 128) \<and> (ml < 2 \<longrightarrow> de \<le> 64)))"
proof -
  note wc = word_codec_all [of r]
  note rw = word_codec.read_written [OF wc assms(1), unfolded word_codec.contMSB_IsSet [OF wc]]
  show ?thesis
    using word_codec.WriteBitmap_written [OF wc, of _ bm ml] rw [OF assms(2,3) refl refl]
      word_codec.IsSet_reread [OF wc, of _ bm ml] by blast
qed

lemma data_elements_cong:
  assumes "\<And>de. is_data de \<Longrightarrow> IsSet a de = (IsSet b de \<and> P de)"
  shows "data_elements a = filter P (data_elements b)"
  unfolding data_elements_def filter_filter
  by (rule filter_cong) (auto simp: assms [unfolded is_data_def] simp del: upto_rec_numeral)

subsection \<open>Properties\<close>

text \<open>In each of the three representations, reading back a written bitmap from anywhere in a buffer
  consumes exactly the written bytes and finds exactly the data elements that were set, as far as
  the levels reach; the only condition is that the continuation bits are not themselves set.\<close>

theorem bitmap_codec_roundtrip:
  assumes "1 \<le> ml" and "2 \<le> ml \<Longrightarrow> \<not> IsSet bm 1" and "3 \<le> ml \<Longrightarrow> \<not> IsSet bm 65"
  shows "\<exists>wire bm'. WriteBitmap r dst bm ml = Inr (dst @ wire)
    \<and> ReadBitmap r (dst @ wire @ rest) (int (length dst)) ml
        = Inr (bm', int (length dst) + int (length wire))
    \<and> data_elements bm' = filter (\<lambda>de. de \<le> 64 * min ml 3) (data_elements bm)"
proof -
  obtain wire bm' where w: "\<And>dst. WriteBitmap r dst bm ml = Inr (dst @ wire)"
    and r: "\<And>pre rest. ReadBitmap r (pre @ wire @ rest) (int (length pre)) ml
        = Inr (bm', int (length pre) + int (length wire))"
    and bits: "\<And>de. is_data de \<Longrightarrow>
        IsSet bm' de = (IsSet bm de \<and> (ml < 3 \<longrightarrow> de \<le> 128) \<and> (ml < 2 \<longrightarrow> de \<le> 64))"
    using bitmap_reread [OF assms] by blast
  have "data_elements bm' = filter (\<lambda>de. (ml < 3 \<longrightarrow> de \<le> 128) \<and> (ml < 2 \<longrightarrow> de \<le> 64)) (data_elements bm)"
    by (rule data_elements_cong) (rule bits)
  also have "\<dots> = filter (\<lambda>de. de \<le> 64 * min ml 3) (data_elements bm)"
    using assms(1) by (intro filter_cong) (auto simp: data_elements_def min_def simp del: upto_rec_numeral)
  finally show ?thesis using w r by blast
qed

theorem bitmap_codec_roundtrip_witness:
  "\<exists>wire bm'. WriteBitmap HexWord [48, 50] (Set (Set bitmap0 2) 70) 2 = Inr ([48, 50] @ wire)
    \<and> ReadBitmap HexWord ([48, 50] @ wire @ []) 2 2 = Inr (bm', 2 + int (length wire))
    \<and> data_elements bm' = filter (\<lambda>de. de \<le> 128) (data_elements (Set (Set bitmap0 2) 70))"
  using bitmap_codec_roundtrip [of 2 "Set (Set bitmap0 2) 70" HexWord "[48, 50]" "[]"]
  by (simp add: IsSet_Set IsSet_empty)

end
