(* ===== verification/Model.thy ===== *)
theory Model
  imports BitmapCodec "HOL-Library.AList"
begin

text \<open>
  The data of the message engine: value kinds, the codec catalog, field definitions and schemas
  (\<^verbatim>\<open>src/iso8583/schema.go\<close>), values (\<^verbatim>\<open>src/iso8583/value.go\<close>) and messages
  (\<^verbatim>\<open>src/iso8583/message.go\<close>).

  The Go interfaces \<open>FieldCodec\<close>, \<open>LengthCodec\<close> and \<open>BitmapCodec\<close> have a closed set of
  implementations in the repository, each of them stateless; a codec value is therefore one of the
  constructors below, and a nil interface is \<open>None\<close>. Schemas and messages contain each other
  through pointers that form trees, so they are mutually recursive datatypes; the maps keyed by
  tag are association lists. A nil slice and an empty slice are the same list, except for the
  retained source buffer of a message, whose nilness the engine tests.
\<close>

subsection \<open>Kinds and codecs\<close>

datatype kind = KindInvalid | KindString | KindNumeric | KindBytes | KindAmount | KindComposite

datatype len_repr = ReprASCII | ReprEBCDIC | ReprBCD | ReprBinary

datatype length_codec =
    Fixed
  | VarLen (vl_name: bytes) (vl_digits: int) (vl_bytes: int) (vl_repr: len_repr)

datatype field_codec =
    Ascii | EbcdicChar code_page bytes | Utf8Char | BinaryRaw | HexBinary
  | NumASCII | NumEBCDIC | BcdNum | RbcdNum | BinNum
  | AmountASCII | AmountBCD | AmountBinary
  | BerTLV | SubfieldISO

subsection \<open>Field definitions and schemas\<close>

datatype pad_side = PadNone | PadLeft | PadRight

record pad_rule =
  Side :: pad_side
  PadChar :: byte

datatype required_mode = RequiredOptional | RequiredAlways | RequiredOnMTI

record required_rule =
  Mode :: required_mode
  MTIClasses :: "bytes list"

text \<open>The validators the package constructs. A regular expression is kept as the pattern it was
  compiled from; matching is a parameter of \<open>Validate\<close>.\<close>

datatype validator =
    VRequired | VDigits | VLuhn | LenBetween int int | MaxLength int | OneOf "bytes list"
  | Regexp bytes | CurrencyAmount | MTIClass "bytes list" | VAll "validator list"

record bitmap_spec =
  BmCodec :: "word_repr option"
  Levels :: int

datatype field_def =
  FieldDef (Path: field_path) (Name: bytes) (Kind: kind) (Codec: "field_codec option")
    (Length: "length_codec option") (MaxLen: int) (DefScale: nat) (Pad: pad_rule)
    (Validators: "validator list") (Required: required_rule) (Sub: "schema option")
and schema =
  Schema (schema_id: bytes) (mti: "field_def option") (bitmap_of: bitmap_spec)
    (defs: "field_def option list") (schema_tags: "(bytes \<times> field_def) list") (maxDE: int) (isTLV: bool)

text \<open>The zero value of a definition.\<close>

definition fieldDef0 :: field_def where
  "fieldDef0 = FieldDef [] [] KindInvalid None None 0 0 \<lparr>Side = PadNone, PadChar = 0\<rparr> []
     \<lparr>Mode = RequiredOptional, MTIClasses = []\<rparr> None"

text \<open>\<open>Schema.Field\<close>, \<open>tagDef\<close>, \<open>LookupTag\<close> and \<open>Lookup\<close>.\<close>

definition Field :: "schema \<Rightarrow> int \<Rightarrow> field_def option" where
  "Field s de =
     (if de = 0 then mti s
      else if de < 0 \<or> de \<ge> int (length (defs s)) then None
      else defs s ! nat de)"

definition tagDef :: "schema \<Rightarrow> bytes \<Rightarrow> field_def option" where
  "tagDef s tag = map_of (schema_tags s) tag"

definition LookupTag :: "schema \<Rightarrow> bytes \<Rightarrow> field_def option" where
  "LookupTag s tag = map_of (schema_tags s) (ToUpper tag)"

definition tagKey :: "path_elem \<Rightarrow> bytes" where
  "tagKey e = (if IsTag e then Tag e else elem_string e)"

definition lookup_elem :: "schema \<Rightarrow> path_elem \<Rightarrow> field_def option" where
  "lookup_elem cur e = (if isTLV cur \<or> IsTag e then tagDef cur (tagKey e) else Field cur (N e))"

fun Lookup :: "schema \<Rightarrow> field_path \<Rightarrow> field_def option" where
  "Lookup s [] = None"
| "Lookup s [e] = lookup_elem s e"
| "Lookup s (e # es) =
     (case lookup_elem s e of None \<Rightarrow> None
      | Some d \<Rightarrow> (case Sub d of None \<Rightarrow> None | Some sub \<Rightarrow> Lookup sub es))"

subsection \<open>Values and messages\<close>

datatype "value" =
  Value (raw: bytes) (vkind: kind) (vcodec: "field_codec option") (off: int)
    (sub: "message option") (dec: decimal)
and slot =
  Slot (sv: "value") (present: bool) (decoded: bool) (sdirty: bool) (fromSrc: bool)
    (units: int) (wireOff: int) (bodyOff: int) (bodyEnd: int)
and tag_slot =
  TagSlot (tv: "value") (tpresent: bool)
and message =
  Message (mschema: "schema option") (src: "bytes option") (bmap: bitmap) (slots: "slot list")
    (owned: bool) (mdirty: bitmap) (sealed: bool)
    (tags: "(bytes \<times> tag_slot) list") (tagOrder: "bytes list")

definition decimal0 :: decimal where
  "decimal0 = \<lparr>Unscaled = 0, Scale = 0\<rparr>"

definition value0 :: "value" where
  "value0 = Value [] KindInvalid None 0 None decimal0"

definition slot0 :: slot where
  "slot0 = Slot value0 False False False False 0 0 0 0"

definition New :: "schema \<Rightarrow> message" where
  "New s = Message (Some s) None bitmap0 (replicate (nat (maxDE s + 1)) slot0) True bitmap0 False [] []"

definition newDecoded :: "schema \<Rightarrow> bytes \<Rightarrow> bool \<Rightarrow> message" where
  "newDecoded s wire seal =
     Message (Some s) (Some wire) bitmap0 (replicate (nat (maxDE s + 1)) slot0) False bitmap0 seal [] []"

definition NewTLV :: "schema option \<Rightarrow> message" where
  "NewTLV s = Message s None bitmap0 [] True bitmap0 False [] []"

text \<open>Assignments to single fields.\<close>

definition with_slots :: "message \<Rightarrow> slot list \<Rightarrow> message" where
  "with_slots m ss = Message (mschema m) (src m) (bmap m) ss (owned m) (mdirty m) (sealed m) (tags m) (tagOrder m)"

definition with_bmap :: "message \<Rightarrow> bitmap \<Rightarrow> message" where
  "with_bmap m b = Message (mschema m) (src m) b (slots m) (owned m) (mdirty m) (sealed m) (tags m) (tagOrder m)"

definition with_dirty :: "message \<Rightarrow> bitmap \<Rightarrow> message" where
  "with_dirty m b = Message (mschema m) (src m) (bmap m) (slots m) (owned m) b (sealed m) (tags m) (tagOrder m)"

definition with_owned :: "message \<Rightarrow> bool \<Rightarrow> message" where
  "with_owned m b = Message (mschema m) (src m) (bmap m) (slots m) b (mdirty m) (sealed m) (tags m) (tagOrder m)"

definition with_tags :: "message \<Rightarrow> (bytes \<times> tag_slot) list \<Rightarrow> bytes list \<Rightarrow> message" where
  "with_tags m ts order = Message (mschema m) (src m) (bmap m) (slots m) (owned m) (mdirty m) (sealed m) ts order"

definition put_slot :: "message \<Rightarrow> int \<Rightarrow> slot \<Rightarrow> message" where
  "put_slot m de s = with_slots m ((slots m)[nat de := s])"

definition with_vcodec :: "value \<Rightarrow> field_codec option \<Rightarrow> value" where
  "with_vcodec v c = Value (raw v) (vkind v) c (off v) (sub v) (dec v)"

definition with_off :: "value \<Rightarrow> int \<Rightarrow> value" where
  "with_off v o' = Value (raw v) (vkind v) (vcodec v) o' (sub v) (dec v)"

definition with_sub :: "value \<Rightarrow> message option \<Rightarrow> value" where
  "with_sub v m = Value (raw v) (vkind v) (vcodec v) (off v) m (dec v)"

lemmas with_defs = with_slots_def with_bmap_def with_dirty_def with_owned_def with_tags_def
  put_slot_def with_vcodec_def with_off_def with_sub_def

lemma with_slots_sel [simp]:
  "mschema (with_slots m ss) = mschema m" "src (with_slots m ss) = src m" "bmap (with_slots m ss) = bmap m"
  "slots (with_slots m ss) = ss" "owned (with_slots m ss) = owned m" "mdirty (with_slots m ss) = mdirty m"
  "sealed (with_slots m ss) = sealed m" "tags (with_slots m ss) = tags m" "tagOrder (with_slots m ss) = tagOrder m"
  by (simp_all add: with_slots_def)

lemma with_bmap_sel [simp]:
  "mschema (with_bmap m b) = mschema m" "src (with_bmap m b) = src m" "bmap (with_bmap m b) = b"
  "slots (with_bmap m b) = slots m" "owned (with_bmap m b) = owned m" "mdirty (with_bmap m b) = mdirty m"
  "sealed (with_bmap m b) = sealed m" "tags (with_bmap m b) = tags m" "tagOrder (with_bmap m b) = tagOrder m"
  by (simp_all add: with_bmap_def)

lemma with_dirty_sel [simp]:
  "mschema (with_dirty m b) = mschema m" "src (with_dirty m b) = src m" "bmap (with_dirty m b) = bmap m"
  "slots (with_dirty m b) = slots m" "owned (with_dirty m b) = owned m" "mdirty (with_dirty m b) = b"
  "sealed (with_dirty m b) = sealed m" "tags (with_dirty m b) = tags m" "tagOrder (with_dirty m b) = tagOrder m"
  by (simp_all add: with_dirty_def)

lemma with_owned_sel [simp]:
  "mschema (with_owned m b) = mschema m" "src (with_owned m b) = src m" "bmap (with_owned m b) = bmap m"
  "slots (with_owned m b) = slots m" "owned (with_owned m b) = b" "mdirty (with_owned m b) = mdirty m"
  "sealed (with_owned m b) = sealed m" "tags (with_owned m b) = tags m" "tagOrder (with_owned m b) = tagOrder m"
  by (simp_all add: with_owned_def)

lemma with_tags_sel [simp]:
  "mschema (with_tags m ts ks) = mschema m" "src (with_tags m ts ks) = src m" "bmap (with_tags m ts ks) = bmap m"
  "slots (with_tags m ts ks) = slots m" "owned (with_tags m ts ks) = owned m" "mdirty (with_tags m ts ks) = mdirty m"
  "sealed (with_tags m ts ks) = sealed m" "tags (with_tags m ts ks) = ts" "tagOrder (with_tags m ts ks) = ks"
  by (simp_all add: with_tags_def)

lemma put_slot_sel [simp]:
  "mschema (put_slot m de s) = mschema m" "src (put_slot m de s) = src m" "bmap (put_slot m de s) = bmap m"
  "slots (put_slot m de s) = (slots m)[nat de := s]" "owned (put_slot m de s) = owned m"
  "mdirty (put_slot m de s) = mdirty m" "sealed (put_slot m de s) = sealed m" "tags (put_slot m de s) = tags m"
  "tagOrder (put_slot m de s) = tagOrder m"
  by (simp_all add: put_slot_def)

lemma with_value_sel [simp]:
  "raw (with_vcodec v c) = raw v" "vkind (with_vcodec v c) = vkind v" "sub (with_vcodec v c) = sub v"
  "dec (with_vcodec v c) = dec v" "off (with_vcodec v c) = off v" "vcodec (with_vcodec v c) = c"
  "raw (with_off v p) = raw v" "vkind (with_off v p) = vkind v" "sub (with_off v p) = sub v"
  "dec (with_off v p) = dec v" "off (with_off v p) = p" "vcodec (with_off v p) = vcodec v"
  "raw (with_sub v x) = raw v" "vkind (with_sub v x) = vkind v" "sub (with_sub v x) = x"
  "dec (with_sub v x) = dec v" "off (with_sub v x) = off v" "vcodec (with_sub v x) = vcodec v"
  by (simp_all add: with_vcodec_def with_off_def with_sub_def)

subsection \<open>Value accessors and constructors\<close>

definition value_IsZero :: "value \<Rightarrow> bool" where
  "value_IsZero v \<longleftrightarrow> vkind v = KindInvalid"

definition Bytes :: "value \<Rightarrow> bytes" where
  "Bytes v = raw v"

definition BytesCopy :: "value \<Rightarrow> bytes" where
  "BytesCopy v = raw v"

definition fieldErr :: "value \<Rightarrow> error \<Rightarrow> error" where
  "fieldErr v cause = FieldError [] (off v) [] cause"

definition parseInt :: "bytes \<Rightarrow> int result" where
  "parseInt b = (if b = [] then Inl errNotNumeric
     else case parse_int 64 b of Inl e \<Rightarrow> Inl (ErrNum e) | Inr n \<Rightarrow> Inr n)"

definition parseUint :: "bytes \<Rightarrow> nat result" where
  "parseUint b = (if b = [] then Inl errNotNumeric
     else case parse_uint 64 b of Inl e \<Rightarrow> Inl (ErrNum e) | Inr n \<Rightarrow> Inr n)"

definition value_String :: "value \<Rightarrow> bytes result" where
  "value_String v = (case vkind v of
      KindString \<Rightarrow> Inr (raw v) | KindNumeric \<Rightarrow> Inr (raw v) | KindBytes \<Rightarrow> Inr (raw v)
    | KindAmount \<Rightarrow> Inr (decimal_string (dec v))
    | _ \<Rightarrow> Inl (fieldErr v errNotText))"

definition value_Int :: "value \<Rightarrow> int result" where
  "value_Int v =
     (if vkind v = KindNumeric \<or> vkind v = KindString then
        (case parseInt (raw v) of Inl e \<Rightarrow> Inl (fieldErr v e) | Inr n \<Rightarrow> Inr n)
      else if vkind v = KindAmount then Inr (Unscaled (dec v))
      else Inl (fieldErr v errNotNumeric))"

definition value_Uint :: "value \<Rightarrow> nat result" where
  "value_Uint v =
     (if vkind v = KindNumeric \<or> vkind v = KindString then
        (case parseUint (raw v) of Inl e \<Rightarrow> Inl (fieldErr v e) | Inr n \<Rightarrow> Inr n)
      else Inl (fieldErr v errNotNumeric))"

definition value_Decimal :: "value \<Rightarrow> decimal result" where
  "value_Decimal v =
     (if vkind v = KindAmount then Inr (dec v)
      else if vkind v = KindNumeric then
        (case parseInt (raw v) of Inl e \<Rightarrow> Inl (fieldErr v e) | Inr n \<Rightarrow> Inr \<lparr>Unscaled = n, Scale = 0\<rparr>)
      else Inl (fieldErr v errWrongKind))"

definition Composite :: "value \<Rightarrow> message option" where
  "Composite v = (if vkind v = KindComposite then sub v else None)"

definition StringValue :: "bytes \<Rightarrow> value" where
  "StringValue b = Value b KindString None (-1) None decimal0"

definition NumericValue :: "bytes \<Rightarrow> value" where
  "NumericValue b = Value b KindNumeric None (-1) None decimal0"

definition BytesValue :: "bytes \<Rightarrow> value" where
  "BytesValue b = Value b KindBytes None (-1) None decimal0"

definition AmountValue :: "decimal \<Rightarrow> bytes \<Rightarrow> value" where
  "AmountValue d b = Value b KindAmount None (-1) None d"

definition CompositeValue :: "bytes \<Rightarrow> message \<Rightarrow> value" where
  "CompositeValue b m = Value b KindComposite None (-1) (Some m) decimal0"

lemmas value_makers = StringValue_def NumericValue_def BytesValue_def AmountValue_def CompositeValue_def

end
