(* ===== verification/LengthCodec.thy ===== *)
theory LengthCodec
  imports Model
begin

text \<open>
  The length-prefix codecs, \<^verbatim>\<open>src/lengthcodec/length.go\<close>. A prefix has at most six decimal
  digits or two bytes in the catalog, so its value is far from the range of a Go \<open>int\<close> and the
  accumulating loops are plain integer arithmetic.
\<close>

definition decimalPad :: "int \<Rightarrow> int \<Rightarrow> bytes result" where
  "decimalPad n width =
     (let s = fmt_int n in
      if int (length s) > width then Inl ErrLenOverflow
      else Inr (replicate (nat (width - int (length s))) 48 @ s))"

fun atoi_loop :: "int \<Rightarrow> bytes \<Rightarrow> int result" where
  "atoi_loop n [] = Inr n"
| "atoi_loop n (c # b) =
     (if c < 48 \<or> c > 57 then Inl ErrLenBadDigit else atoi_loop (n * 10 + int (unat (c - 48))) b)"

definition atoiDigits :: "bytes \<Rightarrow> int result" where
  "atoiDigits b = atoi_loop 0 b"

definition ReadLen :: "length_codec \<Rightarrow> bytes \<Rightarrow> int \<Rightarrow> field_def \<Rightarrow> (int \<times> int) result" where
  "ReadLen l s p def = (case l of
      Fixed \<Rightarrow> Inr (MaxLen def, p)
    | VarLen name digits nbytes repr \<Rightarrow> (case repr of
        ReprASCII \<Rightarrow>
          if p + digits > int (length s) then Inl ErrLenTruncated
          else bind_result (atoiDigits (slice s p (p + digits))) (\<lambda>n. Inr (n, p + digits))
      | ReprEBCDIC \<Rightarrow>
          if p + digits > int (length s) then Inl ErrLenTruncated
          else bind_result (atoiDigits (ebcdic_decode (table_of CP037) (slice s p (p + digits))))
            (\<lambda>n. Inr (n, p + digits))
      | ReprBCD \<Rightarrow>
          let nb = PackedLen digits in
          if p + nb > int (length s) then Inl ErrLenTruncated
          else (case Unpack (slice s p (p + nb)) digits of
              Inl e \<Rightarrow> Inl (ErrBCD e)
            | Inr ds \<Rightarrow> bind_result (atoiDigits ds) (\<lambda>n. Inr (n, p + nb)))
      | ReprBinary \<Rightarrow>
          if p + nbytes > int (length s) then Inl ErrLenTruncated
          else Inr (int (be_val (slice s p (p + nbytes))), p + nbytes)))"

definition WriteLen :: "length_codec \<Rightarrow> bytes \<Rightarrow> int \<Rightarrow> field_def \<Rightarrow> bytes result" where
  "WriteLen l dst u def = (case l of
      Fixed \<Rightarrow> Inr dst
    | VarLen name digits nbytes repr \<Rightarrow>
        if u < 0 then Inl ErrLenOverflow
        else (case repr of
          ReprASCII \<Rightarrow> bind_result (decimalPad u digits) (\<lambda>s. Inr (dst @ s))
        | ReprEBCDIC \<Rightarrow> bind_result (decimalPad u digits) (\<lambda>s. Inr (dst @ ebcdic_encode (table_of CP037) s))
        | ReprBCD \<Rightarrow> bind_result (decimalPad u digits) (\<lambda>s.
            case Pack s of Inl e \<Rightarrow> Inl (ErrBCD e) | Inr packed \<Rightarrow> Inr (dst @ packed))
        | ReprBinary \<Rightarrow>
            if u \<ge> 2 ^ nat (8 * nbytes) then Inl ErrLenOverflow
            else Inr (dst @ be_bytes (nat nbytes) (nat u))))"

definition length_Name :: "length_codec \<Rightarrow> bytes" where
  "length_Name l = (case l of Fixed \<Rightarrow> bytes_of ''len.fixed'' | VarLen name _ _ _ \<Rightarrow> name)"

text \<open>The catalog.\<close>

definition LLVarASCII :: length_codec where
  "LLVarASCII = VarLen (bytes_of ''len.ll.ascii'') 2 0 ReprASCII"

definition LLLVarASCII :: length_codec where
  "LLLVarASCII = VarLen (bytes_of ''len.lll.ascii'') 3 0 ReprASCII"

definition LLLLVarASCII :: length_codec where
  "LLLLVarASCII = VarLen (bytes_of ''len.llll.ascii'') 4 0 ReprASCII"

definition LLLLLVarASCII :: length_codec where
  "LLLLLVarASCII = VarLen (bytes_of ''len.lllll.ascii'') 5 0 ReprASCII"

definition LLLLLLVarASCII :: length_codec where
  "LLLLLLVarASCII = VarLen (bytes_of ''len.llllll.ascii'') 6 0 ReprASCII"

definition LLVarBCD :: length_codec where
  "LLVarBCD = VarLen (bytes_of ''len.ll.bcd'') 2 0 ReprBCD"

definition LLLVarBCD :: length_codec where
  "LLLVarBCD = VarLen (bytes_of ''len.lll.bcd'') 3 0 ReprBCD"

definition LLVarBinary :: length_codec where
  "LLVarBinary = VarLen (bytes_of ''len.ll.bin'') 0 1 ReprBinary"

definition LLLVarBinary :: length_codec where
  "LLLVarBinary = VarLen (bytes_of ''len.lll.bin'') 0 2 ReprBinary"

definition LLVarEBCDIC :: length_codec where
  "LLVarEBCDIC = VarLen (bytes_of ''len.ll.ebcdic'') 2 0 ReprEBCDIC"

definition LLLVarEBCDIC :: length_codec where
  "LLLVarEBCDIC = VarLen (bytes_of ''len.lll.ebcdic'') 3 0 ReprEBCDIC"

definition All_lengths :: "length_codec list" where
  "All_lengths = [Fixed, LLVarASCII, LLLVarASCII, LLLLVarASCII, LLLLLVarASCII, LLLLLLVarASCII,
     LLVarBCD, LLLVarBCD, LLVarBinary, LLLVarBinary, LLVarEBCDIC, LLLVarEBCDIC]"

lemmas catalog_defs = LLVarASCII_def LLLVarASCII_def LLLLVarASCII_def LLLLLVarASCII_def
  LLLLLLVarASCII_def LLVarBCD_def LLLVarBCD_def LLVarBinary_def LLLVarBinary_def LLVarEBCDIC_def
  LLLVarEBCDIC_def

subsection \<open>Digits in a prefix\<close>

lemma atoi_loop_digits:
  "list_all is_digit b \<Longrightarrow> atoi_loop n b = Inr (n * 10 ^ length b + int (dec_val b))"
proof (induction b arbitrary: n)
  case Nil
  then show ?case by simp
next
  case (Cons c b)
  then have "atoi_loop n (c # b) = Inr ((n * 10 + int (digit_val c)) * 10 ^ length b + int (dec_val b))"
    by (simp add: is_digit_def digit_val_def not_less)
  then show ?case by (simp add: dec_val_Cons algebra_simps)
qed

lemma atoiDigits_digits: "list_all is_digit b \<Longrightarrow> atoiDigits b = Inr (int (dec_val b))"
  by (simp add: atoiDigits_def atoi_loop_digits)

lemma atoi_loop_nonneg: "0 \<le> n \<Longrightarrow> atoi_loop n b = Inr m \<Longrightarrow> 0 \<le> m"
proof (induction b arbitrary: n)
  case Nil
  then show ?case by simp
next
  case (Cons c b)
  have "0 \<le> n * 10 + int (unat (c - 48))" using Cons.prems(1) by simp
  from Cons.IH [OF this] Cons.prems(2) show ?case by (simp split: if_splits)
qed

lemma digits_replicate [simp]: "list_all is_digit (replicate n 48)"
  by (induction n) simp_all

lemma decimalPad_ok:
  assumes "0 \<le> u" "u < 10 ^ nat w" "0 < w"
  shows "\<exists>s. decimalPad u w = Inr s \<and> list_all is_digit s \<and> int (length s) = w \<and> int (dec_val s) = u"
proof -
  have "nat u < 10 ^ nat w" using assms(1,2) by (simp add: nat_less_iff)
  then have "length (fmt_nat (nat u)) \<le> nat w" using assms(3) by (simp add: fmt_nat_length)
  then have le: "int (length (fmt_nat (nat u))) \<le> w" using assms(3) by linarith
  then show ?thesis
    using assms fmt_nat_digits [of "nat u"] by (auto simp: decimalPad_def fmt_int_def Let_def)
qed

lemma decimalPad_overflow:
  assumes "0 \<le> u" "10 ^ nat w \<le> u" "0 < w"
  shows "decimalPad u w = Inl ErrLenOverflow"
proof -
  have "\<not> nat u < 10 ^ nat w" using assms(1,2) by (simp add: nat_less_iff)
  then have "\<not> length (fmt_nat (nat u)) \<le> nat w" using assms(3) by (simp add: fmt_nat_length)
  then have "w < int (length (fmt_nat (nat u)))" by linarith
  then show ?thesis using assms(1) by (simp add: decimalPad_def fmt_int_def)
qed

subsection \<open>The contract of a length prefix\<close>

text \<open>What the engine relies on: every count below the capacity is written as some prefix from which
  the count is read back, whatever surrounds it in the buffer, and every other count is refused.\<close>

locale length_prefix =
  fixes l :: length_codec
    and cap :: int
  assumes write_read: "0 \<le> u \<Longrightarrow> u < cap \<Longrightarrow> \<exists>p. (\<forall>dst def. WriteLen l dst u def = Inr (dst @ p))
      \<and> (\<forall>pre rest def. ReadLen l (pre @ p @ rest) (int (length pre)) def
          = Inr (u, int (length pre) + int (length p)))"
    and write_refuse: "u < 0 \<or> cap \<le> u \<Longrightarrow> WriteLen l dst u def = Inl ErrLenOverflow"
begin

lemma write_iff: "(\<exists>out. WriteLen l dst u def = Inr out) \<longleftrightarrow> 0 \<le> u \<and> u < cap"
  using write_read [of u] write_refuse [of u dst def] by (cases "0 \<le> u \<and> u < cap") auto

lemma write_readD:
  assumes "WriteLen l dst u def = Inr out"
  obtains p where "out = dst @ p"
    and "\<And>pre rest def. ReadLen l (pre @ p @ rest) (int (length pre)) def
      = Inr (u, int (length pre) + int (length p))"
proof -
  have "0 \<le> u" "u < cap" using assms write_iff [of dst u def] by auto
  then obtain p where "\<forall>dst def. WriteLen l dst u def = Inr (dst @ p)"
    and "\<forall>pre rest def. ReadLen l (pre @ p @ rest) (int (length pre)) def
      = Inr (u, int (length pre) + int (length p))"
    using write_read by blast
  then show thesis using assms that [of p] by auto
qed

end

definition capacity :: "length_codec \<Rightarrow> int" where
  "capacity l = (case l of Fixed \<Rightarrow> 0
     | VarLen _ digits nbytes repr \<Rightarrow> if repr = ReprBinary then 2 ^ nat (8 * nbytes) else 10 ^ nat digits)"

definition wf_prefix :: "length_codec \<Rightarrow> bool" where
  "wf_prefix l = (case l of Fixed \<Rightarrow> False
     | VarLen _ digits nbytes repr \<Rightarrow> if repr = ReprBinary then 0 < nbytes else 0 < digits)"

lemma PackedLen_pos: "0 \<le> n \<Longrightarrow> PackedLen n = int ((nat n + 1) div 2)"
  using PackedLen_nat [of "nat n"] by simp

lemma decimal_write_read:
  assumes u: "0 \<le> u" "u < 10 ^ nat d" and "0 < d" and "repr \<noteq> ReprBinary" and l: "l = VarLen name d nb repr"
  shows "\<exists>p. (\<forall>dst def. WriteLen l dst u def = Inr (dst @ p))
      \<and> (\<forall>pre rest def. ReadLen l (pre @ p @ rest) (int (length pre)) def
          = Inr (u, int (length pre) + int (length p)))"
proof -
  obtain s where s: "decimalPad u d = Inr s" "list_all is_digit s" "int (length s) = d" "int (dec_val s) = u"
    using decimalPad_ok [OF u \<open>0 < d\<close>] by blast
  have atoi: "atoiDigits s = Inr u" using s by (simp add: atoiDigits_digits)
  show ?thesis
  proof (cases repr)
    case ReprASCII
    have "slice (pre @ s @ rest) (int (length pre)) (int (length pre) + d) = s" for pre rest
      using slice_append_mid [of pre s rest] s(3) by simp
    with ReprASCII s atoi u show ?thesis
      by (intro exI [of _ s]) (simp add: l WriteLen_def ReadLen_def)
  next
    case ReprEBCDIC
    let ?e = "ebcdic_encode (table_of CP037) s"
    have "slice (pre @ ?e @ rest) (int (length pre)) (int (length pre) + d) = ?e" for pre rest
      using slice_append_mid [of pre ?e rest] s(3) by simp
    moreover have "ebcdic_decode (table_of CP037) ?e = s"
      by (rule ebcdic_roundtrip) (rule digits_covered [OF s(2)])
    ultimately show ?thesis
      using ReprEBCDIC s atoi u by (intro exI [of _ ?e]) (simp add: l WriteLen_def ReadLen_def del: table_of.simps)
  next
    case ReprBCD
    obtain p where p: "Pack s = Inr p" "int (length p) = PackedLen d" "Unpack p d = Inr s"
      using Pack_ok [OF s(2), of "[]"] s(3) by auto
    have "slice (pre @ p @ rest) (int (length pre)) (int (length pre) + PackedLen d) = p" for pre rest
      using slice_append_mid [of pre p rest] p(2) by simp
    with ReprBCD s atoi u p show ?thesis
      by (intro exI [of _ p]) (simp add: l WriteLen_def ReadLen_def Let_def)
  qed (use assms(4) in simp)
qed

lemma binary_write_read:
  assumes u: "0 \<le> u" "u < 2 ^ nat (8 * nb)" and "0 < nb" and l: "l = VarLen name d nb ReprBinary"
  shows "\<exists>p. (\<forall>dst def. WriteLen l dst u def = Inr (dst @ p))
      \<and> (\<forall>pre rest def. ReadLen l (pre @ p @ rest) (int (length pre)) def
          = Inr (u, int (length pre) + int (length p)))"
proof -
  let ?p = "be_bytes (nat nb) (nat u)"
  have "(2::int) ^ nat (8 * nb) = 256 ^ nat nb"
    using \<open>0 < nb\<close> by (simp add: nat_mult_distrib power_mult)
  then have "nat u < 256 ^ nat nb" using u by (simp add: nat_less_iff)
  then have "be_val ?p = nat u" by (rule be_val_be_bytes_id)
  moreover have "slice (pre @ ?p @ rest) (int (length pre)) (int (length pre) + nb) = ?p" for pre rest
    using slice_append_mid [of pre ?p rest] \<open>0 < nb\<close> by simp
  ultimately show ?thesis
    using u \<open>0 < nb\<close> by (intro exI [of _ ?p]) (simp add: l WriteLen_def ReadLen_def)
qed

lemma wf_prefix_contract: "wf_prefix l \<Longrightarrow> length_prefix l (capacity l)"
proof (cases l)
  case (VarLen name d nb repr)
  assume wf: "wf_prefix l"
  show ?thesis
  proof (cases "repr = ReprBinary")
    case True
    with wf VarLen have "0 < nb" by (simp add: wf_prefix_def)
    with True VarLen show ?thesis
      by unfold_locales (simp_all add: capacity_def binary_write_read, auto simp: WriteLen_def)
  next
    case False
    with wf VarLen have "0 < d" by (simp add: wf_prefix_def)
    moreover have "WriteLen l dst u def = Inl ErrLenOverflow" if "u < 0 \<or> 10 ^ nat d \<le> u" for dst u def
      using that False \<open>0 < d\<close> decimalPad_overflow [of u d]
      by (cases repr; cases "u < 0") (simp_all add: VarLen WriteLen_def)
    ultimately show ?thesis
      using False by unfold_locales (simp_all add: VarLen capacity_def decimal_write_read)
  qed
qed (simp add: wf_prefix_def)

lemma catalog_wf: "l \<in> set All_lengths \<Longrightarrow> l \<noteq> Fixed \<Longrightarrow> wf_prefix l"
  by (auto simp: All_lengths_def catalog_defs wf_prefix_def)

interpretation ll_ascii: length_prefix LLVarASCII 100
  using wf_prefix_contract [of LLVarASCII] by (simp add: LLVarASCII_def wf_prefix_def capacity_def)

interpretation lll_ascii: length_prefix LLLVarASCII 1000
  using wf_prefix_contract [of LLLVarASCII] by (simp add: LLLVarASCII_def wf_prefix_def capacity_def)

interpretation ll_bcd: length_prefix LLVarBCD 100
  using wf_prefix_contract [of LLVarBCD] by (simp add: LLVarBCD_def wf_prefix_def capacity_def)

interpretation ll_binary: length_prefix LLVarBinary 256
  using wf_prefix_contract [of LLVarBinary] by (simp add: LLVarBinary_def wf_prefix_def capacity_def)

interpretation ll_ebcdic: length_prefix LLVarEBCDIC 100
  using wf_prefix_contract [of LLVarEBCDIC] by (simp add: LLVarEBCDIC_def wf_prefix_def capacity_def)

text \<open>A successful read stays at or after its start, inside the buffer, and counts at least zero.\<close>

lemma ReadLen_bounds:
  assumes "ReadLen l s p def = Inr (u, next)" and "wf_prefix l" and "0 \<le> p" 
  shows "0 \<le> u \<and> p \<le> next \<and> next \<le> int (length s)"
proof -
  obtain name d nb repr where l: "l = VarLen name d nb repr"
    using assms(2) by (cases l) (simp_all add: wf_prefix_def)
  have "0 \<le> n" if "atoiDigits b = Inr n" for b n
    using that atoi_loop_nonneg [of 0 b n] by (simp add: atoiDigits_def)
  moreover have "0 \<le> d \<Longrightarrow> 0 \<le> PackedLen d" by (simp add: PackedLen_pos)
  ultimately show ?thesis
    using assms l by (cases repr)
      (auto simp: ReadLen_def wf_prefix_def Let_def bind_result_Inr split: if_splits sum.splits)
qed

subsection \<open>Properties\<close>

text \<open>Each prefix codec of the catalog writes exactly the counts below its capacity (a power of ten,
  or of 256 for the binary prefixes) and refuses all others with an overflow error, and the written
  prefix, wherever it stands in a buffer, reads back as the count and the offset just past it.\<close>

theorem length_prefix_roundtrip:
  assumes "l \<in> set All_lengths" and "l \<noteq> Fixed"
  shows "(0 \<le> u \<and> u < capacity l \<longrightarrow>
      (\<exists>p. WriteLen l dst u def = Inr (dst @ p)
        \<and> ReadLen l (dst @ p @ rest) (int (length dst)) def' = Inr (u, int (length dst) + int (length p))))
    \<and> (\<not> (0 \<le> u \<and> u < capacity l) \<longrightarrow> WriteLen l dst u def = Inl ErrLenOverflow)"
proof -
  note lp = wf_prefix_contract [OF catalog_wf [OF assms]]
  show ?thesis
    using length_prefix.write_read [OF lp, of u] length_prefix.write_refuse [OF lp, of u dst def]
    by (meson not_less)
qed

theorem length_prefix_roundtrip_witness:
  "\<exists>p. WriteLen LLLVarBCD [1] 19 fieldDef0 = Inr ([1] @ p)
     \<and> ReadLen LLLVarBCD ([1] @ p @ [7]) (int (length [1 :: byte])) fieldDef0 = Inr (19, int (length [1 :: byte]) + int (length p))"
  using length_prefix_roundtrip [of LLLVarBCD 19 "[1]" fieldDef0 "[7]" fieldDef0]
  by (simp add: All_lengths_def catalog_defs capacity_def)

end
