(* ===== verification/FieldCodec.thy ===== *)
theory FieldCodec
  imports LengthCodec
begin

text \<open>
  The value codecs, \<^verbatim>\<open>src/fieldcodec/fieldcodec.go\<close>, \<^verbatim>\<open>char.go\<close>,
  \<^verbatim>\<open>numeric.go\<close>, \<^verbatim>\<open>hex.go\<close>, \<^verbatim>\<open>amount.go\<close> and
  \<^verbatim>\<open>registry.go\<close>. Each codec is a pair of functions \<open><codec>_DecodeBody\<close> and
  \<open><codec>_EncodeBody\<close>; \<open>codec_decode\<close> and \<open>codec_encode\<close> are the dynamic dispatch on the codec
  interface, with the two composite codecs as arguments because they call back into it.
\<close>

subsection \<open>Shared helpers\<close>

definition digitCount :: "int \<Rightarrow> field_def \<Rightarrow> int" where
  "digitCount u def = (if u > 0 then u else if MaxLen def > 0 then MaxLen def else 0)"

definition isFixed :: "field_def \<Rightarrow> bool" where
  "isFixed def \<longleftrightarrow> Length def = None \<and> MaxLen def > 0"

definition padFixed :: "bytes \<Rightarrow> field_def \<Rightarrow> byte \<Rightarrow> bool \<Rightarrow> bytes result" where
  "padFixed b def pad left =
     (if \<not> isFixed def then Inr b
      else if int (length b) > MaxLen def then Inl ErrTooLong
      else if int (length b) = MaxLen def then Inr b
      else let gap = nat (MaxLen def - int (length b))
        in Inr (if left then replicate gap pad @ b else b @ replicate gap pad))"

subsection \<open>Character and binary codecs\<close>

definition ascii_DecodeBody :: "bytes \<Rightarrow> value result" where
  "ascii_DecodeBody body = Inr (StringValue body)"

definition ascii_EncodeBody :: "bytes \<Rightarrow> value \<Rightarrow> field_def \<Rightarrow> bytes result" where
  "ascii_EncodeBody dst v def = bind_result (padFixed (Bytes v) def 32 False) (\<lambda>b. Inr (dst @ b))"

definition ebcdicChar_DecodeBody :: "code_page \<Rightarrow> bytes \<Rightarrow> value result" where
  "ebcdicChar_DecodeBody cp body = Inr (StringValue (ebcdic_decode (table_of cp) body))"

definition ebcdicChar_EncodeBody :: "code_page \<Rightarrow> bytes \<Rightarrow> value \<Rightarrow> field_def \<Rightarrow> bytes result" where
  "ebcdicChar_EncodeBody cp dst v def =
     bind_result (padFixed (Bytes v) def 32 False) (\<lambda>b. Inr (dst @ ebcdic_encode (table_of cp) b))"

definition utf8Char_DecodeBody :: "bytes \<Rightarrow> value result" where
  "utf8Char_DecodeBody body = Inr (StringValue body)"

definition utf8Char_EncodeBody :: "bytes \<Rightarrow> value \<Rightarrow> field_def \<Rightarrow> bytes result" where
  "utf8Char_EncodeBody dst v def = bind_result (padFixed (Bytes v) def 32 False) (\<lambda>b. Inr (dst @ b))"

definition binaryRaw_DecodeBody :: "bytes \<Rightarrow> value result" where
  "binaryRaw_DecodeBody body = Inr (BytesValue body)"

definition binaryRaw_EncodeBody :: "bytes \<Rightarrow> value \<Rightarrow> field_def \<Rightarrow> bytes result" where
  "binaryRaw_EncodeBody dst v def = bind_result (padFixed (Bytes v) def 0 False) (\<lambda>b. Inr (dst @ b))"

definition hexBinary_DecodeBody :: "bytes \<Rightarrow> value result" where
  "hexBinary_DecodeBody body = (case hex_decode body of None \<Rightarrow> Inl ErrBadHex | Some out \<Rightarrow> Inr (BytesValue out))"

definition hexBinary_EncodeBody :: "bytes \<Rightarrow> value \<Rightarrow> field_def \<Rightarrow> bytes result" where
  "hexBinary_EncodeBody dst v def =
     bind_result (padFixed (Bytes v) def 0 False) (\<lambda>octets. Inr (dst @ upperHex (hex_encode octets)))"

subsection \<open>Numeric codecs\<close>

definition numASCII_DecodeBody :: "bytes \<Rightarrow> value result" where
  "numASCII_DecodeBody body = Inr (NumericValue body)"

definition numASCII_EncodeBody :: "bytes \<Rightarrow> value \<Rightarrow> field_def \<Rightarrow> bytes result" where
  "numASCII_EncodeBody dst v def = bind_result (padFixed (Bytes v) def 48 True) (\<lambda>b. Inr (dst @ b))"

definition numEBCDIC_DecodeBody :: "bytes \<Rightarrow> value result" where
  "numEBCDIC_DecodeBody body = Inr (NumericValue (ebcdic_decode (table_of CP037) body))"

definition numEBCDIC_EncodeBody :: "bytes \<Rightarrow> value \<Rightarrow> field_def \<Rightarrow> bytes result" where
  "numEBCDIC_EncodeBody dst v def =
     bind_result (padFixed (Bytes v) def 48 True) (\<lambda>b. Inr (dst @ ebcdic_encode (table_of CP037) b))"

definition bcdNum_DecodeBody :: "bytes \<Rightarrow> int \<Rightarrow> field_def \<Rightarrow> value result" where
  "bcdNum_DecodeBody body u def =
     (case Unpack body (digitCount u def) of Inl e \<Rightarrow> Inl (ErrBCD e) | Inr digits \<Rightarrow> Inr (NumericValue digits))"

definition bcdNum_EncodeBody :: "bytes \<Rightarrow> value \<Rightarrow> field_def \<Rightarrow> bytes result" where
  "bcdNum_EncodeBody dst v def =
     bind_result (padFixed (Bytes v) def 48 True) (\<lambda>digits.
       case Pack digits of Inl _ \<Rightarrow> Inl ErrNonDigit | Inr packed \<Rightarrow> Inr (dst @ packed))"

definition rbcdNum_DecodeBody :: "bytes \<Rightarrow> int \<Rightarrow> field_def \<Rightarrow> value result" where
  "rbcdNum_DecodeBody body u def =
     (case UnpackRight body (digitCount u def) of Inl e \<Rightarrow> Inl (ErrBCD e) | Inr digits \<Rightarrow> Inr (NumericValue digits))"

definition rbcdNum_EncodeBody :: "bytes \<Rightarrow> value \<Rightarrow> field_def \<Rightarrow> bytes result" where
  "rbcdNum_EncodeBody dst v def =
     bind_result (padFixed (Bytes v) def 48 True) (\<lambda>digits.
       case PackRight digits of Inl _ \<Rightarrow> Inl ErrNonDigit | Inr packed \<Rightarrow> Inr (dst @ packed))"

text \<open>The accumulating loop of the binary codecs, on \<open>uint64\<close>, and the loop that stores the low
  bytes of a number in a buffer of the field's width.\<close>

definition u64_of_bytes :: "bytes \<Rightarrow> u64" where
  "u64_of_bytes body = foldl (\<lambda>n c. push_bit 8 n OR ucast c) 0 body"

definition store_be :: "field_def \<Rightarrow> u64 \<Rightarrow> bytes" where
  "store_be def n = (let width = (if MaxLen def \<le> 0 then 8 else MaxLen def) in be_bytes (nat width) (unat n))"

definition binNum_DecodeBody :: "bytes \<Rightarrow> value result" where
  "binNum_DecodeBody body = Inr (NumericValue (fmt_nat (unat (u64_of_bytes body))))"

definition binNum_EncodeBody :: "bytes \<Rightarrow> value \<Rightarrow> field_def \<Rightarrow> bytes result" where
  "binNum_EncodeBody dst v def =
     bind_result (value_Uint v) (\<lambda>n. Inr (dst @ store_be def (of_nat n)))"

subsection \<open>Amount codecs\<close>

definition lift_dec :: "decimal_error + decimal \<Rightarrow> decimal result" where
  "lift_dec r = (case r of Inl e \<Rightarrow> Inl (ErrDecimal e) | Inr d \<Rightarrow> Inr d)"

definition amountDigits :: "value \<Rightarrow> field_def \<Rightarrow> bytes result" where
  "amountDigits v def =
     bind_result (value_Decimal v) (\<lambda>d.
     bind_result (lift_dec (Rescale d (DefScale def))) (\<lambda>d.
       if Unscaled d < 0 then Inl ErrNegative else Inr (fmt_int (Unscaled d))))"

definition amountASCII_DecodeBody :: "bytes \<Rightarrow> field_def \<Rightarrow> value result" where
  "amountASCII_DecodeBody body def =
     (case parse_int 64 body of Inl _ \<Rightarrow> Inl ErrNonDigit
      | Inr n \<Rightarrow> Inr (AmountValue (NewDecimal n (DefScale def)) body))"

definition amountASCII_EncodeBody :: "bytes \<Rightarrow> value \<Rightarrow> field_def \<Rightarrow> bytes result" where
  "amountASCII_EncodeBody dst v def =
     bind_result (amountDigits v def) (\<lambda>digits.
     bind_result (padFixed digits def 48 True) (\<lambda>b. Inr (dst @ b)))"

definition amountBCD_DecodeBody :: "bytes \<Rightarrow> int \<Rightarrow> field_def \<Rightarrow> value result" where
  "amountBCD_DecodeBody body u def =
     (case Unpack body (digitCount u def) of Inl e \<Rightarrow> Inl (ErrBCD e)
      | Inr digits \<Rightarrow> (case parse_int 64 digits of Inl _ \<Rightarrow> Inl ErrNonDigit
          | Inr val \<Rightarrow> Inr (AmountValue (NewDecimal val (DefScale def)) digits)))"

definition amountBCD_EncodeBody :: "bytes \<Rightarrow> value \<Rightarrow> field_def \<Rightarrow> bytes result" where
  "amountBCD_EncodeBody dst v def =
     bind_result (amountDigits v def) (\<lambda>digits.
     bind_result (padFixed digits def 48 True) (\<lambda>digits.
       case Pack digits of Inl _ \<Rightarrow> Inl ErrNonDigit | Inr packed \<Rightarrow> Inr (dst @ packed)))"

definition amountBinary_DecodeBody :: "bytes \<Rightarrow> field_def \<Rightarrow> value result" where
  "amountBinary_DecodeBody body def =
     Inr (AmountValue (NewDecimal (sint (u64_of_bytes body)) (DefScale def)) body)"

definition amountBinary_EncodeBody :: "bytes \<Rightarrow> value \<Rightarrow> field_def \<Rightarrow> bytes result" where
  "amountBinary_EncodeBody dst v def =
     bind_result (value_Decimal v) (\<lambda>d.
     bind_result (lift_dec (Rescale d (DefScale def))) (\<lambda>d.
       if Unscaled d < 0 then Inl ErrNegative else Inr (dst @ store_be def (of_int (Unscaled d)))))"

subsection \<open>The codec interface\<close>

fun codec_decode :: "(bytes \<Rightarrow> int \<Rightarrow> field_def \<Rightarrow> value result) \<Rightarrow> (bytes \<Rightarrow> int \<Rightarrow> field_def \<Rightarrow> value result)
    \<Rightarrow> field_codec \<Rightarrow> bytes \<Rightarrow> int \<Rightarrow> field_def \<Rightarrow> value result" where
  "codec_decode ber packager Ascii body u def = ascii_DecodeBody body"
| "codec_decode ber packager (EbcdicChar cp _) body u def = ebcdicChar_DecodeBody cp body"
| "codec_decode ber packager Utf8Char body u def = utf8Char_DecodeBody body"
| "codec_decode ber packager BinaryRaw body u def = binaryRaw_DecodeBody body"
| "codec_decode ber packager HexBinary body u def = hexBinary_DecodeBody body"
| "codec_decode ber packager NumASCII body u def = numASCII_DecodeBody body"
| "codec_decode ber packager NumEBCDIC body u def = numEBCDIC_DecodeBody body"
| "codec_decode ber packager BcdNum body u def = bcdNum_DecodeBody body u def"
| "codec_decode ber packager RbcdNum body u def = rbcdNum_DecodeBody body u def"
| "codec_decode ber packager BinNum body u def = binNum_DecodeBody body"
| "codec_decode ber packager AmountASCII body u def = amountASCII_DecodeBody body def"
| "codec_decode ber packager AmountBCD body u def = amountBCD_DecodeBody body u def"
| "codec_decode ber packager AmountBinary body u def = amountBinary_DecodeBody body def"
| "codec_decode ber packager BerTLV body u def = ber body u def"
| "codec_decode ber packager SubfieldISO body u def = packager body u def"

fun codec_encode :: "(bytes \<Rightarrow> value \<Rightarrow> field_def \<Rightarrow> bytes result) \<Rightarrow> (bytes \<Rightarrow> value \<Rightarrow> field_def \<Rightarrow> bytes result)
    \<Rightarrow> field_codec \<Rightarrow> bytes \<Rightarrow> value \<Rightarrow> field_def \<Rightarrow> bytes result" where
  "codec_encode ber packager Ascii dst v def = ascii_EncodeBody dst v def"
| "codec_encode ber packager (EbcdicChar cp _) dst v def = ebcdicChar_EncodeBody cp dst v def"
| "codec_encode ber packager Utf8Char dst v def = utf8Char_EncodeBody dst v def"
| "codec_encode ber packager BinaryRaw dst v def = binaryRaw_EncodeBody dst v def"
| "codec_encode ber packager HexBinary dst v def = hexBinary_EncodeBody dst v def"
| "codec_encode ber packager NumASCII dst v def = numASCII_EncodeBody dst v def"
| "codec_encode ber packager NumEBCDIC dst v def = numEBCDIC_EncodeBody dst v def"
| "codec_encode ber packager BcdNum dst v def = bcdNum_EncodeBody dst v def"
| "codec_encode ber packager RbcdNum dst v def = rbcdNum_EncodeBody dst v def"
| "codec_encode ber packager BinNum dst v def = binNum_EncodeBody dst v def"
| "codec_encode ber packager AmountASCII dst v def = amountASCII_EncodeBody dst v def"
| "codec_encode ber packager AmountBCD dst v def = amountBCD_EncodeBody dst v def"
| "codec_encode ber packager AmountBinary dst v def = amountBinary_EncodeBody dst v def"
| "codec_encode ber packager BerTLV dst v def = ber dst v def"
| "codec_encode ber packager SubfieldISO dst v def = packager dst v def"

lemma codec_decode_cong [fundef_cong]:
  "c = c' \<Longrightarrow> body = body' \<Longrightarrow> u = u' \<Longrightarrow> def = def'
    \<Longrightarrow> (c' = BerTLV \<Longrightarrow> ber body' u' def' = ber' body' u' def')
    \<Longrightarrow> (c' = SubfieldISO \<Longrightarrow> packager body' u' def' = packager' body' u' def')
    \<Longrightarrow> codec_decode ber packager c body u def = codec_decode ber' packager' c' body' u' def'"
  by (cases c') simp_all

lemma codec_encode_cong [fundef_cong]:
  "c = c' \<Longrightarrow> dst = dst' \<Longrightarrow> v = v' \<Longrightarrow> def = def'
    \<Longrightarrow> (c' = BerTLV \<Longrightarrow> ber dst' v' def' = ber' dst' v' def')
    \<Longrightarrow> (c' = SubfieldISO \<Longrightarrow> packager dst' v' def' = packager' dst' v' def')
    \<Longrightarrow> codec_encode ber packager c dst v def = codec_encode ber' packager' c' dst' v' def'"
  by (cases c') simp_all

text \<open>\<open>Kind\<close>, \<open>Name\<close>, and the optional \<open>WidthCodec\<close> extension.\<close>

definition codec_Kind :: "field_codec \<Rightarrow> kind" where
  "codec_Kind c = (case c of
      Ascii \<Rightarrow> KindString | EbcdicChar _ _ \<Rightarrow> KindString | Utf8Char \<Rightarrow> KindString
    | BinaryRaw \<Rightarrow> KindBytes | HexBinary \<Rightarrow> KindBytes
    | NumASCII \<Rightarrow> KindNumeric | NumEBCDIC \<Rightarrow> KindNumeric | BcdNum \<Rightarrow> KindNumeric
    | RbcdNum \<Rightarrow> KindNumeric | BinNum \<Rightarrow> KindNumeric
    | AmountASCII \<Rightarrow> KindAmount | AmountBCD \<Rightarrow> KindAmount | AmountBinary \<Rightarrow> KindAmount
    | BerTLV \<Rightarrow> KindComposite | SubfieldISO \<Rightarrow> KindComposite)"

definition codec_Name :: "field_codec \<Rightarrow> bytes" where
  "codec_Name c = (case c of
      Ascii \<Rightarrow> bytes_of ''char.ascii'' | EbcdicChar _ name \<Rightarrow> name | Utf8Char \<Rightarrow> bytes_of ''char.utf8''
    | BinaryRaw \<Rightarrow> bytes_of ''b.raw'' | HexBinary \<Rightarrow> bytes_of ''b.hex''
    | NumASCII \<Rightarrow> bytes_of ''num.ascii'' | NumEBCDIC \<Rightarrow> bytes_of ''num.ebcdic'' | BcdNum \<Rightarrow> bytes_of ''num.bcd''
    | RbcdNum \<Rightarrow> bytes_of ''num.rbcd'' | BinNum \<Rightarrow> bytes_of ''num.bin''
    | AmountASCII \<Rightarrow> bytes_of ''amount.ascii'' | AmountBCD \<Rightarrow> bytes_of ''amount.bcd''
    | AmountBinary \<Rightarrow> bytes_of ''amount.bin''
    | BerTLV \<Rightarrow> bytes_of ''tlv.ber'' | SubfieldISO \<Rightarrow> bytes_of ''subfield.iso'')"

definition BodyBytes :: "field_codec \<Rightarrow> (int \<Rightarrow> int) option" where
  "BodyBytes c = (case c of
      BcdNum \<Rightarrow> Some PackedLen | RbcdNum \<Rightarrow> Some PackedLen | AmountBCD \<Rightarrow> Some PackedLen
    | HexBinary \<Rightarrow> Some (\<lambda>u. u * 2) | _ \<Rightarrow> None)"

definition codec_width :: "field_codec \<Rightarrow> int \<Rightarrow> int" where
  "codec_width c u = (case BodyBytes c of Some f \<Rightarrow> f u | None \<Rightarrow> u)"

subsection \<open>The registry\<close>

record registry =
  reg_values :: "bytes \<rightharpoonup> field_codec"
  reg_lengths :: "bytes \<rightharpoonup> length_codec"
  reg_bitmaps :: "bytes \<rightharpoonup> word_repr"

definition NewRegistry :: registry where
  "NewRegistry = \<lparr>reg_values = Map.empty, reg_lengths = Map.empty, reg_bitmaps = Map.empty\<rparr>"

definition Register :: "field_codec \<Rightarrow> registry \<Rightarrow> registry" where
  "Register c r = r\<lparr>reg_values := (reg_values r)(codec_Name c \<mapsto> c)\<rparr>"

definition RegisterLength :: "length_codec \<Rightarrow> registry \<Rightarrow> registry" where
  "RegisterLength l r = r\<lparr>reg_lengths := (reg_lengths r)(length_Name l \<mapsto> l)\<rparr>"

definition RegisterBitmap :: "word_repr \<Rightarrow> registry \<Rightarrow> registry" where
  "RegisterBitmap b r = r\<lparr>reg_bitmaps := (reg_bitmaps r)(repr_name b \<mapsto> b)\<rparr>"

definition registry_Lookup :: "registry \<Rightarrow> bytes \<Rightarrow> field_codec option" where
  "registry_Lookup r name = reg_values r name"

definition LookupLength :: "registry \<Rightarrow> bytes \<Rightarrow> length_codec option" where
  "LookupLength r name = reg_lengths r name"

definition LookupBitmap :: "registry \<Rightarrow> bytes \<Rightarrow> word_repr option" where
  "LookupBitmap r name = reg_bitmaps r name"

definition EBCDIC037 :: field_codec where
  "EBCDIC037 = EbcdicChar CP037 (bytes_of ''char.ebcdic.cp037'')"

definition EBCDIC1047 :: field_codec where
  "EBCDIC1047 = EbcdicChar CP1047 (bytes_of ''char.ebcdic.cp1047'')"

definition catalog :: "field_codec list" where
  "catalog = [Ascii, EBCDIC037, EBCDIC1047, Utf8Char, BinaryRaw, HexBinary,
     NumASCII, NumEBCDIC, BcdNum, RbcdNum, BinNum, AmountASCII, AmountBCD, AmountBinary]"

definition DefaultRegistry :: registry where
  "DefaultRegistry =
     fold RegisterBitmap [BinWord, HexWord, EbcdicWord]
       (fold RegisterLength All_lengths (fold Register catalog NewRegistry))"

subsection \<open>Padding\<close>

lemma padFixed_fixed:
  "padFixed b def pad left = Inr b' \<Longrightarrow> isFixed def \<Longrightarrow> int (length b') = MaxLen def"
  by (auto simp: padFixed_def Let_def split: if_splits)

lemma padFixed_variable: "padFixed b def pad left = Inr b' \<Longrightarrow> \<not> isFixed def \<Longrightarrow> b' = b"
  by (simp add: padFixed_def)

lemma padFixed_exact: "isFixed def \<Longrightarrow> int (length b) = MaxLen def \<Longrightarrow> padFixed b def pad left = Inr b"
  by (simp add: padFixed_def)

lemma padFixed_err: "padFixed b def pad left = Inl e \<longleftrightarrow> isFixed def \<and> MaxLen def < int (length b) \<and> e = ErrTooLong"
  by (auto simp: padFixed_def Let_def)

lemma digitCount_pos: "0 < u \<Longrightarrow> digitCount u def = u"
  by (simp add: digitCount_def)

subsection \<open>The contract of a value codec\<close>

text \<open>For the codecs whose canonical value is its raw bytes: once padding has produced \<open>b\<close> and \<open>b\<close>
  is text the representation carries, encoding appends a body of the width the engine computes
  from the unit count, and decoding that body gives the value back.\<close>

locale value_codec =
  fixes c :: field_codec
    and pad :: byte
    and left :: bool
    and ok :: "bytes \<Rightarrow> bool"
  assumes encode_decode: "padFixed (Bytes v) def pad left = Inr b \<Longrightarrow> ok b \<Longrightarrow>
      \<exists>body. (\<forall>ber packager dst. codec_encode ber packager c dst v def = Inr (dst @ body))
        \<and> int (length body) = codec_width c (int (length b))
        \<and> (\<forall>ber packager. codec_decode ber packager c body (int (length b)) def
            = Inr (Value b (codec_Kind c) None (-1) None decimal0))"
    and encode_too_long: "isFixed def \<Longrightarrow> MaxLen def < int (length (Bytes v)) \<Longrightarrow>
      codec_encode ber packager c dst v def = Inl ErrTooLong"
begin

lemma fixed_width:
  assumes "isFixed def" and "padFixed (Bytes v) def pad left = Inr b" and "ok b"
  shows "\<exists>body. codec_encode ber packager c dst v def = Inr (dst @ body)
    \<and> int (length body) = codec_width c (MaxLen def)"
  using encode_decode [OF assms(2,3)] padFixed_fixed [OF assms(2,1)] by metis

end

lemmas char_codec_defs = ascii_DecodeBody_def ascii_EncodeBody_def ebcdicChar_DecodeBody_def
  ebcdicChar_EncodeBody_def utf8Char_DecodeBody_def utf8Char_EncodeBody_def binaryRaw_DecodeBody_def
  binaryRaw_EncodeBody_def hexBinary_DecodeBody_def hexBinary_EncodeBody_def
  numASCII_DecodeBody_def numASCII_EncodeBody_def numEBCDIC_DecodeBody_def numEBCDIC_EncodeBody_def
  bcdNum_DecodeBody_def bcdNum_EncodeBody_def rbcdNum_DecodeBody_def rbcdNum_EncodeBody_def

lemmas codec_eval = char_codec_defs codec_width_def BodyBytes_def codec_Kind_def value_makers padFixed_err

interpretation ascii: value_codec Ascii 32 False "\<lambda>_. True"
  by unfold_locales (auto simp: codec_eval Bytes_def padFixed_def)

interpretation utf8: value_codec Utf8Char 32 False "\<lambda>_. True"
  by unfold_locales (auto simp: codec_eval Bytes_def padFixed_def)

interpretation binary: value_codec BinaryRaw 0 False "\<lambda>_. True"
  by unfold_locales (auto simp: codec_eval Bytes_def padFixed_def)

interpretation hex_binary: value_codec HexBinary 0 False "\<lambda>_. True"
  by unfold_locales (auto simp: codec_eval Bytes_def padFixed_def)

interpretation num_ascii: value_codec NumASCII 48 True "\<lambda>_. True"
  by unfold_locales (auto simp: codec_eval Bytes_def padFixed_def)

interpretation num_ebcdic: value_codec NumEBCDIC 48 True "list_all (covered CP037)"
  by unfold_locales (auto simp: codec_eval Bytes_def padFixed_def ebcdic_roundtrip simp del: table_of.simps)

interpretation ebcdic_char: value_codec "EbcdicChar cp name" 32 False "list_all (covered cp)" for cp name
  by unfold_locales (auto simp: codec_eval Bytes_def padFixed_def ebcdic_roundtrip simp del: table_of.simps)

lemma bcd_encode_decode:
  assumes "list_all is_digit b" "b \<noteq> []"
  shows "\<exists>p. Pack b = Inr p \<and> int (length p) = PackedLen (int (length b))
      \<and> Unpack p (digitCount (int (length b)) def) = Inr b"
    and "\<exists>p. PackRight b = Inr p \<and> int (length p) = PackedLen (int (length b))
      \<and> UnpackRight p (digitCount (int (length b)) def) = Inr b"
  using Pack_ok [OF assms(1), of "[]"] PackRight_ok [OF assms(1), of "[]"] assms(2)
  by (simp_all add: digitCount_pos)

interpretation bcd: value_codec BcdNum 48 True "\<lambda>b. list_all is_digit b \<and> b \<noteq> []"
proof unfold_locales
  fix v def b
  assume p: "padFixed (Bytes v) def 48 True = Inr b" and ok: "list_all is_digit b \<and> b \<noteq> []"
  then obtain q where "Pack b = Inr q" "int (length q) = PackedLen (int (length b))"
      "Unpack q (digitCount (int (length b)) def) = Inr b"
    using bcd_encode_decode(1) by blast
  with p show "\<exists>body. (\<forall>ber packager dst. codec_encode ber packager BcdNum dst v def = Inr (dst @ body))
      \<and> int (length body) = codec_width BcdNum (int (length b))
      \<and> (\<forall>ber packager. codec_decode ber packager BcdNum body (int (length b)) def
            = Inr (Value b (codec_Kind BcdNum) None (-1) None decimal0))"
    by (intro exI [of _ q]) (simp add: codec_eval)
qed (simp add: codec_eval padFixed_def)

interpretation rbcd: value_codec RbcdNum 48 True "\<lambda>b. list_all is_digit b \<and> b \<noteq> []"
proof unfold_locales
  fix v def b
  assume p: "padFixed (Bytes v) def 48 True = Inr b" and ok: "list_all is_digit b \<and> b \<noteq> []"
  then obtain q where "PackRight b = Inr q" "int (length q) = PackedLen (int (length b))"
      "UnpackRight q (digitCount (int (length b)) def) = Inr b"
    using bcd_encode_decode(2) by blast
  with p show "\<exists>body. (\<forall>ber packager dst. codec_encode ber packager RbcdNum dst v def = Inr (dst @ body))
      \<and> int (length body) = codec_width RbcdNum (int (length b))
      \<and> (\<forall>ber packager. codec_decode ber packager RbcdNum body (int (length b)) def
            = Inr (Value b (codec_Kind RbcdNum) None (-1) None decimal0))"
    by (intro exI [of _ q]) (simp add: codec_eval)
qed (simp add: codec_eval padFixed_def)

subsection \<open>Binary numbers and amounts\<close>

lemma u64_shift_or: "push_bit 8 n OR ucast (c :: byte) = n * 256 + (ucast c :: u64)"
proof -
  have "push_bit 8 n OR ucast c = push_bit 8 n + (ucast c :: u64)"
    by (rule disjunctive_add [symmetric]) (auto simp: bit_simps dest: bit_imp_le_length)
  then show ?thesis by (simp add: push_bit_eq_mult)
qed

lemma u64_of_bytes_val: "u64_of_bytes body = of_nat (be_val body)"
proof (induction body rule: rev_induct)
  case Nil
  then show ?case by (simp add: u64_of_bytes_def)
next
  case (snoc c body)
  have "u64_of_bytes (body @ [c]) = push_bit 8 (u64_of_bytes body) OR ucast c"
    by (simp add: u64_of_bytes_def)
  also have "\<dots> = of_nat (be_val body) * 256 + ucast c"
    by (simp only: snoc u64_shift_or)
  also have "(ucast c :: u64) = of_nat (unat c)" by (simp add: word_unat_eq_iff unat_of_nat)
  finally show ?case by (simp only: be_val_snoc of_nat_add of_nat_mult of_nat_numeral)
qed

lemma be_val_u64: "length body \<le> 8 \<Longrightarrow> unat (u64_of_bytes body) = be_val body"
proof -
  assume "length body \<le> 8"
  then have "(256::nat) ^ length body \<le> 256 ^ 8" by (intro power_increasing) simp_all
  then have "be_val body < 2 ^ 64" using be_val_bound [of body] by simp
  then show ?thesis by (simp add: u64_of_bytes_val unat_of_nat take_bit_eq_mod)
qed

text \<open>The width a binary field is stored in.\<close>

definition bin_width :: "field_def \<Rightarrow> nat" where
  "bin_width def = nat (if MaxLen def \<le> 0 then 8 else MaxLen def)"

lemma store_be_val:
  assumes "bin_width def \<le> 8" "n < 256 ^ bin_width def"
  shows "unat (u64_of_bytes (store_be def (of_nat n))) = n" "length (store_be def (of_nat n)) = bin_width def"
proof -
  have "(256::nat) ^ bin_width def \<le> 256 ^ 8" using assms(1) by (intro power_increasing) simp_all
  with assms(2) have "unat (of_nat n :: u64) = n" by (simp add: unat_of_nat take_bit_eq_mod)
  then have s: "store_be def (of_nat n) = be_bytes (bin_width def) n"
    by (simp add: store_be_def bin_width_def Let_def)
  then show "length (store_be def (of_nat n)) = bin_width def" by simp
  show "unat (u64_of_bytes (store_be def (of_nat n))) = n"
    using assms be_val_u64 [of "store_be def (of_nat n)"] by (simp add: s be_val_be_bytes_id)
qed

lemma binNum_roundtrip:
  assumes "value_Uint v = Inr n" "bin_width def \<le> 8" "n < 256 ^ bin_width def"
  shows "\<exists>body. (\<forall>dst. binNum_EncodeBody dst v def = Inr (dst @ body)) \<and> length body = bin_width def
    \<and> binNum_DecodeBody body = Inr (NumericValue (fmt_nat n))"
  using assms store_be_val [OF assms(2,3)]
  by (intro exI [of _ "store_be def (of_nat n)"]) (simp add: binNum_EncodeBody_def binNum_DecodeBody_def)

lemma amountDigits_ok:
  assumes "amountDigits v def = Inr ds"
  obtains d u where "value_Decimal v = Inr d" "Rescale d (DefScale def) = Inr \<lparr>Unscaled = u, Scale = DefScale def\<rparr>"
    "0 \<le> u" "ds = fmt_nat (nat u)"
proof -
  from assms obtain d where d0: "value_Decimal v = Inr d"
    by (cases "value_Decimal v") (simp_all add: amountDigits_def)
  with assms obtain d' where "Rescale d (DefScale def) = Inr d'"
    by (cases "Rescale d (DefScale def)") (simp_all add: amountDigits_def lift_dec_def)
  with d0 assms have d: "value_Decimal v = Inr d" "Rescale d (DefScale def) = Inr d'"
      "\<not> Unscaled d' < 0" "ds = fmt_int (Unscaled d')"
    by (simp_all add: amountDigits_def lift_dec_def split: if_splits)
  moreover have "Scale d' = DefScale def"
    using d(2) by (auto simp: Rescale_def Let_def split: if_splits option.splits)
  ultimately show thesis
    using that [of d "Unscaled d'"] by (cases d') (simp add: fmt_int_def)
qed

lemma padded_digits:
  assumes "padFixed ds def 48 True = Inr b" "list_all is_digit ds" "ds \<noteq> []"
  shows "list_all is_digit b \<and> b \<noteq> [] \<and> dec_val b = dec_val ds"
  using assms digits_replicate by (auto simp: padFixed_def Let_def split: if_splits)

lemma parse_padded:
  assumes "padFixed (fmt_nat (nat u)) def 48 True = Inr b" "int64 u" "0 \<le> u"
  shows "list_all is_digit b" "b \<noteq> []" "parse_int 64 b = Inr u"
proof -
  have b: "list_all is_digit b" "b \<noteq> []" "dec_val b = nat u"
    using padded_digits [OF assms(1) fmt_nat_digits] by simp_all
  then show "list_all is_digit b" "b \<noteq> []" by simp_all
  have "nat u < 2 ^ 63" using assms(2,3) by (simp add: int64_def nat_less_iff)
  then show "parse_int 64 b = Inr u"
    using parse_int_digits [OF b(1,2), of 64] b(3) assms(3) by simp
qed

lemma Rescale_int64:
  "int64 (Unscaled d) \<Longrightarrow> Scale d \<le> 18 \<Longrightarrow> Rescale d s = Inr d' \<Longrightarrow>
     int64 (Unscaled d') \<and> dec_value d' = dec_value d"
  using Rescale_exact(2) by blast

text \<open>The three amount codecs on the same footing: the digits or the coefficient of the amount at the
  field's scale are what is written, and what is read back is the same amount.\<close>

lemma amountASCII_roundtrip:
  assumes "amountDigits v def = Inr ds" "padFixed ds def 48 True = Inr b"
    and "value_Decimal v = Inr d" "int64 (Unscaled d)" "Scale d \<le> 18"
  shows "\<exists>d'. (\<forall>dst. amountASCII_EncodeBody dst v def = Inr (dst @ b))
    \<and> amountASCII_DecodeBody b def = Inr (AmountValue d' b) \<and> dec_value d' = dec_value d"
proof -
  obtain u where u: "Rescale d (DefScale def) = Inr \<lparr>Unscaled = u, Scale = DefScale def\<rparr>" "0 \<le> u" "ds = fmt_nat (nat u)"
    using amountDigits_ok [OF assms(1)] assms(3) by (metis sum.inject(2))
  with Rescale_int64 [OF assms(4,5) u(1)] have "int64 u" by simp
  with parse_padded [of u def b] assms u Rescale_int64 [OF assms(4,5) u(1)] show ?thesis
    by (intro exI [of _ "\<lparr>Unscaled = u, Scale = DefScale def\<rparr>"])
      (simp add: amountASCII_EncodeBody_def amountASCII_DecodeBody_def NewDecimal_def)
qed

lemma amountBCD_roundtrip:
  assumes "amountDigits v def = Inr ds" "padFixed ds def 48 True = Inr b"
    and "value_Decimal v = Inr d" "int64 (Unscaled d)" "Scale d \<le> 18"
  shows "\<exists>d' p. (\<forall>dst. amountBCD_EncodeBody dst v def = Inr (dst @ p)) \<and> int (length p) = PackedLen (int (length b))
    \<and> amountBCD_DecodeBody p (int (length b)) def = Inr (AmountValue d' b) \<and> dec_value d' = dec_value d"
proof -
  obtain u where u: "Rescale d (DefScale def) = Inr \<lparr>Unscaled = u, Scale = DefScale def\<rparr>" "0 \<le> u" "ds = fmt_nat (nat u)"
    using amountDigits_ok [OF assms(1)] assms(3) by (metis sum.inject(2))
  with Rescale_int64 [OF assms(4,5) u(1)] have i: "int64 u" by simp
  note pp = parse_padded [OF _ i u(2), of def b]
  have "padFixed (fmt_nat (nat u)) def 48 True = Inr b" using assms(2) u(3) by simp
  note pp = pp [OF this]
  obtain p where "Pack b = Inr p" "int (length p) = PackedLen (int (length b))"
      "Unpack p (digitCount (int (length b)) def) = Inr b"
    using bcd_encode_decode(1) [OF pp(1,2)] by blast
  with pp assms u Rescale_int64 [OF assms(4,5) u(1)] show ?thesis
    by (intro exI [of _ "\<lparr>Unscaled = u, Scale = DefScale def\<rparr>"] exI [of _ p])
      (simp add: amountBCD_EncodeBody_def amountBCD_DecodeBody_def NewDecimal_def)
qed

lemma amountBinary_roundtrip:
  assumes "value_Decimal v = Inr d" "int64 (Unscaled d)" "Scale d \<le> 18"
    and "Rescale d (DefScale def) = Inr d'" "0 \<le> Unscaled d'"
    and "bin_width def \<le> 8" "nat (Unscaled d') < 256 ^ bin_width def"
  shows "\<exists>body. (\<forall>dst. amountBinary_EncodeBody dst v def = Inr (dst @ body)) \<and> length body = bin_width def
    \<and> amountBinary_DecodeBody body def = Inr (AmountValue d' body) \<and> dec_value d' = dec_value d"
proof -
  let ?n = "nat (Unscaled d')" and ?body = "store_be def (of_int (Unscaled d'))"
  have body: "?body = store_be def (of_nat ?n)" using assms(5) by simp
  note st = store_be_val [OF assms(6,7), folded body]
  have d': "int64 (Unscaled d')" "dec_value d' = dec_value d" "Scale d' = DefScale def"
    using Rescale_exact(2) [OF assms(2,3,4)] by simp_all
  have "sint (u64_of_bytes ?body) = Unscaled d'"
  proof -
    have "uint (u64_of_bytes ?body) = Unscaled d'"
    proof -
      have "int (unat (u64_of_bytes ?body)) = Unscaled d'" using st(1) assms(5) by simp
      then show ?thesis by simp
    qed
    moreover have "Unscaled d' < 2 ^ 63" using d'(1) by (simp add: int64_def)
    ultimately show ?thesis using assms(5)
      by (simp add: sint_uint signed_take_bit_int_eq_self)
  qed
  then have "amountBinary_DecodeBody ?body def = Inr (AmountValue d' ?body)"
    using d'(3) by (cases d') (simp add: amountBinary_DecodeBody_def NewDecimal_def)
  with assms st(2) d'(2) show ?thesis
    by (intro exI [of _ ?body]) (simp add: amountBinary_EncodeBody_def lift_dec_def)
qed

subsection \<open>The catalog as instances of the contract\<close>

text \<open>The padding byte and side of the codecs whose value is its raw bytes, and the bytes their
  representation carries.\<close>

definition raw_rule :: "field_codec \<Rightarrow> (byte \<times> bool \<times> (bytes \<Rightarrow> bool)) option" where
  "raw_rule c = (case c of
      Ascii \<Rightarrow> Some (32, False, \<lambda>_. True) | Utf8Char \<Rightarrow> Some (32, False, \<lambda>_. True)
    | EbcdicChar cp _ \<Rightarrow> Some (32, False, list_all (covered cp))
    | BinaryRaw \<Rightarrow> Some (0, False, \<lambda>_. True) | HexBinary \<Rightarrow> Some (0, False, \<lambda>_. True)
    | NumASCII \<Rightarrow> Some (48, True, \<lambda>_. True) | NumEBCDIC \<Rightarrow> Some (48, True, list_all (covered CP037))
    | BcdNum \<Rightarrow> Some (48, True, \<lambda>b. list_all is_digit b \<and> b \<noteq> [])
    | RbcdNum \<Rightarrow> Some (48, True, \<lambda>b. list_all is_digit b \<and> b \<noteq> [])
    | _ \<Rightarrow> None)"

lemmas value_codec_axioms_all = ascii.value_codec_axioms utf8.value_codec_axioms binary.value_codec_axioms
  hex_binary.value_codec_axioms num_ascii.value_codec_axioms num_ebcdic.value_codec_axioms
  ebcdic_char.value_codec_axioms bcd.value_codec_axioms rbcd.value_codec_axioms

lemma raw_rule_contract: "raw_rule c = Some (pad, left, ok) \<Longrightarrow> value_codec c pad left ok"
  by (auto simp: raw_rule_def value_codec_axioms_all split: field_codec.splits)

lemma fold_Register:
  "reg_values (fold Register cs r) = reg_values r ++ map_of (rev (map (\<lambda>c. (codec_Name c, c)) cs))"
  by (induction cs arbitrary: r) (simp_all add: Register_def map_add_def fun_eq_iff split: option.split)

lemma fold_RegisterLength:
  "reg_lengths (fold RegisterLength ls r) = reg_lengths r ++ map_of (rev (map (\<lambda>l. (length_Name l, l)) ls))"
  "reg_values (fold RegisterLength ls r) = reg_values r"
  by (induction ls arbitrary: r) (simp_all add: RegisterLength_def map_add_def fun_eq_iff split: option.split)

lemma fold_RegisterBitmap:
  "reg_lengths (fold RegisterBitmap bs r) = reg_lengths r" "reg_values (fold RegisterBitmap bs r) = reg_values r"
  by (induction bs arbitrary: r) (simp_all add: RegisterBitmap_def)

lemma fold_Register_lengths: "reg_lengths (fold Register cs r) = reg_lengths r"
  by (induction cs arbitrary: r) (simp_all add: Register_def)

lemma catalog_names: "distinct (map codec_Name catalog)" "distinct (map length_Name All_lengths)"
  by code_simp+

lemma map_of_rev_name:
  assumes "distinct (map f xs)"
  shows "map_of (rev (map (\<lambda>x. (f x, x)) xs)) n = find (\<lambda>x. f x = n) xs"
proof -
  have "map_of (rev (map (\<lambda>x. (f x, x)) xs)) = map_of (map (\<lambda>x. (f x, x)) xs)"
    using assms by (subst map_of_inject_set) (simp_all add: rev_map [symmetric] comp_def)
  then have "map_of (rev (map (\<lambda>x. (f x, x)) xs)) n = map_of (map (\<lambda>x. (f x, x)) xs) n" by simp
  also have "\<dots> = find (\<lambda>x. f x = n) xs" by (induction xs) auto
  finally show ?thesis .
qed

subsection \<open>Properties\<close>

text \<open>For the character, binary, hex, numeric and packed codecs: a value that fits its field and that
  the representation can carry is encoded to exactly the width the engine reserves for it, and
  decoding that body yields the (padded) value; a value too long for a fixed field is refused.\<close>

theorem value_codec_roundtrip:
  assumes "raw_rule c = Some (pad, left, ok)"
  shows "(\<forall>b. padFixed (Bytes v) def pad left = Inr b \<and> ok b \<longrightarrow>
      (\<exists>body. codec_encode ber packager c dst v def = Inr (dst @ body)
        \<and> int (length body) = codec_width c (int (length b))
        \<and> codec_decode ber' packager' c body (int (length b)) def
            = Inr (Value b (codec_Kind c) None (-1) None decimal0)))
    \<and> (isFixed def \<and> MaxLen def < int (length (Bytes v)) \<longrightarrow>
        codec_encode ber packager c dst v def = Inl ErrTooLong)"
proof -
  note vc = raw_rule_contract [OF assms]
  show ?thesis
    using value_codec.encode_decode [OF vc, of v def] value_codec.encode_too_long [OF vc, of def v ber packager dst]
    by blast
qed

theorem value_codec_roundtrip_witness:
  "\<exists>body. codec_encode (\<lambda>_ _ _. Inl Panic) (\<lambda>_ _ _. Inl Panic) BcdNum [] (NumericValue [49, 50, 51]) fieldDef0 = Inr ([] @ body)
     \<and> codec_decode (\<lambda>_ _ _. Inl Panic) (\<lambda>_ _ _. Inl Panic) BcdNum body 3 fieldDef0
       = Inr (Value [49, 50, 51] KindNumeric None (-1) None decimal0)"
  using value_codec_roundtrip [of BcdNum 48 True "\<lambda>b. list_all is_digit b \<and> b \<noteq> []" "NumericValue [49, 50, 51]"
      fieldDef0 "\<lambda>_ _ _. Inl Panic" "\<lambda>_ _ _. Inl Panic" "[]"]
  by (simp add: raw_rule_def padFixed_def isFixed_def fieldDef0_def NumericValue_def Bytes_def is_digit_def codec_Kind_def)
    blast

text \<open>Money is exact on the wire: when an ASCII or packed amount field accepts an amount, decoding the
  written body gives a decimal of exactly the same value.\<close>

theorem amount_codecs_exact:
  assumes "value_Decimal v = Inr d" "int64 (Unscaled d)" "Scale d \<le> 18"
    and "amountDigits v def = Inr ds" "padFixed ds def 48 True = Inr b"
  shows "(\<exists>body d'. codec_encode ber packager AmountASCII dst v def = Inr (dst @ body)
      \<and> codec_decode ber' packager' AmountASCII body (int (length b)) def = Inr (AmountValue d' b)
      \<and> dec_value d' = dec_value d)
    \<and> (\<exists>body d'. codec_encode ber packager AmountBCD dst v def = Inr (dst @ body)
      \<and> int (length body) = codec_width AmountBCD (int (length b))
      \<and> codec_decode ber' packager' AmountBCD body (int (length b)) def = Inr (AmountValue d' b)
      \<and> dec_value d' = dec_value d)"
  using amountASCII_roundtrip [OF assms(4,5,1,2,3)] amountBCD_roundtrip [OF assms(4,5,1,2,3)]
  by (simp add: codec_width_def BodyBytes_def) blast

theorem amount_codecs_exact_witness:
  "\<exists>body d'. codec_encode (\<lambda>_ _ _. Inl Panic) (\<lambda>_ _ _. Inl Panic) AmountASCII []
       (AmountValue \<lparr>Unscaled = 1099, Scale = 0\<rparr> []) fieldDef0 = Inr ([] @ body)
     \<and> codec_decode (\<lambda>_ _ _. Inl Panic) (\<lambda>_ _ _. Inl Panic) AmountASCII body 4 fieldDef0
       = Inr (AmountValue d' [49, 48, 57, 57])
     \<and> dec_value d' = dec_value \<lparr>Unscaled = 1099, Scale = 0\<rparr>"
proof -
  have "amountDigits (AmountValue \<lparr>Unscaled = 1099, Scale = 0\<rparr> []) fieldDef0 = Inr [49, 48, 57, 57]" by code_simp
  moreover have "padFixed [49, 48, 57, 57] fieldDef0 48 True = Inr [49, 48, 57, 57]" by code_simp
  ultimately show ?thesis
    using amount_codecs_exact [of "AmountValue \<lparr>Unscaled = 1099, Scale = 0\<rparr> []" "\<lparr>Unscaled = 1099, Scale = 0\<rparr>"
        fieldDef0 "[49, 48, 57, 57]" "[49, 48, 57, 57]" "\<lambda>_ _ _. Inl Panic" "\<lambda>_ _ _. Inl Panic" "[]"]
    by (simp add: value_Decimal_def AmountValue_def int64_def)
qed

text \<open>The default registry resolves exactly the names of its catalog, each to the codec of that name;
  no two codecs of the catalog share a name.\<close>

theorem DefaultRegistry_complete:
  "registry_Lookup DefaultRegistry n = find (\<lambda>c. codec_Name c = n) catalog
   \<and> LookupLength DefaultRegistry n = find (\<lambda>l. length_Name l = n) All_lengths
   \<and> distinct (map codec_Name catalog) \<and> distinct (map length_Name All_lengths)"
  unfolding registry_Lookup_def LookupLength_def DefaultRegistry_def fold_RegisterBitmap fold_RegisterLength
    fold_Register fold_Register_lengths
  by (simp add: NewRegistry_def map_of_rev_name catalog_names)

text \<open>An empty packed-BCD value of a variable field is encoded to the empty body but does not decode:
  a unit count of zero makes the decoder ask for as many digits as the field's maximum.\<close>

theorem bcd_empty_not_decodable:
  assumes "Length def = Some l" and "0 < MaxLen def"
  shows "codec_encode ber packager BcdNum dst (NumericValue []) def = Inr dst
    \<and> codec_decode ber' packager' BcdNum [] 0 def = Inl (ErrBCD BcdShort)"
proof -
  have "Pack [] = Inr []" by code_simp
  moreover have "\<not> PackedLen (MaxLen def) \<le> 0" using assms(2) by (simp add: PackedLen_pos)
  ultimately show ?thesis
    using assms by (simp add: bcdNum_EncodeBody_def bcdNum_DecodeBody_def padFixed_def isFixed_def
        NumericValue_def Bytes_def digitCount_def Unpack_def)
qed

theorem bcd_empty_not_decodable_witness:
  "codec_decode (\<lambda>_ _ _. Inl Panic) (\<lambda>_ _ _. Inl Panic) BcdNum [] 0
     (FieldDef [] [] KindNumeric (Some BcdNum) (Some LLVarBCD) 19 0 \<lparr>Side = PadNone, PadChar = 0\<rparr> []
       \<lparr>Mode = RequiredOptional, MTIClasses = []\<rparr> None) = Inl (ErrBCD BcdShort)"
  using bcd_empty_not_decodable [of "FieldDef [] [] KindNumeric (Some BcdNum) (Some LLVarBCD) 19 0
      \<lparr>Side = PadNone, PadChar = 0\<rparr> [] \<lparr>Mode = RequiredOptional, MTIClasses = []\<rparr> None" LLVarBCD
      "\<lambda>_ _ _. Inl Panic" "\<lambda>_ _ _. Inl Panic" "[]"] by simp

end
