(* ===== verification/Unmarshal.thy ===== *)
theory Unmarshal
  imports FieldCodec
begin

text \<open>
  The structural parse of the engine, \<^verbatim>\<open>src/iso8583/codec.go\<close>: \<open>fieldBodySpan\<close> locates one
  field, \<open>Unmarshal\<close> walks the present fields with the bitmap's iterator and records a span for
  each. Field bodies are not decoded here.
\<close>

record codec_options =
  Immutable :: bool
  Strict :: bool

record codec =
  cschema :: schema
  opts :: codec_options

text \<open>A \<open>CodecOption\<close> is one of the two functions the package exports.\<close>

datatype codec_option = OptImmutable | OptStrict

definition apply_option :: "codec_option \<Rightarrow> codec_options \<Rightarrow> codec_options" where
  "apply_option f o' = (case f of OptImmutable \<Rightarrow> o'\<lparr>Immutable := True\<rparr> | OptStrict \<Rightarrow> o'\<lparr>Strict := True\<rparr>)"

definition NewCodec :: "schema \<Rightarrow> codec_option list \<Rightarrow> codec" where
  "NewCodec s os = \<lparr>cschema = s, opts = fold apply_option os \<lparr>Immutable = False, Strict = False\<rparr>\<rparr>"

definition wireBytes :: "field_def \<Rightarrow> int \<Rightarrow> int" where
  "wireBytes def u =
     (case Codec def of None \<Rightarrow> u
      | Some c \<Rightarrow> (case BodyBytes c of Some f \<Rightarrow> f u | None \<Rightarrow> u))"

definition fieldBodySpan :: "field_def \<Rightarrow> bytes \<Rightarrow> int \<Rightarrow> (int \<times> int \<times> int \<times> int) result" where
  "fieldBodySpan def s p =
     (if p < 0 \<or> p > int (length s) then Inl errTruncated
      else bind_result
        (case Length def of
           None \<Rightarrow> Inr (MaxLen def, p)
         | Some l \<Rightarrow> bind_result (ReadLen l s p def) (\<lambda>(u, after).
             if u < 0 \<or> after < p then Inl errBadLength else Inr (u, after)))
        (\<lambda>(u, bOff). let bEnd = bOff + wireBytes def u in
           if bEnd > int (length s) then Inl errTruncated else Inr (bOff, bEnd, bEnd, u)))"

definition span_slot :: "int \<Rightarrow> int \<Rightarrow> int \<Rightarrow> int \<Rightarrow> slot" where
  "span_slot p bOff bEnd u = Slot value0 True False False True u p bOff bEnd"

text \<open>The callback of the bitmap iteration; its state is the message, the offset and the error.\<close>

definition unmarshal_field ::
    "schema \<Rightarrow> bytes \<Rightarrow> int \<Rightarrow> message \<times> int \<times> error option \<Rightarrow> (message \<times> int \<times> error option) \<times> bool" where
  "unmarshal_field s wire de st = (case st of (m, p, ferr) \<Rightarrow>
     (case Field s de of
        None \<Rightarrow> ((m, p, Some (FieldError (DE de) p [] errUnknownDE)), False)
      | Some def \<Rightarrow> (case fieldBodySpan def wire p of
            Inl e \<Rightarrow> ((m, p, Some (FieldError (DE de) p (Name def) e)), False)
          | Inr (bOff, bEnd, nx, u) \<Rightarrow>
              ((if de < int (length (slots m)) then put_slot m de (span_slot p bOff bEnd u) else m, nx, ferr), True))))"

definition unmarshal_mti :: "schema \<Rightarrow> bytes \<Rightarrow> message \<Rightarrow> (message \<times> int) result" where
  "unmarshal_mti s wire m =
     (case mti s of
        None \<Rightarrow> Inr (m, 0)
      | Some def \<Rightarrow> (case fieldBodySpan def wire 0 of
            Inl e \<Rightarrow> Inl (FieldError (DE 0) 0 (Name def) e)
          | Inr (bOff, bEnd, nx, u) \<Rightarrow> Inr (put_slot m 0 (span_slot 0 bOff bEnd u), nx)))"

definition Unmarshal :: "codec \<Rightarrow> bytes \<Rightarrow> message result" where
  "Unmarshal c wire =
     (let s = cschema c; m = newDecoded s wire (Immutable (opts c)) in
      bind_result (unmarshal_mti s wire m) (\<lambda>(m, p).
        case BmCodec (bitmap_of s) of
          None \<Rightarrow> Inl (FieldError (DE 1) p [] errUnknownDE)
        | Some bc \<Rightarrow> (case ReadBitmap bc wire p (Levels (bitmap_of s)) of
              Inl e \<Rightarrow> Inl (FieldError (DE 1) p [] e)
            | Inr (bm, nx) \<Rightarrow>
                (case Range bm (unmarshal_field s wire) (with_bmap m bm, nx, None) of
                   (m, _, Some e) \<Rightarrow> Inl e
                 | (m, _, None) \<Rightarrow> Inr m))))"

subsection \<open>Spans\<close>

text \<open>The definitions whose spans are always well formed: a fixed width is not negative, and a
  prefix codec is \<open>Fixed\<close> or has at least one digit or byte.\<close>

definition wf_span :: "field_def \<Rightarrow> bool" where
  "wf_span def = (case Length def of None \<Rightarrow> 0 \<le> MaxLen def | Some l \<Rightarrow> l = Fixed \<or> wf_prefix l)"

lemma PackedLen_nonneg [simp]: "0 \<le> u \<Longrightarrow> 0 \<le> PackedLen u"
  by (simp add: PackedLen_pos)

lemma wireBytes_nonneg: "0 \<le> u \<Longrightarrow> 0 \<le> wireBytes def u"
  by (auto simp: wireBytes_def BodyBytes_def split: option.split field_codec.splits)

lemma ReadLen_ge: "l = Fixed \<or> wf_prefix l \<Longrightarrow> 0 \<le> p \<Longrightarrow> ReadLen l s p def = Inr (u, after) \<Longrightarrow> p \<le> after"
  using ReadLen_bounds [of l s p def u after] by (auto simp: ReadLen_def split: length_codec.splits)

lemma fieldBodySpan_bounds:
  assumes "fieldBodySpan def s p = Inr (bOff, bEnd, nx, u)" and "wf_span def"
  shows "0 \<le> p \<and> p \<le> bOff \<and> bOff \<le> bEnd \<and> bEnd \<le> int (length s) \<and> nx = bEnd \<and> 0 \<le> u
    \<and> bEnd = bOff + wireBytes def u"
proof -
  have p: "0 \<le> p" "p \<le> int (length s)" using assms(1) by (auto simp: fieldBodySpan_def split: if_splits)
  show ?thesis
  proof (cases "Length def")
    case None
    with assms p wireBytes_nonneg [of "MaxLen def" def] show ?thesis
      by (auto simp: fieldBodySpan_def wf_span_def Let_def split: if_splits)
  next
    case (Some l)
    with assms(1) p obtain after where "ReadLen l s p def = Inr (u, after)" "0 \<le> u" "p \<le> after"
        "bOff = after" "bEnd = after + wireBytes def u" "bEnd \<le> int (length s)" "nx = bEnd"
      by (auto simp: fieldBodySpan_def bind_result_Inr Let_def split: if_splits)
    with p wireBytes_nonneg [of u def] show ?thesis by auto
  qed
qed

subsection \<open>The walk as a function on lists\<close>

text \<open>A reference for the iteration: the slots of a list of elements, each starting where the
  previous one ends.\<close>

fun walk :: "schema \<Rightarrow> bytes \<Rightarrow> int \<Rightarrow> int list \<Rightarrow> ((int \<times> slot) list \<times> int) result" where
  "walk s wire p [] = Inr ([], p)"
| "walk s wire p (de # des) =
     (case Field s de of
        None \<Rightarrow> Inl (FieldError (DE de) p [] errUnknownDE)
      | Some def \<Rightarrow> (case fieldBodySpan def wire p of
            Inl e \<Rightarrow> Inl (FieldError (DE de) p (Name def) e)
          | Inr (bOff, bEnd, nx, u) \<Rightarrow>
              bind_result (walk s wire nx des) (\<lambda>(rest, fin). Inr ((de, span_slot p bOff bEnd u) # rest, fin))))"

definition put_slots :: "(int \<times> slot) list \<Rightarrow> message \<Rightarrow> message" where
  "put_slots es m = fold (\<lambda>(de, sl) m. if de < int (length (slots m)) then put_slot m de sl else m) es m"

lemma unmarshal_field_step:
  "unmarshal_field s wire de (m, p, None) =
     (case Field s de of
        None \<Rightarrow> ((m, p, Some (FieldError (DE de) p [] errUnknownDE)), False)
      | Some def \<Rightarrow> (case fieldBodySpan def wire p of
            Inl e \<Rightarrow> ((m, p, Some (FieldError (DE de) p (Name def) e)), False)
          | Inr (bOff, bEnd, nx, u) \<Rightarrow> ((put_slots [(de, span_slot p bOff bEnd u)] m, nx, None), True)))"
  by (simp add: unmarshal_field_def put_slots_def split: option.split sum.split)

lemma put_slots_Cons: "put_slots (e # es) m = put_slots es (put_slots [e] m)"
  by (simp add: put_slots_def)

lemma run_unmarshal_ok:
  "walk s wire p des = Inr (es, fin) \<Longrightarrow>
     run_yield (unmarshal_field s wire) des (m, p, None) = ((put_slots es m, fin, None), True)"
proof (induction des arbitrary: m p es)
  case Nil
  then show ?case by (simp add: put_slots_def)
next
  case (Cons de des)
  from Cons.prems obtain def bOff bEnd nx u rest
    where "Field s de = Some def" "fieldBodySpan def wire p = Inr (bOff, bEnd, nx, u)"
      "walk s wire nx des = Inr (rest, fin)" "es = (de, span_slot p bOff bEnd u) # rest"
    by (auto simp: bind_result_Inr split: option.splits sum.splits)
  with Cons.IH show ?case by (simp add: unmarshal_field_step put_slots_Cons [of _ rest])
qed

lemma run_unmarshal_err:
  "walk s wire p des = Inl e \<Longrightarrow>
     \<exists>m' p'. run_yield (unmarshal_field s wire) des (m, p, None) = ((m', p', Some e), False)"
proof (induction des arbitrary: m p)
  case Nil
  then show ?case by simp
next
  case (Cons de des)
  show ?case
  proof (cases "\<exists>def r. Field s de = Some def \<and> fieldBodySpan def wire p = Inr r")
    case False
    with Cons.prems show ?thesis
      by (auto simp: unmarshal_field_step split: option.splits sum.splits)
  next
    case True
    then obtain def bOff bEnd nx u
      where "Field s de = Some def" "fieldBodySpan def wire p = Inr (bOff, bEnd, nx, u)" by auto
    moreover from this Cons.prems have "walk s wire nx des = Inl e"
      by (cases "walk s wire nx des") (auto split: prod.splits)
    ultimately show ?thesis using Cons.IH by (simp add: unmarshal_field_step)
  qed
qed

text \<open>\<open>Unmarshal\<close> is: parse the MTI, read the bitmap, walk its data elements.\<close>

lemma Unmarshal_walk:
  "Unmarshal c wire =
     (let s = cschema c in
      bind_result (unmarshal_mti s wire (newDecoded s wire (Immutable (opts c)))) (\<lambda>(m, p).
        case BmCodec (bitmap_of s) of
          None \<Rightarrow> Inl (FieldError (DE 1) p [] errUnknownDE)
        | Some bc \<Rightarrow> (case ReadBitmap bc wire p (Levels (bitmap_of s)) of
              Inl e \<Rightarrow> Inl (FieldError (DE 1) p [] e)
            | Inr (bm, nx) \<Rightarrow>
                bind_result (walk s wire nx (data_elements bm)) (\<lambda>(es, fin). Inr (put_slots es (with_bmap m bm))))))"
proof -
  have "(case Range bm (unmarshal_field s wire) (m, nx, None) of (m, _, Some e) \<Rightarrow> Inl e | (m, _, None) \<Rightarrow> Inr m)
      = bind_result (walk s wire nx (data_elements bm)) (\<lambda>(es, fin). Inr (put_slots es m))" for s bm nx m
  proof (cases "walk s wire nx (data_elements bm)")
    case (Inl e)
    with run_unmarshal_err [OF Inl, of m] show ?thesis by (auto simp: Range_eq)
  next
    case (Inr r)
    then show ?thesis
      using run_unmarshal_ok [of s wire nx "data_elements bm" "fst r" "snd r" m] by (cases r) (simp add: Range_eq)
  qed
  then show ?thesis
    unfolding Unmarshal_def Let_def by (simp cong: option.case_cong sum.case_cong prod.case_cong)
qed

subsection \<open>Spans tile the wire\<close>

text \<open>Slots that follow each other without gap or overlap, from \<open>p\<close> to \<open>fin\<close>, within the buffer.\<close>

fun tiled :: "bytes \<Rightarrow> int \<Rightarrow> slot list \<Rightarrow> int \<Rightarrow> bool" where
  "tiled wire p [] fin \<longleftrightarrow> p = fin"
| "tiled wire p (sl # sls) fin \<longleftrightarrow>
     wireOff sl = p \<and> p \<le> bodyOff sl \<and> bodyOff sl \<le> bodyEnd sl \<and> bodyEnd sl \<le> int (length wire)
     \<and> present sl \<and> fromSrc sl \<and> \<not> decoded sl \<and> \<not> sdirty sl \<and> 0 \<le> units sl
     \<and> tiled wire (bodyEnd sl) sls fin"

lemma tiled_le: "tiled wire p sls fin \<Longrightarrow> p \<le> fin"
  by (induction sls arbitrary: p) force+

lemma tiled_concat:
  "tiled wire p sls fin \<Longrightarrow> 0 \<le> p \<Longrightarrow>
     concat (map (\<lambda>sl. slice wire (wireOff sl) (bodyEnd sl)) sls) = slice wire p fin"
proof (induction sls arbitrary: p)
  case Nil
  then show ?case by (simp add: slice_def)
next
  case (Cons sl sls)
  have "p \<le> bodyEnd sl" "bodyEnd sl \<le> fin" using Cons.prems tiled_le by auto
  with Cons.IH [of "bodyEnd sl"] Cons.prems show ?case by (simp add: slice_cat)
qed

definition wf_spans :: "schema \<Rightarrow> bool" where
  "wf_spans s \<longleftrightarrow> 0 \<le> maxDE s \<and> int (length (defs s)) = maxDE s + 1 \<and> (\<forall>d \<in> set_option (mti s). wf_span d)
     \<and> (\<forall>d. Some d \<in> set (defs s) \<longrightarrow> wf_span d)"

lemma wf_spans_Field: "wf_spans s \<Longrightarrow> Field s de = Some d \<Longrightarrow> wf_span d"
  by (auto simp: wf_spans_def Field_def split: if_splits) (metis linorder_not_le nat_less_iff nth_mem)

lemma walk_tiled:
  assumes "walk s wire p des = Inr (es, fin)" and "wf_spans s" and "0 \<le> p"
  shows "map fst es = des \<and> tiled wire p (map snd es) fin"
  using assms
proof (induction des arbitrary: p es)
  case Nil
  then show ?case by auto
next
  case (Cons de des)
  from Cons.prems obtain def bOff bEnd nx u rest
    where w: "Field s de = Some def" "fieldBodySpan def wire p = Inr (bOff, bEnd, nx, u)"
      "walk s wire nx des = Inr (rest, fin)" "es = (de, span_slot p bOff bEnd u) # rest"
    by (auto simp: bind_result_Inr split: option.splits sum.splits)
  note b = fieldBodySpan_bounds [OF w(2) wf_spans_Field [OF Cons.prems(2) w(1)]]
  with Cons.IH [OF w(3) Cons.prems(2)] w(4) show ?case by (simp add: span_slot_def)
qed

lemma put_slots_sel [simp]:
  "mschema (put_slots es m) = mschema m" "src (put_slots es m) = src m" "bmap (put_slots es m) = bmap m"
  "owned (put_slots es m) = owned m" "mdirty (put_slots es m) = mdirty m" "sealed (put_slots es m) = sealed m"
  "tags (put_slots es m) = tags m" "tagOrder (put_slots es m) = tagOrder m"
  "length (slots (put_slots es m)) = length (slots m)"
  by (induction es arbitrary: m) (simp_all add: put_slots_def split: prod.split)

lemma put_slots_nth:
  "distinct (map fst es) \<Longrightarrow> \<forall>e \<in> set es. 0 \<le> fst e \<Longrightarrow> i < length (slots m) \<Longrightarrow>
     slots (put_slots es m) ! i = (case map_of es (int i) of Some sl \<Rightarrow> sl | None \<Rightarrow> slots m ! i)"
proof (induction es arbitrary: m)
  case Nil
  then show ?case by (simp add: put_slots_def)
next
  case (Cons e es)
  obtain de sl where e: "e = (de, sl)" by (cases e)
  have "map_of es de = None" using Cons.prems(1) by (simp add: e map_of_eq_None_iff)
  moreover have "slots (put_slots [e] m) ! i = (if int i = de then sl else slots m ! i)"
    using Cons.prems by (auto simp: put_slots_def e)
  ultimately show ?case
    using Cons by (subst put_slots_Cons) (auto simp: e split: option.split)
qed

text \<open>What a successful parse leaves behind. The slot of an element is looked up in the walk.\<close>

definition mti_slot :: "schema \<Rightarrow> bytes \<Rightarrow> (slot \<times> int) result" where
  "mti_slot s wire = (case mti s of None \<Rightarrow> Inr (slot0, 0)
     | Some def \<Rightarrow> bind_result (fieldBodySpan def wire 0) (\<lambda>(bOff, bEnd, nx, u). Inr (span_slot 0 bOff bEnd u, nx)))"

lemma unmarshal_mti_ok:
  assumes "unmarshal_mti s wire (newDecoded s wire i) = Inr (m, p)" and "wf_spans s"
  shows "\<exists>sl. mti_slot s wire = Inr (sl, p) \<and> 0 \<le> p \<and> p \<le> int (length wire)
    \<and> m = put_slot (newDecoded s wire i) 0 sl \<and> (mti s = None \<and> sl = slot0 \<or> tiled wire 0 [sl] p)"
proof (cases "mti s")
  case None
  have "put_slot (newDecoded s wire i) 0 slot0 = newDecoded s wire i"
    using assms(2) by (simp add: put_slot_def with_slots_def newDecoded_def list_eq_iff_nth_eq nth_list_update)
  with None assms(1) show ?thesis by (simp add: unmarshal_mti_def mti_slot_def)
next
  case (Some def)
  with assms(1) obtain bOff bEnd u where sp: "fieldBodySpan def wire 0 = Inr (bOff, bEnd, p, u)"
      "m = put_slot (newDecoded s wire i) 0 (span_slot 0 bOff bEnd u)"
    by (auto simp: unmarshal_mti_def split: sum.splits)
  have "wf_span def" using assms(2) Some by (simp add: wf_spans_def)
  note b = fieldBodySpan_bounds [OF sp(1) this]
  with Some sp show ?thesis
    by (intro exI [of _ "span_slot 0 bOff bEnd u"]) (simp add: mti_slot_def, simp add: span_slot_def)
qed

lemma read_levels_bounds:
  "read_levels r wire ml ls p bm = Inr (bm', nx) \<Longrightarrow> 0 \<le> p \<Longrightarrow> p \<le> int (length wire) \<Longrightarrow>
     p \<le> nx \<and> nx \<le> int (length wire)"
proof (induction ls arbitrary: p bm)
  case Nil
  then show ?case by simp
next
  case (Cons l ls)
  have "0 \<le> wireLen r" by (simp add: wireLen_def split: word_repr.split)
  with Cons.prems Cons.IH [of "p + wireLen r"] show ?case
    by (force simp: Let_def split: if_splits option.splits)
qed

lemma ReadBitmap_bounds:
  "ReadBitmap r wire p ml = Inr (bm, nx) \<Longrightarrow> 0 \<le> p \<Longrightarrow> p \<le> int (length wire) \<Longrightarrow> p \<le> nx \<and> nx \<le> int (length wire)"
  unfolding ReadBitmap_def by (rule read_levels_bounds)

lemma Unmarshal_cases:
  assumes "Unmarshal c wire = Inr m" and wf: "wf_spans (cschema c)"
  obtains msl p bc bm nx es fin
  where "mti_slot (cschema c) wire = Inr (msl, p)" "mti (cschema c) = None \<and> msl = slot0 \<and> p = 0 \<or> tiled wire 0 [msl] p"
    and "BmCodec (bitmap_of (cschema c)) = Some bc"
    and "ReadBitmap bc wire p (Levels (bitmap_of (cschema c))) = Inr (bm, nx)" "0 \<le> p" "p \<le> nx"
    and "walk (cschema c) wire nx (data_elements bm) = Inr (es, fin)" "map fst es = data_elements bm" "tiled wire nx (map snd es) fin"
    and "m = put_slots es (with_bmap (put_slot (newDecoded (cschema c) wire (Immutable (opts c))) 0 msl) bm)"
proof -
  let ?s = "cschema c"
  from assms(1) obtain m0 p where mp: "unmarshal_mti ?s wire (newDecoded ?s wire (Immutable (opts c))) = Inr (m0, p)"
    by (auto simp: Unmarshal_walk Let_def bind_result_Inr)
  with assms(1) obtain bc bm nx es fin where *: "BmCodec (bitmap_of ?s) = Some bc"
      "ReadBitmap bc wire p (Levels (bitmap_of ?s)) = Inr (bm, nx)"
      "walk ?s wire nx (data_elements bm) = Inr (es, fin)" "m = put_slots es (with_bmap m0 bm)"
    by (auto simp: Unmarshal_walk Let_def bind_result_Inr split: option.splits sum.splits)
  from unmarshal_mti_ok [OF mp wf] obtain msl where m0: "mti_slot ?s wire = Inr (msl, p)" "0 \<le> p" "p \<le> int (length wire)"
      "m0 = put_slot (newDecoded ?s wire (Immutable (opts c))) 0 msl" "mti ?s = None \<and> msl = slot0 \<or> tiled wire 0 [msl] p"
    by blast
  have nx: "p \<le> nx" using ReadBitmap_bounds [OF *(2) m0(2,3)] by simp
  then have "0 \<le> nx" using m0(2) by simp
  note wt = walk_tiled [OF *(3) wf this]
  have "mti ?s = None \<Longrightarrow> p = 0" using m0(1) by (simp add: mti_slot_def)
  with m0 * nx wt show thesis using that [of msl p bc bm nx es fin] by blast
qed

end
