(* ===== verification/BERTLV.thy ===== *)
theory BERTLV
  imports Unmarshal
begin

text \<open>
  Tag-addressed messages (the tag operations of \<^verbatim>\<open>src/iso8583/message.go\<close>) and the BER-TLV
  composite codec, \<^verbatim>\<open>src/fieldcodec/tlv/bertlv.go\<close>. The codec calls the value codec of each
  tag through the interface; that call is the argument \<open>dcd\<close> or \<open>enc\<close>.
\<close>

subsection \<open>Tag-addressed children\<close>

definition PutTag :: "message \<Rightarrow> bytes \<Rightarrow> value \<Rightarrow> message" where
  "PutTag m tag v =
     (let key = ToUpper tag;
          order = (if map_of (tags m) key = None then tagOrder m @ [key] else tagOrder m)
      in with_tags m (AList.update key (TagSlot v True) (tags m)) order)"

definition GetTag :: "message \<Rightarrow> bytes \<Rightarrow> value option" where
  "GetTag m tag =
     (case map_of (tags m) (ToUpper tag) of
        None \<Rightarrow> None
      | Some ts \<Rightarrow> if tpresent ts then Some (tv ts) else None)"

definition TagSeq :: "message \<Rightarrow> (bytes \<times> value) list" where
  "TagSeq m = List.map_filter (\<lambda>key. case map_of (tags m) key of
       None \<Rightarrow> None | Some ts \<Rightarrow> if tpresent ts then Some (key, tv ts) else None) (tagOrder m)"

subsection \<open>Reading one triplet\<close>

text \<open>The continuation bytes of a multi-byte tag: how many there are, \<open>None\<close> when the data ends.\<close>

fun tag_more :: "bytes \<Rightarrow> int option" where
  "tag_more [] = None"
| "tag_more (c # cs) = (if c AND 0x80 = 0 then Some 1 else map_option (\<lambda>n. n + 1) (tag_more cs))"

definition finish_TLV :: "bytes \<Rightarrow> bytes \<Rightarrow> int \<Rightarrow> int \<Rightarrow> (bytes \<times> bytes \<times> int) result" where
  "finish_TLV b tag len i =
     (if len < 0 \<or> i + len > int (length b) then Inl ErrTlvTruncated
      else Inr (tag, slice b i (i + len), i + len))"

definition readTLV :: "bytes \<Rightarrow> int \<Rightarrow> (bytes \<times> bytes \<times> int) result" where
  "readTLV b i =
     (if i \<ge> int (length b) then Inl ErrTlvTruncated
      else let b0 = b ! nat i in
        case (if b0 AND 0x1F = 0x1F then tag_more (drop (nat (i + 1)) b) else Some 0) of
          None \<Rightarrow> Inl ErrTlvTruncated
        | Some n \<Rightarrow>
            let j = i + 1 + n; tag = ToUpper (hex_encode (slice b i j)) in
            if j \<ge> int (length b) then Inl ErrTlvTruncated
            else let l0 = b ! nat j; k = j + 1 in
              if l0 AND 0x80 \<noteq> 0 then
                let nb = int (unat (l0 AND 0x7F)) in
                if nb = 0 \<or> nb > 4 then Inl ErrTlvIndefinite
                else if k + nb > int (length b) then Inl ErrTlvTruncated
                else finish_TLV b tag (int (be_val (slice b k (k + nb)))) (k + nb)
              else finish_TLV b tag (int (unat l0)) k)"

definition appendBERLen :: "bytes \<Rightarrow> int \<Rightarrow> bytes" where
  "appendBERLen dst n =
     (if n < 0x80 then dst @ [of_int n]
      else if n \<le> 0xFF then dst @ [0x81, of_int n]
      else if n \<le> 0xFFFF then dst @ [0x82, of_int (n div 2 ^ 8), of_int n]
      else if n \<le> 0xFFFFFF then dst @ [0x83, of_int (n div 2 ^ 16), of_int (n div 2 ^ 8), of_int n]
      else dst @ [0x84, of_int (n div 2 ^ 24), of_int (n div 2 ^ 16), of_int (n div 2 ^ 8), of_int n])"

lemma tag_more_pos: "tag_more cs = Some n \<Longrightarrow> 1 \<le> n \<and> n \<le> int (length cs)"
  by (induction cs arbitrary: n) (auto split: if_splits)

lemma finish_TLV_progress: "finish_TLV b tag len i = Inr (t, v, nx) \<Longrightarrow> i \<le> nx \<and> nx \<le> int (length b)"
  by (auto simp: finish_TLV_def split: if_splits)

lemma plus_uint_le: "a + uint (w :: byte) \<le> n \<Longrightarrow> a \<le> n"
  using uint_ge_0 [of w] by linarith

lemma readTLV_progress: "readTLV b i = Inr (tag, val, nx) \<Longrightarrow> i < nx \<and> nx \<le> int (length b)"
  by (auto simp: readTLV_def Let_def split: if_splits option.splits
      dest!: finish_TLV_progress tag_more_pos plus_uint_le)

subsection \<open>The codec\<close>

definition lookupTag :: "field_def \<Rightarrow> bytes \<Rightarrow> field_def option" where
  "lookupTag def tag = (case Sub def of None \<Rightarrow> None | Some s \<Rightarrow> LookupTag s tag)"

definition decode_tag ::
    "(field_codec \<Rightarrow> bytes \<Rightarrow> int \<Rightarrow> field_def \<Rightarrow> value result) \<Rightarrow> field_def \<Rightarrow> bytes \<Rightarrow> bytes \<Rightarrow> value result" where
  "decode_tag dcd def tag val =
     (case lookupTag def tag of
        None \<Rightarrow> Inr (BytesValue val)
      | Some td \<Rightarrow> (case Codec td of
            None \<Rightarrow> Inr (BytesValue val)
          | Some c \<Rightarrow> dcd c val (if MaxLen td > 0 then MaxLen td else int (length val)) td))"

function ber_loop ::
    "(field_codec \<Rightarrow> bytes \<Rightarrow> int \<Rightarrow> field_def \<Rightarrow> value result) \<Rightarrow> field_def \<Rightarrow> bytes \<Rightarrow> int \<Rightarrow> message \<Rightarrow> message result" where
  "ber_loop dcd def body i child =
     (if i \<ge> int (length body) then Inr child
      else case readTLV body i of
        Inl e \<Rightarrow> Inl e
      | Inr (tag, val, nx) \<Rightarrow>
          bind_result (decode_tag dcd def tag val) (\<lambda>v. ber_loop dcd def body nx (PutTag child tag v)))"
  by pat_completeness auto

termination
  by (relation "measure (\<lambda>(dcd, def, body, i, child). nat (int (length body) - i))")
    (auto dest: readTLV_progress)

declare ber_loop.simps [simp del]

definition berTLV_DecodeBody ::
    "(field_codec \<Rightarrow> bytes \<Rightarrow> int \<Rightarrow> field_def \<Rightarrow> value result) \<Rightarrow> bytes \<Rightarrow> int \<Rightarrow> field_def \<Rightarrow> value result" where
  "berTLV_DecodeBody dcd body u def =
     bind_result (ber_loop dcd def body 0 (NewTLV (Sub def))) (\<lambda>child. Inr (CompositeValue body child))"

definition encode_tag ::
    "(field_codec \<Rightarrow> bytes \<Rightarrow> value \<Rightarrow> field_def \<Rightarrow> bytes result) \<Rightarrow> field_def \<Rightarrow> bytes \<Rightarrow> value \<Rightarrow> bytes result" where
  "encode_tag enc def tag v =
     (case lookupTag def tag of
        None \<Rightarrow> Inr (Bytes v)
      | Some td \<Rightarrow> (case Codec td of None \<Rightarrow> Inr (Bytes v) | Some c \<Rightarrow> enc c [] v td))"

fun ber_entries ::
    "(field_codec \<Rightarrow> bytes \<Rightarrow> value \<Rightarrow> field_def \<Rightarrow> bytes result) \<Rightarrow> field_def \<Rightarrow> (bytes \<times> value) list \<Rightarrow> bytes \<Rightarrow> bytes result" where
  "ber_entries enc def [] dst = Inr dst"
| "ber_entries enc def ((tag, v) # es) dst =
     (case hex_decode tag of
        None \<Rightarrow> Inl ErrHex
      | Some tagBytes \<Rightarrow>
          bind_result (encode_tag enc def tag v) (\<lambda>val.
            ber_entries enc def es (appendBERLen (dst @ tagBytes) (int (length val)) @ val)))"

definition berTLV_EncodeBody ::
    "(field_codec \<Rightarrow> bytes \<Rightarrow> value \<Rightarrow> field_def \<Rightarrow> bytes result) \<Rightarrow> bytes \<Rightarrow> value \<Rightarrow> field_def \<Rightarrow> bytes result" where
  "berTLV_EncodeBody enc dst v def =
     (case Composite v of
        None \<Rightarrow> Inl ErrTlvNotComposite
      | Some child \<Rightarrow> ber_entries enc def (TagSeq child) dst)"

text \<open>The definitions a composite codec may call back with.\<close>

definition tag_defs :: "field_def \<Rightarrow> field_def set" where
  "tag_defs def = (case Sub def of None \<Rightarrow> {} | Some s \<Rightarrow> snd ` set (schema_tags s))"

lemma lookupTag_tag_defs: "lookupTag def tag = Some td \<Longrightarrow> td \<in> tag_defs def"
  by (auto simp: lookupTag_def LookupTag_def tag_defs_def split: option.splits dest!: map_of_SomeD) force

lemma decode_tag_cong:
  "(\<And>c val u td. td \<in> tag_defs def \<Longrightarrow> dcd c val u td = dcd' c val u td) \<Longrightarrow>
     decode_tag dcd def tag val = decode_tag dcd' def tag val"
  by (auto simp: decode_tag_def split: option.split dest: lookupTag_tag_defs)

lemma ber_loop_cong:
  assumes eq: "\<And>c val u td. td \<in> tag_defs def \<Longrightarrow> dcd c val u td = dcd' c val u td"
  shows "ber_loop dcd def body i child = ber_loop dcd' def body i child"
proof (induction "nat (int (length body) - i)" arbitrary: i child rule: less_induct)
  case less
  show ?case
  proof (cases "i \<ge> int (length body)")
    case True
    then show ?thesis by (simp add: ber_loop.simps)
  next
    case False
    have "ber_loop dcd def body nx (PutTag child tag v) = ber_loop dcd' def body nx (PutTag child tag v)"
      if "readTLV body i = Inr (tag, val, nx)" for tag val nx v
      using less [of nx] readTLV_progress [OF that] False by simp
    then show ?thesis
      using decode_tag_cong [OF eq]
      by (subst (1 2) ber_loop.simps) (auto split: sum.split intro!: bind_result_cong)
  qed
qed

lemma berTLV_DecodeBody_cong [fundef_cong]:
  assumes "body = body'" "u = u'" "def = def'"
    and "\<And>c val u td. td \<in> tag_defs def' \<Longrightarrow> dcd c val u td = dcd' c val u td"
  shows "berTLV_DecodeBody dcd body u def = berTLV_DecodeBody dcd' body' u' def'"
  using ber_loop_cong [of def' dcd dcd'] assms by (simp add: berTLV_DecodeBody_def)

lemma ber_entries_cong:
  assumes "\<And>c dst v td. td \<in> tag_defs def \<Longrightarrow> enc c dst v td = enc' c dst v td"
  shows "ber_entries enc def es dst = ber_entries enc' def es dst"
proof (induction es arbitrary: dst)
  case Nil
  then show ?case by simp
next
  case (Cons e es)
  have "encode_tag enc def (fst e) (snd e) = encode_tag enc' def (fst e) (snd e)"
    using assms by (auto simp: encode_tag_def split: option.split dest: lookupTag_tag_defs)
  with Cons show ?case by (cases e) (simp split: option.split)
qed

lemma berTLV_EncodeBody_cong [fundef_cong]:
  assumes "dst = dst'" "v = v'" "def = def'"
    and "\<And>c dst v td. td \<in> tag_defs def' \<Longrightarrow> enc c dst v td = enc' c dst v td"
  shows "berTLV_EncodeBody enc dst v def = berTLV_EncodeBody enc' dst' v' def'"
  using ber_entries_cong [of def' enc enc'] assms
  by (simp add: berTLV_EncodeBody_def split: option.split)

subsection \<open>Lengths and tags round-trip\<close>

text \<open>The bytes of a BER tag: one byte, or a leading byte with all low bits set followed by
  continuation bytes of which only the last has its high bit clear.\<close>

definition wf_tag :: "bytes \<Rightarrow> bool" where
  "wf_tag tb = (case tb of [] \<Rightarrow> False
     | b0 # cs \<Rightarrow> if b0 AND 0x1F = 0x1F then tag_more cs = Some (int (length cs)) else cs = [])"

lemma tag_more_append: "tag_more cs = Some n \<Longrightarrow> tag_more (cs @ ys) = Some n"
  by (induction cs arbitrary: n) (auto split: if_splits)

definition ber_len :: "nat \<Rightarrow> bytes" where
  "ber_len n =
     (if n < 0x80 then [of_nat n]
      else let k = (if n < 256 then 1 else if n < 65536 then 2 else if n < 16777216 then 3 else 4)
        in (0x80 + of_nat k) # be_bytes k n)"

lemma be_bytes_small:
  "be_bytes 1 n = [of_nat n]"
  "be_bytes 2 n = [of_nat (n div 256), of_nat n]"
  "be_bytes 3 n = [of_nat (n div 65536), of_nat (n div 256), of_nat n]"
  "be_bytes 4 n = [of_nat (n div 16777216), of_nat (n div 65536), of_nat (n div 256), of_nat n]"
proof -
  have k: "(1::nat) = Suc 0" "(2::nat) = Suc (Suc 0)" "(3::nat) = Suc (Suc (Suc 0))" "(4::nat) = Suc (Suc (Suc (Suc 0)))"
    by simp_all
  have d: "n div 256 div 256 = n div 65536" "n div 65536 div 256 = n div 16777216"
    using div_mult2_eq [of n 256 256] div_mult2_eq [of n 65536 256] by simp_all
  show "be_bytes 1 n = [of_nat n]" by simp
  show "be_bytes 2 n = [of_nat (n div 256), of_nat n]"
    by (subst k(2)) simp
  show "be_bytes 3 n = [of_nat (n div 65536), of_nat (n div 256), of_nat n]"
    by (subst k(3)) (simp add: d)
  show "be_bytes 4 n = [of_nat (n div 16777216), of_nat (n div 65536), of_nat (n div 256), of_nat n]"
    by (subst k(4)) (simp add: d)
qed

lemma of_int_div: "(of_int (int n div 2 ^ k) :: byte) = of_nat (n div 2 ^ k)"
proof -
  have "int n div 2 ^ k = int (n div 2 ^ k)" by (simp add: zdiv_int)
  then show ?thesis by simp
qed

lemma appendBERLen_ber_len: "appendBERLen dst (int n) = dst @ ber_len n"
proof -
  consider "n < 128" | "128 \<le> n" "n < 256" | "256 \<le> n" "n < 65536" | "65536 \<le> n" "n < 16777216" | "16777216 \<le> n"
    by linarith
  then show ?thesis
    by cases (simp_all add: appendBERLen_def ber_len_def be_bytes_small
        of_int_div [of n 8, simplified] of_int_div [of n 16, simplified] of_int_div [of n 24, simplified])
qed

lemma short_len: "n < 128 \<Longrightarrow> (of_nat n :: byte) AND 0x80 = 0 \<and> unat (of_nat n :: byte) = n"
proof -
  assume n: "n < 128"
  then have u: "unat (of_nat n :: byte) = n" by (simp add: unat_of_nat_byte)
  then have "take_bit 7 (of_nat n :: byte) = of_nat n"
    using n by (simp add: word_unat_eq_iff unsigned_take_bit_eq take_bit_eq_mod [where 'a = nat])
  then have "\<not> bit (of_nat n :: byte) 7" by (metis bit_take_bit_iff less_irrefl)
  then have "(of_nat n :: byte) AND 2 ^ 7 = 0" using and_exp_eq_0_iff_not_bit by blast
  with u show ?thesis by simp
qed

lemma long_len:
  "k \<in> {1, 2, 3, 4} \<Longrightarrow> (0x80 + of_nat k :: byte) AND 0x80 \<noteq> 0 \<and> unat ((0x80 + of_nat k :: byte) AND 0x7F) = k"
  by (elim insertE emptyE) simp_all

lemma nth_at: "(xs @ y # zs) ! length xs = y" "nat (int (length xs)) = length xs"
  by simp_all

text \<open>Once the tag has been read, the length and the value follow.\<close>

definition read_len :: "bytes \<Rightarrow> bytes \<Rightarrow> int \<Rightarrow> (bytes \<times> bytes \<times> int) result" where
  "read_len b tag j =
     (let l0 = b ! nat j; k = j + 1 in
      if l0 AND 0x80 \<noteq> 0 then
        let nb = int (unat (l0 AND 0x7F)) in
        if nb = 0 \<or> nb > 4 then Inl ErrTlvIndefinite
        else if k + nb > int (length b) then Inl ErrTlvTruncated
        else finish_TLV b tag (int (be_val (slice b k (k + nb)))) (k + nb)
      else finish_TLV b tag (int (unat l0)) k)"

lemma finish_TLV_append:
  "finish_TLV (pre @ val @ rest) tag (int (length val)) (int (length pre))
     = Inr (tag, val, int (length pre) + int (length val))"
  using slice_append_mid [of pre val rest] by (simp add: finish_TLV_def)

lemma read_len_append:
  assumes "length val < 2 ^ 32"
  shows "read_len (pre @ ber_len (length val) @ val @ rest) tag (int (length pre))
    = Inr (tag, val, int (length pre) + int (length (ber_len (length val))) + int (length val))"
proof (cases "length val < 128")
  case True
  then show ?thesis
    using short_len [OF True] finish_TLV_append [of "pre @ [of_nat (length val)]" val rest tag]
    by (simp add: read_len_def ber_len_def Let_def add.commute)
next
  case False
  define k :: nat where "k = (if length val < 256 then 1 else if length val < 65536 then 2 else if length val < 16777216 then 3 else 4)"
  have k: "k \<in> {1, 2, 3, 4}" by (simp add: k_def)
  have "length val < 256 ^ k" using assms by (simp add: k_def)
  then have v: "be_val (be_bytes k (length val)) = length val" by (rule be_val_be_bytes_id)
  have bl: "ber_len (length val) = (0x80 + of_nat k) # be_bytes k (length val)"
    using False by (simp add: ber_len_def k_def Let_def)
  let ?p = "pre @ [0x80 + of_nat k]"
  have sl: "slice (pre @ ber_len (length val) @ val @ rest) (int (length pre) + 1) (int (length pre) + 1 + int k) = be_bytes k (length val)"
    using slice_append_mid [of ?p "be_bytes k (length val)" "val @ rest"] by (simp add: bl add.commute)
  have "0 < k" "k \<le> 4" using k by auto
  then show ?thesis
    using long_len [OF k] v sl finish_TLV_append [of "?p @ be_bytes k (length val)" val rest tag]
    by (simp add: read_len_def bl Let_def ac_simps)
qed

lemma readTLV_append:
  assumes "wf_tag tb" and "length val < 2 ^ 32"
  shows "readTLV (pre @ tb @ ber_len (length val) @ val @ rest) (int (length pre))
    = Inr (ToUpper (hex_encode tb), val,
        int (length pre) + int (length tb) + int (length (ber_len (length val))) + int (length val))"
proof -
  let ?tail = "ber_len (length val) @ val @ rest"
  let ?b = "pre @ tb @ ?tail"
  obtain b0 cs where tb: "tb = b0 # cs" using assms(1) by (cases tb) (simp_all add: wf_tag_def)
  have more: "(if b0 AND 0x1F = 0x1F then tag_more (drop (nat (int (length pre) + 1)) ?b) else Some 0)
      = Some (int (length cs))"
    using assms(1) tag_more_append [of cs _ ?tail] by (auto simp: tb wf_tag_def nat_add_distrib split: if_splits)
  have j: "int (length pre) + 1 + int (length cs) = int (length (pre @ tb))" by (simp add: tb)
  have tag: "slice ?b (int (length pre)) (int (length (pre @ tb))) = tb"
    using slice_append_mid [of pre tb ?tail] by simp
  have ne: "ber_len (length val) \<noteq> []" by (simp add: ber_len_def Let_def)
  have at: "?b ! nat (int (length pre)) = b0" by (simp add: tb)
  have lt: "\<not> int (length ?b) \<le> int (length pre)" "\<not> int (length ?b) \<le> int (length (pre @ tb))"
    using ne by (cases "ber_len (length val)"; simp add: tb)+
  have "readTLV ?b (int (length pre)) = read_len ?b (ToUpper (hex_encode tb)) (int (length (pre @ tb)))"
    unfolding readTLV_def read_len_def by (simp only: Let_def lt if_False at more option.case j tag)
  with read_len_append [OF assms(2), of "pre @ tb" rest] show ?thesis by simp
qed

subsection \<open>A composite round-trips\<close>

text \<open>The entries \<open>es\<close> to be written and the entries \<open>ws\<close> to be read back: the same tags, with the value
  that decoding the encoded value gives.\<close>

definition tag_ok ::
    "(field_codec \<Rightarrow> bytes \<Rightarrow> value \<Rightarrow> field_def \<Rightarrow> bytes result) \<Rightarrow> (field_codec \<Rightarrow> bytes \<Rightarrow> int \<Rightarrow> field_def \<Rightarrow> value result)
      \<Rightarrow> field_def \<Rightarrow> bytes \<times> value \<Rightarrow> bytes \<times> value \<Rightarrow> bool" where
  "tag_ok enc dcd def e w \<longleftrightarrow> fst w = fst e \<and> (\<exists>tb val.
     hex_decode (fst e) = Some tb \<and> wf_tag tb \<and> ToUpper (hex_encode tb) = fst e
     \<and> encode_tag enc def (fst e) (snd e) = Inr val \<and> length val < 2 ^ 32
     \<and> decode_tag dcd def (fst e) val = Inr (snd w))"

definition put_tags :: "(bytes \<times> value) list \<Rightarrow> message \<Rightarrow> message" where
  "put_tags ws m = fold (\<lambda>(tag, v) m. PutTag m tag v) ws m"

lemma ber_entries_loop:
  "list_all2 (tag_ok enc dcd def) es ws \<Longrightarrow>
     \<exists>body. (\<forall>dst. ber_entries enc def es dst = Inr (dst @ body))
       \<and> (\<forall>pre child. ber_loop dcd def (pre @ body) (int (length pre)) child = Inr (put_tags ws child))"
proof (induction es ws rule: list_all2_induct)
  case Nil
  then show ?case by (simp add: ber_loop.simps put_tags_def)
next
  case (Cons e es w ws)
  then obtain body where body: "\<And>dst. ber_entries enc def es dst = Inr (dst @ body)"
      "\<And>pre child. ber_loop dcd def (pre @ body) (int (length pre)) child = Inr (put_tags ws child)" by blast
  obtain tag v where e: "e = (tag, v)" by (cases e)
  with Cons.hyps(1) obtain tb val w' where w: "w = (tag, w')" "hex_decode tag = Some tb" "wf_tag tb"
      "ToUpper (hex_encode tb) = tag" "encode_tag enc def tag v = Inr val" "length val < 2 ^ 32"
      "decode_tag dcd def tag val = Inr w'"
    by (cases w) (auto simp: tag_ok_def)
  let ?t = "tb @ ber_len (length val) @ val"
  have "ber_loop dcd def (pre @ ?t @ body) (int (length pre)) child = Inr (put_tags (w # ws) child)" for pre child
  proof -
    have "ber_len (length val) \<noteq> []" by (simp add: ber_len_def Let_def)
    then have "\<not> int (length (pre @ ?t @ body)) \<le> int (length pre)" by (cases "ber_len (length val)") simp_all
    moreover have "readTLV (pre @ ?t @ body) (int (length pre)) = Inr (tag, val, int (length (pre @ ?t)))"
      using readTLV_append [OF w(3,6), of pre body] w(4) by simp
    ultimately have "ber_loop dcd def (pre @ ?t @ body) (int (length pre)) child
        = ber_loop dcd def ((pre @ ?t) @ body) (int (length (pre @ ?t))) (PutTag child tag w')"
      using w(7) by (subst ber_loop.simps) simp
    then show ?thesis using body(2) [of "pre @ ?t"] by (simp only: w(1)) (simp add: put_tags_def)
  qed
  moreover have "ber_entries enc def (e # es) dst = Inr (dst @ ?t @ body)" for dst
    using w body(1) by (simp add: e appendBERLen_ber_len)
  ultimately show ?case by (intro exI [of _ "?t @ body"]) simp
qed

subsection \<open>Tags as a keyed store\<close>

text \<open>What the codec and the path operations rely on: a stored value is found again under any
  spelling of its key, and storing leaves the other keys alone.\<close>

locale keyed_store =
  fixes put :: "'s \<Rightarrow> 'k \<Rightarrow> 'v \<Rightarrow> 's"
    and get :: "'s \<Rightarrow> 'k \<Rightarrow> 'v option"
    and norm :: "'k \<Rightarrow> 'k"
  assumes get_put: "get (put s k v) k' = (if norm k' = norm k then Some v else get s k')"
begin

lemma get_fold_other:
  "norm k' \<notin> norm ` fst ` set ws \<Longrightarrow> get (fold (\<lambda>(k, v) s. put s k v) ws s) k' = get s k'"
  by (induction ws arbitrary: s) (auto simp: get_put)

lemma get_fold:
  "distinct (map (norm \<circ> fst) ws) \<Longrightarrow> (k, v) \<in> set ws \<Longrightarrow> get (fold (\<lambda>(k, v) s. put s k v) ws s) k = Some v"
proof (induction ws arbitrary: s)
  case Nil
  then show ?case by simp
next
  case (Cons w ws)
  show ?case
  proof (cases "w = (k, v)")
    case True
    with Cons.prems(1) show ?thesis by (simp add: get_fold_other get_put image_comp)
  next
    case False
    with Cons.prems(2) have "(k, v) \<in> set ws" by simp
    with Cons.IH Cons.prems(1) show ?thesis by (cases w) simp
  qed
qed

end

lemma GetTag_PutTag:
  "GetTag (PutTag m tag v) tag' = (if ToUpper tag' = ToUpper tag then Some v else GetTag m tag')"
  by (simp add: GetTag_def PutTag_def Let_def update_conv)

interpretation tag_store: keyed_store PutTag GetTag ToUpper
  by unfold_locales (rule GetTag_PutTag)

definition wf_tags :: "message \<Rightarrow> bool" where
  "wf_tags m \<longleftrightarrow> distinct (tagOrder m) \<and> set (tagOrder m) = dom (map_of (tags m))"

lemma wf_tags_NewTLV: "wf_tags (NewTLV s)"
  by (simp add: wf_tags_def NewTLV_def)

lemma wf_tags_PutTag: "wf_tags m \<Longrightarrow> wf_tags (PutTag m tag v)"
  by (auto simp: wf_tags_def PutTag_def Let_def update_conv dom_def split: if_splits)

lemma TagSeq_PutTag_new:
  assumes "wf_tags m" "ToUpper tag \<notin> set (tagOrder m)"
  shows "TagSeq (PutTag m tag v) = TagSeq m @ [(ToUpper tag, v)]"
proof -
  have "map_of (tags m) (ToUpper tag) = None" using assms by (auto simp: wf_tags_def)
  moreover have "List.map_filter (\<lambda>key. case map_of (AList.update (ToUpper tag) (TagSlot v True) (tags m)) key of
        None \<Rightarrow> None | Some ts \<Rightarrow> if tpresent ts then Some (key, tv ts) else None) (tagOrder m) = TagSeq m"
    unfolding TagSeq_def List.map_filter_def using assms(2)
    by (intro map_cong filter_cong arg_cong [of _ _ the]) (auto simp: update_conv)
  ultimately show ?thesis
    by (simp add: TagSeq_def PutTag_def Let_def update_conv map_filter_def)
qed

lemma tagOrder_PutTag: "tagOrder (PutTag m tag v) =
    (if map_of (tags m) (ToUpper tag) = None then tagOrder m @ [ToUpper tag] else tagOrder m)"
  by (simp add: PutTag_def Let_def)

lemma TagSeq_put_tags:
  "wf_tags m \<Longrightarrow> distinct (tagOrder m @ map fst ws) \<Longrightarrow> list_all (\<lambda>w. ToUpper (fst w) = fst w) ws \<Longrightarrow>
     TagSeq (put_tags ws m) = TagSeq m @ ws"
proof (induction ws arbitrary: m)
  case Nil
  then show ?case by (simp add: put_tags_def)
next
  case (Cons w ws)
  obtain tag v where w: "w = (tag, v)" by (cases w)
  have up: "ToUpper tag = tag" using Cons.prems(3) w by simp
  then have new: "ToUpper tag \<notin> set (tagOrder m)" using Cons.prems(2) w by auto
  then have "map_of (tags m) (ToUpper tag) = None" using Cons.prems(1) by (auto simp: wf_tags_def)
  then have "tagOrder (PutTag m tag v) = tagOrder m @ [tag]" by (simp add: tagOrder_PutTag up)
  then have "TagSeq (put_tags ws (PutTag m tag v)) = TagSeq (PutTag m tag v) @ ws"
    using Cons.prems w by (intro Cons.IH wf_tags_PutTag) auto
  with TagSeq_PutTag_new [OF Cons.prems(1) new] up show ?case by (simp add: put_tags_def w)
qed

end
