(* ===== verification/Engine.thy ===== *)
theory Engine
  imports BERTLV
begin

text \<open>
  The encoding half of the engine, \<^verbatim>\<open>src/iso8583/codec.go\<close> (\<open>Marshal\<close>, \<open>appendField\<close>,
  \<open>encodeUnits\<close>), the subfield packager, \<^verbatim>\<open>src/fieldcodec/subfield/subfield.go\<close>, and the
  two recursive interface calls \<open>DecodeBody\<close> and \<open>EncodeBody\<close>, which go through the composite codecs
  down the tree of definitions.
\<close>

subsection \<open>Decoding\<close>

definition packager_DecodeBody :: "bytes \<Rightarrow> int \<Rightarrow> field_def \<Rightarrow> value result" where
  "packager_DecodeBody body u def =
     (case Sub def of
        None \<Rightarrow> Inl ErrSubNotComposite
      | Some s \<Rightarrow> bind_result (Unmarshal (NewCodec s []) body) (\<lambda>child. Inr (CompositeValue body child)))"

lemma tag_defs_size: "td \<in> tag_defs def \<Longrightarrow> size td < size def"
proof -
  assume "td \<in> tag_defs def"
  then obtain s k where "Sub def = Some s" "(k, td) \<in> set (schema_tags s)"
    by (auto simp: tag_defs_def split: option.splits)
  moreover from this have "size td < Suc (size_list (size_prod (\<lambda>_. 0) size) (schema_tags s))"
    using size_list_estimation' [of "(k, td)" "schema_tags s" "size td" "size_prod (\<lambda>_. 0) size"] by simp
  ultimately show ?thesis by (cases def; cases s) simp
qed

function DecodeBody :: "field_codec \<Rightarrow> bytes \<Rightarrow> int \<Rightarrow> field_def \<Rightarrow> value result" where
  "DecodeBody c body u def =
     codec_decode (\<lambda>body u def. berTLV_DecodeBody DecodeBody body u def) packager_DecodeBody c body u def"
  by pat_completeness auto

termination
  by (relation "measure (\<lambda>(c, body, u, def). size def)") (auto simp: tag_defs_size)

declare DecodeBody.simps [simp del]

subsection \<open>Encoding\<close>

definition encodeUnits :: "field_def \<Rightarrow> value \<Rightarrow> bytes \<Rightarrow> int" where
  "encodeUnits def v body =
     (case vkind v of
        KindNumeric \<Rightarrow> int (length (Bytes v)) | KindString \<Rightarrow> int (length (Bytes v))
      | KindBytes \<Rightarrow> int (length (Bytes v))
      | KindComposite \<Rightarrow> int (length body)
      | KindAmount \<Rightarrow> if int (length (Bytes v)) > 0 then int (length (Bytes v)) else MaxLen def
      | _ \<Rightarrow> int (length body))"

definition appendField ::
    "(field_codec \<Rightarrow> bytes \<Rightarrow> value \<Rightarrow> field_def \<Rightarrow> bytes result) \<Rightarrow> bytes \<Rightarrow> field_def \<Rightarrow> slot \<Rightarrow> bytes option \<Rightarrow> bytes result" where
  "appendField enc dst def sl wire =
     (if fromSrc sl \<and> \<not> sdirty sl \<and> wire \<noteq> None then
        Inr (dst @ slice (the wire) (wireOff sl) (bodyEnd sl))
      else
        bind_result
          (case Codec def of
             None \<Rightarrow> Inr (raw (sv sl))
           | Some c \<Rightarrow> (case enc c [] (sv sl) def of
                 Inl e \<Rightarrow> Inl (FieldError (Path def) (-1) (Name def) e) | Inr body \<Rightarrow> Inr body))
          (\<lambda>body. bind_result
            (case Length def of
               None \<Rightarrow> Inr dst
             | Some l \<Rightarrow> (case WriteLen l dst (encodeUnits def (sv sl) body) def of
                   Inl e \<Rightarrow> Inl (FieldError (Path def) (-1) (Name def) e) | Inr dst' \<Rightarrow> Inr dst'))
            (\<lambda>dst'. Inr (dst' @ body))))"

text \<open>The two loops of \<open>Marshal\<close> over the elements \<open>1 .. len(slots)-1\<close>: the derived bitmap, and the
  fields.\<close>

definition derive_bitmap :: "message \<Rightarrow> bitmap" where
  "derive_bitmap m =
     fold (\<lambda>de b. if present (slots m ! nat de) then Set b de else b) [1..int (length (slots m)) - 1] bitmap0"

fun append_fields ::
    "(field_codec \<Rightarrow> bytes \<Rightarrow> value \<Rightarrow> field_def \<Rightarrow> bytes result) \<Rightarrow> schema \<Rightarrow> message \<Rightarrow> int list \<Rightarrow> bytes \<Rightarrow> bytes result" where
  "append_fields enc s m [] dst = Inr dst"
| "append_fields enc s m (de # des) dst =
     (let sl = slots m ! nat de in
      if \<not> present sl then append_fields enc s m des dst
      else (case Field s de of
          None \<Rightarrow> Inl (FieldError (DE de) (-1) [] errUnknownDE)
        | Some def \<Rightarrow> bind_result (appendField enc dst def sl (src m)) (\<lambda>dst'. append_fields enc s m des dst')))"

definition marshal_with ::
    "(field_codec \<Rightarrow> bytes \<Rightarrow> value \<Rightarrow> field_def \<Rightarrow> bytes result) \<Rightarrow> codec \<Rightarrow> message \<Rightarrow> bytes \<Rightarrow> bytes result" where
  "marshal_with enc c m dst =
     (if src m \<noteq> None \<and> \<not> owned m then Inr (the (src m))
      else let s = cschema c in
        bind_result
          (case mti s of
             None \<Rightarrow> Inr dst
           | Some def \<Rightarrow> if slots m = [] then Inl Panic else appendField enc dst def (slots m ! 0) (src m))
          (\<lambda>dst. case BmCodec (bitmap_of s) of
             None \<Rightarrow> Inl (FieldError (DE 1) (-1) [] errUnknownDE)
           | Some bc \<Rightarrow> (case WriteBitmap bc dst (derive_bitmap m) (Levels (bitmap_of s)) of
                 Inl e \<Rightarrow> Inl (FieldError (DE 1) (-1) [] e)
               | Inr dst \<Rightarrow> append_fields enc s m [1..int (length (slots m)) - 1] dst)))"

definition packager_EncodeBody ::
    "(field_codec \<Rightarrow> bytes \<Rightarrow> value \<Rightarrow> field_def \<Rightarrow> bytes result) \<Rightarrow> bytes \<Rightarrow> value \<Rightarrow> field_def \<Rightarrow> bytes result" where
  "packager_EncodeBody enc dst v def =
     (case Sub def of
        None \<Rightarrow> Inl ErrSubNotComposite
      | Some s \<Rightarrow> (case Composite v of
            None \<Rightarrow> Inl ErrSubNotComposite
          | Some child \<Rightarrow> bind_result (marshal_with enc (NewCodec s []) child []) (\<lambda>body. Inr (dst @ body))))"

definition schema_defs :: "schema \<Rightarrow> field_def set" where
  "schema_defs s = set_option (mti s) \<union> {d. Some d \<in> set (defs s)}"

lemma Field_schema_defs: "Field s de = Some d \<Longrightarrow> d \<in> schema_defs s"
  by (auto simp: Field_def schema_defs_def split: if_splits) (metis linorder_not_le nat_less_iff nth_mem)

lemma schema_defs_size: "Sub def = Some s \<Longrightarrow> d \<in> schema_defs s \<Longrightarrow> size d < size def"
proof -
  assume s: "Sub def = Some s" and "d \<in> schema_defs s"
  then consider "mti s = Some d" | "Some d \<in> set (defs s)" by (auto simp: schema_defs_def)
  then have "size d < size s"
  proof cases
    case 1
    then show ?thesis by (cases s) simp
  next
    case 2
    then have "size d < Suc (size_list (size_option size) (defs s))"
      using size_list_estimation' [of "Some d" "defs s" "size d" "size_option size"] by simp
    then show ?thesis by (cases s) simp
  qed
  with s show ?thesis by (cases def) simp
qed

lemma appendField_cong:
  "(\<And>c dst v. enc c dst v def = enc' c dst v def) \<Longrightarrow> appendField enc dst def sl wire = appendField enc' dst def sl wire"
  unfolding appendField_def by (simp only: cong: option.case_cong)

lemma append_fields_cong:
  assumes "\<And>c dst v d. d \<in> schema_defs s \<Longrightarrow> enc c dst v d = enc' c dst v d"
  shows "append_fields enc s m des = append_fields enc' s m des"
proof (induction des)
  case Nil
  then show ?case by (simp add: fun_eq_iff)
next
  case (Cons de des)
  have "appendField enc dst d sl w = appendField enc' dst d sl w" if "Field s de = Some d" for d dst sl w
    using Field_schema_defs [OF that] by (intro appendField_cong assms)
  with Cons show ?case by (intro ext) (auto simp: Let_def split: option.split)
qed

lemma marshal_with_cong:
  assumes eq: "\<And>c dst v d. d \<in> schema_defs (cschema c0) \<Longrightarrow> enc c dst v d = enc' c dst v d"
  shows "marshal_with enc c0 m dst = marshal_with enc' c0 m dst"
proof -
  have "appendField enc dst d sl w = appendField enc' dst d sl w" if "mti (cschema c0) = Some d" for d sl w
    using that by (intro appendField_cong eq) (simp add: schema_defs_def)
  moreover have "append_fields enc (cschema c0) m des = append_fields enc' (cschema c0) m des" for des
    by (intro append_fields_cong eq)
  ultimately show ?thesis
    unfolding marshal_with_def Let_def by (simp only: cong: option.case_cong)
qed

lemma packager_EncodeBody_cong [fundef_cong]:
  assumes "dst = dst'" "v = v'" "def = def'"
    and "\<And>s c dst v d. Sub def' = Some s \<Longrightarrow> d \<in> schema_defs s \<Longrightarrow> enc c dst v d = enc' c dst v d"
  shows "packager_EncodeBody enc dst v def = packager_EncodeBody enc' dst' v' def'"
  using assms marshal_with_cong [of "NewCodec _ []" enc enc']
  by (simp add: packager_EncodeBody_def NewCodec_def split: option.split)

function EncodeBody :: "field_codec \<Rightarrow> bytes \<Rightarrow> value \<Rightarrow> field_def \<Rightarrow> bytes result" where
  "EncodeBody c dst v def =
     codec_encode (\<lambda>dst v def. berTLV_EncodeBody EncodeBody dst v def)
       (\<lambda>dst v def. packager_EncodeBody EncodeBody dst v def) c dst v def"
  by pat_completeness auto

termination
  by (relation "measure (\<lambda>(c, dst, v, def). size def)") (auto simp: tag_defs_size schema_defs_size)

declare EncodeBody.simps [simp del]

definition Marshal :: "codec \<Rightarrow> message \<Rightarrow> bytes \<Rightarrow> bytes result" where
  "Marshal c m dst = marshal_with EncodeBody c m dst"

end
