(* ===== verification/MessageOps.thy ===== *)
theory MessageOps
  imports Engine
begin

text \<open>
  The operations of a message, \<^verbatim>\<open>src/iso8583/message.go\<close>. Reads memoise, so they return the
  message they were asked of together with the result; a nested child lives inside its parent's
  slot, and an operation on the child is followed by storing the child back, which is what sharing
  the pointer does in the code. A write returns the message and the error, because a nested write
  that fails has already changed its parent. The textual-path operations thread the process-wide
  path memo.
\<close>

subsection \<open>Presence and reading\<close>

definition message_def :: "message \<Rightarrow> int \<Rightarrow> field_def option" where
  "message_def m de = (case mschema m of None \<Rightarrow> None | Some s \<Rightarrow> if de = 0 then mti s else Field s de)"

definition Has :: "message \<Rightarrow> int \<Rightarrow> bool" where
  "Has m de = (if de < 0 \<or> de \<ge> int (length (slots m)) then False else present (slots m ! nat de))"

definition set_decoded :: "slot \<Rightarrow> value \<Rightarrow> slot" where
  "set_decoded sl v = Slot v (present sl) True (sdirty sl) (fromSrc sl) (units sl) (wireOff sl) (bodyOff sl) (bodyEnd sl)"

definition decodeSlot :: "message \<Rightarrow> int \<Rightarrow> message \<times> value option" where
  "decodeSlot m de =
     (let sl = slots m ! nat de in
      if \<not> present sl then (m, None)
      else if decoded sl then (m, Some (sv sl))
      else case message_def m de of
        None \<Rightarrow> (m, None)
      | Some def \<Rightarrow>
          if \<not> fromSrc sl then (put_slot m de (set_decoded sl (sv sl)), Some (sv sl))
          else
            let body = slice (case src m of None \<Rightarrow> [] | Some w \<Rightarrow> w) (bodyOff sl) (bodyEnd sl) in
            case (case Codec def of
                None \<Rightarrow> Inr (Value body KindBytes None 0 None decimal0)
              | Some c \<Rightarrow> (case DecodeBody c body (units sl) def of
                    Inl e \<Rightarrow> Inl e | Inr dv \<Rightarrow> Inr (with_vcodec dv (Some c)))) of
              Inl _ \<Rightarrow> (m, None)
            | Inr v \<Rightarrow>
                let v = with_off v (bodyOff sl) in (put_slot m de (set_decoded sl v), Some v))"

definition Get :: "message \<Rightarrow> int \<Rightarrow> message \<times> value option" where
  "Get m de = (if de < 0 \<or> de \<ge> int (length (slots m)) then (m, None) else decodeSlot m de)"

definition is_TLV_message :: "message \<Rightarrow> bool" where
  "is_TLV_message m = (case mschema m of None \<Rightarrow> False | Some s \<Rightarrow> isTLV s)"

text \<open>Storing a child back where the value \<open>v\<close> that holds it was found.\<close>

definition store_child :: "message \<Rightarrow> path_elem \<Rightarrow> value \<Rightarrow> message \<Rightarrow> message" where
  "store_child m e v child =
     (if is_TLV_message m then
        with_tags m (AList.update (ToUpper (tagKey e)) (TagSlot (with_sub v (Some child)) True) (tags m)) (tagOrder m)
      else put_slot m (N e) (set_decoded (slots m ! nat (N e)) (with_sub v (Some child))))"

text \<open>The value the first element of a path addresses.\<close>

definition head_value :: "message \<Rightarrow> path_elem \<Rightarrow> message \<times> value option" where
  "head_value m e =
     (if is_TLV_message m then (m, GetTag m (tagKey e))
      else if IsTag e then (m, None)
      else Get m (N e))"

fun GetP :: "message \<Rightarrow> field_path \<Rightarrow> message \<times> value option" where
  "GetP m [] = (m, None)"
| "GetP m (e # es) =
     (case head_value m e of
        (m1, None) \<Rightarrow> (m1, None)
      | (m1, Some v) \<Rightarrow>
          if es = [] then (m1, Some v)
          else (case Composite v of
              None \<Rightarrow> (m1, None)
            | Some child \<Rightarrow> (case GetP child es of (child', r) \<Rightarrow> (store_child m1 e v child', r))))"

definition HasP :: "message \<Rightarrow> field_path \<Rightarrow> message \<times> bool" where
  "HasP m p =
     (if path_Len p = 1 \<and> \<not> IsTag (hd p) then (m, Has m (N (hd p)))
      else (case GetP m p of (m', r) \<Rightarrow> (m', r \<noteq> None)))"

definition GetS :: "path_cache \<Rightarrow> message \<Rightarrow> bytes \<Rightarrow> path_cache \<times> message \<times> value option" where
  "GetS c m s = (case ParsePath c s of
      (c', Inl _) \<Rightarrow> (c', m, None)
    | (c', Inr p) \<Rightarrow> (case GetP m p of (m', r) \<Rightarrow> (c', m', r)))"

definition HasS :: "path_cache \<Rightarrow> message \<Rightarrow> bytes \<Rightarrow> path_cache \<times> message \<times> bool" where
  "HasS c m s = (case ParsePath c s of
      (c', Inl _) \<Rightarrow> (c', m, False)
    | (c', Inr p) \<Rightarrow> (case HasP m p of (m', r) \<Rightarrow> (c', m', r)))"

definition message_MTI :: "message \<Rightarrow> message \<times> value option" where
  "message_MTI m = Get m 0"

text \<open>\<open>Fields\<close>, as the list of all pairs it yields; a consumer that stops early sees a prefix.\<close>

fun fields_loop :: "int list \<Rightarrow> message \<Rightarrow> message \<times> (field_path \<times> value) list" where
  "fields_loop [] m = (m, [])"
| "fields_loop (de # des) m =
     (if \<not> present (slots m ! nat de) then fields_loop des m
      else case decodeSlot m de of
        (m', None) \<Rightarrow> fields_loop des m'
      | (m', Some v) \<Rightarrow> (case fields_loop des m' of (m'', out) \<Rightarrow> (m'', (DE de, v) # out)))"

definition Fields :: "message \<Rightarrow> message \<times> (field_path \<times> value) list" where
  "Fields m = fields_loop [1..int (length (slots m)) - 1] m"

subsection \<open>Values for writing\<close>

record amount = decimal +
  Currency :: bytes

text \<open>The dynamic types \<open>Set\<close> distinguishes; \<open>AOther\<close> is every other one.\<close>

datatype any =
    AValue "value" | AString bytes | ABytes bytes | AInt int | AInt64 int | AUint64 nat
  | ADecimal decimal | AAmount amount | AOther

definition numericKind :: "kind \<Rightarrow> kind" where
  "numericKind k = (if k = KindString \<or> k = KindInvalid then KindNumeric else k)"

definition scalarFromBytes :: "kind \<Rightarrow> bytes \<Rightarrow> value result" where
  "scalarFromBytes k b = (case k of
      KindAmount \<Rightarrow> (case parse_int 64 b of
          Inl e \<Rightarrow> Inl (FieldError [] (-1) [] (ErrNum e))
        | Inr n \<Rightarrow> Inr (Value b KindAmount None 0 None \<lparr>Unscaled = n, Scale = 0\<rparr>))
    | KindBytes \<Rightarrow> Inr (Value b KindBytes None 0 None decimal0)
    | KindNumeric \<Rightarrow> Inr (Value b KindNumeric None 0 None decimal0)
    | _ \<Rightarrow> Inr (Value b KindString None 0 None decimal0))"

definition scalarFromInt :: "kind \<Rightarrow> int \<Rightarrow> value result" where
  "scalarFromInt k n =
     (if k = KindAmount then Inr (Value (fmt_int n) KindAmount None 0 None \<lparr>Unscaled = n, Scale = 0\<rparr>)
      else Inr (Value (fmt_int n) (numericKind k) None 0 None decimal0))"

definition defPath :: "field_def option \<Rightarrow> field_path" where
  "defPath def = (case def of None \<Rightarrow> [] | Some d \<Rightarrow> Path d)"

definition makeValue :: "field_def option \<Rightarrow> any \<Rightarrow> value result" where
  "makeValue def inp =
     (let k = (case def of None \<Rightarrow> KindString | Some d \<Rightarrow> if Kind d \<noteq> KindInvalid then Kind d else KindString)
      in case inp of
        AValue x \<Rightarrow> Inr x
      | AString x \<Rightarrow> scalarFromBytes k x
      | ABytes x \<Rightarrow>
          Inr (Value x (case def of None \<Rightarrow> KindBytes | Some d \<Rightarrow> if Kind d = KindInvalid then KindBytes else k)
            None 0 None decimal0)
      | AInt x \<Rightarrow> scalarFromInt k x
      | AInt64 x \<Rightarrow> scalarFromInt k x
      | AUint64 x \<Rightarrow> Inr (Value (fmt_nat x) (numericKind k) None 0 None decimal0)
      | ADecimal x \<Rightarrow> Inr (Value (decimal_string x) KindAmount None 0 None x)
      | AAmount x \<Rightarrow> Inr (Value (decimal_string (decimal.truncate x)) KindAmount None 0 None (decimal.truncate x))
      | AOther \<Rightarrow> Inl (FieldError (defPath def) (-1) [] errUnsupportedType))"

subsection \<open>Writing\<close>

definition mark_set :: "message \<Rightarrow> int \<Rightarrow> message" where
  "mark_set m de = (if de \<ge> 1 then with_dirty (with_bmap m (Bitmap.Set (bmap m) de)) (Bitmap.Set (mdirty m) de) else m)"

definition written_slot :: "slot \<Rightarrow> value \<Rightarrow> slot" where
  "written_slot sl v = Slot v True True True False (units sl) (wireOff sl) (bodyOff sl) (bodyEnd sl)"

definition Set_de :: "message \<Rightarrow> int \<Rightarrow> any \<Rightarrow> message \<times> error option" where
  "Set_de m de v =
     (if sealed m then (m, Some (FieldError (DE de) (-1) [] errSealed))
      else if mschema m = None then (m, Some Panic)
      else case message_def m de of
        None \<Rightarrow> (m, Some (FieldError (DE de) (-1) [] errUnknownDE))
      | Some def \<Rightarrow> (case makeValue (Some def) v of
            Inl e \<Rightarrow> (m, Some e)
          | Inr val \<Rightarrow>
              let val = with_vcodec val (Codec def) in
              if de \<ge> int (length (slots m)) then (m, Some (FieldError (DE de) (-1) [] errUnknownDE))
              else (mark_set (with_owned (put_slot m de (written_slot (slots m ! nat de) val)) True) de, None)))"

definition clear_src :: "slot \<Rightarrow> slot" where
  "clear_src sl = Slot (sv sl) (present sl) (decoded sl) True False (units sl) (wireOff sl) (bodyOff sl) (bodyEnd sl)"

text \<open>The mutable child of a composite element: the existing one, or a fresh one.\<close>

definition existing_child :: "message \<Rightarrow> int \<Rightarrow> message \<times> message option" where
  "existing_child m de =
     (if present (slots m ! nat de)
      then (case decodeSlot m de of (m1, r) \<Rightarrow> (m1, case r of None \<Rightarrow> None | Some v \<Rightarrow> Composite v))
      else (m, None))"

definition ensureChild :: "message \<Rightarrow> int \<Rightarrow> field_def \<Rightarrow> message \<times> message result" where
  "ensureChild m de def =
     (if de \<ge> int (length (slots m)) then (m, Inl (FieldError (DE de) (-1) [] errUnknownDE))
      else case existing_child m de of
        (m1, Some child) \<Rightarrow> (with_owned (put_slot m1 de (clear_src (slots m1 ! nat de))) True, Inr child)
      | (m1, None) \<Rightarrow>
          (case Sub def of
             None \<Rightarrow> (m1, Inl Panic)
           | Some s \<Rightarrow>
               let child = (if isTLV s then NewTLV (Some s) else New s)
               in (mark_set (with_owned (put_slot m1 de (written_slot (slots m1 ! nat de) (CompositeValue [] child))) True) de,
                   Inr child)))"

definition put_child :: "message \<Rightarrow> int \<Rightarrow> message \<Rightarrow> message" where
  "put_child m de child =
     (let sl = slots m ! nat de in
      put_slot m de (Slot (with_sub (sv sl) (Some child)) (present sl) (decoded sl) (sdirty sl) (fromSrc sl)
        (units sl) (wireOff sl) (bodyOff sl) (bodyEnd sl)))"

fun SetP :: "message \<Rightarrow> field_path \<Rightarrow> any \<Rightarrow> message \<times> error option" where
  "SetP m [] v = (m, Some (FieldError [] (-1) [] (if sealed m then errSealed else errNotPresent)))"
| "SetP m (e # es) v =
     (if sealed m then (m, Some (FieldError (e # es) (-1) [] errSealed))
      else if is_TLV_message m then
        (let tag = tagKey e; tagDef = (case mschema m of None \<Rightarrow> None | Some s \<Rightarrow> LookupTag s tag)
         in if es \<noteq> [] then (m, Some (FieldError (e # es) (-1) [] (errNestedTLV (e # es))))
            else (case makeValue tagDef v of
                Inl er \<Rightarrow> (m, Some er)
              | Inr val \<Rightarrow>
                  let val = (case tagDef of None \<Rightarrow> val | Some d \<Rightarrow> with_vcodec val (Codec d))
                  in (with_owned (PutTag m tag val) True, None)))
      else if IsTag e then (m, Some (FieldError (e # es) (-1) [] errUnknownDE))
      else if es = [] then Set_de m (N e) v
      else (case message_def m (N e) of
          None \<Rightarrow> (m, Some (FieldError (e # es) (-1) [] (errDENotComposite (N e))))
        | Some def \<Rightarrow>
            if Sub def = None then (m, Some (FieldError (e # es) (-1) [] (errDENotComposite (N e))))
            else (case ensureChild m (N e) def of
                (m1, Inl er) \<Rightarrow> (m1, Some er)
              | (m1, Inr child) \<Rightarrow> (case SetP child es v of (child', r) \<Rightarrow> (put_child m1 (N e) child', r)))))"

definition SetS :: "path_cache \<Rightarrow> message \<Rightarrow> bytes \<Rightarrow> any \<Rightarrow> path_cache \<times> message \<times> error option" where
  "SetS c m s v = (case ParsePath c s of
      (c', Inl e) \<Rightarrow> (c', m, Some (ErrPath e))
    | (c', Inr p) \<Rightarrow> (case SetP m p v of (m', r) \<Rightarrow> (c', m', r)))"

definition Unset :: "message \<Rightarrow> int \<Rightarrow> message" where
  "Unset m de =
     (if sealed m \<or> de < 0 \<or> de \<ge> int (length (slots m)) then m
      else if \<not> present (slots m ! nat de) then m
      else let m1 = put_slot m de slot0;
               m2 = (if de \<ge> 1 then with_bmap m1 (Clear (bmap m1) de) else m1)
        in with_owned m2 True)"

definition UnsetP :: "message \<Rightarrow> field_path \<Rightarrow> message" where
  "UnsetP m p = (if path_Len p = 1 \<and> \<not> IsTag (hd p) then Unset m (N (hd p)) else m)"

definition UnsetS :: "path_cache \<Rightarrow> message \<Rightarrow> bytes \<Rightarrow> path_cache \<times> message" where
  "UnsetS c m s = (case ParsePath c s of (c', Inl _) \<Rightarrow> (c', m) | (c', Inr p) \<Rightarrow> (c', UnsetP m p))"

subsection \<open>Lifecycle\<close>

definition Seal :: "message \<Rightarrow> message" where
  "Seal m = Message (mschema m) (src m) (bmap m) (slots m) (owned m) (mdirty m) True (tags m) (tagOrder m)"

definition with_slot_sub :: "slot \<Rightarrow> message \<Rightarrow> slot" where
  "with_slot_sub sl child = Slot (with_sub (sv sl) (Some child)) (present sl) (decoded sl) (sdirty sl) (fromSrc sl)
     (units sl) (wireOff sl) (bodyOff sl) (bodyEnd sl)"

lemma slot_child_size: "sl \<in> set (slots m) \<Longrightarrow> sub (sv sl) = Some child \<Longrightarrow> size child < size m"
proof -
  assume sl: "sl \<in> set (slots m)" and ch: "sub (sv sl) = Some child"
  have "size child < size (sv sl)" using ch by (cases "sv sl") simp
  also have "\<dots> < size sl" by (cases sl) simp
  also have "\<dots> < Suc (size_list size (slots m))"
    using size_list_estimation' [OF sl, of "size sl" size] by simp
  also have "\<dots> \<le> size m" by (cases m) simp
  finally show ?thesis .
qed

function Clone :: "message \<Rightarrow> message" where
  "Clone m =
     Message (mschema m) (src m) (bmap m)
       (map (\<lambda>sl. case sub (sv sl) of None \<Rightarrow> sl | Some child \<Rightarrow> with_slot_sub sl (Clone child)) (slots m))
       False (mdirty m) False (tags m) (tagOrder m)"
  by pat_completeness auto

termination
  by (relation "measure size") (auto simp: slot_child_size)

declare Clone.simps [simp del]

end
