(* ===== verification/MessageInv.thy ===== *)
theory MessageInv
  imports MessageOps
begin

text \<open>
  Invariants of messages. A message reachable through the package's operations keeps its presence
  bitmap in step with its slots, and every slice the engine takes of the retained buffer is within
  the buffer.
\<close>

subsection \<open>The invariant\<close>

definition slot_ok :: "bytes option \<Rightarrow> slot \<Rightarrow> bool" where
  "slot_ok wire sl \<longleftrightarrow> (fromSrc sl \<longrightarrow> \<not> sdirty sl \<and> present sl \<and> 0 \<le> units sl \<and>
     (\<exists>w. wire = Some w \<and> 0 \<le> wireOff sl \<and> wireOff sl \<le> bodyOff sl \<and> bodyOff sl \<le> bodyEnd sl
        \<and> bodyEnd sl \<le> int (length w)))"

definition bitmap_agrees :: "message \<Rightarrow> bool" where
  "bitmap_agrees m \<longleftrightarrow> (\<forall>de. is_data de \<longrightarrow> IsSet (bmap m) de = (1 \<le> de \<and> de \<le> 192 \<and> Has m de))"

definition msg_inv :: "message \<Rightarrow> bool" where
  "msg_inv m \<longleftrightarrow> list_all (slot_ok (src m)) (slots m) \<and> bitmap_agrees m"

lemma set_decoded_sel [simp]:
  "sv (set_decoded sl v) = v" "decoded (set_decoded sl v)" "sdirty (set_decoded sl v) = sdirty sl"
  "fromSrc (set_decoded sl v) = fromSrc sl" "units (set_decoded sl v) = units sl"
  "wireOff (set_decoded sl v) = wireOff sl" "bodyOff (set_decoded sl v) = bodyOff sl"
  "bodyEnd (set_decoded sl v) = bodyEnd sl"
  by (simp_all add: set_decoded_def)

lemma written_slot_sel [simp]:
  "sv (written_slot sl v) = v" "decoded (written_slot sl v)" "sdirty (written_slot sl v)"
  "\<not> fromSrc (written_slot sl v)"
  by (simp_all add: written_slot_def)

lemma slot_ok_slot0 [simp]: "slot_ok w slot0"
  by (simp add: slot_ok_def slot0_def)

lemma slot_ok_set_decoded [simp]: "slot_ok w (set_decoded sl v) = slot_ok w sl"
  by (simp add: slot_ok_def set_decoded_def)

lemma slot_ok_clear_src [simp]: "slot_ok w (clear_src sl)"
  by (simp add: slot_ok_def clear_src_def)

lemma slot_ok_written [simp]: "slot_ok w (written_slot sl v)"
  by (simp add: slot_ok_def written_slot_def)

lemma present_simps [simp]:
  "present (set_decoded sl v) = present sl" "present (clear_src sl) = present sl"
  "present (written_slot sl v)" "\<not> present slot0"
  by (simp_all add: set_decoded_def clear_src_def written_slot_def slot0_def)

text \<open>An update of one slot keeps the invariant when the slot is good and its presence is recorded.\<close>

lemma list_all_update: "list_all P xs \<Longrightarrow> P x \<Longrightarrow> list_all P (xs[i := x])"
  by (auto simp: list_all_iff dest: set_update_subset_insert [THEN subsetD])

lemma Has_put_slot:
  "Has (put_slot m de sl) e =
     (if 0 \<le> de \<and> de < int (length (slots m)) \<and> e = de then present sl else if de < 0 \<and> e = 0 \<and> slots m \<noteq> [] then present sl else Has m e)"
  by (auto simp: Has_def nth_list_update nat_eq_iff)

lemma Has_put_slot_in:
  "0 \<le> de \<Longrightarrow> de < int (length (slots m)) \<Longrightarrow> Has (put_slot m de sl) e = (if e = de then present sl else Has m e)"
  by (simp add: Has_put_slot)

lemma Has_with [simp]:
  "Has (with_bmap m b) e = Has m e" "Has (with_dirty m b) e = Has m e" "Has (with_owned m b') e = Has m e"
  "Has (with_tags m ts ks) e = Has m e"
  by (simp_all add: Has_def)

lemma mark_set_sel [simp]:
  "slots (mark_set m de) = slots m" "src (mark_set m de) = src m" "mschema (mark_set m de) = mschema m"
  "owned (mark_set m de) = owned m" "sealed (mark_set m de) = sealed m" "tags (mark_set m de) = tags m"
  "bmap (mark_set m de) = (if de \<ge> 1 then Bitmap.Set (bmap m) de else bmap m)"
  by (simp_all add: mark_set_def)

lemma mark_set_owned: "mark_set (with_owned m b) de = with_owned (mark_set m de) b"
  by (simp add: mark_set_def with_defs)

lemma Has_mark_set [simp]: "Has (mark_set m de) e = Has m e"
  by (simp add: Has_def)

lemma msg_inv_same_slot:
  assumes "msg_inv m" "0 \<le> de" "de < int (length (slots m))"
    and "slot_ok (src m) sl" "present sl = present (slots m ! nat de)"
  shows "msg_inv (put_slot m de sl)"
proof -
  have "Has (put_slot m de sl) e = Has m e" for e
    using assms(2,3,5) by (auto simp: Has_put_slot_in) (auto simp: Has_def)
  with assms(1,4) show ?thesis
    by (simp add: msg_inv_def bitmap_agrees_def list_all_update)
qed

lemma msg_inv_owned [simp]: "msg_inv (with_owned m b) = msg_inv m"
  by (simp add: msg_inv_def bitmap_agrees_def)

lemma msg_inv_written:
  assumes "msg_inv m" "0 \<le> de" "de < int (length (slots m))"
  shows "msg_inv (mark_set (put_slot m de (written_slot sl v)) de)"
proof -
  have "IsSet (bmap (mark_set (put_slot m de (written_slot sl v)) de)) e =
      (1 \<le> e \<and> e \<le> 192 \<and> Has (mark_set (put_slot m de (written_slot sl v)) de) e)" if "is_data e" for e
    using assms that by (auto simp: msg_inv_def bitmap_agrees_def Has_put_slot_in IsSet_Set in_range_def)
  with assms(1) show ?thesis
    by (simp add: msg_inv_def bitmap_agrees_def list_all_update)
qed

subsection \<open>Every operation keeps it\<close>

lemma msg_inv_New: "msg_inv (New s)"
  by (auto simp: msg_inv_def bitmap_agrees_def New_def IsSet_empty Has_def list_all_iff)

lemma msg_inv_NewTLV: "msg_inv (NewTLV s)"
  by (auto simp: msg_inv_def bitmap_agrees_def NewTLV_def IsSet_empty Has_def)

lemma decodeSlot_shape:
  "fst (decodeSlot m de) = m \<or> (\<exists>v. fst (decodeSlot m de) = put_slot m de (set_decoded (slots m ! nat de) v))"
  by (auto simp: decodeSlot_def Let_def split: option.split sum.split)

lemma msg_inv_decodeSlot:
  assumes "msg_inv m" "0 \<le> de" "de < int (length (slots m))"
  shows "msg_inv (fst (decodeSlot m de))"
proof -
  have "slot_ok (src m) (slots m ! nat de)"
    using assms by (auto simp: msg_inv_def list_all_iff)
  with assms decodeSlot_shape [of m de] show ?thesis
    by (auto intro!: msg_inv_same_slot)
qed

lemma decodeSlot_frame [simp]:
  "src (fst (decodeSlot m de)) = src m" "length (slots (fst (decodeSlot m de))) = length (slots m)"
  "mschema (fst (decodeSlot m de)) = mschema m" "bmap (fst (decodeSlot m de)) = bmap m"
  "owned (fst (decodeSlot m de)) = owned m" "sealed (fst (decodeSlot m de)) = sealed m"
  using decodeSlot_shape [of m de] by auto

lemma msg_inv_Get: "msg_inv m \<Longrightarrow> msg_inv (fst (Get m de))"
  by (simp add: Get_def msg_inv_decodeSlot)

lemma Get_frame [simp]:
  "src (fst (Get m de)) = src m" "length (slots (fst (Get m de))) = length (slots m)"
  "mschema (fst (Get m de)) = mschema m" "bmap (fst (Get m de)) = bmap m"
  "owned (fst (Get m de)) = owned m" "sealed (fst (Get m de)) = sealed m"
  by (simp_all add: Get_def)

lemma Get_Some_range: "snd (Get m de) = Some v \<Longrightarrow> 0 \<le> de \<and> de < int (length (slots m))"
  by (auto simp: Get_def split: if_splits)

lemma msg_inv_store_child:
  assumes "msg_inv m" "is_TLV_message m \<or> 0 \<le> N e \<and> N e < int (length (slots m))"
  shows "msg_inv (store_child m e v child)"
proof (cases "is_TLV_message m")
  case True
  with assms show ?thesis by (simp add: store_child_def msg_inv_def bitmap_agrees_def)
next
  case False
  with assms have "slot_ok (src m) (slots m ! nat (N e))" by (auto simp: msg_inv_def list_all_iff)
  with assms False show ?thesis by (auto simp: store_child_def intro!: msg_inv_same_slot)
qed

lemma msg_inv_head: "msg_inv m \<Longrightarrow> msg_inv (fst (head_value m e))"
  by (simp add: head_value_def msg_inv_Get)

lemma is_TLV_Get [simp]: "is_TLV_message (fst (Get m de)) = is_TLV_message m"
  by (simp add: is_TLV_message_def)

lemma head_value_frame [simp]:
  "src (fst (head_value m e)) = src m" "length (slots (fst (head_value m e))) = length (slots m)"
  "mschema (fst (head_value m e)) = mschema m" "bmap (fst (head_value m e)) = bmap m"
  "owned (fst (head_value m e)) = owned m" "sealed (fst (head_value m e)) = sealed m"
  "is_TLV_message (fst (head_value m e)) = is_TLV_message m"
  by (simp_all add: head_value_def)

lemma head_value_range:
  "snd (head_value m e) = Some v \<Longrightarrow> is_TLV_message m \<or> 0 \<le> N e \<and> N e < int (length (slots m))"
  using Get_Some_range [of m "N e" v] by (auto simp: head_value_def split: if_splits)

lemma msg_inv_GetP: "msg_inv m \<Longrightarrow> msg_inv (fst (GetP m p))"
proof (cases p)
  case (Cons e es)
  assume inv: "msg_inv m"
  obtain m1 r where hv: "head_value m e = (m1, r)" by (cases "head_value m e")
  have m1: "msg_inv m1" using msg_inv_head [OF inv, of e] hv by simp
  show ?thesis
  proof (cases r)
    case None
    then show ?thesis using m1 Cons hv by simp
  next
    case (Some v)
    have "is_TLV_message m1 \<or> 0 \<le> N e \<and> N e < int (length (slots m1))"
      using head_value_range [of m e v] head_value_frame(2,7) [of m e] hv Some by simp
    note st = msg_inv_store_child [OF m1 this]
    show ?thesis using m1 st Some Cons hv by (auto split: option.split prod.split)
  qed
qed simp

lemma msg_inv_Set: "msg_inv m \<Longrightarrow> msg_inv (fst (Set_de m de v))"
proof -
  assume inv: "msg_inv m"
  have "0 \<le> de" if "message_def m de = Some def" for def
    using that by (auto simp: message_def_def Field_def split: option.splits if_splits)
  with inv msg_inv_written [OF inv, of de] show ?thesis
    by (auto simp: Set_de_def Let_def mark_set_owned split: option.split sum.split)
qed

lemma msg_inv_tags [simp]: "msg_inv (with_tags m ts ks) = msg_inv m"
  by (simp add: msg_inv_def bitmap_agrees_def)

lemma msg_inv_PutTag: "msg_inv m \<Longrightarrow> msg_inv (PutTag m tag v)"
  by (simp add: PutTag_def Let_def)

lemma msg_inv_ensureChild:
  assumes "msg_inv m" "message_def m de = Some def"
  shows "msg_inv (fst (ensureChild m de def))"
    and "length (slots (fst (ensureChild m de def))) = length (slots m)"
proof -
  have de: "0 \<le> de" using assms(2) by (auto simp: message_def_def Field_def split: option.splits if_splits)
  obtain m1 r where ex: "existing_child m de = (m1, r)" by (cases "existing_child m de")
  then have "m1 = m \<or> m1 = fst (decodeSlot m de)"
    by (auto simp: existing_child_def split: if_splits prod.splits)
  then have m1: "msg_inv m1" "length (slots m1) = length (slots m)" if "de < int (length (slots m))"
    using assms(1) de that msg_inv_decodeSlot [of m de] by auto
  note keep = msg_inv_same_slot [OF m1(1) de, of "clear_src (slots m1 ! nat de)"]
  note fresh = msg_inv_written [OF m1(1) de]
  show "msg_inv (fst (ensureChild m de def))"
    using assms(1) m1 keep fresh
    by (auto simp: ensureChild_def ex Let_def mark_set_owned split: option.split)
  show "length (slots (fst (ensureChild m de def))) = length (slots m)"
    using m1(2) by (auto simp: ensureChild_def ex Let_def split: option.split)
qed

lemma msg_inv_put_child:
  assumes "msg_inv m" "0 \<le> de"
  shows "msg_inv (put_child m de child)"
proof (cases "de < int (length (slots m))")
  case True
  with assms have "slot_ok (src m) (slots m ! nat de)" by (auto simp: msg_inv_def list_all_iff)
  with assms True show ?thesis
    by (auto simp: put_child_def Let_def slot_ok_def intro!: msg_inv_same_slot)
next
  case False
  then have "(slots m)[nat de := sl] = slots m" for sl by (simp add: list_update_beyond)
  then have "put_child m de child = m" by (cases m) (simp add: put_child_def Let_def put_slot_def with_slots_def)
  with assms show ?thesis by simp
qed

lemma msg_inv_SetP: "msg_inv m \<Longrightarrow> msg_inv (fst (SetP m p v))"
proof (cases p)
  case (Cons e es)
  assume inv: "msg_inv m"
  have "msg_inv (fst (SetP m (e # es) v))"
    if "\<not> is_TLV_message m" "\<not> IsTag e" "es \<noteq> []" "message_def m (N e) = Some def" for def
  proof -
    have "0 \<le> N e" using that(4) by (auto simp: message_def_def Field_def split: option.splits if_splits)
    then show ?thesis
      using that inv msg_inv_ensureChild(1) [OF inv that(4)] msg_inv_put_child [of "fst (ensureChild m (N e) def)" "N e"]
      by (auto split: prod.split sum.split)
  qed
  moreover have "msg_inv (fst (SetP m (e # es) v))"
    if "is_TLV_message m \<or> IsTag e \<or> es = [] \<or> message_def m (N e) = None"
    using that inv by (auto simp: Let_def msg_inv_PutTag msg_inv_Set split: sum.split option.split)
  ultimately show ?thesis unfolding Cons by (cases "message_def m (N e)") blast+
qed simp

lemma msg_inv_Unset: "msg_inv m \<Longrightarrow> msg_inv (Unset m de)"
proof -
  assume inv: "msg_inv m"
  show ?thesis
  proof (cases "sealed m \<or> de < 0 \<or> de \<ge> int (length (slots m)) \<or> \<not> present (slots m ! nat de)")
    case True
    with inv show ?thesis by (auto simp: Unset_def)
  next
    case False
    let ?m1 = "put_slot m de slot0"
    let ?m2 = "if de \<ge> 1 then with_bmap ?m1 (Clear (bmap ?m1) de) else ?m1"
    have "IsSet (bmap ?m2) e = (1 \<le> e \<and> e \<le> 192 \<and> Has ?m2 e)" if "is_data e" for e
      using inv False that by (auto simp: msg_inv_def bitmap_agrees_def Has_put_slot_in IsSet_Clear)
    moreover have "list_all (slot_ok (src ?m2)) (slots ?m2)"
      using inv by (simp add: msg_inv_def list_all_update)
    ultimately have "msg_inv ?m2" by (simp add: msg_inv_def bitmap_agrees_def)
    with False show ?thesis by (simp add: Unset_def Let_def)
  qed
qed

lemma msg_inv_Seal: "msg_inv (Seal m) = msg_inv m"
  by (simp add: msg_inv_def bitmap_agrees_def Seal_def Has_def)

lemma Clone_sel [simp]:
  "mschema (Clone m) = mschema m" "src (Clone m) = src m" "bmap (Clone m) = bmap m" "\<not> owned (Clone m)"
  "\<not> sealed (Clone m)" "tags (Clone m) = tags m" "tagOrder (Clone m) = tagOrder m"
  "length (slots (Clone m)) = length (slots m)"
  by (subst Clone.simps, simp)+

lemma Clone_slots:
  "slots (Clone m) = map (\<lambda>sl. case sub (sv sl) of None \<Rightarrow> sl | Some child \<Rightarrow> with_slot_sub sl (Clone child)) (slots m)"
  by (subst Clone.simps) simp

lemma msg_inv_Clone: "msg_inv m \<Longrightarrow> msg_inv (Clone m)"
proof -
  assume inv: "msg_inv m"
  have "present (slots (Clone m) ! i) = present (slots m ! i)" if "i < length (slots m)" for i
    using that by (simp add: Clone_slots with_slot_sub_def split: option.split)
  then have "Has (Clone m) e = Has m e" for e
    by (auto simp: Has_def)
  moreover have "list_all (slot_ok (src m)) (slots (Clone m))"
    using inv by (auto simp: Clone_slots msg_inv_def list_all_iff slot_ok_def with_slot_sub_def split: option.split)
  ultimately show ?thesis using inv by (simp add: msg_inv_def bitmap_agrees_def)
qed

subsection \<open>A parsed message has it\<close>

lemma tiled_slot_ok: "tiled wire p sls fin \<Longrightarrow> 0 \<le> p \<Longrightarrow> list_all (slot_ok (Some wire)) sls"
  by (induction sls arbitrary: p) (auto simp: slot_ok_def)

lemma tiled_present: "tiled wire p sls fin \<Longrightarrow> sl \<in> set sls \<Longrightarrow> present sl"
  by (induction sls arbitrary: p) auto

lemma data_elements_range: "de \<in> set (data_elements b) \<Longrightarrow> 1 \<le> de \<and> de \<le> 192"
  by (auto simp: data_elements_set dest: IsSet_range simp: in_range_def)

lemma data_elements_distinct: "distinct (data_elements b)"
  unfolding data_elements_def by (rule distinct_filter) (rule distinct_upto)

lemma walk_fields: "walk s wire p des = Inr (es, fin) \<Longrightarrow> de \<in> set des \<Longrightarrow> Field s de \<noteq> None"
  by (induction des arbitrary: p es) (auto simp: bind_result_Inr split: option.splits sum.splits)

text \<open>The slots of a parsed message: the MTI in slot 0, the walked span of each data element of the
  bitmap, and nothing else.\<close>

lemma Unmarshal_slots:
  assumes "Unmarshal c wire = Inr m" and wf: "wf_spans (cschema c)"
  obtains msl p bc nx es fin
  where "mti_slot (cschema c) wire = Inr (msl, p)" "mti (cschema c) = None \<and> msl = slot0 \<and> p = 0 \<or> tiled wire 0 [msl] p"
    and "BmCodec (bitmap_of (cschema c)) = Some bc"
    and "ReadBitmap bc wire p (Levels (bitmap_of (cschema c))) = Inr (bmap m, nx)" "0 \<le> p" "p \<le> nx"
    and "walk (cschema c) wire nx (data_elements (bmap m)) = Inr (es, fin)" "map fst es = data_elements (bmap m)"
      "tiled wire nx (map snd es) fin"
    and "int (length (slots m)) = maxDE (cschema c) + 1"
    and "\<And>i. i < length (slots m) \<Longrightarrow> slots m ! i =
      (if i = 0 then msl else case map_of es (int i) of Some sl \<Rightarrow> sl | None \<Rightarrow> slot0)"
    and "mschema m = Some (cschema c)" "src m = Some wire" "\<not> owned m" "sealed m = Immutable (opts c)"
proof -
  obtain msl p bc bm nx es fin
    where u: "mti_slot (cschema c) wire = Inr (msl, p)" "mti (cschema c) = None \<and> msl = slot0 \<and> p = 0 \<or> tiled wire 0 [msl] p"
      "BmCodec (bitmap_of (cschema c)) = Some bc"
      "ReadBitmap bc wire p (Levels (bitmap_of (cschema c))) = Inr (bm, nx)" "0 \<le> p" "p \<le> nx"
      "walk (cschema c) wire nx (data_elements bm) = Inr (es, fin)" "map fst es = data_elements bm"
      "tiled wire nx (map snd es) fin"
      and m: "m = put_slots es (with_bmap (put_slot (newDecoded (cschema c) wire (Immutable (opts c))) 0 msl) bm)"
    using Unmarshal_cases [OF assms] by metis
  have bm: "bmap m = bm" by (simp add: m)
  have len: "int (length (slots m)) = maxDE (cschema c) + 1"
    using wf by (simp add: m newDecoded_def wf_spans_def)
  have pos: "\<forall>e \<in> set es. 0 \<le> fst e" "map_of es 0 = None"
    using arg_cong [OF u(8), of set] data_elements_range [of _ bm]
    by (auto simp: map_of_eq_None_iff, fastforce+)
  have nth: "slots m ! i = (if i = 0 then msl else case map_of es (int i) of Some sl \<Rightarrow> sl | None \<Rightarrow> slot0)"
    if "i < length (slots m)" for i
  proof -
    have "distinct (map fst es)" using u(8) data_elements_distinct by simp
    from put_slots_nth [OF this pos(1), of i] that pos(2) show ?thesis
      by (auto simp: m newDecoded_def nth_list_update split: option.split)
  qed
  show thesis
    using that [of msl p bc nx es fin] u bm len nth by (simp add: m newDecoded_def)
qed

lemma msg_inv_Unmarshal:
  assumes "Unmarshal c wire = Inr m" and wf: "wf_spans (cschema c)"
  shows "msg_inv m"
proof -
  obtain msl p bc nx es fin
    where p: "mti (cschema c) = None \<and> msl = slot0 \<and> p = 0 \<or> tiled wire 0 [msl] p" "0 \<le> p" "p \<le> nx"
      and w: "walk (cschema c) wire nx (data_elements (bmap m)) = Inr (es, fin)" "map fst es = data_elements (bmap m)"
        "tiled wire nx (map snd es) fin"
      and len: "int (length (slots m)) = maxDE (cschema c) + 1"
      and nth: "\<And>i. i < length (slots m) \<Longrightarrow> slots m ! i =
        (if i = 0 then msl else case map_of es (int i) of Some sl \<Rightarrow> sl | None \<Rightarrow> slot0)"
      and s: "src m = Some wire"
    by (rule Unmarshal_slots [OF assms]) blast
  have es: "slot_ok (Some wire) sl \<and> present sl" if "map_of es k = Some sl" for k sl
  proof -
    have "sl \<in> set (map snd es)" using map_of_SomeD [OF that] by force
    with tiled_slot_ok [OF w(3)] tiled_present [OF w(3)] p show ?thesis by (auto simp: list_all_iff)
  qed
  have "slot_ok (Some wire) msl" using p(1) tiled_slot_ok [of wire 0 "[msl]" p] by auto
  with es nth s have "list_all (slot_ok (src m)) (slots m)"
    by (auto simp: list_all_length split: option.split)
  moreover have "IsSet (bmap m) de = (1 \<le> de \<and> de \<le> 192 \<and> Has m de)" if "is_data de" for de
  proof
    assume "IsSet (bmap m) de"
    with that have in_de: "de \<in> set (data_elements (bmap m))" by (simp add: data_elements_set)
    then obtain sl where sl: "map_of es de = Some sl" using w(2)
      by (metis list.set_map map_of_eq_None_iff not_None_eq)
    have r: "1 \<le> de" "de \<le> 192" using data_elements_range [OF in_de] by auto
    have "Field (cschema c) de \<noteq> None" using walk_fields [OF w(1) in_de] .
    then have lt: "de < int (length (slots m))"
      using len wf r by (auto simp: Field_def wf_spans_def split: if_splits)
    with r sl nth [of "nat de"] es [OF sl] show "1 \<le> de \<and> de \<le> 192 \<and> Has m de"
      by (simp add: Has_def nat_less_iff)
  next
    assume h: "1 \<le> de \<and> de \<le> 192 \<and> Has m de"
    then have "map_of es de \<noteq> None"
      using nth [of "nat de"] by (auto simp: Has_def nat_less_iff split: if_splits option.splits)
    then have "de \<in> set (data_elements (bmap m))" using w(2) by (metis list.set_map map_of_eq_None_iff)
    then show "IsSet (bmap m) de" by (simp add: data_elements_set)
  qed
  ultimately show ?thesis by (simp add: msg_inv_def bitmap_agrees_def)
qed

end
