(* ===== verification/MessageProps.thy ===== *)
theory MessageProps
  imports MessageInv
begin

text \<open>
  What the message operations promise their callers: reachable messages satisfy the invariant, a
  sealed message never changes, a write is read back and leaves the other elements alone, reading
  does not change what is marshalled, and an untouched message is marshalled verbatim. The last
  section shows where \<open>Clone\<close> and a failed nested write fall short of their documentation.
\<close>

subsection \<open>Reachable messages\<close>

text \<open>Messages a client can hold: built or parsed, then read, written, sealed and cloned in any order.
  The schemas are those whose spans are well formed.\<close>

inductive msg_reach :: "message \<Rightarrow> bool" where
  built: "msg_reach (New s)"
| parsed: "wf_spans (cschema c) \<Longrightarrow> Unmarshal c wire = Inr m \<Longrightarrow> msg_reach m"
| got: "msg_reach m \<Longrightarrow> msg_reach (fst (Get m de))"
| got_path: "msg_reach m \<Longrightarrow> msg_reach (fst (GetP m p))"
| set_de: "msg_reach m \<Longrightarrow> msg_reach (fst (Set_de m de v))"
| set_path: "msg_reach m \<Longrightarrow> msg_reach (fst (SetP m p v))"
| unset: "msg_reach m \<Longrightarrow> msg_reach (Unset m de)"
| sealed_msg: "msg_reach m \<Longrightarrow> msg_reach (Seal m)"
| cloned: "msg_reach m \<Longrightarrow> msg_reach (Clone m)"

lemma msg_reach_inv: "msg_reach m \<Longrightarrow> msg_inv m"
  by (induction rule: msg_reach.induct)
    (simp_all add: msg_inv_New msg_inv_Unmarshal msg_inv_Get msg_inv_GetP msg_inv_Set msg_inv_SetP
      msg_inv_Unset msg_inv_Seal msg_inv_Clone)

subsection \<open>Reading does not change the wire\<close>

text \<open>Two messages that the encoder cannot tell apart.\<close>

definition same_wire :: "message \<Rightarrow> message \<Rightarrow> bool" where
  "same_wire a b \<longleftrightarrow> src a = src b \<and> owned a = owned b \<and> length (slots a) = length (slots b)
     \<and> (\<forall>i < length (slots a). present (slots a ! i) = present (slots b ! i)
          \<and> (\<forall>enc dst def. appendField enc dst def (slots a ! i) (src a) = appendField enc dst def (slots b ! i) (src a)))"

lemma same_wire_refl: "same_wire m m"
  by (simp add: same_wire_def)

lemma same_wire_fields:
  assumes "same_wire a b" "\<forall>de \<in> set des. 0 \<le> de \<and> de < int (length (slots a))"
  shows "append_fields enc s a des = append_fields enc s b des"
  using assms(2)
proof (induction des)
  case Nil
  then show ?case by (intro ext) simp
next
  case (Cons de des)
  then have i: "nat de < length (slots a)" by auto
  have IH: "append_fields enc s a des = append_fields enc s b des" using Cons by simp
  have "present (slots a ! nat de) = present (slots b ! nat de)" "src a = src b"
    and af: "appendField enc x def (slots a ! nat de) (src b) = appendField enc x def (slots b ! nat de) (src b)"
      for x def
    using assms(1) i by (auto simp: same_wire_def)
  then show ?case
    by (intro ext) (simp add: Let_def IH af split: option.split)
qed

lemma same_wire_bitmap:
  assumes "same_wire a b"
  shows "derive_bitmap a = derive_bitmap b"
  unfolding derive_bitmap_def using assms
  by (intro fold_cong) (auto simp: same_wire_def nat_less_iff)

lemma same_wire_marshal: "same_wire a b \<Longrightarrow> Marshal c a dst = Marshal c b dst"
proof -
  assume sw: "same_wire a b"
  have eqs: "src a = src b" "owned a = owned b" "length (slots a) = length (slots b)"
    using sw by (simp_all add: same_wire_def)
  have af: "append_fields enc s a [1..int (length (slots b)) - 1] = append_fields enc s b [1..int (length (slots b)) - 1]" for enc s
    using eqs by (intro same_wire_fields [OF sw]) simp
  have mti_eq: "(if slots a = [] then Inl Panic else appendField enc d def (slots a ! 0) (src b))
      = (if slots b = [] then Inl Panic else appendField enc d def (slots b ! 0) (src b))" for enc d def
    using sw eqs by (auto simp: same_wire_def)
  show ?thesis
    unfolding Marshal_def marshal_with_def Let_def eqs same_wire_bitmap [OF sw] af mti_eq ..
qed

lemma appendField_decoded:
  "fromSrc sl \<and> \<not> sdirty sl \<and> w \<noteq> None \<or> v = sv sl \<Longrightarrow>
     appendField enc dst def (set_decoded sl v) w = appendField enc dst def sl w"
  unfolding appendField_def set_decoded_sel by auto

lemma same_wire_put_slot:
  assumes "0 \<le> de" "de < int (length (slots m))" "present sl = present (slots m ! nat de)"
    and "\<And>enc dst def. appendField enc dst def sl (src m) = appendField enc dst def (slots m ! nat de) (src m)"
  shows "same_wire (put_slot m de sl) m"
  using assms by (auto simp: same_wire_def nth_list_update)

lemma same_wire_decodeSlot:
  assumes inv: "msg_inv m" and de: "0 \<le> de" "de < int (length (slots m))"
  shows "same_wire (fst (decodeSlot m de)) m"
proof -
  let ?sl = "slots m ! nat de"
  have ok: "slot_ok (src m) ?sl" using inv de by (auto simp: msg_inv_def list_all_iff)
  have "same_wire (put_slot m de (set_decoded ?sl v)) m" if "fromSrc ?sl \<or> v = sv ?sl" for v
    using de that ok by (intro same_wire_put_slot appendField_decoded) (auto simp: slot_ok_def)
  then show ?thesis
    by (auto simp: decodeSlot_def Let_def same_wire_refl split: option.split sum.split)
qed

lemma same_wire_Get: "msg_inv m \<Longrightarrow> same_wire (fst (Get m de)) m"
  by (simp add: Get_def same_wire_refl same_wire_decodeSlot)

lemma same_wire_trans: "same_wire a b \<Longrightarrow> same_wire b c \<Longrightarrow> same_wire a c"
  by (auto simp: same_wire_def)

lemma Fields_same_wire:
  "msg_inv m \<Longrightarrow> \<forall>de \<in> set des. 0 \<le> de \<and> de < int (length (slots m)) \<Longrightarrow>
     same_wire (fst (fields_loop des m)) m \<and> msg_inv (fst (fields_loop des m))"
proof (induction des arbitrary: m)
  case Nil
  then show ?case by (simp add: same_wire_refl)
next
  case (Cons de des)
  let ?m1 = "fst (decodeSlot m de)"
  have m1: "msg_inv ?m1" "same_wire ?m1 m" "\<forall>de \<in> set des. 0 \<le> de \<and> de < int (length (slots ?m1))"
    using Cons.prems by (auto intro: msg_inv_decodeSlot same_wire_decodeSlot)
  have IH: "same_wire (fst (fields_loop des ?m1)) ?m1 \<and> msg_inv (fst (fields_loop des ?m1))"
    by (rule Cons.IH) (use m1 in auto)
  obtain m' r where d: "decodeSlot m de = (m', r)" by (cases "decodeSlot m de")
  then have "same_wire (fst (fields_loop des m')) m" "msg_inv (fst (fields_loop des m'))"
    using IH m1 by (auto intro: same_wire_trans [of _ m' m])
  with Cons d show ?case by (cases r; cases "fields_loop des m'") simp_all
qed

subsection \<open>What a write stores\<close>

lemma Set_de_ok:
  assumes "Set_de m de v = (m', None)"
  obtains def val where "\<not> sealed m" "message_def m de = Some def" "makeValue (Some def) v = Inr val"
    "0 \<le> de" "de < int (length (slots m))"
    "m' = mark_set (with_owned (put_slot m de (written_slot (slots m ! nat de) (with_vcodec val (Codec def)))) True) de"
proof -
  have "0 \<le> de" if "message_def m de = Some def" for def
    using that by (auto simp: message_def_def Field_def split: option.splits if_splits)
  with assms that show thesis
    by (auto simp: Set_de_def Let_def split: if_splits option.splits sum.splits)
qed

lemma sub_makeValue_AString: "makeValue def (AString b) = Inr val \<Longrightarrow> sub val = None"
  by (auto simp: makeValue_def scalarFromBytes_def Let_def split: kind.splits sum.splits)

lemma Get_other_slot:
  assumes "0 \<le> e \<Longrightarrow> slots a ! nat e = slots b ! nat e" "length (slots a) = length (slots b)" "src a = src b" "mschema a = mschema b"
  shows "snd (Get a e) = snd (Get b e)"
  using assms by (auto simp: Get_def decodeSlot_def message_def_def Let_def split: option.split sum.split)


subsection \<open>A schema to exercise the properties\<close>

text \<open>A four-digit MTI, a one-level binary bitmap, and three elements: a fixed number, a variable text
  and a composite with one subfield.\<close>

definition fixed_num :: "int \<Rightarrow> int \<Rightarrow> field_def" where
  "fixed_num de n = FieldDef (DE de) [] KindNumeric (Some NumASCII) None n 0 \<lparr>Side = PadLeft, PadChar = 48\<rparr> []
     \<lparr>Mode = RequiredOptional, MTIClasses = []\<rparr> None"

definition ll_text :: "int \<Rightarrow> int \<Rightarrow> field_def" where
  "ll_text de n = FieldDef (DE de) [] KindString (Some Ascii) (Some LLVarASCII) n 0 \<lparr>Side = PadNone, PadChar = 0\<rparr> []
     \<lparr>Mode = RequiredOptional, MTIClasses = []\<rparr> None"

definition demo_sub :: schema where
  "demo_sub = Schema [] None \<lparr>BmCodec = Some BinWord, Levels = 1\<rparr> [None, None, Some (fixed_num 2 3)] [] 2 False"

definition demo_composite :: field_def where
  "demo_composite = FieldDef (DE 5) [] KindComposite (Some SubfieldISO) (Some LLVarASCII) 99 0
     \<lparr>Side = PadNone, PadChar = 0\<rparr> [] \<lparr>Mode = RequiredOptional, MTIClasses = []\<rparr> (Some demo_sub)"

definition demo_schema :: schema where
  "demo_schema = Schema [] (Some (fixed_num 0 4)) \<lparr>BmCodec = Some BinWord, Levels = 1\<rparr>
     [None, None, Some (fixed_num 2 3), Some (ll_text 3 20), None, Some demo_composite] [] 5 False"

text \<open>The MTI \<open>0200\<close>, a bitmap with elements 2 and 3, \<open>123\<close> and the text \<open>AB\<close>.\<close>

definition demo_wire :: bytes where
  "demo_wire = [48, 50, 48, 48] @ [0x60, 0, 0, 0, 0, 0, 0, 0] @ [49, 50, 51] @ [48, 50, 65, 66]"

lemma demo_wf: "wf_spans (cschema (NewCodec demo_schema []))"
  by (simp add: NewCodec_def demo_schema_def wf_spans_def wf_span_def fixed_num_def ll_text_def demo_composite_def
      wf_prefix_def LLVarASCII_def)

definition demo_message :: message where
  "demo_message = Message (Some demo_schema) (Some demo_wire) (Bitmap.Set (Bitmap.Set bitmap0 2) 3)
     [span_slot 0 0 4 4, slot0, span_slot 12 12 15 3, span_slot 15 17 19 2, slot0, slot0] False bitmap0 False [] []"

lemma demo_bitmap: "ReadBitmap BinWord demo_wire 4 1 = Inr (Bitmap.Set (Bitmap.Set bitmap0 2) 3, 12)"
  by (simp add: ReadBitmap_def demo_wire_def wireLen_def repr_get_def slice_def Let_def)
   (simp add: put_word_def bitmap0_def Uint64_def Bitmap.Set_def wordBit_def maxDEIndex_def word_at_def be_val_def)

lemma data_elements_eqI:
  assumes "sorted_wrt (<) xs" "\<And>de. de \<in> set xs \<longleftrightarrow> IsSet b de \<and> is_data de"
  shows "data_elements b = xs"
  using assms strict_sorted_equal [OF data_elements_sorted] by (auto simp: data_elements_set)

lemma demo_elements: "data_elements (Bitmap.Set (Bitmap.Set bitmap0 2) 3) = [2, 3]"
  by (rule data_elements_eqI) (auto simp: IsSet_Set IsSet_empty in_range_def is_data_def contSecondary_def contTertiary_def)

lemma demo_fields:
  "Model.Field demo_schema 2 = Some (fixed_num 2 3)" "Model.Field demo_schema 3 = Some (ll_text 3 20)"
  "mti demo_schema = Some (fixed_num 0 4)" "bitmap_of demo_schema = \<lparr>BmCodec = Some BinWord, Levels = 1\<rparr>" "maxDE demo_schema = 5"
  by (simp_all add: demo_schema_def Field_def)

lemma demo_spans:
  "fieldBodySpan (fixed_num 0 4) demo_wire 0 = Inr (0, 4, 4, 4)"
  "fieldBodySpan (fixed_num 2 3) demo_wire 12 = Inr (12, 15, 15, 3)"
  "fieldBodySpan (ll_text 3 20) demo_wire 15 = Inr (17, 19, 19, 2)"
  by (simp_all add: fieldBodySpan_def fixed_num_def ll_text_def demo_wire_def wireBytes_def BodyBytes_def LLVarASCII_def
      ReadLen_def slice_def atoiDigits_def is_digit_def)

lemma demo_parse: "Unmarshal (NewCodec demo_schema []) demo_wire = Inr demo_message"
proof -
  have "replicate 6 slot0 = [slot0, slot0, slot0, slot0, slot0, slot0]" by (simp add: eval_nat_numeral)
  then show ?thesis
    by (simp add: Unmarshal_walk Let_def NewCodec_def unmarshal_mti_def demo_fields demo_spans demo_bitmap demo_elements
      newDecoded_def put_slots_def demo_message_def with_defs)
qed

lemma demo_reach: "msg_reach demo_message"
  by (rule msg_reach.parsed [OF demo_wf demo_parse])

subsection \<open>Properties\<close>

text \<open>C2: every slice the engine takes of a retained buffer is within the buffer, whatever sequence of
  reads, writes, removals, seals and clones the message went through; and for every data element the
  presence bitmap of the message says what \<open>Has\<close> says.\<close>

theorem message_invariant:
  assumes "msg_reach m"
  shows "(\<forall>sl \<in> set (slots m). fromSrc sl \<longrightarrow>
      (\<exists>w. src m = Some w \<and> 0 \<le> wireOff sl \<and> wireOff sl \<le> bodyOff sl \<and> bodyOff sl \<le> bodyEnd sl \<and> bodyEnd sl \<le> int (length w)))
    \<and> (\<forall>de. is_data de \<and> 1 \<le> de \<and> de \<le> 192 \<longrightarrow> IsSet (bmap m) de = Has m de)"
  using msg_reach_inv [OF assms]
  by (auto simp: msg_inv_def list_all_iff slot_ok_def bitmap_agrees_def)

theorem message_invariant_witness:
  "IsSet (bmap (fst (Set_de demo_message 3 (AString [67])))) 3 = Has (fst (Set_de demo_message 3 (AString [67]))) 3"
  using message_invariant [OF msg_reach.set_de [OF demo_reach, of 3 "AString [67]"]]
  by (auto simp: is_data_def contSecondary_def contTertiary_def)

text \<open>C3: a successful parse accounts for the wire: the MTI is its first bytes, then comes what the bitmap
  codec reads, and the spans of the present elements in ascending order follow one another without
  gap or overlap; an element is present exactly when its bit is set.\<close>

theorem unmarshal_tiles_wire:
  assumes "Unmarshal c wire = Inr m" and "wf_spans (cschema c)"
  shows "\<exists>p nx fin bc. 0 \<le> p \<and> p \<le> nx \<and> nx \<le> fin
    \<and> (mti (cschema c) \<noteq> None \<longrightarrow> slice wire (wireOff (slots m ! 0)) (bodyEnd (slots m ! 0)) = slice wire 0 p)
    \<and> BmCodec (bitmap_of (cschema c)) = Some bc
    \<and> ReadBitmap bc wire p (Levels (bitmap_of (cschema c))) = Inr (bmap m, nx)
    \<and> concat (map (\<lambda>de. slice wire (wireOff (slots m ! nat de)) (bodyEnd (slots m ! nat de))) (data_elements (bmap m)))
        = slice wire nx fin
    \<and> (\<forall>de. is_data de \<and> 1 \<le> de \<and> de \<le> 192 \<longrightarrow> Has m de = IsSet (bmap m) de)"
proof -
  obtain msl p bc nx es fin
    where p: "mti (cschema c) = None \<and> msl = slot0 \<and> p = 0 \<or> tiled wire 0 [msl] p" "0 \<le> p" "p \<le> nx"
      and b: "BmCodec (bitmap_of (cschema c)) = Some bc"
        "ReadBitmap bc wire p (Levels (bitmap_of (cschema c))) = Inr (bmap m, nx)"
      and w: "walk (cschema c) wire nx (data_elements (bmap m)) = Inr (es, fin)" "map fst es = data_elements (bmap m)"
        "tiled wire nx (map snd es) fin"
      and len: "int (length (slots m)) = maxDE (cschema c) + 1"
      and nth: "\<And>i. i < length (slots m) \<Longrightarrow> slots m ! i =
        (if i = 0 then msl else case map_of es (int i) of Some sl \<Rightarrow> sl | None \<Rightarrow> slot0)"
    by (rule Unmarshal_slots [OF assms]) blast
  have "slots m \<noteq> []" using len assms(2) by (auto simp: wf_spans_def)
  then have "mti (cschema c) \<noteq> None \<longrightarrow> slice wire (wireOff (slots m ! 0)) (bodyEnd (slots m ! 0)) = slice wire 0 p"
    using nth [of 0] p(1) by auto
  moreover have "slots m ! nat de = sl" if "(de, sl) \<in> set es" for de sl
  proof -
    have de: "de \<in> set (data_elements (bmap m))" using that w(2) by (metis fst_conv image_eqI list.set_map)
    then have "1 \<le> de" "Model.Field (cschema c) de \<noteq> None" using data_elements_range walk_fields [OF w(1)] by auto
    moreover have "map_of es de = Some sl"
      using that w(2) data_elements_distinct [of "bmap m"] by simp
    ultimately show ?thesis
      using nth [of "nat de"] len assms(2) by (auto simp: Field_def wf_spans_def split: if_splits)
  qed
  then have "map (\<lambda>de. slice wire (wireOff (slots m ! nat de)) (bodyEnd (slots m ! nat de))) (map fst es)
      = map (\<lambda>sl. slice wire (wireOff sl) (bodyEnd sl)) (map snd es)" by auto
  with tiled_concat [OF w(3)] p w(2)
  have "concat (map (\<lambda>de. slice wire (wireOff (slots m ! nat de)) (bodyEnd (slots m ! nat de))) (data_elements (bmap m)))
      = slice wire nx fin" by simp
  moreover have "\<forall>de. is_data de \<and> 1 \<le> de \<and> de \<le> 192 \<longrightarrow> Has m de = IsSet (bmap m) de"
    using msg_inv_Unmarshal [OF assms] by (simp add: msg_inv_def bitmap_agrees_def)
  ultimately show ?thesis using p(2,3) b tiled_le [OF w(3)] by blast
qed

theorem unmarshal_tiles_wire_witness: "Has demo_message 3 = IsSet (bmap demo_message) 3"
  using unmarshal_tiles_wire [OF demo_parse demo_wf] by (auto simp: is_data_def contSecondary_def contTertiary_def)

text \<open>A sealed message is immutable: \<open>Set\<close>, \<open>SetP\<close> on any path and \<open>Unset\<close> return it unchanged, the
  writers with the sealed error; a message parsed with the \<open>Immutable\<close> option is sealed, and a sealed
  message stays sealed when it is read.\<close>

theorem sealed_immutable:
  "(sealed m \<longrightarrow> Set_de m de v = (m, Some (FieldError (DE de) (-1) [] errSealed))
      \<and> SetP m p v = (m, Some (FieldError p (-1) [] errSealed)) \<and> Unset m de = m \<and> UnsetP m p = m
      \<and> sealed (fst (Get m de)) \<and> sealed (fst (GetP m p)))
    \<and> sealed (Seal m)
    \<and> (Unmarshal (NewCodec s (OptImmutable # os)) wire = Inr m \<and> wf_spans s \<longrightarrow> sealed m)"
proof (intro conjI impI)
  assume "Unmarshal (NewCodec s (OptImmutable # os)) wire = Inr m \<and> wf_spans s"
  then have u: "Unmarshal (NewCodec s (OptImmutable # os)) wire = Inr m" "wf_spans (cschema (NewCodec s (OptImmutable # os)))"
    by (simp_all add: NewCodec_def)
  have "Immutable (fold apply_option os q)" if "Immutable q" for q
    using that by (induction os arbitrary: q) (simp_all add: apply_option_def split: codec_option.split)
  then have "Immutable (opts (NewCodec s (OptImmutable # os)))"
    by (simp add: NewCodec_def apply_option_def)
  then show "sealed m" using Unmarshal_slots [OF u] by metis
next
  assume "sealed m"
  then show "SetP m p v = (m, Some (FieldError p (-1) [] errSealed))" by (cases p) simp_all
  from \<open>sealed m\<close> show "sealed (fst (GetP m p))"
    by (cases p) (auto simp: store_child_def split: prod.split option.split dest: arg_cong [of _ _ "\<lambda>x. sealed (fst x)"])
qed (simp_all add: Set_de_def Unset_def UnsetP_def Seal_def)

theorem sealed_immutable_witness:
  "sealed (Seal demo_message) \<and> SetP (Seal demo_message) (DE 2) AOther = (Seal demo_message, Some (FieldError (DE 2) (-1) [] errSealed))"
  using sealed_immutable [of "Seal demo_message" 2 AOther "DE 2" demo_schema "[]" demo_wire] by (simp add: Seal_def)

text \<open>C4: a successful \<open>Set\<close> is read back: the element is then present with the value built from the input,
  every other element keeps its presence and what \<open>Get\<close> returns for it, and an element of the bitmap's range is
  flagged. A failed \<open>Set\<close> changes nothing.\<close>

theorem set_then_get:
  "(Set_de m de v = (m', None) \<longrightarrow>
      (\<exists>def val. message_def m de = Some def \<and> makeValue (Some def) v = Inr val
        \<and> Get m' de = (m', Some (with_vcodec val (Codec def))))
      \<and> (\<forall>e. e \<noteq> de \<longrightarrow> snd (Get m' e) = snd (Get m e))
      \<and> (\<forall>e. Has m' e = (e = de \<or> Has m e)) \<and> (1 \<le> de \<and> de \<le> 192 \<longrightarrow> IsSet (bmap m') de))
    \<and> (Set_de m de v = (m', Some e) \<longrightarrow> m' = m)"
proof (intro conjI impI)
  assume "Set_de m de v = (m', Some e)"
  then show "m' = m" by (auto simp: Set_de_def Let_def split: if_splits option.splits sum.splits)
next
  assume "Set_de m de v = (m', None)"
  then show "\<exists>def val. message_def m de = Some def \<and> makeValue (Some def) v = Inr val
      \<and> Get m' de = (m', Some (with_vcodec val (Codec def)))"
    by (rule Set_de_ok) (auto simp: Get_def decodeSlot_def)
next
  assume "Set_de m de v = (m', None)"
  then show "\<forall>e. e \<noteq> de \<longrightarrow> snd (Get m' e) = snd (Get m e)"
    by (rule Set_de_ok) (auto intro!: Get_other_slot)
next
  assume "Set_de m de v = (m', None)"
  then show "\<forall>e. Has m' e = (e = de \<or> Has m e)"
    by (rule Set_de_ok) (auto simp: Has_put_slot)
next
  assume "Set_de m de v = (m', None)" "1 \<le> de \<and> de \<le> 192"
  then show "IsSet (bmap m') de"
    by (elim Set_de_ok) (simp add: mark_set_def IsSet_Set in_range_def)
qed

theorem set_then_get_witness:
  "\<exists>m'. Set_de (New demo_schema) 3 (AString [67]) = (m', None) \<and> Has m' 3 \<and> IsSet (bmap m') 3"
proof -
  have "snd (Set_de (New demo_schema) 3 (AString [67])) = None"
    by (simp add: Set_de_def New_def message_def_def demo_fields makeValue_def ll_text_def scalarFromBytes_def)
  then obtain m' where "Set_de (New demo_schema) 3 (AString [67]) = (m', None)"
    by (cases "Set_de (New demo_schema) 3 (AString [67])") simp
  with set_then_get [of "New demo_schema" 3 "AString [67]" m'] show ?thesis by simp
qed

text \<open>Reading never changes what is sent. After any read of a reachable message, by element or through
  the iterator, \<open>Marshal\<close> gives the same result as before; in particular a parsed message that is only read
  is marshalled as the bytes it was parsed from.\<close>

theorem reads_keep_wire:
  assumes "msg_reach m"
  shows "Marshal c (fst (Get m de)) dst = Marshal c m dst \<and> Marshal c (fst (Fields m)) dst = Marshal c m dst
    \<and> (Unmarshal c wire = Inr m \<and> wf_spans (cschema c) \<longrightarrow> Marshal c' (fst (Fields (fst (Get m de)))) dst = Inr wire)"
proof -
  note inv = msg_reach_inv [OF assms]
  have get: "Marshal c (fst (Get m de)) dst = Marshal c m dst" for c
    using inv by (intro same_wire_marshal same_wire_Get)
  have fields: "Marshal c (fst (Fields m)) dst = Marshal c m dst" if "msg_inv m" for c m
    using that Fields_same_wire [of m "[1..int (length (slots m)) - 1]"] by (auto simp: Fields_def intro!: same_wire_marshal)
  have "Marshal c' m dst = Inr wire" if "Unmarshal c wire = Inr m" "wf_spans (cschema c)"
  proof -
    have "src m = Some wire" "\<not> owned m" using Unmarshal_slots [OF that] by metis+
    then show ?thesis by (simp add: Marshal_def marshal_with_def)
  qed
  then show ?thesis using get fields [OF inv] fields [OF msg_inv_Get [OF inv]] by simp
qed

theorem reads_keep_wire_witness:
  "Marshal (NewCodec demo_schema []) (fst (Fields (fst (Get demo_message 3)))) [] = Inr demo_wire"
  using reads_keep_wire [OF demo_reach, of "NewCodec demo_schema []" 3 "[]" demo_wire "NewCodec demo_schema []"]
    demo_parse demo_wf by simp

text \<open>C33: where \<open>Clone\<close> falls short of its documentation, a mutable copy on which only touched fields
  differ: it does not copy the flag that records modification. The clone of a parsed message whose
  element was set to a text reads the new text, but is marshalled as the original bytes.\<close>

theorem clone_loses_modification:
  assumes "Unmarshal c wire = Inr m" and "wf_spans (cschema c)" and "Set_de m de (AString b) = (m', None)"
  shows "snd (Get (Clone m') de) = snd (Get m' de) \<and> snd (Get m' de) \<noteq> None \<and> Marshal c' (Clone m') dst = Inr wire"
proof -
  have s: "src m = Some wire" using Unmarshal_slots [OF assms(1,2)] by metis
  from assms(3) show ?thesis
  proof (rule Set_de_ok)
    fix def val
    let ?sl = "written_slot (slots m ! nat de) (with_vcodec val (Codec def))"
    assume v: "makeValue (Some def) (AString b) = Inr val" and de: "0 \<le> de" "de < int (length (slots m))"
      and m': "m' = mark_set (with_owned (put_slot m de ?sl) True) de"
    have "slots m' ! nat de = ?sl" "nat de < length (slots m')" using de m' by auto
    then have "slots (Clone m') ! nat de = ?sl"
      using Clone_slots [of m'] sub_makeValue_AString [OF v] by simp
    moreover have "slots m' ! nat de = ?sl" "src (Clone m') = Some wire" "\<not> owned (Clone m')" using de m' s by auto
    ultimately show ?thesis
      using de m' by (simp add: Get_def decodeSlot_def Marshal_def marshal_with_def)
  qed
qed

theorem clone_loses_modification_witness:
  "\<exists>m'. Set_de demo_message 3 (AString [67]) = (m', None) \<and> Marshal (NewCodec demo_schema []) (Clone m') [] = Inr demo_wire"
proof -
  have "snd (Set_de demo_message 3 (AString [67])) = None"
    by (simp add: Set_de_def demo_message_def message_def_def demo_fields makeValue_def ll_text_def scalarFromBytes_def)
  then obtain m' where "Set_de demo_message 3 (AString [67]) = (m', None)"
    by (cases "Set_de demo_message 3 (AString [67])") simp
  with clone_loses_modification [OF demo_parse demo_wf this] show ?thesis by blast
qed

text \<open>A failed nested write is not atomic. When the addressed subfield is not in the child's schema, \<open>SetP\<close>
  reports the error, but the composite element, absent before, is present afterwards.\<close>

theorem failed_nested_write_leaves_element:
  assumes "\<not> sealed m" "mschema m = Some s" "\<not> isTLV s" "\<not> IsTag e1" "\<not> IsTag e2" "\<not> Has m (N e1)"
    and "message_def m (N e1) = Some def" "Sub def = Some cs" "\<not> isTLV cs" "Model.Field cs (N e2) = None"
    and "N e1 < int (length (slots m))"
  shows "snd (SetP m [e1, e2] v) = Some (FieldError (DE (N e2)) (-1) [] errUnknownDE) \<and> Has (fst (SetP m [e1, e2] v)) (N e1)"
proof -
  have "0 \<le> N e1"
    using assms(2,7) by (auto simp: message_def_def Field_def split: option.splits if_splits)
  moreover have "SetP (New cs) [e2] v = (New cs, Some (FieldError (DE (N e2)) (-1) [] errUnknownDE))"
  proof -
    have "message_def (New cs) (N e2) = None"
      using assms(10) by (cases "N e2 = 0") (simp_all add: New_def message_def_def Field_def)
    with assms(5,9) show ?thesis by (simp add: is_TLV_message_def Set_de_def New_def)
  qed
  ultimately show ?thesis
    using assms
    by (simp add: is_TLV_message_def ensureChild_def existing_child_def put_child_def Let_def Has_put_slot_in Has_def)
qed

theorem failed_nested_write_leaves_element_witness:
  "\<not> Has (New demo_schema) 5 \<and> Has (fst (SetP (New demo_schema) [\<lparr>N = 5, Tag = []\<rparr>, \<lparr>N = 9, Tag = []\<rparr>] (AInt 1))) 5"
proof -
  have "\<not> Has (New demo_schema) 5" by (simp add: New_def Has_def demo_fields)
  moreover have "message_def (New demo_schema) 5 = Some demo_composite" "\<not> isTLV demo_schema" "\<not> isTLV demo_sub"
      "Sub demo_composite = Some demo_sub" "Model.Field demo_sub 9 = None"
    by (simp_all add: message_def_def New_def demo_schema_def Field_def demo_composite_def demo_sub_def)
  ultimately show ?thesis
    using failed_nested_write_leaves_element [of "New demo_schema" demo_schema "\<lparr>N = 5, Tag = []\<rparr>" "\<lparr>N = 9, Tag = []\<rparr>"
        demo_composite demo_sub "AInt 1"]
    by (simp add: IsTag_def New_def demo_fields del: SetP.simps)
qed

end
