(* ===== verification/Validate.thy ===== *)
theory Validate
  imports MessageProps
begin

text \<open>
  Field validators, \<^verbatim>\<open>src/iso8583/validate.go\<close>, and \<open>Codec.Validate\<close>,
  \<^verbatim>\<open>src/iso8583/codec.go\<close>. Whether a text matches a pattern is the parameter \<open>matches\<close> (Go's
  regular-expression package). The message of a violation is kept as the format it is printed with
  and its arguments.
\<close>

subsection \<open>Violations and rules\<close>

datatype viol_msg =
    MsgText bytes | MsgErr error | MsgLenOutside int int int | MsgLenExceeds int int
  | MsgNotAllowed bytes | MsgNoMatch bytes bytes | MsgMTI bytes

record violation =
  VPath :: field_path
  VOffset :: int
  VRule :: bytes
  VMsg :: viol_msg

definition violate :: "value \<Rightarrow> bytes \<Rightarrow> viol_msg \<Rightarrow> violation" where
  "violate v rule msg = \<lparr>VPath = [], VOffset = off v, VRule = rule, VMsg = msg\<rparr>"

definition mtiInClasses :: "bytes \<Rightarrow> bytes list \<Rightarrow> bool" where
  "mtiInClasses m classes = (\<exists>c \<in> set classes. take (length c) m = c)"

text \<open>The loop of \<open>Luhn\<close>, from the last byte to the first: \<open>None\<close> is a non-digit byte, otherwise the sum.\<close>

fun luhn_loop :: "bytes \<Rightarrow> bool \<Rightarrow> nat \<Rightarrow> nat option" where
  "luhn_loop [] double s = Some s"
| "luhn_loop (c # cs) double s =
     (if \<not> is_digit c then None
      else let d = unat (c - 48); d = (if double then (if d * 2 > 9 then d * 2 - 9 else d * 2) else d)
        in luhn_loop cs (\<not> double) (s + d))"

definition Luhn :: "value \<Rightarrow> violation option" where
  "Luhn v =
     (let b = Bytes v; rule = bytes_of ''luhn'' in
      if b = [] then Some (violate v rule (MsgText (bytes_of ''empty value'')))
      else case luhn_loop (rev b) False 0 of
        None \<Rightarrow> Some (violate v rule (MsgText (bytes_of ''non-digit byte in value'')))
      | Some s \<Rightarrow>
          if s mod 10 \<noteq> 0 then Some (violate v rule (MsgText (bytes_of ''luhn check failed''))) else None)"

definition check_text :: "value \<Rightarrow> bytes \<Rightarrow> (bytes \<Rightarrow> viol_msg option) \<Rightarrow> violation option" where
  "check_text v rule test =
     (case value_String v of
        Inl e \<Rightarrow> Some (violate v rule (MsgErr e))
      | Inr s \<Rightarrow> (case test s of None \<Rightarrow> None | Some msg \<Rightarrow> Some (violate v rule msg)))"

fun rule_Validate :: "(bytes \<Rightarrow> bytes \<Rightarrow> bool) \<Rightarrow> validator \<Rightarrow> value \<Rightarrow> violation option"
  and rules_first :: "(bytes \<Rightarrow> bytes \<Rightarrow> bool) \<Rightarrow> validator list \<Rightarrow> value \<Rightarrow> violation option" where
  "rule_Validate matches VRequired v =
     (if Bytes v = [] then Some (violate v (bytes_of ''required'') (MsgText (bytes_of ''value is empty''))) else None)"
| "rule_Validate matches VDigits v =
     (if list_all is_digit (Bytes v) then None
      else Some (violate v (bytes_of ''digits'') (MsgText (bytes_of ''non-digit byte in value''))))"
| "rule_Validate matches VLuhn v = Luhn v"
| "rule_Validate matches (LenBetween lo hi) v =
     (let n = int (length (Bytes v)) in
      if n < lo \<or> n > hi then Some (violate v (bytes_of ''len'') (MsgLenOutside n lo hi)) else None)"
| "rule_Validate matches (MaxLength n) v =
     (let l = int (length (Bytes v)) in
      if l > n then Some (violate v (bytes_of ''len'') (MsgLenExceeds l n)) else None)"
| "rule_Validate matches (OneOf allowed) v =
     check_text v (bytes_of ''oneof'') (\<lambda>s. if s \<in> set allowed then None else Some (MsgNotAllowed s))"
| "rule_Validate matches (Regexp pattern) v =
     check_text v (bytes_of ''regexp'') (\<lambda>s. if matches pattern s then None else Some (MsgNoMatch s pattern))"
| "rule_Validate matches CurrencyAmount v =
     (case value_Decimal v of Inl e \<Rightarrow> Some (violate v (bytes_of ''currency'') (MsgErr e)) | Inr _ \<Rightarrow> None)"
| "rule_Validate matches (MTIClass allowed) v =
     check_text v (bytes_of ''mti'') (\<lambda>s. if mtiInClasses s allowed then None else Some (MsgMTI s))"
| "rule_Validate matches (VAll vs) v = rules_first matches vs v"
| "rules_first matches [] v = None"
| "rules_first matches (r # rs) v =
     (case rule_Validate matches r v of Some viol \<Rightarrow> Some viol | None \<Rightarrow> rules_first matches rs v)"

subsection \<open>\<open>Codec.Validate\<close>\<close>

definition required_violations :: "field_def \<Rightarrow> bool \<Rightarrow> bytes \<Rightarrow> violation list" where
  "required_violations def present' mt =
     (case Mode (Required def) of
        RequiredAlways \<Rightarrow>
          if \<not> present' then
            [\<lparr>VPath = Path def, VOffset = -1, VRule = bytes_of ''required'', VMsg = MsgText (bytes_of ''field required but absent'')\<rparr>]
          else []
      | RequiredOnMTI \<Rightarrow>
          if \<not> present' \<and> mtiInClasses mt (MTIClasses (Required def)) then
            [\<lparr>VPath = Path def, VOffset = -1, VRule = bytes_of ''required'',
              VMsg = MsgText (bytes_of ''field required for MTI but absent'')\<rparr>]
          else []
      | RequiredOptional \<Rightarrow> [])"

definition locate :: "field_def \<Rightarrow> violation \<Rightarrow> violation" where
  "locate def viol = (if path_IsZero (VPath viol) then viol\<lparr>VPath := Path def\<rparr> else viol)"

definition content_violations :: "(bytes \<Rightarrow> bytes \<Rightarrow> bool) \<Rightarrow> field_def \<Rightarrow> value option \<Rightarrow> violation list" where
  "content_violations matches def r =
     (case r of
        None \<Rightarrow> [\<lparr>VPath = Path def, VOffset = -1, VRule = bytes_of ''decode'',
                  VMsg = MsgText (bytes_of ''field present but could not be decoded'')\<rparr>]
      | Some v \<Rightarrow> map (locate def) (List.map_filter (\<lambda>rule. rule_Validate matches rule v) (Validators def)))"

fun validate_loop :: "(bytes \<Rightarrow> bytes \<Rightarrow> bool) \<Rightarrow> schema \<Rightarrow> bytes \<Rightarrow> int list \<Rightarrow> message \<Rightarrow> message \<times> violation list" where
  "validate_loop matches s mt [] m = (m, [])"
| "validate_loop matches s mt (de # des) m =
     (case Field s de of
        None \<Rightarrow> validate_loop matches s mt des m
      | Some def \<Rightarrow>
          let req = required_violations def (Has m de) mt in
          if \<not> Has m de then (case validate_loop matches s mt des m of (m', vs) \<Rightarrow> (m', req @ vs))
          else (case Get m de of (m1, r) \<Rightarrow>
            (case validate_loop matches s mt des m1 of (m', vs) \<Rightarrow> (m', req @ content_violations matches def r @ vs))))"

definition mti_text :: "value option \<Rightarrow> bytes" where
  "mti_text r = (case r of None \<Rightarrow> [] | Some v \<Rightarrow> (case value_String v of Inl _ \<Rightarrow> [] | Inr s \<Rightarrow> s))"

text \<open>The result is the list of the returned \<open>ValidationError\<close>; a nil error is the empty list.\<close>

definition Validate :: "(bytes \<Rightarrow> bytes \<Rightarrow> bool) \<Rightarrow> codec \<Rightarrow> message \<Rightarrow> message \<times> violation list" where
  "Validate matches c m =
     (case Get m 0 of (m1, r) \<Rightarrow> validate_loop matches (cschema c) (mti_text r) [1..maxDE (cschema c)] m1)"

subsection \<open>The check digit\<close>

definition luhn_digit :: "bool \<Rightarrow> nat \<Rightarrow> nat" where
  "luhn_digit double d = (if double then (if d * 2 > 9 then d * 2 - 9 else d * 2) else d)"

fun luhn_sum :: "bool \<Rightarrow> nat list \<Rightarrow> nat" where
  "luhn_sum double [] = 0"
| "luhn_sum double (d # ds) = luhn_digit double d + luhn_sum (\<not> double) ds"

lemma luhn_loop_sum:
  "list_all is_digit cs \<Longrightarrow> luhn_loop cs double s = Some (s + luhn_sum double (map digit_val cs))"
  by (induction cs arbitrary: double s) (simp_all add: luhn_digit_def digit_val_def Let_def)

lemma luhn_loop_digits: "luhn_loop cs double s \<noteq> None \<longleftrightarrow> list_all is_digit cs"
  by (induction cs arbitrary: double s) (simp_all add: Let_def)

lemma luhn_sum_append:
  "luhn_sum double (xs @ ys) = luhn_sum double xs + luhn_sum (double \<noteq> odd (length xs)) ys"
proof (induction xs arbitrary: double)
  case (Cons x xs)
  then show ?case by (cases double) simp_all
qed simp

lemma Luhn_accepts:
  "Luhn v = None \<longleftrightarrow>
     raw v \<noteq> [] \<and> list_all is_digit (raw v) \<and> luhn_sum False (rev (map digit_val (raw v))) mod 10 = 0"
proof (cases "list_all is_digit (raw v)")
  case True
  then show ?thesis by (auto simp: Luhn_def Let_def Bytes_def luhn_loop_sum rev_map)
next
  case False
  then have "luhn_loop (rev (raw v)) False 0 = None" using luhn_loop_digits [of "rev (raw v)"] by auto
  with False show ?thesis by (auto simp: Luhn_def Let_def Bytes_def)
qed

lemma mod10_sum: "x < 10 \<Longrightarrow> k < 10 \<Longrightarrow> (x + k) mod 10 = (0::nat) \<Longrightarrow> x + k = 0 \<or> x + k = 10"
  by (auto simp: mod_if split: if_splits)

lemma mod10_cancel:
  assumes "(a + x + b) mod 10 = 0" "(a + y + b) mod 10 = (0::nat)"
  shows "x mod 10 = y mod 10"
proof -
  have "(x mod 10 + (a + b) mod 10) mod 10 = 0" "(y mod 10 + (a + b) mod 10) mod 10 = 0"
    using assms by (simp_all add: mod_add_eq ac_simps)
  from this [THEN mod10_sum [rotated 2]] show ?thesis by auto
qed

lemma luhn_digit_less: "c < 10 \<Longrightarrow> luhn_digit p c < 10"
  by (auto simp: luhn_digit_def)

lemma luhn_digit_inj: "c < 10 \<Longrightarrow> d < 10 \<Longrightarrow> luhn_digit p c = luhn_digit p d \<Longrightarrow> c = d"
  by (auto simp: luhn_digit_def split: if_splits) presburger+

lemma luhn_swap_table:
  "list_all (\<lambda>c. list_all (\<lambda>d. (luhn_digit True c + d) mod 10 = (luhn_digit True d + c) mod 10 \<longrightarrow>
     c = d \<or> c = 0 \<and> d = 9 \<or> c = 9 \<and> d = 0) [0..<10]) [0..<10]"
  by code_simp

lemma luhn_swap:
  assumes "c < 10" "d < 10" "(luhn_digit p c + luhn_digit (\<not> p) d) mod 10 = (luhn_digit p d + luhn_digit (\<not> p) c) mod 10"
  shows "c = d \<or> c = 0 \<and> d = 9 \<or> c = 9 \<and> d = 0"
proof -
  have "(luhn_digit True c + d) mod 10 = (luhn_digit True d + c) mod 10"
    using assms(3) by (cases p) (simp_all add: luhn_digit_def [of False] add.commute)
  with luhn_swap_table assms(1,2) show ?thesis by (simp add: list_all_iff)
qed

subsection \<open>Memoised reads are transparent\<close>

definition same_reads :: "message \<Rightarrow> message \<Rightarrow> bool" where
  "same_reads a b \<longleftrightarrow> (\<forall>e. Has a e = Has b e \<and> snd (Get a e) = snd (Get b e))"

lemma decodeSlot_outcome:
  "fst (decodeSlot m de) = m
    \<or> (\<exists>v. present (slots m ! nat de) \<and> decodeSlot m de = (put_slot m de (set_decoded (slots m ! nat de) v), Some v))"
  unfolding decodeSlot_def Let_def
  by (cases "present (slots m ! nat de)"; cases "decoded (slots m ! nat de)"; cases "message_def m de")
    (simp_all split: sum.split)

lemma Get_again: "snd (Get (fst (Get m de)) de) = snd (Get m de)"
proof (cases "de < 0 \<or> de \<ge> int (length (slots m))")
  case False
  from decodeSlot_outcome [of m de] show ?thesis
  proof (elim disjE exE conjE)
    fix v
    assume p: "present (slots m ! nat de)"
      and d: "decodeSlot m de = (put_slot m de (set_decoded (slots m ! nat de) v), Some v)"
    have "snd (decodeSlot (put_slot m de (set_decoded (slots m ! nat de) v)) de) = Some v"
      using False p by (simp add: decodeSlot_def nat_less_iff)
    with False d show ?thesis by (simp add: Get_def)
  qed (simp add: Get_def)
qed (simp add: Get_def)

lemma same_reads_Get: "same_reads (fst (Get m de)) m"
  unfolding same_reads_def
proof (intro allI conjI)
  fix e
  have sh: "\<exists>v. fst (Get m de) = m \<or> 0 \<le> de \<and> de < int (length (slots m))
      \<and> fst (Get m de) = put_slot m de (set_decoded (slots m ! nat de) v)"
    using decodeSlot_outcome [of m de] by (auto simp: Get_def)
  then show "Has (fst (Get m de)) e = Has m e" by (elim exE disjE conjE) (simp_all add: Has_def nth_list_update)
  show "snd (Get (fst (Get m de)) e) = snd (Get m e)"
  proof (cases "e = de")
    case True
    then show ?thesis by (simp add: Get_again)
  next
    case False
    with sh show ?thesis by (auto intro!: Get_other_slot)
  qed
qed

definition de_violations :: "(bytes \<Rightarrow> bytes \<Rightarrow> bool) \<Rightarrow> schema \<Rightarrow> bytes \<Rightarrow> message \<Rightarrow> int \<Rightarrow> violation list" where
  "de_violations matches s mt m de =
     (case Field s de of
        None \<Rightarrow> []
      | Some def \<Rightarrow> required_violations def (Has m de) mt
          @ (if Has m de then content_violations matches def (snd (Get m de)) else []))"

text \<open>The same, written out.\<close>

lemma mtiInClasses_prefix: "mtiInClasses m classes \<longleftrightarrow> (\<exists>cl rest. cl \<in> set classes \<and> m = cl @ rest)"
proof
  assume "mtiInClasses m classes"
  then show "\<exists>cl rest. cl \<in> set classes \<and> m = cl @ rest" unfolding mtiInClasses_def by (metis append_take_drop_id)
next
  assume "\<exists>cl rest. cl \<in> set classes \<and> m = cl @ rest"
  then obtain cl rest where "cl \<in> set classes" "take (length cl) m = cl" by force
  then show "mtiInClasses m classes" unfolding mtiInClasses_def by blast
qed

lemma located_rules:
  "map (locate def) (List.map_filter check rules) =
     concat (map (\<lambda>rule. case check rule of
         None \<Rightarrow> [] | Some viol \<Rightarrow> [viol\<lparr>VPath := (if VPath viol = [] then Path def else VPath viol)\<rparr>]) rules)"
  by (induction rules) (simp_all add: List.map_filter_simps locate_def path_IsZero_def split: option.split)

lemma de_violations_spec:
  "de_violations matches s mt m de =
     (case Field s de of
        None \<Rightarrow> []
      | Some def \<Rightarrow>
          if \<not> Has m de then
            (if Mode (Required def) = RequiredAlways then
               [\<lparr>VPath = Path def, VOffset = -1, VRule = bytes_of ''required'', VMsg = MsgText (bytes_of ''field required but absent'')\<rparr>]
             else if Mode (Required def) = RequiredOnMTI \<and> (\<exists>cl rest. cl \<in> set (MTIClasses (Required def)) \<and> mt = cl @ rest) then
               [\<lparr>VPath = Path def, VOffset = -1, VRule = bytes_of ''required'', VMsg = MsgText (bytes_of ''field required for MTI but absent'')\<rparr>]
             else [])
          else (case snd (Get m de) of
              None \<Rightarrow> [\<lparr>VPath = Path def, VOffset = -1, VRule = bytes_of ''decode'', VMsg = MsgText (bytes_of ''field present but could not be decoded'')\<rparr>]
            | Some v \<Rightarrow> concat (map (\<lambda>rule. case rule_Validate matches rule v of
                  None \<Rightarrow> []
                | Some viol \<Rightarrow> [viol\<lparr>VPath := (if VPath viol = [] then Path def else VPath viol)\<rparr>]) (Validators def))))"
  unfolding de_violations_def required_violations_def content_violations_def located_rules mtiInClasses_prefix
  by (cases "Field s de"; cases "Has m de") (simp_all split: required_mode.split)

lemma de_violations_cong: "same_reads a b \<Longrightarrow> de_violations matches s mt a = de_violations matches s mt b"
  by (intro ext) (simp add: de_violations_def same_reads_def split: option.split)

lemma validate_loop_eq:
  "msg_inv m \<Longrightarrow> snd (validate_loop matches s mt des m) = concat (map (de_violations matches s mt m) des)
    \<and> same_wire (fst (validate_loop matches s mt des m)) m"
proof (induction des arbitrary: m)
  case Nil
  then show ?case by (simp add: same_wire_refl)
next
  case (Cons de des)
  obtain m1 r where g: "Get m de = (m1, r)" by (cases "Get m de")
  have inv1: "msg_inv m1" "same_wire m1 m" "same_reads m1 m"
    using msg_inv_Get [OF Cons.prems, of de] same_wire_Get [OF Cons.prems, of de] same_reads_Get [of m de] g by simp_all
  obtain ma va where a: "validate_loop matches s mt des m = (ma, va)" by (cases "validate_loop matches s mt des m")
  obtain mb vb where b: "validate_loop matches s mt des m1 = (mb, vb)" by (cases "validate_loop matches s mt des m1")
  show ?case
    using Cons.IH [OF Cons.prems] Cons.IH [OF inv1(1)] inv1 g a b de_violations_cong [OF inv1(3)]
    by (auto simp: de_violations_def [of _ _ _ m de] Let_def split: option.split intro: same_wire_trans)
qed

subsection \<open>Properties\<close>

text \<open>The Luhn rule accepts exactly non-empty digit strings whose weighted digit sum, doubling every
  second digit from the right, is a multiple of ten. It detects every error in a single digit, and
  every transposition of two adjacent digits other than 0 and 9.\<close>

theorem Luhn_detects_errors:
  assumes "Luhn v = None"
  shows "(raw v = xs @ c # ys \<and> raw v' = xs @ c' # ys \<and> c \<noteq> c' \<longrightarrow> Luhn v' \<noteq> None)
    \<and> (raw v = xs @ c # d # ys \<and> raw v' = xs @ d # c # ys \<and> c \<noteq> d \<and> {c, d} \<noteq> {48, 57} \<longrightarrow> Luhn v' \<noteq> None)"
proof (intro conjI impI notI)
  let ?r = "rev (map digit_val ys)" and ?l = "rev (map digit_val xs)"
  assume e: "raw v = xs @ c # ys \<and> raw v' = xs @ c' # ys \<and> c \<noteq> c'" and acc: "Luhn v' = None"
  let ?p = "odd (length ?r)"
  note a = assms [unfolded Luhn_accepts] acc [unfolded Luhn_accepts]
  have "luhn_digit ?p (digit_val c) mod 10 = luhn_digit ?p (digit_val c') mod 10"
    using a e by (intro mod10_cancel [of "luhn_sum False ?r" _ "luhn_sum (\<not> ?p) ?l"]) (simp_all add: luhn_sum_append ac_simps)
  moreover have "is_digit c" "is_digit c'" using a e by auto
  ultimately show False
    using e luhn_digit_inj [of "digit_val c" "digit_val c'" ?p] by (auto simp: luhn_digit_less dest: arg_cong [of _ _ digit_of])
next
  let ?r = "rev (map digit_val ys)" and ?l = "rev (map digit_val xs)"
  assume e: "raw v = xs @ c # d # ys \<and> raw v' = xs @ d # c # ys \<and> c \<noteq> d \<and> {c, d} \<noteq> {48, 57}" and acc: "Luhn v' = None"
  let ?p = "odd (length ?r)"
  note a = assms [unfolded Luhn_accepts] acc [unfolded Luhn_accepts]
  have "(luhn_digit ?p (digit_val d) + luhn_digit (\<not> ?p) (digit_val c)) mod 10
      = (luhn_digit ?p (digit_val c) + luhn_digit (\<not> ?p) (digit_val d)) mod 10"
    using a e by (intro mod10_cancel [of "luhn_sum False ?r" _ "luhn_sum ?p ?l"]) (simp_all add: luhn_sum_append ac_simps)
  moreover have "is_digit c" "is_digit d" using a e by auto
  ultimately have "digit_val d = digit_val c \<or> digit_val d = 0 \<and> digit_val c = 9 \<or> digit_val d = 9 \<and> digit_val c = 0"
    using luhn_swap [of "digit_val d" "digit_val c" ?p] by simp
  moreover have "digit_of 0 = 48" "digit_of 9 = 57" by (simp_all add: digit_of_def)
  moreover have "digit_of (digit_val c) = c" "digit_of (digit_val d) = d" using \<open>is_digit c\<close> \<open>is_digit d\<close> by simp_all
  ultimately show False using e by (elim disjE conjE) auto
qed

theorem Luhn_detects_errors_witness:
  "Luhn (NumericValue [55, 57, 57, 50, 55, 51, 57, 56, 55, 49, 51]) = None
    \<and> Luhn (NumericValue [55, 57, 57, 50, 55, 51, 57, 56, 55, 50, 51]) \<noteq> None"
proof -
  have "Luhn (NumericValue [55, 57, 57, 50, 55, 51, 57, 56, 55, 49, 51]) = None"
    by (simp add: Luhn_def NumericValue_def Bytes_def is_digit_def)
  with Luhn_detects_errors [OF this, of "[55, 57, 57, 50, 55, 51, 57, 56, 55]" 49 "[51]"
      "NumericValue [55, 57, 57, 50, 55, 51, 57, 56, 55, 50, 51]" 50]
  show ?thesis by (simp add: NumericValue_def)
qed

text \<open>C30: validation is complete and not fail-fast. For a message that was parsed or built through the interface, the
  violations reported are, for the elements 1 to the schema's last, in order: for an absent element, one violation if the
  element is required always, or required for message classes of which one is a prefix of the MTI text, and none
  otherwise; for a present element that does not decode, the decode violation; and for a present element that decodes, one
  violation for every rule that fails on its value, in the order of the rules, placed at the element's path if the rule gave
  none. All of it is judged on the message as it was given, and validating does not change what is marshalled.\<close>

theorem validate_reports_all:
  assumes "msg_reach m"
    and "mtiText = (case snd (Get m 0) of Some v \<Rightarrow> (case value_String v of Inr t \<Rightarrow> t | Inl _ \<Rightarrow> []) | None \<Rightarrow> [])"
  shows "snd (Validate matches c m) =
      concat (map (\<lambda>de. case Field (cschema c) de of
          None \<Rightarrow> []
        | Some def \<Rightarrow>
            if \<not> Has m de then
              (if Mode (Required def) = RequiredAlways then
                 [\<lparr>VPath = Path def, VOffset = -1, VRule = bytes_of ''required'', VMsg = MsgText (bytes_of ''field required but absent'')\<rparr>]
               else if Mode (Required def) = RequiredOnMTI \<and> (\<exists>cl rest. cl \<in> set (MTIClasses (Required def)) \<and> mtiText = cl @ rest) then
                 [\<lparr>VPath = Path def, VOffset = -1, VRule = bytes_of ''required'', VMsg = MsgText (bytes_of ''field required for MTI but absent'')\<rparr>]
               else [])
            else (case snd (Get m de) of
                None \<Rightarrow> [\<lparr>VPath = Path def, VOffset = -1, VRule = bytes_of ''decode'', VMsg = MsgText (bytes_of ''field present but could not be decoded'')\<rparr>]
              | Some v \<Rightarrow> concat (map (\<lambda>rule. case rule_Validate matches rule v of
                    None \<Rightarrow> []
                  | Some viol \<Rightarrow> [viol\<lparr>VPath := (if VPath viol = [] then Path def else VPath viol)\<rparr>]) (Validators def))))
        [1..maxDE (cschema c)])
    \<and> Marshal c' (fst (Validate matches c m)) dst = Marshal c' m dst"
proof -
  note inv = msg_reach_inv [OF assms(1)]
  obtain m1 r where g: "Get m 0 = (m1, r)" by (cases "Get m 0")
  have m1: "msg_inv m1" "same_wire m1 m" "same_reads m1 m"
    using msg_inv_Get [OF inv, of 0] same_wire_Get [OF inv, of 0] same_reads_Get [of m 0] g by simp_all
  have "same_wire (fst (Validate matches c m)) m"
    using validate_loop_eq [OF m1(1)] m1(2) g by (auto simp: Validate_def intro: same_wire_trans [of _ m1 m])
  then have "Marshal c' (fst (Validate matches c m)) dst = Marshal c' m dst" by (rule same_wire_marshal)
  moreover have mt: "mti_text r = mtiText" using g assms(2) by (simp add: mti_text_def split: option.split sum.split)
  have "snd (Validate matches c m) =
      concat (map (de_violations matches (cschema c) mtiText m) [1..maxDE (cschema c)])"
    using validate_loop_eq [OF m1(1)] de_violations_cong [OF m1(3)] g by (simp add: Validate_def mt)
  ultimately show ?thesis unfolding de_violations_spec [abs_def] by blast
qed

text \<open>A codec that requires element 4 of messages of class \<open>02\<close> and has two rules for element 2, which \<open>123\<close> breaks.\<close>

definition demo_rules :: codec where
  "demo_rules = NewCodec (Schema [] (Some (fixed_num 0 4)) \<lparr>BmCodec = Some BinWord, Levels = 1\<rparr>
     [None, None,
      Some (FieldDef (DE 2) [] KindNumeric (Some NumASCII) None 3 0 \<lparr>Side = PadLeft, PadChar = 48\<rparr> [LenBetween 5 9, VDigits, VLuhn]
        \<lparr>Mode = RequiredAlways, MTIClasses = []\<rparr> None),
      None,
      Some (FieldDef (DE 4) [] KindNumeric (Some NumASCII) None 2 0 \<lparr>Side = PadLeft, PadChar = 48\<rparr> [VDigits]
        \<lparr>Mode = RequiredOnMTI, MTIClasses = [[49], [48, 50]]\<rparr> None)] [] 4 False) []"

lemma demo_reads:
  "map_option value_String (snd (Get demo_message 0)) = Some (Inr [48, 50, 48, 48])"
  "map_option raw (snd (Get demo_message 2)) = Some [49, 50, 51]" "Has demo_message 2" "\<not> Has demo_message 4"
  by code_simp+

theorem validate_reports_all_witness:
  "map VRule (snd (Validate (\<lambda>_ _. True) demo_rules demo_message)) = [bytes_of ''len'', bytes_of ''luhn'', bytes_of ''required'']
    \<and> Marshal (NewCodec demo_schema []) (fst (Validate (\<lambda>_ _. True) demo_rules demo_message)) [] = Inr demo_wire"
proof -
  have "Marshal (NewCodec demo_schema []) demo_message [] = Inr demo_wire"
    by (simp add: Marshal_def marshal_with_def demo_message_def)
  moreover obtain v w where "snd (Get demo_message 0) = Some w" "value_String w = Inr [48, 50, 48, 48]"
      "snd (Get demo_message 2) = Some v" "raw v = [49, 50, 51]"
    using demo_reads(1,2) by auto
  moreover have "[1..4] = [1, 2, 3, 4 :: int]" by (simp add: upto.simps)
  ultimately show ?thesis
    using validate_reports_all [OF demo_reach refl, of "\<lambda>_ _. True" demo_rules "NewCodec demo_schema []" "[]"] demo_reads(3,4)
    by (simp add: demo_rules_def NewCodec_def Field_def Let_def Bytes_def violate_def Luhn_def is_digit_def ex_disj_distrib conj_disj_distribR)
qed

end
