(* ===== verification/SchemaBuilder.thy ===== *)
theory SchemaBuilder
  imports MessageProps
begin

text \<open>
  The schema builder, \<^verbatim>\<open>src/iso8583/schema_builder.go\<close>. A builder is a value that the chained
  calls return updated; its two Go maps are association lists with unique keys, so the order in which
  \<open>Build\<close> reports the problems of different elements, unspecified in Go, is the order of the list. A
  \<open>FieldOpt\<close> is a function on definitions, as in the code.
\<close>

subsection \<open>Options\<close>

type_synonym field_opt = "field_def \<Rightarrow> field_def"

definition applyOpts :: "field_def \<Rightarrow> field_opt list \<Rightarrow> field_def" where
  "applyOpts d os = fold (\<lambda>f d. f d) os d"

definition kindOf :: "field_codec option \<Rightarrow> kind" where
  "kindOf c = (case c of None \<Rightarrow> KindInvalid | Some c \<Rightarrow> codec_Kind c)"

definition opt_MaxLen :: "int \<Rightarrow> field_opt" where
  "opt_MaxLen n d = FieldDef (Path d) (Name d) (Kind d) (Codec d) (Length d) n (DefScale d) (Pad d) (Validators d) (Required d) (Sub d)"

definition opt_Scale :: "nat \<Rightarrow> field_opt" where
  "opt_Scale n d = FieldDef (Path d) (Name d) (Kind d) (Codec d) (Length d) (MaxLen d) n (Pad d) (Validators d) (Required d) (Sub d)"

definition opt_Pad :: "pad_rule \<Rightarrow> field_opt" where
  "opt_Pad p d = FieldDef (Path d) (Name d) (Kind d) (Codec d) (Length d) (MaxLen d) (DefScale d) p (Validators d) (Required d) (Sub d)"

definition with_Required :: "required_rule \<Rightarrow> field_opt" where
  "with_Required r d = FieldDef (Path d) (Name d) (Kind d) (Codec d) (Length d) (MaxLen d) (DefScale d) (Pad d) (Validators d) r (Sub d)"

definition opt_Optional :: field_opt where
  "opt_Optional = with_Required \<lparr>Mode = RequiredOptional, MTIClasses = []\<rparr>"

definition MustExist :: field_opt where
  "MustExist = with_Required \<lparr>Mode = RequiredAlways, MTIClasses = []\<rparr>"

definition RequiredOn :: "bytes list \<Rightarrow> field_opt" where
  "RequiredOn cs = with_Required \<lparr>Mode = RequiredOnMTI, MTIClasses = cs\<rparr>"

definition opt_Validate :: "validator list \<Rightarrow> field_opt" where
  "opt_Validate vs d = FieldDef (Path d) (Name d) (Kind d) (Codec d) (Length d) (MaxLen d) (DefScale d) (Pad d) (Validators d @ vs) (Required d) (Sub d)"

definition WithCodec :: "field_codec option \<Rightarrow> field_opt" where
  "WithCodec c d = FieldDef (Path d) (Name d) (kindOf c) c (Length d) (MaxLen d) (DefScale d) (Pad d) (Validators d) (Required d) (Sub d)"

definition WithLength :: "length_codec option \<Rightarrow> field_opt" where
  "WithLength l d = FieldDef (Path d) (Name d) (Kind d) (Codec d) l (MaxLen d) (DefScale d) (Pad d) (Validators d) (Required d) (Sub d)"

definition WithComposite :: "schema option \<Rightarrow> field_opt" where
  "WithComposite s d = FieldDef (Path d) (Name d) KindComposite (Codec d) (Length d) (MaxLen d) (DefScale d) (Pad d) (Validators d) (Required d) s"

text \<open>A definition with the given identity and otherwise zero fields.\<close>

definition new_def :: "field_path \<Rightarrow> bytes \<Rightarrow> kind \<Rightarrow> field_codec option \<Rightarrow> length_codec option \<Rightarrow> schema option \<Rightarrow> field_def" where
  "new_def p nm k c l s =
     FieldDef p nm k c l 0 0 \<lparr>Side = PadNone, PadChar = 0\<rparr> [] \<lparr>Mode = RequiredOptional, MTIClasses = []\<rparr> s"

subsection \<open>The builder\<close>

datatype schema_err =
    DupDE int | DupTag bytes | OverrideUndefined int | EmptyID | DEOutOfRange int
  | NoValueCodec int | FixedNoMaxLen int | MaxLenExceeds int int | CompositeNoSub int
  | TagNoCodec bytes | TagMaxLenExceeds bytes int | NoBitmapCodec | LevelsOutOfRange int | NoMTICodec

record schema_builder =
  b_id :: bytes
  b_mti :: "field_def option"
  b_bitmap :: bitmap_spec
  b_defs :: "(int \<times> field_def) list"
  b_tags :: "(bytes \<times> field_def) list"
  b_order :: "bytes list"
  b_isTLV :: bool
  b_headerless :: bool
  b_errs :: "schema_err list"

record schema_error =
  SE_ID :: bytes
  SE_Errs :: "schema_err list"

definition NewSchema :: "bytes \<Rightarrow> schema_builder" where
  "NewSchema i = \<lparr>b_id = i, b_mti = None, b_bitmap = \<lparr>BmCodec = None, Levels = 0\<rparr>, b_defs = [], b_tags = [],
     b_order = [], b_isTLV = False, b_headerless = False, b_errs = []\<rparr>"

definition defaultMTILen :: int where
  "defaultMTILen = 4"

definition b_MTI :: "schema_builder \<Rightarrow> field_codec option \<Rightarrow> schema_builder" where
  "b_MTI b c = b\<lparr>b_mti := Some (opt_MaxLen defaultMTILen (new_def (DE 0) (bytes_of ''MTI'') (kindOf c) c None None))\<rparr>"

definition b_Bitmap :: "schema_builder \<Rightarrow> bitmap_spec \<Rightarrow> schema_builder" where
  "b_Bitmap b spec = b\<lparr>b_bitmap := spec\<rparr>"

definition Headerless :: "schema_builder \<Rightarrow> schema_builder" where
  "Headerless b = b\<lparr>b_headerless := True\<rparr>"

definition put_def :: "schema_builder \<Rightarrow> int \<Rightarrow> field_def \<Rightarrow> schema_builder" where
  "put_def b de d =
     (let b' = (if map_of (b_defs b) de \<noteq> None then b\<lparr>b_errs := b_errs b @ [DupDE de]\<rparr> else b)
      in b'\<lparr>b_defs := AList.update de d (b_defs b')\<rparr>)"

definition b_Field :: "schema_builder \<Rightarrow> int \<Rightarrow> bytes \<Rightarrow> field_codec option \<Rightarrow> length_codec option \<Rightarrow> field_opt list \<Rightarrow> schema_builder" where
  "b_Field b de nm c l os = put_def b de (applyOpts (new_def (DE de) nm (kindOf c) c l None) os)"

definition b_Composite :: "schema_builder \<Rightarrow> int \<Rightarrow> bytes \<Rightarrow> schema option \<Rightarrow> length_codec option \<Rightarrow> field_opt list \<Rightarrow> schema_builder" where
  "b_Composite b de nm s l os = put_def b de (applyOpts (new_def (DE de) nm KindComposite None l s) os)"

definition b_Tag :: "schema_builder \<Rightarrow> bytes \<Rightarrow> bytes \<Rightarrow> field_codec option \<Rightarrow> field_opt list \<Rightarrow> schema_builder" where
  "b_Tag b tag nm c os =
     (let key = ToUpper tag; d = applyOpts (new_def [\<lparr>N = -1, Tag = key\<rparr>] nm (kindOf c) c None None) os;
          b' = (if map_of (b_tags b) key \<noteq> None then b\<lparr>b_errs := b_errs b @ [DupTag key]\<rparr>
                else b\<lparr>b_order := b_order b @ [key]\<rparr>)
      in b'\<lparr>b_tags := AList.update key d (b_tags b'), b_isTLV := True\<rparr>)"

definition b_Override :: "schema_builder \<Rightarrow> int \<Rightarrow> field_opt list \<Rightarrow> schema_builder" where
  "b_Override b de os =
     (case map_of (b_defs b) de of
        None \<Rightarrow> b\<lparr>b_errs := b_errs b @ [OverrideUndefined de]\<rparr>
      | Some d \<Rightarrow> b\<lparr>b_defs := AList.update de (applyOpts d os) (b_defs b)\<rparr>)"

subsection \<open>Build\<close>

definition maxFieldUnits :: int where
  "maxFieldUnits = 2 ^ 20"

definition validateDef :: "int \<Rightarrow> field_def \<Rightarrow> schema_err list" where
  "validateDef de d =
     (if Sub d = None \<and> Codec d = None then [NoValueCodec de] else [])
     @ (if Length d = None \<and> Sub d = None \<and> MaxLen d \<le> 0 then [FixedNoMaxLen de] else [])
     @ (if MaxLen d > maxFieldUnits then [MaxLenExceeds de (MaxLen d)] else [])
     @ (if Kind d = KindComposite \<and> Sub d = None then [CompositeNoSub de] else [])"

definition validateTagDef :: "bytes \<Rightarrow> field_def \<Rightarrow> schema_err list" where
  "validateTagDef key d =
     (if Codec d = None \<and> Sub d = None then [TagNoCodec key]
      else if MaxLen d > maxFieldUnits then [TagMaxLenExceeds key (MaxLen d)]
      else [])"

text \<open>The loop over the element map: the errors and the largest element in range.\<close>

fun build_defs :: "(int \<times> field_def) list \<Rightarrow> int \<Rightarrow> schema_err list \<times> int" where
  "build_defs [] mx = ([], mx)"
| "build_defs ((de, d) # ds) mx =
     (if de < 1 \<or> de > maxDEIndex then (case build_defs ds mx of (es, mx') \<Rightarrow> (DEOutOfRange de # es, mx'))
      else (case build_defs ds (if de > mx then de else mx) of (es, mx') \<Rightarrow> (validateDef de d @ es, mx')))"

definition build_errors :: "schema_builder \<Rightarrow> schema_err list" where
  "build_errors b =
     b_errs b
     @ (if b_id b = [] then [EmptyID] else [])
     @ fst (build_defs (b_defs b) 0)
     @ concat (map (\<lambda>key. validateTagDef key (the (map_of (b_tags b) key))) (b_order b))
     @ (if b_isTLV b then []
        else (if BmCodec (b_bitmap b) = None then [NoBitmapCodec] else [])
          @ (if Levels (b_bitmap b) < 1 \<or> Levels (b_bitmap b) > 3 then [LevelsOutOfRange (Levels (b_bitmap b))] else [])
          @ (if b_mti b = None \<and> \<not> b_headerless b then [NoMTICodec] else []))"

definition Build :: "schema_builder \<Rightarrow> schema_error + schema" where
  "Build b =
     (if build_errors b \<noteq> [] then Inl \<lparr>SE_ID = b_id b, SE_Errs = build_errors b\<rparr>
      else let mx = snd (build_defs (b_defs b) 0) in
        Inr (Schema (b_id b) (b_mti b) (b_bitmap b) (map (map_of (b_defs b)) [0..mx]) (b_tags b) mx (b_isTLV b)))"

definition MustBuild :: "schema_builder \<Rightarrow> schema option" where
  "MustBuild b = (case Build b of Inl _ \<Rightarrow> None | Inr s \<Rightarrow> Some s)"

text \<open>\<open>Derive\<close>; copying a definition (\<open>clone\<close>) gives an equal value.\<close>

definition Derive :: "schema \<Rightarrow> bytes \<Rightarrow> schema_builder" where
  "Derive s i =
     (let b = NewSchema i in
      b\<lparr>b_bitmap := bitmap_of s, b_isTLV := isTLV s, b_headerless := (mti s = None \<and> \<not> isTLV s), b_mti := mti s,
        b_defs := List.map_filter (\<lambda>de. case defs s ! nat de of None \<Rightarrow> None | Some d \<Rightarrow> Some (de, d))
          [0..int (length (defs s)) - 1],
        b_tags := schema_tags s, b_order := map fst (schema_tags s)\<rparr>)"

subsection \<open>What the loop computes\<close>

definition def_ok :: "int \<times> field_def \<Rightarrow> bool" where
  "def_ok e \<longleftrightarrow> 1 \<le> fst e \<and> fst e \<le> 192 \<and> validateDef (fst e) (snd e) = []"

lemma build_defs_errs: "fst (build_defs ds mx) = [] \<longleftrightarrow> list_all def_ok ds"
  by (induction ds mx rule: build_defs.induct) (auto simp: def_ok_def maxDEIndex_def split: prod.split)

lemma build_defs_max:
  "list_all def_ok ds \<Longrightarrow> mx \<le> snd (build_defs ds mx) \<and> (\<forall>e \<in> set ds. fst e \<le> snd (build_defs ds mx))
    \<and> (snd (build_defs ds mx) = mx \<or> snd (build_defs ds mx) \<in> fst ` set ds)"
proof (induction ds mx rule: build_defs.induct)
  case (2 de d ds mx)
  then have "def_ok (de, d)" "list_all def_ok ds" by simp_all
  then have "1 \<le> de" "de \<le> maxDEIndex" "list_all def_ok ds" by (simp_all add: def_ok_def maxDEIndex_def)
  with 2(2) show ?case by (cases "build_defs ds (if mx < de then de else mx)") (force split: if_splits)
qed simp

subsection \<open>Builders a client can hold\<close>

inductive builder :: "schema_builder \<Rightarrow> bool" where
  start: "builder (NewSchema i)"
| derive: "distinct (map fst (schema_tags s)) \<Longrightarrow> (\<forall>d \<in> set_option (mti s). Length d = None \<and> MaxLen d = defaultMTILen) \<Longrightarrow> builder (Derive s i)"
| mti_codec: "builder b \<Longrightarrow> builder (b_MTI b c)"
| bitmap_spec: "builder b \<Longrightarrow> builder (b_Bitmap b spec)"
| headerless: "builder b \<Longrightarrow> builder (Headerless b)"
| field: "builder b \<Longrightarrow> builder (b_Field b de nm c l os)"
| composite: "builder b \<Longrightarrow> builder (b_Composite b de nm sc l os)"
| tag: "builder b \<Longrightarrow> builder (b_Tag b t nm c os)"
| override: "builder b \<Longrightarrow> builder (b_Override b de os)"

definition wf_builder :: "schema_builder \<Rightarrow> bool" where
  "wf_builder b \<longleftrightarrow> distinct (map fst (b_defs b)) \<and> distinct (map fst (b_tags b)) \<and> set (b_order b) = fst ` set (b_tags b)
    \<and> (\<forall>d \<in> set_option (b_mti b). Length d = None \<and> MaxLen d = defaultMTILen)"

lemma wf_put_def: "wf_builder b \<Longrightarrow> wf_builder (put_def b de d)"
  by (simp add: wf_builder_def put_def_def Let_def distinct_update)

lemma builder_wf: "builder b \<Longrightarrow> wf_builder b"
proof (induction rule: builder.induct)
  case (derive s i)
  then show ?case
    by (auto simp: wf_builder_def Derive_def NewSchema_def Let_def split: option.splits intro!: map_filter_fst_distinct)
next
  case (tag b t nm c os)
  then show ?case
    by (auto simp: wf_builder_def b_Tag_def Let_def distinct_update dom_update map_of_eq_None_iff)
next
  case (override b de os)
  then show ?case by (simp add: wf_builder_def b_Override_def distinct_update split: option.split)
qed (simp_all add: wf_put_def b_Field_def b_Composite_def,
     simp_all add: wf_builder_def NewSchema_def b_MTI_def b_Bitmap_def Headerless_def new_def_def opt_MaxLen_def)

subsection \<open>What a built schema has\<close>

lemma Build_ok:
  assumes "Build b = Inr s"
  shows "list_all def_ok (b_defs b)" "b_id b \<noteq> []"
    and "\<forall>key \<in> set (b_order b). validateTagDef key (the (map_of (b_tags b) key)) = []"
    and "b_isTLV b \<or> BmCodec (b_bitmap b) \<noteq> None \<and> 1 \<le> Levels (b_bitmap b) \<and> Levels (b_bitmap b) \<le> 3"
    and "s = Schema (b_id b) (b_mti b) (b_bitmap b) (map (map_of (b_defs b)) [0..snd (build_defs (b_defs b) 0)]) (b_tags b)
      (snd (build_defs (b_defs b) 0)) (b_isTLV b)"
proof -
  have e: "build_errors b = []" using assms by (auto simp: Build_def Let_def split: if_splits)
  then show "list_all def_ok (b_defs b)" "b_id b \<noteq> []"
    and "\<forall>key \<in> set (b_order b). validateTagDef key (the (map_of (b_tags b) key)) = []"
    and "b_isTLV b \<or> BmCodec (b_bitmap b) \<noteq> None \<and> 1 \<le> Levels (b_bitmap b) \<and> Levels (b_bitmap b) \<le> 3"
    unfolding build_errors_def by (simp_all add: build_defs_errs split: if_splits)
  show "s = Schema (b_id b) (b_mti b) (b_bitmap b) (map (map_of (b_defs b)) [0..snd (build_defs (b_defs b) 0)]) (b_tags b)
      (snd (build_defs (b_defs b) 0)) (b_isTLV b)"
    using assms e by (simp add: Build_def Let_def)
qed

lemma Build_Field:
  assumes "Build b = Inr s" "builder b"
  shows "0 \<le> maxDE s \<and> maxDE s \<le> 192 \<and> int (length (defs s)) = maxDE s + 1"
    and "Model.Field s de = (if de = 0 then b_mti b else map_of (b_defs b) de)"
    and "d \<in> schema_defs s \<longleftrightarrow> b_mti b = Some d \<or> d \<in> snd ` set (b_defs b)"
proof -
  let ?mx = "snd (build_defs (b_defs b) 0)"
  note ok = Build_ok(1) [OF assms(1)] and s = Build_ok(5) [OF assms(1)]
  note mx = build_defs_max [OF ok, of 0]
  have keys: "1 \<le> k \<and> k \<le> 192 \<and> k \<le> ?mx" if "(k, d) \<in> set (b_defs b)" for k d
    using that ok mx by (force simp: list_all_iff def_ok_def)
  have "?mx \<le> 192" using mx keys by auto
  with mx s show "0 \<le> maxDE s \<and> maxDE s \<le> 192 \<and> int (length (defs s)) = maxDE s + 1" by simp
  have none: "map_of (b_defs b) de = None" if "de \<le> 0 \<or> de > ?mx" for de
    using that keys [of de] by (cases "map_of (b_defs b) de") (auto dest!: map_of_SomeD)
  then show "Model.Field s de = (if de = 0 then b_mti b else map_of (b_defs b) de)"
    using mx s by (auto simp: Field_def nth_upto)
  have "distinct (map fst (b_defs b))" using builder_wf [OF assms(2)] by (simp add: wf_builder_def)
  then have is_Some: "map_of (b_defs b) k = Some d \<longleftrightarrow> (k, d) \<in> set (b_defs b)" for k by simp
  have "Some d \<in> set (defs s) \<longleftrightarrow> (\<exists>k. 0 \<le> k \<and> k \<le> ?mx \<and> map_of (b_defs b) k = Some d)"
    using s by (auto simp: image_iff intro!: bexI)
  also have "\<dots> \<longleftrightarrow> d \<in> snd ` set (b_defs b)"
  proof
    assume "d \<in> snd ` set (b_defs b)"
    then obtain k where k: "(k, d) \<in> set (b_defs b)" by force
    show "\<exists>k. 0 \<le> k \<and> k \<le> ?mx \<and> map_of (b_defs b) k = Some d"
      using k keys [OF k] by (intro exI [of _ k]) (simp add: is_Some)
  qed (force simp: is_Some)
  finally have "Some d \<in> set (defs s) \<longleftrightarrow> d \<in> snd ` set (b_defs b)" .
  then show "d \<in> schema_defs s \<longleftrightarrow> b_mti b = Some d \<or> d \<in> snd ` set (b_defs b)"
    using s by (auto simp: schema_defs_def)
qed

lemma Build_defs_ok:
  assumes "Build b = Inr s" "d \<in> snd ` set (b_defs b)"
  shows "(Codec d \<noteq> None \<or> Sub d \<noteq> None) \<and> (Length d = None \<and> Sub d = None \<longrightarrow> 0 < MaxLen d)
    \<and> MaxLen d \<le> maxFieldUnits \<and> (Kind d = KindComposite \<longrightarrow> Sub d \<noteq> None)"
proof -
  obtain de where "(de, d) \<in> set (b_defs b)" using assms(2) by force
  with Build_ok(1) [OF assms(1)] have "validateDef de d = []" by (force simp: list_all_iff def_ok_def)
  then show ?thesis unfolding validateDef_def by (auto split: if_split_asm)
qed

lemma upto_filter_id: "map_of (List.map_filter (\<lambda>k. case f k of None \<Rightarrow> None | Some d \<Rightarrow> Some (k, d)) ks) k
    = (if k \<in> set ks then f k else None)"
  by (induction ks) (auto simp: List.map_filter_simps split: option.split)

lemma Derive_sel:
  "b_id (Derive s i) = i" "b_mti (Derive s i) = mti s" "b_bitmap (Derive s i) = bitmap_of s" "b_isTLV (Derive s i) = isTLV s"
  "b_tags (Derive s i) = schema_tags s" "b_order (Derive s i) = map fst (schema_tags s)" "b_errs (Derive s i) = []"
  "b_headerless (Derive s i) = (mti s = None \<and> \<not> isTLV s)"
  by (simp_all add: Derive_def NewSchema_def Let_def)

lemma Derive_defs:
  assumes "0 \<le> maxDE s" "int (length (defs s)) = maxDE s + 1"
  shows "map_of (b_defs (Derive s i)) k = (if 0 \<le> k \<and> k \<le> maxDE s then defs s ! nat k else None)"
  using assms by (simp add: Derive_def NewSchema_def Let_def upto_filter_id)

lemma Derive_distinct: "distinct (map fst (b_defs (Derive s i)))"
  by (auto simp: Derive_def NewSchema_def Let_def split: option.splits intro!: map_filter_fst_distinct)

lemma max_unique:
  assumes "list_all def_ok ds" "list_all def_ok ds'" "fst ` set ds = fst ` set ds'"
  shows "snd (build_defs ds 0) = snd (build_defs ds' 0)"
proof -
  note m = build_defs_max [OF assms(1), of 0] build_defs_max [OF assms(2), of 0]
  have "snd (build_defs ds 0) \<le> snd (build_defs ds' 0)" using m assms(3) by auto
  moreover have "snd (build_defs ds' 0) \<le> snd (build_defs ds 0)" using m by (auto simp: assms(3) [symmetric])
  ultimately show ?thesis by simp
qed

lemma map_of_same_set:
  "distinct (map fst xs) \<Longrightarrow> distinct (map fst ys) \<Longrightarrow> map_of xs = map_of ys \<Longrightarrow> set xs = set ys"
proof -
  assume a: "distinct (map fst xs)" "distinct (map fst ys)" "map_of xs = map_of ys"
  have "(k, v) \<in> set xs \<longleftrightarrow> (k, v) \<in> set ys" for k v using a by (metis map_of_eq_Some_iff)
  then show ?thesis by auto
qed

lemma Derive_same_defs:
  assumes "builder b" "Build b = Inr s"
  shows "map_of (b_defs (Derive s i)) = map_of (b_defs b)"
    and "set (b_defs (Derive s i)) = set (b_defs b)"
proof -
  note f = Build_Field [OF assms(2,1)]
  note s0 = Build_ok(1,5) [OF assms(2)]
  have "map_of (b_defs b) k = None" if "k < 0 \<or> maxDE s < k" for k
    using that s0 build_defs_max [OF s0(1), of 0] by (force simp: map_of_eq_None_iff list_all_iff def_ok_def)
  moreover have "defs s ! nat k = map_of (b_defs b) k" if "0 \<le> k" "k \<le> maxDE s" for k
    using that s0(2) by (simp add: nth_upto)
  ultimately show eq: "map_of (b_defs (Derive s i)) = map_of (b_defs b)"
    using f(1) by (intro ext) (auto simp: Derive_defs)
  have "distinct (map fst (b_defs b))" using builder_wf [OF assms(1)] by (simp add: wf_builder_def)
  with eq Derive_distinct [of s i] show "set (b_defs (Derive s i)) = set (b_defs b)"
    by (intro map_of_same_set)
qed

subsection \<open>A small schema\<close>

definition demo_builder :: schema_builder where
  "demo_builder = b_Composite (b_Field (b_Bitmap (b_MTI (NewSchema [97]) (Some NumASCII)) \<lparr>BmCodec = Some BinWord, Levels = 1\<rparr>)
     2 [] (Some NumASCII) (Some LLVarASCII) [opt_MaxLen 19]) 5 [] (Some demo_sub) (Some LLVarASCII) []"

definition demo_built :: schema where
  "demo_built = Schema [97] (Some (opt_MaxLen 4 (new_def (DE 0) (bytes_of ''MTI'') KindNumeric (Some NumASCII) None None)))
     \<lparr>BmCodec = Some BinWord, Levels = 1\<rparr>
     [None, None, Some (opt_MaxLen 19 (new_def (DE 2) [] KindNumeric (Some NumASCII) (Some LLVarASCII) None)), None, None,
      Some (new_def (DE 5) [] KindComposite None (Some LLVarASCII) (Some demo_sub))] [] 5 False"

lemma demo_builder: "builder demo_builder"
  unfolding demo_builder_def by (intro builder.intros)

lemmas builder_defs = NewSchema_def b_MTI_def b_Bitmap_def b_Field_def b_Composite_def put_def_def applyOpts_def kindOf_def
  codec_Kind_def defaultMTILen_def Let_def

lemma demo_Build: "Build demo_builder = Inr demo_built"
proof -
  have "[0..5::int] = [0, 1, 2, 3, 4, 5]" by code_simp
  then show ?thesis
    by (simp add: demo_builder_def demo_built_def builder_defs Build_def build_errors_def validateDef_def maxDEIndex_def
      maxFieldUnits_def opt_MaxLen_def new_def_def)
qed

subsection \<open>Properties\<close>

text \<open>A schema is built only when nothing is wrong, and what it then guarantees the engine: its
  definitions are the wired ones, indexed by element within 1..192; each has a codec or a sub-schema, a
  positive width if it is a fixed scalar, and at most the unit limit; a positional schema has a bitmap codec
  and one to three levels.\<close>

theorem Build_guarantees:
  assumes "builder b" "Build b = Inr s"
  shows "0 \<le> maxDE s \<and> maxDE s \<le> 192 \<and> int (length (defs s)) = maxDE s + 1
    \<and> (\<forall>de. Model.Field s de = (if de = 0 then b_mti b else map_of (b_defs b) de))
    \<and> (\<forall>de d. de \<noteq> 0 \<and> Model.Field s de = Some d \<longrightarrow> 1 \<le> de \<and> de \<le> maxDE s
        \<and> (Codec d \<noteq> None \<or> Sub d \<noteq> None) \<and> (Length d = None \<and> Sub d = None \<longrightarrow> 0 < MaxLen d)
        \<and> MaxLen d \<le> 2 ^ 20 \<and> (Kind d = KindComposite \<longrightarrow> Sub d \<noteq> None))
    \<and> (\<not> isTLV s \<longrightarrow> BmCodec (bitmap_of s) \<noteq> None \<and> 1 \<le> Levels (bitmap_of s) \<and> Levels (bitmap_of s) \<le> 3)"
proof -
  note f = Build_Field [OF assms(2,1)]
  have "1 \<le> de \<and> de \<le> maxDE s" if "de \<noteq> 0" "Model.Field s de = Some d" for de d
    using that f(1) by (auto simp: Field_def split: if_splits)
  moreover have "d \<in> snd ` set (b_defs b)" if "de \<noteq> 0" "Model.Field s de = Some d" for de d
    using that f(2) [of de] by (force dest: map_of_SomeD)
  note Build_defs_ok [OF assms(2) this]
  moreover have "\<not> isTLV s \<longrightarrow> BmCodec (bitmap_of s) \<noteq> None \<and> 1 \<le> Levels (bitmap_of s) \<and> Levels (bitmap_of s) \<le> 3"
    using Build_ok(4,5) [OF assms(2)] by auto
  ultimately show ?thesis using f(1,2) by (simp add: maxFieldUnits_def)
qed

theorem Build_guarantees_witness: "Model.Field demo_built 5 = map_of (b_defs demo_builder) 5 \<and> maxDE demo_built \<le> 192"
  using Build_guarantees [OF demo_builder demo_Build] by simp

text \<open>The spans of a built schema.\<close>

lemma Build_wf_spans:
  assumes "builder b" "Build b = Inr s"
    and "\<forall>d l. d \<in> schema_defs s \<and> Length d = Some l \<longrightarrow> l \<in> set All_lengths"
  shows "wf_spans s \<longleftrightarrow> (\<forall>d. d \<in> schema_defs s \<and> Length d = None \<and> Sub d \<noteq> None \<longrightarrow> 0 \<le> MaxLen d)" (is "_ \<longleftrightarrow> ?nonneg")
proof
  note f = Build_Field [OF assms(2,1)]
  show ?nonneg if "wf_spans s" using that by (auto simp: wf_spans_def wf_span_def schema_defs_def)
  assume nn: ?nonneg
  have "wf_span d" if "d \<in> schema_defs s" for d
  proof (cases "Length d")
    case None
    from that f(3) [of d] consider "b_mti b = Some d" | "d \<in> snd ` set (b_defs b)" by blast
    then have "0 \<le> MaxLen d"
    proof cases
      case 1
      then show ?thesis using builder_wf [OF assms(1)] by (simp add: wf_builder_def defaultMTILen_def)
    next
      case 2
      then show ?thesis using Build_defs_ok [OF assms(2) 2] nn that None by (cases "Sub d") auto
    qed
    with None show ?thesis by (simp add: wf_span_def)
  next
    case (Some l)
    with assms(3) that catalog_wf [of l] show ?thesis by (auto simp: wf_span_def)
  qed
  then show "wf_spans s" using f(1) by (auto simp: wf_spans_def schema_defs_def)
qed

lemma Build_parse_safe:
  assumes "builder b" "Build b = Inr s"
    and "\<forall>d l. d \<in> schema_defs s \<and> Length d = Some l \<longrightarrow> l \<in> set All_lengths"
    and "\<forall>d. d \<in> schema_defs s \<and> Length d = None \<and> Sub d \<noteq> None \<longrightarrow> 0 \<le> MaxLen d"
  shows "wf_spans s \<and> (\<forall>os wire m. Unmarshal (NewCodec s os) wire = Inr m \<longrightarrow> msg_inv m)"
  using Build_wf_spans [OF assms(1-3)] assms(4) msg_inv_Unmarshal by (auto simp: NewCodec_def)



text \<open>The condition is not empty: a schema with a composite of length -5 and no prefix is built, and a message with that
  element parses to a span that ends before it starts, which cannot be sliced.\<close>

definition negative_built :: schema where
  "negative_built = Schema [110] (Some (opt_MaxLen 4 (new_def (DE 0) (bytes_of ''MTI'') KindNumeric (Some NumASCII) None None))) \<lparr>BmCodec = Some BinWord, Levels = 1\<rparr>
     [None, None, None, None, None, Some (opt_MaxLen (-5) (new_def (DE 5) [] KindComposite None None (Some demo_sub)))] [] 5 False"

definition negative_wire :: bytes where
  "negative_wire = [48, 50, 48, 48] @ [8, 0, 0, 0, 0, 0, 0, 0]"

lemma negative_parse:
  "Unmarshal (NewCodec negative_built []) negative_wire = Inr (Message (Some negative_built) (Some negative_wire) (Bitmap.Set bitmap0 5)
     [span_slot 0 0 4 4, slot0, slot0, slot0, slot0, span_slot 12 12 7 (-5)] False bitmap0 False [] [])"
proof -
  let ?d0 = "opt_MaxLen 4 (new_def (DE 0) (bytes_of ''MTI'') KindNumeric (Some NumASCII) None None)"
    and ?d5 = "opt_MaxLen (-5) (new_def (DE 5) [] KindComposite None None (Some demo_sub))"
  have "ReadBitmap BinWord negative_wire 4 1 = Inr (Bitmap.Set bitmap0 5, 12)"
    by (simp add: ReadBitmap_def negative_wire_def wireLen_def repr_get_def slice_def Let_def)
      (simp add: put_word_def bitmap0_def Uint64_def Bitmap.Set_def wordBit_def maxDEIndex_def word_at_def be_val_def)
  moreover have "data_elements (Bitmap.Set bitmap0 5) = [5]"
    by (rule data_elements_eqI) (auto simp: IsSet_Set IsSet_empty in_range_def is_data_def contSecondary_def contTertiary_def)
  moreover have "fieldBodySpan ?d0 negative_wire 0 = Inr (0, 4, 4, 4)" "fieldBodySpan ?d5 negative_wire 12 = Inr (12, 7, 7, -5)"
    by (simp_all add: fieldBodySpan_def opt_MaxLen_def new_def_def negative_wire_def wireBytes_def BodyBytes_def)
  moreover have "Model.Field negative_built 5 = Some ?d5" "mti negative_built = Some ?d0" "maxDE negative_built = 5"
      "bitmap_of negative_built = \<lparr>BmCodec = Some BinWord, Levels = 1\<rparr>"
    by (simp_all add: negative_built_def Field_def)
  moreover have "replicate 6 slot0 = [slot0, slot0, slot0, slot0, slot0, slot0]" by (simp add: eval_nat_numeral)
  ultimately show ?thesis
    by (simp add: Unmarshal_walk Let_def NewCodec_def unmarshal_mti_def newDecoded_def put_slots_def with_defs)
qed

theorem negative_composite_bad_span:
  "Build (b_Composite (b_Bitmap (b_MTI (NewSchema [110]) (Some NumASCII)) \<lparr>BmCodec = Some BinWord, Levels = 1\<rparr>) 5 [] (Some demo_sub) None [opt_MaxLen (-5)])
     = Inr negative_built"
  "\<exists>m. Unmarshal (NewCodec negative_built []) negative_wire = Inr m \<and> Has m 5 \<and> fromSrc (slots m ! 5)
     \<and> \<not> slice_ok negative_wire (bodyOff (slots m ! 5)) (bodyEnd (slots m ! 5))"
proof -
  have "[0..5::int] = [0, 1, 2, 3, 4, 5]" by code_simp
  then show "Build (b_Composite (b_Bitmap (b_MTI (NewSchema [110]) (Some NumASCII)) \<lparr>BmCodec = Some BinWord, Levels = 1\<rparr>) 5 [] (Some demo_sub) None [opt_MaxLen (-5)])
     = Inr negative_built"
    by (simp add: negative_built_def builder_defs Build_def build_errors_def validateDef_def maxDEIndex_def
      maxFieldUnits_def opt_MaxLen_def new_def_def)
  show "\<exists>m. Unmarshal (NewCodec negative_built []) negative_wire = Inr m \<and> Has m 5 \<and> fromSrc (slots m ! 5)
     \<and> \<not> slice_ok negative_wire (bodyOff (slots m ! 5)) (bodyEnd (slots m ! 5))"
    unfolding negative_parse by (simp add: Has_def span_slot_def slice_ok_def eval_nat_numeral)
qed

text \<open>Deriving from a built schema and building again, with no overlay, gives the same schema under the
  new identifier.\<close>

theorem Derive_Build:
  assumes "builder b" "Build b = Inr s" "i \<noteq> []"
  shows "Build (Derive s i) = Inr (Schema i (mti s) (bitmap_of s) (defs s) (schema_tags s) (maxDE s) (isTLV s))"
proof -
  note b = Build_ok [OF assms(2)]
  note same = Derive_same_defs [OF assms(1,2), of i]
  have ok: "list_all def_ok (b_defs (Derive s i))" using b(1) same(2) by (simp add: list_all_iff)
  have mx: "snd (build_defs (b_defs (Derive s i)) 0) = snd (build_defs (b_defs b) 0)"
    using ok b(1) same(2) by (intro max_unique) simp_all
  have "set (b_order b) = fst ` set (b_tags b)" using builder_wf [OF assms(1)] by (simp add: wf_builder_def)
  then have "build_errors (Derive s i) = []"
    using b assms(3) ok by (cases "b_isTLV b") (auto simp: build_errors_def Derive_sel build_defs_errs)
  moreover have "mti s = b_mti b" "defs s = map (map_of (b_defs b)) [0..snd (build_defs (b_defs b) 0)]"
      "maxDE s = snd (build_defs (b_defs b) 0)"
    by (simp_all add: b(5))
  ultimately show ?thesis by (simp add: Build_def Let_def Derive_sel mx same(1))
qed

theorem Derive_Build_witness:
  "Build (Derive demo_built [98]) = Inr (Schema [98] (mti demo_built) (bitmap_of demo_built) (defs demo_built)
     (schema_tags demo_built) (maxDE demo_built) (isTLV demo_built))"
  by (rule Derive_Build [OF demo_builder demo_Build]) simp

text \<open>An element wired with \<open>Composite\<close> and no further option has no value codec, and the engine does not
  fall back to its sub-schema: a subfield written into the absent element is accepted, but the element is
  encoded with an empty body, so the write is lost.\<close>

theorem composite_without_codec_drops_write:
  assumes "def = applyOpts (new_def (DE (N e1)) nm KindComposite None l (Some cs)) []"
    and "\<not> sealed m" "mschema m = Some s" "\<not> isTLV s" "\<not> IsTag e1" "N e1 \<noteq> 0" "Model.Field s (N e1) = Some def"
    and "N e1 < int (length (slots m))" "\<not> Has m (N e1)" "SetP m [e1, e2] v = (m', None)"
  shows "Has m' (N e1) \<and> appendField enc dst def (slots m' ! nat (N e1)) (src m') =
    (case l of None \<Rightarrow> Inr dst
     | Some lc \<Rightarrow> (case WriteLen lc dst 0 def of Inl e \<Rightarrow> Inl (FieldError (Path def) (-1) nm e) | Inr out \<Rightarrow> Inr out))"
proof -
  have pos: "0 \<le> N e1" using assms(6,7) by (auto simp: Field_def split: if_splits)
  have d: "Sub def = Some cs" "Codec def = None" "Length def = l" "Name def = nm"
    using assms(1) by (simp_all add: applyOpts_def new_def_def)
  define child where "child = (if isTLV cs then NewTLV (Some cs) else New cs)"
  obtain child' r where ch: "SetP child [e2] v = (child', r)" by (cases "SetP child [e2] v")
  let ?m1 = "mark_set (with_owned (put_slot m (N e1) (written_slot (slots m ! nat (N e1)) (CompositeValue [] child))) True) (N e1)"
  have "ensureChild m (N e1) def = (?m1, Inr child)"
    using assms(8,9) d pos by (simp add: ensureChild_def existing_child_def Has_def child_def Let_def)
  then have "SetP m [e1, e2] v = (put_child ?m1 (N e1) child', r)"
    using assms(2-7) d ch
    by (subst SetP.simps(2)) (simp add: is_TLV_message_def message_def_def del: SetP.simps)
  then have m': "m' = put_child ?m1 (N e1) child'" using assms(10) by simp
  show ?thesis
    using assms(8) pos d
    by (simp add: m' put_child_def Let_def Has_def appendField_def CompositeValue_def encodeUnits_def written_slot_def
        split: option.split sum.split)
qed

theorem composite_without_codec_drops_write_witness:
  "\<exists>m'. SetP (New demo_built) [\<lparr>N = 5, Tag = []\<rparr>, \<lparr>N = 2, Tag = []\<rparr>] (AInt 7) = (m', None)
    \<and> appendField EncodeBody [] (new_def (DE 5) [] KindComposite None (Some LLVarASCII) (Some demo_sub)) (slots m' ! 5) (src m')
      = Inr [48, 48]"
proof -
  let ?def = "new_def (DE 5) [] KindComposite None (Some LLVarASCII) (Some demo_sub)"
  have "snd (SetP (New demo_built) [\<lparr>N = 5, Tag = []\<rparr>, \<lparr>N = 2, Tag = []\<rparr>] (AInt 7)) = None"
    by code_simp
  then obtain m' where m': "SetP (New demo_built) [\<lparr>N = 5, Tag = []\<rparr>, \<lparr>N = 2, Tag = []\<rparr>] (AInt 7) = (m', None)"
    by (metis prod.collapse)
  have f: "Model.Field demo_built 5 = Some ?def" by (simp add: demo_built_def Field_def)
  have n: "\<not> sealed (New demo_built)" "mschema (New demo_built) = Some demo_built" "\<not> isTLV demo_built"
      "5 < int (length (slots (New demo_built)))" "\<not> Has (New demo_built) 5"
    by (simp_all add: New_def demo_built_def Has_def)
  have w: "WriteLen LLVarASCII [] 0 ?def = Inr [48, 48]" by code_simp
  from composite_without_codec_drops_write [of ?def "\<lparr>N = 5, Tag = []\<rparr>" "[]" "Some LLVarASCII" demo_sub "New demo_built" demo_built
      "\<lparr>N = 2, Tag = []\<rparr>" "AInt 7" m' EncodeBody "[]"] f n m' w
  show ?thesis by (simp add: applyOpts_def IsTag_def del: SetP.simps)
qed

end
