(* ===== verification/PackagerTables.thy ===== *)
theory PackagerTables
  imports SchemaBuilder
begin

text \<open>
  The data-element directories of the built-in profiles in \<^verbatim>\<open>src/packager\<close>, row by row: the 1987
  directory shared by the three representations, and the Postilion, CoralPay and Zone layouts with the
  subfields of element 127.
\<close>

subsection \<open>Rows\<close>

datatype dataType = tNum | tAlpha | tBinary | tAmount | tEMV

datatype lenType = lFixed | lLL | lLLL

record fieldSpec =
  fs_de :: int
  fs_name :: bytes
  fs_typ :: dataType
  fs_ln :: lenType
  fs_max :: int
  fs_scale :: nat

definition fieldSpec_of :: "int \<Rightarrow> string \<Rightarrow> dataType \<Rightarrow> lenType \<Rightarrow> int \<Rightarrow> nat \<Rightarrow> fieldSpec" where
  "fieldSpec_of de nm t l mx sc = \<lparr>fs_de = de, fs_name = bytes_of nm, fs_typ = t, fs_ln = l, fs_max = mx, fs_scale = sc\<rparr>"

record postField =
  pf_de :: int
  pf_name :: bytes
  pf_value :: field_codec
  pf_length :: "length_codec option"
  pf_max :: int

definition postField_of :: "int \<Rightarrow> string \<Rightarrow> field_codec \<Rightarrow> length_codec option \<Rightarrow> int \<Rightarrow> postField" where
  "postField_of de nm v l mx = \<lparr>pf_de = de, pf_name = bytes_of nm, pf_value = v, pf_length = l, pf_max = mx\<rparr>"

definition pNum :: field_codec where "pNum = NumASCII"

definition pChr :: field_codec where "pChr = Ascii"

definition pBin :: field_codec where "pBin = BinaryRaw"

definition pHex :: field_codec where "pHex = HexBinary"

definition pFix :: "length_codec option" where "pFix = None"

definition pLL :: "length_codec option" where "pLL = Some LLVarASCII"

definition pLLL :: "length_codec option" where "pLLL = Some LLLVarASCII"

definition pLLLL :: "length_codec option" where "pLLLL = Some LLLLVarASCII"

definition pLLLLL :: "length_codec option" where "pLLLLL = Some LLLLLVarASCII"

definition pLLLLLL :: "length_codec option" where "pLLLLLL = Some LLLLLLVarASCII"

subsection \<open>Directories\<close>

definition iso87Dir :: "fieldSpec list" where
  "iso87Dir =
    [fieldSpec_of 2 ''Primary Account Number'' tNum lLL 19 0,
     fieldSpec_of 3 ''Processing Code'' tNum lFixed 6 0,
     fieldSpec_of 4 ''Amount, Transaction'' tAmount lFixed 12 0,
     fieldSpec_of 5 ''Amount, Settlement'' tAmount lFixed 12 0,
     fieldSpec_of 6 ''Amount, Cardholder Billing'' tAmount lFixed 12 0,
     fieldSpec_of 7 ''Transmission Date and Time'' tNum lFixed 10 0,
     fieldSpec_of 9 ''Conversion Rate, Settlement'' tNum lFixed 8 0,
     fieldSpec_of 10 ''Conversion Rate, Cardholder Billing'' tNum lFixed 8 0,
     fieldSpec_of 11 ''System Trace Audit Number'' tNum lFixed 6 0,
     fieldSpec_of 12 ''Local Transaction Time'' tNum lFixed 6 0,
     fieldSpec_of 13 ''Local Transaction Date'' tNum lFixed 4 0,
     fieldSpec_of 14 ''Expiration Date'' tNum lFixed 4 0,
     fieldSpec_of 15 ''Settlement Date'' tNum lFixed 4 0,
     fieldSpec_of 18 ''Merchant Category Code'' tNum lFixed 4 0,
     fieldSpec_of 19 ''Acquiring Institution Country Code'' tNum lFixed 3 0,
     fieldSpec_of 22 ''POS Entry Mode'' tNum lFixed 3 0,
     fieldSpec_of 23 ''Card Sequence Number'' tNum lFixed 3 0,
     fieldSpec_of 25 ''POS Condition Code'' tNum lFixed 2 0,
     fieldSpec_of 32 ''Acquiring Institution ID Code'' tNum lLL 11 0,
     fieldSpec_of 33 ''Forwarding Institution ID Code'' tNum lLL 11 0,
     fieldSpec_of 35 ''Track 2 Data'' tBinary lLL 37 0,
     fieldSpec_of 37 ''Retrieval Reference Number'' tAlpha lFixed 12 0,
     fieldSpec_of 38 ''Authorization ID Response'' tAlpha lFixed 6 0,
     fieldSpec_of 39 ''Response Code'' tAlpha lFixed 2 0,
     fieldSpec_of 41 ''Card Acceptor Terminal ID'' tAlpha lFixed 8 0,
     fieldSpec_of 42 ''Card Acceptor ID Code'' tAlpha lFixed 15 0,
     fieldSpec_of 43 ''Card Acceptor Name/Location'' tAlpha lFixed 40 0,
     fieldSpec_of 48 ''Additional Data - Private'' tAlpha lLLL 999 0,
     fieldSpec_of 49 ''Currency Code, Transaction'' tNum lFixed 3 0,
     fieldSpec_of 52 ''PIN Data'' tBinary lFixed 8 0,
     fieldSpec_of 53 ''Security Related Control Information'' tNum lFixed 16 0,
     fieldSpec_of 55 ''ICC Data'' tEMV lLLL 999 0,
     fieldSpec_of 60 ''Reserved Private'' tAlpha lLLL 999 0,
     fieldSpec_of 62 ''Reserved Private'' tAlpha lLLL 999 0,
     fieldSpec_of 63 ''Reserved Private'' tAlpha lLLL 999 0,
     fieldSpec_of 64 ''Message Authentication Code'' tBinary lFixed 8 0,
     fieldSpec_of 70 ''Network Management Information Code'' tNum lFixed 3 0,
     fieldSpec_of 90 ''Original Data Elements'' tNum lFixed 42 0,
     fieldSpec_of 100 ''Receiving Institution ID Code'' tNum lLL 11 0,
     fieldSpec_of 128 ''Message Authentication Code'' tBinary lFixed 8 0]"

definition postilionFields :: "postField list" where
  "postilionFields =
    [postField_of 2 ''PRIMARY ACCOUNT NUMBER'' pNum pLL 19,
     postField_of 3 ''PROCESSING CODE'' pNum pFix 6,
     postField_of 4 ''AMOUNT, TRANSACTION'' pNum pFix 12,
     postField_of 5 ''AMOUNT, SETTLEMENT'' pNum pFix 12,
     postField_of 6 ''AMOUNT, CARDHOLDER BILLING'' pNum pFix 12,
     postField_of 7 ''TRANSMISSION DATE AND TIME'' pNum pFix 10,
     postField_of 8 ''AMOUNT, CARDHOLDER BILLING FEE'' pNum pFix 8,
     postField_of 9 ''CONVERSION RATE, SETTLEMENT'' pNum pFix 8,
     postField_of 10 ''CONVERSION RATE, CARDHOLDER BILLING'' pNum pFix 8,
     postField_of 11 ''SYSTEM TRACE AUDIT NUMBER'' pNum pFix 6,
     postField_of 12 ''TIME, LOCAL TRANSACTION'' pNum pFix 6,
     postField_of 13 ''DATE, LOCAL TRANSACTION'' pNum pFix 4,
     postField_of 14 ''DATE, EXPIRATION'' pNum pFix 4,
     postField_of 15 ''DATE, SETTLEMENT'' pNum pFix 4,
     postField_of 16 ''DATE, CONVERSION'' pNum pFix 4,
     postField_of 17 ''DATE, CAPTURE'' pNum pFix 4,
     postField_of 18 ''MERCHANT TYPE'' pNum pFix 4,
     postField_of 19 ''ACQUIRING INSTITUTION COUNTRY CODE'' pNum pFix 3,
     postField_of 20 ''PAN EXTENDED COUNTRY CODE'' pNum pFix 3,
     postField_of 21 ''FORWARDING INSTITUTION COUNTRY CODE'' pNum pFix 3,
     postField_of 22 ''POINT OF SERVICE ENTRY MODE'' pNum pFix 3,
     postField_of 23 ''CARD SEQUENCE NUMBER'' pNum pFix 3,
     postField_of 24 ''NETWORK INTERNATIONAL IDENTIFIER'' pNum pFix 3,
     postField_of 25 ''POINT OF SERVICE CONDITION CODE'' pNum pFix 2,
     postField_of 26 ''POINT OF SERVICE PIN CAPTURE CODE'' pNum pFix 2,
     postField_of 27 ''AUTHORIZATION IDENTIFICATION RESPONSE LENGTH'' pNum pFix 1,
     postField_of 28 ''AMOUNT, TRANSACTION FEE'' pChr pFix 9,
     postField_of 29 ''AMOUNT, SETTLEMENT FEE'' pChr pFix 9,
     postField_of 30 ''AMOUNT, TRANSACTION PROCESSING FEE'' pChr pFix 9,
     postField_of 31 ''AMOUNT, SETTLEMENT PROCESSING FEE'' pChr pFix 9,
     postField_of 32 ''ACQUIRING INSTITUTION IDENTIFICATION CODE'' pNum pLL 11,
     postField_of 33 ''FORWARDING INSTITUTION IDENTIFICATION CODE'' pNum pLL 11,
     postField_of 34 ''PRIMARY ACCOUNT NUMBER, EXTENDED'' pChr pLL 28,
     postField_of 35 ''TRACK 2 DATA'' pChr pLL 37,
     postField_of 36 ''TRACK 3 DATA'' pChr pLLL 104,
     postField_of 37 ''RETRIEVAL REFERENCE NUMBER'' pChr pFix 12,
     postField_of 38 ''AUTHORIZATION IDENTIFICATION RESPONSE'' pChr pFix 6,
     postField_of 39 ''RESPONSE CODE'' pChr pFix 2,
     postField_of 40 ''SERVICE RESTRICTION CODE'' pChr pFix 3,
     postField_of 41 ''CARD ACCEPTOR TERMINAL IDENTIFICATION'' pChr pFix 8,
     postField_of 42 ''CARD ACCEPTOR IDENTIFICATION CODE'' pChr pFix 15,
     postField_of 43 ''CARD ACCEPTOR NAME/LOCATION'' pChr pFix 40,
     postField_of 44 ''ADDITIONAL RESPONSE DATA'' pChr pLL 25,
     postField_of 45 ''TRACK 1 DATA'' pChr pLL 76,
     postField_of 46 ''ADDITIONAL DATA - ISO'' pChr pLLL 999,
     postField_of 47 ''ADDITIONAL DATA - NATIONAL'' pChr pLLL 999,
     postField_of 48 ''ADDITIONAL DATA - PRIVATE'' pChr pLLL 999,
     postField_of 49 ''CURRENCY CODE, TRANSACTION'' pChr pFix 3,
     postField_of 50 ''CURRENCY CODE, SETTLEMENT'' pChr pFix 3,
     postField_of 51 ''CURRENCY CODE, CARDHOLDER BILLING'' pChr pFix 3,
     postField_of 52 ''PERSONAL IDENTIFICATION NUMBER DATA'' pBin pFix 8,
     postField_of 53 ''SECURITY RELATED CONTROL INFORMATION'' pBin pFix 48,
     postField_of 54 ''ADDITIONAL AMOUNTS'' pChr pLLL 120,
     postField_of 55 ''RESERVED ISO'' pChr pLLL 999,
     postField_of 56 ''RESERVED ISO'' pChr pLLL 999,
     postField_of 57 ''RESERVED NATIONAL'' pChr pLLL 999,
     postField_of 58 ''RESERVED NATIONAL'' pChr pLLL 999,
     postField_of 59 ''RESERVED NATIONAL'' pChr pLLL 999,
     postField_of 60 ''RESERVED PRIVATE'' pChr pLLL 999,
     postField_of 61 ''RESERVED PRIVATE'' pChr pLLL 999,
     postField_of 62 ''RESERVED PRIVATE'' pChr pLLL 999,
     postField_of 63 ''RESERVED PRIVATE'' pChr pLLL 999,
     postField_of 64 ''MESSAGE AUTHENTICATION CODE FIELD'' pHex pFix 8,
     postField_of 65 ''BITMAP, EXTENDED'' pHex pFix 8,
     postField_of 66 ''SETTLEMENT CODE'' pNum pFix 1,
     postField_of 67 ''EXTENDED PAYMENT CODE'' pNum pFix 2,
     postField_of 68 ''RECEIVING INSTITUTION COUNTRY CODE'' pNum pFix 3,
     postField_of 69 ''SETTLEMENT INSTITUTION COUNTRY CODE'' pNum pFix 3,
     postField_of 70 ''NETWORK MANAGEMENT INFORMATION CODE'' pNum pFix 3,
     postField_of 71 ''MESSAGE NUMBER'' pNum pFix 4,
     postField_of 72 ''MESSAGE NUMBER LAST'' pNum pFix 4,
     postField_of 73 ''DATE, ACTION'' pNum pFix 6,
     postField_of 74 ''CREDITS, NUMBER'' pNum pFix 10,
     postField_of 75 ''CREDITS, REVERSAL NUMBER'' pNum pFix 10,
     postField_of 76 ''DEBITS, NUMBER'' pNum pFix 10,
     postField_of 77 ''DEBITS, REVERSAL NUMBER'' pNum pFix 10,
     postField_of 78 ''TRANSFER, NUMBER'' pNum pFix 10,
     postField_of 79 ''TRANSFER, REVERSAL NUMBER'' pNum pFix 10,
     postField_of 80 ''INQUIRIES, NUMBER'' pNum pFix 10,
     postField_of 81 ''AUTHORIZATIONS, NUMBER'' pNum pFix 10,
     postField_of 82 ''CREDITS, PROCESSING FEE AMOUNT'' pNum pFix 12,
     postField_of 83 ''CREDITS, TRANSACTION FEE AMOUNT'' pNum pFix 12,
     postField_of 84 ''DEBITS, PROCESSING FEE AMOUNT'' pNum pFix 12,
     postField_of 85 ''DEBITS, TRANSACTION FEE AMOUNT'' pNum pFix 12,
     postField_of 86 ''CREDITS, AMOUNT'' pNum pFix 16,
     postField_of 87 ''CREDITS, REVERSAL AMOUNT'' pNum pFix 16,
     postField_of 88 ''DEBITS, AMOUNT'' pNum pFix 16,
     postField_of 89 ''DEBITS, REVERSAL AMOUNT'' pNum pFix 16,
     postField_of 90 ''ORIGINAL DATA ELEMENTS'' pNum pFix 42,
     postField_of 91 ''FILE UPDATE CODE'' pChr pFix 1,
     postField_of 92 ''FILE SECURITY CODE'' pChr pFix 2,
     postField_of 93 ''RESPONSE INDICATOR'' pChr pFix 5,
     postField_of 94 ''SERVICE INDICATOR'' pChr pFix 7,
     postField_of 95 ''REPLACEMENT AMOUNTS'' pChr pFix 42,
     postField_of 96 ''MESSAGE SECURITY CODE'' pHex pFix 8,
     postField_of 97 ''AMOUNT, NET SETTLEMENT'' pChr pFix 17,
     postField_of 98 ''PAYEE'' pChr pFix 25,
     postField_of 99 ''SETTLEMENT INSTITUTION IDENTIFICATION CODE'' pNum pLL 11,
     postField_of 100 ''RECEIVING INSTITUTION IDENTIFICATION CODE'' pNum pLL 11,
     postField_of 101 ''FILE NAME'' pChr pLL 17,
     postField_of 102 ''ACCOUNT IDENTIFICATION 1'' pChr pLL 28,
     postField_of 103 ''ACCOUNT IDENTIFICATION 2'' pChr pLL 28,
     postField_of 104 ''TRANSACTION DESCRIPTION'' pChr pLLL 100,
     postField_of 105 ''RESERVED ISO USE'' pChr pLLL 999,
     postField_of 106 ''RESERVED ISO USE'' pChr pLLL 999,
     postField_of 107 ''RESERVED ISO USE'' pChr pLLL 999,
     postField_of 108 ''RESERVED ISO USE'' pChr pLLL 999,
     postField_of 109 ''RESERVED ISO USE'' pChr pLLL 999,
     postField_of 110 ''RESERVED ISO USE'' pChr pLLL 999,
     postField_of 111 ''RESERVED ISO USE'' pChr pLLL 999,
     postField_of 112 ''RESERVED NATIONAL USE'' pChr pLLL 999,
     postField_of 113 ''RESERVED NATIONAL USE'' pChr pLLL 999,
     postField_of 114 ''RESERVED NATIONAL USE'' pChr pLLL 999,
     postField_of 115 ''RESERVED NATIONAL USE'' pChr pLLL 999,
     postField_of 116 ''RESERVED NATIONAL USE'' pChr pLLL 999,
     postField_of 117 ''RESERVED NATIONAL USE'' pChr pLLL 999,
     postField_of 118 ''RESERVED NATIONAL USE'' pChr pLLL 999,
     postField_of 119 ''RESERVED NATIONAL USE'' pChr pLLL 999,
     postField_of 120 ''RESERVED PRIVATE USE'' pChr pLLL 999,
     postField_of 121 ''RESERVED PRIVATE USE'' pChr pLLL 999,
     postField_of 122 ''RESERVED PRIVATE USE'' pChr pLLL 999,
     postField_of 123 ''RESERVED PRIVATE USE'' pChr pLLL 999,
     postField_of 124 ''RESERVED PRIVATE USE'' pChr pLLL 999,
     postField_of 125 ''RESERVED PRIVATE USE'' pChr pLLL 999,
     postField_of 126 ''RESERVED PRIVATE USE'' pChr pLLL 999,
     postField_of 128 ''MESSAGE AUTHENTICATION CODE 2'' pChr pLLL 999]"

definition postilionSub127 :: "postField list" where
  "postilionSub127 =
    [postField_of 2 ''SWITCH KEY'' pChr pLL 32,
     postField_of 3 ''ROUTING INFORMATION'' pChr pFix 48,
     postField_of 4 ''POS DATA'' pChr pFix 22,
     postField_of 5 ''SERVICE STATION DATA'' pChr pFix 73,
     postField_of 6 ''AUTHORIZATION PROFILE'' pNum pFix 2,
     postField_of 7 ''CHECK DATA'' pChr pLL 70,
     postField_of 8 ''RETENTION DATA'' pChr pLLL 999,
     postField_of 9 ''ADDITIONAL NODE DATA'' pChr pLLL 255,
     postField_of 10 ''CVV2'' pNum pFix 3,
     postField_of 11 ''ORIGINAL KEY'' pChr pLL 32,
     postField_of 12 ''TERMINAL OWNER'' pChr pLL 25,
     postField_of 13 ''POS GEOGRAPHIC DATA'' pChr pFix 17,
     postField_of 14 ''SPONSOR BANK'' pChr pFix 8,
     postField_of 15 ''AVS REQUEST'' pChr pLL 29,
     postField_of 16 ''AVS RESPONSE'' pChr pFix 1,
     postField_of 17 ''CARDHOLDER INFORMATION'' pChr pLL 50,
     postField_of 18 ''VALIDATION DATA'' pChr pLL 50,
     postField_of 19 ''BANK DETAILS'' pChr pFix 31,
     postField_of 20 ''AUTHORIZER DATE SETTLEMENT'' pNum pFix 8,
     postField_of 21 ''RECORD IDENTIFICATION'' pChr pLL 12,
     postField_of 22 ''STRUCTURED DATA'' pChr pLLLLL 99999,
     postField_of 23 ''PAYEE NAME AND ADDRESS'' pChr pFix 253,
     postField_of 24 ''PAYER ACCOUNT INFORMATION'' pChr pLL 28,
     postField_of 25 ''ICC DATA'' pChr pLLLL 9999,
     postField_of 26 ''ORIGINAL NODE'' pChr pLL 20,
     postField_of 27 ''CARD VERIFICATION RESULT'' pChr pFix 1,
     postField_of 28 ''AMERICAN EXPRESS CARD IDENTIFIER'' pChr pFix 4,
     postField_of 29 ''SECURED DATA'' pBin pFix 40,
     postField_of 30 ''SECURED RESULT'' pChr pFix 1,
     postField_of 31 ''ISSUER NETWORK ID'' pChr pLL 11,
     postField_of 32 ''UCAF DATA'' pChr pLL 33,
     postField_of 33 ''EXTENDED TRANSACTION TYPE'' pChr pFix 4,
     postField_of 34 ''ACCOUNT TYPE QUALIFIERS'' pChr pFix 2,
     postField_of 35 ''ACQUIRER NETWORK ID'' pChr pLL 11,
     postField_of 36 ''CUSTOMER ID'' pChr pLL 25,
     postField_of 37 ''EXTENDED RESPONSE CODE'' pChr pFix 4,
     postField_of 38 ''ADDITIONAL POS DATA CODE'' pChr pLL 99,
     postField_of 39 ''ORIGINAL RESPONSE CODE'' pChr pFix 2,
     postField_of 40 ''TRANSACTION REFERENCE'' pChr pFix 512,
     postField_of 41 ''ORIGINAL REMOTE ADDRESS'' pChr pLL 99,
     postField_of 42 ''TRANSACTION NUMBER'' pChr pLL 10,
     postField_of 43 ''EXTENDED CARD ACCEPTOR TERMINAL ID'' pChr pLL 25,
     postField_of 44 ''EXTENDED CARD ACCEPTOR ID CODE'' pChr pLL 25,
     postField_of 45 ''ORIGINAL CARD ACCEPTOR TERMINAL ID'' pChr pFix 8,
     postField_of 46 ''ORIGINAL CARD ACCEPTOR ID CODE'' pChr pFix 15]"

definition coralpayFields :: "postField list" where
  "coralpayFields =
    [postField_of 2 ''PRIMARY ACCOUNT NUMBER'' pNum pLL 19,
     postField_of 3 ''PROCESSING CODE'' pChr pFix 6,
     postField_of 4 ''AMOUNT, TRANSACTION'' pNum pFix 12,
     postField_of 5 ''AMOUNT, SETTLEMENT'' pNum pFix 12,
     postField_of 7 ''TRANSMISSION DATE AND TIME'' pChr pFix 10,
     postField_of 9 ''CONVERSION RATE, SETTLEMENT'' pChr pFix 8,
     postField_of 11 ''SYSTEM TRACE AUDIT NUMBER'' pNum pFix 6,
     postField_of 12 ''TIME, LOCAL TRANSACTION'' pChr pFix 6,
     postField_of 13 ''DATE, LOCAL TRANSACTION'' pChr pFix 4,
     postField_of 14 ''DATE, EXPIRATION'' pChr pFix 4,
     postField_of 15 ''DATE, SETTLEMENT'' pChr pFix 4,
     postField_of 18 ''MERCHANT TYPE'' pChr pFix 4,
     postField_of 22 ''POS ENTRY MODE'' pChr pFix 3,
     postField_of 23 ''CARD SEQUENCE NUMBER'' pChr pFix 3,
     postField_of 25 ''POS CONDITION CODE'' pChr pFix 2,
     postField_of 26 ''POS PIN CAPTURE CODE'' pChr pFix 2,
     postField_of 28 ''AMOUNT, TRANSACTION FEE'' pChr pFix 9,
     postField_of 29 ''AMOUNT, SETTLEMENT FEE'' pChr pFix 9,
     postField_of 30 ''AMOUNT, TRANSACTION PROCESSING FEE'' pChr pFix 9,
     postField_of 31 ''AMOUNT, SETTLEMENT PROCESSING FEE'' pChr pFix 9,
     postField_of 32 ''ACQUIRING INSTITUTION IDENTIFICATION CODE'' pChr pLL 11,
     postField_of 33 ''FORWARDING INSTITUTION IDENTIFICATION CODE'' pNum pLL 11,
     postField_of 35 ''TRACK 2 DATA'' pChr pLL 37,
     postField_of 37 ''RETRIEVAL REFERENCE NUMBER'' pChr pFix 12,
     postField_of 38 ''AUTHORIZATION CODE'' pChr pFix 6,
     postField_of 39 ''RESPONSE CODE'' pChr pFix 2,
     postField_of 40 ''SERVICE RESTRICTION CODE'' pChr pFix 3,
     postField_of 41 ''CARD ACCEPTOR TERMINAL IDENTIFICATION'' pChr pFix 8,
     postField_of 42 ''CARD ACCEPTOR IDENTIFICATION CODE'' pChr pFix 15,
     postField_of 43 ''CARD ACCEPTOR NAME/LOCATION'' pChr pFix 40,
     postField_of 48 ''ADDITIONAL DATA'' pChr pLLL 999,
     postField_of 49 ''CURRENCY CODE'' pChr pFix 3,
     postField_of 52 ''PIN DATA'' pHex pFix 8,
     postField_of 53 ''SECURITY RELATED CONTROL INFORMATION'' pChr pFix 96,
     postField_of 54 ''ADDITIONAL AMOUNT'' pChr pLLL 120,
     postField_of 55 ''INTEGRATED CIRCUIT CARD SYSTEM RELATED DATA'' pChr pLLL 510,
     postField_of 56 ''MESSAGE REASON CODE'' pChr pLLL 4,
     postField_of 59 ''ECHO DATA'' pChr pLLL 255,
     postField_of 60 ''PAYMENT INFORMATION'' pChr pLLL 999,
     postField_of 61 ''PRIVATE FIELD, MANAGEMENT DATA 1'' pChr pLLL 999,
     postField_of 62 ''PRIVATE FIELD, MANAGEMENT DATA 1'' pChr pLLL 999,
     postField_of 63 ''PRIVATE FIELD, MANAGEMENT DATA 2'' pChr pLLLL 9999,
     postField_of 64 ''PRIMARY MESSAGE HASH VALUE'' pChr pFix 64,
     postField_of 70 ''Network Management Information Code'' pChr pFix 3,
     postField_of 90 ''ORIGINAL DATA ELEMENTS'' pNum pFix 42,
     postField_of 95 ''REPLACEMENT AMOUNTS'' pNum pFix 42,
     postField_of 98 ''PAYEE'' pChr pFix 25,
     postField_of 100 ''RECEIVING INSTITUTION IDENT CODE'' pNum pLL 11,
     postField_of 102 ''ACCOUNT IDENTIFICATION 1'' pChr pLL 28,
     postField_of 103 ''ACCOUNT IDENTIFICATION 2'' pChr pLL 28,
     postField_of 123 ''POS DATA CODE'' pChr pLLL 15,
     postField_of 128 ''SECONDARY MESSAGE HASH VALUE'' pChr pFix 64]"

definition coralpaySub127 :: "postField list" where
  "coralpaySub127 =
    [postField_of 2 ''SWITCH KEY'' pChr pLL 32,
     postField_of 3 ''ROUTING INFORMATION'' pChr pFix 48,
     postField_of 4 ''POS DATA'' pChr pFix 22,
     postField_of 5 ''SERVICE STATION DATA'' pChr pFix 73,
     postField_of 6 ''AUTHORIZATION PROFILE'' pNum pFix 2,
     postField_of 7 ''CHECK DATA'' pChr pLL 50,
     postField_of 8 ''RETENTION DATA'' pChr pLLL 999,
     postField_of 9 ''ADDITIONAL NODE DATA'' pChr pLLL 255,
     postField_of 10 ''CVV2'' pNum pFix 3,
     postField_of 11 ''ORIGINAL KEY'' pChr pLL 32,
     postField_of 12 ''TERMINAL OWNER'' pChr pLL 25,
     postField_of 13 ''POS GEOGRAPHIC DATA'' pChr pFix 17,
     postField_of 14 ''SPONSOR BANK'' pChr pFix 8,
     postField_of 15 ''AVS REQUEST'' pChr pLL 29,
     postField_of 16 ''AVS RESPONSE'' pChr pFix 1,
     postField_of 17 ''CARDHOLDER INFORMATION'' pChr pLL 50,
     postField_of 18 ''VALIDATION DATA'' pChr pLL 50,
     postField_of 19 ''BANK DETAILS'' pChr pFix 31,
     postField_of 20 ''AUTHORIZER DATE SETTLEMENT'' pNum pFix 8,
     postField_of 21 ''RECORD IDENTIFICATION'' pChr pLL 12,
     postField_of 22 ''STRUCTURED DATA'' pChr pLLLLL 99999,
     postField_of 23 ''PAYEE NAME AND ADDRESS'' pChr pFix 253,
     postField_of 24 ''PAYER ACCOUNT INFORMATION'' pChr pLL 28,
     postField_of 25 ''ICC DATA'' pChr pLLLL 9999,
     postField_of 26 ''ORIGINAL NODE'' pChr pLL 20,
     postField_of 27 ''CARD VERIFICATION RESULT'' pChr pFix 1,
     postField_of 28 ''AMERICAN EXPRESS CARD IDENTIFIER'' pNum pFix 4,
     postField_of 29 ''3-D SECURE DATA'' pHex pFix 40,
     postField_of 30 ''3-D SECURE RESULT'' pChr pFix 1,
     postField_of 31 ''ISSUER NETWORK ID'' pChr pLL 11,
     postField_of 32 ''UCAF DATA'' pChr pLL 33,
     postField_of 33 ''EXTENDED TRANSACTION TYPE'' pNum pFix 4,
     postField_of 34 ''ACCOUNT TYPE QUALIFIERS'' pNum pFix 2,
     postField_of 35 ''ACQUIRER NETWORK ID'' pChr pLL 11,
     postField_of 36 ''CUSTOMER ID'' pChr pLL 25,
     postField_of 37 ''EXTENDED RESPONSE CODE'' pChr pFix 4,
     postField_of 38 ''ADDITIONAL POS DATA CODE'' pChr pLL 99,
     postField_of 39 ''ORIGINAL RESPONSE CODE'' pChr pFix 2,
     postField_of 40 ''ACCOUNT TYPE QUALIFIERS'' pChr pLLL 512,
     postField_of 41 ''ORIGINATING REMOTE ADDRESS'' pChr pLL 99,
     postField_of 42 ''TRANSACTION NUMBER'' pChr pLL 10]"

definition zoneFields :: "postField list" where
  "zoneFields =
    [postField_of 2 ''PAN - PRIMARY ACCOUNT NUMBER'' pNum pLL 19,
     postField_of 3 ''PROCESSING CODE'' pNum pFix 6,
     postField_of 4 ''AMOUNT, TRANSACTION'' pNum pFix 12,
     postField_of 5 ''AMOUNT, SETTLEMENT'' pNum pFix 12,
     postField_of 6 ''AMOUNT, CARDHOLDER BILLING'' pNum pFix 12,
     postField_of 7 ''TRANSMISSION DATE AND TIME'' pNum pFix 10,
     postField_of 8 ''Cardholder billing fee amount'' pNum pFix 8,
     postField_of 9 ''CONVERSION RATE, SETTLEMENT'' pNum pFix 8,
     postField_of 10 ''Cardholder billing conversion rate'' pNum pFix 8,
     postField_of 11 ''SYSTEM TRACE AUDIT NUMBER'' pNum pFix 6,
     postField_of 12 ''TIME, LOCAL TRANSACTION'' pNum pFix 6,
     postField_of 13 ''DATE, LOCAL TRANSACTION'' pNum pFix 4,
     postField_of 14 ''DATE, EXPIRATION'' pNum pFix 4,
     postField_of 15 ''DATE, SETTLEMENT'' pNum pFix 4,
     postField_of 16 ''DATE, CONVERSION'' pNum pFix 4,
     postField_of 17 ''DATE, CAPTURE'' pNum pFix 4,
     postField_of 18 ''MERCHANTS TYPE'' pNum pFix 4,
     postField_of 19 ''Acquiring institution country code'' pNum pFix 3,
     postField_of 20 ''Primary account number country code'' pNum pFix 3,
     postField_of 21 ''Forwarding institution country code'' pNum pFix 3,
     postField_of 22 ''POINT OF SERVICE ENTRY MODE'' pNum pFix 3,
     postField_of 23 ''CARD SEQUENCE NUMBER'' pNum pFix 3,
     postField_of 24 ''Network international identifier'' pNum pFix 3,
     postField_of 25 ''POINT OF SERVICE CONDITION CODE'' pNum pFix 2,
     postField_of 26 ''POINT OF SERVICE PIN CAPTURE CODE'' pNum pFix 2,
     postField_of 27 ''AUTHORIZATION IDENTIFICATION RESP LEN'' pNum pFix 1,
     postField_of 28 ''AMOUNT, TRANSACTION FEE'' pChr pFix 9,
     postField_of 29 ''AMOUNT, SETTLEMENT FEE'' pChr pFix 9,
     postField_of 30 ''AMOUNT, TRANSACTION PROCESSING FEE'' pChr pFix 9,
     postField_of 31 ''AMOUNT, SETTLEMENT PROCESSING FEE'' pChr pFix 9,
     postField_of 32 ''ACQUIRING INSTITUTION IDENT CODE'' pNum pLL 11,
     postField_of 33 ''FORWARDING INSTITUTION IDENT CODE'' pNum pLL 11,
     postField_of 34 ''Extended primary account number'' pNum pLL 28,
     postField_of 35 ''TRACK 2 DATA'' pNum pLL 37,
     postField_of 36 ''TRACK 3 DATA'' pNum pLLL 104,
     postField_of 37 ''RETRIEVAL REFERENCE NUMBER'' pChr pFix 12,
     postField_of 38 ''AUTHORIZATION IDENTIFICATION RESPONSE'' pChr pFix 6,
     postField_of 39 ''RESPONSE CODE'' pChr pFix 2,
     postField_of 40 ''SERVICE RESTRICTION CODE'' pChr pFix 3,
     postField_of 41 ''CARD ACCEPTOR TERMINAL IDENTIFICACION'' pChr pFix 8,
     postField_of 42 ''CARD ACCEPTOR IDENTIFICATION CODE'' pChr pFix 15,
     postField_of 43 ''CARD ACCEPTOR NAME/LOCATION'' pChr pFix 40,
     postField_of 44 ''ADITIONAL RESPONSE DATA'' pChr pLL 25,
     postField_of 45 ''TRACK 1 DATA'' pChr pLL 76,
     postField_of 46 ''Additional data - ISO'' pChr pLLL 999,
     postField_of 47 ''Additional data - national'' pChr pLLL 999,
     postField_of 48 ''ADITIONAL DATA - PRIVATE'' pChr pLLL 999,
     postField_of 49 ''CURRENCY CODE, TRANSACTION'' pChr pFix 3,
     postField_of 50 ''CURRENCY CODE, SETTLEMENT'' pChr pFix 3,
     postField_of 51 ''Cardholder billing currency code'' pChr pFix 3,
     postField_of 52 ''PIN DATA'' pBin pFix 8,
     postField_of 53 ''SECURITY RELATED CONTROL INFORMATION'' pBin pFix 48,
     postField_of 54 ''ADDITIONAL AMOUNTS'' pChr pLLL 120,
     postField_of 55 ''Reserved for ISO use'' pChr pLLL 999,
     postField_of 56 ''RESERVED ISO'' pChr pLLL 999,
     postField_of 57 ''RESERVED NATIONAL'' pChr pFix 3,
     postField_of 58 ''RESERVED NATIONAL'' pChr pLLL 11,
     postField_of 59 ''RESERVED NATIONAL'' pChr pLLL 999,
     postField_of 60 ''RESERVED PRIVATE'' pChr pLLL 999,
     postField_of 61 ''RESERVED PRIVATE'' pChr pLLL 999,
     postField_of 62 ''RESERVED PRIVATE'' pChr pLLL 999,
     postField_of 63 ''RESERVED PRIVATE'' pChr pLLL 999,
     postField_of 64 ''RESERVED PRIVATE'' pBin pFix 8,
     postField_of 65 ''RESERVED PRIVATE'' pBin pFix 8,
     postField_of 66 ''SETTLEMENT CODE'' pNum pFix 1,
     postField_of 67 ''EXTENDED PAYMENT CODE'' pNum pFix 2,
     postField_of 68 ''Receiving institution country code'' pNum pFix 3,
     postField_of 69 ''SETTLEMENT INSTITUTION COUNTRY CODE'' pNum pFix 3,
     postField_of 70 ''NETWORK MANAGEMENT INFORMATION CODE'' pNum pFix 3,
     postField_of 71 ''MESSAGE NUMBER'' pNum pFix 4,
     postField_of 72 ''LAST MESSAGE NUMBER'' pNum pFix 4,
     postField_of 73 ''DATE ACTION'' pNum pFix 6,
     postField_of 74 ''CREDITS NUMBER'' pNum pFix 10,
     postField_of 75 ''CREDITS REVERSAL NUMBER'' pNum pFix 10,
     postField_of 76 ''DEBITS NUMBER'' pNum pFix 10,
     postField_of 77 ''DEBITS REVERSAL NUMBER'' pNum pFix 10,
     postField_of 78 ''TRANSFER NUMBER'' pNum pFix 10,
     postField_of 79 ''TRANSFER REVERSAL NUMBER'' pNum pFix 10,
     postField_of 80 ''INQUIRIES NUMBER'' pNum pFix 10,
     postField_of 81 ''AUTHORIZATION NUMBER'' pNum pFix 10,
     postField_of 82 ''CREDITS, PROCESSING FEE AMOUNT'' pNum pFix 12,
     postField_of 83 ''CREDITS, TRANSACTION FEE AMOUNT'' pNum pFix 12,
     postField_of 84 ''DEBITS, PROCESSING FEE AMOUNT'' pNum pFix 12,
     postField_of 85 ''DEBITS, TRANSACTION FEE AMOUNT'' pNum pFix 12,
     postField_of 86 ''CREDITS, AMOUNT'' pNum pFix 16,
     postField_of 87 ''CREDITS, REVERSAL AMOUNT'' pNum pFix 16,
     postField_of 88 ''DEBITS, AMOUNT'' pNum pFix 16,
     postField_of 89 ''DEBITS, REVERSAL AMOUNT'' pNum pFix 16,
     postField_of 90 ''ORIGINAL DATA ELEMENTS'' pNum pFix 42,
     postField_of 91 ''FILE UPDATE CODE'' pChr pFix 1,
     postField_of 92 ''FILE SECURITY CODE'' pChr pFix 2,
     postField_of 93 ''RESPONSE INDICATOR'' pChr pFix 6,
     postField_of 94 ''SERVICE INDICATOR'' pChr pFix 7,
     postField_of 95 ''REPLACEMENT AMOUNTS'' pChr pFix 42,
     postField_of 96 ''MESSAGE SECURITY CODE'' pHex pFix 8,
     postField_of 97 ''AMOUNT, NET SETTLEMENT'' pChr pFix 17,
     postField_of 98 ''PAYEE'' pChr pFix 25,
     postField_of 99 ''Settlement institution Id code'' pNum pLL 11,
     postField_of 100 ''RECEIVING INSTITUTION IDENT CODE'' pNum pLL 11,
     postField_of 101 ''FILE NAME'' pChr pLL 17,
     postField_of 102 ''ACCOUNT IDENTIFICATION 1'' pChr pLL 28,
     postField_of 103 ''ACCOUNT IDENTIFICATION 2'' pChr pLL 28,
     postField_of 104 ''Transaction description'' pChr pLLL 100,
     postField_of 105 ''Reserved for ISO use'' pChr pLLL 999,
     postField_of 106 ''Reserved for ISO use'' pChr pLLL 999,
     postField_of 107 ''Reserved for ISO use'' pChr pLLL 999,
     postField_of 108 ''Reserved for ISO use'' pChr pLLL 999,
     postField_of 109 ''Reserved for ISO use'' pChr pLLL 999,
     postField_of 110 ''Reserved for ISO use'' pChr pLLL 999,
     postField_of 111 ''Reserved for ISO use'' pChr pLLL 999,
     postField_of 112 ''Reserved for ISO use'' pChr pLLL 999,
     postField_of 113 ''Reserved for ISO use'' pChr pLLL 999,
     postField_of 114 ''Reserved for ISO use'' pChr pLLL 999,
     postField_of 115 ''Reserved for ISO use'' pChr pLLL 999,
     postField_of 116 ''Reserved for ISO use'' pChr pLLL 999,
     postField_of 117 ''Reserved for ISO use'' pChr pLLL 999,
     postField_of 118 ''RESERVED NATIONAL USE'' pChr pFix 10,
     postField_of 119 ''RESERVED NATIONAL USE'' pChr pFix 10,
     postField_of 120 ''RESERVED PRIVATE USE'' pChr pLLL 999,
     postField_of 121 ''RESERVED PRIVATE USE'' pChr pLLL 999,
     postField_of 122 ''RESERVED PRIVATE USE'' pChr pLLL 999,
     postField_of 123 ''RESERVED PRIVATE USE'' pChr pLLL 999,
     postField_of 124 ''RESERVED PRIVATE USE'' pChr pLLL 999,
     postField_of 125 ''RESERVED PRIVATE USE'' pChr pLLL 40,
     postField_of 126 ''RESERVED PRIVATE USE'' pChr pLLL 999,
     postField_of 128 ''MAC EXTENDED'' pBin pFix 32]"

definition zoneSub127 :: "postField list" where
  "zoneSub127 =
    [postField_of 2 ''SWITCH KEY'' pChr pLL 32,
     postField_of 3 ''ROUTING INFORMATION'' pChr pFix 48,
     postField_of 4 ''POS DATA'' pChr pFix 22,
     postField_of 5 ''SERVICE STATION DATA'' pChr pFix 73,
     postField_of 6 ''AUTHORIZATION PROFILE'' pNum pFix 2,
     postField_of 7 ''CHECK DATA'' pChr pLL 50,
     postField_of 8 ''RETENTION DATA'' pChr pLLL 999,
     postField_of 9 ''ADDITIONAL NODE DATA'' pChr pLLL 255,
     postField_of 10 ''CVV2'' pNum pFix 3,
     postField_of 11 ''ORIGINAL KEY'' pChr pLL 32,
     postField_of 12 ''TERMINAL OWNER'' pChr pLL 25,
     postField_of 13 ''POS GEOGRAPHIC DATA'' pChr pFix 17,
     postField_of 14 ''SPONSOR BANK'' pChr pFix 8,
     postField_of 15 ''AVS REQUEST'' pChr pLL 29,
     postField_of 16 ''AVS RESPONSE'' pChr pFix 1,
     postField_of 17 ''CARDHOLDER INFORMATION'' pChr pLL 50,
     postField_of 18 ''VALIDATION DATA'' pChr pLL 50,
     postField_of 19 ''BANK DETAILS'' pChr pFix 31,
     postField_of 20 ''AUTHORIZER DATE SETTLEMENT'' pNum pFix 8,
     postField_of 21 ''RECORD IDENTIFICATION'' pChr pLL 12,
     postField_of 22 ''STRUCTURED DATA'' pChr pLLLLL 99999,
     postField_of 23 ''PAYEE NAME AND ADDRESS'' pChr pFix 253,
     postField_of 24 ''PAYER ACCOUNT INFORMATION'' pChr pLL 28,
     postField_of 25 ''ICC DATA'' pChr pLLLL 9999,
     postField_of 26 ''ORIGINAL NODE'' pChr pLL 20,
     postField_of 27 ''CARD VERIFICATION RESULT'' pChr pFix 1,
     postField_of 28 ''AMERICAN EXPRESS CARD IDENTIFIER'' pNum pFix 4,
     postField_of 29 ''3-D SECURE DATA'' pHex pFix 40,
     postField_of 30 ''3-D SECURE RESULT'' pChr pFix 1,
     postField_of 31 ''ISSUER NETWORK ID'' pChr pLL 11,
     postField_of 32 ''UCAF DATA'' pChr pLL 33,
     postField_of 33 ''EXTENDED TRANSACTION TYPE'' pNum pFix 4,
     postField_of 34 ''ACCOUNT TYPE QUALIFIERS'' pNum pFix 2,
     postField_of 35 ''ACQUIRER NETWORK ID'' pChr pLL 11,
     postField_of 36 ''CUSTOMER ID'' pChr pLLL 999,
     postField_of 37 ''EXTENDED RESPONSE CODE'' pChr pLLL 999,
     postField_of 38 ''ADDITIONAL POS DATA CODE'' pChr pLLL 999,
     postField_of 39 ''ORIGINAL RESPONSE CODE'' pChr pLLL 999,
     postField_of 40 ''ACCOUNT TYPE QUALIFIERS'' pChr pLLL 999,
     postField_of 41 ''ORIGINATING REMOTE ADDRESS'' pChr pLLL 999,
     postField_of 42 ''TRANSACTION NUMBER'' pChr pLLL 999]"

subsection \<open>What the rows have in common\<close>

text \<open>Elements in range and named once, a positive maximum, and room in the length prefix for it.\<close>

definition prefix_room :: "length_codec option \<Rightarrow> int \<Rightarrow> bool" where
  "prefix_room l mx = (case l of None \<Rightarrow> True | Some p \<Rightarrow> p \<in> set All_lengths \<and> mx < capacity p)"

definition post_ok :: "postField \<Rightarrow> bool" where
  "post_ok f \<longleftrightarrow> 2 \<le> pf_de f \<and> pf_de f \<le> 128 \<and> pf_de f \<noteq> 127 \<and> 0 < pf_max f \<and> pf_max f \<le> 99999 \<and> prefix_room (pf_length f) (pf_max f) \<and>
     codec_Kind (pf_value f) \<noteq> KindComposite"

definition spec_ok :: "fieldSpec \<Rightarrow> bool" where
  "spec_ok f \<longleftrightarrow> 2 \<le> fs_de f \<and> fs_de f \<le> 128 \<and> fs_de f \<noteq> 65 \<and> 0 < fs_max f \<and> fs_max f \<le> 999 \<and> (fs_ln f = lLL \<longrightarrow> fs_max f < 100)"

lemma prefix_room_simps:
  "prefix_room pFix mx" "mx < 100 \<Longrightarrow> prefix_room pLL mx" "mx < 1000 \<Longrightarrow> prefix_room pLLL mx"
  "mx < 10000 \<Longrightarrow> prefix_room pLLLL mx" "mx < 100000 \<Longrightarrow> prefix_room pLLLLL mx" "mx < 1000000 \<Longrightarrow> prefix_room pLLLLLL mx"
  by (simp_all add: prefix_room_def pFix_def pLL_def pLLL_def pLLLL_def pLLLLL_def pLLLLLL_def All_lengths_def capacity_def catalog_defs)

lemma scalar_kinds: "codec_Kind pNum = KindNumeric" "codec_Kind pChr = KindString" "codec_Kind pBin = KindBytes" "codec_Kind pHex = KindBytes"
  by (simp_all add: codec_Kind_def pNum_def pChr_def pBin_def pHex_def)

lemma post_ok_of:
  "post_ok (postField_of de nm v l mx) \<longleftrightarrow> 2 \<le> de \<and> de \<le> 128 \<and> de \<noteq> 127 \<and> 0 < mx \<and> mx \<le> 99999 \<and> prefix_room l mx \<and>
    codec_Kind v \<noteq> KindComposite"
  by (simp add: post_ok_def postField_of_def)

lemma spec_ok_of:
  "spec_ok (fieldSpec_of de nm t l mx sc) \<longleftrightarrow> 2 \<le> de \<and> de \<le> 128 \<and> de \<noteq> 65 \<and> 0 < mx \<and> mx \<le> 999 \<and> (l = lLL \<longrightarrow> mx < 100)"
  by (simp add: spec_ok_def fieldSpec_of_def)

lemma de_of [simp]: "pf_de (postField_of de nm v l mx) = de" "fs_de (fieldSpec_of de nm t ll mx sc) = de"
  by (simp_all add: postField_of_def fieldSpec_of_def)

lemma iso87Dir_ok: "list_all spec_ok iso87Dir" "distinct (map fs_de iso87Dir)"
  by (simp_all add: iso87Dir_def spec_ok_of)

lemma postilion_ok: "list_all post_ok postilionFields" "distinct (map pf_de postilionFields)"
    "list_all post_ok postilionSub127" "distinct (map pf_de postilionSub127)"
  by (simp_all add: postilionFields_def postilionSub127_def post_ok_of prefix_room_simps scalar_kinds)

lemma coralpay_ok: "list_all post_ok coralpayFields" "distinct (map pf_de coralpayFields)"
    "list_all post_ok coralpaySub127" "distinct (map pf_de coralpaySub127)"
  by (simp_all add: coralpayFields_def coralpaySub127_def post_ok_of prefix_room_simps scalar_kinds)

lemma zone_ok: "list_all post_ok zoneFields" "distinct (map pf_de zoneFields)"
    "list_all post_ok zoneSub127" "distinct (map pf_de zoneSub127)"
  by (simp_all add: zoneFields_def zoneSub127_def post_ok_of prefix_room_simps scalar_kinds)

end
