(* ===== verification/RoundTrip.thy ===== *)
theory RoundTrip
  imports MessageProps
begin

text \<open>
  The engine as a whole: a message that was built and marshalled is parsed back to the same elements.
  The argument goes through the contract of a single field, \<open>carries\<close>: what it appends is found
  again by \<open>fieldBodySpan\<close> wherever it stands in a buffer, and its body decodes. The contract
  holds for the codecs and length prefixes of the catalogs, and through the packager for a nested
  message whose elements have it.
\<close>

subsection \<open>The contract of a field\<close>

definition carries :: "field_def \<Rightarrow> value \<Rightarrow> bytes \<Rightarrow> bytes \<Rightarrow> int \<Rightarrow> value \<Rightarrow> bool" where
  "carries def v pfx body u w \<longleftrightarrow>
     (\<forall>dst sl wire. sv sl = v \<and> \<not> fromSrc sl \<longrightarrow> appendField EncodeBody dst def sl wire = Inr (dst @ pfx @ body))
     \<and> (\<forall>pre rest. fieldBodySpan def (pre @ pfx @ body @ rest) (int (length pre)) =
         Inr (int (length pre) + int (length pfx), int (length pre) + int (length pfx) + int (length body),
              int (length pre) + int (length pfx) + int (length body), u))
     \<and> (\<exists>c. Codec def = Some c \<and> DecodeBody c body u def = Inr w)"

lemma carriesI:
  assumes c: "Codec def = Some c" "\<And>dst. EncodeBody c dst v def = Inr (dst @ body)" "DecodeBody c body u def = Inr w"
    and u: "0 \<le> u" "wireBytes def u = int (length body)"
    and len: "Length def = None \<and> u = MaxLen def \<and> pfx = []
      \<or> (\<exists>l. Length def = Some l \<and> wf_prefix l \<and> encodeUnits def v body = u
          \<and> (\<forall>dst. WriteLen l dst u def = Inr (dst @ pfx))
          \<and> (\<forall>pre rest. ReadLen l (pre @ pfx @ rest) (int (length pre)) def = Inr (u, int (length pre) + int (length pfx))))"
  shows "carries def v pfx body u w"
  unfolding carries_def
proof (intro conjI allI impI)
  fix dst sl wire
  assume sl: "sv sl = v \<and> \<not> fromSrc sl"
  show "appendField EncodeBody dst def sl wire = Inr (dst @ pfx @ body)"
    using len c sl by (auto simp: appendField_def)
next
  fix pre rest :: bytes
  let ?p = "int (length pre)"
  from len show "fieldBodySpan def (pre @ pfx @ body @ rest) ?p =
      Inr (?p + int (length pfx), ?p + int (length pfx) + int (length body), ?p + int (length pfx) + int (length body), u)"
  proof (elim disjE exE conjE)
    fix l
    assume "Length def = Some l" "\<forall>pre rest. ReadLen l (pre @ pfx @ rest) (int (length pre)) def = Inr (u, int (length pre) + int (length pfx))"
    with u show ?thesis by (simp add: fieldBodySpan_def Let_def)
  qed (use u in \<open>simp add: fieldBodySpan_def Let_def\<close>)
next
  show "\<exists>c. Codec def = Some c \<and> DecodeBody c body u def = Inr w" using c by simp
qed

definition framed :: "field_def \<Rightarrow> int \<Rightarrow> bool" where
  "framed def u \<longleftrightarrow> Length def = None \<and> u = MaxLen def \<or> (\<exists>l. Length def = Some l \<and> wf_prefix l \<and> u < capacity l)"

lemma framed_carries:
  assumes c: "Codec def = Some c" "\<And>dst. EncodeBody c dst v def = Inr (dst @ body)" "DecodeBody c body u def = Inr w"
    and u: "0 \<le> u" "wireBytes def u = int (length body)" and "framed def u"
    and units: "Length def \<noteq> None \<Longrightarrow> encodeUnits def v body = u"
  shows "\<exists>pfx. carries def v pfx body u w"
proof (cases "Length def")
  case None
  with assms show ?thesis by (intro exI [of _ "[]"] carriesI) (auto simp: framed_def)
next
  case (Some l)
  then have l: "wf_prefix l" "u < capacity l" using assms(6) by (auto simp: framed_def)
  obtain pfx where "\<forall>dst def. WriteLen l dst u def = Inr (dst @ pfx)"
      "\<forall>pre rest def. ReadLen l (pre @ pfx @ rest) (int (length pre)) def = Inr (u, int (length pre) + int (length pfx))"
    using length_prefix.write_read [OF wf_prefix_contract [OF l(1)] u(1) l(2)] by blast
  with Some l assms show ?thesis by (intro exI [of _ pfx] carriesI) auto
qed

lemma raw_carries:
  assumes c: "Codec def = Some c" "raw_rule c = Some (pad, left, ok)"
    and b: "padFixed (raw v) def pad left = Inr b" "ok b"
    and k: "vkind v \<in> {KindString, KindNumeric, KindBytes}"
    and fr: "framed def (int (length b))"
  shows "\<exists>pfx body. carries def v pfx body (int (length b)) (Value b (codec_Kind c) None (-1) None decimal0)"
proof -
  obtain body where body: "\<And>ber packager dst. codec_encode ber packager c dst v def = Inr (dst @ body)"
      "int (length body) = codec_width c (int (length b))"
      "\<And>ber packager. codec_decode ber packager c body (int (length b)) def = Inr (Value b (codec_Kind c) None (-1) None decimal0)"
    using value_codec.encode_decode [OF raw_rule_contract [OF c(2)], of v def b] b by (auto simp: Bytes_def)
  have "wireBytes def (int (length b)) = int (length body)"
    using body(2) c(1) by (simp add: wireBytes_def codec_width_def split: option.splits)
  moreover have "encodeUnits def v body = int (length b)" if "Length def \<noteq> None"
    using that k padFixed_variable [OF b(1)] by (auto simp: encodeUnits_def isFixed_def Bytes_def)
  ultimately show ?thesis
    using framed_carries [OF c(1), of v body "int (length b)"] body fr
    by (simp add: EncodeBody.simps [of c] DecodeBody.simps [of c]) blast
qed

lemma amount_carries:
  assumes "Codec def = Some AmountASCII" "isFixed def"
    and "amountDigits v def = Inr ds" "padFixed ds def 48 True = Inr b"
    and "value_Decimal v = Inr d" "int64 (Unscaled d)" "Scale d \<le> 18"
  shows "\<exists>pfx d'. carries def v pfx b (int (length b)) (AmountValue d' b) \<and> dec_value d' = dec_value d"
proof -
  obtain d' where d': "\<And>dst. amountASCII_EncodeBody dst v def = Inr (dst @ b)"
      "amountASCII_DecodeBody b def = Inr (AmountValue d' b)" "dec_value d' = dec_value d"
    using amountASCII_roundtrip [OF assms(3-7)] by blast
  have "wireBytes def (int (length b)) = int (length b)" using assms(1) by (simp add: wireBytes_def BodyBytes_def)
  with framed_carries [OF assms(1), of v b "int (length b)" "AmountValue d' b"] d' assms(2) padFixed_fixed [OF assms(4,2)]
  show ?thesis by (auto simp: EncodeBody.simps DecodeBody.simps framed_def isFixed_def)
qed

subsection \<open>Marshalling a built message\<close>

text \<open>The elements of a message are described by functions from the element number: definition, prefix, body,
  unit count and decoded value.\<close>

definition describes :: "schema \<Rightarrow> message \<Rightarrow> int set \<Rightarrow> (int \<Rightarrow> field_def) \<Rightarrow> (int \<Rightarrow> bytes) \<Rightarrow> (int \<Rightarrow> bytes) \<Rightarrow> (int \<Rightarrow> int) \<Rightarrow> (int \<Rightarrow> value) \<Rightarrow> bool" where
  "describes s m A d pf bd u w \<longleftrightarrow> (\<forall>de \<in> A. Field s de = Some (d de) \<and> \<not> fromSrc (slots m ! nat de)
     \<and> carries (d de) (sv (slots m ! nat de)) (pf de) (bd de) (u de) (w de))"

lemma append_fields_image:
  assumes "describes s m {de \<in> set des. present (slots m ! nat de)} d pf bd u w"
  shows "append_fields EncodeBody s m des dst =
    Inr (dst @ concat (map (\<lambda>de. pf de @ bd de) (filter (\<lambda>de. present (slots m ! nat de)) des)))"
  using assms
proof (induction des arbitrary: dst)
  case (Cons de des)
  have IH: "append_fields EncodeBody s m des dst =
      Inr (dst @ concat (map (\<lambda>de. pf de @ bd de) (filter (\<lambda>de. present (slots m ! nat de)) des)))" for dst
    using Cons by (simp add: describes_def)
  show ?case
  proof (cases "present (slots m ! nat de)")
    case True
    then have "Field s de = Some (d de)" "appendField EncodeBody dst (d de) (slots m ! nat de) (src m) = Inr (dst @ pf de @ bd de)"
      using Cons.prems by (simp_all add: describes_def carries_def)
    with True show ?thesis by (simp add: IH Let_def)
  qed (simp add: IH Let_def)
qed simp

lemma IsSet_derive_fold:
  "IsSet (fold (\<lambda>de b. if P de then Bitmap.Set b de else b) des b0) e \<longleftrightarrow> IsSet b0 e \<or> e \<in> set des \<and> P e \<and> in_range e"
  by (induction des arbitrary: b0) (auto simp: IsSet_Set)

lemma IsSet_derive: "IsSet (derive_bitmap m) e \<longleftrightarrow> 1 \<le> e \<and> e \<le> 192 \<and> Has m e"
  by (auto simp: derive_bitmap_def IsSet_derive_fold IsSet_empty in_range_def Has_def)

lemma derive_elements:
  assumes "\<forall>de. 1 \<le> de \<and> Has m de \<longrightarrow> is_data de \<and> de \<le> 192"
  shows "data_elements (derive_bitmap m) = filter (\<lambda>de. present (slots m ! nat de)) [1..int (length (slots m)) - 1]"
proof (rule data_elements_eqI)
  show "sorted_wrt (<) (filter (\<lambda>de. present (slots m ! nat de)) [1..int (length (slots m)) - 1])"
    by (intro sorted_wrt_filter sorted_wrt_upto)
  show "de \<in> set (filter (\<lambda>de. present (slots m ! nat de)) [1..int (length (slots m)) - 1])
      \<longleftrightarrow> IsSet (derive_bitmap m) de \<and> is_data de" for de
    using assms [rule_format, of de] by (auto simp: IsSet_derive Has_def)
qed

subsection \<open>Parsing it back\<close>

lemma walk_image:
  assumes "\<forall>de \<in> set des. Field s de = Some (d de) \<and> carries (d de) (v de) (pf de) (bd de) (u de) (w de)"
  shows "\<exists>es fin. walk s (pre @ concat (map (\<lambda>de. pf de @ bd de) des) @ rest) (int (length pre)) des = Inr (es, fin)
    \<and> map fst es = des
    \<and> (\<forall>(de, sl) \<in> set es. (\<exists>p. sl = span_slot p (p + int (length (pf de))) (p + int (length (pf de)) + int (length (bd de))) (u de))
        \<and> slice (pre @ concat (map (\<lambda>de. pf de @ bd de) des) @ rest) (bodyOff sl) (bodyEnd sl) = bd de)"
  using assms
proof (induction des arbitrary: pre)
  case (Cons de des)
  let ?tail = "concat (map (\<lambda>de. pf de @ bd de) des) @ rest" and ?p = "int (length pre)"
  let ?pre' = "pre @ pf de @ bd de"
  let ?sl = "span_slot ?p (?p + int (length (pf de))) (?p + int (length (pf de)) + int (length (bd de))) (u de)"
  obtain es fin where IH: "walk s (?pre' @ ?tail) (int (length ?pre')) des = Inr (es, fin)" "map fst es = des"
      "\<forall>(de, sl) \<in> set es. (\<exists>p. sl = span_slot p (p + int (length (pf de))) (p + int (length (pf de)) + int (length (bd de))) (u de))
        \<and> slice (?pre' @ ?tail) (bodyOff sl) (bodyEnd sl) = bd de"
    using Cons.IH [of ?pre'] Cons.prems by auto
  have f: "Field s de = Some (d de)" "fieldBodySpan (d de) (pre @ pf de @ bd de @ ?tail) ?p =
      Inr (?p + int (length (pf de)), ?p + int (length (pf de)) + int (length (bd de)), ?p + int (length (pf de)) + int (length (bd de)), u de)"
    using Cons.prems by (auto simp: carries_def)
  have "slice ((pre @ pf de) @ bd de @ ?tail) (?p + int (length (pf de))) (?p + int (length (pf de)) + int (length (bd de))) = bd de"
    using slice_append_mid [of "pre @ pf de" "bd de" ?tail] by simp
  then have "slice (pre @ pf de @ bd de @ ?tail) (bodyOff ?sl) (bodyEnd ?sl) = bd de" by (simp add: span_slot_def)
  with IH f show ?case
    by (intro exI [of _ "(de, ?sl) # es"] exI [of _ fin]) (auto simp: add.assoc)
qed simp

lemma decode_span_slot:
  assumes sl: "slots m ! nat de = span_slot p bo be u" "0 \<le> de" "de < int (length (slots m))"
    and "mschema m = Some s" "Field s de = Some def" "src m = Some wire"
    and "slice wire bo be = body" "Codec def = Some c" "DecodeBody c body u def = Inr w"
  shows "snd (Get m de) = Some (with_off (with_vcodec w (Some c)) bo)"
proof -
  have "message_def m de = Some def" using assms(4,5) by (cases "de = 0") (simp_all add: message_def_def Field_def)
  with assms show ?thesis by (simp add: Get_def decodeSlot_def span_slot_def Let_def)
qed

definition sendable :: "codec \<Rightarrow> message \<Rightarrow> (int \<Rightarrow> value) \<Rightarrow> bool" where
  "sendable c m w \<longleftrightarrow> (let s = cschema c in
     wf_spans s \<and> int (length (slots m)) = maxDE s + 1 \<and> (src m = None \<or> owned m)
     \<and> BmCodec (bitmap_of s) \<noteq> None \<and> 1 \<le> Levels (bitmap_of s) \<and> Levels (bitmap_of s) \<le> 3
     \<and> Has m 0 = (mti s \<noteq> None)
     \<and> (\<forall>de. 1 \<le> de \<and> Has m de \<longrightarrow> is_data de \<and> de \<le> 64 * Levels (bitmap_of s))
     \<and> (\<forall>de. Has m de \<longrightarrow> \<not> fromSrc (slots m ! nat de)
          \<and> (\<exists>def pf bd u. Field s de = Some def \<and> carries def (sv (slots m ! nat de)) pf bd u (w de))))"

text \<open>What is marshalled: the MTI, the derived bitmap and the elements in order.\<close>

lemma Marshal_image:
  assumes ok: "sendable c m w"
  obtains d pf bd u bc bmw bm'
  where "describes (cschema c) m {de. Has m de} d pf bd u w"
    and "BmCodec (bitmap_of (cschema c)) = Some bc"
    and "\<And>pre rest. ReadBitmap bc (pre @ bmw @ rest) (int (length pre)) (Levels (bitmap_of (cschema c)))
      = Inr (bm', int (length pre) + int (length bmw))"
    and "data_elements bm' = filter (\<lambda>de. present (slots m ! nat de)) [1..int (length (slots m)) - 1]"
    and "\<And>dst. Marshal c m dst = Inr (dst @ (if mti (cschema c) = None then [] else pf 0 @ bd 0) @ bmw
      @ concat (map (\<lambda>de. pf de @ bd de) (data_elements bm')))"
proof -
  let ?s = "cschema c" let ?ml = "Levels (bitmap_of (cschema c))"
  have "\<forall>de. \<exists>def pf bd u. Has m de \<longrightarrow> Field ?s de = Some def \<and> \<not> fromSrc (slots m ! nat de)
      \<and> carries def (sv (slots m ! nat de)) pf bd u (w de)"
    using ok by (auto simp: sendable_def Let_def)
  then obtain d pf bd u where ds: "describes ?s m {de. Has m de} d pf bd u w"
    unfolding describes_def by (metis (mono_tags, lifting) mem_Collect_eq)
  obtain bc where bc: "BmCodec (bitmap_of ?s) = Some bc" using ok by (auto simp: sendable_def Let_def)
  have lv: "1 \<le> ?ml" "?ml \<le> 3" and range: "\<And>de. 1 \<le> de \<Longrightarrow> Has m de \<Longrightarrow> is_data de \<and> de \<le> 64 * ?ml"
    using ok by (simp_all add: sendable_def Let_def)
  have not_cont: "\<not> IsSet (derive_bitmap m) 1" "\<not> IsSet (derive_bitmap m) 65"
    using range [of 1] range [of 65] by (auto simp: IsSet_derive is_data_def contSecondary_def contTertiary_def)
  then obtain bmw bm' where bm: "\<And>dst. WriteBitmap bc dst (derive_bitmap m) ?ml = Inr (dst @ bmw)"
      "\<And>pre rest. ReadBitmap bc (pre @ bmw @ rest) (int (length pre)) ?ml = Inr (bm', int (length pre) + int (length bmw))"
      "\<And>de. is_data de \<Longrightarrow> IsSet bm' de = (IsSet (derive_bitmap m) de \<and> (?ml < 3 \<longrightarrow> de \<le> 128) \<and> (?ml < 2 \<longrightarrow> de \<le> 64))"
    using bitmap_reread [OF lv(1), of "derive_bitmap m" bc] by blast
  have de: "data_elements (derive_bitmap m) = filter (\<lambda>de. present (slots m ! nat de)) [1..int (length (slots m)) - 1]"
    using range lv by (intro derive_elements) force
  have "data_elements bm' = data_elements (derive_bitmap m)"
    using data_elements_sorted [of "derive_bitmap m"]
  proof (rule data_elements_eqI)
    show "de \<in> set (data_elements (derive_bitmap m)) \<longleftrightarrow> IsSet bm' de \<and> is_data de" for de
      using bm(3) [of de] range [of de] lv by (auto simp: data_elements_set IsSet_derive)
  qed
  with de have de': "data_elements bm' = filter (\<lambda>de. present (slots m ! nat de)) [1..int (length (slots m)) - 1]" by simp
  have af: "append_fields EncodeBody ?s m [1..int (length (slots m)) - 1] dst =
      Inr (dst @ concat (map (\<lambda>de. pf de @ bd de) (data_elements bm')))" for dst
    unfolding de'
  proof (rule append_fields_image)
    have "Has m de" if "de \<in> set [1..int (length (slots m)) - 1]" "present (slots m ! nat de)" for de
      using that by (simp add: Has_def)
    with ds show "describes ?s m {de \<in> set [1..int (length (slots m)) - 1]. present (slots m ! nat de)} d pf bd u w"
      unfolding describes_def by blast
  qed
  have mt: "appendField EncodeBody dst def (slots m ! 0) (src m) = Inr (dst @ pf 0 @ bd 0)" if "mti ?s = Some def" for dst def
    using ds that ok by (auto simp: describes_def sendable_def Let_def carries_def Field_def)
  have "slots m \<noteq> []" "\<not> (src m \<noteq> None \<and> \<not> owned m)" using ok by (auto simp: sendable_def Let_def wf_spans_def)
  then have "Marshal c m dst = Inr (dst @ (if mti ?s = None then [] else pf 0 @ bd 0) @ bmw
      @ concat (map (\<lambda>de. pf de @ bd de) (data_elements bm')))" for dst
    using bc mt by (cases "mti ?s") (auto simp: Marshal_def marshal_with_def Let_def bm(1) af)
  with ds bc bm(2) de' show thesis by (rule that)
qed

text \<open>The slots of a parsed message, and what reading them gives.\<close>

lemma parsed_slots:
  assumes wf: "wf_spans s" and m': "m' = put_slots es (with_bmap (put_slot (newDecoded s wire i) 0 msl) bm')"
    and es: "map fst es = data_elements bm'"
  shows "int (length (slots m')) = maxDE s + 1" "src m' = Some wire" "mschema m' = Some s"
    and "k < length (slots m') \<Longrightarrow> slots m' ! k = (if k = 0 then msl else case map_of es (int k) of Some sl \<Rightarrow> sl | None \<Rightarrow> slot0)"
proof -
  show "int (length (slots m')) = maxDE s + 1" "src m' = Some wire" "mschema m' = Some s"
    using wf by (simp_all add: m' newDecoded_def wf_spans_def)
  have "distinct (map fst es)" using es data_elements_distinct by simp
  moreover have pos: "\<forall>e \<in> set es. 1 \<le> fst e" using arg_cong [OF es, of set] data_elements_range [of _ bm'] by fastforce
  ultimately show "slots m' ! k = (if k = 0 then msl else case map_of es (int k) of Some sl \<Rightarrow> sl | None \<Rightarrow> slot0)"
    if "k < length (slots m')"
  proof -
    have "map_of es 0 = None" using pos by (auto simp: map_of_eq_None_iff)
    moreover have "\<forall>e \<in> set es. 0 \<le> fst e" using pos by fastforce
    ultimately show ?thesis
      using put_slots_nth [OF \<open>distinct (map fst es)\<close>, of k] that
      by (auto simp: m' newDecoded_def nth_list_update split: option.split)
  qed
qed

lemma parsed_Get:
  assumes wf: "wf_spans s" and m': "m' = put_slots es (with_bmap (put_slot (newDecoded s wire i) 0 msl) bm')"
    and es: "map fst es = data_elements bm'"
      "\<forall>(de, sl) \<in> set es. (\<exists>p. sl = span_slot p (p + int (length (pf de))) (p + int (length (pf de)) + int (length (bd de))) (u de))
        \<and> slice wire (bodyOff sl) (bodyEnd sl) = bd de"
    and des: "\<forall>de \<in> set (data_elements bm'). Field s de = Some (d de) \<and> carries (d de) (v de) (pf de) (bd de) (u de) (w de)"
    and de: "de \<in> set (data_elements bm')"
  shows "Has m' de \<and> (\<exists>o'. snd (Get m' de) = Some (with_off (with_vcodec (w de) (Codec (d de))) o'))"
proof -
  note ps = parsed_slots [OF wf m' es(1)]
  have f: "Field s de = Some (d de)" "carries (d de) (v de) (pf de) (bd de) (u de) (w de)" using bspec [OF des de] by simp_all
  have "de < int (length (defs s))" using data_elements_range [OF de] f(1) by (auto simp: Field_def split: if_splits)
  then have r: "1 \<le> de" "de < int (length (slots m'))"
    using data_elements_range [OF de] ps(1) wf by (simp_all add: wf_spans_def)
  have "de \<in> fst ` set es" using de arg_cong [OF es(1), of set] by simp
  then obtain sl where sl: "map_of es de = Some sl" by (cases "map_of es de") (simp_all add: map_of_eq_None_iff)
  then have at: "slots m' ! nat de = sl" using ps(4) [of "nat de"] r by simp
  obtain p where p: "sl = span_slot p (p + int (length (pf de))) (p + int (length (pf de)) + int (length (bd de))) (u de)"
      "slice wire (bodyOff sl) (bodyEnd sl) = bd de"
    using bspec [OF es(2) map_of_SomeD [OF sl]] by auto
  obtain c where c: "Codec (d de) = Some c" "DecodeBody c (bd de) (u de) (d de) = Inr (w de)"
    using f(2) unfolding carries_def by blast
  have "slice wire (p + int (length (pf de))) (p + int (length (pf de)) + int (length (bd de))) = bd de"
    using p by (simp add: span_slot_def)
  note g = decode_span_slot [OF at [unfolded p(1)] _ r(2) ps(3) f(1) ps(2) this c]
  have "Has m' de" using at p(1) r by (simp add: Has_def span_slot_def)
  with g r c(1) show ?thesis by auto
qed

lemma parsed_Has:
  assumes wf: "wf_spans s" and m': "m' = put_slots es (with_bmap (put_slot (newDecoded s wire i) 0 msl) bm')"
    and es: "map fst es = data_elements bm'"
    and de: "de \<notin> set (data_elements bm')"
  shows "Has m' de = (de = 0 \<and> present msl)"
proof -
  note ps = parsed_slots [OF wf m' es]
  have "slots m' \<noteq> []" using ps(1) wf by (auto simp: wf_spans_def)
  moreover have "map_of es de = None" using de es by (metis list.set_map map_of_eq_None_iff)
  ultimately show ?thesis using ps(4) [of "nat de"] by (cases "0 \<le> de") (auto simp: Has_def)
qed

lemma Unmarshal_image:
  assumes wf: "wf_spans s" "s = cschema c" and bc: "BmCodec (bitmap_of s) = Some bc"
    and rd: "\<And>pre rest. ReadBitmap bc (pre @ bmw @ rest) (int (length pre)) (Levels (bitmap_of s)) = Inr (bm', int (length pre) + int (length bmw))"
    and des: "\<forall>de \<in> set (data_elements bm'). Field s de = Some (d de) \<and> carries (d de) (v de) (pf de) (bd de) (u de) (w de)"
    and mt: "mti s \<noteq> None \<Longrightarrow> mti s = Some (d 0) \<and> carries (d 0) (v 0) (pf 0) (bd 0) (u 0) (w 0)"
    and wire: "wire = (if mti s = None then [] else pf 0 @ bd 0) @ bmw @ concat (map (\<lambda>de. pf de @ bd de) (data_elements bm'))"
  shows "\<exists>m'. Unmarshal c wire = Inr m'
    \<and> (\<forall>de. Has m' de = (de \<in> set (data_elements bm') \<or> de = 0 \<and> mti s \<noteq> None))
    \<and> (\<forall>de. Has m' de \<longrightarrow> (\<exists>o'. snd (Get m' de) = Some (with_off (with_vcodec (w de) (Codec (d de))) o')))"
proof -
  let ?mi = "if mti s = None then [] else pf 0 @ bd 0"
  let ?m0 = "newDecoded s wire (Immutable (opts c))"
  define msl where "msl = (if mti s = None then slot0 else span_slot 0 (int (length (pf 0))) (int (length ?mi)) (u 0))"
  have "put_slot ?m0 0 slot0 = ?m0"
    using wf by (simp add: put_slot_def with_slots_def newDecoded_def list_eq_iff_nth_eq nth_list_update)
  moreover have "fieldBodySpan (d 0) wire 0 = Inr (int (length (pf 0)), int (length ?mi), int (length ?mi), u 0)" if "mti s \<noteq> None"
  proof -
    have "\<forall>rest. fieldBodySpan (d 0) ([] @ pf 0 @ bd 0 @ rest) (int (length ([] :: bytes))) =
        Inr (int (length ([] :: bytes)) + int (length (pf 0)), int (length ([] :: bytes)) + int (length (pf 0)) + int (length (bd 0)),
          int (length ([] :: bytes)) + int (length (pf 0)) + int (length (bd 0)), u 0)"
      using mt [OF that] unfolding carries_def by blast
    then show ?thesis using that by (cases "mti s") (simp_all add: wire)
  qed
  ultimately have mti: "unmarshal_mti s wire ?m0 = Inr (put_slot ?m0 0 msl, int (length ?mi))"
    using mt by (cases "mti s") (simp_all add: unmarshal_mti_def msl_def)
  obtain es fin where es: "walk s wire (int (length ?mi) + int (length bmw)) (data_elements bm') = Inr (es, fin)"
      "map fst es = data_elements bm'"
      "\<forall>(de, sl) \<in> set es. (\<exists>p. sl = span_slot p (p + int (length (pf de))) (p + int (length (pf de)) + int (length (bd de))) (u de))
        \<and> slice wire (bodyOff sl) (bodyEnd sl) = bd de"
    using walk_image [OF des, of "?mi @ bmw" "[]"] unfolding wire by auto
  define m' where "m' = put_slots es (with_bmap (put_slot ?m0 0 msl) bm')"
  have un: "Unmarshal c wire = Inr m'"
    unfolding Unmarshal_walk Let_def wf(2) [symmetric] mti
    using bc es(1) rd [of ?mi] by (simp add: wire m'_def)
  note ps = parsed_slots [OF wf(1) m'_def es(2)] and hs = parsed_Has [OF wf(1) m'_def es(2)]
    and gs = parsed_Get [OF wf(1) m'_def es(2,3) des]
  have msl: "present msl = (mti s \<noteq> None)" by (simp add: msl_def span_slot_def)
  have z: "0 \<notin> set (data_elements bm')" using data_elements_range [of 0 bm'] by auto
  have "\<exists>o'. snd (Get m' 0) = Some (with_off (with_vcodec (w 0) (Codec (d 0))) o')" if mtis: "mti s \<noteq> None"
  proof -
    obtain cd where cd: "Codec (d 0) = Some cd" "DecodeBody cd (bd 0) (u 0) (d 0) = Inr (w 0)"
      using mt [OF mtis] by (auto simp: carries_def)
    have "slice wire (int (length (pf 0))) (int (length (pf 0)) + int (length (bd 0))) = bd 0"
      using mtis slice_append_mid [of "pf 0" "bd 0"] by (cases "mti s") (simp_all add: wire)
    moreover have "slots m' \<noteq> []" using ps(1) wf(1) by (auto simp: wf_spans_def)
    then have "slots m' ! nat 0 = span_slot 0 (int (length (pf 0))) (int (length (pf 0)) + int (length (bd 0))) (u 0)" "0 < int (length (slots m'))"
      using ps(4) [of 0] mtis by (auto simp: msl_def)
    moreover have "Field s 0 = Some (d 0)" using mt [OF mtis] by (simp add: Field_def)
    ultimately show ?thesis
      using decode_span_slot [of m' 0 0 _ _ "u 0" s "d 0" wire "bd 0" cd "w 0"] ps(2,3) cd by auto
  qed
  moreover have "Has m' de = (de \<in> set (data_elements bm') \<or> de = 0 \<and> mti s \<noteq> None)" for de
    using hs [of de] gs [of de] msl z by blast
  ultimately show ?thesis using un gs by (intro exI [of _ m']) blast
qed

lemma roundtrip:
  assumes ok: "sendable c m w"
  shows "\<exists>wire m'. (\<forall>dst. Marshal c m dst = Inr (dst @ wire)) \<and> Unmarshal c wire = Inr m' \<and> (\<forall>de. Has m' de = Has m de)
    \<and> (\<forall>de. Has m de \<longrightarrow> (\<exists>def o'. Field (cschema c) de = Some def \<and> snd (Get m' de) = Some (with_off (with_vcodec (w de) (Codec def)) o')))"
proof (rule Marshal_image [OF ok])
  let ?s = "cschema c"
  fix d pf bd u bc bmw bm'
  assume ds: "describes ?s m {de. Has m de} d pf bd u w" and bc: "BmCodec (bitmap_of ?s) = Some bc"
      and rd: "\<And>pre rest. ReadBitmap bc (pre @ bmw @ rest) (int (length pre)) (Levels (bitmap_of ?s)) = Inr (bm', int (length pre) + int (length bmw))"
      and els: "data_elements bm' = filter (\<lambda>de. present (slots m ! nat de)) [1..int (length (slots m)) - 1]"
      and ma: "\<And>dst. Marshal c m dst = Inr (dst @ (if mti ?s = None then [] else pf 0 @ bd 0) @ bmw
        @ concat (map (\<lambda>de. pf de @ bd de) (data_elements bm')))"
  have has: "de \<in> set (data_elements bm') \<longleftrightarrow> 1 \<le> de \<and> Has m de" for de
    unfolding els by (auto simp: Has_def)
  have h0: "Has m 0 = (mti ?s \<noteq> None)" and wf: "wf_spans ?s" using ok by (simp_all add: sendable_def Let_def)
  have des: "\<forall>de \<in> set (data_elements bm'). Field ?s de = Some (d de) \<and> carries (d de) (sv (slots m ! nat de)) (pf de) (bd de) (u de) (w de)"
    using ds has by (simp add: describes_def)
  have mt: "mti ?s = Some (d 0) \<and> carries (d 0) (sv (slots m ! nat 0)) (pf 0) (bd 0) (u 0) (w 0)" if "mti ?s \<noteq> None"
  proof -
    have "Has m 0" using h0 that by simp
    with ds have "Field ?s 0 = Some (d 0) \<and> carries (d 0) (sv (slots m ! nat 0)) (pf 0) (bd 0) (u 0) (w 0)"
      unfolding describes_def by blast
    then show ?thesis by (simp add: Field_def)
  qed
  define wire where "wire = (if mti ?s = None then [] else pf 0 @ bd 0) @ bmw @ concat (map (\<lambda>de. pf de @ bd de) (data_elements bm'))"
  obtain m' where m': "Unmarshal c wire = Inr m'"
      "\<And>de. Has m' de = (de \<in> set (data_elements bm') \<or> de = 0 \<and> mti ?s \<noteq> None)"
      "\<And>de. Has m' de \<Longrightarrow> \<exists>o'. snd (Get m' de) = Some (with_off (with_vcodec (w de) (Codec (d de))) o')"
    using Unmarshal_image [OF wf refl bc rd des mt wire_def] by blast
  have pos: "0 \<le> de" if "Has m de" for de using that by (simp add: Has_def split: if_splits)
  have eq: "Has m' de = Has m de" for de
    using m'(2) [of de] has [of de] h0 pos [of de] by (cases "de = 0") auto
  have get: "\<exists>def o'. Field ?s de = Some def \<and> snd (Get m' de) = Some (with_off (with_vcodec (w de) (Codec def)) o')" if "Has m de" for de
    using ds that m'(3) [of de] eq [of de] by (simp add: describes_def)
  have "\<forall>dst. Marshal c m dst = Inr (dst @ wire)" unfolding wire_def using ma by blast
  with m'(1) eq get show ?thesis by (intro exI [of _ wire] exI [of _ m'] conjI allI impI) simp_all
qed

subsection \<open>Messages built through the interface\<close>

inductive built :: "schema \<Rightarrow> message \<Rightarrow> bool" for s where
  new: "built s (New s)"
| set_de: "built s m \<Longrightarrow> Set_de m de v = (m', None) \<Longrightarrow> built s m'"
| read: "built s m \<Longrightarrow> built s (fst (Get m de))"
| unset: "built s m \<Longrightarrow> built s (Unset m de)"

definition own_slots :: "schema \<Rightarrow> message \<Rightarrow> bool" where
  "own_slots s m \<longleftrightarrow> src m = None \<and> mschema m = Some s \<and> length (slots m) = nat (maxDE s + 1)
     \<and> list_all (\<lambda>sl. \<not> fromSrc sl \<and> (present sl \<longrightarrow> decoded sl)) (slots m)"

lemma own_slots_put: "own_slots s m \<Longrightarrow> \<not> fromSrc sl \<Longrightarrow> (present sl \<longrightarrow> decoded sl) \<Longrightarrow> own_slots s (put_slot m de sl)"
  by (simp add: own_slots_def list_all_update)

lemma own_slots_with [simp]:
  "own_slots s (with_owned m b) = own_slots s m" "own_slots s (with_bmap m x) = own_slots s m"
  "own_slots s (mark_set m de) = own_slots s m"
  by (simp_all add: own_slots_def)

lemma own_slots_Get: "own_slots s m \<Longrightarrow> Get m de = (m, if Has m de then Some (sv (slots m ! nat de)) else None)"
  by (auto simp: Get_def Has_def decodeSlot_def own_slots_def list_all_length Let_def)

lemma built_own: "built s m \<Longrightarrow> own_slots s m"
proof (induction rule: built.induct)
  case new
  then show ?case by (simp add: own_slots_def New_def list_all_iff slot0_def)
next
  case (set_de m de v m')
  from set_de(2) show ?case
    by (rule Set_de_ok) (use set_de(3) in \<open>simp add: own_slots_put\<close>)
next
  case (read m de)
  then show ?case by (simp add: own_slots_Get)
next
  case (unset m de)
  then show ?case by (simp add: Unset_def Let_def own_slots_put slot0_def)
qed

text \<open>An element the catalog codecs carry: text, digits or bytes in a raw codec, or a fixed-width decimal
  amount. \<open>b\<close> is its canonical, padded form.\<close>

definition elem_ok :: "field_def \<Rightarrow> value \<Rightarrow> bytes \<Rightarrow> bool" where
  "elem_ok def v b \<longleftrightarrow>
     (\<exists>c pad left ok. Codec def = Some c \<and> raw_rule c = Some (pad, left, ok) \<and> padFixed (raw v) def pad left = Inr b \<and> ok b
        \<and> vkind v \<in> {KindString, KindNumeric, KindBytes} \<and> framed def (int (length b)))
     \<or> (\<exists>ds d. Codec def = Some AmountASCII \<and> isFixed def \<and> amountDigits v def = Inr ds \<and> padFixed ds def 48 True = Inr b
        \<and> value_Decimal v = Inr d \<and> int64 (Unscaled d) \<and> Scale d \<le> 18)"

definition same_elem :: "field_def \<Rightarrow> value \<Rightarrow> bytes \<Rightarrow> value \<Rightarrow> bool" where
  "same_elem def v b x \<longleftrightarrow> raw x = b \<and> (\<exists>c. Codec def = Some c \<and> vkind x = codec_Kind c)
     \<and> (Codec def = Some AmountASCII \<longrightarrow> (\<exists>d d'. value_Decimal v = Inr d \<and> value_Decimal x = Inr d' \<and> dec_value d' = dec_value d))"

lemma elem_ok_carries:
  assumes "elem_ok def v b"
  shows "\<exists>pf bd u w. carries def v pf bd u w \<and> (\<forall>c o'. same_elem def v b (with_off (with_vcodec w c) o'))"
  using assms unfolding elem_ok_def
proof (elim disjE exE conjE)
  fix c pad left ok
  assume c: "Codec def = Some c" "raw_rule c = Some (pad, left, ok)"
    and "padFixed (raw v) def pad left = Inr b" "ok b" "vkind v \<in> {KindString, KindNumeric, KindBytes}" "framed def (int (length b))"
  then obtain pf bd where "carries def v pf bd (int (length b)) (Value b (codec_Kind c) None (-1) None decimal0)"
    using raw_carries by blast
  moreover have "c \<noteq> AmountASCII" using c(2) by (auto simp: raw_rule_def)
  ultimately show ?thesis using c(1) by (fastforce simp: same_elem_def)
next
  fix ds d
  assume a: "Codec def = Some AmountASCII" "isFixed def" "amountDigits v def = Inr ds" "padFixed ds def 48 True = Inr b"
    "value_Decimal v = Inr d" "int64 (Unscaled d)" "Scale d \<le> 18"
  then obtain pf d' where "carries def v pf b (int (length b)) (AmountValue d' b)" "dec_value d' = dec_value d"
    using amount_carries by blast
  with a show ?thesis
    by (intro exI [of _ pf] exI [of _ b] exI [of _ "int (length b)"] exI [of _ "AmountValue d' b"])
      (simp add: same_elem_def AmountValue_def codec_Kind_def value_Decimal_def)
qed

text \<open>A composite element goes through the packager: it carries a child that can itself be sent.\<close>

lemma packager_carries:
  assumes def: "Codec def = Some SubfieldISO" "Sub def = Some cs"
    and v: "vkind v = KindComposite" "sub v = Some child" and child: "sendable (NewCodec cs []) child w"
    and fr: "\<And>wire. Marshal (NewCodec cs []) child [] = Inr wire \<Longrightarrow> framed def (int (length wire))"
  shows "\<exists>pf bd child'. carries def v pf bd (int (length bd)) (CompositeValue bd child') \<and> (\<forall>de. Has child' de = Has child de)
    \<and> (\<forall>de. Has child de \<longrightarrow> (\<exists>d o'. Field cs de = Some d \<and> snd (Get child' de) = Some (with_off (with_vcodec (w de) (Codec d)) o')))"
proof -
  obtain wire child' where rt: "\<And>dst. Marshal (NewCodec cs []) child dst = Inr (dst @ wire)" "Unmarshal (NewCodec cs []) wire = Inr child'"
      "\<forall>de. Has child' de = Has child de"
      "\<forall>de. Has child de \<longrightarrow> (\<exists>d o'. Field cs de = Some d \<and> snd (Get child' de) = Some (with_off (with_vcodec (w de) (Codec d)) o'))"
    using roundtrip [OF child] by (auto simp: NewCodec_def)
  have "Composite v = Some child" using v by (simp add: Composite_def)
  then have "EncodeBody SubfieldISO dst v def = Inr (dst @ wire)" for dst
    using def rt(1) [of "[]"] by (simp add: EncodeBody.simps packager_EncodeBody_def Marshal_def)
  moreover have "DecodeBody SubfieldISO wire (int (length wire)) def = Inr (CompositeValue wire child')"
    using def rt(2) by (simp add: DecodeBody.simps packager_DecodeBody_def)
  moreover have "wireBytes def (int (length wire)) = int (length wire)" using def by (simp add: wireBytes_def BodyBytes_def)
  moreover have "encodeUnits def v wire = int (length wire)" using v by (simp add: encodeUnits_def)
  ultimately obtain pf where "carries def v pf wire (int (length wire)) (CompositeValue wire child')"
    using framed_carries [OF def(1), of v wire "int (length wire)"] fr [of wire] rt(1) [of "[]"] by auto
  with rt(3,4) show ?thesis by blast
qed

subsection \<open>A message to send\<close>

definition demo_slot :: "value \<Rightarrow> slot" where
  "demo_slot v = Slot v True True True False 0 0 0 0"

definition demo_sent :: message where
  "demo_sent = Message (Some demo_schema) None (Bitmap.Set bitmap0 3)
     [demo_slot (Value [48, 50, 48, 48] KindNumeric (Some NumASCII) 0 None decimal0), slot0, slot0,
      demo_slot (Value [65, 66] KindString (Some Ascii) 0 None decimal0), slot0, slot0] True (Bitmap.Set bitmap0 3) False [] []"

lemma demo_sent_built: "built demo_schema demo_sent"
proof -
  have r6: "replicate 6 slot0 = [slot0, slot0, slot0, slot0, slot0, slot0]" by (simp add: eval_nat_numeral)
  obtain m0 where m0: "Set_de (New demo_schema) 0 (AString [48, 50, 48, 48]) = (m0, None)" "Set_de m0 3 (AString [65, 66]) = (demo_sent, None)"
    by (simp add: Set_de_def New_def message_def_def demo_fields fixed_num_def ll_text_def makeValue_def scalarFromBytes_def
        with_defs mark_set_def written_slot_def demo_sent_def demo_slot_def slot0_def r6 [unfolded slot0_def])
  show ?thesis
    by (rule built.set_de [OF built.set_de [OF built.new m0(1)] m0(2)])
qed

definition demo_canon :: "int \<Rightarrow> bytes" where
  "demo_canon de = (if de = 0 then [48, 50, 48, 48] else [65, 66])"

lemma demo_sent_Has: "Has demo_sent de \<longleftrightarrow> de = 0 \<or> de = 3"
proof -
  have "0 \<le> de \<and> de < 6 \<Longrightarrow> de \<in> {0, 1, 2, 3, 4, 5}" by auto
  then show ?thesis by (auto simp: Has_def demo_sent_def demo_slot_def)
qed

lemma demo_sent_elems:
  assumes "snd (Get demo_sent de) = Some v"
  shows "\<exists>def. Field demo_schema de = Some def \<and> elem_ok def v (demo_canon de)"
proof -
  have "de = 0 \<or> de = 3" "v = sv (slots demo_sent ! nat de)"
    using assms own_slots_Get [OF built_own [OF demo_sent_built], of de] by (simp_all add: demo_sent_Has split: if_splits)
  then consider "de = 0" "v = Value [48, 50, 48, 48] KindNumeric (Some NumASCII) 0 None decimal0"
    | "de = 3" "v = Value [65, 66] KindString (Some Ascii) 0 None decimal0"
    by (auto simp: demo_sent_def demo_slot_def)
  then show ?thesis
  proof cases
    case 1
    then show ?thesis
      by (auto simp: demo_schema_def Field_def elem_ok_def fixed_num_def raw_rule_def padFixed_def isFixed_def framed_def demo_canon_def)
  next
    case 2
    then show ?thesis
      by (auto simp: demo_fields elem_ok_def ll_text_def raw_rule_def padFixed_def isFixed_def framed_def demo_canon_def
        LLVarASCII_def wf_prefix_def capacity_def)
  qed
qed

subsection \<open>Properties\<close>

lemma built_parses_back:
  assumes "built s m" and "wf_spans s"
    and "BmCodec (bitmap_of s) \<noteq> None" and "1 \<le> Levels (bitmap_of s)" and "Levels (bitmap_of s) \<le> 3"
    and "Has m 0 = (mti s \<noteq> None)"
    and "\<forall>de. 1 \<le> de \<and> Has m de \<longrightarrow> is_data de \<and> de \<le> 64 * Levels (bitmap_of s)"
    and "\<forall>de v. snd (Get m de) = Some v \<longrightarrow> (\<exists>def. Field s de = Some def \<and> elem_ok def v (b de))"
  shows "\<exists>wire m'. (\<forall>dst. Marshal (NewCodec s os) m dst = Inr (dst @ wire)) \<and> Unmarshal (NewCodec s os) wire = Inr m'
    \<and> (\<forall>de. Has m' de = Has m de)
    \<and> (\<forall>de v. snd (Get m de) = Some v \<longrightarrow>
        (\<exists>def x. Field s de = Some def \<and> snd (Get m' de) = Some x \<and> same_elem def v (b de) x))"
proof -
  let ?v = "\<lambda>de. sv (slots m ! nat de)"
  note own = built_own [OF assms(1)]
  have elem: "\<exists>def. Field s de = Some def \<and> elem_ok def (?v de) (b de)" if "Has m de" for de
    using assms(8) own_slots_Get [OF own, of de] that by simp
  then have "\<forall>de. \<exists>w. Has m de \<longrightarrow> (\<exists>def pf bd u. Field s de = Some def \<and> carries def (?v de) pf bd u w
      \<and> (\<forall>c o'. same_elem def (?v de) (b de) (with_off (with_vcodec w c) o')))"
    using elem_ok_carries by blast
  then obtain w where w: "\<forall>de. Has m de \<longrightarrow> (\<exists>def pf bd u. Field s de = Some def \<and> carries def (?v de) pf bd u (w de)
      \<and> (\<forall>c o'. same_elem def (?v de) (b de) (with_off (with_vcodec (w de) c) o')))"
    by metis
  have "\<not> fromSrc (slots m ! nat de)" if "Has m de" for de
    using own that by (auto simp: own_slots_def list_all_length Has_def split: if_splits)
  then have els: "\<forall>de. Has m de \<longrightarrow> \<not> fromSrc (slots m ! nat de)
      \<and> (\<exists>def pf bd u. Field s de = Some def \<and> carries def (?v de) pf bd u (w de))"
    using w by blast
  have "int (length (slots m)) = maxDE s + 1" "src m = None" using own assms(2) by (auto simp: own_slots_def wf_spans_def)
  with els have "sendable (NewCodec s os) m w"
    unfolding sendable_def Let_def using assms(2-7) by (simp add: NewCodec_def)
  from roundtrip [OF this] obtain wire m' where rt: "\<forall>dst. Marshal (NewCodec s os) m dst = Inr (dst @ wire)"
      "Unmarshal (NewCodec s os) wire = Inr m'" "\<forall>de. Has m' de = Has m de"
      "\<forall>de. Has m de \<longrightarrow> (\<exists>def o'. Field s de = Some def \<and> snd (Get m' de) = Some (with_off (with_vcodec (w de) (Codec def)) o'))"
    by (auto simp: NewCodec_def)
  have "\<exists>def x. Field s de = Some def \<and> snd (Get m' de) = Some x \<and> same_elem def v (b de) x" if "snd (Get m de) = Some v" for de v
  proof -
    have "Has m de" "v = ?v de" using that own_slots_Get [OF own, of de] by (simp_all split: if_splits)
    moreover from this w obtain def where "Field s de = Some def"
        "\<forall>c o'. same_elem def (?v de) (b de) (with_off (with_vcodec (w de) c) o')" by blast
    ultimately show ?thesis using rt(4) by auto
  qed
  with rt(1-3) show ?thesis by blast
qed

text \<open>C1: build, marshal, parse, read. Take a message built by \<open>Set\<close>, \<open>Unset\<close> and reads, whose
  elements are values the catalog codecs carry (text, digits, bytes, or a decimal amount, fixed or behind a
  length prefix with room for it) and lie within the bitmap levels of the schema. Marshalling it succeeds,
  parsing the result succeeds, the parsed message has exactly the same elements present, and each of them reads as
  the canonical form of the value that was set, an amount exactly.\<close>

theorem message_roundtrip:
  assumes "built s m" and "wf_spans s"
    and "BmCodec (bitmap_of s) \<noteq> None" and "1 \<le> Levels (bitmap_of s)" and "Levels (bitmap_of s) \<le> 3"
    and "Has m 0 = (mti s \<noteq> None)"
    and "\<forall>de. 1 \<le> de \<and> Has m de \<longrightarrow> is_data de \<and> de \<le> 64 * Levels (bitmap_of s)"
    and "\<forall>de v. snd (Get m de) = Some v \<longrightarrow> (\<exists>def. Field s de = Some def \<and> elem_ok def v (b de))"
  shows "\<exists>wire m'. (\<forall>dst. Marshal (NewCodec s os) m dst = Inr (dst @ wire)) \<and> Unmarshal (NewCodec s os) wire = Inr m'
    \<and> (\<forall>de. Has m' de = Has m de)
    \<and> (\<forall>de v. snd (Get m de) = Some v \<longrightarrow>
        (\<exists>def x. Field s de = Some def \<and> snd (Get m' de) = Some x \<and> same_elem def v (b de) x))"
  by (rule built_parses_back [OF assms])

theorem message_roundtrip_witness:
  "\<exists>wire m'. Marshal (NewCodec demo_schema []) demo_sent [] = Inr wire \<and> Unmarshal (NewCodec demo_schema []) wire = Inr m'
    \<and> Has m' 3 \<and> \<not> Has m' 2"
proof -
  have "wf_spans demo_schema" using demo_wf by (simp add: NewCodec_def)
  moreover have "BmCodec (bitmap_of demo_schema) \<noteq> None" "1 \<le> Levels (bitmap_of demo_schema)" "Levels (bitmap_of demo_schema) \<le> 3"
    by (simp_all add: demo_fields)
  moreover have "Has demo_sent 0 = (mti demo_schema \<noteq> None)"
      "\<forall>de. 1 \<le> de \<and> Has demo_sent de \<longrightarrow> is_data de \<and> de \<le> 64 * Levels (bitmap_of demo_schema)"
    by (auto simp: demo_sent_Has demo_fields is_data_def contSecondary_def contTertiary_def)
  moreover have "\<forall>de v. snd (Get demo_sent de) = Some v \<longrightarrow> (\<exists>def. Field demo_schema de = Some def \<and> elem_ok def v (demo_canon de))"
    using demo_sent_elems by blast
  ultimately obtain wire m' where "\<forall>dst. Marshal (NewCodec demo_schema []) demo_sent dst = Inr (dst @ wire)"
      "Unmarshal (NewCodec demo_schema []) wire = Inr m'" "\<forall>de. Has m' de = Has demo_sent de"
    using message_roundtrip [OF demo_sent_built, of demo_canon "[]"] by blast
  then show ?thesis by (intro exI [of _ wire] exI [of _ m']) (simp add: demo_sent_Has)
qed

end
