(* ===== verification/Packager.thy ===== *)
theory Packager
  imports PackagerTables RoundTrip
begin

text \<open>
  The built-in profiles of \<^verbatim>\<open>src/packager\<close>: the assembly of a schema from a directory and a
  representation (\<^verbatim>\<open>packager.go\<close>), the ISO 8583:1987 and 1993 profiles, the Visa and Mastercard
  overlays, and the three switch layouts. A constructor panics when its schema does not build, which is
  \<open>None\<close> here; the lemmas show that none does, that every profile is safe to parse with, and that
  messages round trip over every one of them.
\<close>

subsection \<open>Assembly\<close>

record rep =
  r_num :: field_codec
  r_alpha :: field_codec
  r_amount :: field_codec
  r_binary :: field_codec
  r_lenLL :: length_codec
  r_lenLLL :: length_codec
  r_bitmap :: word_repr
  r_levels :: int
  r_mti :: field_codec

definition valueFor :: "rep \<Rightarrow> dataType \<Rightarrow> field_codec" where
  "valueFor r t = (case t of tNum \<Rightarrow> r_num r | tAlpha \<Rightarrow> r_alpha r | tBinary \<Rightarrow> r_binary r | tAmount \<Rightarrow> r_amount r | tEMV \<Rightarrow> r_alpha r)"

definition lengthFor :: "rep \<Rightarrow> lenType \<Rightarrow> length_codec option" where
  "lengthFor r l = (case l of lLL \<Rightarrow> Some (r_lenLL r) | lLLL \<Rightarrow> Some (r_lenLLL r) | lFixed \<Rightarrow> None)"

definition emv_builder :: schema_builder where
  "emv_builder = fold (\<lambda>(tag, nm, c, os) b. b_Tag b (bytes_of tag) (bytes_of nm) (Some c) os)
     [(''9F26'', ''Application Cryptogram'', BinaryRaw, []),
      (''9F27'', ''Cryptogram Information Data'', BinaryRaw, [opt_MaxLen 1]),
      (''9F10'', ''Issuer Application Data'', BinaryRaw, []),
      (''9F36'', ''Application Transaction Counter'', BinNum, [opt_MaxLen 2]),
      (''9F37'', ''Unpredictable Number'', BinaryRaw, [opt_MaxLen 4]),
      (''95'', ''Terminal Verification Results'', BinaryRaw, [opt_MaxLen 5]),
      (''9A'', ''Transaction Date'', BinNum, [opt_MaxLen 3]),
      (''9C'', ''Transaction Type'', BinNum, [opt_MaxLen 1]),
      (''5F2A'', ''Transaction Currency Code'', BinNum, [opt_MaxLen 2]),
      (''82'', ''Application Interchange Profile'', BinaryRaw, [opt_MaxLen 2]),
      (''9F1A'', ''Terminal Country Code'', BinNum, [opt_MaxLen 2]),
      (''9F03'', ''Amount Other'', BinNum, [opt_MaxLen 6]),
      (''9F02'', ''Amount Authorised'', BinNum, [opt_MaxLen 6])]
     (NewSchema (bytes_of ''emv-55''))"

definition emvSchema :: "schema option" where
  "emvSchema = MustBuild emv_builder"

text \<open>The body of the loop over the directory.\<close>

definition add_spec :: "rep \<Rightarrow> fieldSpec \<Rightarrow> schema_builder \<Rightarrow> schema_builder" where
  "add_spec r f b =
     (let opts = [opt_MaxLen (fs_max f)] @ (if fs_typ f = tAmount then [opt_Scale (fs_scale f)] else []) in
      if fs_typ f = tEMV then b_Composite b (fs_de f) (fs_name f) emvSchema (lengthFor r (fs_ln f)) [WithCodec (Some BerTLV)]
      else b_Field b (fs_de f) (fs_name f) (Some (valueFor r (fs_typ f))) (lengthFor r (fs_ln f)) opts)"

definition iso_builder :: "bytes \<Rightarrow> fieldSpec list \<Rightarrow> rep \<Rightarrow> schema_builder" where
  "iso_builder i dir r =
     fold (add_spec r) dir (b_Bitmap (b_MTI (NewSchema i) (Some (r_mti r))) \<lparr>BmCodec = Some (r_bitmap r), Levels = r_levels r\<rparr>)"

definition pkg_build :: "bytes \<Rightarrow> fieldSpec list \<Rightarrow> rep \<Rightarrow> schema option" where
  "pkg_build i dir r = MustBuild (iso_builder i dir r)"

subsection \<open>ISO 8583:1987 and 1993\<close>

definition repASCII :: rep where
  "repASCII = \<lparr>r_num = NumASCII, r_alpha = Ascii, r_amount = AmountASCII, r_binary = BinaryRaw,
     r_lenLL = LLVarASCII, r_lenLLL = LLLVarASCII, r_bitmap = HexWord, r_levels = 2, r_mti = NumASCII\<rparr>"

definition repBCD :: rep where
  "repBCD = \<lparr>r_num = BcdNum, r_alpha = Ascii, r_amount = AmountBCD, r_binary = BinaryRaw,
     r_lenLL = LLVarBCD, r_lenLLL = LLLVarBCD, r_bitmap = BinWord, r_levels = 2, r_mti = BcdNum\<rparr>"

definition repEBCDIC :: rep where
  "repEBCDIC = \<lparr>r_num = NumEBCDIC, r_alpha = EBCDIC037, r_amount = AmountASCII, r_binary = BinaryRaw,
     r_lenLL = LLVarEBCDIC, r_lenLLL = LLLVarEBCDIC, r_bitmap = EbcdicWord, r_levels = 2, r_mti = NumEBCDIC\<rparr>"

definition ISO87A :: "schema option" where "ISO87A = pkg_build (bytes_of ''iso87-a'') iso87Dir repASCII"

definition ISO87B :: "schema option" where "ISO87B = pkg_build (bytes_of ''iso87-b'') iso87Dir repBCD"

definition ISO87C :: "schema option" where "ISO87C = pkg_build (bytes_of ''iso87-c'') iso87Dir repEBCDIC"

definition iso93Directory :: "fieldSpec list" where
  "iso93Directory = map (\<lambda>f. if fs_de f = 39 then f\<lparr>fs_max := 3\<rparr> else f) iso87Dir
     @ [fieldSpec_of 56 ''Message Reason Code'' tNum lLLL 4 0, fieldSpec_of 95 ''Replacement Amounts'' tAlpha lFixed 42 0]"

definition ISO93A :: "schema option" where "ISO93A = pkg_build (bytes_of ''iso93-a'') iso93Directory repASCII"

definition ISO93B :: "schema option" where "ISO93B = pkg_build (bytes_of ''iso93-b'') iso93Directory repBCD"

text \<open>The card-scheme overlays.\<close>

definition visa_builder :: "schema \<Rightarrow> schema_builder" where
  "visa_builder s = b_Override (b_Override (Derive s (bytes_of ''visa-base1''))
     62 [WithCodec (Some BinaryRaw), opt_MaxLen 255]) 63 [WithCodec (Some BinaryRaw), opt_MaxLen 255]"

definition VisaBaseI :: "schema option" where
  "VisaBaseI = Option.bind ISO93A (\<lambda>s. MustBuild (visa_builder s))"

definition mastercard_builder :: "schema \<Rightarrow> schema_builder" where
  "mastercard_builder s = b_Override (b_Override (Derive s (bytes_of ''mastercard''))
     48 [opt_MaxLen 999]) 63 [WithCodec (Some BinaryRaw), opt_MaxLen 512]"

definition Mastercard :: "schema option" where
  "Mastercard = Option.bind ISO93A (\<lambda>s. MustBuild (mastercard_builder s))"

subsection \<open>Switch layouts\<close>

text \<open>\<open>Postilion\<close>, \<open>CoralPay\<close> and \<open>Zone\<close> are the same steps over different tables and codecs: a
  headerless sub-schema for element 127, then the message schema around it.\<close>

definition add_post :: "postField \<Rightarrow> schema_builder \<Rightarrow> schema_builder" where
  "add_post f b = b_Field b (pf_de f) (pf_name f) (Some (pf_value f)) (pf_length f) [opt_MaxLen (pf_max f)]"

definition sub_builder :: "bytes \<Rightarrow> word_repr \<Rightarrow> int \<Rightarrow> postField list \<Rightarrow> schema_builder" where
  "sub_builder i w levels tbl =
     fold add_post tbl (b_Bitmap (Headerless (NewSchema i)) \<lparr>BmCodec = Some w, Levels = levels\<rparr>)"

definition switch_builder :: "bytes \<Rightarrow> field_codec \<Rightarrow> word_repr \<Rightarrow> postField list \<Rightarrow> schema option \<Rightarrow> schema_builder" where
  "switch_builder i mt w tbl cs =
     b_Composite (fold add_post tbl (b_Bitmap (b_MTI (NewSchema i) (Some mt)) \<lparr>BmCodec = Some w, Levels = 2\<rparr>))
       127 (bytes_of ''RESERVED PRIVATE USE'') cs pLLLLLL [WithCodec (Some SubfieldISO)]"

definition Postilion :: "schema option" where
  "Postilion = Option.bind (MustBuild (sub_builder (bytes_of ''postilion-127'') BinWord 2 postilionSub127))
     (\<lambda>cs. MustBuild (switch_builder (bytes_of ''postilion'') NumASCII BinWord postilionFields (Some cs)))"

definition CoralPay :: "schema option" where
  "CoralPay = Option.bind (MustBuild (sub_builder (bytes_of ''coralpay-127'') HexWord 1 coralpaySub127))
     (\<lambda>cs. MustBuild (switch_builder (bytes_of ''coralpay'') Ascii HexWord coralpayFields (Some cs)))"

definition Zone :: "schema option" where
  "Zone = Option.bind (MustBuild (sub_builder (bytes_of ''zone-127'') BinWord 1 zoneSub127))
     (\<lambda>cs. MustBuild (switch_builder (bytes_of ''zone'') NumASCII BinWord zoneFields (Some cs)))"

subsection \<open>The table of profiles\<close>

text \<open>\<open>Profiles\<close> maps a name to a constructor; the value here is what the constructor returns. The
  outer option of \<open>Profile\<close> is the flag of the comma-ok result.\<close>

definition Profiles :: "(bytes \<times> schema option) list" where
  "Profiles = [(bytes_of ''iso87-a'', ISO87A), (bytes_of ''iso87-b'', ISO87B), (bytes_of ''iso87-c'', ISO87C),
     (bytes_of ''iso93-a'', ISO93A), (bytes_of ''iso93-b'', ISO93B), (bytes_of ''visa-base1'', VisaBaseI),
     (bytes_of ''mastercard'', Mastercard), (bytes_of ''postilion'', Postilion), (bytes_of ''coralpay'', CoralPay),
     (bytes_of ''zone'', Zone)]"

definition Profile :: "bytes \<Rightarrow> schema option option" where
  "Profile i = map_of Profiles i"

subsection \<open>Builders made from tables\<close>

lemma update_fresh: "k \<notin> fst ` set al \<Longrightarrow> AList.update k v al = al @ [(k, v)]"
  by (induction al) auto

lemma put_def_fresh: "de \<notin> fst ` set (b_defs b) \<Longrightarrow> put_def b de d = b\<lparr>b_defs := b_defs b @ [(de, d)]\<rparr>"
  by (simp add: put_def_def Let_def update_fresh map_of_eq_None_iff)

lemma fold_put_def:
  assumes "distinct (map f xs)" "f ` set xs \<inter> fst ` set (b_defs b) = {}"
  shows "fold (\<lambda>x b. put_def b (f x) (g x)) xs b = b\<lparr>b_defs := b_defs b @ map (\<lambda>x. (f x, g x)) xs\<rparr>"
  using assms
proof (induction xs arbitrary: b)
  case (Cons x xs)
  have "put_def b (f x) (g x) = b\<lparr>b_defs := b_defs b @ [(f x, g x)]\<rparr>"
    using Cons.prems by (intro put_def_fresh) auto
  then show ?case using Cons by auto
qed simp

lemma builder_fold: "builder b \<Longrightarrow> (\<And>x b. builder b \<Longrightarrow> builder (step x b)) \<Longrightarrow> builder (fold step xs b)"
  by (induction xs arbitrary: b) auto

definition spec_def :: "rep \<Rightarrow> fieldSpec \<Rightarrow> field_def" where
  "spec_def r f =
     (if fs_typ f = tEMV then applyOpts (new_def (DE (fs_de f)) (fs_name f) KindComposite None (lengthFor r (fs_ln f)) emvSchema) [WithCodec (Some BerTLV)]
      else applyOpts (new_def (DE (fs_de f)) (fs_name f) (codec_Kind (valueFor r (fs_typ f))) (Some (valueFor r (fs_typ f))) (lengthFor r (fs_ln f)) None)
        ([opt_MaxLen (fs_max f)] @ (if fs_typ f = tAmount then [opt_Scale (fs_scale f)] else [])))"

definition post_def :: "postField \<Rightarrow> field_def" where
  "post_def f = applyOpts (new_def (DE (pf_de f)) (pf_name f) (codec_Kind (pf_value f)) (Some (pf_value f)) (pf_length f) None) [opt_MaxLen (pf_max f)]"

lemma add_spec_put: "add_spec r = (\<lambda>f b. put_def b (fs_de f) (spec_def r f))"
  by (intro ext) (simp add: add_spec_def spec_def_def b_Field_def b_Composite_def kindOf_def Let_def)

lemma add_post_put: "add_post = (\<lambda>f b. put_def b (pf_de f) (post_def f))"
  by (intro ext) (simp add: add_post_def post_def_def b_Field_def kindOf_def)

lemma builder_add_spec: "builder b \<Longrightarrow> builder (add_spec r f b)"
  unfolding add_spec_def Let_def by (simp add: builder.intros)

lemma builder_add_post: "builder b \<Longrightarrow> builder (add_post f b)"
  unfolding add_post_def by (rule builder.field)

subsection \<open>Profiles that are in order\<close>

text \<open>A builder without errors, of a positional schema with an MTI and a two-level bitmap, whose elements
  are in 2..128 and have a prefix of the catalog with room for the declared maximum.\<close>

definition in_order :: "int \<times> field_def \<Rightarrow> bool" where
  "in_order e \<longleftrightarrow> def_ok e \<and> 2 \<le> fst e \<and> fst e \<le> 128 \<and> prefix_room (Length (snd e)) (MaxLen (snd e)) \<and>
     (Length (snd e) = None \<longrightarrow> Sub (snd e) = None)"

definition profile_builder :: "schema_builder \<Rightarrow> bool" where
  "profile_builder b \<longleftrightarrow> builder b \<and> build_errors b = [] \<and> \<not> b_isTLV b \<and> b_mti b \<noteq> None \<and> Levels (b_bitmap b) = 2 \<and>
     (\<forall>e \<in> set (b_defs b). in_order e)"

lemma Build_no_errors: "build_errors b = [] \<Longrightarrow> \<exists>s. Build b = Inr s"
  by (simp add: Build_def Let_def)

lemma Build_errors: "Build b = Inr s \<Longrightarrow> build_errors b = []"
  by (auto simp: Build_def Let_def split: if_splits)

lemma MustBuild_Some: "MustBuild b = Some s \<longleftrightarrow> Build b = Inr s"
  by (simp add: MustBuild_def split: sum.split)

text \<open>A builder made from a table has no errors when its rows are in order.\<close>

lemma table_no_errors:
  assumes "b_errs b = []" "b_id b \<noteq> []" "b_order b = []" "BmCodec (b_bitmap b) \<noteq> None"
    "1 \<le> Levels (b_bitmap b)" "Levels (b_bitmap b) \<le> 3" "b_mti b \<noteq> None \<or> b_headerless b" "\<forall>e \<in> set (b_defs b). def_ok e"
  shows "build_errors b = []"
proof -
  have "fst (build_defs (b_defs b) 0) = []"
    using assms(8) by (simp add: build_defs_errs list_all_iff)
  with assms show ?thesis by (auto simp: build_errors_def)
qed

lemmas opt_sel = applyOpts_def new_def_def opt_MaxLen_def opt_Scale_def WithCodec_def kindOf_def codec_Kind_def

lemma post_def_in_order: "post_ok f \<Longrightarrow> in_order (pf_de f, post_def f)"
  by (auto simp: in_order_def def_ok_def validateDef_def post_def_def post_ok_def maxFieldUnits_def applyOpts_def new_def_def opt_MaxLen_def)

lemma emv_no_errors: "build_errors emv_builder = []"
  by code_simp

lemma emvSchema_built: "\<exists>s. emvSchema = Some s"
  using Build_no_errors [OF emv_no_errors] by (auto simp: emvSchema_def MustBuild_Some)

text \<open>A representation whose prefixes have room for two and three digits and whose value codecs are scalar.\<close>

definition rep_ok :: "rep \<Rightarrow> bool" where
  "rep_ok r \<longleftrightarrow> prefix_room (Some (r_lenLL r)) 99 \<and> prefix_room (Some (r_lenLLL r)) 999 \<and> r_levels r = 2 \<and>
     (\<forall>t. codec_Kind (valueFor r t) \<noteq> KindComposite)"

lemma reps_ok: "rep_ok repASCII" "rep_ok repBCD" "rep_ok repEBCDIC"
  by (auto simp: rep_ok_def repASCII_def repBCD_def repEBCDIC_def valueFor_def EBCDIC037_def codec_Kind_def prefix_room_def All_lengths_def capacity_def
      catalog_defs split: dataType.split)

lemma lengthFor_room:
  "rep_ok r \<Longrightarrow> 0 \<le> mx \<Longrightarrow> mx \<le> 999 \<Longrightarrow> (l = lLL \<longrightarrow> mx < 100) \<Longrightarrow> prefix_room (lengthFor r l) mx"
  by (cases l) (auto simp: rep_ok_def prefix_room_def lengthFor_def)

text \<open>Composite rows carry a prefix.\<close>

definition emv_row_ok :: "fieldSpec \<Rightarrow> bool" where
  "emv_row_ok f \<longleftrightarrow> (fs_typ f = tEMV \<longrightarrow> fs_ln f \<noteq> lFixed)"

lemma spec_def_in_order: "rep_ok r \<Longrightarrow> spec_ok f \<Longrightarrow> emv_row_ok f \<Longrightarrow> in_order (fs_de f, spec_def r f)"
proof -
  assume r: "rep_ok r" and f: "spec_ok f" "emv_row_ok f"
  obtain e where e: "emvSchema = Some e" using emvSchema_built by blast
  have room: "prefix_room (lengthFor r (fs_ln f)) (fs_max f)" "prefix_room (lengthFor r (fs_ln f)) 0"
    using f lengthFor_room [OF r, of "fs_max f" "fs_ln f"] lengthFor_room [OF r, of 0 "fs_ln f"] by (simp_all add: spec_ok_def)
  have "lengthFor r (fs_ln f) \<noteq> None" if "fs_typ f = tEMV"
    using f(2) that by (auto simp: emv_row_ok_def lengthFor_def split: lenType.split)
  then show ?thesis
    using r f(1) room e
    by (auto simp: in_order_def def_ok_def validateDef_def spec_def_def spec_ok_def rep_ok_def maxFieldUnits_def applyOpts_def new_def_def
        opt_MaxLen_def opt_Scale_def WithCodec_def)
qed

lemma iso93_ok: "list_all spec_ok iso93Directory" "distinct (map fs_de iso93Directory)"
    "list_all emv_row_ok iso93Directory" "list_all emv_row_ok iso87Dir"
  by (simp_all add: iso93Directory_def iso87Dir_def spec_ok_of emv_row_ok_def fieldSpec_of_def spec_ok_def)

lemma iso_builder_defs:
  "distinct (map fs_de dir) \<Longrightarrow> iso_builder i dir r = (b_Bitmap (b_MTI (NewSchema i) (Some (r_mti r)))
     \<lparr>BmCodec = Some (r_bitmap r), Levels = r_levels r\<rparr>)\<lparr>b_defs := map (\<lambda>f. (fs_de f, spec_def r f)) dir\<rparr>"
  unfolding iso_builder_def add_spec_put by (subst fold_put_def) (simp_all add: b_Bitmap_def b_MTI_def NewSchema_def)

lemma iso_builder_profile:
  assumes "i \<noteq> []" "rep_ok r" "list_all spec_ok dir" "list_all emv_row_ok dir" "distinct (map fs_de dir)"
  shows "profile_builder (iso_builder i dir r)"
proof -
  have "builder (iso_builder i dir r)"
    unfolding iso_builder_def by (intro builder_fold builder.intros builder_add_spec)
  moreover have ord: "\<forall>e \<in> set (b_defs (iso_builder i dir r)). in_order e"
    using assms(2-4) by (auto simp: iso_builder_defs [OF assms(5)] list_all_iff intro!: spec_def_in_order)
  moreover have "build_errors (iso_builder i dir r) = []"
    using assms(1,2) ord by (intro table_no_errors) (auto simp: iso_builder_defs [OF assms(5)] b_Bitmap_def b_MTI_def NewSchema_def rep_ok_def in_order_def)
  ultimately show ?thesis
    using assms(2) by (simp add: profile_builder_def) (simp add: iso_builder_defs [OF assms(5)] b_Bitmap_def b_MTI_def NewSchema_def rep_ok_def)
qed

lemma sub_builder_built:
  assumes "i \<noteq> []" "1 \<le> levels" "levels \<le> 3" "list_all post_ok tbl" "distinct (map pf_de tbl)"
  shows "\<exists>s. MustBuild (sub_builder i w levels tbl) = Some s"
proof -
  have eq: "sub_builder i w levels tbl = (b_Bitmap (Headerless (NewSchema i)) \<lparr>BmCodec = Some w, Levels = levels\<rparr>)
      \<lparr>b_defs := map (\<lambda>f. (pf_de f, post_def f)) tbl\<rparr>"
    unfolding sub_builder_def add_post_put using assms(5) by (subst fold_put_def) (simp_all add: b_Bitmap_def Headerless_def NewSchema_def)
  have "def_ok (pf_de f, post_def f)" if "f \<in> set tbl" for f
    using post_def_in_order [of f] that assms(4) by (auto simp: in_order_def list_all_iff)
  then have "build_errors (sub_builder i w levels tbl) = []"
    using assms(1-3) by (intro table_no_errors) (auto simp: eq b_Bitmap_def Headerless_def NewSchema_def)
  from Build_no_errors [OF this] show ?thesis by (auto simp: MustBuild_Some)
qed

lemma switch_builder_profile:
  assumes "i \<noteq> []" "list_all post_ok tbl" "distinct (map pf_de tbl)"
  shows "profile_builder (switch_builder i mt w tbl (Some cs))"
proof -
  define b0 where "b0 = b_Bitmap (b_MTI (NewSchema i) (Some mt)) \<lparr>BmCodec = Some w, Levels = 2\<rparr>"
  define d where "d = applyOpts (new_def (DE 127) (bytes_of ''RESERVED PRIVATE USE'') KindComposite None pLLLLLL (Some cs)) [WithCodec (Some SubfieldISO)]"
  have none: "b_defs b0 = []"
    by (simp add: b0_def b_Bitmap_def b_MTI_def NewSchema_def)
  have "127 \<notin> pf_de ` set tbl"
    using assms(2) by (auto simp: list_all_iff post_ok_def)
  then have eq: "switch_builder i mt w tbl (Some cs) = b0\<lparr>b_defs := map (\<lambda>f. (pf_de f, post_def f)) tbl @ [(127, d)]\<rparr>"
    unfolding switch_builder_def add_post_put b_Composite_def d_def b0_def [symmetric] using assms(3) none
    by (subst fold_put_def, simp_all, subst put_def_fresh) (auto simp: image_image)
  have "in_order (127, d)"
    using prefix_room_simps(6) [of 0]
    by (simp add: in_order_def def_ok_def validateDef_def d_def applyOpts_def new_def_def WithCodec_def maxFieldUnits_def pLLLLLL_def)
  then have ord: "\<forall>e \<in> set (b_defs (switch_builder i mt w tbl (Some cs))). in_order e"
    using assms(2) by (auto simp: eq list_all_iff intro!: post_def_in_order)
  have "builder (switch_builder i mt w tbl (Some cs))"
    unfolding switch_builder_def by (intro builder.composite builder_fold builder_add_post builder.intros)
  moreover have "build_errors (switch_builder i mt w tbl (Some cs)) = []"
    using assms(1) ord by (intro table_no_errors) (auto simp: eq b0_def b_Bitmap_def b_MTI_def NewSchema_def in_order_def)
  ultimately show ?thesis
    using ord by (simp add: profile_builder_def) (simp add: eq b0_def b_Bitmap_def b_MTI_def NewSchema_def)
qed

text \<open>Overlays: deriving keeps a profile in order, and so does an override whose new definition is.\<close>

lemma Derive_profile:
  assumes b: "profile_builder b" and s: "Build b = Inr s" and i: "i \<noteq> []"
  shows "profile_builder (Derive s i)" "map_of (b_defs (Derive s i)) = map_of (b_defs b)"
proof -
  have bb: "builder b" using b by (simp add: profile_builder_def)
  note same = Derive_same_defs [OF bb s, of i]
  have wf: "wf_builder b" by (rule builder_wf [OF bb])
  have s5: "mti s = b_mti b" "schema_tags s = b_tags b" "isTLV s = b_isTLV b" "bitmap_of s = b_bitmap b"
    using Build_ok(5) [OF s] by simp_all
  have "builder (Derive s i)"
    using wf by (intro builder.derive) (simp_all add: s5 wf_builder_def)
  moreover have "build_errors (Derive s i) = []"
    by (rule Build_errors [OF Derive_Build [OF bb s i]])
  ultimately show "profile_builder (Derive s i)"
    using b same(2) by (simp add: profile_builder_def Derive_sel s5)
  show "map_of (b_defs (Derive s i)) = map_of (b_defs b)" by (rule same(1))
qed

lemma update_set: "set (AList.update k v al) \<subseteq> insert (k, v) (set al)"
  by (induction al) auto

lemma Override_profile:
  assumes b: "profile_builder b" and d: "map_of (b_defs b) de = Some d" and "in_order (de, applyOpts d os)"
  shows "profile_builder (b_Override b de os)"
    "map_of (b_defs (b_Override b de os)) = (map_of (b_defs b))(de \<mapsto> applyOpts d os)"
proof -
  have eq: "b_Override b de os = b\<lparr>b_defs := AList.update de (applyOpts d os) (b_defs b)\<rparr>"
    using d by (simp add: b_Override_def)
  have bb: "builder b" "build_errors b = []" using b by (simp_all add: profile_builder_def)
  obtain s where s: "Build b = Inr s" using Build_no_errors [OF bb(2)] by blast
  have ord: "\<forall>e \<in> set (b_defs (b_Override b de os)). in_order e"
    using b assms(3) update_set [of de "applyOpts d os" "b_defs b"] by (auto simp: eq profile_builder_def)
  then have "fst (build_defs (b_defs (b_Override b de os)) 0) = []"
    by (simp add: build_defs_errs list_all_iff in_order_def)
  moreover have "fst (build_defs (b_defs b) 0) = []"
    using Build_ok(1) [OF s] by (simp add: build_defs_errs)
  ultimately have "build_errors (b_Override b de os) = []"
    using bb(2) by (simp add: build_errors_def eq split del: if_split cong: if_cong)
  then show "profile_builder (b_Override b de os)"
    using b ord builder.override [OF bb(1)] by (simp add: profile_builder_def) (simp add: eq)
  show "map_of (b_defs (b_Override b de os)) = (map_of (b_defs b))(de \<mapsto> applyOpts d os)"
    by (simp add: eq update_conv')
qed

lemma overlay_base:
  obtains s where "ISO93A = Some s" "Build (iso_builder (bytes_of ''iso93-a'') iso93Directory repASCII) = Inr s"
    "profile_builder (iso_builder (bytes_of ''iso93-a'') iso93Directory repASCII)"
proof -
  have p: "profile_builder (iso_builder (bytes_of ''iso93-a'') iso93Directory repASCII)"
    by (rule iso_builder_profile) (simp_all add: reps_ok iso93_ok bytes_of_def)
  then obtain s where s: "Build (iso_builder (bytes_of ''iso93-a'') iso93Directory repASCII) = Inr s"
    using Build_no_errors by (auto simp: profile_builder_def)
  then have "ISO93A = Some s"
    by (simp add: ISO93A_def pkg_build_def MustBuild_Some)
  with s p that show ?thesis by blast
qed

text \<open>The private elements that the overlays redefine are variable-length text in the base.\<close>

lemma overlay_rows:
  assumes "de \<in> {48, 62, 63}"
  shows "\<exists>d. map_of (b_defs (iso_builder i iso93Directory repASCII)) de = Some d \<and> Length d = Some LLLVarASCII \<and> Sub d = None \<and>
    Codec d = Some Ascii \<and> Kind d = KindString"
  using assms unfolding iso_builder_defs [OF iso93_ok(2)]
  by (auto simp: iso93Directory_def iso87Dir_def fieldSpec_of_def spec_def_def applyOpts_def opt_MaxLen_def new_def_def valueFor_def lengthFor_def
      repASCII_def codec_Kind_def)

lemma override_in_order:
  assumes "Length d = Some LLLVarASCII" "Sub d = None" "Codec d = Some Ascii" "Kind d = KindString" "2 \<le> de" "de \<le> 128" "0 < mx" "mx \<le> 999"
  shows "in_order (de, applyOpts d [WithCodec (Some BinaryRaw), opt_MaxLen mx])" "in_order (de, applyOpts d [opt_MaxLen mx])"
  using assms prefix_room_simps(3) [of mx]
  by (simp_all add: in_order_def def_ok_def validateDef_def applyOpts_def WithCodec_def opt_MaxLen_def kindOf_def codec_Kind_def maxFieldUnits_def pLLL_def)

lemma visa_profile: "\<exists>b. profile_builder b \<and> VisaBaseI = MustBuild b \<and> b_id b = bytes_of ''visa-base1''"
proof -
  obtain s where s: "ISO93A = Some s" "Build (iso_builder (bytes_of ''iso93-a'') iso93Directory repASCII) = Inr s"
    "profile_builder (iso_builder (bytes_of ''iso93-a'') iso93Directory repASCII)"
    by (rule overlay_base)
  let ?b = "Derive s (bytes_of ''visa-base1'')"
  have D: "profile_builder ?b" "map_of (b_defs ?b) = map_of (b_defs (iso_builder (bytes_of ''iso93-a'') iso93Directory repASCII))"
    by (rule Derive_profile [OF s(3,2)], simp add: bytes_of_def)+
  obtain d where d: "map_of (b_defs ?b) 62 = Some d" "Length d = Some LLLVarASCII" "Sub d = None" "Codec d = Some Ascii" "Kind d = KindString"
    using overlay_rows [of 62] unfolding D(2) by blast
  note o1 = Override_profile [OF D(1) d(1) override_in_order(1) [OF d(2-5), of 62 255]]
  obtain e where e: "map_of (b_defs ?b) 63 = Some e" "Length e = Some LLLVarASCII" "Sub e = None" "Codec e = Some Ascii" "Kind e = KindString"
    using overlay_rows [of 63] unfolding D(2) by blast
  have "map_of (b_defs (b_Override ?b 62 [WithCodec (Some BinaryRaw), opt_MaxLen 255])) 63 = Some e"
    using o1(2) e(1) by simp
  from Override_profile(1) [OF o1(1) this override_in_order(1) [OF e(2-5), of 63 255]]
  have "profile_builder (visa_builder s)" by (simp add: visa_builder_def)
  moreover have "b_id (visa_builder s) = bytes_of ''visa-base1''"
    by (simp add: visa_builder_def b_Override_def Derive_sel split: option.split)
  ultimately show ?thesis unfolding VisaBaseI_def s(1) by (intro exI [of _ "visa_builder s"]) simp
qed

lemma mastercard_profile: "\<exists>b. profile_builder b \<and> Mastercard = MustBuild b \<and> b_id b = bytes_of ''mastercard''"
proof -
  obtain s where s: "ISO93A = Some s" "Build (iso_builder (bytes_of ''iso93-a'') iso93Directory repASCII) = Inr s"
    "profile_builder (iso_builder (bytes_of ''iso93-a'') iso93Directory repASCII)"
    by (rule overlay_base)
  let ?b = "Derive s (bytes_of ''mastercard'')"
  have D: "profile_builder ?b" "map_of (b_defs ?b) = map_of (b_defs (iso_builder (bytes_of ''iso93-a'') iso93Directory repASCII))"
    by (rule Derive_profile [OF s(3,2)], simp add: bytes_of_def)+
  obtain d where d: "map_of (b_defs ?b) 48 = Some d" "Length d = Some LLLVarASCII" "Sub d = None" "Codec d = Some Ascii" "Kind d = KindString"
    using overlay_rows [of 48] unfolding D(2) by blast
  note o1 = Override_profile [OF D(1) d(1) override_in_order(2) [OF d(2-5), of 48 999]]
  obtain e where e: "map_of (b_defs ?b) 63 = Some e" "Length e = Some LLLVarASCII" "Sub e = None" "Codec e = Some Ascii" "Kind e = KindString"
    using overlay_rows [of 63] unfolding D(2) by blast
  have "map_of (b_defs (b_Override ?b 48 [opt_MaxLen 999])) 63 = Some e"
    using o1(2) e(1) by simp
  from Override_profile(1) [OF o1(1) this override_in_order(1) [OF e(2-5), of 63 512]]
  have "profile_builder (mastercard_builder s)" by (simp add: mastercard_builder_def)
  moreover have "b_id (mastercard_builder s) = bytes_of ''mastercard''"
    by (simp add: mastercard_builder_def b_Override_def Derive_sel split: option.split)
  ultimately show ?thesis unfolding Mastercard_def s(1) by (intro exI [of _ "mastercard_builder s"]) simp
qed

lemma switch_profile:
  assumes "MustBuild (sub_builder j w' levels tbl') = Some cs"
    and "p = Option.bind (MustBuild (sub_builder j w' levels tbl')) (\<lambda>cs. MustBuild (switch_builder i mt w tbl (Some cs)))"
    and "i \<noteq> []" "list_all post_ok tbl" "distinct (map pf_de tbl)"
  shows "\<exists>b. profile_builder b \<and> p = MustBuild b \<and> b_id b = i"
proof (intro exI conjI)
  show "profile_builder (switch_builder i mt w tbl (Some cs))" by (rule switch_builder_profile [OF assms(3-5)])
  show "p = MustBuild (switch_builder i mt w tbl (Some cs))" using assms(1,2) by simp
  have "b_id (fold add_post fs b) = b_id b" for fs and b :: schema_builder
    by (induction fs arbitrary: b) (simp_all add: add_post_def b_Field_def put_def_def Let_def)
  then show "b_id (switch_builder i mt w tbl (Some cs)) = i"
    by (simp add: switch_builder_def b_Composite_def put_def_def Let_def b_Bitmap_def b_MTI_def NewSchema_def)
qed

lemma iso_profile:
  assumes "i \<noteq> []" "rep_ok r" "list_all spec_ok dir" "list_all emv_row_ok dir" "distinct (map fs_de dir)"
  shows "\<exists>b. profile_builder b \<and> pkg_build i dir r = MustBuild b \<and> b_id b = i"
  using iso_builder_profile [OF assms] iso_builder_defs [OF assms(5), of i r]
  by (intro exI [of _ "iso_builder i dir r"]) (simp add: pkg_build_def b_Bitmap_def b_MTI_def NewSchema_def)

lemma bytes_of_not_Nil: "bytes_of (c # cs) \<noteq> []"
  by (simp add: bytes_of_def)

lemma switch_profiles:
  "\<exists>b. profile_builder b \<and> Postilion = MustBuild b \<and> b_id b = bytes_of ''postilion''"
  "\<exists>b. profile_builder b \<and> CoralPay = MustBuild b \<and> b_id b = bytes_of ''coralpay''"
  "\<exists>b. profile_builder b \<and> Zone = MustBuild b \<and> b_id b = bytes_of ''zone''"
proof -
  obtain c1 where c1: "MustBuild (sub_builder (bytes_of ''postilion-127'') BinWord 2 postilionSub127) = Some c1"
    using sub_builder_built [OF bytes_of_not_Nil _ _ postilion_ok(3,4)] by force
  obtain c2 where c2: "MustBuild (sub_builder (bytes_of ''coralpay-127'') HexWord 1 coralpaySub127) = Some c2"
    using sub_builder_built [OF bytes_of_not_Nil _ _ coralpay_ok(3,4)] by force
  obtain c3 where c3: "MustBuild (sub_builder (bytes_of ''zone-127'') BinWord 1 zoneSub127) = Some c3"
    using sub_builder_built [OF bytes_of_not_Nil _ _ zone_ok(3,4)] by force
  show "\<exists>b. profile_builder b \<and> Postilion = MustBuild b \<and> b_id b = bytes_of ''postilion''"
    by (rule switch_profile [OF c1 Postilion_def bytes_of_not_Nil postilion_ok(1,2)])
  show "\<exists>b. profile_builder b \<and> CoralPay = MustBuild b \<and> b_id b = bytes_of ''coralpay''"
    by (rule switch_profile [OF c2 CoralPay_def bytes_of_not_Nil coralpay_ok(1,2)])
  show "\<exists>b. profile_builder b \<and> Zone = MustBuild b \<and> b_id b = bytes_of ''zone''"
    by (rule switch_profile [OF c3 Zone_def bytes_of_not_Nil zone_ok(1,2)])
qed

lemma all_profiles: "(i, p) \<in> set Profiles \<Longrightarrow> \<exists>b. profile_builder b \<and> p = MustBuild b \<and> b_id b = i"
  unfolding Profiles_def set_simps insert_iff prod.inject empty_iff
  using iso_profile [OF bytes_of_not_Nil reps_ok(1) iso87Dir_ok(1) iso93_ok(4) iso87Dir_ok(2)]
    iso_profile [OF bytes_of_not_Nil reps_ok(2) iso87Dir_ok(1) iso93_ok(4) iso87Dir_ok(2)]
    iso_profile [OF bytes_of_not_Nil reps_ok(3) iso87Dir_ok(1) iso93_ok(4) iso87Dir_ok(2)]
    iso_profile [OF bytes_of_not_Nil reps_ok(1) iso93_ok(1,3,2)] iso_profile [OF bytes_of_not_Nil reps_ok(2) iso93_ok(1,3,2)]
    visa_profile mastercard_profile switch_profiles
  by (elim disjE conjE; simp only: ISO87A_def ISO87B_def ISO87C_def ISO93A_def ISO93B_def)

text \<open>What every profile gives the engine.\<close>

lemma profile_schema:
  assumes "(i, p) \<in> set Profiles"
  obtains s where "p = Some s" "schema_id s = i" "wf_spans s" "BmCodec (bitmap_of s) \<noteq> None" "Levels (bitmap_of s) = 2" "mti s \<noteq> None"
    "\<forall>os wire m. Unmarshal (NewCodec s os) wire = Inr m \<longrightarrow> msg_inv m"
    "\<forall>de d. de \<noteq> 0 \<and> Model.Field s de = Some d \<longrightarrow> in_order (de, d)"
proof -
  obtain b where b: "profile_builder b" "p = MustBuild b" "b_id b = i" using all_profiles [OF assms] by blast
  then have bb: "builder b" "build_errors b = []" by (simp_all add: profile_builder_def)
  obtain s where s: "Build b = Inr s" using Build_no_errors [OF bb(2)] by blast
  note f = Build_Field [OF s bb(1)] and ok = Build_ok(4,5) [OF s]
  have ord: "in_order e" if "e \<in> set (b_defs b)" for e using that b(1) by (simp add: profile_builder_def)
  have mti_def: "Length d = None" if "b_mti b = Some d" for d
    using builder_wf [OF bb(1)] that by (simp add: wf_builder_def)
  have room: "prefix_room (Length d) (MaxLen d) \<and> (Length d = None \<longrightarrow> b_mti b = Some d \<or> Sub d = None)" if "d \<in> schema_defs s" for d
    using that f(3) [of d] ord mti_def by (fastforce simp: in_order_def prefix_room_def)
  have "\<forall>d l. d \<in> schema_defs s \<and> Length d = Some l \<longrightarrow> l \<in> set All_lengths"
    using room by (fastforce simp: prefix_room_def)
  moreover have "\<forall>d. d \<in> schema_defs s \<and> Length d = None \<and> Sub d \<noteq> None \<longrightarrow> 0 \<le> MaxLen d"
    using room builder_wf [OF bb(1)] by (fastforce simp: wf_builder_def defaultMTILen_def)
  ultimately have safe: "wf_spans s \<and> (\<forall>os wire m. Unmarshal (NewCodec s os) wire = Inr m \<longrightarrow> msg_inv m)"
    by (rule Build_parse_safe [OF bb(1) s])
  have "\<forall>de d. de \<noteq> 0 \<and> Model.Field s de = Some d \<longrightarrow> in_order (de, d)"
    using f(2) by (auto intro!: ord map_of_SomeD)
  then show ?thesis
    using b s safe ok by (intro that [of s]) (auto simp: MustBuild_Some profile_builder_def)
qed

lemma Profiles_distinct: "distinct (map fst Profiles)"
proof -
  have "distinct (map bytes_of [''iso87-a'', ''iso87-b'', ''iso87-c'', ''iso93-a'', ''iso93-b'', ''visa-base1'', ''mastercard'', ''postilion'',
      ''coralpay'', ''zone''])"
    by code_simp
  then show ?thesis by (simp add: Profiles_def)
qed

text \<open>A network-management message: only the message type.\<close>

lemma mti_only:
  assumes "mti s = Some d" "Codec d = Some NumASCII" "Kind d = KindNumeric" "Length d = None" "MaxLen d = 4" "0 \<le> maxDE s"
  obtains m where "Set_de (New s) 0 (AString [48, 56, 48, 48]) = (m, None)" "\<And>de. Has m de \<longleftrightarrow> de = 0"
    "\<And>de v. snd (Get m de) = Some v \<Longrightarrow> elem_ok d v [48, 56, 48, 48]"
proof -
  define m where "m = fst (Set_de (New s) 0 (AString [48, 56, 48, 48]))"
  let ?v = "Value [48, 56, 48, 48] KindNumeric (Some NumASCII) 0 None decimal0"
  have len: "length (slots (New s)) = nat (maxDE s + 1)" "mschema (New s) = Some s" "\<not> sealed (New s)"
    by (simp_all add: New_def)
  have no: "\<not> Has (New s) de" for de
    using assms(6) by (simp add: Has_def New_def slot0_def)
  have set: "Set_de (New s) 0 (AString [48, 56, 48, 48]) = (m, None)"
    and m: "m = with_owned (put_slot (New s) 0 (written_slot (slots (New s) ! 0) ?v)) True"
    using assms len by (simp_all add: m_def Set_de_def message_def_def makeValue_def scalarFromBytes_def mark_set_def with_vcodec_def Let_def)
  have Has: "Has m de \<longleftrightarrow> de = 0" for de
    using assms(6) len no by (simp add: m Has_put_slot_in written_slot_def)
  have own: "own_slots s m" by (rule built_own [OF built.set_de [OF built.new set]])
  have "slots m ! 0 = written_slot (slots (New s) ! 0) ?v"
    using assms(6) len(1) by (simp add: m with_owned_def put_slot_def with_slots_def)
  then have "v = ?v" if "snd (Get m de) = Some v" for de v
    using that own_slots_Get [OF own, of de] by (auto simp: Has written_slot_def split: if_splits)
  then have "elem_ok d v [48, 56, 48, 48]" if "snd (Get m de) = Some v" for de v
    using that assms by (fastforce simp: elem_ok_def raw_rule_def padFixed_def isFixed_def framed_def)
  with set Has that show ?thesis by blast
qed

subsection \<open>Properties\<close>

text \<open>The built-in profiles are sound. Every constructor returns a schema under its own name (none
  panics); with it every span the parser computes is well formed, so that parsing cannot go out of
  bounds and parsed messages satisfy the message invariant; its elements lie in 2..128, and every
  length prefix is one of the catalog with room for the element's declared maximum.\<close>

theorem profiles_sound:
  assumes "(i, p) \<in> set Profiles"
  shows "\<exists>s. p = Some s \<and> Profile i = Some (Some s) \<and> schema_id s = i \<and> wf_spans s \<and>
    (\<forall>os wire m. Unmarshal (NewCodec s os) wire = Inr m \<longrightarrow> msg_inv m) \<and>
    (\<forall>de d. de \<noteq> 0 \<and> Model.Field s de = Some d \<longrightarrow> 2 \<le> de \<and> de \<le> 128 \<and> prefix_room (Length d) (MaxLen d))"
proof -
  obtain s where s: "p = Some s" "schema_id s = i" "wf_spans s" "BmCodec (bitmap_of s) \<noteq> None" "Levels (bitmap_of s) = 2" "mti s \<noteq> None"
    "\<forall>os wire m. Unmarshal (NewCodec s os) wire = Inr m \<longrightarrow> msg_inv m"
    "\<forall>de d. de \<noteq> 0 \<and> Model.Field s de = Some d \<longrightarrow> in_order (de, d)"
    by (rule profile_schema [OF assms])
  have "Profile i = Some p"
    using assms Profiles_distinct by (simp add: Profile_def)
  with s show ?thesis by (fastforce simp: in_order_def)
qed

theorem profiles_sound_witness: "\<exists>s. ISO87A = Some s \<and> wf_spans s"
  using profiles_sound [of "bytes_of ''iso87-a''" ISO87A] by (auto simp: Profiles_def)

text \<open>C6: messages round trip over every built-in profile. A message built by \<open>Set\<close>, \<open>Unset\<close> and reads
  on a profile's schema, with its message type and with elements that the catalog codecs carry, marshals; the
  bytes parse; the parsed message has the same elements with the same canonical values. Element 65, which
  two of the profiles declare, is excepted: its bit announces the third bitmap.\<close>

theorem profile_roundtrip:
  assumes "(i, Some s) \<in> set Profiles" "built s m" "Has m 0" "\<not> Has m 65"
    and "\<forall>de v. snd (Get m de) = Some v \<longrightarrow> (\<exists>def. Model.Field s de = Some def \<and> elem_ok def v (b de))"
  shows "\<exists>wire m'. (\<forall>dst. Marshal (NewCodec s os) m dst = Inr (dst @ wire)) \<and> Unmarshal (NewCodec s os) wire = Inr m'
    \<and> (\<forall>de. Has m' de = Has m de)
    \<and> (\<forall>de v. snd (Get m de) = Some v \<longrightarrow>
        (\<exists>def x. Model.Field s de = Some def \<and> snd (Get m' de) = Some x \<and> same_elem def v (b de) x))"
proof -
  obtain s' where s': "Some s = Some s'" "schema_id s' = i" "wf_spans s'" "BmCodec (bitmap_of s') \<noteq> None" "Levels (bitmap_of s') = 2" "mti s' \<noteq> None"
    "\<forall>os wire m. Unmarshal (NewCodec s' os) wire = Inr m \<longrightarrow> msg_inv m"
    "\<forall>de d. de \<noteq> 0 \<and> Model.Field s' de = Some d \<longrightarrow> in_order (de, d)"
    by (rule profile_schema [OF assms(1)])
  then have s: "s' = s" by simp
  have "is_data de \<and> de \<le> 128" if "1 \<le> de" "Has m de" for de
  proof -
    have "snd (Get m de) \<noteq> None"
      using that own_slots_Get [OF built_own [OF assms(2)], of de] by simp
    then obtain def where "Model.Field s de = Some def" using assms(5) by blast
    with s'(8) that have "2 \<le> de" "de \<le> 128" by (auto simp: s in_order_def)
    moreover have "de \<noteq> 65" using assms(4) that(2) by auto
    ultimately show ?thesis by (simp add: is_data_def contSecondary_def contTertiary_def)
  qed
  then show ?thesis
    using s' assms(3) by (intro built_parses_back [OF assms(2) _ _ _ _ _ _ assms(5)]) (simp_all add: s)
qed

theorem profile_roundtrip_witness:
  "\<exists>s wire m'. ISO87A = Some s \<and> Marshal (NewCodec s []) (fst (Set_de (New s) 0 (AString [48, 56, 48, 48]))) [] = Inr wire \<and>
     Unmarshal (NewCodec s []) wire = Inr m' \<and> Has m' 0 \<and> \<not> Has m' 2"
proof -
  let ?b = "iso_builder (bytes_of ''iso87-a'') iso87Dir repASCII"
  have "profile_builder ?b"
    by (rule iso_builder_profile) (simp_all add: bytes_of_not_Nil reps_ok iso87Dir_ok iso93_ok)
  then obtain s where b: "builder ?b" "Build ?b = Inr s"
    using Build_no_errors by (auto simp: profile_builder_def)
  have s: "ISO87A = Some s" using b(2) by (simp add: ISO87A_def pkg_build_def MustBuild_Some)
  define d where "d = opt_MaxLen defaultMTILen (new_def (DE 0) (bytes_of ''MTI'') KindNumeric (Some NumASCII) None None)"
  have mti: "mti s = Some d"
    using Build_ok(5) [OF b(2)] by (simp add: iso_builder_defs [OF iso87Dir_ok(2)] b_Bitmap_def b_MTI_def d_def repASCII_def kindOf_def codec_Kind_def)
  have "0 \<le> maxDE s" using Build_Field(1) [OF b(2,1)] by simp
  then obtain m where m: "Set_de (New s) 0 (AString [48, 56, 48, 48]) = (m, None)" "\<And>de. Has m de \<longleftrightarrow> de = 0"
    "\<And>de v. snd (Get m de) = Some v \<Longrightarrow> elem_ok d v [48, 56, 48, 48]"
    using mti_only [OF mti] by (auto simp: d_def opt_MaxLen_def new_def_def defaultMTILen_def)
  have built: "built s m" by (rule built.set_de [OF built.new m(1)])
  have "(bytes_of ''iso87-a'', Some s) \<in> set Profiles" using s by (simp add: Profiles_def)
  moreover have "\<forall>de v. snd (Get m de) = Some v \<longrightarrow> (\<exists>def. Model.Field s de = Some def \<and> elem_ok def v [48, 56, 48, 48])"
  proof (intro allI impI)
    fix de v
    assume v: "snd (Get m de) = Some v"
    then have "de = 0" using own_slots_Get [OF built_own [OF built], of de] m(2) [of de] by (simp split: if_splits)
    with m(3) [OF v] mti show "\<exists>def. Model.Field s de = Some def \<and> elem_ok def v [48, 56, 48, 48]" by (simp add: Field_def)
  qed
  ultimately obtain wire m' where "\<forall>dst. Marshal (NewCodec s []) m dst = Inr (dst @ wire)" "Unmarshal (NewCodec s []) wire = Inr m'"
      "\<forall>de. Has m' de = Has m de"
    using profile_roundtrip [OF _ built, of "bytes_of ''iso87-a''" "\<lambda>_. [48, 56, 48, 48]" "[]"] m(2) by auto
  then show ?thesis using s m(1,2) by (intro exI [of _ s] exI [of _ wire] exI [of _ m']) simp
qed

end
