(* ===== verification/Describe.thy ===== *)
theory Describe
  imports Packager
begin

text \<open>
  The diagnostic renderer, \<^verbatim>\<open>src/iso8583/describe.go\<close>: the dump of a message for people, its value for the
  structured logger, and the one-line summary, with the redaction of card data.

  Reading a message memoises decoded elements, which changes neither the later reads (lemmas \<open>decodeSlot_again\<close>
  and \<open>decodeSlot_other\<close>) nor the wire image (theory MessageProps), so the renderer is a function of the message.  \<^verbatim>\<open>strconv.Quote\<close> needs the
  Unicode tables of printable characters and is a parameter; nothing is assumed of it.  A value of
  the logger is a tree.

  The recursion into composites ends because every child is either stored in the message or decoded with a
  definition of the schema, and both are finite; \<open>rank_m\<close> below is the measure.
\<close>

section \<open>How deep a message can nest\<close>

primrec maxl :: "nat list \<Rightarrow> nat" where
  "maxl [] = 0"
| "maxl (x # xs) = max x (maxl xs)"

lemma maxl_ge: "x \<in> set xs \<Longrightarrow> x \<le> maxl xs"
  by (induction xs) auto

lemma maxl_le: "(\<forall>x \<in> set xs. x \<le> n) \<Longrightarrow> maxl xs \<le> n"
  by (induction xs) auto

primrec rank_v :: "value \<Rightarrow> nat" and rank_s :: "slot \<Rightarrow> nat" and rank_t :: "tag_slot \<Rightarrow> nat" and rank_m :: "message \<Rightarrow> nat" where
  "rank_v (Value r k c o' s d) = (case map_option rank_m s of None \<Rightarrow> 0 | Some n \<Rightarrow> n)"
| "rank_s (Slot v p d di f u w bo be) = rank_v v"
| "rank_t (TagSlot v p) = rank_v v"
| "rank_m (Message sc sr bm sl ow di se ts order) =
     Suc (max (case sc of None \<Rightarrow> 0 | Some s \<Rightarrow> size s)
       (max (maxl (map rank_s sl)) (maxl (map snd (map (map_prod id rank_t) ts)))))"

lemma rank_v_eq: "rank_v v = (case sub v of None \<Rightarrow> 0 | Some c \<Rightarrow> rank_m c)"
  by (cases v) (simp split: option.split)

lemma rank_m_eq: "rank_m m = Suc (max (case mschema m of None \<Rightarrow> 0 | Some s \<Rightarrow> size s)
    (max (maxl (map (rank_v \<circ> sv) (slots m))) (maxl (map (rank_v \<circ> tv \<circ> snd) (tags m)))))"
proof -
  have s: "rank_s = (\<lambda>sl. rank_v (sv sl))"
  proof
    show "rank_s sl = rank_v (sv sl)" for sl by (cases sl) simp
  qed
  have t: "rank_t ts = rank_v (tv ts)" for ts by (cases ts) simp
  show ?thesis by (cases m) (simp add: s t comp_def case_prod_beta)
qed

lemma rank_stored:
  "sl \<in> set (slots m) \<Longrightarrow> rank_v (sv sl) < rank_m m"
  "(k, ts) \<in> set (tags m) \<Longrightarrow> rank_v (tv ts) < rank_m m"
  using maxl_ge [of "rank_v (sv sl)" "map (rank_v \<circ> sv) (slots m)"]
    maxl_ge [of "rank_v (tv ts)" "map (rank_v \<circ> tv \<circ> snd) (tags m)"]
  by (force simp: rank_m_eq less_Suc_eq_le le_max_iff_disj)+

lemma rank_child: "Composite v = Some c \<Longrightarrow> rank_m c = rank_v v"
  by (simp add: Composite_def rank_v_eq split: if_splits)

text \<open>A parsed message holds no child yet.\<close>

definition childless :: "message \<Rightarrow> bool" where
  "childless m \<longleftrightarrow> (\<forall>sl \<in> set (slots m). sub (sv sl) = None) \<and> tags m = []"

lemma childless_put_slot: "childless m \<Longrightarrow> sub (sv sl) = None \<Longrightarrow> childless (put_slot m de sl)"
  by (auto simp: childless_def dest: set_update_subset_insert [THEN subsetD])

lemma childless_rank: "childless m \<Longrightarrow> rank_m m = Suc (case mschema m of None \<Rightarrow> 0 | Some s \<Rightarrow> size s)"
proof -
  assume c: "childless m"
  have "maxl (map (rank_v \<circ> sv) (slots m)) = 0"
    using c maxl_le [of "map (rank_v \<circ> sv) (slots m)" 0] by (auto simp: childless_def rank_v_eq)
  with c show ?thesis by (simp add: rank_m_eq childless_def)
qed

lemma childless_put_slots: "childless m \<Longrightarrow> \<forall>e \<in> set es. sub (sv (snd e)) = None \<Longrightarrow> childless (put_slots es m)"
proof (induction es arbitrary: m)
  case (Cons e es)
  then show ?case
    by (subst put_slots_Cons) (auto simp: put_slots_def [of "[e]"] intro!: Cons.IH childless_put_slot split: prod.split)
qed (simp add: put_slots_def)

lemma sub_span_slot [simp]: "sub (sv (span_slot a b c d)) = None"
  by (simp add: span_slot_def value0_def)

lemma walk_childless: "walk s wire p des = Inr (es, fin) \<Longrightarrow> \<forall>e \<in> set es. sub (sv (snd e)) = None"
  by (induction des arbitrary: p es) (fastforce simp: bind_result_Inr split: option.splits sum.splits)+

lemma Unmarshal_childless:
  assumes "Unmarshal c wire = Inr m"
  shows "childless m \<and> mschema m = Some (cschema c)"
proof -
  let ?s = "cschema c"
  let ?m = "newDecoded ?s wire (Immutable (opts c))"
  obtain m0 p where mp: "unmarshal_mti ?s wire ?m = Inr (m0, p)"
    using assms by (auto simp: Unmarshal_walk Let_def bind_result_Inr)
  have "childless ?m" "mschema ?m = Some ?s"
    by (auto simp: childless_def newDecoded_def slot0_def value0_def)
  then have "childless m0 \<and> mschema m0 = Some ?s"
    using mp by (auto simp: unmarshal_mti_def intro!: childless_put_slot split: option.splits sum.splits)
  then have m0: "childless (with_bmap m0 bm)" "mschema (with_bmap m0 bm) = Some ?s" for bm
    by (simp_all add: childless_def)
  obtain bm nx es fin where "walk ?s wire nx (data_elements bm) = Inr (es, fin)" "m = put_slots es (with_bmap m0 bm)"
    using assms mp by (auto simp: Unmarshal_walk Let_def bind_result_Inr split: option.splits sum.splits)
  then show ?thesis
    using childless_put_slots [OF m0(1) walk_childless] m0(2) by simp
qed

lemma scalar_decode:
  "codec_decode ber packager c body u def = Inr v \<Longrightarrow> c \<noteq> BerTLV \<Longrightarrow> c \<noteq> SubfieldISO \<Longrightarrow> sub v = None"
  by (cases c) (auto simp: ascii_DecodeBody_def ebcdicChar_DecodeBody_def utf8Char_DecodeBody_def binaryRaw_DecodeBody_def
      hexBinary_DecodeBody_def numASCII_DecodeBody_def numEBCDIC_DecodeBody_def bcdNum_DecodeBody_def rbcdNum_DecodeBody_def
      binNum_DecodeBody_def amountASCII_DecodeBody_def amountBCD_DecodeBody_def amountBinary_DecodeBody_def value_makers
      Let_def bind_result_Inr split: sum.splits if_splits option.splits)

lemma set_AList_update: "set (AList.update k x al) \<subseteq> insert (k, x) (set al)"
  by (induction al) auto

lemma ber_loop_rank:
  assumes dec: "\<forall>tag val v. decode_tag dcd def tag val = Inr v \<longrightarrow> rank_v v \<le> n"
  shows "ber_loop dcd def body i child = Inr child' \<Longrightarrow> \<forall>e \<in> set (tags child). rank_v (tv (snd e)) \<le> n \<Longrightarrow>
    mschema child' = mschema child \<and> slots child' = slots child \<and> (\<forall>e \<in> set (tags child'). rank_v (tv (snd e)) \<le> n)"
proof (induction "nat (int (length body) - i)" arbitrary: i child rule: less_induct)
  case less
  show ?case
  proof (cases "i \<ge> int (length body)")
    case True
    then show ?thesis using less.prems by (simp add: ber_loop.simps)
  next
    case False
    obtain tag val nx v where r: "readTLV body i = Inr (tag, val, nx)" "decode_tag dcd def tag val = Inr v"
      "ber_loop dcd def body nx (PutTag child tag v) = Inr child'"
      using less.prems(1) False by (auto simp: ber_loop.simps [of dcd def body i] bind_result_Inr split: sum.splits prod.splits)
    have "\<forall>e \<in> set (tags (PutTag child tag v)). rank_v (tv (snd e)) \<le> n"
      using less.prems(2) dec r(2) set_AList_update [of "ToUpper tag" "TagSlot v True" "tags child"]
      by (fastforce simp: PutTag_def Let_def)
    then show ?thesis
      using less.hyps [of nx "PutTag child tag v"] r(3) readTLV_progress [OF r(1)] False
      by (simp add: PutTag_def Let_def)
  qed
qed

text \<open>A decoded value nests no deeper than its definition.\<close>

lemma sub_size: "Sub def = Some s \<Longrightarrow> size s < size def"
  by (cases def) simp

lemma size_def_pos: "0 < size (def :: field_def)"
  by (cases def) simp

lemma tag_size: "(k, td) \<in> set (schema_tags s) \<Longrightarrow> size td < size s"
  using size_list_estimation' [of "(k, td)" "schema_tags s" "size td" "size_prod (\<lambda>_. 0) size"] by (cases s) simp

lemma DecodeBody_rank: "DecodeBody c body u def = Inr v \<Longrightarrow> rank_v v \<le> size def"
proof (induction "size def" arbitrary: c body u def v rule: less_induct)
  case less
  let ?sz = "case Sub def of None \<Rightarrow> 0 | Some s \<Rightarrow> size s"
  consider "c = BerTLV" | "c = SubfieldISO" | "c \<noteq> BerTLV" "c \<noteq> SubfieldISO" by blast
  then show ?case
  proof cases
    case 1
    then obtain child where l: "ber_loop DecodeBody def body 0 (NewTLV (Sub def)) = Inr child" "v = CompositeValue body child"
      using less.prems by (auto simp: DecodeBody.simps [of BerTLV] berTLV_DecodeBody_def bind_result_Inr)
    have "\<forall>tag val v. decode_tag DecodeBody def tag val = Inr v \<longrightarrow> rank_v v \<le> ?sz"
    proof (intro allI impI)
      fix tag val v
      assume d: "decode_tag DecodeBody def tag val = Inr v"
      show "rank_v v \<le> ?sz"
      proof (cases "\<exists>td c. lookupTag def tag = Some td \<and> Codec td = Some c")
        case True
        then obtain td c u where td: "lookupTag def tag = Some td" "DecodeBody c val u td = Inr v"
          using d by (auto simp: decode_tag_def)
        obtain s where s: "Sub def = Some s" "(ToUpper tag, td) \<in> set (schema_tags s)"
          using td(1) by (auto simp: lookupTag_def LookupTag_def split: option.splits dest: map_of_SomeD)
        have "size td < size s" "size s < size def"
          using tag_size [OF s(2)] sub_size [OF s(1)] by simp_all
        then show ?thesis using less.hyps [OF _ td(2)] s(1) by simp
      next
        case False
        then have "v = BytesValue val"
          using d by (auto simp: decode_tag_def split: option.splits)
        then show ?thesis by (simp add: rank_v_eq BytesValue_def)
      qed
    qed
    from ber_loop_rank [OF this l(1)] have c: "mschema child = Sub def" "slots child = []"
      "\<forall>e \<in> set (tags child). rank_v (tv (snd e)) \<le> ?sz"
      by (auto simp: NewTLV_def)
    then have "maxl (map (rank_v \<circ> tv \<circ> snd) (tags child)) \<le> ?sz"
      by (intro maxl_le) simp
    then have "rank_m child \<le> Suc ?sz"
      using c(1,2) by (simp add: rank_m_eq)
    then show ?thesis
      using l(2) size_def_pos [of def] sub_size [of def] by (auto simp: rank_v_eq CompositeValue_def split: option.splits)
  next
    case 2
    then obtain s child where s: "Sub def = Some s" "Unmarshal (NewCodec s []) body = Inr child" "v = CompositeValue body child"
      using less.prems by (auto simp: DecodeBody.simps [of SubfieldISO] packager_DecodeBody_def bind_result_Inr split: option.splits)
    have "rank_m child = Suc (size s)"
      using Unmarshal_childless [OF s(2)] childless_rank [of child] by (simp add: NewCodec_def)
    then show ?thesis
      using s sub_size [OF s(1)] by (simp add: rank_v_eq CompositeValue_def)
  next
    case 3
    then have "sub v = None"
      using less.prems scalar_decode by (simp add: DecodeBody.simps [of c])
    then show ?thesis by (simp add: rank_v_eq)
  qed
qed

section \<open>What a reader of a message sees\<close>

lemma in_map_filter: "y \<in> set (List.map_filter f xs) \<longleftrightarrow> (\<exists>x \<in> set xs. f x = Some y)"
  by (induction xs) (auto simp: map_filter_simps split: option.split)

definition seen_at :: "message \<Rightarrow> int \<Rightarrow> (field_path \<times> value) option" where
  "seen_at m de = map_option (\<lambda>v. (DE de, v)) (snd (decodeSlot m de))"

lemma decodeSlot_local:
  assumes "mschema m' = mschema m" "src m' = src m" "slots m' ! nat de = slots m ! nat de"
  shows "snd (decodeSlot m' de) = snd (decodeSlot m de)"
proof -
  have "message_def m' de = message_def m de"
    using assms(1) by (simp add: message_def_def)
  then show ?thesis
    using assms by (simp add: decodeSlot_def Let_def split: option.split sum.split)
qed

lemma decodeSlot_other:
  assumes "0 \<le> de" "0 \<le> de'" "de \<noteq> de'"
  shows "snd (decodeSlot (fst (decodeSlot m de)) de') = snd (decodeSlot m de')"
proof -
  have "\<exists>sl. fst (decodeSlot m de) = m \<or> fst (decodeSlot m de) = put_slot m de sl"
    by (auto simp: decodeSlot_def Let_def split: option.split sum.split)
  then obtain m' sl where m': "fst (decodeSlot m de) = m'" "m' = m \<or> m' = put_slot m de sl" by blast
  have "nat de \<noteq> nat de'" using assms by auto
  then have "snd (decodeSlot m' de') = snd (decodeSlot m de')"
    using m'(2) by (intro decodeSlot_local) auto
  with m'(1) show ?thesis by simp
qed

text \<open>Reading an element twice gives the same value twice.\<close>

lemma decodeSlot_again:
  assumes "0 \<le> de" "de < int (length (slots m))"
  shows "snd (decodeSlot (fst (decodeSlot m de)) de) = snd (decodeSlot m de)"
proof -
  have "fst (decodeSlot m de) = m \<or>
      (\<exists>v. present (slots m ! nat de) \<and> fst (decodeSlot m de) = put_slot m de (set_decoded (slots m ! nat de) v) \<and> snd (decodeSlot m de) = Some v)"
    by (auto simp: decodeSlot_def Let_def split: option.split sum.split)
  then show ?thesis
  proof (elim disjE exE conjE)
    fix v
    assume v: "present (slots m ! nat de)" "fst (decodeSlot m de) = put_slot m de (set_decoded (slots m ! nat de) v)"
      "snd (decodeSlot m de) = Some v"
    have "snd (decodeSlot (put_slot m de (set_decoded (slots m ! nat de) v)) de) = Some v"
      using v(1) assms by (simp add: decodeSlot_def set_decoded_def nat_less_iff)
    with v show ?thesis by simp
  qed simp
qed

lemma fields_loop_seen:
  "distinct des \<Longrightarrow> \<forall>de \<in> set des. 0 \<le> de \<Longrightarrow> snd (fields_loop des m) = List.map_filter (seen_at m) des"
proof (induction des arbitrary: m)
  case (Cons de des)
  obtain m' r where d: "decodeSlot m de = (m', r)" by fastforce
  have "snd (decodeSlot m' x) = snd (decodeSlot m x)" if "x \<in> set des" for x
    using decodeSlot_other [of de x m] d that Cons.prems by auto
  then have eq: "List.map_filter (seen_at m') des = List.map_filter (seen_at m) des"
    by (simp add: seen_at_def map_filter_def cong: filter_cong map_cong)
  have none: "\<not> present (slots m ! nat de) \<Longrightarrow> r = None \<and> m' = m"
    using d by (simp add: decodeSlot_def)
  show ?case
  proof (cases r)
    case None
    then show ?thesis
      using Cons.IH [of m'] Cons.prems d none eq
      by (cases "present (slots m ! nat de)") (simp_all add: seen_at_def [of m de] map_filter_simps)
  next
    case (Some v)
    then have "present (slots m ! nat de)" using none by auto
    then show ?thesis
      using Some Cons.IH [of m'] Cons.prems d eq by (simp add: seen_at_def [of m de] map_filter_simps case_prod_beta)
  qed
qed (simp add: map_filter_simps)

lemma Fields_seen: "snd (Fields m) = List.map_filter (seen_at m) [1..int (length (slots m)) - 1]"
  unfolding Fields_def by (rule fields_loop_seen) simp_all

lemma schema_def_size: "d \<in> schema_defs s \<Longrightarrow> size d < size s"
proof -
  assume "d \<in> schema_defs s"
  then consider "mti s = Some d" | "Some d \<in> set (defs s)" by (auto simp: schema_defs_def)
  then show ?thesis
  proof cases
    case 1
    then show ?thesis by (cases s) simp
  next
    case 2
    then show ?thesis
      using size_list_estimation' [of "Some d" "defs s" "size d" "size_option size"] by (cases s) simp
  qed
qed

lemma decodeSlot_value:
  assumes "snd (decodeSlot m de) = Some v"
  obtains "v = sv (slots m ! nat de)" | def where "message_def m de = Some def" "sub v = None"
    | def c body u dv where "message_def m de = Some def" "DecodeBody c body u def = Inr dv" "sub v = sub dv"
proof (cases "present (slots m ! nat de) \<and> \<not> decoded (slots m ! nat de) \<and> fromSrc (slots m ! nat de)")
  case True
  let ?sl = "slots m ! nat de"
  let ?body = "slice (case src m of None \<Rightarrow> [] | Some w \<Rightarrow> w) (bodyOff ?sl) (bodyEnd ?sl)"
  obtain def where def: "message_def m de = Some def"
    using assms True by (cases "message_def m de") (simp_all add: decodeSlot_def Let_def)
  show ?thesis
  proof (cases "Codec def")
    case None
    then have "sub v = None"
      using assms True def by (auto simp: decodeSlot_def Let_def)
    with def show ?thesis by (rule that(2))
  next
    case (Some c)
    then obtain dv where "DecodeBody c ?body (units ?sl) def = Inr dv" "sub v = sub dv"
      using assms True def
      by (cases "DecodeBody c ?body (units ?sl) def") (auto simp: decodeSlot_def Let_def)
    with def show ?thesis by (rule that(3))
  qed
next
  case False
  then have "v = sv (slots m ! nat de)"
    using assms by (auto simp: decodeSlot_def Let_def split: if_splits option.splits)
  then show ?thesis by (rule that(1))
qed

lemma message_def_size:
  assumes "message_def m de = Some def"
  shows "size def < rank_m m"
proof -
  obtain s where s: "mschema m = Some s" "def \<in> schema_defs s"
    using assms Field_schema_defs by (auto simp: message_def_def schema_defs_def split: option.splits if_splits)
  then show ?thesis using schema_def_size [OF s(2)] by (simp add: rank_m_eq)
qed

lemma decodeSlot_rank:
  assumes "snd (decodeSlot m de) = Some v" "0 \<le> de" "de < int (length (slots m))"
  shows "rank_v v < rank_m m"
  using assms(1)
proof (cases rule: decodeSlot_value)
  case 1
  then show ?thesis using rank_stored(1) [of "slots m ! nat de" m] assms by (simp add: nat_less_iff)
next
  case (2 def)
  then show ?thesis by (simp add: rank_v_eq rank_m_eq)
next
  case (3 def c body u dv)
  then have "rank_v v \<le> size def"
    using DecodeBody_rank [OF 3(2)] by (simp add: rank_v_eq)
  with message_def_size [OF 3(1)] show ?thesis by simp
qed

lemma Fields_rank: "(p, v) \<in> set (snd (Fields m)) \<Longrightarrow> rank_v v < rank_m m"
  by (auto simp: Fields_seen in_map_filter seen_at_def intro: decodeSlot_rank)

lemma TagSeq_rank:
  assumes "(k, v) \<in> set (TagSeq m)"
  shows "rank_v v < rank_m m"
proof -
  obtain key where "(case map_of (tags m) key of None \<Rightarrow> None | Some ts \<Rightarrow> if tpresent ts then Some (key, tv ts) else None) = Some (k, v)"
    using assms unfolding TagSeq_def in_map_filter by blast
  then obtain ts where "map_of (tags m) key = Some ts" "v = tv ts"
    by (cases "map_of (tags m) key") (auto split: if_splits)
  then show ?thesis using rank_stored(2) [of key ts m] by (simp add: map_of_SomeD)
qed

section \<open>Text\<close>

text \<open>A Go string is split into runes as \<^verbatim>\<open>[]rune(s)\<close> does: a valid UTF-8 sequence, or a single byte that
  becomes the replacement character when it is written back.\<close>

definition cont_byte :: "byte \<Rightarrow> bool" where
  "cont_byte b \<longleftrightarrow> 0x80 \<le> b \<and> b \<le> 0xBF"

definition rune_len :: "bytes \<Rightarrow> nat" where
  "rune_len s = (case s of
       a # b # c # d # _ \<Rightarrow>
         if 0xF0 \<le> a \<and> a \<le> 0xF4 \<and> (a = 0xF0 \<longrightarrow> 0x90 \<le> b) \<and> (a = 0xF4 \<longrightarrow> b \<le> 0x8F) \<and> cont_byte b \<and> cont_byte c \<and> cont_byte d
         then 4 else 1
     | _ \<Rightarrow> 1)"

definition rune_len3 :: "bytes \<Rightarrow> nat" where
  "rune_len3 s = (case s of
       a # b # c # _ \<Rightarrow>
         if 0xE0 \<le> a \<and> a \<le> 0xEF \<and> (a = 0xE0 \<longrightarrow> 0xA0 \<le> b) \<and> (a = 0xED \<longrightarrow> b \<le> 0x9F) \<and> cont_byte b \<and> cont_byte c
         then 3 else 1
     | _ \<Rightarrow> 1)"

definition rune_len2 :: "bytes \<Rightarrow> nat" where
  "rune_len2 s = (case s of a # b # _ \<Rightarrow> if 0xC2 \<le> a \<and> a \<le> 0xDF \<and> cont_byte b then 2 else 1 | _ \<Rightarrow> 1)"

lemma rune_len_pos: "0 < rune_len s"
  by (auto simp: rune_len_def split: list.split)

function runes :: "bytes \<Rightarrow> bytes list" where
  "runes s = (if s = [] then []
     else let n = max (rune_len s) (max (rune_len3 s) (rune_len2 s)) in take n s # runes (drop n s))"
  by pat_completeness auto
termination
  by (relation "measure length") (use rune_len_pos in \<open>auto simp: less_max_iff_disj\<close>)

declare runes.simps [simp del]

definition runes_string :: "bytes list \<Rightarrow> bytes" where
  "runes_string rs = concat (map (\<lambda>r. if length r = 1 \<and> hd r \<ge> 0x80 then [0xEF, 0xBF, 0xBD] else r) rs)"

definition displayWidth :: "bytes \<Rightarrow> nat" where
  "displayWidth s = length (runes s)"

definition truncate_text :: "bytes \<Rightarrow> nat \<Rightarrow> bytes" where
  "truncate_text s w =
     (let r = runes s in
      if length r \<le> w then s
      else if w \<le> 1 then runes_string (take w r)
      else runes_string (take (w - 1) r) @ [0xE2, 0x80, 0xA6])"

text \<open>\<^verbatim>\<open>fmt\<close>'s \<^verbatim>\<open>%-*s\<close> pads to a width counted in runes.\<close>

definition pad_right :: "nat \<Rightarrow> bytes \<Rightarrow> bytes" where
  "pad_right w s = s @ replicate (w - length (runes s)) 32"

definition hex_digit_upper :: "byte \<Rightarrow> byte" where
  "hex_digit_upper n = bytes_of ''0123456789ABCDEF'' ! unat n"

definition hexUpper :: "bytes \<Rightarrow> bytes" where
  "hexUpper b = concat (map (\<lambda>c. [hex_digit_upper (drop_bit 4 c), hex_digit_upper (c AND 0x0F)]) b)"

text \<open>\<^verbatim>\<open>%016X\<close>.\<close>

definition hex16 :: "u64 \<Rightarrow> bytes" where
  "hex16 w = map (\<lambda>i. hex_digit_upper (ucast (drop_bit (4 * i) w AND 0x0F))) (rev [0..<16])"

definition bitmapHex :: "bitmap \<Rightarrow> bytes" where
  "bitmapHex b =
     (let n = (if Word b 2 \<noteq> Some 0 then 3 else if Word b 1 \<noteq> Some 0 then 2 else 1 :: nat)
      in concat (map (\<lambda>i. hex16 (the (Word b (int i)))) [0..<n]))"

definition stars :: "int \<Rightarrow> bytes" where
  "stars n = (if n \<le> 0 then [] else replicate (nat n) 42)"

definition maskPANDigits :: "bytes \<Rightarrow> bytes" where
  "maskPANDigits pan =
     (if length pan \<le> 4 then pan
      else if length pan \<le> 10 then stars (int (length pan) - 4) @ drop (length pan - 4) pan
      else take 6 pan @ stars (int (length pan) - 10) @ drop (length pan - 4) pan)"

section \<open>Redaction\<close>

datatype mask_kind = MaskNone | MaskPAN | MaskFull

definition sensitiveDE :: "int \<Rightarrow> mask_kind" where
  "sensitiveDE de = (if de = 2 then MaskPAN else if de \<in> {35, 36, 45, 52} then MaskFull else MaskNone)"

definition sensitiveTag :: "bytes \<Rightarrow> mask_kind" where
  "sensitiveTag tag =
     (if tag = bytes_of ''5A'' then MaskPAN
      else if tag = bytes_of ''57'' \<or> tag = bytes_of ''99'' then MaskFull else MaskNone)"

record describeConfig =
  dc_unmask :: bool
  dc_raw :: bool
  dc_color :: bool
  dc_title :: bytes

datatype describe_option = Unmasked | WithRaw | WithTitle bytes | WithColor

fun apply_describe :: "describe_option \<Rightarrow> describeConfig \<Rightarrow> describeConfig" where
  "apply_describe Unmasked c = c\<lparr>dc_unmask := True\<rparr>"
| "apply_describe WithRaw c = c\<lparr>dc_raw := True\<rparr>"
| "apply_describe (WithTitle s) c = c\<lparr>dc_title := s\<rparr>"
| "apply_describe WithColor c = c\<lparr>dc_color := True\<rparr>"

definition resolve_options :: "describe_option list \<Rightarrow> describeConfig" where
  "resolve_options os = fold apply_describe os
     \<lparr>dc_unmask = False, dc_raw = False, dc_color = False, dc_title = bytes_of ''ISO 8583 message''\<rparr>"

definition ansiReset :: bytes where "ansiReset = [0x1b] @ bytes_of ''[0m''"
definition ansiBold :: bytes where "ansiBold = [0x1b] @ bytes_of ''[1m''"
definition ansiDim :: bytes where "ansiDim = [0x1b] @ bytes_of ''[2m''"
definition ansiCyan :: bytes where "ansiCyan = [0x1b] @ bytes_of ''[36m''"
definition ansiGreen :: bytes where "ansiGreen = [0x1b] @ bytes_of ''[32m''"

definition paint :: "describeConfig \<Rightarrow> bytes \<Rightarrow> bytes \<Rightarrow> bytes" where
  "paint c code s = (if \<not> dc_color c then s else code @ s @ ansiReset)"

definition de2mask :: "int \<Rightarrow> describeConfig \<Rightarrow> mask_kind" where
  "de2mask de cfg = (if dc_unmask cfg then MaskNone else sensitiveDE de)"

definition tag2mask :: "bytes \<Rightarrow> describeConfig \<Rightarrow> mask_kind" where
  "tag2mask tag cfg = (if dc_unmask cfg then MaskNone else sensitiveTag (ToUpper tag))"

definition redacted :: "value \<Rightarrow> bytes" where
  "redacted v = bytes_of ''[redacted '' @ fmt_nat (length (Bytes v)) @ bytes_of ''B]''"

definition compositeSummary :: "message option \<Rightarrow> bytes" where
  "compositeSummary child = (case child of
       None \<Rightarrow> bytes_of ''{}''
     | Some c \<Rightarrow>
         let n = (if is_TLV_message c then length (TagSeq c) else length (snd (Fields c)))
         in bytes_of ''{'' @ fmt_nat n @ bytes_of '' element(s)}'')"

definition display :: "(bytes \<Rightarrow> bytes) \<Rightarrow> value \<Rightarrow> mask_kind \<Rightarrow> bytes" where
  "display quote v mk = (case mk of
       MaskPAN \<Rightarrow> (case value_String v of Inr s \<Rightarrow> maskPANDigits s | Inl _ \<Rightarrow> redacted v)
     | MaskFull \<Rightarrow> redacted v
     | MaskNone \<Rightarrow> (case vkind v of
           KindAmount \<Rightarrow> (case value_Decimal v of Inl _ \<Rightarrow> bytes_of ''?'' | Inr d \<Rightarrow> decimal_string d)
         | KindBytes \<Rightarrow> hexUpper (Bytes v)
         | KindComposite \<Rightarrow> compositeSummary (Composite v)
         | KindString \<Rightarrow> (case value_String v of Inl _ \<Rightarrow> hexUpper (Bytes v) | Inr s \<Rightarrow> quote s)
         | _ \<Rightarrow> (case value_String v of Inl _ \<Rightarrow> hexUpper (Bytes v) | Inr s \<Rightarrow> s)))"

section \<open>Rows\<close>

record descRow =
  dr_key :: bytes
  dr_name :: bytes
  dr_value :: bytes
  dr_raw :: bytes
  dr_depth :: nat

definition fieldName :: "schema option \<Rightarrow> int \<Rightarrow> bytes" where
  "fieldName s de = (case s of None \<Rightarrow> [] | Some s \<Rightarrow> (case Field s de of None \<Rightarrow> [] | Some def \<Rightarrow> Name def))"

definition defName :: "field_def option \<Rightarrow> bytes" where
  "defName def = (case def of None \<Rightarrow> [] | Some d \<Rightarrow> Name d)"

text \<open>The arguments of the calls that \<open>appendChildren\<close> makes: key, name, redaction and value.\<close>

definition appendChildren :: "describeConfig \<Rightarrow> bytes \<Rightarrow> message \<Rightarrow> (bytes \<times> bytes \<times> mask_kind \<times> value) list" where
  "appendChildren cfg prefix child =
     (if is_TLV_message child then
        map (\<lambda>(tag, v). (prefix @ [46] @ tag, defName (Option.bind (mschema child) (\<lambda>s. LookupTag s tag)), tag2mask tag cfg, v))
          (TagSeq child)
      else
        map (\<lambda>(p, v). (prefix @ [46] @ path_string p, fieldName (mschema child) (N (hd p)), MaskNone, v)) (snd (Fields child)))"

lemma appendChildren_rank:
  "Composite v = Some child \<Longrightarrow> (k, n, mk, x) \<in> set (appendChildren cfg prefix child) \<Longrightarrow> rank_v x < rank_v v"
  using Fields_rank [of _ x child] TagSeq_rank [of _ x child] rank_child [of v child]
  by (auto simp: appendChildren_def split: if_splits)

function appendRow :: "(bytes \<Rightarrow> bytes) \<Rightarrow> describeConfig \<Rightarrow> bytes \<Rightarrow> bytes \<Rightarrow> mask_kind \<Rightarrow> value \<Rightarrow> nat \<Rightarrow> descRow list" where
  "appendRow quote cfg key name mk v depth = (case Composite v of
       Some child \<Rightarrow>
         \<lparr>dr_key = key, dr_name = name, dr_value = compositeSummary (Some child), dr_raw = [], dr_depth = depth\<rparr> #
         concat (map (\<lambda>(k, n, mk', x). appendRow quote cfg k n mk' x (depth + 1)) (appendChildren cfg key child))
     | None \<Rightarrow>
         [\<lparr>dr_key = key, dr_name = name, dr_value = display quote v mk,
           dr_raw = (if mk = MaskNone then hexUpper (Bytes v) else bytes_of ''[redacted]''), dr_depth = depth\<rparr>])"
  by pat_completeness auto
termination
  by (relation "measure (\<lambda>(q, cfg, key, name, mk, v, depth). rank_v v)") (auto simp: appendChildren_rank)

declare appendRow.simps [simp del]

definition collect_top :: "message \<Rightarrow> describeConfig \<Rightarrow> (bytes \<times> bytes \<times> mask_kind \<times> value) list" where
  "collect_top m cfg =
     map (\<lambda>(p, v). let de = N (hd p) in (path_string p, fieldName (mschema m) de, de2mask de cfg, v)) (snd (Fields m))"

definition collect_rows :: "(bytes \<Rightarrow> bytes) \<Rightarrow> message \<Rightarrow> describeConfig \<Rightarrow> descRow list" where
  "collect_rows quote m cfg = concat (map (\<lambda>(k, n, mk, v). appendRow quote cfg k n mk v 0) (collect_top m cfg))"

section \<open>The dump\<close>

definition schemaID :: "message \<Rightarrow> bytes" where
  "schemaID m = (case mschema m of Some s \<Rightarrow> schema_id s | None \<Rightarrow> bytes_of ''?'')"

definition maxNameWidth :: nat where
  "maxNameWidth = 40"

definition key_width :: "descRow list \<Rightarrow> nat" where
  "key_width rows = fold (\<lambda>r w. max w (length (dr_key r))) rows 2"

definition name_width :: "descRow list \<Rightarrow> nat" where
  "name_width rows = min maxNameWidth (fold (\<lambda>r w. max w (dr_depth r * 2 + displayWidth (dr_name r))) rows 0)"

text \<open>The writes of \<open>Describe\<close>, one element per call of \<^verbatim>\<open>Fprintf\<close> or \<^verbatim>\<open>Fprintln\<close>.\<close>

definition describe_header :: "describeConfig \<Rightarrow> message \<Rightarrow> nat \<Rightarrow> nat \<Rightarrow> bytes list" where
  "describe_header cfg m keyW nameW =
     [paint cfg ansiBold (dc_title cfg) @ bytes_of '' '' @ [0xC2, 0xB7] @ bytes_of '' profile '' @ paint cfg ansiDim (schemaID m) @ [10]] @
     (case snd (Get m 0) of
        None \<Rightarrow> []
      | Some v \<Rightarrow> (case value_String v of
            Inl _ \<Rightarrow> []
          | Inr s \<Rightarrow> [bytes_of ''  MTI     : '' @ paint cfg ansiBold s @ [10]])) @
     [bytes_of ''  bitmap  : '' @ bitmapHex (bmap m) @ bytes_of ''  '' @
        paint cfg ansiDim (bytes_of ''('' @ fmt_int (Count (bmap m)) @ bytes_of '' field(s) '' @ [0xC2, 0xB7] @ bytes_of '' '' @
          bitmap_string (bmap m) @ bytes_of '')'') @ [10],
      bytes_of ''  '' @ paint cfg ansiDim (concat (replicate (keyW + nameW + 6) [0xE2, 0x94, 0x80])) @ [10]]"

definition describe_row :: "describeConfig \<Rightarrow> nat \<Rightarrow> nat \<Rightarrow> descRow \<Rightarrow> bytes list" where
  "describe_row cfg keyW nameW r =
     (let name = truncate_text (concat (replicate (dr_depth r) (bytes_of ''  '')) @ dr_name r) nameW;
          key = paint cfg ansiCyan (pad_right keyW (dr_key r)) in
      [bytes_of ''  '' @ key @ bytes_of ''  '' @ pad_right nameW name @ bytes_of '' = '' @ paint cfg ansiGreen (dr_value r)] @
      (if dc_raw cfg \<and> dr_raw r \<noteq> [] then [bytes_of ''  raw='' @ paint cfg ansiDim (dr_raw r)] else []) @
      [[10]])"

definition describe_writes :: "(bytes \<Rightarrow> bytes) \<Rightarrow> message \<Rightarrow> describe_option list \<Rightarrow> bytes list" where
  "describe_writes quote m os =
     (let cfg = resolve_options os; rows = collect_rows quote m cfg;
          keyW = key_width rows; nameW = name_width rows
      in describe_header cfg m keyW nameW @ concat (map (describe_row cfg keyW nameW) rows))"

text \<open>\<open>errWriter\<close> in front of a writer \<open>w\<close>, which is any function from its state: after the first error
  nothing more reaches the writer, and that error is the result.\<close>

fun errWriter_run :: "('w \<Rightarrow> bytes \<Rightarrow> 'w \<times> 'e option) \<Rightarrow> 'w \<Rightarrow> bytes list \<Rightarrow> 'w \<times> 'e option" where
  "errWriter_run w st [] = (st, None)"
| "errWriter_run w st (p # ps) = (case w st p of (st', Some e) \<Rightarrow> (st', Some e) | (st', None) \<Rightarrow> errWriter_run w st' ps)"

definition Describe_to :: "(bytes \<Rightarrow> bytes) \<Rightarrow> ('w \<Rightarrow> bytes \<Rightarrow> 'w \<times> 'e option) \<Rightarrow> 'w \<Rightarrow> message \<Rightarrow> describe_option list \<Rightarrow> 'w \<times> 'e option" where
  "Describe_to quote w st m os = errWriter_run w st (describe_writes quote m os)"

text \<open>A \<^verbatim>\<open>strings.Builder\<close> takes every write.\<close>

definition builder_write :: "bytes \<Rightarrow> bytes \<Rightarrow> bytes \<times> unit option" where
  "builder_write b p = (b @ p, None)"

definition Dump :: "(bytes \<Rightarrow> bytes) \<Rightarrow> message \<Rightarrow> describe_option list \<Rightarrow> bytes" where
  "Dump quote m os = fst (Describe_to quote builder_write [] m os)"

section \<open>The logger's value and the summary\<close>

datatype slog_value = SlogString bytes | SlogGroup "(bytes \<times> slog_value) list"

definition log_children :: "describeConfig \<Rightarrow> message \<Rightarrow> (bytes \<times> mask_kind \<times> value) list" where
  "log_children cfg child =
     (if is_TLV_message child then map (\<lambda>(tag, v). (tag, tag2mask tag cfg, v)) (TagSeq child)
      else map (\<lambda>(p, v). (path_string p, MaskNone, v)) (snd (Fields child)))"

lemma log_children_rank:
  "Composite v = Some child \<Longrightarrow> (k, mk, x) \<in> set (log_children cfg child) \<Longrightarrow> rank_v x < rank_v v"
  using Fields_rank [of _ x child] TagSeq_rank [of _ x child] rank_child [of v child]
  by (auto simp: log_children_def split: if_splits)

function logField :: "(bytes \<Rightarrow> bytes) \<Rightarrow> value \<Rightarrow> mask_kind \<Rightarrow> describeConfig \<Rightarrow> slog_value" where
  "logField quote v mk cfg = (case Composite v of
       Some child \<Rightarrow> SlogGroup (map (\<lambda>(k, mk', x). (k, logField quote x mk' cfg)) (log_children cfg child))
     | None \<Rightarrow> SlogString (display quote v mk))"
  by pat_completeness auto
termination
  by (relation "measure (\<lambda>(q, v, mk, cfg). rank_v v)") (auto simp: log_children_rank)

declare logField.simps [simp del]

definition logValue :: "(bytes \<Rightarrow> bytes) \<Rightarrow> message \<Rightarrow> describeConfig \<Rightarrow> slog_value" where
  "logValue quote m cfg = SlogGroup
     ([(bytes_of ''schema'', SlogString (schemaID m))] @
      (case snd (Get m 0) of
         None \<Rightarrow> []
       | Some v \<Rightarrow> (case value_String v of Inl _ \<Rightarrow> [] | Inr s \<Rightarrow> [(bytes_of ''mti'', SlogString s)])) @
      map (\<lambda>(p, v). let de = N (hd p) in (bytes_of ''de'' @ fmt_int de, logField quote v (de2mask de cfg) cfg)) (snd (Fields m)))"

definition LogValue :: "(bytes \<Rightarrow> bytes) \<Rightarrow> message \<Rightarrow> slog_value" where
  "LogValue quote m = logValue quote m \<lparr>dc_unmask = False, dc_raw = False, dc_color = False, dc_title = []\<rparr>"

definition LogValuer :: "(bytes \<Rightarrow> bytes) \<Rightarrow> message \<Rightarrow> describe_option list \<Rightarrow> slog_value" where
  "LogValuer quote m os = logValue quote m (resolve_options os)"

definition message_String :: "message \<Rightarrow> bytes" where
  "message_String m =
     (let mti = (case snd (message_MTI m) of
          None \<Rightarrow> bytes_of ''----''
        | Some v \<Rightarrow> (case value_String v of Inl _ \<Rightarrow> bytes_of ''----'' | Inr s \<Rightarrow> s))
      in bytes_of ''iso8583.Message{'' @ schemaID m @ bytes_of '' mti='' @ mti @ bytes_of '' '' @ bitmap_string (bmap m) @ bytes_of ''}'')"

section \<open>What an observer of the output can learn\<close>

text \<open>The redacted view of a child: label, name, redaction and value of each part.\<close>

definition child_seen :: "message \<Rightarrow> (bytes \<times> bytes \<times> mask_kind \<times> value) list" where
  "child_seen child = appendChildren (resolve_options []) [] child"

lemma masks_fixed: "\<not> dc_unmask cfg \<Longrightarrow> tag2mask t cfg = tag2mask t (resolve_options [])"
  "\<not> dc_unmask cfg \<Longrightarrow> de2mask de cfg = de2mask de (resolve_options [])"
  by (simp_all add: tag2mask_def de2mask_def resolve_options_def)

lemma appendChildren_seen:
  "\<not> dc_unmask cfg \<Longrightarrow> appendChildren cfg prefix child = map (\<lambda>(l, n, mk, v). (prefix @ l, n, mk, v)) (child_seen child)"
  by (auto simp: child_seen_def appendChildren_def masks_fixed)

lemma log_children_seen:
  "\<not> dc_unmask cfg \<Longrightarrow> log_children cfg child = map (\<lambda>(l, n, mk, v). (tl l, mk, v)) (child_seen child)"
  by (auto simp: child_seen_def appendChildren_def log_children_def masks_fixed)

lemma compositeSummary_seen:
  "compositeSummary (Some c) = bytes_of ''{'' @ fmt_nat (length (child_seen c)) @ bytes_of '' element(s)}''"
  by (simp add: compositeSummary_def child_seen_def appendChildren_def Let_def)

text \<open>Account numbers that agree in length, in their last four digits and, when they are longer than ten, in
  their first six.\<close>

definition pan_agree :: "bytes \<Rightarrow> bytes \<Rightarrow> bool" where
  "pan_agree s t \<longleftrightarrow> length s = length t \<and> drop (length s - 4) s = drop (length t - 4) t \<and> (10 < length s \<longrightarrow> take 6 s = take 6 t)"

lemma pan_agree_mask: "pan_agree s t \<Longrightarrow> maskPANDigits s = maskPANDigits t"
  by (auto simp: pan_agree_def maskPANDigits_def)

text \<open>Values that agree in what their redaction shows.\<close>

definition same_label :: "bytes \<times> bytes \<times> mask_kind \<times> value \<Rightarrow> bytes \<times> bytes \<times> mask_kind \<times> value \<Rightarrow> bool" where
  "same_label x y \<longleftrightarrow> fst x = fst y \<and> fst (snd x) = fst (snd y) \<and> fst (snd (snd x)) = fst (snd (snd y))"

inductive blind :: "mask_kind \<Rightarrow> value \<Rightarrow> value \<Rightarrow> bool" where
  same: "blind mk v v"
| full: "Composite v = None \<Longrightarrow> Composite v' = None \<Longrightarrow> length (Bytes v) = length (Bytes v') \<Longrightarrow> blind MaskFull v v'"
| pan: "Composite v = None \<Longrightarrow> Composite v' = None \<Longrightarrow> value_String v = Inr s \<Longrightarrow> value_String v' = Inr s' \<Longrightarrow> pan_agree s s' \<Longrightarrow>
    blind MaskPAN v v'"
| parts: "Composite v = Some c \<Longrightarrow> Composite v' = Some c' \<Longrightarrow>
    list_all2 (\<lambda>x y. same_label x y \<and> blind (fst (snd (snd x))) (snd (snd (snd x))) (snd (snd (snd y)))) (child_seen c) (child_seen c') \<Longrightarrow>
    blind mk v v'"

definition looks_alike :: "message \<Rightarrow> message \<Rightarrow> bool" where
  "looks_alike m m' \<longleftrightarrow> mschema m = mschema m' \<and> bmap m = bmap m' \<and> snd (Get m 0) = snd (Get m' 0) \<and>
     list_all2 (\<lambda>x y. fst x = fst y \<and> blind (sensitiveDE (N (hd (fst x)))) (snd x) (snd y)) (snd (Fields m)) (snd (Fields m'))"

lemma list_all2_map_eq: "list_all2 (\<lambda>x y. f x = g y) xs ys \<Longrightarrow> map f xs = map g ys"
  by (induction rule: list_all2_induct) simp_all

lemma blind_appendRow:
  "blind mk v v' \<Longrightarrow> \<not> dc_unmask cfg \<Longrightarrow> appendRow q cfg key name mk v depth = appendRow q cfg key name mk v' depth"
proof (induction arbitrary: key name depth rule: blind.induct)
  case (full v v')
  then show ?case by (simp add: appendRow.simps [of q cfg key name MaskFull] display_def redacted_def)
next
  case (pan v v' s s')
  then show ?case by (simp add: appendRow.simps [of q cfg key name MaskPAN] display_def pan_agree_mask)
next
  case (parts v c v' c' mk)
  let ?f = "\<lambda>(k, n, mk', x). appendRow q cfg k n mk' x (depth + 1)"
  have "list_all2 (\<lambda>x y. ?f (case x of (l, n, mk, v) \<Rightarrow> (key @ l, n, mk, v)) = ?f (case y of (l, n, mk, v) \<Rightarrow> (key @ l, n, mk, v)))
      (child_seen c) (child_seen c')"
    using parts(3) by (rule list_all2_mono) (use parts.prems in \<open>auto simp: same_label_def split: prod.splits\<close>)
  then have "map ?f (appendChildren cfg key c) = map ?f (appendChildren cfg key c')"
    unfolding appendChildren_seen [OF parts.prems] map_map comp_def by (rule list_all2_map_eq)
  moreover have "compositeSummary (Some c) = compositeSummary (Some c')"
    using list_all2_lengthD [OF parts(3)] by (simp add: compositeSummary_seen)
  ultimately show ?case
    using parts(1,2) by (simp add: appendRow.simps [of q cfg key name mk])
qed simp

lemma blind_logField:
  "blind mk v v' \<Longrightarrow> \<not> dc_unmask cfg \<Longrightarrow> logField q v mk cfg = logField q v' mk cfg"
proof (induction rule: blind.induct)
  case (full v v')
  then show ?case by (simp add: logField.simps [of q _ MaskFull] display_def redacted_def)
next
  case (pan v v' s s')
  then show ?case by (simp add: logField.simps [of q _ MaskPAN] display_def pan_agree_mask)
next
  case (parts v c v' c' mk)
  let ?f = "\<lambda>(k, mk', x). (k, logField q x mk' cfg)"
  have "list_all2 (\<lambda>x y. ?f (case x of (l, n, mk, v) \<Rightarrow> (tl l, mk, v)) = ?f (case y of (l, n, mk, v) \<Rightarrow> (tl l, mk, v)))
      (child_seen c) (child_seen c')"
    using parts(3) by (rule list_all2_mono) (use parts.prems in \<open>auto simp: same_label_def split: prod.splits\<close>)
  then have "map ?f (log_children cfg c) = map ?f (log_children cfg c')"
    unfolding log_children_seen [OF parts.prems] map_map comp_def by (rule list_all2_map_eq)
  then show ?case
    using parts(1,2) by (simp add: logField.simps [of q _ mk])
qed simp

lemma unmask_only_by_option: "dc_unmask (resolve_options os) \<longleftrightarrow> Unmasked \<in> set os"
proof -
  have "dc_unmask (fold apply_describe os c) \<longleftrightarrow> dc_unmask c \<or> Unmasked \<in> set os" for c
  proof (induction os arbitrary: c)
    case (Cons x xs)
    then show ?case by (cases x) auto
  qed simp
  then show ?thesis by (simp add: resolve_options_def)
qed

lemma alike_top:
  assumes "looks_alike m m'" and "\<And>p v v'. blind (sensitiveDE (N (hd p))) v v' \<Longrightarrow> f p v = f p v'"
  shows "map (\<lambda>(p, v). f p v) (snd (Fields m)) = map (\<lambda>(p, v). f p v) (snd (Fields m'))"
proof -
  have "list_all2 (\<lambda>x y. (case x of (p, v) \<Rightarrow> f p v) = (case y of (p, v) \<Rightarrow> f p v)) (snd (Fields m)) (snd (Fields m'))"
    using assms(1) unfolding looks_alike_def
    by (elim conjE, elim list_all2_mono) (use assms(2) in \<open>auto split: prod.splits\<close>)
  then show ?thesis by (rule list_all2_map_eq)
qed

lemma de2mask_masked: "\<not> dc_unmask cfg \<Longrightarrow> de2mask de cfg = sensitiveDE de"
  by (simp add: de2mask_def)

lemma collect_rows_eq:
  "collect_rows q m cfg = concat (map (\<lambda>(p, v).
     appendRow q cfg (path_string p) (fieldName (mschema m) (N (hd p))) (de2mask (N (hd p)) cfg) v 0) (snd (Fields m)))"
  by (simp add: collect_rows_def collect_top_def comp_def case_prod_unfold Let_def)

lemma alike_rows:
  assumes "looks_alike m m'" "\<not> dc_unmask cfg"
  shows "collect_rows q m cfg = collect_rows q m' cfg"
proof -
  have "mschema m = mschema m'" using assms(1) by (simp add: looks_alike_def)
  moreover have "map (\<lambda>(p, v). appendRow q cfg (path_string p) (fieldName s (N (hd p))) (de2mask (N (hd p)) cfg) v 0) (snd (Fields m)) =
      map (\<lambda>(p, v). appendRow q cfg (path_string p) (fieldName s (N (hd p))) (de2mask (N (hd p)) cfg) v 0) (snd (Fields m'))" for s
    by (rule alike_top [OF assms(1)]) (simp add: blind_appendRow de2mask_masked assms(2))
  ultimately show ?thesis
    by (simp only: collect_rows_eq)
qed

lemma alike_log:
  assumes "looks_alike m m'" "\<not> dc_unmask cfg"
  shows "logValue q m cfg = logValue q m' cfg"
proof -
  have "mschema m = mschema m'" "snd (Get m 0) = snd (Get m' 0)" using assms(1) by (simp_all add: looks_alike_def)
  moreover have "map (\<lambda>(p, v). (bytes_of ''de'' @ fmt_int (N (hd p)), logField q v (de2mask (N (hd p)) cfg) cfg)) (snd (Fields m)) =
      map (\<lambda>(p, v). (bytes_of ''de'' @ fmt_int (N (hd p)), logField q v (de2mask (N (hd p)) cfg) cfg)) (snd (Fields m'))"
    by (rule alike_top [OF assms(1)]) (simp add: blind_logField de2mask_masked assms(2))
  ultimately show ?thesis
    by (simp add: logValue_def schemaID_def Let_def)
qed

lemma alike_describe:
  assumes "looks_alike m m'" "Unmasked \<notin> set os"
  shows "describe_writes q m os = describe_writes q m' os"
proof -
  have "collect_rows q m (resolve_options os) = collect_rows q m' (resolve_options os)"
    using assms by (intro alike_rows) (simp_all add: unmask_only_by_option)
  moreover have "describe_header cfg m = describe_header cfg m'" for cfg
    using assms(1) by (simp add: looks_alike_def describe_header_def schemaID_def fun_eq_iff)
  ultimately show ?thesis
    by (simp add: describe_writes_def)
qed

lemma alike_String: "looks_alike m m' \<Longrightarrow> message_String m = message_String m'"
  by (simp add: looks_alike_def message_String_def message_MTI_def schemaID_def)

section \<open>Writing card data\<close>

text \<open>What a reader sees after a write.\<close>

lemma Set_de_seen:
  assumes "Set_de m de x = (m', None)" "0 \<le> de"
  shows "\<exists>def val. message_def m de = Some def \<and> makeValue (Some def) x = Inr val \<and> de < int (length (slots m)) \<and>
    mschema m' = mschema m \<and> length (slots m') = length (slots m) \<and> bmap m' = (if de \<ge> 1 then Bitmap.Set (bmap m) de else bmap m) \<and>
    snd (decodeSlot m' de) = Some (with_vcodec val (Codec def)) \<and>
    (\<forall>de'. 0 \<le> de' \<and> de' \<noteq> de \<longrightarrow> snd (decodeSlot m' de') = snd (decodeSlot m de'))"
proof -
  obtain def val where d: "message_def m de = Some def" "makeValue (Some def) x = Inr val" "de < int (length (slots m))"
    and m': "m' = mark_set (with_owned (put_slot m de (written_slot (slots m ! nat de) (with_vcodec val (Codec def)))) True) de"
    using assms(1) by (auto simp: Set_de_def Let_def split: if_splits option.splits sum.splits)
  have sel: "mschema m' = mschema m" "src m' = src m"
    "slots m' = (slots m)[nat de := written_slot (slots m ! nat de) (with_vcodec val (Codec def))]"
    "bmap m' = (if de \<ge> 1 then Bitmap.Set (bmap m) de else bmap m)"
    by (simp_all add: m' mark_set_def)
  have "snd (decodeSlot m' de) = Some (with_vcodec val (Codec def))"
    using d(3) assms(2) by (simp add: decodeSlot_def sel(3) written_slot_def nat_less_iff)
  moreover have "snd (decodeSlot m' de') = snd (decodeSlot m de')" if "0 \<le> de'" "de' \<noteq> de" for de'
  proof -
    have "nat de' \<noteq> nat de" using that assms(2) by auto
    then show ?thesis by (intro decodeSlot_local) (simp_all add: sel)
  qed
  ultimately show ?thesis
    using d sel by auto
qed

text \<open>Two writes of values that agree in what the redaction shows give messages that look alike.\<close>

lemma list_all2_map_filter:
  "(\<And>x. x \<in> set xs \<Longrightarrow> rel_option P (f x) (g x)) \<Longrightarrow> list_all2 P (List.map_filter f xs) (List.map_filter g xs)"
proof (induction xs)
  case (Cons x xs)
  then have "rel_option P (f x) (g x)" "list_all2 P (List.map_filter f xs) (List.map_filter g xs)"
    by simp_all
  then show ?case by (cases "f x"; cases "g x") (simp_all add: map_filter_simps)
qed (simp add: map_filter_simps)

lemma N_DE: "0 \<le> de \<Longrightarrow> de < 2 ^ 31 \<Longrightarrow> N (hd (DE de)) = de"
  by (simp add: DE_def to_int32_def)

lemma writes_look_alike:
  assumes "Set_de m de x = (m1, None)" "Set_de m de y = (m2, None)" "1 \<le> de" "de < 2 ^ 31"
    and "\<And>def v v'. message_def m de = Some def \<Longrightarrow> makeValue (Some def) x = Inr v \<Longrightarrow> makeValue (Some def) y = Inr v' \<Longrightarrow>
      blind (sensitiveDE de) (with_vcodec v (Codec def)) (with_vcodec v' (Codec def))"
  shows "looks_alike m1 m2"
proof -
  have de: "0 \<le> de" using assms(3) by simp
  from Set_de_seen [OF assms(1) de] obtain def v where a: "message_def m de = Some def" "makeValue (Some def) x = Inr v"
    "mschema m1 = mschema m" "length (slots m1) = length (slots m)" "bmap m1 = Bitmap.Set (bmap m) de"
    "snd (decodeSlot m1 de) = Some (with_vcodec v (Codec def))"
    "\<forall>de'. 0 \<le> de' \<and> de' \<noteq> de \<longrightarrow> snd (decodeSlot m1 de') = snd (decodeSlot m de')"
    using assms(3) by auto
  from Set_de_seen [OF assms(2) de] a(1) obtain v' where b: "makeValue (Some def) y = Inr v'"
    "mschema m2 = mschema m" "length (slots m2) = length (slots m)" "bmap m2 = Bitmap.Set (bmap m) de"
    "snd (decodeSlot m2 de) = Some (with_vcodec v' (Codec def))"
    "\<forall>de'. 0 \<le> de' \<and> de' \<noteq> de \<longrightarrow> snd (decodeSlot m2 de') = snd (decodeSlot m de')"
    using assms(3) by auto
  let ?P = "\<lambda>x y. fst x = fst y \<and> blind (sensitiveDE (N (hd (fst x)))) (snd x) (snd y)"
  have "rel_option ?P (seen_at m1 k) (seen_at m2 k)" if "k \<in> set [1..int (length (slots m)) - 1]" for k
  proof (cases "k = de")
    case True
    then show ?thesis
      using a(6) b(5) assms(3,4) assms(5) [OF a(1,2) b(1)] by (simp add: seen_at_def N_DE)
  next
    case False
    then have "seen_at m1 k = seen_at m2 k"
      using a(7) b(6) that by (simp add: seen_at_def)
    then show ?thesis by (cases "seen_at m2 k") (simp_all add: blind.same)
  qed
  then have "list_all2 ?P (snd (Fields m1)) (snd (Fields m2))"
    unfolding Fields_seen a(4) b(3) by (rule list_all2_map_filter)
  moreover have "snd (Get m1 0) = snd (Get m2 0)"
    using a(4,7) b(3,6) assms(3) by (simp add: Get_def)
  ultimately show ?thesis
    using a b by (simp add: looks_alike_def)
qed

section \<open>Properties\<close>

lemma string_write_scalar:
  assumes "makeValue (Some def) (AString x) = Inr v"
  shows "Composite v = None" "Bytes v = x" "Kind def \<noteq> KindAmount \<Longrightarrow> value_String v = Inr x"
  using assms
  by (auto simp: makeValue_def scalarFromBytes_def Composite_def Bytes_def value_String_def split: kind.splits if_splits sum.splits)

lemma scalar_vcodec: "Composite (with_vcodec v c) = Composite v" "Bytes (with_vcodec v c) = Bytes v"
  "value_String v = Inr x \<Longrightarrow> value_String (with_vcodec v c) = Inr x"
  by (simp_all add: Composite_def Bytes_def value_String_def split: kind.splits)

text \<open>C16: card data does not reach the logs.  Write track data or a PIN block (elements 35, 36, 45 and 52) to a
  message, or another one of the same length; or write an account number to element 2, or another
  one with the same length, the same last four digits and, beyond ten digits, the same first six.  Then the dump with any
  options but \<open>Unmasked\<close>, into any writer, the value for the structured logger and the one-line summary are
  the same: whoever reads them learns no more of the secret than that.\<close>

theorem describe_hides_card_data:
  assumes "Set_de m de (AString x) = (m1, None)" "Set_de m de (AString y) = (m2, None)"
    and "de \<in> {35, 36, 45, 52} \<and> length x = length y \<or>
      de = 2 \<and> pan_agree x y \<and> (\<forall>def. message_def m 2 = Some def \<longrightarrow> Kind def \<noteq> KindAmount)"
    and "Unmasked \<notin> set os"
  shows "Dump quote m1 os = Dump quote m2 os \<and> Describe_to quote w st m1 os = Describe_to quote w st m2 os \<and>
    LogValue quote m1 = LogValue quote m2 \<and> LogValuer quote m1 os = LogValuer quote m2 os \<and>
    message_String m1 = message_String m2"
proof -
  have "blind (sensitiveDE de) (with_vcodec v (Codec def)) (with_vcodec v' (Codec def))"
    if d: "message_def m de = Some def" and v: "makeValue (Some def) (AString x) = Inr v" "makeValue (Some def) (AString y) = Inr v'"
    for def v v'
  proof (cases "de = 2")
    case True
    then have "blind MaskPAN (with_vcodec v (Codec def)) (with_vcodec v' (Codec def))"
      using assms(3) d string_write_scalar [OF v(1)] string_write_scalar [OF v(2)]
      by (intro blind.pan [of _ _ x y]) (auto simp: scalar_vcodec)
    with True show ?thesis by (simp add: sensitiveDE_def)
  next
    case False
    then have "blind MaskFull (with_vcodec v (Codec def)) (with_vcodec v' (Codec def))" "sensitiveDE de = MaskFull"
      using assms(3) string_write_scalar [OF v(1)] string_write_scalar [OF v(2)]
      by (auto intro!: blind.full simp: scalar_vcodec sensitiveDE_def)
    then show ?thesis by simp
  qed
  moreover have "1 \<le> de" "de < 2 ^ 31" using assms(3) by auto
  ultimately have alike: "looks_alike m1 m2"
    using writes_look_alike [OF assms(1,2)] by blast
  show ?thesis
    using alike_describe [OF alike assms(4), of quote] alike_log [OF alike] alike_String [OF alike] assms(4)
    by (simp add: Dump_def Describe_to_def LogValue_def LogValuer_def unmask_only_by_option)
qed

definition track_schema :: schema where
  "track_schema = Schema (bytes_of ''demo'') None \<lparr>BmCodec = None, Levels = 1\<rparr>
     (replicate 35 None @ [Some (FieldDef (DE 35) (bytes_of ''Track 2'') KindString (Some Ascii) None 37 0
        \<lparr>Side = PadNone, PadChar = 0\<rparr> [] \<lparr>Mode = RequiredOptional, MTIClasses = []\<rparr> None)]) [] 35 False"

theorem describe_hides_card_data_witness:
  "Set_de (New track_schema) 35 (AString [49, 50]) \<noteq> Set_de (New track_schema) 35 (AString [51, 52]) \<and>
   Dump id (fst (Set_de (New track_schema) 35 (AString [49, 50]))) [WithRaw] =
   Dump id (fst (Set_de (New track_schema) 35 (AString [51, 52]))) [WithRaw]"
proof -
  have n: "snd (Set_de (New track_schema) 35 (AString [49, 50])) = None" "snd (Set_de (New track_schema) 35 (AString [51, 52])) = None"
    by code_simp+
  have "Set_de (New track_schema) 35 (AString x) = (fst (Set_de (New track_schema) 35 (AString x)), None)"
    if "snd (Set_de (New track_schema) 35 (AString x)) = None" for x
    using that by (metis prod.collapse)
  note s = this [OF n(1)] this [OF n(2)]
  have "sv (slots (fst (Set_de (New track_schema) 35 (AString [49, 50]))) ! 35) \<noteq> sv (slots (fst (Set_de (New track_schema) 35 (AString [51, 52]))) ! 35)"
    by code_simp
  then show ?thesis
    using describe_hides_card_data [OF s, of "[WithRaw]" id "\<lambda>st p. (st, None)" "()"] by auto
qed

section \<open>The account number in chip data\<close>

lemma emv_unknown_tag:
  assumes "emvSchema = Some s"
  shows "isTLV s \<and> LookupTag s (bytes_of ''5A'') = None"
proof -
  have "map_option (\<lambda>s. (isTLV s, LookupTag s (bytes_of ''5A'') = None)) emvSchema = Some (True, True)"
    by code_simp
  then show ?thesis unfolding assms by simp
qed

lemma chip_pan_decodes:
  assumes "emvSchema = Some s" "Sub def = Some s" "length b = 8"
  shows "DecodeBody BerTLV ([0x5A, 8] @ b) u def =
    Inr (CompositeValue ([0x5A, 8] @ b) (PutTag (NewTLV (Some s)) (bytes_of ''5A'') (BytesValue b)))"
proof -
  have tag: "ToUpper (hex_encode [0x5A]) = bytes_of ''5A''" "wf_tag [0x5A]" "ber_len 8 = [8]"
    by code_simp+
  have "readTLV ([0x5A, 8] @ b) 0 = Inr (bytes_of ''5A'', b, 10)"
    using readTLV_append [OF tag(2), of b "[]" "[]"] assms(3) tag(1,3) by simp
  moreover have "decode_tag DecodeBody def (bytes_of ''5A'') b = Inr (BytesValue b)"
    using assms(2) emv_unknown_tag [OF assms(1)] by (simp add: decode_tag_def lookupTag_def)
  ultimately have "ber_loop DecodeBody def ([0x5A, 8] @ b) 0 (NewTLV (Some s)) =
      Inr (PutTag (NewTLV (Some s)) (bytes_of ''5A'') (BytesValue b))"
    using assms(3) by (simp add: ber_loop.simps [of DecodeBody def "[0x5A, 8] @ b" 0] ber_loop.simps [of DecodeBody def "[0x5A, 8] @ b" 10]
        ber_loop.simps [of DecodeBody def "0x5A # 8 # b" 0] ber_loop.simps [of DecodeBody def "0x5A # 8 # b" 10] bind_result_def)
  then show ?thesis
    using assms(2) by (simp add: DecodeBody.simps [of BerTLV] berTLV_DecodeBody_def bind_result_def)
qed

text \<open>C40: the account number of the chip is not redacted as one.  The chip schema of the profiles does not declare tag
  5A, so its value is binary, two digits to the byte, and the redaction that keeps the last four characters
  keeps the last four bytes: the dump of a sixteen-digit number shows its last eight digits.\<close>

theorem describe_chip_pan_leak:
  assumes "emvSchema = Some s" "Sub def = Some s" "length b = 8"
  shows "\<exists>v. DecodeBody BerTLV ([0x5A, 8] @ b) u def = Inr v \<and>
    (\<exists>row \<in> set (appendRow quote (resolve_options []) key name mk v depth). dr_value row = replicate 4 42 @ drop 4 b)"
proof -
  let ?child = "PutTag (NewTLV (Some s)) (bytes_of ''5A'') (BytesValue b)"
  define v where "v = CompositeValue ([0x5A, 8] @ b) ?child"
  have up: "ToUpper (bytes_of ''5A'') = bytes_of ''5A''" "sensitiveTag (bytes_of ''5A'') = MaskPAN"
    by code_simp+
  have "TagSeq ?child = [(bytes_of ''5A'', BytesValue b)]"
    by (simp add: TagSeq_def PutTag_def NewTLV_def map_filter_simps up Let_def)
  then have kids: "\<exists>k n. appendChildren (resolve_options []) key ?child = [(k, n, MaskPAN, BytesValue b)]"
    using emv_unknown_tag [OF assms(1)]
    by (simp add: appendChildren_def is_TLV_message_def PutTag_def NewTLV_def tag2mask_def up resolve_options_def Let_def)
  moreover have "display quote (BytesValue b) MaskPAN = replicate 4 42 @ drop 4 b"
    using assms(3) by (simp add: display_def value_String_def BytesValue_def maskPANDigits_def stars_def)
  moreover have "Composite (BytesValue b) = None" "Composite v = Some ?child"
    by (simp_all add: v_def Composite_def BytesValue_def CompositeValue_def)
  ultimately have "\<exists>row \<in> set (appendRow quote (resolve_options []) key name mk v depth). dr_value row = replicate 4 42 @ drop 4 b"
    by (auto simp: appendRow.simps [of quote "resolve_options []" _ _ _ v] appendRow.simps [of quote "resolve_options []" _ _ _ "BytesValue b"])
  then show ?thesis
    using chip_pan_decodes [OF assms] v_def by blast
qed

theorem describe_chip_pan_leak_witness:
  "\<exists>s def v. emvSchema = Some s \<and> Sub def = Some s \<and>
    DecodeBody BerTLV ([0x5A, 8] @ [0x41, 0x11, 0x22, 0x33, 0x44, 0x55, 0x66, 0x77]) 0 def = Inr v \<and>
    (\<exists>row \<in> set (appendRow id (resolve_options []) [] [] MaskNone v 0). dr_value row = [42, 42, 42, 42, 0x44, 0x55, 0x66, 0x77])"
proof -
  obtain s where s: "emvSchema = Some s" using emvSchema_built by blast
  define def where "def = FieldDef [] [] KindComposite (Some BerTLV) None 0 0 \<lparr>Side = PadNone, PadChar = 0\<rparr> []
     \<lparr>Mode = RequiredOptional, MTIClasses = []\<rparr> (Some s)"
  have d: "Sub def = Some s" by (simp add: def_def)
  let ?b = "[0x41, 0x11, 0x22, 0x33, 0x44, 0x55, 0x66, 0x77] :: bytes"
  have b: "length ?b = 8" "replicate 4 42 @ drop 4 ?b = [42, 42, 42, 42, 0x44, 0x55, 0x66, 0x77]"
    by (simp_all add: numeral_eq_Suc)
  obtain v where "DecodeBody BerTLV ([0x5A, 8] @ ?b) 0 def = Inr v"
    "\<exists>row \<in> set (appendRow id (resolve_options []) [] [] MaskNone v 0). dr_value row = replicate 4 42 @ drop 4 ?b"
    using describe_chip_pan_leak [OF s d b(1)] by blast
  then show ?thesis
    using s d unfolding b(2) by blast
qed

end
