(* ===== verification/TlvRoundTrip.thy ===== *)
theory TlvRoundTrip
  imports RoundTrip
begin

text \<open>
  The BER-TLV composite codec of \<^verbatim>\<open>src/fieldcodec/tlv/bertlv.go\<close> end to end, with the value
  codecs of its tags called through the engine.
\<close>

subsection \<open>Tags that survive\<close>

text \<open>The value a tag reads back as: raw bytes for an unknown tag, otherwise what the tag's codec
  decodes. A codec that packs two units per byte needs the width of the tag in its definition.\<close>

definition tag_elem_ok :: "field_def \<Rightarrow> bytes \<Rightarrow> value \<Rightarrow> bytes \<Rightarrow> bool" where
  "tag_elem_ok def tag v b \<longleftrightarrow>
     (\<exists>tb. hex_decode tag = Some tb \<and> wf_tag tb \<and> ToUpper (hex_encode tb) = tag)
     \<and> (case lookupTag def tag of
          None \<Rightarrow> b = raw v \<and> length b < 2 ^ 32
        | Some td \<Rightarrow> (case Codec td of
              None \<Rightarrow> b = raw v \<and> length b < 2 ^ 32
            | Some c \<Rightarrow> (\<exists>pad left ok. raw_rule c = Some (pad, left, ok) \<and> padFixed (raw v) td pad left = Inr b \<and> ok b
                \<and> codec_width c (int (length b)) < 2 ^ 32 \<and> Length td = None \<and> (MaxLen td > 0 \<or> BodyBytes c = None))))"

lemma tag_elem_step:
  assumes "tag_elem_ok def tag v b"
  shows "\<exists>w. tag_ok EncodeBody DecodeBody def (tag, v) (tag, w) \<and> raw w = b"
proof (cases "\<exists>td c. lookupTag def tag = Some td \<and> Codec td = Some c")
  case False
  with assms show ?thesis
    by (intro exI [of _ "BytesValue b"])
      (auto simp: tag_elem_ok_def tag_ok_def encode_tag_def decode_tag_def Bytes_def BytesValue_def split: option.splits)
next
  case True
  then obtain td c where td: "lookupTag def tag = Some td" "Codec td = Some c" by blast
  with assms obtain pad left ok where c: "raw_rule c = Some (pad, left, ok)" "padFixed (raw v) td pad left = Inr b" "ok b"
      "codec_width c (int (length b)) < 2 ^ 32" "Length td = None" "MaxLen td > 0 \<or> BodyBytes c = None"
    by (auto simp: tag_elem_ok_def)
  let ?w = "Value b (codec_Kind c) None (-1) None decimal0"
  obtain val where val: "\<And>ber packager. codec_encode ber packager c [] v td = Inr val"
      "int (length val) = codec_width c (int (length b))"
      "\<And>ber packager. codec_decode ber packager c val (int (length b)) td = Inr ?w"
    using value_codec.encode_decode [OF raw_rule_contract [OF c(1)], of v td b] c(2,3) by (auto simp: Bytes_def)
  have "(if MaxLen td > 0 then MaxLen td else int (length val)) = int (length b)"
  proof (cases "MaxLen td > 0")
    case True
    then have "isFixed td" using c(5) by (simp add: isFixed_def)
    with padFixed_fixed [OF c(2)] True show ?thesis by simp
  next
    case False
    then show ?thesis using c(6) val(2) by (simp add: codec_width_def)
  qed
  then have "decode_tag DecodeBody def tag val = Inr ?w"
    using td val(3) by (simp add: decode_tag_def DecodeBody.simps [of c])
  moreover have "encode_tag EncodeBody def tag v = Inr val"
    using td val(1) by (simp add: encode_tag_def EncodeBody.simps [of c])
  ultimately show ?thesis
    using assms val(2) c(4) by (intro exI [of _ ?w]) (auto simp: tag_ok_def tag_elem_ok_def)
qed

lemma tag_elems_step:
  "\<forall>(t, x) \<in> set es. tag_elem_ok def t x (b t) \<Longrightarrow>
     \<exists>ws. list_all2 (tag_ok EncodeBody DecodeBody def) es ws \<and> map (\<lambda>(t, x). (t, raw x)) ws = map (\<lambda>(t, x). (t, b t)) es"
proof (induction es)
  case (Cons e es)
  obtain t x where e: "e = (t, x)" by (cases e)
  with Cons.prems tag_elem_step obtain w where "tag_ok EncodeBody DecodeBody def e (t, w)" "raw w = b t" by fastforce
  moreover obtain ws where "list_all2 (tag_ok EncodeBody DecodeBody def) es ws" "map (\<lambda>(t, x). (t, raw x)) ws = map (\<lambda>(t, x). (t, b t)) es"
    using Cons by auto
  ultimately show ?case by (intro exI [of _ "(t, w) # ws"]) (simp add: e)
qed simp

lemma ToUpper_idem: "ToUpper (ToUpper t) = ToUpper t"
proof -
  have "to_upper (to_upper c) = to_upper c" for c
    by (auto simp: to_upper_def word_le_nat_alt unat_sub_if')
  then show ?thesis by (simp add: ToUpper_def)
qed

lemma TagSeq_keys: "wf_tags m \<Longrightarrow> distinct (map fst (TagSeq m))"
  unfolding TagSeq_def wf_tags_def
  by (intro map_filter_fst_distinct) (auto split: option.splits if_splits)

subsection \<open>Properties\<close>

text \<open>C29: a BER-TLV composite survives: if every tag of the child is a well-formed tag in canonical hexadecimal
  whose value is raw bytes (an unknown tag) or one its codec carries, then encoding succeeds, and decoding the
  body gives a child with the same tags in the same order, each with the canonical bytes of its value.\<close>

theorem ber_tlv_roundtrip:
  assumes "Composite v = Some child" and "wf_tags child"
    and "\<forall>(t, x) \<in> set (TagSeq child). tag_elem_ok def t x (b t)"
  shows "\<exists>body child'. (\<forall>dst. EncodeBody BerTLV dst v def = Inr (dst @ body))
    \<and> (\<forall>u. DecodeBody BerTLV body u def = Inr (CompositeValue body child'))
    \<and> map (\<lambda>(t, x). (t, raw x)) (TagSeq child') = map (\<lambda>(t, x). (t, b t)) (TagSeq child)"
proof -
  obtain ws where ws: "list_all2 (tag_ok EncodeBody DecodeBody def) (TagSeq child) ws"
      "map (\<lambda>(t, x). (t, raw x)) ws = map (\<lambda>(t, x). (t, b t)) (TagSeq child)"
    using tag_elems_step [OF assms(3)] by blast
  obtain body where body: "\<And>dst. ber_entries EncodeBody def (TagSeq child) dst = Inr (dst @ body)"
      "\<And>pre c. ber_loop DecodeBody def (pre @ body) (int (length pre)) c = Inr (put_tags ws c)"
    using ber_entries_loop [OF ws(1)] by blast
  have keys: "map fst ws = map fst (TagSeq child)"
    using ws(1) by (induction rule: list_all2_induct) (simp_all add: tag_ok_def)
  have "ToUpper (fst w) = fst w" if "w \<in> set ws" for w
    using ws(1) that by (induction rule: list_all2_induct) (auto simp: tag_ok_def ToUpper_idem)
  then have "TagSeq (put_tags ws (NewTLV (Sub def))) = TagSeq (NewTLV (Sub def)) @ ws"
    using keys TagSeq_keys [OF assms(2)]
    by (intro TagSeq_put_tags wf_tags_NewTLV) (simp_all add: NewTLV_def list_all_iff)
  then have "TagSeq (put_tags ws (NewTLV (Sub def))) = ws" by (simp add: TagSeq_def NewTLV_def)
  moreover have "EncodeBody BerTLV dst v def = Inr (dst @ body)" for dst
    using assms(1) body(1) by (simp add: EncodeBody.simps berTLV_EncodeBody_def)
  moreover have "DecodeBody BerTLV body u def = Inr (CompositeValue body (put_tags ws (NewTLV (Sub def))))" for u
    using body(2) [of "[]"] by (simp add: DecodeBody.simps berTLV_DecodeBody_def)
  ultimately show ?thesis using ws(2) by (intro exI [of _ body] exI [of _ "put_tags ws (NewTLV (Sub def))"]) simp
qed

theorem ber_tlv_roundtrip_witness:
  "\<exists>body child'. EncodeBody BerTLV [] (CompositeValue [] (PutTag (NewTLV None) [57, 70, 50, 54] (BytesValue [1, 2]))) fieldDef0 = Inr body
    \<and> DecodeBody BerTLV body 0 fieldDef0 = Inr (CompositeValue body child')
    \<and> map (\<lambda>(t, x). (t, raw x)) (TagSeq child') = [([57, 70, 50, 54], [1, 2])]"
proof -
  let ?c = "PutTag (NewTLV None) [57, 70, 50, 54] (BytesValue [1, 2])"
  have "ToUpper [57, 70, 50, 54] = [57, 70, 50, 54]" by code_simp
  then have ts: "TagSeq ?c = [([57, 70, 50, 54], BytesValue [1, 2])]"
    by (simp add: PutTag_def TagSeq_def NewTLV_def Let_def List.map_filter_simps)
  have "hex_decode [57, 70, 50, 54] = Some [0x9F, 0x26]" by code_simp
  moreover have "wf_tag [0x9F, 0x26]" by code_simp
  moreover have "ToUpper (hex_encode [0x9F, 0x26]) = [57, 70, 50, 54]" by code_simp
  ultimately have "\<exists>tb. hex_decode [57, 70, 50, 54] = Some tb \<and> wf_tag tb \<and> ToUpper (hex_encode tb) = [57, 70, 50, 54]" by blast
  moreover have "lookupTag fieldDef0 [57, 70, 50, 54] = None" "raw (BytesValue [1, 2]) = [1, 2]"
    by (simp_all add: lookupTag_def fieldDef0_def BytesValue_def)
  ultimately have "tag_elem_ok fieldDef0 [57, 70, 50, 54] (BytesValue [1, 2]) [1, 2]"
    unfolding tag_elem_ok_def by simp
  then have "\<forall>(t, x) \<in> set (TagSeq ?c). tag_elem_ok fieldDef0 t x ((\<lambda>_. [1, 2]) t)" unfolding ts by simp
  from ber_tlv_roundtrip [OF _ wf_tags_PutTag [OF wf_tags_NewTLV] this, of "CompositeValue [] ?c"] show ?thesis
    by (auto simp: Composite_def CompositeValue_def ts)
qed

end
