(* ===== verification/TextTLV.thy ===== *)
theory TextTLV
  imports LengthCodec
begin

text \<open>
  The fixed-width tag-length-value streams of acquirer parameter fields, \<^verbatim>\<open>src/tlv/tlv.go\<close>.
  Offsets are 64-bit integers: every sum of offsets, widths and lengths wraps, and every slice expression
  panics outside its operand.
\<close>

subsection \<open>Decoding and encoding\<close>

record tlv_element =
  ElemTag :: bytes
  ElemValue :: bytes

datatype tlv_error =
    TlvWidths int int | TlvTruncatedHeader int | TlvBadLength bytes bytes int | TlvOverrun bytes int int
  | TlvTagWidth bytes int | TlvTooLong bytes int int | TlvSlicePanic

text \<open>A step forward by a positive 64-bit amount is never a step in place, even where it wraps.\<close>

lemma wrap64_advances: "0 < d \<Longrightarrow> int64 d \<Longrightarrow> wrap64 (i + d) \<noteq> i"
proof
  assume d: "0 < d" "int64 d" and w: "wrap64 (i + d) = i"
  then have "(i + 2 ^ 63 + d) mod 2 ^ 64 = i + 2 ^ 63" by (simp add: wrap64_def algebra_simps)
  then have "(i + 2 ^ 63 + d) mod 2 ^ 64 = (i + 2 ^ 63) mod 2 ^ 64" by (metis mod_mod_trivial)
  then have "(2::int) ^ 64 dvd d" by (simp add: mod_eq_dvd_iff)
  with d show False by (auto simp: int64_def dest: zdvd_imp_le)
qed

text \<open>The loop of \<open>Decode\<close>. The widths are positive 64-bit integers when it is entered; the first guard says so, and is what
  makes the loop advance.\<close>

function tlv_loop :: "bytes \<Rightarrow> int \<Rightarrow> int \<Rightarrow> int \<Rightarrow> tlv_error + tlv_element list" where
  "tlv_loop s tw lw i =
     (if \<not> (0 < tw \<and> int64 tw \<and> 0 < lw \<and> int64 lw) then Inl (TlvWidths tw lw)
      else if i \<ge> int (length s) then Inr []
      else if wrap64 (wrap64 (i + tw) + lw) > int (length s) then Inl (TlvTruncatedHeader i)
      else if \<not> slice_ok s i (wrap64 (i + tw)) then Inl TlvSlicePanic
      else if \<not> slice_ok s (wrap64 (i + tw)) (wrap64 (wrap64 (i + tw) + lw)) then Inl TlvSlicePanic
      else let tag = slice s i (wrap64 (i + tw)); lenStr = slice s (wrap64 (i + tw)) (wrap64 (wrap64 (i + tw) + lw)) in
        case parse_int 64 lenStr of
          Inl _ \<Rightarrow> Inl (TlvBadLength lenStr tag i)
        | Inr n \<Rightarrow>
            if n < 0 then Inl (TlvBadLength lenStr tag i)
            else let start = wrap64 (wrap64 (i + tw) + lw); stop = wrap64 (start + n) in
            if stop > int (length s) then Inl (TlvOverrun tag n (wrap64 (int (length s) - start)))
            else if \<not> slice_ok s start stop then Inl TlvSlicePanic
            else (case tlv_loop s tw lw stop of
                Inl e \<Rightarrow> Inl e
              | Inr out \<Rightarrow> Inr (\<lparr>ElemTag = tag, ElemValue = slice s start stop\<rparr> # out)))"
  by pat_completeness auto

termination
proof (relation "measure (\<lambda>(s, tw, lw, i). nat (int (length s) - i))", goal_cases)
  case (2 s tw lw i tag lenStr n start stop)
  then have "wrap64 (i + tw) \<noteq> i" by (intro wrap64_advances) simp_all
  with 2 show ?case by (auto simp: slice_ok_def)
qed simp

declare tlv_loop.simps [simp del]

definition tlv_Decode :: "bytes \<Rightarrow> int \<Rightarrow> int \<Rightarrow> tlv_error + tlv_element list" where
  "tlv_Decode s tw lw = (if tw \<le> 0 \<or> lw \<le> 0 then Inl (TlvWidths tw lw) else tlv_loop s tw lw 0)"

text \<open>The bound on value lengths is computed by repeated multiplication on 64-bit integers.\<close>

definition tlv_max :: "int \<Rightarrow> int" where
  "tlv_max lw = ((\<lambda>mx. wrap64 (mx * 10)) ^^ nat lw) 1"

definition zero_padded :: "int \<Rightarrow> nat \<Rightarrow> bytes" where
  "zero_padded w n = replicate (nat w - length (fmt_nat n)) 48 @ fmt_nat n"

fun tlv_encode_loop :: "tlv_element list \<Rightarrow> int \<Rightarrow> int \<Rightarrow> tlv_error + bytes" where
  "tlv_encode_loop [] tw lw = Inr []"
| "tlv_encode_loop (e # es) tw lw =
     (if int (length (ElemTag e)) \<noteq> tw then Inl (TlvTagWidth (ElemTag e) tw)
      else if int (length (ElemValue e)) \<ge> tlv_max lw then Inl (TlvTooLong (ElemTag e) (int (length (ElemValue e))) lw)
      else (case tlv_encode_loop es tw lw of
          Inl er \<Rightarrow> Inl er
        | Inr b \<Rightarrow> Inr (ElemTag e @ zero_padded lw (length (ElemValue e)) @ ElemValue e @ b)))"

definition tlv_Encode :: "tlv_element list \<Rightarrow> int \<Rightarrow> int \<Rightarrow> tlv_error + bytes" where
  "tlv_Encode es tw lw = (if tw \<le> 0 \<or> lw \<le> 0 then Inl (TlvWidths tw lw) else tlv_encode_loop es tw lw)"

fun tlv_Get :: "tlv_element list \<Rightarrow> bytes \<Rightarrow> bytes option" where
  "tlv_Get [] tag = None"
| "tlv_Get (e # es) tag = (if ElemTag e = tag then Some (ElemValue e) else tlv_Get es tag)"

subsection \<open>Bounds\<close>

lemma tlv_max_pow: "k \<le> 18 \<Longrightarrow> ((\<lambda>mx. wrap64 (mx * 10)) ^^ k) 1 = 10 ^ k"
proof (induction k)
  case (Suc k)
  have "(10::int) ^ Suc k \<le> 10 ^ 18" using Suc.prems by (intro power_increasing) simp_all
  then have "int64 (10 ^ k * 10)" by (simp add: int64_def) (use zero_le_power [of "10::int" k] in linarith)
  with Suc show ?case by (simp add: mult.commute)
qed simp

lemma tlv_max_small: "0 < lw \<Longrightarrow> lw \<le> 18 \<Longrightarrow> tlv_max lw = 10 ^ nat lw"
  by (simp add: tlv_max_def tlv_max_pow)

lemma zero_padded_digits:
  assumes "0 < lw" "n < 10 ^ nat lw"
  shows "list_all is_digit (zero_padded lw n)" "int (length (zero_padded lw n)) = lw" "dec_val (zero_padded lw n) = n"
    and "zero_padded lw n \<noteq> []"
proof -
  have "length (fmt_nat n) \<le> nat lw" using assms by (simp add: fmt_nat_length)
  then show "int (length (zero_padded lw n)) = lw" using assms(1) by (simp add: zero_padded_def)
  show "list_all is_digit (zero_padded lw n)" using fmt_nat_digits by (simp add: zero_padded_def)
  show "dec_val (zero_padded lw n) = n" "zero_padded lw n \<noteq> []" by (simp_all add: zero_padded_def)
qed

lemma parse_zero_padded:
  assumes "0 < lw" "lw \<le> 18" "n < 10 ^ nat lw"
  shows "parse_int 64 (zero_padded lw n) = Inr (int n)"
proof -
  note z = zero_padded_digits [OF assms(1,3)]
  have "(10::nat) ^ nat lw \<le> 10 ^ 18" using assms(2) by (intro power_increasing) simp_all
  with assms(3) have "dec_val (zero_padded lw n) < 2 ^ (64 - 1)" unfolding z(3) by simp
  from parse_int_digits [OF z(1,4) this] show ?thesis by (simp only: z(3))
qed

subsection \<open>Round trip\<close>

lemma tlv_encode_decode:
  assumes "0 < tw" "int64 tw" "0 < lw" "lw \<le> 18"
  shows "tlv_encode_loop es tw lw = Inr b \<Longrightarrow> length (pre @ b) < 2 ^ 63 \<Longrightarrow> tlv_loop (pre @ b) tw lw (int (length pre)) = Inr es"
proof (induction es arbitrary: pre b)
  case Nil
  with assms show ?case by (simp add: tlv_loop.simps int64_def)
next
  case (Cons e es)
  let ?v = "ElemValue e" let ?h = "zero_padded lw (length ?v)"
  from Cons.prems(1) obtain b' where b': "tlv_encode_loop es tw lw = Inr b'" "b = ElemTag e @ ?h @ ?v @ b'"
      "int (length (ElemTag e)) = tw" "int (length ?v) < 10 ^ nat lw"
    by (auto simp: tlv_max_small [OF assms(3,4)] split: if_splits sum.splits)
  have n: "length ?v < 10 ^ nat lw" using b'(4) by (metis of_nat_less_iff of_nat_numeral of_nat_power)
  note z = zero_padded_digits [OF assms(3) n]
  let ?i = "int (length pre)" let ?s = "pre @ b"
  have s: "slice ?s ?i (?i + tw) = ElemTag e" "slice ?s (?i + tw) (?i + tw + lw) = ?h"
      "slice ?s (?i + tw + lw) (?i + tw + lw + int (length ?v)) = ?v"
    using slice_append_mid' [of ?i pre "?i + tw" "ElemTag e" "?h @ ?v @ b'"] b'(3) z(2)
      slice_append_mid' [of "?i + tw" "pre @ ElemTag e" "?i + tw + lw" ?h "?v @ b'"]
      slice_append_mid' [of "?i + tw + lw" "pre @ ElemTag e @ ?h" "?i + tw + lw + int (length ?v)" ?v b']
    by (simp_all add: b'(2))
  have "int (length ?s) < 2 ^ 63" using Cons.prems(2) by (metis of_nat_less_iff of_nat_numeral of_nat_power)
  moreover have l: "int (length ?s) = ?i + tw + lw + int (length ?v) + int (length b')" using b'(2,3) z(2) by simp
  ultimately have w: "wrap64 (?i + tw) = ?i + tw" "wrap64 (?i + tw + lw) = ?i + tw + lw"
      "wrap64 (?i + tw + lw + int (length ?v)) = ?i + tw + lw + int (length ?v)"
    using assms by (auto simp: int64_def intro!: wrap64_id)
  let ?pre' = "pre @ ElemTag e @ ?h @ ?v"
  have p': "int (length ?pre') = ?i + tw + lw + int (length ?v)" "?pre' @ b' = ?s" using b'(2,3) z(2) by simp_all
  have "tlv_loop (?pre' @ b') tw lw (int (length ?pre')) = Inr es"
    using Cons.prems(2) by (intro Cons.IH b'(1)) (simp add: b'(2))
  then have rec: "tlv_loop ?s tw lw (?i + tw + lw + int (length ?v)) = Inr es" unfolding p' .
  have "int64 lw" using assms by (simp add: int64_def)
  then show ?case
    using assms l rec by (subst tlv_loop.simps) (simp add: s w parse_zero_padded [OF assms(3,4) n] Let_def slice_ok_def)
qed

lemma parse_int_less: "parse_int 64 t = Inr n \<Longrightarrow> length t \<le> k \<Longrightarrow> n < 10 ^ k"
proof -
  assume p: "parse_int 64 t = Inr n" and l: "length t \<le> k"
  define ds where "ds = (if hd t = 45 \<or> hd t = 43 then tl t else t)"
  have "list_all is_digit ds" "n \<le> int (dec_val ds)" "length ds \<le> length t"
    using p by (auto simp: parse_int_def Let_def ds_def split: if_splits)
  then have "dec_val ds < 10 ^ length ds" "(10::nat) ^ length ds \<le> 10 ^ k"
    using dec_val_bound l by (auto intro!: power_increasing)
  then have "dec_val ds < 10 ^ k" by linarith
  then have "int (dec_val ds) < 10 ^ k" by (metis of_nat_less_iff of_nat_numeral of_nat_power)
  with \<open>n \<le> int (dec_val ds)\<close> show ?thesis by linarith
qed

text \<open>An element of a stream with the length field it was read from, and the bytes of a sequence of them.\<close>

definition tlv_field :: "int \<Rightarrow> int \<Rightarrow> tlv_element \<Rightarrow> bytes \<Rightarrow> bool" where
  "tlv_field tw lw e l \<longleftrightarrow> int (length (ElemTag e)) = tw \<and> int (length l) = lw \<and> parse_int 64 l = Inr (int (length (ElemValue e)))"

definition tlv_bytes :: "tlv_element list \<Rightarrow> bytes list \<Rightarrow> bytes" where
  "tlv_bytes es ls = concat (map2 (\<lambda>e l. ElemTag e @ l @ ElemValue e) es ls)"

lemma drop_slices:
  assumes "0 \<le> i" "i \<le> a" "a \<le> b" "b \<le> c" "c \<le> int (length s)"
  shows "drop (nat i) s = slice s i a @ slice s a b @ slice s b c @ drop (nat c) s"
proof -
  have one: "drop (nat x) s = slice s x y @ drop (nat y) s" if "0 \<le> x" "x \<le> y" for x y
  proof -
    have "nat y = nat (y - x) + nat x" using that by simp
    then show ?thesis by (simp add: slice_def flip: drop_drop)
  qed
  from assms show ?thesis using one [of i a] one [of a b] one [of b c] by simp
qed

text \<open>Where the sums of a round do not wrap, it fails with an error or takes an element off.\<close>

lemma tlv_loop_tiles:
  "0 \<le> i \<Longrightarrow> i \<le> int (length s) \<Longrightarrow> lw \<le> 18 \<Longrightarrow> tw \<le> 2 ^ 61 \<Longrightarrow> int (length s) < 2 ^ 62 \<Longrightarrow>
    (case tlv_loop s tw lw i of
       Inl e \<Rightarrow> e \<noteq> TlvSlicePanic
     | Inr es \<Rightarrow> \<exists>ls. list_all2 (tlv_field tw lw) es ls \<and> drop (nat i) s = tlv_bytes es ls)"
proof (induction s tw lw i rule: tlv_loop.induct)
  case (1 s tw lw i)
  show ?case
  proof (cases "0 < tw \<and> 0 < lw \<and> i < int (length s) \<and> i + tw + lw \<le> int (length s)")
    case False
    have "int64 tw" "int64 lw" if "0 < tw" "0 < lw" using that 1(4,5) by (simp_all add: int64_def)
    moreover have "wrap64 (i + tw) = i + tw" "wrap64 (i + tw + lw) = i + tw + lw" if "0 < tw" "0 < lw"
      using that 1(2-6) by (auto simp: int64_def intro!: wrap64_id)
    ultimately show ?thesis using False 1(2,3) by (subst tlv_loop.simps) (auto simp: tlv_bytes_def)
  next
    case True
    have g: "int64 tw" "int64 lw" "wrap64 (i + tw) = i + tw" "wrap64 (i + tw + lw) = i + tw + lw"
      using True 1(2-6) by (auto simp: int64_def intro!: wrap64_id)
    have ok: "slice_ok s i (i + tw)" "slice_ok s (i + tw) (i + tw + lw)" using True 1(2) by (simp_all add: slice_ok_def)
    let ?t = "slice s (i + tw) (i + tw + lw)" and ?tag = "slice s i (i + tw)"
    show ?thesis
    proof (cases "parse_int 64 ?t")
      case (Inl e)
      with True g ok show ?thesis by (subst tlv_loop.simps) (simp add: Let_def)
    next
      case (Inr n)
      have "length ?t \<le> 18" using 1(4) True by (simp add: slice_def)
      then have n: "n < 10 ^ 18" using parse_int_less Inr by blast
      have w: "wrap64 (i + tw + lw + n) = i + tw + lw + n" if "0 \<le> n"
        using n that True 1(2,6) by (intro wrap64_id) (simp add: int64_def)
      show ?thesis
      proof (cases "0 \<le> n \<and> i + tw + lw + n \<le> int (length s)")
        case False
        with True g ok Inr w show ?thesis by (subst tlv_loop.simps) (auto simp: Let_def)
      next
        case fits: True
        let ?e = "i + tw + lw + n"
        have sl: "slice_ok s (i + tw + lw) ?e" using fits True 1(2) by (simp add: slice_ok_def)
        have rec: "case tlv_loop s tw lw ?e of Inl e \<Rightarrow> e \<noteq> TlvSlicePanic
            | Inr es \<Rightarrow> \<exists>ls. list_all2 (tlv_field tw lw) es ls \<and> drop (nat ?e) s = tlv_bytes es ls"
          by (rule 1(1) [of ?tag ?t n "i + tw + lw" ?e]) (use True ok Inr fits sl 1(2-6) in \<open>simp_all add: g w\<close>)
        show ?thesis
        proof (cases "tlv_loop s tw lw ?e")
          case (Inl er)
          with True g ok Inr w fits sl rec \<open>parse_int 64 ?t = Inr n\<close> show ?thesis by (subst tlv_loop.simps) (simp add: Let_def)
        next
          case (Inr es)
          with rec obtain ls where ls: "list_all2 (tlv_field tw lw) es ls" "drop (nat ?e) s = tlv_bytes es ls" by auto
          let ?el = "\<lparr>ElemTag = ?tag, ElemValue = slice s (i + tw + lw) ?e\<rparr>"
          have "tlv_field tw lw ?el ?t" using ok sl True fits \<open>parse_int 64 ?t = Inr n\<close> by (simp add: tlv_field_def)
          then have "list_all2 (tlv_field tw lw) (?el # es) (?t # ls)" using ls(1) by simp
          moreover have "drop (nat i) s = tlv_bytes (?el # es) (?t # ls)"
            using drop_slices [of i "i + tw" "i + tw + lw" ?e s] ls(2) True fits 1(2) by (simp add: tlv_bytes_def)
          moreover have "tlv_loop s tw lw i = Inr (?el # es)"
            using True g ok w fits sl Inr \<open>parse_int 64 ?t = Inr n\<close> by (subst tlv_loop.simps) (simp add: Let_def)
          ultimately show ?thesis by auto
        qed
      qed
    qed
  qed
qed

subsection \<open>Properties\<close>

text \<open>For length fields of at most 18 digits, encoding succeeds exactly when every tag has the tag width and
  every value fits its length field, and decoding the encoded stream gives the elements back.\<close>

theorem tlv_roundtrip:
  assumes "0 < tw" "int64 tw" "0 < lw" "lw \<le> 18"
  shows "((\<exists>b. tlv_Encode es tw lw = Inr b) \<longleftrightarrow>
      list_all (\<lambda>e. int (length (ElemTag e)) = tw \<and> int (length (ElemValue e)) < 10 ^ nat lw) es)
    \<and> (tlv_Encode es tw lw = Inr b \<and> length b < 2 ^ 63 \<longrightarrow> tlv_Decode b tw lw = Inr es)"
proof
  have "(\<exists>b. tlv_encode_loop es tw lw = Inr b) \<longleftrightarrow>
      list_all (\<lambda>e. int (length (ElemTag e)) = tw \<and> int (length (ElemValue e)) < 10 ^ nat lw) es"
    by (induction es) (auto simp: tlv_max_small [OF assms(3,4)] split: sum.splits)
  then show "(\<exists>b. tlv_Encode es tw lw = Inr b) \<longleftrightarrow>
      list_all (\<lambda>e. int (length (ElemTag e)) = tw \<and> int (length (ElemValue e)) < 10 ^ nat lw) es"
    using assms by (simp add: tlv_Encode_def)
  show "tlv_Encode es tw lw = Inr b \<and> length b < 2 ^ 63 \<longrightarrow> tlv_Decode b tw lw = Inr es"
    using tlv_encode_decode [OF assms, of es b "[]"] assms by (simp add: tlv_Encode_def tlv_Decode_def)
qed

theorem tlv_roundtrip_witness:
  "tlv_Encode [\<lparr>ElemTag = [48, 51], ElemValue = [65, 66]\<rparr>] 2 3 = Inr [48, 51, 48, 48, 50, 65, 66]
    \<and> tlv_Decode [48, 51, 48, 48, 50, 65, 66] 2 3 = Inr [\<lparr>ElemTag = [48, 51], ElemValue = [65, 66]\<rparr>]"
proof -
  have "tlv_Encode [\<lparr>ElemTag = [48, 51], ElemValue = [65, 66]\<rparr>] 2 3 = Inr [48, 51, 48, 48, 50, 65, 66]" by code_simp
  with tlv_roundtrip [of 2 3 "[\<lparr>ElemTag = [48, 51], ElemValue = [65, 66]\<rparr>]" "[48, 51, 48, 48, 50, 65, 66]"] show ?thesis by (simp add: int64_def)
qed

text \<open>C32: For length fields of at most 18 digits, tags of at most \<open>2 ^ 61\<close> and inputs of less than \<open>2 ^ 62\<close> bytes, decoding
  never slices outside its input: it returns one of its errors, or it returns elements that tile the input. The input is
  then, without a gap or a rest, the sequence of tag, length field and value of the elements, each tag of the tag width,
  each length field of the length width and read as the length of its value.\<close>

theorem tlv_decode_in_bounds:
  assumes "lw \<le> 18" "tw \<le> 2 ^ 61" "int (length s) < 2 ^ 62"
  shows "case tlv_Decode s tw lw of
      Inl e \<Rightarrow> e \<noteq> TlvSlicePanic
    | Inr es \<Rightarrow> \<exists>ls. s = concat (map2 (\<lambda>e l. ElemTag e @ l @ ElemValue e) es ls)
        \<and> list_all2 (\<lambda>e l. int (length (ElemTag e)) = tw \<and> int (length l) = lw \<and> parse_int 64 l = Inr (int (length (ElemValue e)))) es ls"
  using tlv_loop_tiles [of 0 s lw tw] assms
  by (auto simp: tlv_Decode_def tlv_bytes_def tlv_field_def [abs_def] split: sum.split)

theorem tlv_decode_in_bounds_witness:
  "tlv_Decode [48, 51, 57, 57, 57] 2 3 \<noteq> Inl TlvSlicePanic
    \<and> (\<exists>ls. [48, 51, 48, 48, 50, 65, 66] = concat (map2 (\<lambda>e l. ElemTag e @ l @ ElemValue e) [\<lparr>ElemTag = [48, 51], ElemValue = [65, 66]\<rparr>] ls))"
proof
  show "tlv_Decode [48, 51, 57, 57, 57] 2 3 \<noteq> Inl TlvSlicePanic"
    using tlv_decode_in_bounds [of 3 2 "[48, 51, 57, 57, 57]"] by auto
  have "tlv_Decode [48, 51, 48, 48, 50, 65, 66] 2 3 = Inr [\<lparr>ElemTag = [48, 51], ElemValue = [65, 66]\<rparr>]" by code_simp
  with tlv_decode_in_bounds [of 3 2 "[48, 51, 48, 48, 50, 65, 66]"]
  show "\<exists>ls. [48, 51, 48, 48, 50, 65, 66] = concat (map2 (\<lambda>e l. ElemTag e @ l @ ElemValue e) [\<lparr>ElemTag = [48, 51], ElemValue = [65, 66]\<rparr>] ls)" by auto
qed

text \<open>Outside these bounds the checks against the end of the input can be bypassed. With a 19-digit length field, a length
  of \<open>2 ^ 63 - 1\<close> wraps the end offset to a negative number, and so does a tag width of \<open>2 ^ 63 - 1\<close> with the header's end;
  slicing panics instead of an error being returned.\<close>

theorem tlv_decode_wraps:
  "tlv_Decode [48, 51, 57, 50, 50, 51, 51, 55, 50, 48, 51, 54, 56, 53, 52, 55, 55, 53, 56, 48, 55] 2 19 = Inl TlvSlicePanic"
  "tlv_Decode [48] (2 ^ 63 - 1) 1 = Inl TlvSlicePanic"
  by (simp_all add: tlv_Decode_def tlv_loop.simps slice_def parse_int_def is_digit_def dec_val_def digit_val_def wrap64_def int64_def slice_ok_def)

end
