(* ===== verification/Framer.thy ===== *)
theory Framer
  imports Prelude
begin

text \<open>
  Message framing on a byte stream: the length-prefixed frames of \<^verbatim>\<open>src/link/framer.go\<close> and the
  delimiter framing of \<^verbatim>\<open>src/link/xmlframe.go\<close>. A reader is the list of bytes still to come,
  ended by the end of the stream; a successful read returns the frame and the rest of the stream, and
  a write returns the bytes given to the writer in its single call.
\<close>

subsection \<open>Reading\<close>

datatype frame_error = FrameEOF | FrameUnexpectedEOF | FrameTooLarge

text \<open>\<open>io.ReadFull\<close>.\<close>

definition ReadFull :: "nat \<Rightarrow> bytes \<Rightarrow> frame_error + bytes \<times> bytes" where
  "ReadFull n s =
     (if n = 0 then Inr ([], s)
      else if s = [] then Inl FrameEOF
      else if length s < n then Inl FrameUnexpectedEOF
      else Inr (take n s, drop n s))"

definition defaultMaxFrame :: nat where
  "defaultMaxFrame = 2 ^ 20"

subsection \<open>Length prefixes\<close>

record lengthPrefix =
  lp_width :: nat
  lp_max :: nat

text \<open>\<open>None\<close> is the panic for a width other than 2 and 4.\<close>

definition LengthPrefix :: "nat \<Rightarrow> lengthPrefix option" where
  "LengthPrefix w =
     (if w = 2 then Some \<lparr>lp_width = 2, lp_max = 2 ^ 16 - 1\<rparr>
      else if w = 4 then Some \<lparr>lp_width = 4, lp_max = defaultMaxFrame\<rparr>
      else None)"

definition lp_ReadFrame :: "lengthPrefix \<Rightarrow> bytes \<Rightarrow> frame_error + bytes \<times> bytes" where
  "lp_ReadFrame lp s =
     (case ReadFull (lp_width lp) s of
        Inl e \<Rightarrow> Inl e
      | Inr (hdr, s') \<Rightarrow>
          let n = be_val hdr in
          if n > lp_max lp then Inl FrameTooLarge else ReadFull n s')"

definition lp_WriteFrame :: "lengthPrefix \<Rightarrow> bytes \<Rightarrow> frame_error + bytes" where
  "lp_WriteFrame lp msg =
     (if length msg > lp_max lp then Inl FrameTooLarge
      else Inr (be_bytes (lp_width lp) (length msg) @ msg))"

subsection \<open>XML delimiters\<close>

definition isSpace :: "byte \<Rightarrow> bool" where
  "isSpace b \<longleftrightarrow> b = 32 \<or> b = 9 \<or> b = 10 \<or> b = 13"

definition isomsg :: bytes where
  "isomsg = bytes_of ''isomsg''"

text \<open>\<open>readName(tag, i, end)\<close>, given the bytes from \<open>i\<close> to \<open>end\<close>.\<close>

definition readName :: "bytes \<Rightarrow> bytes" where
  "readName t = takeWhile (\<lambda>c. \<not> isSpace c \<and> c \<noteq> 47) t"

definition trim_right :: "bytes \<Rightarrow> bytes" where
  "trim_right t = rev (dropWhile isSpace (rev t))"

definition classifyTag :: "bytes \<Rightarrow> bool \<times> bool \<times> bool" where
  "classifyTag tag =
     (let body = trim_right tag; t = dropWhile isSpace body in
      if t \<noteq> [] \<and> hd t = 47 then (False, readName (tl t) = isomsg, False)
      else let selfClose = (body \<noteq> [] \<and> last body = 47) in
        if readName t = isomsg then (True, False, selfClose) else (False, False, selfClose))"

record xml_state =
  x_buf :: bytes
  x_tag :: bytes
  x_inTag :: bool
  x_depth :: int
  x_begun :: bool

definition xml_start :: xml_state where
  "xml_start = \<lparr>x_buf = [], x_tag = [], x_inTag = False, x_depth = 0, x_begun = False\<rparr>"

text \<open>What closing a tag does to the count.\<close>

definition xml_close :: "xml_state \<Rightarrow> xml_state" where
  "xml_close st =
     (case classifyTag (x_tag st) of (isOpen, isClose, selfClose) \<Rightarrow>
        st\<lparr>x_inTag := False, x_begun := (isOpen \<or> x_begun st),
           x_depth := x_depth st + (if isOpen \<and> \<not> selfClose then 1 else 0) - (if isClose then 1 else 0)\<rparr>)"

fun xml_ReadFrame :: "xml_state \<Rightarrow> bytes \<Rightarrow> frame_error + bytes \<times> bytes" where
  "xml_ReadFrame st [] = (if x_buf st = [] then Inl FrameEOF else Inl FrameUnexpectedEOF)"
| "xml_ReadFrame st (b # s) =
     (if \<not> x_begun st \<and> \<not> x_inTag st \<and> x_buf st = [] \<and> isSpace b then xml_ReadFrame st s
      else let st = st\<lparr>x_buf := x_buf st @ [b]\<rparr> in
        if length (x_buf st) > defaultMaxFrame then Inl FrameTooLarge
        else if b = 60 then xml_ReadFrame (st\<lparr>x_inTag := True, x_tag := []\<rparr>) s
        else if b = 62 \<and> x_inTag st then
          (let st' = xml_close st in
           if x_begun st' \<and> x_depth st' = 0 then Inr (x_buf st', s) else xml_ReadFrame st' s)
        else if x_inTag st then xml_ReadFrame (st\<lparr>x_tag := x_tag st @ [b]\<rparr>) s
        else xml_ReadFrame st s)"

definition xml_WriteFrame :: "bytes \<Rightarrow> frame_error + bytes" where
  "xml_WriteFrame msg = (if length msg > defaultMaxFrame then Inl FrameTooLarge else Inr (msg @ [10]))"

subsection \<open>The contract of a framer\<close>

text \<open>Reading frames until an error: the frames of a stream and the error that ends it.\<close>

inductive drains :: "(bytes \<Rightarrow> 'e + bytes \<times> bytes) \<Rightarrow> bytes \<Rightarrow> bytes list \<Rightarrow> 'e \<Rightarrow> bool" for rd where
  stop: "rd s = Inl e \<Longrightarrow> drains rd s [] e"
| frame: "rd s = Inr (msg, s') \<Longrightarrow> drains rd s' msgs e \<Longrightarrow> drains rd s (msg # msgs) e"

inductive_cases drains_NilE: "drains rd s [] e"
inductive_cases drains_ConsE: "drains rd s (msg # msgs) e"

text \<open>What a link relies on: a frame that was written is read back, and what the reader leaves of it does
  not change the next read. \<open>ok\<close> says which messages the framing can carry.\<close>

locale framer =
  fixes rd :: "bytes \<Rightarrow> 'e + bytes \<times> bytes"
    and wr :: "bytes \<Rightarrow> 'e + bytes"
    and ok :: "bytes \<Rightarrow> bool"
    and eof :: 'e
  assumes write_read: "ok msg \<Longrightarrow> wr msg = Inr out \<Longrightarrow>
      \<exists>tail. \<forall>s. rd (out @ s) = Inr (msg, tail @ s) \<and> rd (tail @ s) = rd s"
    and at_end: "rd [] = Inl eof"
begin

lemma drains_same: "rd s = rd t \<Longrightarrow> drains rd s msgs e \<Longrightarrow> drains rd t msgs e"
  by (cases msgs) (force elim!: drains_NilE drains_ConsE intro: drains.intros)+

lemma drains_written:
  "list_all2 (\<lambda>msg out. ok msg \<and> wr msg = Inr out) msgs outs \<Longrightarrow> drains rd (concat outs) msgs eof"
proof (induction rule: list_all2_induct)
  case Nil
  then show ?case by (simp add: at_end drains.stop)
next
  case (Cons msg msgs out outs)
  then obtain tail where "\<forall>s. rd (out @ s) = Inr (msg, tail @ s) \<and> rd (tail @ s) = rd s" using write_read by blast
  with Cons.IH show ?case by (auto intro!: drains.frame intro: drains_same)
qed

end

subsection \<open>Length prefixes are framers\<close>

lemma ReadFull_append: "ReadFull (length b) (b @ s) = Inr (b, s)"
  by (simp add: ReadFull_def)

lemma lp_write_read:
  assumes "LengthPrefix w = Some lp" "lp_WriteFrame lp msg = Inr out"
  shows "lp_ReadFrame lp (out @ s) = Inr (msg, s)"
proof -
  have out: "out = be_bytes (lp_width lp) (length msg) @ msg" "length msg \<le> lp_max lp"
    using assms(2) by (auto simp: lp_WriteFrame_def split: if_splits)
  have "lp_max lp < 256 ^ lp_width lp" using assms(1) by (auto simp: LengthPrefix_def defaultMaxFrame_def split: if_splits)
  with out(2) have "be_val (be_bytes (lp_width lp) (length msg)) = length msg" by (intro be_val_be_bytes_id) simp
  with out ReadFull_append [of "be_bytes (lp_width lp) (length msg)"] show ?thesis
    by (simp add: lp_ReadFrame_def Let_def ReadFull_append)
qed

lemma lp_at_end: "LengthPrefix w = Some lp \<Longrightarrow> lp_ReadFrame lp [] = Inl FrameEOF"
  by (auto simp: LengthPrefix_def lp_ReadFrame_def ReadFull_def split: if_splits)

lemma lp_framer: "LengthPrefix w = Some lp \<Longrightarrow> framer (lp_ReadFrame lp) (lp_WriteFrame lp) (\<lambda>_. True) FrameEOF"
proof unfold_locales
  assume w: "LengthPrefix w = Some lp"
  then show "lp_ReadFrame lp [] = Inl FrameEOF" by (rule lp_at_end)
  show "\<exists>tail. \<forall>s. lp_ReadFrame lp (out @ s) = Inr (msg, tail @ s) \<and> lp_ReadFrame lp (tail @ s) = lp_ReadFrame lp s"
    if "lp_WriteFrame lp msg = Inr out" for msg out
    using lp_write_read [OF w that] by (intro exI [of _ "[]"]) simp
qed

interpretation lp2: framer "lp_ReadFrame \<lparr>lp_width = 2, lp_max = 65535\<rparr>" "lp_WriteFrame \<lparr>lp_width = 2, lp_max = 65535\<rparr>" "\<lambda>_. True" FrameEOF
  by (rule lp_framer [of 2]) (simp add: LengthPrefix_def)

interpretation lp4: framer "lp_ReadFrame \<lparr>lp_width = 4, lp_max = defaultMaxFrame\<rparr>" "lp_WriteFrame \<lparr>lp_width = 4, lp_max = defaultMaxFrame\<rparr>" "\<lambda>_. True" FrameEOF
  by (rule lp_framer [of 4]) (simp add: LengthPrefix_def)

subsection \<open>XML elements are frames\<close>

text \<open>The messages the delimiter framing is made for, as markup and the text between it. Only the count of
  \<open>isomsg\<close> tags matters: it stays positive from the opening tag until the closing tag that ends the element.\<close>

datatype xml_tok = Text bytes | Markup bytes

fun tok_bytes :: "xml_tok \<Rightarrow> bytes" where
  "tok_bytes (Text t) = t"
| "tok_bytes (Markup t) = 60 # t @ [62]"

fun wf_tok :: "xml_tok \<Rightarrow> bool" where
  "wf_tok (Text t) \<longleftrightarrow> 60 \<notin> set t"
| "wf_tok (Markup t) \<longleftrightarrow> 60 \<notin> set t \<and> 62 \<notin> set t"

fun tok_delta :: "xml_tok \<Rightarrow> int" where
  "tok_delta (Text t) = 0"
| "tok_delta (Markup t) = (case classifyTag t of (isOpen, isClose, selfClose) \<Rightarrow>
     (if isOpen \<and> \<not> selfClose then 1 else 0) - (if isClose then 1 else 0))"

fun closes :: "int \<Rightarrow> xml_tok list \<Rightarrow> bool" where
  "closes d [] \<longleftrightarrow> False"
| "closes d (k # ks) \<longleftrightarrow>
     (if ks = [] then (\<exists>t. k = Markup t) \<and> d + tok_delta k = 0 else d + tok_delta k > 0 \<and> closes (d + tok_delta k) ks)"

fun element :: "xml_tok list \<Rightarrow> bool" where
  "element (Markup t # ks) \<longleftrightarrow> fst (classifyTag t) \<and> (if tok_delta (Markup t) = 0 then ks = [] else closes 1 ks)"
| "element _ \<longleftrightarrow> False"

definition xml_ok :: "bytes \<Rightarrow> bool" where
  "xml_ok msg \<longleftrightarrow> (\<exists>ks. list_all wf_tok ks \<and> element ks \<and> msg = concat (map tok_bytes ks))"

lemma read_text:
  "60 \<notin> set t \<Longrightarrow> x_begun st \<Longrightarrow> \<not> x_inTag st \<Longrightarrow> length (x_buf st @ t) \<le> defaultMaxFrame \<Longrightarrow>
     xml_ReadFrame st (t @ s) = xml_ReadFrame (st\<lparr>x_buf := x_buf st @ t\<rparr>) s"
  by (induction t arbitrary: st) (simp_all add: Let_def)

lemma read_tag_body:
  "60 \<notin> set t \<Longrightarrow> 62 \<notin> set t \<Longrightarrow> x_inTag st \<Longrightarrow> length (x_buf st @ t) \<le> defaultMaxFrame \<Longrightarrow>
     xml_ReadFrame st (t @ s) = xml_ReadFrame (st\<lparr>x_buf := x_buf st @ t, x_tag := x_tag st @ t\<rparr>) s"
  by (induction t arbitrary: st) (simp_all add: Let_def)

lemma read_markup:
  assumes "60 \<notin> set t" "62 \<notin> set t" "length (x_buf st @ 60 # t @ [62]) \<le> defaultMaxFrame"
  shows "xml_ReadFrame st (60 # t @ 62 # s) =
    (let st' = xml_close (st\<lparr>x_buf := x_buf st @ 60 # t @ [62], x_tag := t, x_inTag := True\<rparr>) in
     if x_begun st' \<and> x_depth st' = 0 then Inr (x_buf st', s) else xml_ReadFrame st' s)"
proof -
  have "xml_ReadFrame st (60 # t @ 62 # s) = xml_ReadFrame (st\<lparr>x_buf := x_buf st @ [60], x_inTag := True, x_tag := []\<rparr>) (t @ 62 # s)"
    using assms(3) by (simp add: isSpace_def Let_def)
  also have "\<dots> = xml_ReadFrame (st\<lparr>x_buf := x_buf st @ 60 # t, x_inTag := True, x_tag := t\<rparr>) (62 # s)"
    using assms by (subst read_tag_body) simp_all
  finally show ?thesis using assms(3) by (cases st) (simp add: Let_def isSpace_def)
qed

lemma xml_close_depth:
  "x_depth (xml_close (st\<lparr>x_buf := b, x_tag := t, x_inTag := True\<rparr>)) = x_depth st + tok_delta (Markup t)"
  "x_begun (xml_close (st\<lparr>x_buf := b, x_tag := t, x_inTag := True\<rparr>)) = (fst (classifyTag t) \<or> x_begun st)"
  "x_buf (xml_close (st\<lparr>x_buf := b, x_tag := t, x_inTag := True\<rparr>)) = b"
  "\<not> x_inTag (xml_close (st\<lparr>x_buf := b, x_tag := t, x_inTag := True\<rparr>))"
  by (simp_all add: xml_close_def split: prod.split)

lemma read_closes:
  "closes d ks \<Longrightarrow> list_all wf_tok ks \<Longrightarrow> x_begun st \<Longrightarrow> \<not> x_inTag st \<Longrightarrow> x_depth st = d \<Longrightarrow>
     length (x_buf st @ concat (map tok_bytes ks)) \<le> defaultMaxFrame \<Longrightarrow>
     xml_ReadFrame st (concat (map tok_bytes ks) @ s) = Inr (x_buf st @ concat (map tok_bytes ks), s)"
proof (induction ks arbitrary: d st)
  case (Cons k ks)
  show ?case
  proof (cases k)
    case (Text t)
    then have "ks \<noteq> []" using Cons.prems(1) by auto
    then have "xml_ReadFrame (st\<lparr>x_buf := x_buf st @ t\<rparr>) (concat (map tok_bytes ks) @ s)
        = Inr ((x_buf st @ t) @ concat (map tok_bytes ks), s)"
      using Cons.prems Text Cons.IH [of d "st\<lparr>x_buf := x_buf st @ t\<rparr>"] by simp
    moreover have "xml_ReadFrame st (t @ concat (map tok_bytes ks) @ s) = xml_ReadFrame (st\<lparr>x_buf := x_buf st @ t\<rparr>) (concat (map tok_bytes ks) @ s)"
      using Cons.prems Text by (intro read_text) simp_all
    ultimately show ?thesis by (simp add: Text)
  next
    case (Markup t)
    let ?b = "x_buf st @ 60 # t @ [62]"
    let ?st = "xml_close (st\<lparr>x_buf := ?b, x_tag := t, x_inTag := True\<rparr>)"
    have t: "60 \<notin> set t" "62 \<notin> set t" "length ?b \<le> defaultMaxFrame" using Cons.prems Markup by simp_all
    note rm = read_markup [OF t, of "concat (map tok_bytes ks) @ s"]
    have begun: "x_begun ?st" and depth: "x_depth ?st = d + tok_delta k" using Cons.prems by (simp_all add: xml_close_depth Markup)
    show ?thesis
    proof (cases "ks = []")
      case True
      with Cons.prems(1) depth begun rm show ?thesis by (simp add: Markup Let_def xml_close_depth)
    next
      case False
      then have d: "d + tok_delta k > 0" "closes (d + tok_delta k) ks" using Cons.prems(1) by simp_all
      have "xml_ReadFrame ?st (concat (map tok_bytes ks) @ s) = Inr (x_buf ?st @ concat (map tok_bytes ks), s)"
        using Cons.prems Markup by (intro Cons.IH [OF d(2) _ begun _ depth]) (simp_all add: xml_close_depth)
      with d depth begun rm show ?thesis by (simp add: Markup Let_def xml_close_depth)
    qed
  qed
qed simp

lemma read_element:
  assumes "xml_ok msg" "length msg \<le> defaultMaxFrame"
  shows "xml_ReadFrame xml_start (msg @ s) = Inr (msg, s)"
proof -
  obtain ks where ks: "list_all wf_tok ks" "element ks" "msg = concat (map tok_bytes ks)" using assms(1) by (auto simp: xml_ok_def)
  then obtain t ks' where k: "ks = Markup t # ks'" "fst (classifyTag t)"
      "if tok_delta (Markup t) = 0 then ks' = [] else closes 1 ks'" by (cases ks rule: element.cases) auto
  let ?b = "60 # t @ [62]"
  let ?st = "xml_close (xml_start\<lparr>x_buf := x_buf xml_start @ ?b, x_tag := t, x_inTag := True\<rparr>)"
  have t: "60 \<notin> set t" "62 \<notin> set t" "length (x_buf xml_start @ ?b) \<le> defaultMaxFrame"
    using ks(1,3) k(1) assms(2) by (simp_all add: xml_start_def)
  note rm = read_markup [OF t, of "concat (map tok_bytes ks') @ s"]
  have delta: "tok_delta (Markup t) = 0 \<or> tok_delta (Markup t) = 1"
    using k(2) by (auto simp: classifyTag_def Let_def split: if_splits)
  have st: "x_begun ?st" "\<not> x_inTag ?st" "x_depth ?st = tok_delta (Markup t)" "x_buf ?st = ?b"
    using k(2) by (simp_all only: xml_close_depth) (simp_all add: xml_start_def)
  show ?thesis
  proof (cases "tok_delta (Markup t) = 0")
    case True
    with st rm k ks(3) show ?thesis by (simp add: Let_def del: xml_ReadFrame.simps tok_delta.simps)
  next
    case False
    then have "closes (tok_delta (Markup t)) ks'" "tok_delta (Markup t) = 1" using k(3) delta by simp_all
    then have "xml_ReadFrame ?st (concat (map tok_bytes ks') @ s) = Inr (x_buf ?st @ concat (map tok_bytes ks'), s)"
      using ks k(1) assms(2) st by (intro read_closes [of "tok_delta (Markup t)"]) simp_all
    with st rm k(1) ks(3) False show ?thesis by (simp add: Let_def del: xml_ReadFrame.simps tok_delta.simps)
  qed
qed

interpretation xml: framer "xml_ReadFrame xml_start" xml_WriteFrame xml_ok FrameEOF
proof unfold_locales
  show "\<exists>tail. \<forall>s. xml_ReadFrame xml_start (out @ s) = Inr (msg, tail @ s) \<and> xml_ReadFrame xml_start (tail @ s) = xml_ReadFrame xml_start s"
    if "xml_ok msg" "xml_WriteFrame msg = Inr out" for msg out
  proof (intro exI [of _ "[10]"] allI conjI)
    have out: "out = msg @ [10]" "length msg \<le> defaultMaxFrame" using that(2) by (auto simp: xml_WriteFrame_def split: if_splits)
    show "xml_ReadFrame xml_start (out @ s) = Inr (msg, [10] @ s)" for s
      using read_element [OF that(1) out(2), of "10 # s"] by (simp add: out(1))
    show "xml_ReadFrame xml_start ([10] @ s) = xml_ReadFrame xml_start s" for s
      by (simp add: xml_start_def isSpace_def)
  qed
qed (simp add: xml_start_def)

subsection \<open>Properties\<close>

text \<open>Length-prefixed framing. Writing fails exactly for messages over the maximum. Any sequence of written
  frames, concatenated on the stream, reads back as exactly those messages and then a clean end of stream; and no
  input, however hostile its prefix, yields a body over the maximum.\<close>

theorem length_frames_roundtrip:
  assumes "LengthPrefix w = Some lp"
  shows "((\<exists>out. lp_WriteFrame lp msg = Inr out) \<longleftrightarrow> length msg \<le> lp_max lp)
    \<and> (list_all2 (\<lambda>msg out. lp_WriteFrame lp msg = Inr out) msgs outs \<longrightarrow> drains (lp_ReadFrame lp) (concat outs) msgs FrameEOF)
    \<and> (lp_ReadFrame lp s = Inr (body, s') \<longrightarrow> length body \<le> lp_max lp)"
proof (intro conjI impI)
  show "(\<exists>out. lp_WriteFrame lp msg = Inr out) \<longleftrightarrow> length msg \<le> lp_max lp" by (auto simp: lp_WriteFrame_def)
  show "drains (lp_ReadFrame lp) (concat outs) msgs FrameEOF" if "list_all2 (\<lambda>msg out. lp_WriteFrame lp msg = Inr out) msgs outs"
    using framer.drains_written [OF lp_framer [OF assms]] that by simp
  show "length body \<le> lp_max lp" if "lp_ReadFrame lp s = Inr (body, s')"
    using that by (auto simp: lp_ReadFrame_def ReadFull_def Let_def split: sum.splits if_splits)
qed

theorem length_frames_roundtrip_witness:
  "drains (lp_ReadFrame \<lparr>lp_width = 2, lp_max = 65535\<rparr>) (concat [[0, 2, 48, 49], [0, 0]]) [[48, 49], []] FrameEOF"
proof -
  have w: "LengthPrefix 2 = Some \<lparr>lp_width = 2, lp_max = 65535\<rparr>" by (simp add: LengthPrefix_def)
  have "list_all2 (\<lambda>msg out. lp_WriteFrame \<lparr>lp_width = 2, lp_max = 65535\<rparr> msg = Inr out) [[48, 49], []] [[0, 2, 48, 49], [0, 0]]"
    by (simp add: lp_WriteFrame_def numeral_2_eq_2)
  with length_frames_roundtrip [OF w, of "[]" "[[48, 49], []]" "[[0, 2, 48, 49], [0, 0]]"] show ?thesis by blast
qed

text \<open>XML framing. Whatever well-formed \<open>isomsg\<close> elements are written, with elements of any other name and
  further \<open>isomsg\<close> elements nested in them, the reader returns exactly those elements in order and then a clean end
  of stream: the newline between frames is skipped and no frame is split at an inner closing tag.\<close>

theorem xml_frames_roundtrip:
  assumes "list_all2 (\<lambda>msg out. xml_ok msg \<and> xml_WriteFrame msg = Inr out) msgs outs"
  shows "drains (xml_ReadFrame xml_start) (concat outs) msgs FrameEOF"
  using assms by (rule xml.drains_written)

theorem xml_frames_roundtrip_witness:
  "drains (xml_ReadFrame xml_start) (concat [bytes_of ''<isomsg><isomsg/>a</isomsg>'' @ [10]]) [bytes_of ''<isomsg><isomsg/>a</isomsg>''] FrameEOF"
proof -
  let ?ks = "[Markup (bytes_of ''isomsg''), Markup (bytes_of ''isomsg/''), Text (bytes_of ''a''), Markup (bytes_of ''/isomsg'')]"
  have "list_all wf_tok ?ks" by code_simp
  moreover have "classifyTag (bytes_of ''isomsg'') = (True, False, False)" "classifyTag (bytes_of ''isomsg/'') = (True, False, True)"
      "classifyTag (bytes_of ''/isomsg'') = (False, True, False)"
    by code_simp+
  then have "element ?ks" by simp
  moreover have "bytes_of ''<isomsg><isomsg/>a</isomsg>'' = concat (map tok_bytes ?ks)" by code_simp
  ultimately have "xml_ok (bytes_of ''<isomsg><isomsg/>a</isomsg>'')" unfolding xml_ok_def by blast
  then show ?thesis by (intro xml_frames_roundtrip) (simp add: xml_WriteFrame_def defaultMaxFrame_def)
qed

end
