(* ===== verification/Link.thy ===== *)
theory Link
  imports Framer
begin

text \<open>
  The message-framed connection, \<^verbatim>\<open>src/link/link.go\<close>. The framer and the filters of a link are the
  interface values the code is configured with, so they are arguments; a connection is the bytes it has
  accepted and the bytes that will arrive on it.
\<close>

subsection \<open>Sending and receiving\<close>

datatype 'e link_error = LinkClosed | LinkFrame frame_error | LinkFilter 'e

type_synonym 'e link_filter = "bytes \<Rightarrow> bool \<Rightarrow> 'e + bytes"

record link =
  l_sent :: bytes
  l_incoming :: bytes
  l_closed :: bool

fun apply_filters :: "'e link_filter list \<Rightarrow> bool \<Rightarrow> bytes \<Rightarrow> 'e + bytes" where
  "apply_filters [] outgoing msg = Inr msg"
| "apply_filters (f # fs) outgoing msg =
     (case f msg outgoing of Inl e \<Rightarrow> Inl e | Inr msg' \<Rightarrow> apply_filters fs outgoing msg')"

text \<open>The bytes of one frame after the outgoing filters.\<close>

definition frame_out :: "(bytes \<Rightarrow> frame_error + bytes) \<Rightarrow> 'e link_filter list \<Rightarrow> bytes \<Rightarrow> 'e link_error + bytes" where
  "frame_out wr fs msg =
     (case apply_filters fs True msg of
        Inl e \<Rightarrow> Inl (LinkFilter e)
      | Inr out \<Rightarrow> (case wr out of Inl e \<Rightarrow> Inl (LinkFrame e) | Inr b \<Rightarrow> Inr b))"

definition link_Send :: "(bytes \<Rightarrow> frame_error + bytes) \<Rightarrow> 'e link_filter list \<Rightarrow> link \<Rightarrow> bytes \<Rightarrow> link \<times> 'e link_error option" where
  "link_Send wr fs l msg =
     (if l_closed l then (l, Some LinkClosed)
      else case frame_out wr fs msg of
        Inl e \<Rightarrow> (l, Some e)
      | Inr b \<Rightarrow> (l\<lparr>l_sent := l_sent l @ b\<rparr>, None))"

definition frame_in :: "(bytes \<Rightarrow> frame_error + bytes \<times> bytes) \<Rightarrow> 'e link_filter list \<Rightarrow> bytes \<Rightarrow> 'e link_error + bytes \<times> bytes" where
  "frame_in rd fs s =
     (case rd s of
        Inl e \<Rightarrow> Inl (LinkFrame e)
      | Inr (msg, s') \<Rightarrow> (case apply_filters (rev fs) False msg of Inl e \<Rightarrow> Inl (LinkFilter e) | Inr m \<Rightarrow> Inr (m, s')))"

definition link_Receive :: "(bytes \<Rightarrow> frame_error + bytes \<times> bytes) \<Rightarrow> 'e link_filter list \<Rightarrow> link \<Rightarrow> 'e link_error + bytes \<times> link" where
  "link_Receive rd fs l =
     (case frame_in rd fs (l_incoming l) of Inl e \<Rightarrow> Inl e | Inr (m, s') \<Rightarrow> Inr (m, l\<lparr>l_incoming := s'\<rparr>))"

definition link_Close :: "link \<Rightarrow> link" where
  "link_Close l = (if l_closed l then l else l\<lparr>l_closed := True\<rparr>)"

subsection \<open>Filters wrap and unwrap\<close>

lemma apply_filters_append:
  "apply_filters (fs @ gs) o' msg = (case apply_filters fs o' msg of Inl e \<Rightarrow> Inl e | Inr m \<Rightarrow> apply_filters gs o' m)"
  by (induction fs arbitrary: msg) (simp_all split: sum.split)

lemma filters_unwrap:
  assumes "\<forall>f \<in> set fs. \<forall>m out. f m True = Inr out \<longrightarrow> f out False = Inr m"
  shows "apply_filters fs True msg = Inr out \<Longrightarrow> apply_filters (rev fs) False out = Inr msg"
  using assms
proof (induction fs arbitrary: msg)
  case (Cons f fs)
  from Cons.prems(1) obtain m where "f msg True = Inr m" "apply_filters fs True m = Inr out" by (auto split: sum.splits)
  with Cons show ?case by (simp add: apply_filters_append)
qed simp

text \<open>A framer with such filters is a framer: the contract carries over to the link.\<close>

lemma filtered_framer:
  assumes "framer rd wr ok FrameEOF"
    and "\<forall>f \<in> set fs. \<forall>m out. f m True = Inr out \<longrightarrow> f out False = Inr m"
  shows "framer (frame_in rd fs) (frame_out wr fs) (\<lambda>msg. \<forall>out. apply_filters fs True msg = Inr out \<longrightarrow> ok out) (LinkFrame FrameEOF)"
proof
  show "frame_in rd fs [] = Inl (LinkFrame FrameEOF)"
    using framer.at_end [OF assms(1)] by (simp add: frame_in_def)
  fix msg out
  assume ok: "\<forall>out. apply_filters fs True msg = Inr out \<longrightarrow> ok out" and "frame_out wr fs msg = Inr out"
  then obtain m where m: "apply_filters fs True msg = Inr m" "wr m = Inr out"
    by (auto simp: frame_out_def split: sum.splits)
  with ok framer.write_read [OF assms(1)] obtain tail where "\<forall>s. rd (out @ s) = Inr (m, tail @ s) \<and> rd (tail @ s) = rd s" by blast
  then show "\<exists>tail. \<forall>s. frame_in rd fs (out @ s) = Inr (msg, tail @ s) \<and> frame_in rd fs (tail @ s) = frame_in rd fs s"
    using filters_unwrap [OF assms(2) m(1)] by (intro exI [of _ tail]) (simp add: frame_in_def)
qed

fun send_all :: "(bytes \<Rightarrow> frame_error + bytes) \<Rightarrow> 'e link_filter list \<Rightarrow> link \<Rightarrow> bytes list \<Rightarrow> 'e link_error + link" where
  "send_all wr fs l [] = Inr l"
| "send_all wr fs l (m # ms) = (case link_Send wr fs l m of (l', None) \<Rightarrow> send_all wr fs l' ms | (l', Some e) \<Rightarrow> Inl e)"

lemma send_all_frames:
  "send_all wr fs l msgs = Inr l' \<Longrightarrow>
     \<exists>outs. list_all2 (\<lambda>msg out. frame_out wr fs msg = Inr out) msgs outs \<and> l_sent l' = l_sent l @ concat outs"
proof (induction msgs arbitrary: l)
  case Nil
  then show ?case by auto
next
  case (Cons m ms)
  then obtain out where out: "frame_out wr fs m = Inr out" "send_all wr fs (l\<lparr>l_sent := l_sent l @ out\<rparr>) ms = Inr l'"
    by (auto simp: link_Send_def split: if_splits sum.splits)
  from Cons.IH [OF this(2)] obtain outs where "list_all2 (\<lambda>msg out. frame_out wr fs msg = Inr out) ms outs"
      "l_sent l' = (l_sent l @ out) @ concat outs" by auto
  with out(1) show ?case by (intro exI [of _ "out # outs"]) simp
qed

text \<open>\<open>n\<close> calls of \<open>Receive\<close> in a row.\<close>

fun receive_all :: "(bytes \<Rightarrow> frame_error + bytes \<times> bytes) \<Rightarrow> 'e link_filter list \<Rightarrow> nat \<Rightarrow> link \<Rightarrow> 'e link_error + bytes list \<times> link" where
  "receive_all rd fs 0 l = Inr ([], l)"
| "receive_all rd fs (Suc n) l =
     (case link_Receive rd fs l of
        Inl e \<Rightarrow> Inl e
      | Inr (m, l') \<Rightarrow> (case receive_all rd fs n l' of Inl e \<Rightarrow> Inl e | Inr (ms, l'') \<Rightarrow> Inr (m # ms, l'')))"

lemma receive_drains:
  "drains (frame_in rd fs) (l_incoming l) msgs e \<Longrightarrow>
     \<exists>l'. receive_all rd fs (length msgs) l = Inr (msgs, l') \<and> link_Receive rd fs l' = Inl e"
proof (induction msgs arbitrary: l)
  case Nil
  then show ?case by (auto simp: link_Receive_def elim: drains_NilE)
next
  case (Cons m ms)
  then obtain s where s: "frame_in rd fs (l_incoming l) = Inr (m, s)" "drains (frame_in rd fs) s ms e"
    by (auto elim: drains_ConsE)
  with Cons.IH [of "l\<lparr>l_incoming := s\<rparr>"] show ?case by (auto simp: link_Receive_def)
qed

text \<open>A length-prefixed link delivers. If every filter undoes on the way in what it did on the way out, then any
  messages a link accepts are received by the peer, whole, unchanged and in order, the filters being run in the
  opposite order there; and after the last one the peer sees a clean end of stream.\<close>

theorem link_delivers:
  assumes "LengthPrefix w = Some lp"
    and "\<forall>f \<in> set fs. \<forall>m out. f m True = Inr out \<longrightarrow> f out False = Inr m"
    and "l_sent l = []" "send_all (lp_WriteFrame lp) fs l msgs = Inr l'" "l_incoming peer = l_sent l'"
  shows "\<exists>peer'. receive_all (lp_ReadFrame lp) fs (length msgs) peer = Inr (msgs, peer')
      \<and> link_Receive (lp_ReadFrame lp) fs peer' = Inl (LinkFrame FrameEOF)"
proof -
  from send_all_frames [OF assms(4)] assms(3,5) obtain outs where
      outs: "list_all2 (\<lambda>msg out. frame_out (lp_WriteFrame lp) fs msg = Inr out) msgs outs" "l_incoming peer = concat outs" by auto
  have "framer (frame_in (lp_ReadFrame lp) fs) (frame_out (lp_WriteFrame lp) fs) (\<lambda>msg. \<forall>out. apply_filters fs True msg = Inr out \<longrightarrow> True)
          (LinkFrame FrameEOF)"
    by (rule filtered_framer [OF lp_framer [OF assms(1)] assms(2)])
  then have "drains (frame_in (lp_ReadFrame lp) fs) (l_incoming peer) msgs (LinkFrame FrameEOF)"
    using framer.drains_written outs by fastforce
  then show ?thesis by (rule receive_drains)
qed

text \<open>A filter that puts a header byte in front of each message and takes it off again.\<close>

definition header_filter :: "8 word \<Rightarrow> unit link_filter" where
  "header_filter h m outgoing = (if outgoing then Inr (h # m) else case m of x # xs \<Rightarrow> if x = h then Inr xs else Inl () | [] \<Rightarrow> Inl ())"

theorem link_delivers_witness:
  "\<exists>peer'. receive_all (lp_ReadFrame \<lparr>lp_width = 2, lp_max = 65535\<rparr>) [header_filter 7, header_filter 9] 1
       \<lparr>l_sent = [], l_incoming = [0, 3, 9, 7, 48], l_closed = False\<rparr> = Inr ([[48]], peer')"
proof -
  let ?lp = "\<lparr>lp_width = 2, lp_max = 65535\<rparr>"
  let ?fs = "[header_filter 7, header_filter 9]"
  have w: "LengthPrefix 2 = Some ?lp" by (simp add: LengthPrefix_def)
  have fs: "\<forall>f \<in> set ?fs. \<forall>m out. f m True = Inr out \<longrightarrow> f out False = Inr m" by (auto simp: header_filter_def)
  have "send_all (lp_WriteFrame ?lp) ?fs \<lparr>l_sent = [], l_incoming = [], l_closed = False\<rparr> [[48]]
      = Inr \<lparr>l_sent = [0, 3, 9, 7, 48], l_incoming = [], l_closed = False\<rparr>"
    by (simp add: link_Send_def frame_out_def header_filter_def lp_WriteFrame_def numeral_2_eq_2)
  from link_delivers [OF w fs _ this, of "\<lparr>l_sent = [], l_incoming = [0, 3, 9, 7, 48], l_closed = False\<rparr>"]
  show ?thesis by auto
qed

end
