(* ===== verification/Pool.thy ===== *)
theory Pool
  imports Link Decimal
begin

text \<open>
  The pool of links, \<^verbatim>\<open>src/link/pool.go\<close>: a state machine whose steps are the critical sections of
  its callers (\<open>Get\<close>, \<open>Discard\<close>, \<open>Close\<close>) and of its reconnecting goroutines, interleaved
  in any order. Dialling is the caller's function, so each attempt may succeed or fail.
\<close>

subsection \<open>The pool\<close>

text \<open>A reconnecting goroutine: asked for but not started yet, at the top of its loop, dialling, holding a fresh link, or waiting for its timer.\<close>

datatype task_phase = Scheduled | AtTop | Dialing | Dialed nat | Waiting

record task =
  t_slot :: nat
  t_backoff :: int
  t_phase :: task_phase

text \<open>Links are named by numbers in the order they were dialled. \<open>p_discards\<close> are the links whose
  \<open>Discard\<close> has closed them and not yet taken the lock; \<open>p_swept\<close> says that \<open>Close\<close> has emptied the slots.\<close>

record pool =
  p_min :: int
  p_max :: int
  p_slots :: "nat option list"
  p_next :: nat
  p_done :: bool
  p_tasks :: "task list"
  p_open :: "nat set"
  p_count :: nat
  p_discards :: "nat list"
  p_swept :: bool

definition reconnect :: "pool \<Rightarrow> nat \<Rightarrow> pool" where
  "reconnect p i = p\<lparr>p_tasks := p_tasks p @ [\<lparr>t_slot = i, t_backoff = p_min p, t_phase = Scheduled\<rparr>]\<rparr>"

text \<open>\<open>NewPool\<close>, given whether each initial dial succeeds.\<close>

fun new_slots :: "bool list \<Rightarrow> pool \<Rightarrow> pool" where
  "new_slots [] p = p"
| "new_slots (up # ups) p =
     new_slots ups
       (if up then p\<lparr>p_slots := p_slots p @ [Some (p_count p)], p_open := insert (p_count p) (p_open p), p_count := p_count p + 1\<rparr>
        else reconnect (p\<lparr>p_slots := p_slots p @ [None]\<rparr>) (length (p_slots p)))"

definition NewPool :: "int \<Rightarrow> int \<Rightarrow> bool list \<Rightarrow> pool" where
  "NewPool mn mx ups = new_slots ups \<lparr>p_min = mn, p_max = mx, p_slots = [], p_next = 0, p_done = False, p_tasks = [],
     p_open = {}, p_count = 0, p_discards = [], p_swept = False\<rparr>"

datatype pool_error = ErrPoolClosed | ErrNoHealthy

fun get_loop :: "pool \<Rightarrow> nat list \<Rightarrow> pool \<times> (pool_error + nat)" where
  "get_loop p [] = (p, Inl ErrNoHealthy)"
| "get_loop p (i # is) =
     (let idx = (p_next p + i) mod length (p_slots p) in
      case p_slots p ! idx of
        None \<Rightarrow> get_loop p is
      | Some l \<Rightarrow> (p\<lparr>p_next := (idx + 1) mod length (p_slots p)\<rparr>, Inr l))"

definition pool_Get :: "pool \<Rightarrow> pool \<times> (pool_error + nat)" where
  "pool_Get p = (if p_done p then (p, Inl ErrPoolClosed) else get_loop p [0..<length (p_slots p)])"

definition close_link :: "nat \<Rightarrow> pool \<Rightarrow> pool" where
  "close_link l p = p\<lparr>p_open := p_open p - {l}\<rparr>"

text \<open>The critical section of \<open>Discard\<close>: the first slot that holds the link is emptied, and its
  reconnection asked for once the lock is released.\<close>

fun find_slot :: "nat option list \<Rightarrow> nat \<Rightarrow> nat option" where
  "find_slot [] l = None"
| "find_slot (s # ss) l = (if s = Some l then Some 0 else map_option Suc (find_slot ss l))"

definition discard_slot :: "nat \<Rightarrow> pool \<Rightarrow> pool" where
  "discard_slot l p = (case find_slot (p_slots p) l of None \<Rightarrow> p | Some i \<Rightarrow> reconnect (p\<lparr>p_slots := (p_slots p)[i := None]\<rparr>) i)"

definition sweep :: "pool \<Rightarrow> pool" where
  "sweep p = p\<lparr>p_open := p_open p - {l. Some l \<in> set (p_slots p)}, p_slots := map (\<lambda>_. None) (p_slots p), p_swept := True\<rparr>"

text \<open>A backoff is a \<open>time.Duration\<close>, a 64-bit integer, and doubling it wraps.\<close>

definition next_backoff :: "pool \<Rightarrow> int \<Rightarrow> int" where
  "next_backoff p b = (if wrap64 (b * 2) > p_max p then p_max p else wrap64 (b * 2))"

text \<open>A step of a task picks it out of the running ones, wherever it stands among them.\<close>

inductive pool_step :: "pool \<Rightarrow> pool \<Rightarrow> bool" where
  get: "pool_step p (fst (pool_Get p))"
| discard: "l < p_count p \<Longrightarrow> pool_step p ((close_link l p)\<lparr>p_discards := l # p_discards p\<rparr>)"
| discard_lock: "l \<in> set (p_discards p) \<Longrightarrow> pool_step p (discard_slot l (p\<lparr>p_discards := remove1 l (p_discards p)\<rparr>))"
| spawn: "p_tasks p = as @ t # bs \<Longrightarrow> t_phase t = Scheduled \<Longrightarrow> pool_step p (p\<lparr>p_tasks := as @ t\<lparr>t_phase := AtTop\<rparr> # bs\<rparr>)"
| close: "pool_step p (p\<lparr>p_done := True\<rparr>)"
| close_lock: "p_done p \<Longrightarrow> pool_step p (sweep p)"
| top_done: "p_tasks p = as @ t # bs \<Longrightarrow> t_phase t = AtTop \<Longrightarrow> p_done p \<Longrightarrow> pool_step p (p\<lparr>p_tasks := as @ bs\<rparr>)"
| top_dial: "p_tasks p = as @ t # bs \<Longrightarrow> t_phase t = AtTop \<Longrightarrow> \<not> p_done p \<Longrightarrow>
    pool_step p (p\<lparr>p_tasks := as @ t\<lparr>t_phase := Dialing\<rparr> # bs\<rparr>)"
| dial_ok: "p_tasks p = as @ t # bs \<Longrightarrow> t_phase t = Dialing \<Longrightarrow>
    pool_step p (p\<lparr>p_tasks := as @ t\<lparr>t_phase := Dialed (p_count p)\<rparr> # bs,
                   p_open := insert (p_count p) (p_open p), p_count := p_count p + 1\<rparr>)"
| dial_fail: "p_tasks p = as @ t # bs \<Longrightarrow> t_phase t = Dialing \<Longrightarrow>
    pool_step p (p\<lparr>p_tasks := as @ t\<lparr>t_phase := Waiting\<rparr> # bs\<rparr>)"
| install: "p_tasks p = as @ t # bs \<Longrightarrow> t_phase t = Dialed l \<Longrightarrow> \<not> p_done p \<Longrightarrow>
    pool_step p (p\<lparr>p_slots := (p_slots p)[t_slot t := Some l], p_tasks := as @ bs\<rparr>)"
| install_done: "p_tasks p = as @ t # bs \<Longrightarrow> t_phase t = Dialed l \<Longrightarrow> p_done p \<Longrightarrow>
    pool_step p ((close_link l p)\<lparr>p_tasks := as @ bs\<rparr>)"
| wait_done: "p_tasks p = as @ t # bs \<Longrightarrow> t_phase t = Waiting \<Longrightarrow> p_done p \<Longrightarrow> pool_step p (p\<lparr>p_tasks := as @ bs\<rparr>)"
| wait_timer: "p_tasks p = as @ t # bs \<Longrightarrow> t_phase t = Waiting \<Longrightarrow>
    pool_step p (p\<lparr>p_tasks := as @ t\<lparr>t_backoff := next_backoff p (t_backoff t), t_phase := AtTop\<rparr> # bs\<rparr>)"

inductive pool_reach :: "pool \<Rightarrow> bool" where
  new: "pool_reach (NewPool mn mx ups)"
| step: "pool_reach p \<Longrightarrow> pool_step p q \<Longrightarrow> pool_reach q"

subsection \<open>Invariants of the pool\<close>

text \<open>Running tasks work for different, empty slots; while the pool is open every empty slot has its task.\<close>

definition tasks_ok :: "pool \<Rightarrow> bool" where
  "tasks_ok p \<longleftrightarrow> distinct (map t_slot (p_tasks p))
     \<and> (\<forall>t \<in> set (p_tasks p). t_slot t < length (p_slots p) \<and> p_slots p ! t_slot t = None)"

definition slots_served :: "pool \<Rightarrow> bool" where
  "slots_served p \<longleftrightarrow> (\<not> p_done p \<longrightarrow>
     (\<forall>i < length (p_slots p). p_slots p ! i = None \<longrightarrow> i \<in> t_slot ` set (p_tasks p)))"

text \<open>No link leaks: an open link is in a slot or held by the task that dialled it.\<close>

definition links_held :: "pool \<Rightarrow> bool" where
  "links_held p \<longleftrightarrow> (\<forall>l \<in> p_open p. Some l \<in> set (p_slots p) \<or> Dialed l \<in> t_phase ` set (p_tasks p))"

definition ids_ok :: "pool \<Rightarrow> bool" where
  "ids_ok p \<longleftrightarrow> (\<forall>l \<in> p_open p. l < p_count p) \<and> (\<forall>l \<in> set (p_discards p). l < p_count p \<and> l \<notin> p_open p)"

definition swept_ok :: "pool \<Rightarrow> bool" where
  "swept_ok p \<longleftrightarrow> (p_swept p \<longrightarrow> p_done p \<and> set (p_slots p) \<subseteq> {None})"

definition backoff_ok :: "pool \<Rightarrow> int \<Rightarrow> bool" where
  "backoff_ok p b \<longleftrightarrow> b \<le> max (p_min p) (p_max p) \<and> (0 \<le> p_min p \<and> p_min p \<le> p_max p \<and> p_max p < 2 ^ 62 \<longrightarrow> p_min p \<le> b)"

definition backoffs_ok :: "pool \<Rightarrow> bool" where
  "backoffs_ok p \<longleftrightarrow> (\<forall>t \<in> set (p_tasks p). backoff_ok p (t_backoff t))"

lemma backoff_ok_min [simp]: "backoff_ok p (p_min p)"
  by (simp add: backoff_ok_def)

lemma backoff_ok_cong: "p_min q = p_min p \<Longrightarrow> p_max q = p_max p \<Longrightarrow> backoff_ok q = backoff_ok p"
  by (simp add: backoff_ok_def fun_eq_iff)

lemma backoff_ok_update [simp]:
  "backoff_ok (p\<lparr>p_tasks := ts\<rparr>) = backoff_ok p" "backoff_ok (p\<lparr>p_slots := ss\<rparr>) = backoff_ok p" "backoff_ok (p\<lparr>p_open := os\<rparr>) = backoff_ok p"
  "backoff_ok (p\<lparr>p_next := n\<rparr>) = backoff_ok p" "backoff_ok (p\<lparr>p_done := d\<rparr>) = backoff_ok p" "backoff_ok (p\<lparr>p_count := n\<rparr>) = backoff_ok p"
  "backoff_ok (p\<lparr>p_discards := ls\<rparr>) = backoff_ok p" "backoff_ok (p\<lparr>p_swept := d\<rparr>) = backoff_ok p"
  by (simp_all add: backoff_ok_def fun_eq_iff)

definition pool_inv :: "pool \<Rightarrow> bool" where
  "pool_inv p \<longleftrightarrow> tasks_ok p \<and> slots_served p \<and> links_held p \<and> ids_ok p \<and> swept_ok p \<and> backoffs_ok p"

lemmas pool_parts = tasks_ok_def slots_served_def links_held_def ids_ok_def swept_ok_def backoffs_ok_def

lemma Some_in_update:
  assumes "i < length ss" "ss ! i = None"
  shows "Some x \<in> set (ss[i := Some l]) \<longleftrightarrow> x = l \<or> Some x \<in> set ss"
proof -
  have "ss = take i ss @ None # drop (Suc i) ss" using id_take_nth_drop [OF assms(1)] assms(2) by simp
  then have "Some x \<in> set ss \<longleftrightarrow> Some x \<in> set (take i ss @ None # drop (Suc i) ss)" by (rule arg_cong)
  with assms(1) show ?thesis by (auto simp: upd_conv_take_nth_drop)
qed

lemma Some_kept_update: "Some x \<in> set ss \<Longrightarrow> i < length ss \<Longrightarrow> ss ! i = Some l \<Longrightarrow> x \<noteq> l \<Longrightarrow> Some x \<in> set (ss[i := None])"
  by (metis in_set_conv_nth length_list_update nth_list_update_neq option.inject)

lemma find_slot_Some: "find_slot ss l = Some i \<Longrightarrow> i < length ss \<and> ss ! i = Some l"
  by (induction ss l arbitrary: i rule: find_slot.induct) (auto split: if_splits)

lemma get_loop_frame: "\<exists>n. fst (get_loop p is) = p\<lparr>p_next := n\<rparr>"
proof (induction p "is" rule: get_loop.induct)
  case (1 p)
  show ?case by (intro exI [of _ "p_next p"]) simp
qed (auto simp: Let_def split: option.split)

lemma pool_Get_frame: "\<exists>n. fst (pool_Get p) = p\<lparr>p_next := n\<rparr>"
proof (cases "p_done p")
  case True
  then show ?thesis by (intro exI [of _ "p_next p"]) (simp add: pool_Get_def)
qed (simp add: pool_Get_def get_loop_frame)

lemma pool_inv_next [simp]: "pool_inv (p\<lparr>p_next := n\<rparr>) \<longleftrightarrow> pool_inv p"
  by (simp add: pool_inv_def pool_parts)

lemma pool_inv_discard_slot:
  assumes "pool_inv p" "l \<notin> p_open p"
  shows "pool_inv (discard_slot l p)"
proof (cases "find_slot (p_slots p) l")
  case (Some i)
  note i = find_slot_Some [OF Some]
  define q where "q = reconnect (p\<lparr>p_slots := (p_slots p)[i := None]\<rparr>) i"
  have p: "tasks_ok p" "slots_served p" "links_held p" "ids_ok p" "swept_ok p" "backoffs_ok p"
    using assms(1) by (simp_all add: pool_inv_def)
  note q = q_def reconnect_def
  have "i \<notin> t_slot ` set (p_tasks p)" using p(1) i by (auto simp: tasks_ok_def)
  then have "tasks_ok q" using p(1) i by (auto simp: tasks_ok_def q nth_list_update)
  moreover have "slots_served q" using p(2) i by (auto simp: slots_served_def q nth_list_update split: if_splits)
  moreover have "links_held q" using p(3) i assms(2) Some_kept_update [of _ "p_slots p" i l] by (auto simp: links_held_def q)
  moreover have "ids_ok q" using p(4) by (simp add: ids_ok_def q)
  moreover have "swept_ok q" using p(5) i set_update_subset_insert [of "p_slots p" i None] by (auto simp: swept_ok_def q)
  moreover have "backoffs_ok q" using p(6) by (auto simp: backoffs_ok_def q)
  ultimately have "pool_inv q" by (simp add: pool_inv_def)
  with Some show ?thesis by (simp add: discard_slot_def q_def)
qed (simp add: assms discard_slot_def)

lemma pool_inv_task:
  assumes "pool_inv p" "p_tasks p = as @ t # bs" "t_slot t' = t_slot t" "\<forall>l. t_phase t = Dialed l \<longrightarrow> l \<notin> p_open p"
    and "backoff_ok p (t_backoff t')"
  shows "pool_inv (p\<lparr>p_tasks := as @ t' # bs\<rparr>)"
proof -
  have p: "tasks_ok p" "slots_served p" "links_held p" "ids_ok p" "swept_ok p" "backoffs_ok p"
    using assms(1) by (simp_all add: pool_inv_def)
  let ?q = "p\<lparr>p_tasks := as @ t' # bs\<rparr>"
  have "tasks_ok ?q" "slots_served ?q" "backoffs_ok ?q"
    using p(1,2,6) assms(2,3,5) by (auto simp: pool_parts)
  moreover have "links_held ?q" using p(3) assms(2,4) by (auto simp: links_held_def)
  moreover have "ids_ok ?q" "swept_ok ?q" using p(4,5) by (simp_all add: pool_parts)
  ultimately show ?thesis by (simp add: pool_inv_def)
qed

lemma pool_inv_phase:
  assumes "pool_inv p" "p_tasks p = as @ t # bs" "\<forall>l. t_phase t \<noteq> Dialed l"
  shows "pool_inv (p\<lparr>p_tasks := as @ t\<lparr>t_phase := ph\<rparr> # bs\<rparr>)"
  using assms by (intro pool_inv_task [OF assms(1,2)]) (auto simp: pool_inv_def backoffs_ok_def)

lemma pool_inv_end:
  assumes "pool_inv p" "p_tasks p = as @ t # bs" "p_done p" "\<forall>l. t_phase t = Dialed l \<longrightarrow> l \<notin> p_open p"
  shows "pool_inv (p\<lparr>p_tasks := as @ bs\<rparr>)"
  using assms by (auto simp: pool_inv_def pool_parts)

lemma pool_inv_close_link: "pool_inv p \<Longrightarrow> pool_inv (close_link l p)"
  by (auto simp: pool_inv_def pool_parts close_link_def)

lemma pool_inv_dialed:
  assumes "pool_inv p" "p_tasks p = as @ t # bs" "t_phase t = Dialing"
  shows "pool_inv (p\<lparr>p_tasks := as @ t\<lparr>t_phase := Dialed (p_count p)\<rparr> # bs,
                     p_open := insert (p_count p) (p_open p), p_count := p_count p + 1\<rparr>)" (is "pool_inv ?q")
proof -
  have p: "tasks_ok p" "slots_served p" "links_held p" "ids_ok p" "swept_ok p" "backoffs_ok p"
    using assms(1) by (simp_all add: pool_inv_def)
  have "tasks_ok ?q" "slots_served ?q" "backoffs_ok ?q" "swept_ok ?q"
    using p(1,2,5,6) assms(2) by (auto simp: pool_parts)
  moreover have "links_held ?q" using p(3) assms(2,3) by (auto simp: links_held_def)
  moreover have "ids_ok ?q" using p(4) by (auto simp: ids_ok_def)
  ultimately show ?thesis by (simp add: pool_inv_def)
qed

lemma pool_inv_install:
  assumes "pool_inv p" "p_tasks p = as @ t # bs" "t_phase t = Dialed l" "\<not> p_done p"
  shows "pool_inv (p\<lparr>p_slots := (p_slots p)[t_slot t := Some l], p_tasks := as @ bs\<rparr>)" (is "pool_inv ?q")
proof -
  have p: "tasks_ok p" "slots_served p" "links_held p" "ids_ok p" "swept_ok p" "backoffs_ok p"
    using assms(1) by (simp_all add: pool_inv_def)
  have t: "t_slot t < length (p_slots p)" "p_slots p ! t_slot t = None" "t_slot t \<notin> t_slot ` (set as \<union> set bs)"
    using p(1) assms(2) by (auto simp: tasks_ok_def)
  have "tasks_ok ?q" using p(1) assms(2) t(3) by (auto simp: tasks_ok_def nth_list_update)
  moreover have "slots_served ?q" using p(2) assms(2) t(1) by (auto simp: slots_served_def nth_list_update split: if_splits)
  moreover have "links_held ?q" using p(3) assms(2,3) t(1,2) by (auto simp: links_held_def Some_in_update)
  moreover have "ids_ok ?q" "backoffs_ok ?q" "swept_ok ?q" using p(4,5,6) assms(2,4) by (auto simp: pool_parts)
  ultimately show ?thesis by (simp add: pool_inv_def)
qed

lemma pool_inv_sweep: "pool_inv p \<Longrightarrow> p_done p \<Longrightarrow> pool_inv (sweep p)"
  by (auto simp: pool_inv_def pool_parts sweep_def)

lemma pool_inv_discard: "pool_inv p \<Longrightarrow> l < p_count p \<Longrightarrow> pool_inv ((close_link l p)\<lparr>p_discards := l # p_discards p\<rparr>)"
  by (auto simp: pool_inv_def pool_parts close_link_def)

lemma next_backoff_ok:
  assumes "backoff_ok p b"
  shows "backoff_ok p (next_backoff p b)"
proof (cases "0 \<le> p_min p \<and> p_min p \<le> p_max p \<and> p_max p < 2 ^ 62")
  case True
  then have "0 \<le> b" "p_min p \<le> b" "b \<le> p_max p" using assms by (auto simp: backoff_ok_def)
  moreover from this True have "wrap64 (b * 2) = b * 2" by (intro wrap64_id) (simp add: int64_def)
  ultimately show ?thesis using True by (simp add: backoff_ok_def next_backoff_def)
qed (auto simp: backoff_ok_def next_backoff_def)

lemma pool_step_inv: "pool_step p q \<Longrightarrow> pool_inv p \<Longrightarrow> pool_inv q"
proof (induction rule: pool_step.induct)
  case (get p)
  with pool_Get_frame [of p] show ?case by auto
next
  case (discard_lock l p)
  then have "pool_inv (p\<lparr>p_discards := remove1 l (p_discards p)\<rparr>)"
    using set_remove1_subset [of l "p_discards p"] by (auto simp: pool_inv_def pool_parts)
  with discard_lock show ?case by (intro pool_inv_discard_slot) (auto simp: pool_inv_def ids_ok_def)
next
  case (install_done p as t bs l)
  then show ?case
    using pool_inv_end [OF pool_inv_close_link, of p l as t bs] by (simp add: close_link_def)
next
  case (wait_timer p as t bs)
  then show ?case
    using next_backoff_ok [of p "t_backoff t"] by (intro pool_inv_task) (auto simp: pool_inv_def backoffs_ok_def)
next
  case (close p)
  then show ?case by (auto simp: pool_inv_def pool_parts)
qed (simp_all add: pool_inv_discard pool_inv_sweep pool_inv_dialed [simplified] pool_inv_install pool_inv_end pool_inv_phase)

lemma new_slots_inv: "pool_inv p \<Longrightarrow> \<not> p_done p \<Longrightarrow> pool_inv (new_slots ups p)"
proof (induction ups p rule: new_slots.induct)
  case (2 up ups p)
  have p: "tasks_ok p" "slots_served p" "links_held p" "ids_ok p" "swept_ok p" "backoffs_ok p"
    using 2(2) by (simp_all add: pool_inv_def)
  let ?a = "p\<lparr>p_slots := p_slots p @ [Some (p_count p)], p_open := insert (p_count p) (p_open p), p_count := p_count p + 1\<rparr>"
  let ?b = "reconnect (p\<lparr>p_slots := p_slots p @ [None]\<rparr>) (length (p_slots p))"
  have "pool_inv ?a"
    using p 2(3) by (auto simp: pool_inv_def pool_parts nth_append less_Suc_eq)
  moreover have "pool_inv ?b"
    using p 2(3) by (force simp: pool_inv_def pool_parts nth_append less_Suc_eq reconnect_def)
  moreover have "\<not> p_done ?a" "\<not> p_done ?b" using 2(3) by (simp_all add: reconnect_def)
  ultimately show ?case using 2(1) by simp
qed simp

lemma pool_reach_inv: "pool_reach p \<Longrightarrow> pool_inv p"
proof (induction rule: pool_reach.induct)
  case (new mn mx ups)
  show ?case unfolding NewPool_def by (rule new_slots_inv) (simp_all add: pool_inv_def pool_parts)
qed (rule pool_step_inv)

lemma pool_steps_reach: "pool_step\<^sup>*\<^sup>* p q \<Longrightarrow> pool_reach p \<Longrightarrow> pool_reach q"
  by (induction rule: rtranclp_induct) (auto intro: pool_reach.step)

subsection \<open>Round robin\<close>

lemma get_loop_cases:
  "case get_loop p [i..<length (p_slots p)] of
     (q, Inl e) \<Rightarrow> q = p \<and> e = ErrNoHealthy \<and> (\<forall>j. i \<le> j \<and> j < length (p_slots p) \<longrightarrow> p_slots p ! ((p_next p + j) mod length (p_slots p)) = None)
   | (q, Inr l) \<Rightarrow> \<exists>j. i \<le> j \<and> j < length (p_slots p) \<and> p_slots p ! ((p_next p + j) mod length (p_slots p)) = Some l
       \<and> (\<forall>h. i \<le> h \<and> h < j \<longrightarrow> p_slots p ! ((p_next p + h) mod length (p_slots p)) = None)
       \<and> q = p\<lparr>p_next := (p_next p + j + 1) mod length (p_slots p)\<rparr>"
proof (induction "length (p_slots p) - i" arbitrary: i)
  case 0
  then show ?case by auto
next
  case (Suc d)
  then have i: "i < length (p_slots p)" "d = length (p_slots p) - Suc i" by simp_all
  let ?s = "p_slots p ! ((p_next p + i) mod length (p_slots p))"
  show ?case
  proof (cases ?s)
    case (Some l)
    with i have "get_loop p [i..<length (p_slots p)] = (p\<lparr>p_next := (p_next p + i + 1) mod length (p_slots p)\<rparr>, Inr l)"
      by (simp add: upt_conv_Cons Let_def mod_Suc_eq)
    with Some i show ?thesis by auto
  next
    case None
    have step: "get_loop p [i..<length (p_slots p)] = get_loop p [Suc i..<length (p_slots p)]"
      using None i by (simp add: upt_conv_Cons Let_def)
    have le: "i \<le> j \<longleftrightarrow> j = i \<or> Suc i \<le> j" for j by auto
    show ?thesis using Suc.hyps(1) [OF i(2)] None unfolding step
      by (cases "get_loop p [Suc i..<length (p_slots p)]") (auto simp: le split: sum.splits intro: Suc_leD, (metis Suc_leI Suc_lessD le_neq_implies_less)?)
  qed
qed

lemma rotation_covers:
  fixes k n m :: nat
  assumes "k < n"
  shows "\<exists>j < n. (m + j) mod n = k"
proof (intro exI conjI)
  show "(n - m mod n + k) mod n < n" using assms by simp
  have "(m + (n - m mod n + k) mod n) mod n = ((m mod n + (n - m mod n)) + k) mod n"
    by (simp add: mod_simps add.assoc)
  also have "\<dots> = k" using assms by (simp add: mod_less_divisor order.strict_implies_order)
  finally show "(m + (n - m mod n + k) mod n) mod n = k" .
qed

text \<open>While the pool is open, \<open>Get\<close> returns the first healthy link at or after the cursor, going round the slots
  once, and moves the cursor past it; it reports that no link is healthy exactly when every slot is empty. After
  \<open>Close\<close> it is refused.\<close>

theorem pool_Get_round_robin:
  assumes "p_slots p \<noteq> []"
  shows "if p_done p then pool_Get p = (p, Inl ErrPoolClosed) else case pool_Get p of
       (q, Inl e) \<Rightarrow> q = p \<and> e = ErrNoHealthy \<and> (\<forall>s \<in> set (p_slots p). s = None)
     | (q, Inr l) \<Rightarrow> \<exists>j < length (p_slots p). p_slots p ! ((p_next p + j) mod length (p_slots p)) = Some l
         \<and> (\<forall>h < j. p_slots p ! ((p_next p + h) mod length (p_slots p)) = None)
         \<and> q = p\<lparr>p_next := (p_next p + j + 1) mod length (p_slots p)\<rparr>"
proof (cases "p_done p")
  case False
  then have get: "pool_Get p = get_loop p [0..<length (p_slots p)]" by (simp add: pool_Get_def)
  have all: "\<forall>s \<in> set (p_slots p). s = None"
    if "\<forall>j < length (p_slots p). p_slots p ! ((p_next p + j) mod length (p_slots p)) = None"
    using that rotation_covers [of _ "length (p_slots p)" "p_next p"] by (metis in_set_conv_nth)
  show ?thesis using False get_loop_cases [of p 0] all unfolding get by (auto split: prod.splits sum.splits)
qed (simp add: pool_Get_def)

subsection \<open>The pool serves its slots, closes its links and comes back\<close>

text \<open>C18: In every reachable state of the pool, under any interleaving of callers and goroutines: an open link is in a
  slot or in the hands of the goroutine that dialled it, so none leaks; while the pool is open, every empty slot has
  exactly one reconnecting goroutine; and no backoff exceeds the larger of the configured bounds, nor, if they are in order,
  not negative and below \<open>2 ^ 62\<close> nanoseconds, is one less than the lower bound.\<close>

theorem pool_serves_slots:
  assumes "pool_reach p"
  shows "(\<forall>l \<in> p_open p. Some l \<in> set (p_slots p) \<or> (\<exists>t \<in> set (p_tasks p). t_phase t = Dialed l))
    \<and> (\<not> p_done p \<longrightarrow> (\<forall>i < length (p_slots p). p_slots p ! i = None \<longrightarrow> (\<exists>!t. t \<in> set (p_tasks p) \<and> t_slot t = i)))
    \<and> (\<forall>t \<in> set (p_tasks p). t_backoff t \<le> max (p_min p) (p_max p)
        \<and> (0 \<le> p_min p \<and> p_min p \<le> p_max p \<and> p_max p < 2 ^ 62 \<longrightarrow> p_min p \<le> t_backoff t))"
proof (intro conjI)
  have p: "tasks_ok p" "slots_served p" "links_held p" "backoffs_ok p"
    using pool_reach_inv [OF assms] by (simp_all add: pool_inv_def)
  show "\<forall>l \<in> p_open p. Some l \<in> set (p_slots p) \<or> (\<exists>t \<in> set (p_tasks p). t_phase t = Dialed l)"
    using p(3) by (force simp: links_held_def)
  show "\<forall>t \<in> set (p_tasks p). t_backoff t \<le> max (p_min p) (p_max p)
      \<and> (0 \<le> p_min p \<and> p_min p \<le> p_max p \<and> p_max p < 2 ^ 62 \<longrightarrow> p_min p \<le> t_backoff t)"
    using p(4) by (simp add: backoffs_ok_def backoff_ok_def)
  show "\<not> p_done p \<longrightarrow> (\<forall>i < length (p_slots p). p_slots p ! i = None \<longrightarrow> (\<exists>!t. t \<in> set (p_tasks p) \<and> t_slot t = i))"
  proof (intro impI allI)
    fix i assume "\<not> p_done p" "i < length (p_slots p)" "p_slots p ! i = None"
    with p(2) have "i \<in> t_slot ` set (p_tasks p)" by (simp add: slots_served_def)
    moreover have "inj_on t_slot (set (p_tasks p))" using p(1) by (simp add: tasks_ok_def distinct_map)
    ultimately show "\<exists>!t. t \<in> set (p_tasks p) \<and> t_slot t = i" by (auto dest: inj_onD)
  qed
qed

text \<open>A pool of two slots whose second dial failed.\<close>

abbreviation demo_pool :: pool where
  "demo_pool \<equiv> NewPool 100 30000 [True, False]"

lemmas demo_pool_eval = NewPool_def reconnect_def numeral_2_eq_2

theorem pool_Get_round_robin_witness:
  "p_slots demo_pool \<noteq> [] \<and> \<not> p_done demo_pool
     \<and> (\<exists>l j. j < 2 \<and> p_slots demo_pool ! ((p_next demo_pool + j) mod 2) = Some l)"
  using pool_Get_round_robin [of demo_pool] by (auto simp: demo_pool_eval pool_Get_def Let_def upt_rec)

theorem pool_serves_slots_witness:
  "pool_reach demo_pool \<and> \<not> p_done demo_pool \<and> (\<exists>!t. t \<in> set (p_tasks demo_pool) \<and> t_slot t = 1)"
  using pool_serves_slots [of demo_pool] pool_reach.new [of 100 30000 "[True, False]"]
  by (simp add: demo_pool_eval)

subsection \<open>Closing\<close>

text \<open>\<open>Close\<close> returns once the slots are swept and every started goroutine is done.\<close>

definition Close_returns :: "pool \<Rightarrow> bool" where
  "Close_returns p \<longleftrightarrow> p_done p \<and> p_swept p \<and> (\<forall>t \<in> set (p_tasks p). t_phase t = Scheduled)"

definition quiet :: "pool \<Rightarrow> bool" where
  "quiet p \<longleftrightarrow> p_done p \<and> p_swept p \<and> (\<forall>t \<in> set (p_tasks p). t_phase t \<in> {Scheduled, AtTop})"

lemma discard_slot_swept: "set (p_slots p) \<subseteq> {None} \<Longrightarrow> discard_slot l p = p"
  by (auto simp: discard_slot_def dest!: find_slot_Some nth_mem split: option.split)

lemma quiet_step: "pool_step p q \<Longrightarrow> pool_inv p \<Longrightarrow> quiet p \<Longrightarrow> quiet q"
proof (induction rule: pool_step.induct)
  case (get p)
  with pool_Get_frame [of p] show ?case by (auto simp: quiet_def)
next
  case (discard_lock l p)
  then have "set (p_slots p) \<subseteq> {None}" by (simp add: pool_inv_def swept_ok_def quiet_def)
  with discard_lock show ?case by (simp add: discard_slot_swept quiet_def)
qed (auto simp: quiet_def close_link_def sweep_def)

lemma quiet_steps: "pool_step\<^sup>*\<^sup>* p q \<Longrightarrow> pool_reach p \<Longrightarrow> quiet p \<Longrightarrow> quiet q"
  by (induction rule: rtranclp_induct) (auto intro: quiet_step pool_reach_inv pool_steps_reach)

text \<open>When \<open>Close\<close> returns, every link the pool ever dialled is closed and every slot is empty, and so it stays
  whatever the callers and the goroutines a concurrent \<open>Discard\<close> may still start do afterwards: \<open>Get\<close> is refused.\<close>

theorem pool_Close_closes_all:
  assumes "pool_reach p" "Close_returns p" "pool_step\<^sup>*\<^sup>* p q"
  shows "p_open q = {} \<and> set (p_slots q) \<subseteq> {None} \<and> pool_Get q = (q, Inl ErrPoolClosed)"
proof -
  have "quiet q" using quiet_steps [OF assms(3,1)] assms(2) by (auto simp: quiet_def Close_returns_def)
  moreover have "pool_inv q" using assms by (simp add: pool_reach_inv pool_steps_reach)
  ultimately show ?thesis by (force simp: pool_inv_def links_held_def swept_ok_def quiet_def pool_Get_def)
qed

text \<open>The steps a goroutine can still take once the pool is done.\<close>

fun phase_work :: "task_phase \<Rightarrow> nat" where
  "phase_work AtTop = 1"
| "phase_work Scheduled = 2"
| "phase_work Waiting = 2"
| "phase_work (Dialed l) = 1"
| "phase_work Dialing = 3"

definition pool_work :: "pool \<Rightarrow> nat" where
  "pool_work p = sum_list (map (phase_work \<circ> t_phase) (p_tasks p))"

lemma pool_work_step:
  "pool_step p q \<Longrightarrow> pool_inv p \<Longrightarrow> p_swept p \<Longrightarrow> p_tasks q = p_tasks p \<or> pool_work q < pool_work p"
proof (induction rule: pool_step.induct)
  case (get p)
  with pool_Get_frame [of p] show ?case by auto
next
  case (discard_lock l p)
  then have "set (p_slots p) \<subseteq> {None}" by (simp add: pool_inv_def swept_ok_def)
  then show ?case by (simp add: discard_slot_swept)
qed (auto simp: pool_work_def close_link_def sweep_def pool_inv_def swept_ok_def)

lemma work_stepI: "pool_step p q \<Longrightarrow> pool_work q < pool_work p \<Longrightarrow> \<exists>q. pool_step p q \<and> pool_work q < pool_work p"
  by blast

text \<open>C21: After the sweep, \<open>Close\<close> does not wait for ever: no step starts new work, every step that touches a
  goroutine uses some of the remaining work up, and as long as a goroutine is left one of them can take a step.\<close>

theorem pool_Close_terminates:
  assumes "pool_reach p" "p_swept p"
  shows "(\<forall>q. pool_step p q \<longrightarrow> p_swept q \<and> (p_tasks q = p_tasks p \<or> pool_work q < pool_work p))
       \<and> (p_tasks p \<noteq> [] \<longrightarrow> (\<exists>q. pool_step p q \<and> pool_work q < pool_work p))"
proof (intro conjI allI impI)
  note p = pool_reach_inv [OF assms(1)]
  have d: "p_done p" using p assms(2) by (simp add: pool_inv_def swept_ok_def)
  fix q assume step: "pool_step p q"
  show "p_tasks q = p_tasks p \<or> pool_work q < pool_work p" using pool_work_step [OF step p assms(2)] .
  show "p_swept q" using step assms(2)
  proof (induction rule: pool_step.induct)
    case (get p)
    with pool_Get_frame [of p] show ?case by auto
  qed (auto simp: close_link_def sweep_def discard_slot_def reconnect_def split: option.split)
next
  have d: "p_done p" using pool_reach_inv [OF assms(1)] assms(2) by (simp add: pool_inv_def swept_ok_def)
  assume "p_tasks p \<noteq> []"
  then obtain t bs where t: "p_tasks p = [] @ t # bs" by (cases "p_tasks p") auto
  show "\<exists>q. pool_step p q \<and> pool_work q < pool_work p"
  proof (cases "t_phase t")
    case Scheduled
    show ?thesis by (rule work_stepI [OF pool_step.spawn [OF t Scheduled]]) (simp add: pool_work_def t Scheduled)
  next
    case AtTop
    show ?thesis by (rule work_stepI [OF pool_step.top_done [OF t AtTop d]]) (simp add: pool_work_def t AtTop)
  next
    case Dialing
    show ?thesis by (rule work_stepI [OF pool_step.dial_fail [OF t Dialing]]) (simp add: pool_work_def t Dialing)
  next
    case (Dialed l)
    show ?thesis by (rule work_stepI [OF pool_step.install_done [OF t Dialed d]]) (simp add: pool_work_def t Dialed)
  next
    case Waiting
    show ?thesis by (rule work_stepI [OF pool_step.wait_done [OF t Waiting d]]) (simp add: pool_work_def t Waiting)
  qed
qed

subsection \<open>Coming back\<close>

definition refilled :: "pool \<Rightarrow> nat \<Rightarrow> bool" where
  "refilled p i \<longleftrightarrow> (\<exists>q l. pool_step\<^sup>*\<^sup>* p q \<and> \<not> p_done q \<and> p_slots q = (p_slots p)[i := Some l])"

lemma refilledI: "pool_step\<^sup>*\<^sup>* p q \<Longrightarrow> \<not> p_done q \<Longrightarrow> p_slots q = (p_slots p)[i := Some l] \<Longrightarrow> refilled p i"
  by (auto simp: refilled_def)

lemma refilled_step: "pool_step p q \<Longrightarrow> refilled q i \<Longrightarrow> p_slots q = p_slots p \<Longrightarrow> refilled p i"
  by (auto simp: refilled_def intro: converse_rtranclp_into_rtranclp)

lemma refill_dialed:
  assumes "p_tasks p = as @ t # bs" "t_phase t = Dialed l" "\<not> p_done p"
  shows "refilled p (t_slot t)"
  by (rule refilledI, rule r_into_rtranclp, rule pool_step.install [OF assms]) (use assms in simp_all)

lemma refill_dialing:
  assumes "p_tasks p = as @ t # bs" "t_phase t = Dialing" "\<not> p_done p"
  shows "refilled p (t_slot t)"
  using refill_dialed [of _ as "t\<lparr>t_phase := Dialed (p_count p)\<rparr>" bs "p_count p"] assms(3)
  by (intro refilled_step [OF pool_step.dial_ok [OF assms(1,2)]]) simp_all

lemma refill_top:
  assumes "p_tasks p = as @ t # bs" "t_phase t = AtTop" "\<not> p_done p"
  shows "refilled p (t_slot t)"
  using refill_dialing [of _ as "t\<lparr>t_phase := Dialing\<rparr>" bs] assms(3)
  by (intro refilled_step [OF pool_step.top_dial [OF assms]]) simp_all

lemma refill:
  assumes "p_tasks p = as @ t # bs" "\<not> p_done p"
  shows "refilled p (t_slot t)"
proof (cases "t_phase t")
  case Scheduled
  show ?thesis using refill_top [of _ as "t\<lparr>t_phase := AtTop\<rparr>" bs] assms(2)
    by (intro refilled_step [OF pool_step.spawn [OF assms(1) Scheduled]]) simp_all
next
  case Waiting
  show ?thesis
    using refill_top [of _ as "t\<lparr>t_backoff := next_backoff p (t_backoff t), t_phase := AtTop\<rparr>" bs] assms(2)
    by (intro refilled_step [OF pool_step.wait_timer [OF assms(1) Waiting]]) simp_all
qed (use refill_top refill_dialing refill_dialed assms in auto)

text \<open>An open pool always recovers: from any reachable state in which a slot is empty, the goroutine that serves
  the slot can bring it back, without disturbing the other slots, once the target accepts a dial; \<open>Get\<close> then finds a link.\<close>

theorem pool_recovers:
  assumes "pool_reach p" "\<not> p_done p" "i < length (p_slots p)" "p_slots p ! i = None"
  shows "\<exists>q l. pool_step\<^sup>*\<^sup>* p q \<and> p_slots q = (p_slots p)[i := Some l] \<and> (\<exists>l'. snd (pool_Get q) = Inr l')"
proof -
  have "i \<in> t_slot ` set (p_tasks p)"
    using pool_reach_inv [OF assms(1)] assms(2-4) by (simp add: pool_inv_def slots_served_def)
  then obtain as t bs where "p_tasks p = as @ t # bs" "t_slot t = i" by (auto dest!: split_list)
  with refill [of p as t bs] assms(2) obtain q l where q: "pool_step\<^sup>*\<^sup>* p q" "\<not> p_done q" "p_slots q = (p_slots p)[i := Some l]"
    by (auto simp: refilled_def)
  then have "\<not> (\<forall>s \<in> set (p_slots q). s = None)" using assms(3) by (metis length_list_update nth_list_update_eq nth_mem option.discI)
  then have "\<exists>l'. snd (pool_Get q) = Inr l'"
    using get_loop_cases [of q 0] q(2) rotation_covers [of _ "length (p_slots q)" "p_next q"]
    by (cases "get_loop q [0..<length (p_slots q)]") (auto simp: pool_Get_def in_set_conv_nth split: sum.splits, metis option.discI)
  with q show ?thesis by blast
qed

subsection \<open>Instances\<close>

lemma demo_pool_reach: "pool_reach demo_pool"
  by (rule pool_reach.new)

lemma demo_closed: "pool_step\<^sup>*\<^sup>* demo_pool (sweep (demo_pool\<lparr>p_done := True\<rparr>))"
  by (rule rtranclp_trans [OF r_into_rtranclp r_into_rtranclp], rule pool_step.close) (rule pool_step.close_lock, simp)

lemma demo_closed_reach: "pool_reach (sweep (demo_pool\<lparr>p_done := True\<rparr>))"
  by (rule pool_steps_reach [OF demo_closed demo_pool_reach])

theorem pool_Close_closes_all_witness:
  "Close_returns (sweep (demo_pool\<lparr>p_done := True\<rparr>)) \<and> p_open demo_pool = {0} \<and> p_open (sweep (demo_pool\<lparr>p_done := True\<rparr>)) = {}"
proof -
  have "Close_returns (sweep (demo_pool\<lparr>p_done := True\<rparr>))" "p_open demo_pool = {0}"
    by (simp_all add: Close_returns_def sweep_def demo_pool_eval)
  with pool_Close_closes_all [OF demo_closed_reach _ rtranclp.rtrancl_refl] show ?thesis by blast
qed

theorem pool_Close_terminates_witness:
  "p_swept (sweep (demo_pool\<lparr>p_done := True\<rparr>)) \<and> (\<exists>q. pool_step (sweep (demo_pool\<lparr>p_done := True\<rparr>)) q
     \<and> pool_work q < pool_work (sweep (demo_pool\<lparr>p_done := True\<rparr>)))"
proof -
  have "p_swept (sweep (demo_pool\<lparr>p_done := True\<rparr>))" "p_tasks (sweep (demo_pool\<lparr>p_done := True\<rparr>)) \<noteq> []"
    by (simp_all add: sweep_def demo_pool_eval)
  with pool_Close_terminates [OF demo_closed_reach] show ?thesis by blast
qed

theorem pool_recovers_witness:
  "p_slots demo_pool ! 1 = None \<and> (\<exists>q l. pool_step\<^sup>*\<^sup>* demo_pool q \<and> p_slots q = (p_slots demo_pool)[1 := Some l])"
proof -
  have "\<not> p_done demo_pool" "1 < length (p_slots demo_pool)" "p_slots demo_pool ! 1 = None" by (simp_all add: demo_pool_eval)
  with pool_recovers [OF demo_pool_reach] show ?thesis by blast
qed

end
