(* ===== verification/Fairness.thy ===== *)
theory Fairness
  imports Main
begin

text \<open>
  Runs of a state machine and weak fairness, for the liveness properties of the concurrent components. A run is an
  infinite sequence of states in which each state steps to the next or is repeated; weak fairness of some of the steps
  says that they are not enabled for ever without one being taken.
\<close>

definition run_of :: "('s \<Rightarrow> 's \<Rightarrow> bool) \<Rightarrow> (nat \<Rightarrow> 's) \<Rightarrow> bool" where
  "run_of step \<sigma> \<longleftrightarrow> (\<forall>n. \<sigma> (Suc n) = \<sigma> n \<or> step (\<sigma> n) (\<sigma> (Suc n)))"

definition weakly_fair :: "('s \<Rightarrow> 's \<Rightarrow> bool) \<Rightarrow> (nat \<Rightarrow> 's) \<Rightarrow> bool" where
  "weakly_fair act \<sigma> \<longleftrightarrow> (\<forall>n. (\<forall>k\<ge>n. \<exists>s'. act (\<sigma> k) s') \<longrightarrow> (\<exists>k\<ge>n. act (\<sigma> k) (\<sigma> (Suc k))))"

text \<open>What a step keeps, a run keeps.\<close>

lemma run_keeps:
  assumes "run_of step \<sigma>" "P (\<sigma> n)" "n \<le> k" "\<And>s s'. step s s' \<Longrightarrow> P s \<Longrightarrow> P s'"
  shows "P (\<sigma> k)"
  using assms(3)
proof (induction rule: dec_induct)
  case (step k)
  then show ?case using assms(1,4) unfolding run_of_def by metis
qed (rule assms(2))

text \<open>The rule for one fair step: if \<open>P\<close> holds until \<open>Q\<close> does, fair steps are enabled while \<open>P\<close> holds, and lead from
  \<open>P\<close> to \<open>Q\<close>, then \<open>Q\<close> comes.\<close>

lemma fair_leads_to:
  assumes "run_of step \<sigma>" "weakly_fair act \<sigma>" "P (\<sigma> n)"
    and keep: "\<And>s s'. step s s' \<Longrightarrow> P s \<Longrightarrow> P s' \<or> Q s'"
    and enabled: "\<And>s. P s \<Longrightarrow> \<exists>s'. act s s'"
    and acts: "\<And>s s'. act s s' \<Longrightarrow> P s \<Longrightarrow> Q s'"
  shows "\<exists>k\<ge>n. Q (\<sigma> k)"
proof (rule ccontr)
  assume no: "\<not> ?thesis"
  have P: "P (\<sigma> k)" if "n \<le> k" for k
    using that
  proof (induction rule: dec_induct)
    case (step k)
    then show ?case using assms(1) keep no unfolding run_of_def by (metis le_SucI)
  qed (rule assms(3))
  then obtain k where "n \<le> k" "act (\<sigma> k) (\<sigma> (Suc k))" using assms(2) enabled unfolding weakly_fair_def by blast
  with P acts no show False by (metis le_SucI)
qed

text \<open>What has come to hold was brought about by a step.\<close>

lemma run_change:
  assumes "run_of step \<sigma>" "\<not> D (\<sigma> n)" "n \<le> k" "D (\<sigma> k)"
  shows "\<exists>j. n \<le> j \<and> j < k \<and> \<not> D (\<sigma> j) \<and> D (\<sigma> (Suc j)) \<and> step (\<sigma> j) (\<sigma> (Suc j))"
  using assms(3,4)
proof (induction k rule: dec_induct)
  case base
  with assms(2) show ?case by simp
next
  case (step k)
  show ?case
  proof (cases "D (\<sigma> k)")
    case True
    then show ?thesis using step.IH by (meson less_SucI)
  next
    case False
    with step.prems have "\<sigma> (Suc k) \<noteq> \<sigma> k" by auto
    with False step assms(1) show ?thesis unfolding run_of_def by (metis lessI)
  qed
qed

text \<open>A sequence that has come to a state in which the fair steps are not enabled, and stays there, is fair.\<close>

lemma weakly_fair_final: "\<forall>k\<ge>N. \<forall>s'. \<not> act (\<sigma> k) s' \<Longrightarrow> weakly_fair act \<sigma>"
  unfolding weakly_fair_def by (metis nat_le_linear)

text \<open>The run through a list of states that stays in the last.\<close>

definition run_through :: "'s list \<Rightarrow> nat \<Rightarrow> 's" where
  "run_through ss n = (if n < length ss then ss ! n else last ss)"

lemma run_through_run:
  assumes "\<forall>i. Suc i < length ss \<longrightarrow> step (ss ! i) (ss ! Suc i)"
  shows "run_of step (run_through ss)"
  unfolding run_of_def run_through_def
proof (intro allI)
  fix n
  consider "Suc n < length ss" | "Suc n = length ss" | "length ss \<le> n" by linarith
  then show "(if Suc n < length ss then ss ! Suc n else last ss) = (if n < length ss then ss ! n else last ss)
      \<or> step (if n < length ss then ss ! n else last ss) (if Suc n < length ss then ss ! Suc n else last ss)"
  proof cases
    case 2
    then have "last ss = ss ! n" by (metis diff_Suc_1 last_conv_nth length_0_conv nat.distinct(1))
    with 2 show ?thesis by simp
  qed (use assms in auto)
qed

lemma run_through_last: "length ss \<le> k \<Longrightarrow> run_through ss k = last ss"
  by (simp add: run_through_def)

end
