(* ===== verification/Mux.thy ===== *)
theory Mux
  imports RoundTrip Fairness "HOL-Library.Multiset"
begin

text \<open>
  The request multiplexer, \<^verbatim>\<open>src/mux/mux.go\<close>: callers register a request under its correlation key and
  wait; one reader goroutine hands each incoming frame to the request registered under the frame's key. The
  model is a state machine whose steps are the critical sections of the callers, the reader and \<open>Close\<close>.
  The keyers are the caller's functions; what the link does with a write and which frames arrive is left open.
\<close>

subsection \<open>State\<close>

datatype 'e mux_cause = ErrMuxClosed | ReadError 'e

datatype 'e mux_outcome = Response bytes | SendFailed | CtxDone | ErrTimeout | MuxStopped "'e mux_cause"

text \<open>A call of \<open>Request\<close> that has registered: about to send, waiting in the select, past it with the deferred
  deletion still to run, or returned. \<open>q_chan\<close> is the buffer of its channel.\<close>

datatype 'e req_phase = Registered | Waiting | Finished "'e mux_outcome" | Returned "'e mux_outcome"

record 'e request =
  q_key :: bytes
  q_frame :: bytes
  q_chan :: "bytes option"
  q_phase :: "'e req_phase"

text \<open>The reader: in \<open>Receive\<close>, about to put a frame into a request's channel, or stopped.\<close>

datatype reader = Reading | Delivering nat bytes | Stopped

text \<open>The calls of \<open>Request\<close> are numbered in the order they registered. \<open>x_sent\<close> and \<open>x_frames\<close> are the frames
  written and received so far, \<open>x_unmatched\<close> those passed to \<open>deliverUnsolicited\<close>.\<close>

record 'e mux =
  x_pending :: "bytes \<rightharpoonup> nat"
  x_reqs :: "'e request list"
  x_reader :: reader
  x_done :: bool
  x_err :: "'e mux_cause option"
  x_sent :: "bytes list"
  x_frames :: "bytes list"
  x_unmatched :: "bytes list"

definition mux_New :: "'e mux" where
  "mux_New = \<lparr>x_pending = Map.empty, x_reqs = [], x_reader = Reading, x_done = False, x_err = None,
     x_sent = [], x_frames = [], x_unmatched = []\<rparr>"

subsection \<open>Operations\<close>

type_synonym 'k keyer = "bytes \<Rightarrow> 'k + bytes"

record 'k mux_config =
  m_key :: "'k keyer"
  m_respKey :: "'k keyer option"
  m_timeout :: nat

datatype 'k request_error = KeyRequest 'k | ErrDuplicateKey

text \<open>The first part of \<open>Request\<close>: compute the key and register under the lock.\<close>

definition register :: "'k mux_config \<Rightarrow> bytes \<Rightarrow> 'e mux \<Rightarrow> 'k request_error + 'e mux" where
  "register c req m =
     (case m_key c req of
        Inl e \<Rightarrow> Inl (KeyRequest e)
      | Inr k \<Rightarrow>
          if x_pending m k \<noteq> None then Inl ErrDuplicateKey
          else Inr (m\<lparr>x_pending := (x_pending m)(k \<mapsto> length (x_reqs m)),
                      x_reqs := x_reqs m @ [\<lparr>q_key = k, q_frame = req, q_chan = None, q_phase = Registered\<rparr>]\<rparr>))"

definition responseKey :: "'k mux_config \<Rightarrow> 'k keyer" where
  "responseKey c msg = (case m_respKey c of Some rk \<Rightarrow> rk msg | None \<Rightarrow> m_key c msg)"

definition deliverUnsolicited :: "bytes \<Rightarrow> 'e mux \<Rightarrow> 'e mux" where
  "deliverUnsolicited msg m = m\<lparr>x_unmatched := x_unmatched m @ [msg]\<rparr>"

text \<open>One round of \<open>readLoop\<close> up to the channel send: the lookup and the deletion are one critical section.\<close>

definition receive_frame :: "'k mux_config \<Rightarrow> bytes \<Rightarrow> 'e mux \<Rightarrow> 'e mux" where
  "receive_frame c msg m =
     (let m1 = m\<lparr>x_frames := x_frames m @ [msg]\<rparr> in
      case responseKey c msg of
        Inl _ \<Rightarrow> deliverUnsolicited msg m1
      | Inr k \<Rightarrow> (case x_pending m k of
            None \<Rightarrow> deliverUnsolicited msg m1
          | Some i \<Rightarrow> m1\<lparr>x_pending := (x_pending m)(k := None), x_reader := Delivering i msg\<rparr>))"

definition mux_stop :: "'e mux_cause \<Rightarrow> 'e mux \<Rightarrow> 'e mux" where
  "mux_stop cause m = (if x_done m then m else m\<lparr>x_err := Some cause, x_done := True\<rparr>)"

definition closedErr :: "'e mux \<Rightarrow> 'e mux_cause" where
  "closedErr m = (case x_err m of Some e \<Rightarrow> e | None \<Rightarrow> ErrMuxClosed)"

definition mux_Err :: "'e mux \<Rightarrow> 'e mux_cause option" where
  "mux_Err m = (if x_done m then Some (closedErr m) else None)"

text \<open>\<open>Send\<close> writes without registering; \<open>up\<close> says whether the link accepts the frame.\<close>

definition mux_Send :: "bool \<Rightarrow> bytes \<Rightarrow> 'e mux \<Rightarrow> 'e mux \<times> 'e mux_outcome option" where
  "mux_Send up msg m =
     (if x_done m then (m, Some (MuxStopped (closedErr m)))
      else if up then (m\<lparr>x_sent := x_sent m @ [msg]\<rparr>, None) else (m, Some SendFailed))"

definition finish :: "'e mux_outcome \<Rightarrow> 'e request \<Rightarrow> 'e request" where
  "finish out q = q\<lparr>q_phase := Finished out\<rparr>"

text \<open>A step of request number \<open>length as\<close> picks it out as \<open>q\<close>.\<close>

inductive mux_step :: "'k mux_config \<Rightarrow> 'e mux \<Rightarrow> 'e mux \<Rightarrow> bool" for c where
  request: "register c req m = Inr m' \<Longrightarrow> mux_step c m m'"
| send_ok: "x_reqs m = as @ q # bs \<Longrightarrow> q_phase q = Registered \<Longrightarrow>
    mux_step c m (m\<lparr>x_reqs := as @ q\<lparr>q_phase := Waiting\<rparr> # bs, x_sent := x_sent m @ [q_frame q]\<rparr>)"
| send_fail: "x_reqs m = as @ q # bs \<Longrightarrow> q_phase q = Registered \<Longrightarrow> mux_step c m (m\<lparr>x_reqs := as @ finish SendFailed q # bs\<rparr>)"
| response: "x_reqs m = as @ q # bs \<Longrightarrow> q_phase q = Waiting \<Longrightarrow> q_chan q = Some resp \<Longrightarrow>
    mux_step c m (m\<lparr>x_reqs := as @ (finish (Response resp) q)\<lparr>q_chan := None\<rparr> # bs\<rparr>)"
| cancelled: "x_reqs m = as @ q # bs \<Longrightarrow> q_phase q = Waiting \<Longrightarrow> mux_step c m (m\<lparr>x_reqs := as @ finish CtxDone q # bs\<rparr>)"
| timed_out: "x_reqs m = as @ q # bs \<Longrightarrow> q_phase q = Waiting \<Longrightarrow> 0 < m_timeout c \<Longrightarrow>
    mux_step c m (m\<lparr>x_reqs := as @ finish ErrTimeout q # bs\<rparr>)"
| stopped: "x_reqs m = as @ q # bs \<Longrightarrow> q_phase q = Waiting \<Longrightarrow> x_done m \<Longrightarrow>
    mux_step c m (m\<lparr>x_reqs := as @ finish (MuxStopped (closedErr m)) q # bs\<rparr>)"
| deferred: "x_reqs m = as @ q # bs \<Longrightarrow> q_phase q = Finished out \<Longrightarrow>
    mux_step c m (m\<lparr>x_reqs := as @ q\<lparr>q_phase := Returned out\<rparr> # bs, x_pending := (x_pending m)(q_key q := None)\<rparr>)"
| frame: "x_reader m = Reading \<Longrightarrow> mux_step c m (receive_frame c msg m)"
| deliver: "x_reader m = Delivering (length as) msg \<Longrightarrow> x_reqs m = as @ q # bs \<Longrightarrow> q_chan q = None \<Longrightarrow>
    mux_step c m (m\<lparr>x_reqs := as @ q\<lparr>q_chan := Some msg\<rparr> # bs, x_reader := Reading\<rparr>)"
| read_error: "x_reader m = Reading \<Longrightarrow> mux_step c m ((mux_stop (ReadError e) m)\<lparr>x_reader := Stopped\<rparr>)"
| send: "mux_step c m (fst (mux_Send up msg m))"
| close: "mux_step c m (mux_stop ErrMuxClosed m)"

inductive mux_reach :: "'k mux_config \<Rightarrow> 'e mux \<Rightarrow> bool" for c where
  new: "mux_reach c mux_New"
| step: "mux_reach c m \<Longrightarrow> mux_step c m m' \<Longrightarrow> mux_reach c m'"

subsection \<open>Invariant\<close>

text \<open>The frames a request has been given: in its channel, or taken out of it as the response.\<close>

fun outcome_frames :: "'e mux_outcome \<Rightarrow> bytes list" where
  "outcome_frames (Response msg) = [msg]"
| "outcome_frames _ = []"

fun phase_frames :: "'e req_phase \<Rightarrow> bytes list" where
  "phase_frames (Finished out) = outcome_frames out"
| "phase_frames (Returned out) = outcome_frames out"
| "phase_frames _ = []"

definition given :: "'e request \<Rightarrow> bytes list" where
  "given q = (case q_chan q of None \<Rightarrow> [] | Some msg \<Rightarrow> [msg]) @ phase_frames (q_phase q)"

fun carried :: "reader \<Rightarrow> bytes list" where
  "carried (Delivering i msg) = [msg]"
| "carried _ = []"

definition pending_ok :: "'e mux \<Rightarrow> bool" where
  "pending_ok m \<longleftrightarrow> (\<forall>k i. x_pending m k = Some i \<longrightarrow>
     i < length (x_reqs m) \<and> q_key (x_reqs m ! i) = k \<and> given (x_reqs m ! i) = [] \<and> (\<forall>out. q_phase (x_reqs m ! i) \<noteq> Returned out))"

definition reader_ok :: "'k mux_config \<Rightarrow> 'e mux \<Rightarrow> bool" where
  "reader_ok c m \<longleftrightarrow> (\<forall>i msg. x_reader m = Delivering i msg \<longrightarrow>
     i < length (x_reqs m) \<and> given (x_reqs m ! i) = [] \<and> responseKey c msg = Inr (q_key (x_reqs m ! i)) \<and> (\<forall>k. x_pending m k \<noteq> Some i))"

definition request_ok :: "'k mux_config \<Rightarrow> 'e request \<Rightarrow> bool" where
  "request_ok c q \<longleftrightarrow> m_key c (q_frame q) = Inr (q_key q) \<and> length (given q) \<le> 1
     \<and> (\<forall>msg \<in> set (given q). responseKey c msg = Inr (q_key q))"

definition frames_ok :: "'e mux \<Rightarrow> bool" where
  "frames_ok m \<longleftrightarrow> mset (x_frames m) = mset (x_unmatched m) + mset (carried (x_reader m)) + mset (concat (map given (x_reqs m)))"

definition mux_inv :: "'k mux_config \<Rightarrow> 'e mux \<Rightarrow> bool" where
  "mux_inv c m \<longleftrightarrow> pending_ok m \<and> reader_ok c m \<and> (\<forall>q \<in> set (x_reqs m). request_ok c q) \<and> frames_ok m"

lemmas mux_parts = pending_ok_def reader_ok_def request_ok_def frames_ok_def

text \<open>A request may change as long as it keeps its key and what it was given.\<close>

lemma mux_inv_request:
  assumes "mux_inv c m" "x_reqs m = as @ q # bs"
    and "q_key q' = q_key q" "q_frame q' = q_frame q" "given q' = given q" "\<forall>out. q_phase q' \<noteq> Returned out"
  shows "mux_inv c (m\<lparr>x_reqs := as @ q' # bs\<rparr>)"
proof -
  have m: "pending_ok m" "reader_ok c m" "\<forall>x \<in> set (x_reqs m). request_ok c x" "frames_ok m"
    using assms(1) by (simp_all add: mux_inv_def)
  let ?m = "m\<lparr>x_reqs := as @ q' # bs\<rparr>"
  have nth: "q_key ((as @ q' # bs) ! i) = q_key (x_reqs m ! i)" "given ((as @ q' # bs) ! i) = given (x_reqs m ! i)" for i
    using assms(2,3,5) by (auto simp: nth_append nth_Cons split: nat.split)
  have ret: "(\<forall>out. q_phase (x_reqs m ! i) \<noteq> Returned out) \<Longrightarrow> (\<forall>out. q_phase ((as @ q' # bs) ! i) \<noteq> Returned out)" for i
    using assms(2,6) by (auto simp: nth_append nth_Cons split: nat.splits)
  have "pending_ok ?m" using m(1) assms(2) ret by (auto simp: pending_ok_def nth)
  moreover have "reader_ok c ?m" using m(2) assms(2) by (auto simp: reader_ok_def nth)
  moreover have "\<forall>x \<in> set (x_reqs ?m). request_ok c x" using m(3) assms(2-5) by (auto simp: request_ok_def)
  moreover have "frames_ok ?m" using m(4) assms(2,5) by (simp add: frames_ok_def)
  ultimately show ?thesis by (simp add: mux_inv_def)
qed

lemma mux_inv_sent [simp]: "mux_inv c (m\<lparr>x_sent := xs\<rparr>) \<longleftrightarrow> mux_inv c m"
  by (simp add: mux_inv_def mux_parts)

lemma mux_inv_stop [simp]: "mux_inv c (mux_stop e m) \<longleftrightarrow> mux_inv c m"
  by (simp add: mux_stop_def mux_inv_def mux_parts)

lemma mux_inv_register:
  assumes "mux_inv c m" "register c req m = Inr m'"
  shows "mux_inv c m'"
proof -
  from assms(2) obtain k where k: "m_key c req = Inr k" "x_pending m k = None"
      "m' = m\<lparr>x_pending := (x_pending m)(k \<mapsto> length (x_reqs m)),
              x_reqs := x_reqs m @ [\<lparr>q_key = k, q_frame = req, q_chan = None, q_phase = Registered\<rparr>]\<rparr>"
    by (auto simp: register_def split: sum.splits if_splits)
  have m: "pending_ok m" "reader_ok c m" "\<forall>x \<in> set (x_reqs m). request_ok c x" "frames_ok m"
    using assms(1) by (simp_all add: mux_inv_def)
  have "pending_ok m'" using m(1) k by (auto simp: pending_ok_def nth_append given_def intro: less_SucI)
  moreover have "reader_ok c m'" using m(2) k by (auto simp: reader_ok_def nth_append intro: less_SucI)
  moreover have "\<forall>x \<in> set (x_reqs m'). request_ok c x" using m(3) k by (simp add: request_ok_def given_def)
  moreover have "frames_ok m'" using m(4) k by (simp add: frames_ok_def given_def)
  ultimately show ?thesis by (simp add: mux_inv_def)
qed

lemma mux_inv_deferred:
  assumes "mux_inv c m" "x_reqs m = as @ q # bs" "q_phase q = Finished out"
  shows "mux_inv c (m\<lparr>x_reqs := as @ q\<lparr>q_phase := Returned out\<rparr> # bs, x_pending := (x_pending m)(q_key q := None)\<rparr>)" (is "mux_inv c ?m")
proof -
  have m: "pending_ok m" "reader_ok c m" "\<forall>x \<in> set (x_reqs m). request_ok c x" "frames_ok m"
    using assms(1) by (simp_all add: mux_inv_def)
  let ?q = "q\<lparr>q_phase := Returned out\<rparr>"
  have g: "given ?q = given q" using assms(3) by (simp add: given_def)
  have nth: "q_key ((as @ ?q # bs) ! i) = q_key (x_reqs m ! i)" "given ((as @ ?q # bs) ! i) = given (x_reqs m ! i)" for i
    using assms(2) g by (auto simp: nth_append nth_Cons split: nat.split)
  have ret: "q_phase ((as @ ?q # bs) ! i) = q_phase (x_reqs m ! i)" if "q_key (x_reqs m ! i) \<noteq> q_key q" for i
    using assms(2) that by (auto simp: nth_append nth_Cons split: nat.splits)
  have "pending_ok ?m" using m(1) assms(2) ret by (auto simp: pending_ok_def nth)
  moreover have "reader_ok c ?m" using m(2) assms(2) by (auto simp: reader_ok_def nth)
  moreover have "\<forall>x \<in> set (x_reqs ?m). request_ok c x" using m(3) assms(2) g by (auto simp: request_ok_def)
  moreover have "frames_ok ?m" using m(4) assms(2) g by (simp add: frames_ok_def)
  ultimately show ?thesis by (simp add: mux_inv_def)
qed

lemma mux_inv_frame:
  assumes "mux_inv c m" "x_reader m = Reading"
  shows "mux_inv c (receive_frame c msg m)"
proof -
  have m: "pending_ok m" "\<forall>x \<in> set (x_reqs m). request_ok c x" "frames_ok m"
    using assms(1) by (simp_all add: mux_inv_def)
  have un: "mux_inv c (deliverUnsolicited msg (m\<lparr>x_frames := x_frames m @ [msg]\<rparr>))"
    using m assms(2) by (simp add: mux_inv_def mux_parts deliverUnsolicited_def)
  have hit: "mux_inv c (m\<lparr>x_frames := x_frames m @ [msg], x_pending := (x_pending m)(k := None), x_reader := Delivering i msg\<rparr>)"
    if k: "responseKey c msg = Inr k" "x_pending m k = Some i" for k i
  proof -
    let ?m = "m\<lparr>x_frames := x_frames m @ [msg], x_pending := (x_pending m)(k := None), x_reader := Delivering i msg\<rparr>"
    have i: "q_key (x_reqs m ! i) = k'" if "x_pending m k' = Some i" for k' using m(1) that by (simp add: pending_ok_def)
    have "x_pending ?m k' \<noteq> Some i" for k' using i [of k'] i [of k] k(2) by auto
    then have "reader_ok c ?m" using m(1) k by (simp add: reader_ok_def pending_ok_def)
    moreover have "pending_ok ?m" using m(1) by (simp add: pending_ok_def)
    moreover have "frames_ok ?m" using m(3) assms(2) by (simp add: frames_ok_def)
    ultimately show ?thesis using m(2) by (simp add: mux_inv_def)
  qed
  show ?thesis using un hit by (simp add: receive_frame_def Let_def split: sum.split option.split)
qed

lemma mux_inv_deliver:
  assumes "mux_inv c m" "x_reader m = Delivering (length as) msg" "x_reqs m = as @ q # bs"
  shows "mux_inv c (m\<lparr>x_reqs := as @ q\<lparr>q_chan := Some msg\<rparr> # bs, x_reader := Reading\<rparr>)" (is "mux_inv c ?m")
proof -
  have m: "pending_ok m" "reader_ok c m" "\<forall>x \<in> set (x_reqs m). request_ok c x" "frames_ok m"
    using assms(1) by (simp_all add: mux_inv_def)
  have q: "given q = []" "responseKey c msg = Inr (q_key q)" "\<forall>k. x_pending m k \<noteq> Some (length as)"
    using m(2) assms(2,3) by (auto simp: reader_ok_def)
  have g: "given (q\<lparr>q_chan := Some msg\<rparr>) = [msg]" using q(1) by (simp add: given_def)
  have nth: "(as @ q\<lparr>q_chan := Some msg\<rparr> # bs) ! i = x_reqs m ! i" if "i \<noteq> length as" for i
    using assms(3) that by (auto simp: nth_append nth_Cons split: nat.split)
  have "pending_ok ?m" unfolding pending_ok_def
  proof (intro allI impI)
    fix k i assume "x_pending ?m k = Some i"
    then have "x_pending m k = Some i" "i \<noteq> length as" using q(3) by auto
    with m(1) assms(3) nth show "i < length (x_reqs ?m) \<and> q_key (x_reqs ?m ! i) = k \<and> given (x_reqs ?m ! i) = []
        \<and> (\<forall>out. q_phase (x_reqs ?m ! i) \<noteq> Returned out)"
      by (simp add: pending_ok_def)
  qed
  moreover have "reader_ok c ?m" by (simp add: reader_ok_def)
  moreover have "\<forall>x \<in> set (x_reqs ?m). request_ok c x" using m(3) assms(3) q(2) g by (auto simp: request_ok_def)
  moreover have "frames_ok ?m" using m(4) assms(2,3) q(1) g by (simp add: frames_ok_def)
  ultimately show ?thesis by (simp add: mux_inv_def)
qed

lemma given_waiting [simp]: "q_phase q = Waiting \<Longrightarrow> q_chan q = Some msg \<Longrightarrow> given q = [msg]"
  by (simp add: given_def)

lemma mux_step_inv: "mux_step c m m' \<Longrightarrow> mux_inv c m \<Longrightarrow> mux_inv c m'"
proof (induction rule: mux_step.induct)
  case (request req m m')
  then show ?case by (blast intro: mux_inv_register)
next
  case (send_ok m as q bs)
  then have "mux_inv c (m\<lparr>x_reqs := as @ q\<lparr>q_phase := Waiting\<rparr> # bs\<rparr>)" by (intro mux_inv_request [of _ _ _ q]) (auto simp: given_def)
  then show ?case using mux_inv_sent [where m = "m\<lparr>x_reqs := as @ q\<lparr>q_phase := Waiting\<rparr> # bs\<rparr>"] by simp
next
  case (read_error m e)
  then show ?case
    using mux_inv_stop [of c "ReadError e" m] by (simp add: mux_inv_def mux_parts mux_stop_def del: mux_inv_stop)
next
  case (send m up msg)
  then show ?case by (simp add: mux_Send_def)
qed (auto simp: mux_inv_deferred mux_inv_frame mux_inv_deliver finish_def given_def intro!: mux_inv_request)

lemma mux_reach_inv: "mux_reach c m \<Longrightarrow> mux_inv c m"
proof (induction rule: mux_reach.induct)
  case new
  show ?case by (simp add: mux_New_def mux_inv_def mux_parts)
qed (rule mux_step_inv)

subsection \<open>Responses reach their requests\<close>

text \<open>C7: In every reachable state of the multiplexer, under any interleaving of callers, reader and \<open>Close\<close>: a request
  only ever returns a frame whose key is the key it registered under; every frame received is, exactly once, passed to the
  unsolicited handler, on its way to a request, or given to a request; a request is given at most one frame; and the
  channel the reader writes to is empty, so the reader never blocks.\<close>

theorem mux_correlates:
  assumes "mux_reach c m"
  shows "(\<forall>q \<in> set (x_reqs m). m_key c (q_frame q) = Inr (q_key q) \<and> length (given q) \<le> 1
        \<and> (\<forall>msg. q_phase q = Returned (Response msg) \<longrightarrow> responseKey c msg = Inr (q_key q)))
    \<and> mset (x_frames m) = mset (x_unmatched m) + mset (carried (x_reader m)) + mset (concat (map given (x_reqs m)))
    \<and> (\<forall>i msg. x_reader m = Delivering i msg \<longrightarrow> i < length (x_reqs m) \<and> q_chan (x_reqs m ! i) = None)"
proof (intro conjI)
  have m: "reader_ok c m" "\<forall>x \<in> set (x_reqs m). request_ok c x" "frames_ok m"
    using mux_reach_inv [OF assms] by (simp_all add: mux_inv_def)
  show "\<forall>q \<in> set (x_reqs m). m_key c (q_frame q) = Inr (q_key q) \<and> length (given q) \<le> 1
        \<and> (\<forall>msg. q_phase q = Returned (Response msg) \<longrightarrow> responseKey c msg = Inr (q_key q))"
    using m(2) by (simp add: request_ok_def given_def)
  show "mset (x_frames m) = mset (x_unmatched m) + mset (carried (x_reader m)) + mset (concat (map given (x_reqs m)))"
    using m(3) by (simp add: frames_ok_def)
  show "\<forall>i msg. x_reader m = Delivering i msg \<longrightarrow> i < length (x_reqs m) \<and> q_chan (x_reqs m ! i) = None"
    using m(1) by (auto simp: reader_ok_def given_def split: option.splits)
qed

text \<open>Request number \<open>length as\<close> can be brought to return \<open>out\<close>.\<close>

definition returns :: "'k mux_config \<Rightarrow> 'e mux \<Rightarrow> nat \<Rightarrow> 'e mux_outcome \<Rightarrow> bool" where
  "returns c m i out \<longleftrightarrow> (\<exists>m'. (mux_step c)\<^sup>*\<^sup>* m m' \<and> i < length (x_reqs m') \<and> q_phase (x_reqs m' ! i) = Returned out)"

lemma returns_step: "mux_step c m m' \<Longrightarrow> returns c m' i out \<Longrightarrow> returns c m i out"
  by (auto simp: returns_def intro: converse_rtranclp_into_rtranclp)

lemma returns_returned: "i < length (x_reqs m) \<Longrightarrow> q_phase (x_reqs m ! i) = Returned out \<Longrightarrow> returns c m i out"
  by (auto simp: returns_def)

lemma returns_finished:
  assumes "x_reqs m = as @ q # bs" "q_phase q = Finished out"
  shows "returns c m (length as) out"
  by (rule returns_step [OF mux_step.deferred [OF assms]], rule returns_returned) simp_all

lemma returns_delivered:
  assumes "x_reqs m = as @ q # bs" "q_phase q = Waiting" "q_chan q = Some msg"
  shows "returns c m (length as) (Response msg)"
  by (rule returns_step [OF mux_step.response [OF assms]], rule returns_finished [of _ as _ bs]) (simp add: finish_def)+

lemma returns_delivering:
  assumes "x_reader m = Delivering (length as) msg" "x_reqs m = as @ q # bs" "q_chan q = None" "q_phase q = Waiting"
  shows "returns c m (length as) (Response msg)"
  by (rule returns_step [OF mux_step.deliver [OF assms(1-3)]], rule returns_delivered [of _ as _ bs]) (simp add: assms(4))+

lemma returns_frame:
  assumes "mux_inv c m" "i < length (x_reqs m)" "x_pending m (q_key (x_reqs m ! i)) = Some i" "q_phase (x_reqs m ! i) = Waiting"
    "x_reader m = Reading" "responseKey c msg = Inr (q_key (x_reqs m ! i))"
  shows "returns c m i (Response msg)"
proof -
  let ?q = "x_reqs m ! i"
  have q: "x_reqs m = take i (x_reqs m) @ ?q # drop (Suc i) (x_reqs m)" "length (take i (x_reqs m)) = i"
    using assms(2) by (rule id_take_nth_drop) (use assms(2) in simp)
  have "given ?q = []" using assms(1,3) by (auto simp: mux_inv_def pending_ok_def)
  then have "q_chan ?q = None" by (auto simp: given_def split: option.splits)
  then have "returns c (receive_frame c msg m) (length (take i (x_reqs m))) (Response msg)"
    using assms q by (intro returns_delivering [of _ _ _ ?q "drop (Suc i) (x_reqs m)"]) (simp_all add: receive_frame_def Let_def)
  with q(2) show ?thesis using returns_step [OF mux_step.frame [OF assms(5)]] by simp
qed

subsection \<open>Every request is answered\<close>

text \<open>What a step does to request number \<open>i\<close>.\<close>

abbreviation phase_of :: "'e mux \<Rightarrow> nat \<Rightarrow> 'e req_phase" where
  "phase_of m i \<equiv> q_phase (x_reqs m ! i)"

abbreviation chan_of :: "'e mux \<Rightarrow> nat \<Rightarrow> bytes option" where
  "chan_of m i \<equiv> q_chan (x_reqs m ! i)"

definition ends_with :: "'k mux_config \<Rightarrow> 'e mux \<Rightarrow> 'e request \<Rightarrow> 'e mux_outcome \<Rightarrow> bool" where
  "ends_with c m q out \<longleftrightarrow> out = CtxDone \<or> (out = ErrTimeout \<and> 0 < m_timeout c) \<or> (out = MuxStopped (closedErr m) \<and> x_done m)
     \<or> (\<exists>msg. q_chan q = Some msg \<and> out = Response msg)"

definition req_change :: "'k mux_config \<Rightarrow> 'e mux \<Rightarrow> nat \<Rightarrow> 'e request \<Rightarrow> 'e request \<Rightarrow> bool" where
  "req_change c m i q q' \<longleftrightarrow>
     (q_phase q' = q_phase q \<and> (q_chan q' = q_chan q \<or> (\<exists>msg. q_chan q = None \<and> q_chan q' = Some msg \<and> x_reader m = Delivering i msg)))
     \<or> (q_phase q = Registered \<and> q_chan q' = q_chan q \<and> (q_phase q' = Waiting \<or> q_phase q' = Finished SendFailed))
     \<or> (\<exists>out. q_phase q = Waiting \<and> q_phase q' = Finished out \<and> ends_with c m q out)
     \<or> (\<exists>out. q_phase q = Finished out \<and> q_phase q' = Returned out)"

definition req_moves :: "'k mux_config \<Rightarrow> nat \<Rightarrow> 'e mux \<Rightarrow> 'e mux \<Rightarrow> bool" where
  "req_moves c i m m' \<longleftrightarrow> i < length (x_reqs m') \<and> req_change c m i (x_reqs m ! i) (x_reqs m' ! i)"

lemma nth_replaced: "(as @ q' # bs) ! i = (if i = length as then q' else (as @ q # bs) ! i)"
  by (auto simp: nth_append nth_Cons split: nat.split)

lemma moves_replaced:
  assumes "x_reqs m = as @ q # bs" "x_reqs m' = as @ q' # bs" "req_change c m (length as) q q'" "i < length (x_reqs m)"
  shows "req_moves c i m m'"
  using assms nth_replaced [of as q' bs i q] by (cases "i = length as") (simp_all add: req_moves_def req_change_def)

lemma moves_same: "x_reqs m' = x_reqs m @ qs \<Longrightarrow> i < length (x_reqs m) \<Longrightarrow> req_moves c i m m'"
  by (simp add: req_moves_def req_change_def nth_append)

lemma mux_step_moves: "mux_step c m m' \<Longrightarrow> i < length (x_reqs m) \<Longrightarrow> req_moves c i m m'"
proof (induction rule: mux_step.induct)
  case (request req m m')
  then show ?case by (auto simp: register_def split: sum.splits if_splits intro: moves_same)
next
  case (frame m msg)
  have "x_reqs (receive_frame c msg m) = x_reqs m @ []"
    by (simp add: receive_frame_def Let_def deliverUnsolicited_def split: sum.split option.split)
  then show ?case using frame(2) by (rule moves_same)
next
  case (read_error m e)
  then show ?case by (intro moves_same [of _ _ "[]"]) (simp_all add: mux_stop_def)
next
  case (send m up msg)
  then show ?case by (intro moves_same [of _ _ "[]"]) (simp_all add: mux_Send_def)
next
  case (close m)
  then show ?case by (intro moves_same [of _ _ "[]"]) (simp_all add: mux_stop_def)
qed (erule moves_replaced, simp, simp add: req_change_def ends_with_def finish_def, assumption)+

lemma mux_step_done: "mux_step c m m' \<Longrightarrow> x_done m \<Longrightarrow> x_done m' \<and> closedErr m' = closedErr m"
  by (induction rule: mux_step.induct)
    (auto simp: register_def receive_frame_def Let_def deliverUnsolicited_def mux_Send_def mux_stop_def closedErr_def split: sum.splits option.splits if_splits)

lemma mux_step_reader:
  assumes "mux_step c m m'" "x_reader m = Delivering i msg"
  shows "x_reader m' = Delivering i msg \<or> x_reader m' = Reading \<and> chan_of m' i = Some msg"
  using assms
  by (induction rule: mux_step.induct) (auto simp: register_def mux_Send_def mux_stop_def split: sum.splits if_splits)

text \<open>The fair steps: those of request number \<open>i\<close> other than the end of its context and its timer, which nobody owes it,
  and the reader's channel send.\<close>

definition advances :: "'k mux_config \<Rightarrow> nat \<Rightarrow> 'e mux \<Rightarrow> 'e mux \<Rightarrow> bool" where
  "advances c i m m' \<longleftrightarrow> mux_step c m m' \<and> i < length (x_reqs m) \<and> phase_of m' i \<noteq> phase_of m i
     \<and> phase_of m' i \<noteq> Finished CtxDone \<and> phase_of m' i \<noteq> Finished ErrTimeout"

definition hands_over :: "'k mux_config \<Rightarrow> 'e mux \<Rightarrow> 'e mux \<Rightarrow> bool" where
  "hands_over c m m' \<longleftrightarrow> mux_step c m m' \<and> (\<exists>i msg. x_reader m = Delivering i msg) \<and> x_reader m' = Reading"

fun req_rank :: "'e req_phase \<Rightarrow> nat" where
  "req_rank Registered = 3" | "req_rank Waiting = 2" | "req_rank (Finished _) = 1" | "req_rank (Returned _) = 0"

lemma req_moves_rank: "req_moves c i m m' \<Longrightarrow> phase_of m' i \<noteq> phase_of m i \<Longrightarrow> req_rank (phase_of m' i) < req_rank (phase_of m i)"
  by (auto simp: req_moves_def req_change_def)

lemma advances_enabled:
  assumes "i < length (x_reqs m)" "\<forall>out. phase_of m i \<noteq> Returned out" "phase_of m i = Waiting \<Longrightarrow> x_done m \<or> chan_of m i \<noteq> None"
  shows "\<exists>m'. advances c i m m'"
proof -
  let ?q = "x_reqs m ! i"
  obtain as bs where m: "x_reqs m = as @ ?q # bs" and i: "i = length as"
    using id_take_nth_drop [OF assms(1)] assms(1) by (metis length_take min.absorb4)
  have nth: "(as @ q' # bs) ! i = q'" for q' using i by simp
  show ?thesis
  proof (cases "phase_of m i")
    case Registered
    then show ?thesis using mux_step.send_ok [OF m Registered, of c] assms(1) i by (auto simp: advances_def nth)
  next
    case Waiting
    show ?thesis
    proof (cases "chan_of m i")
      case None
      then have "x_done m" using assms(3) Waiting by blast
      from mux_step.stopped [OF m Waiting this, of c] show ?thesis using Waiting assms(1) i by (auto simp: advances_def finish_def nth)
    next
      case (Some msg)
      from mux_step.response [OF m Waiting this, of c] show ?thesis using Waiting assms(1) i by (auto simp: advances_def finish_def nth)
    qed
  next
    case (Finished out)
    then show ?thesis using mux_step.deferred [OF m Finished, of c] assms(1) i by (auto simp: advances_def nth)
  qed (use assms(2) in blast)
qed

text \<open>A request that, as long as it waits, has a frame in its channel or the multiplexer stopped, returns.\<close>

lemma fair_returns:
  assumes "run_of (mux_step c) \<sigma>" "weakly_fair (advances c i) \<sigma>" "I (\<sigma> n)"
    and keep: "\<And>m m'. mux_step c m m' \<Longrightarrow> I m \<Longrightarrow> I m'"
    and I: "\<And>m. I m \<Longrightarrow> i < length (x_reqs m) \<and> (phase_of m i = Waiting \<longrightarrow> x_done m \<or> chan_of m i \<noteq> None)"
  shows "\<exists>k\<ge>n. I (\<sigma> k) \<and> (\<exists>out. phase_of (\<sigma> k) i = Returned out)"
  using assms(3)
proof (induction "req_rank (phase_of (\<sigma> n) i)" arbitrary: n rule: less_induct)
  case less
  show ?case
  proof (cases "\<exists>out. phase_of (\<sigma> n) i = Returned out")
    case False
    let ?ph = "phase_of (\<sigma> n) i"
    have "\<exists>k\<ge>n. I (\<sigma> k) \<and> req_rank (phase_of (\<sigma> k) i) < req_rank ?ph"
    proof (rule fair_leads_to [OF assms(1,2), where P = "\<lambda>m. I m \<and> phase_of m i = ?ph"])
      show "I (\<sigma> n) \<and> ?ph = ?ph" using less.prems by simp
    next
      fix m m' assume s: "mux_step c m m'" "I m \<and> phase_of m i = ?ph"
      then have "req_moves c i m m'" using mux_step_moves I by blast
      then show "I m' \<and> phase_of m' i = ?ph \<or> I m' \<and> req_rank (phase_of m' i) < req_rank ?ph"
        using s keep [OF s(1)] req_moves_rank [of c i m m'] by (cases "phase_of m' i = phase_of m i") simp_all
    next
      fix m assume "I m \<and> phase_of m i = ?ph"
      then show "\<exists>m'. advances c i m m'" using I False by (intro advances_enabled) auto
    next
      fix m m' assume a: "advances c i m m'" "I m \<and> phase_of m i = ?ph"
      then have s: "mux_step c m m'" "phase_of m' i \<noteq> phase_of m i" by (simp_all add: advances_def)
      then have "req_moves c i m m'" using a mux_step_moves I by blast
      with s a keep [OF s(1)] show "I m' \<and> req_rank (phase_of m' i) < req_rank ?ph" using req_moves_rank [of c i m m'] by simp
    qed
    then obtain k where k: "n \<le> k" "I (\<sigma> k)" "req_rank (phase_of (\<sigma> k) i) < req_rank ?ph" by blast
    from less.hyps [OF k(3,2)] k(1) show ?thesis by (meson order_trans)
  qed (use less.prems in blast)
qed

text \<open>The frame \<open>msg\<close> is on its way to request \<open>i\<close>, or in its channel; or the request has ended, with it or for a reason
  of its own.\<close>

definition answer :: "'k mux_config \<Rightarrow> bytes \<Rightarrow> 'e mux \<Rightarrow> 'e mux_outcome \<Rightarrow> bool" where
  "answer c msg m out \<longleftrightarrow> out = Response msg \<or> out = SendFailed \<or> out = CtxDone \<or> (out = ErrTimeout \<and> 0 < m_timeout c)
     \<or> (out = MuxStopped (closedErr m) \<and> x_done m)"

definition in_hand :: "'k mux_config \<Rightarrow> nat \<Rightarrow> bytes \<Rightarrow> 'e mux \<Rightarrow> bool" where
  "in_hand c i msg m \<longleftrightarrow> i < length (x_reqs m) \<and>
     (case phase_of m i of
        Finished out \<Rightarrow> answer c msg m out
      | Returned out \<Rightarrow> answer c msg m out
      | _ \<Rightarrow> chan_of m i = Some msg)"

definition on_its_way :: "'k mux_config \<Rightarrow> nat \<Rightarrow> bytes \<Rightarrow> 'e mux \<Rightarrow> bool" where
  "on_its_way c i msg m \<longleftrightarrow> i < length (x_reqs m) \<and> x_reader m = Delivering i msg \<and> chan_of m i = None
     \<and> (phase_of m i = Registered \<or> phase_of m i = Waiting)"

lemma answer_step:
  assumes "mux_step c m m'" "answer c msg m out"
  shows "answer c msg m' out"
proof (cases "out = MuxStopped (closedErr m) \<and> x_done m")
  case True
  then show ?thesis using mux_step_done [OF assms(1)] by (simp add: answer_def)
next
  case False
  then show ?thesis using assms(2) unfolding answer_def by blast
qed

lemma ends_answer:
  assumes "mux_step c m m'" "ends_with c m q out" "q_chan q = None \<or> q_chan q = Some msg"
  shows "answer c msg m' out"
proof -
  have "answer c msg m out" using assms(2,3) unfolding ends_with_def answer_def by auto
  with assms(1) show ?thesis by (rule answer_step)
qed

lemma in_hand_step:
  assumes "mux_step c m m'" "in_hand c i msg m"
  shows "in_hand c i msg m'"
proof -
  have m: "i < length (x_reqs m')" "req_change c m i (x_reqs m ! i) (x_reqs m' ! i)"
    using mux_step_moves [OF assms(1), of i] assms(2) by (simp_all add: in_hand_def req_moves_def)
  note ans = answer_step [OF assms(1), of msg] and ends = ends_answer [OF assms(1), of "x_reqs m ! i" _ msg]
  show ?thesis
  proof (cases "phase_of m i")
    case Registered
    then have "chan_of m i = Some msg" using assms(2) by (simp add: in_hand_def)
    with Registered m show ?thesis by (auto simp: in_hand_def req_change_def answer_def)
  next
    case Waiting
    then have c: "chan_of m i = Some msg" using assms(2) by (simp add: in_hand_def)
    with Waiting m(2) consider "phase_of m' i = Waiting" "chan_of m' i = Some msg"
      | out where "phase_of m' i = Finished out" "ends_with c m (x_reqs m ! i) out"
      by (auto simp: req_change_def)
    then show ?thesis using m(1) c ends by cases (simp_all add: in_hand_def)
  next
    case (Finished out)
    then have "answer c msg m out" using assms(2) by (simp add: in_hand_def)
    from ans [OF this] Finished m show ?thesis by (auto simp: in_hand_def req_change_def)
  next
    case (Returned out)
    then have "answer c msg m out" using assms(2) by (simp add: in_hand_def)
    from ans [OF this] Returned m show ?thesis by (auto simp: in_hand_def req_change_def)
  qed
qed

lemma on_its_way_step:
  assumes "mux_step c m m'" "on_its_way c i msg m"
  shows "on_its_way c i msg m' \<or> in_hand c i msg m'" "x_reader m' = Reading \<Longrightarrow> in_hand c i msg m'"
proof -
  have m: "i < length (x_reqs m')" "req_change c m i (x_reqs m ! i) (x_reqs m' ! i)"
    using mux_step_moves [OF assms(1), of i] assms(2) by (simp_all add: on_its_way_def req_moves_def)
  have w: "x_reader m = Delivering i msg" "chan_of m i = None" "phase_of m i = Registered \<or> phase_of m i = Waiting"
    using assms(2) by (simp_all add: on_its_way_def)
  have r: "x_reader m' = Delivering i msg \<or> x_reader m' = Reading \<and> chan_of m' i = Some msg"
    using mux_step_reader [OF assms(1) w(1)] .
  from m(2) w consider "phase_of m' i = Registered \<or> phase_of m' i = Waiting" "chan_of m' i = None \<or> chan_of m' i = Some msg"
    | "phase_of m' i = Finished SendFailed"
    | out where "phase_of m' i = Finished out" "ends_with c m (x_reqs m ! i) out"
    by (auto simp: req_change_def)
  then show "on_its_way c i msg m' \<or> in_hand c i msg m'"
  proof cases
    case 1
    then show ?thesis using m(1) r by (auto simp: on_its_way_def in_hand_def)
  next
    case 2
    then show ?thesis using m(1) by (simp add: in_hand_def answer_def)
  next
    case (3 out)
    then show ?thesis using m(1) w(2) ends_answer [OF assms(1) 3(2), of msg] by (simp add: in_hand_def)
  qed
  then show "x_reader m' = Reading \<Longrightarrow> in_hand c i msg m'" by (simp add: on_its_way_def)
qed

lemma hands_over_enabled:
  assumes "on_its_way c i msg m"
  shows "\<exists>m'. hands_over c m m'"
proof -
  have i: "i < length (x_reqs m)" "x_reader m = Delivering i msg" "chan_of m i = None" using assms by (simp_all add: on_its_way_def)
  obtain as bs where "x_reqs m = as @ (x_reqs m ! i) # bs" "i = length as"
    using id_take_nth_drop [OF i(1)] i(1) by (metis length_take min.absorb4)
  with i mux_step.deliver [of m as msg "x_reqs m ! i" bs c] show ?thesis by (auto simp: hands_over_def)
qed

lemma fair_in_hand:
  assumes "run_of (mux_step c) \<sigma>" "weakly_fair (hands_over c) \<sigma>" "on_its_way c i msg (\<sigma> n)"
  shows "\<exists>k\<ge>n. in_hand c i msg (\<sigma> k)"
proof (rule fair_leads_to [OF assms(1,2), where P = "on_its_way c i msg"])
  fix m m'
  show "on_its_way c i msg m \<Longrightarrow> \<exists>m'. hands_over c m m'" by (rule hands_over_enabled)
  show "mux_step c m m' \<Longrightarrow> on_its_way c i msg m \<Longrightarrow> on_its_way c i msg m' \<or> in_hand c i msg m'" by (rule on_its_way_step(1))
  show "hands_over c m m' \<Longrightarrow> on_its_way c i msg m \<Longrightarrow> in_hand c i msg m'"
    unfolding hands_over_def by (elim conjE) (rule on_its_way_step(2))
qed (rule assms(3))


subsection \<open>The deferred deletion\<close>

text \<open>The run in which a second request registers under the key of a first one that has its response but has not
  yet run its deferred deletion.\<close>

definition run_reqs :: "bytes \<Rightarrow> bytes \<Rightarrow> bytes \<Rightarrow> 'e req_phase \<Rightarrow> 'e req_phase \<Rightarrow> 'e request list" where
  "run_reqs k req req' a b = [\<lparr>q_key = k, q_frame = req, q_chan = None, q_phase = a\<rparr>, \<lparr>q_key = k, q_frame = req', q_chan = None, q_phase = b\<rparr>]"

lemma first_answered:
  assumes "m_key c req = Inr k" "responseKey c msg = Inr k"
  shows "mux_reach c (mux_New\<lparr>x_reqs := [\<lparr>q_key = k, q_frame = req, q_chan = None, q_phase = Finished (Response msg)\<rparr>],
    x_sent := [req], x_frames := [msg]\<rparr> :: 'e mux)"
proof -
  let ?q = "\<lambda>ch ph. \<lparr>q_key = k, q_frame = req, q_chan = ch, q_phase = ph\<rparr> :: 'e request"
  let ?m = "\<lambda>p ch ph rd snt fs. \<lparr>x_pending = p, x_reqs = [?q ch ph], x_reader = rd, x_done = False, x_err = None,
     x_sent = snt, x_frames = fs, x_unmatched = []\<rparr> :: 'e mux"
  have "mux_step c mux_New (?m [k \<mapsto> 0] None Registered Reading [] [])"
    by (rule mux_step.request [of _ req]) (simp add: register_def assms mux_New_def)
  moreover have "mux_step c (?m [k \<mapsto> 0] None Registered Reading [] []) (?m [k \<mapsto> 0] None Waiting Reading [req] [])"
    using mux_step.send_ok [of "?m [k \<mapsto> 0] None Registered Reading [] []" "[]" "?q None Registered" "[]" c] by simp
  moreover have "mux_step c (?m [k \<mapsto> 0] None Waiting Reading [req] []) (?m Map.empty None Waiting (Delivering 0 msg) [req] [msg])"
    using mux_step.frame [of "?m [k \<mapsto> 0] None Waiting Reading [req] []" c msg] assms(2) by (simp add: receive_frame_def)
  moreover have "mux_step c (?m Map.empty None Waiting (Delivering 0 msg) [req] [msg]) (?m Map.empty (Some msg) Waiting Reading [req] [msg])"
    using mux_step.deliver [of "?m Map.empty None Waiting (Delivering 0 msg) [req] [msg]" "[]" msg "?q None Waiting" "[]" c] by simp
  moreover have "mux_step c (?m Map.empty (Some msg) Waiting Reading [req] [msg]) (?m Map.empty None (Finished (Response msg)) Reading [req] [msg])"
    using mux_step.response [of "?m Map.empty (Some msg) Waiting Reading [req] [msg]" "[]" "?q (Some msg) Waiting" "[]" msg c]
    by (simp add: finish_def)
  ultimately have "mux_reach c (?m Map.empty None (Finished (Response msg)) Reading [req] [msg])"
    by (meson mux_reach.new mux_reach.step)
  then show ?thesis by (simp add: mux_New_def)
qed

text \<open>C34: A request can lose its registration to the deferred deletion of an earlier request with the same key: there
  is a run in which the first request has returned its response, the second is waiting with nothing given to it and its
  frame sent, the multiplexer is live, and yet the key is not registered, so the second request's response is passed to
  the unsolicited handler.\<close>

theorem mux_stale_deletion:
  assumes "m_key c req = Inr k" "m_key c req' = Inr k" "responseKey c msg = Inr k"
  shows "\<exists>m :: 'e mux. mux_reach c m \<and> x_reqs m = run_reqs k req req' (Returned (Response msg)) Waiting \<and> \<not> x_done m \<and> x_sent m = [req, req']
      \<and> (\<forall>resp. responseKey c resp = Inr k \<longrightarrow> x_unmatched (receive_frame c resp m) = [resp])"
proof -
  let ?m = "\<lambda>p a b snt. \<lparr>x_pending = p, x_reqs = run_reqs k req req' a b, x_reader = Reading, x_done = False, x_err = None,
     x_sent = snt, x_frames = [msg], x_unmatched = []\<rparr> :: 'e mux"
  let ?f = "Finished (Response msg)"
  have s1: "mux_step c (mux_New\<lparr>x_reqs := [\<lparr>q_key = k, q_frame = req, q_chan = None, q_phase = ?f\<rparr>], x_sent := [req], x_frames := [msg]\<rparr>)
      (?m [k \<mapsto> 1] ?f Registered [req])"
    by (rule mux_step.request [of _ req']) (simp add: register_def assms mux_New_def run_reqs_def)
  have s2: "mux_step c (?m [k \<mapsto> 1] ?f Registered [req]) (?m [k \<mapsto> 1] ?f Waiting [req, req'])"
    using mux_step.send_ok [of "?m [k \<mapsto> 1] ?f Registered [req]" "[\<lparr>q_key = k, q_frame = req, q_chan = None, q_phase = ?f\<rparr>]"
      "\<lparr>q_key = k, q_frame = req', q_chan = None, q_phase = Registered\<rparr>" "[]" c] by (simp add: run_reqs_def)
  have s3: "mux_step c (?m [k \<mapsto> 1] ?f Waiting [req, req']) (?m Map.empty (Returned (Response msg)) Waiting [req, req'])"
    using mux_step.deferred [of "?m [k \<mapsto> 1] ?f Waiting [req, req']" "[]" "\<lparr>q_key = k, q_frame = req, q_chan = None, q_phase = ?f\<rparr>"
      "[\<lparr>q_key = k, q_frame = req', q_chan = None, q_phase = Waiting\<rparr>]" "Response msg" c] by (simp add: run_reqs_def)
  from mux_reach.step [OF mux_reach.step [OF mux_reach.step [OF first_answered [OF assms(1,3)] s1] s2] s3]
  have "mux_reach c (?m Map.empty (Returned (Response msg)) Waiting [req, req'])" .
  then show ?thesis
    by (intro exI [of _ "?m Map.empty (Returned (Response msg)) Waiting [req, req']"]) (simp add: receive_frame_def deliverUnsolicited_def)
qed

subsection \<open>Instances\<close>

text \<open>Frames correlated by their first byte.\<close>

definition demo_mux :: "unit mux_config" where
  "demo_mux = \<lparr>m_key = (\<lambda>msg. case msg of x # xs \<Rightarrow> Inr [x] | [] \<Rightarrow> Inl ()), m_respKey = None, m_timeout = 0\<rparr>"

theorem mux_stale_deletion_witness:
  "\<exists>m :: unit mux. mux_reach demo_mux m \<and> x_reqs m = run_reqs [7] [7, 1] [7, 2] (Returned (Response [7, 8])) Waiting"
  using mux_stale_deletion [of demo_mux "[7, 1]" "[7]" "[7, 2]" "[7, 8]"] by (auto simp: demo_mux_def responseKey_def)

lemma demo_mux_reach: "mux_reach demo_mux (mux_New\<lparr>x_reqs := [\<lparr>q_key = [7], q_frame = [7, 1], q_chan = None,
    q_phase = Finished (Response [7, 8])\<rparr>], x_sent := [[7, 1]], x_frames := [[7, 8]]\<rparr> :: unit mux)"
  by (rule first_answered) (simp_all add: demo_mux_def responseKey_def)

theorem mux_correlates_witness:
  "\<exists>m :: unit mux. mux_reach demo_mux m \<and> mset (x_frames m) = mset (x_unmatched m) + mset (carried (x_reader m)) + mset (concat (map given (x_reqs m)))
     \<and> x_frames m = [[7, 8]]"
  using mux_correlates [OF demo_mux_reach] demo_mux_reach by (intro exI conjI) (assumption, blast, simp)

text \<open>A request that registers, sends, is sent its response by the reader, takes it and returns; then nothing more happens.\<close>

definition demo_mux_state :: "(bytes \<rightharpoonup> nat) \<Rightarrow> bytes option \<Rightarrow> unit req_phase \<Rightarrow> reader \<Rightarrow> bytes list \<Rightarrow> bytes list \<Rightarrow> unit mux" where
  "demo_mux_state p ch ph rd snt fs = \<lparr>x_pending = p, x_reqs = [\<lparr>q_key = [7], q_frame = [7, 1], q_chan = ch, q_phase = ph\<rparr>], x_reader = rd,
     x_done = False, x_err = None, x_sent = snt, x_frames = fs, x_unmatched = []\<rparr>"

definition demo_mux_states :: "unit mux list" where
  "demo_mux_states =
     [demo_mux_state [[7] \<mapsto> 0] None Registered Reading [] [],
      demo_mux_state [[7] \<mapsto> 0] None Waiting Reading [[7, 1]] [],
      demo_mux_state Map.empty None Waiting (Delivering 0 [7, 8]) [[7, 1]] [[7, 8]],
      demo_mux_state Map.empty (Some [7, 8]) Waiting Reading [[7, 1]] [[7, 8]],
      demo_mux_state Map.empty None (Finished (Response [7, 8])) Reading [[7, 1]] [[7, 8]],
      demo_mux_state Map.empty None (Returned (Response [7, 8])) Reading [[7, 1]] [[7, 8]]]"

abbreviation demo_mux_run :: "nat \<Rightarrow> unit mux" where
  "demo_mux_run \<equiv> run_through demo_mux_states"

lemma demo_mux_run: "run_of (mux_step demo_mux) demo_mux_run" "mux_reach demo_mux (demo_mux_run 0)"
proof -
  let ?q = "\<lambda>ch ph. \<lparr>q_key = [7], q_frame = [7, 1], q_chan = ch, q_phase = ph\<rparr> :: unit request"
  note st = demo_mux_state_def
  have "mux_step demo_mux (demo_mux_state [[7] \<mapsto> 0] None Registered Reading [] []) (demo_mux_state [[7] \<mapsto> 0] None Waiting Reading [[7, 1]] [])"
    using mux_step.send_ok [of "demo_mux_state [[7] \<mapsto> 0] None Registered Reading [] []" "[]" "?q None Registered" "[]" demo_mux] by (simp add: st)
  moreover have "mux_step demo_mux (demo_mux_state [[7] \<mapsto> 0] None Waiting Reading [[7, 1]] [])
      (demo_mux_state Map.empty None Waiting (Delivering 0 [7, 8]) [[7, 1]] [[7, 8]])"
    using mux_step.frame [of "demo_mux_state [[7] \<mapsto> 0] None Waiting Reading [[7, 1]] []" demo_mux "[7, 8]"]
    by (simp add: st receive_frame_def responseKey_def demo_mux_def)
  moreover have "mux_step demo_mux (demo_mux_state Map.empty None Waiting (Delivering 0 [7, 8]) [[7, 1]] [[7, 8]])
      (demo_mux_state Map.empty (Some [7, 8]) Waiting Reading [[7, 1]] [[7, 8]])"
    using mux_step.deliver [of "demo_mux_state Map.empty None Waiting (Delivering 0 [7, 8]) [[7, 1]] [[7, 8]]" "[]" "[7, 8]" "?q None Waiting" "[]" demo_mux]
    by (simp add: st)
  moreover have "mux_step demo_mux (demo_mux_state Map.empty (Some [7, 8]) Waiting Reading [[7, 1]] [[7, 8]])
      (demo_mux_state Map.empty None (Finished (Response [7, 8])) Reading [[7, 1]] [[7, 8]])"
    using mux_step.response [of "demo_mux_state Map.empty (Some [7, 8]) Waiting Reading [[7, 1]] [[7, 8]]" "[]" "?q (Some [7, 8]) Waiting" "[]" "[7, 8]" demo_mux]
    by (simp add: st finish_def)
  moreover have "mux_step demo_mux (demo_mux_state Map.empty None (Finished (Response [7, 8])) Reading [[7, 1]] [[7, 8]])
      (demo_mux_state Map.empty None (Returned (Response [7, 8])) Reading [[7, 1]] [[7, 8]])"
    using mux_step.deferred [of "demo_mux_state Map.empty None (Finished (Response [7, 8])) Reading [[7, 1]] [[7, 8]]" "[]" "?q None (Finished (Response [7, 8]))" "[]"
      "Response [7, 8]" demo_mux] by (simp add: st)
  ultimately have "\<forall>i. Suc i < length demo_mux_states \<longrightarrow> mux_step demo_mux (demo_mux_states ! i) (demo_mux_states ! Suc i)"
    by (auto simp: demo_mux_states_def less_Suc_eq)
  then show "run_of (mux_step demo_mux) demo_mux_run" by (rule run_through_run)
  have "mux_step demo_mux mux_New (demo_mux_state [[7] \<mapsto> 0] None Registered Reading [] [])"
    by (rule mux_step.request [of _ "[7, 1]"]) (simp add: register_def demo_mux_def mux_New_def st)
  then show "mux_reach demo_mux (demo_mux_run 0)"
    using mux_reach.step [OF mux_reach.new] by (simp add: run_through_def demo_mux_states_def)
qed

lemma demo_mux_fair: "weakly_fair (advances demo_mux 0) demo_mux_run" "weakly_fair (hands_over demo_mux) demo_mux_run"
proof -
  have fin: "demo_mux_run k = demo_mux_state Map.empty None (Returned (Response [7, 8])) Reading [[7, 1]] [[7, 8]]" if "6 \<le> k" for k
    using that by (simp add: run_through_last demo_mux_states_def)
  have "\<not> advances demo_mux 0 (demo_mux_run k) m'" if "6 \<le> k" for k m'
    using mux_step_moves [of demo_mux "demo_mux_run k" m' 0] fin [OF that] by (auto simp: advances_def demo_mux_state_def req_moves_def req_change_def)
  then show "weakly_fair (advances demo_mux 0) demo_mux_run" by (intro weakly_fair_final [of 6]) blast
  have "\<not> hands_over demo_mux (demo_mux_run k) m'" if "6 \<le> k" for k m'
    using fin [OF that] by (simp add: hands_over_def demo_mux_state_def)
  then show "weakly_fair (hands_over demo_mux) demo_mux_run" by (intro weakly_fair_final [of 6]) blast
qed


end
