(* ===== verification/Correlation.thy ===== *)
theory Correlation
  imports Mux Validate
begin

text \<open>
  The standard correlation key, \<^verbatim>\<open>FieldKeyer\<close> of \<^verbatim>\<open>src/mux/mux.go\<close>, over the message engine: a frame is
  parsed and the text of the correlation elements is joined. Here the multiplexer and the engine meet: a
  response built with the same correlation elements as a request has the same key on the wire.
\<close>

datatype keyer_error = KeyParse error | KeyAbsent int | KeyText error

text \<open>The loop over the elements; reading an element may decode it in place, so the message is passed on.\<close>

fun key_parts :: "message \<Rightarrow> int list \<Rightarrow> keyer_error + bytes list" where
  "key_parts m [] = Inr []"
| "key_parts m (de # des) =
     (case Get m de of
        (m', None) \<Rightarrow> Inl (KeyAbsent de)
      | (m', Some v) \<Rightarrow> (case value_String v of
            Inl e \<Rightarrow> Inl (KeyText e)
          | Inr s \<Rightarrow> (case key_parts m' des of Inl e \<Rightarrow> Inl e | Inr ss \<Rightarrow> Inr (s # ss))))"

fun join_bar :: "bytes list \<Rightarrow> bytes" where
  "join_bar [] = []"
| "join_bar [s] = s"
| "join_bar (s # t # ss) = s @ 124 # join_bar (t # ss)"

definition FieldKeyer :: "codec \<Rightarrow> int list \<Rightarrow> keyer_error keyer" where
  "FieldKeyer c des msg =
     (case Unmarshal c msg of
        Inl e \<Rightarrow> Inl (KeyParse e)
      | Inr m \<Rightarrow> (case key_parts m des of Inl e \<Rightarrow> Inl e | Inr ss \<Rightarrow> Inr (join_bar ss)))"

lemma key_parts_reads:
  "\<forall>de \<in> set des. \<exists>v. snd (Get m de) = Some v \<and> value_String v = Inr (b de) \<Longrightarrow> key_parts m des = Inr (map b des)"
proof (induction des arbitrary: m)
  case (Cons de des)
  obtain m' v where g: "Get m de = (m', Some v)" "value_String v = Inr (b de)" using Cons.prems by (cases "Get m de") auto
  have "snd (Get m' e) = snd (Get m e)" for e using same_reads_Get [of m de] g by (simp add: same_reads_def)
  with Cons have "key_parts m' des = Inr (map b des)" by simp
  with g show ?case by simp
qed simp

text \<open>Joining is unambiguous for parts without the separator.\<close>

lemma bar_split: "124 \<notin> set s \<Longrightarrow> 124 \<notin> set t \<Longrightarrow> s @ 124 # x = t @ 124 # y \<longleftrightarrow> s = t \<and> x = y"
proof (induction s arbitrary: t)
  case Nil
  then show ?case by (cases t) auto
next
  case (Cons a s)
  then show ?case by (cases t) auto
qed

lemma join_bar_inject:
  "length ss = length ts \<Longrightarrow> \<forall>s \<in> set ss \<union> set ts. 124 \<notin> set s \<Longrightarrow> join_bar ss = join_bar ts \<longleftrightarrow> ss = ts"
proof (induction ss ts rule: list_induct2)
  case (Cons s ss t ts)
  then show ?case by (cases ss; cases ts) (auto simp: bar_split)
qed simp

lemma join_bar_ambiguous: "join_bar [[65, 124], [66]] = join_bar [[65], [124, 66]]"
  by simp

text \<open>A built message that can be sent, with the canonical bytes \<open>b\<close> of its elements.\<close>

definition ready :: "schema \<Rightarrow> message \<Rightarrow> (int \<Rightarrow> bytes) \<Rightarrow> bool" where
  "ready s m b \<longleftrightarrow> built s m \<and> Has m 0 = (mti s \<noteq> None)
     \<and> (\<forall>de. 1 \<le> de \<and> Has m de \<longrightarrow> is_data de \<and> de \<le> 64 * Levels (bitmap_of s))
     \<and> (\<forall>de v. snd (Get m de) = Some v \<longrightarrow> (\<exists>def. Field s de = Some def \<and> elem_ok def v (b de)))"

definition sendable_schema :: "schema \<Rightarrow> bool" where
  "sendable_schema s \<longleftrightarrow> wf_spans s \<and> BmCodec (bitmap_of s) \<noteq> None \<and> 1 \<le> Levels (bitmap_of s) \<and> Levels (bitmap_of s) \<le> 3"

text \<open>The correlation elements are present and are text, digits or bytes.\<close>

definition key_elems :: "schema \<Rightarrow> int list \<Rightarrow> message \<Rightarrow> bool" where
  "key_elems s des m \<longleftrightarrow> (\<forall>de \<in> set des. snd (Get m de) \<noteq> None
     \<and> (\<exists>def c. Field s de = Some def \<and> Codec def = Some c \<and> codec_Kind c \<in> {KindString, KindNumeric, KindBytes}))"

lemma ready_key:
  assumes "sendable_schema s" "ready s m b" "key_elems s des m"
  shows "\<exists>wire m'. (\<forall>dst. Marshal (NewCodec s os) m dst = Inr (dst @ wire)) \<and> Unmarshal (NewCodec s os) wire = Inr m'
    \<and> FieldKeyer (NewCodec s os) des wire = Inr (join_bar (map b des))"
proof -
  obtain wire m' where w: "\<forall>dst. Marshal (NewCodec s os) m dst = Inr (dst @ wire)" "Unmarshal (NewCodec s os) wire = Inr m'"
      "\<forall>de v. snd (Get m de) = Some v \<longrightarrow> (\<exists>def x. Field s de = Some def \<and> snd (Get m' de) = Some x \<and> same_elem def v (b de) x)"
    using built_parses_back [of s m b os] assms(1,2) unfolding ready_def sendable_schema_def by blast
  have "\<exists>v. snd (Get m' de) = Some v \<and> value_String v = Inr (b de)" if "de \<in> set des" for de
  proof -
    from assms(3) that obtain v def c where d: "snd (Get m de) = Some v" "Field s de = Some def" "Codec def = Some c"
        "codec_Kind c \<in> {KindString, KindNumeric, KindBytes}" by (auto simp: key_elems_def)
    with w(3) obtain x where "snd (Get m' de) = Some x" "same_elem def v (b de) x" by fastforce
    with d show ?thesis by (intro exI [of _ x]) (auto simp: same_elem_def value_String_def)
  qed
  then have "key_parts m' des = Inr (map b des)" by (intro key_parts_reads) blast
  with w(1,2) show ?thesis by (intro exI [of _ wire] exI [of _ m']) (simp add: FieldKeyer_def)
qed

text \<open>C8: The multiplexer over the message engine. Let a request and a response be built messages of one schema with
  the correlation elements present, in text without the separator. Then both marshal; their frames have the same key
  exactly when the canonical values of the correlation elements agree; and when they do, the response's frame, arriving
  while the request waits under its registration, makes the request return exactly that frame.\<close>

theorem exchange_correlates:
  assumes "sendable_schema s" and "ready s rq b" "key_elems s des rq" and "ready s rs b'" "key_elems s des rs"
    and "\<forall>de \<in> set des. 124 \<notin> set (b de) \<and> 124 \<notin> set (b' de)"
    and "c = \<lparr>m_key = FieldKeyer (NewCodec s os) des, m_respKey = None, m_timeout = t\<rparr>"
  shows "\<exists>w w'. Marshal (NewCodec s os) rq [] = Inr w \<and> Marshal (NewCodec s os) rs [] = Inr w'
    \<and> (m_key c w = responseKey c w' \<longleftrightarrow> (\<forall>de \<in> set des. b de = b' de))
    \<and> (\<forall>(m :: 'e mux) i. mux_reach c m \<and> i < length (x_reqs m) \<and> q_frame (x_reqs m ! i) = w \<and> q_phase (x_reqs m ! i) = Waiting
        \<and> x_pending m (q_key (x_reqs m ! i)) = Some i \<and> x_reader m = Reading \<and> (\<forall>de \<in> set des. b de = b' de)
        \<longrightarrow> returns c m i (Response w'))"
proof -
  obtain w where w: "\<forall>dst. Marshal (NewCodec s os) rq dst = Inr (dst @ w)" "FieldKeyer (NewCodec s os) des w = Inr (join_bar (map b des))"
    using ready_key [OF assms(1-3), of os] by blast
  obtain w' where w': "\<forall>dst. Marshal (NewCodec s os) rs dst = Inr (dst @ w')" "FieldKeyer (NewCodec s os) des w' = Inr (join_bar (map b' des))"
    using ready_key [OF assms(1,4,5), of os] by blast
  have key: "m_key c w = responseKey c w' \<longleftrightarrow> (\<forall>de \<in> set des. b de = b' de)"
    using join_bar_inject [of "map b des" "map b' des"] assms(6,7) w(2) w'(2) by (auto simp: responseKey_def)
  have "returns c m i (Response w')" if "mux_reach c m" "i < length (x_reqs m)" "q_frame (x_reqs m ! i) = w" "q_phase (x_reqs m ! i) = Waiting"
      "x_pending m (q_key (x_reqs m ! i)) = Some i" "x_reader m = Reading" "\<forall>de \<in> set des. b de = b' de" for m :: "'e mux" and i
  proof -
    have inv: "mux_inv c m" using that(1) by (rule mux_reach_inv)
    then have "m_key c w = Inr (q_key (x_reqs m ! i))" using that(2,3) by (auto simp: mux_inv_def request_ok_def)
    then show ?thesis using returns_frame [OF inv that(2,5,4,6)] key that(7) by simp
  qed
  with key show ?thesis using w(1) w'(1) by (intro exI [of _ w] exI [of _ w']) simp
qed

theorem exchange_correlates_witness:
  "\<exists>w w'. Marshal (NewCodec demo_schema []) demo_sent [] = Inr w \<and> Marshal (NewCodec demo_schema []) demo_sent [] = Inr w'
    \<and> FieldKeyer (NewCodec demo_schema []) [3] w = FieldKeyer (NewCodec demo_schema []) [3] w'"
proof -
  have s: "sendable_schema demo_schema" using demo_wf by (simp add: sendable_schema_def NewCodec_def demo_fields)
  have "Has demo_sent 0 = (mti demo_schema \<noteq> None)"
      "\<forall>de. 1 \<le> de \<and> Has demo_sent de \<longrightarrow> is_data de \<and> de \<le> 64 * Levels (bitmap_of demo_schema)"
    by (auto simp: demo_sent_Has demo_fields is_data_def contSecondary_def contTertiary_def)
  then have r: "ready demo_schema demo_sent demo_canon" using demo_sent_built demo_sent_elems by (auto simp: ready_def)
  have k: "key_elems demo_schema [3] demo_sent"
    using own_slots_Get [OF built_own [OF demo_sent_built], of 3]
    by (auto simp: key_elems_def demo_sent_Has demo_fields ll_text_def codec_Kind_def)
  from exchange_correlates [OF s r k r k _ refl, of "[]" 0] show ?thesis by (fastforce simp: demo_canon_def responseKey_def)
qed

end
