(* ===== verification/Space.thy ===== *)
theory Space
  imports Prelude Fairness
begin

text \<open>
  The tuple space, \<^verbatim>\<open>src/space/space.go\<close> and \<^verbatim>\<open>src/space/local.go\<close>: what a keyed queue promises, stated once
  as an abstract machine and an interface, and the in-process backend with its blocking readers. The durable
  backend, which keeps the same promise, is in the theory of the store.
\<close>

subsection \<open>Keyed queues\<close>

datatype 'v queue_op = OutOp bytes 'v | InpOp bytes | RdpOp bytes

text \<open>The abstract machine: a key is a first-in first-out queue.\<close>

fun fifo_run :: "(bytes \<Rightarrow> 'v list) \<Rightarrow> 'v queue_op list \<Rightarrow> 'v option list" where
  "fifo_run q [] = []"
| "fifo_run q (OutOp k v # ops) = fifo_run (q(k := q k @ [v])) ops"
| "fifo_run q (InpOp k # ops) = (case q k of [] \<Rightarrow> None # fifo_run q ops | v # vs \<Rightarrow> Some v # fifo_run (q(k := vs)) ops)"
| "fifo_run q (RdpOp k # ops) = (case q k of [] \<Rightarrow> None | v # _ \<Rightarrow> Some v) # fifo_run q ops"

text \<open>The same operations on an implementation, and whether every insertion is within what it can hold.\<close>

fun impl_run ::
  "('s \<Rightarrow> bytes \<Rightarrow> 'v \<Rightarrow> 's) \<Rightarrow> ('s \<Rightarrow> bytes \<Rightarrow> 's \<times> 'v option) \<Rightarrow> ('s \<Rightarrow> bytes \<Rightarrow> 'v option) \<Rightarrow> 's \<Rightarrow> 'v queue_op list \<Rightarrow> 'v option list" where
  "impl_run out inp rdp s [] = []"
| "impl_run out inp rdp s (OutOp k v # ops) = impl_run out inp rdp (out s k v) ops"
| "impl_run out inp rdp s (InpOp k # ops) = (case inp s k of (s', r) \<Rightarrow> r # impl_run out inp rdp s' ops)"
| "impl_run out inp rdp s (RdpOp k # ops) = rdp s k # impl_run out inp rdp s ops"

fun impl_ok :: "('s \<Rightarrow> bytes \<Rightarrow> 'v \<Rightarrow> 's) \<Rightarrow> ('s \<Rightarrow> bytes \<Rightarrow> 's \<times> 'v option) \<Rightarrow> ('s \<Rightarrow> bytes \<Rightarrow> 'v \<Rightarrow> bool) \<Rightarrow> 's \<Rightarrow> 'v queue_op list \<Rightarrow> bool" where
  "impl_ok out inp can s [] \<longleftrightarrow> True"
| "impl_ok out inp can s (OutOp k v # ops) \<longleftrightarrow> can s k v \<and> impl_ok out inp can (out s k v) ops"
| "impl_ok out inp can s (InpOp k # ops) \<longleftrightarrow> impl_ok out inp can (fst (inp s k)) ops"
| "impl_ok out inp can s (RdpOp k # ops) \<longleftrightarrow> impl_ok out inp can s ops"

lemma impl_ok_all: "(\<And>s k v. can s k v) \<Longrightarrow> impl_ok out inp can s ops"
proof (induction ops arbitrary: s)
  case (Cons op ops)
  then show ?case by (cases op) simp_all
qed simp

locale keyed_queue =
  fixes inv :: "'s \<Rightarrow> bool"
    and que :: "'s \<Rightarrow> bytes \<Rightarrow> 'v list"
    and can :: "'s \<Rightarrow> bytes \<Rightarrow> 'v \<Rightarrow> bool"
    and out :: "'s \<Rightarrow> bytes \<Rightarrow> 'v \<Rightarrow> 's"
    and inp :: "'s \<Rightarrow> bytes \<Rightarrow> 's \<times> 'v option"
    and rdp :: "'s \<Rightarrow> bytes \<Rightarrow> 'v option"
  assumes out_inv: "inv s \<Longrightarrow> can s k v \<Longrightarrow> inv (out s k v)"
    and out_que: "inv s \<Longrightarrow> can s k v \<Longrightarrow> que (out s k v) = (que s)(k := que s k @ [v])"
    and inp_inv: "inv s \<Longrightarrow> inv (fst (inp s k))"
    and inp_que: "inv s \<Longrightarrow> que (fst (inp s k)) = (que s)(k := tl (que s k))"
    and inp_head: "inv s \<Longrightarrow> snd (inp s k) = (case que s k of [] \<Rightarrow> None | v # _ \<Rightarrow> Some v)"
    and rdp_head: "inv s \<Longrightarrow> rdp s k = (case que s k of [] \<Rightarrow> None | v # _ \<Rightarrow> Some v)"
begin

lemma run_refines: "inv s \<Longrightarrow> impl_ok out inp can s ops \<Longrightarrow> impl_run out inp rdp s ops = fifo_run (que s) ops"
proof (induction "que s" ops arbitrary: s rule: fifo_run.induct)
  case (2 k v ops)
  then show ?case by (simp add: out_inv out_que)
next
  case (3 k ops)
  have s': "inv (fst (inp s k))" "impl_ok out inp can (fst (inp s k)) ops" using 3 by (simp_all add: inp_inv)
  show ?case
  proof (cases "que s k")
    case Nil
    then have "que (fst (inp s k)) = que s" using 3(3) by (simp add: inp_que fun_upd_idem)
    with Nil 3(1) [OF Nil _ s'] 3(3) show ?thesis by (simp add: inp_head case_prod_beta)
  next
    case (Cons v vs)
    with 3(2) [OF Cons, of "fst (inp s k)"] s' 3(3) show ?thesis by (simp add: inp_que inp_head case_prod_beta)
  qed
qed (simp_all add: rdp_head)

end

subsection \<open>The in-process space\<close>

text \<open>The notification channel is its generation: \<open>signal\<close> closes the current one and makes the next, so the channel
  of an older generation is closed.\<close>

record 'v space =
  lo_data :: "bytes \<rightharpoonup> 'v list"
  lo_notify :: nat
  lo_closed :: bool

definition NewLocal :: "'v space" where
  "NewLocal = \<lparr>lo_data = Map.empty, lo_notify = 0, lo_closed = False\<rparr>"

definition queue_at :: "'v space \<Rightarrow> bytes \<Rightarrow> 'v list" where
  "queue_at l k = (case lo_data l k of None \<Rightarrow> [] | Some q \<Rightarrow> q)"

definition local_signal :: "'v space \<Rightarrow> 'v space" where
  "local_signal l = l\<lparr>lo_notify := lo_notify l + 1\<rparr>"

definition local_Out :: "'v space \<Rightarrow> bytes \<Rightarrow> 'v \<Rightarrow> 'v space" where
  "local_Out l k v = (if lo_closed l then l else local_signal (l\<lparr>lo_data := (lo_data l)(k \<mapsto> queue_at l k @ [v])\<rparr>))"

definition local_pop :: "'v space \<Rightarrow> bytes \<Rightarrow> 'v list \<Rightarrow> 'v space" where
  "local_pop l k q = (let rest = tl q in
     if rest = [] then l\<lparr>lo_data := (lo_data l)(k := None)\<rparr> else l\<lparr>lo_data := (lo_data l)(k \<mapsto> rest)\<rparr>)"

definition local_Inp :: "'v space \<Rightarrow> bytes \<Rightarrow> 'v space \<times> 'v option" where
  "local_Inp l k = (case queue_at l k of [] \<Rightarrow> (l, None) | v # _ \<Rightarrow> (local_pop l k (queue_at l k), Some v))"

definition local_Rdp :: "'v space \<Rightarrow> bytes \<Rightarrow> 'v option" where
  "local_Rdp l k = (case queue_at l k of [] \<Rightarrow> None | v # _ \<Rightarrow> Some v)"

definition local_Len :: "'v space \<Rightarrow> bytes \<Rightarrow> nat" where
  "local_Len l k = length (queue_at l k)"

definition local_Close :: "'v space \<Rightarrow> 'v space" where
  "local_Close l = (if lo_closed l then l else local_signal (l\<lparr>lo_closed := True\<rparr>))"

text \<open>The critical section of \<open>wait\<close>: closed, an entry, or the channel to block on.\<close>

datatype 'v wait_result = WaitClosed | WaitValue 'v | WaitOn nat

definition local_try :: "bool \<Rightarrow> bytes \<Rightarrow> 'v space \<Rightarrow> 'v space \<times> 'v wait_result" where
  "local_try removing k l =
     (if lo_closed l then (l, WaitClosed)
      else case queue_at l k of
        v # _ \<Rightarrow> (if removing then local_pop l k (queue_at l k) else l, WaitValue v)
      | [] \<Rightarrow> (l, WaitOn (lo_notify l)))"

lemma queue_at_pop [simp]: "queue_at (local_pop l k q) k' = (if k' = k then tl q else queue_at l k')"
  by (simp add: local_pop_def queue_at_def Let_def)

lemma queue_at_Out [simp]: "\<not> lo_closed l \<Longrightarrow> queue_at (local_Out l k v) k' = (if k' = k then queue_at l k @ [v] else queue_at l k')"
  by (simp add: local_Out_def local_signal_def queue_at_def)

lemma local_closed [simp]: "lo_closed (local_Out l k v) = lo_closed l" "lo_closed (local_pop l k q) = lo_closed l"
    "lo_closed (fst (local_Inp l k)) = lo_closed l" "lo_closed (fst (local_try t k l)) = lo_closed l"
  by (simp_all add: local_Out_def local_signal_def local_pop_def local_Inp_def local_try_def Let_def split: list.split)

interpretation local_queue: keyed_queue "\<lambda>l. \<not> lo_closed l" queue_at "\<lambda>_ _ _. True" local_Out local_Inp local_Rdp
proof
  fix l :: "'v space" and k
  show "queue_at (fst (local_Inp l k)) = (queue_at l)(k := tl (queue_at l k))"
    by (rule ext) (simp add: local_Inp_def split: list.split)
qed (simp_all add: local_Inp_def local_Rdp_def fun_eq_iff split: list.split)

subsection \<open>Blocking readers\<close>

text \<open>Callers of \<open>In\<close> and \<open>Rd\<close>: about to check, blocked on a channel, or returned. \<open>b_out\<close> and \<open>b_taken\<close> record,
  per key, the entries accepted and the entries taken so far.\<close>

datatype 'v wait_phase = Checking | Blocked nat | WaitDone "'v wait_result" | WaitCancelled

record 'v waiter =
  w_key :: bytes
  w_take :: bool
  w_phase :: "'v wait_phase"

record 'v blocking =
  b_space :: "'v space"
  b_waiters :: "'v waiter list"
  b_out :: "bytes \<Rightarrow> 'v list"
  b_taken :: "bytes \<Rightarrow> 'v list"

text \<open>What a call adds to the entries taken.\<close>

definition add_taken :: "(bytes \<Rightarrow> 'v list) \<Rightarrow> bytes \<Rightarrow> 'v option \<Rightarrow> bytes \<Rightarrow> 'v list" where
  "add_taken tk k r = (case r of None \<Rightarrow> tk | Some v \<Rightarrow> tk(k := tk k @ [v]))"

fun wait_value :: "'v wait_result \<Rightarrow> 'v option" where
  "wait_value (WaitValue v) = Some v"
| "wait_value _ = None"

fun after_try :: "'v wait_result \<Rightarrow> 'v wait_phase" where
  "after_try (WaitOn g) = Blocked g"
| "after_try r = WaitDone r"

inductive space_step :: "'v blocking \<Rightarrow> 'v blocking \<Rightarrow> bool" where
  out: "space_step b (b\<lparr>b_space := local_Out (b_space b) k v,
                       b_out := (if lo_closed (b_space b) then b_out b else (b_out b)(k := b_out b k @ [v]))\<rparr>)"
| inp: "local_Inp (b_space b) k = (l, r) \<Longrightarrow> space_step b (b\<lparr>b_space := l, b_taken := add_taken (b_taken b) k r\<rparr>)"
| close: "space_step b (b\<lparr>b_space := local_Close (b_space b)\<rparr>)"
| call: "space_step b (b\<lparr>b_waiters := b_waiters b @ [\<lparr>w_key = k, w_take = tk, w_phase = Checking\<rparr>]\<rparr>)"
| check: "b_waiters b = as @ w # bs \<Longrightarrow> w_phase w = Checking \<Longrightarrow> local_try (w_take w) (w_key w) (b_space b) = (l, r) \<Longrightarrow>
    space_step b (b\<lparr>b_space := l, b_waiters := as @ w\<lparr>w_phase := after_try r\<rparr> # bs,
      b_taken := (if w_take w then add_taken (b_taken b) (w_key w) (wait_value r) else b_taken b)\<rparr>)"
| wake: "b_waiters b = as @ w # bs \<Longrightarrow> w_phase w = Blocked g \<Longrightarrow> g < lo_notify (b_space b) \<Longrightarrow>
    space_step b (b\<lparr>b_waiters := as @ w\<lparr>w_phase := Checking\<rparr> # bs\<rparr>)"
| cancel: "b_waiters b = as @ w # bs \<Longrightarrow> w_phase w = Blocked g \<Longrightarrow>
    space_step b (b\<lparr>b_waiters := as @ w\<lparr>w_phase := WaitCancelled\<rparr> # bs\<rparr>)"

inductive space_reach :: "'v blocking \<Rightarrow> bool" where
  new: "space_reach \<lparr>b_space = NewLocal, b_waiters = [], b_out = (\<lambda>_. []), b_taken = (\<lambda>_. [])\<rparr>"
| step: "space_reach b \<Longrightarrow> space_step b b' \<Longrightarrow> space_reach b'"

definition no_lost_wakeup :: "'v blocking \<Rightarrow> bool" where
  "no_lost_wakeup b \<longleftrightarrow> (\<forall>w \<in> set (b_waiters b). \<forall>g. w_phase w = Blocked g \<longrightarrow>
     g < lo_notify (b_space b) \<or> (g = lo_notify (b_space b) \<and> queue_at (b_space b) (w_key w) = [] \<and> \<not> lo_closed (b_space b)))"

definition exactly_once :: "'v blocking \<Rightarrow> bool" where
  "exactly_once b \<longleftrightarrow> (\<forall>k. b_out b k = b_taken b k @ queue_at (b_space b) k)"

lemma local_try_outcome:
  "local_try tk k l = (l', r) \<Longrightarrow> lo_notify l' = lo_notify l \<and> lo_closed l' = lo_closed l
    \<and> (\<forall>k'. queue_at l k' = [] \<longrightarrow> queue_at l' k' = [])
    \<and> (\<forall>g. r = WaitOn g \<longrightarrow> g = lo_notify l \<and> queue_at l' k = [] \<and> \<not> lo_closed l)"
  by (auto simp: local_try_def local_pop_def Let_def queue_at_def split: list.splits if_splits)

lemma local_Inp_outcome:
  "local_Inp l k = (l', r) \<Longrightarrow> lo_notify l' = lo_notify l \<and> lo_closed l' = lo_closed l \<and> (\<forall>k'. queue_at l k' = [] \<longrightarrow> queue_at l' k' = [])"
  by (auto simp: local_Inp_def local_pop_def Let_def queue_at_def split: list.splits if_splits)

lemma no_lost_wakeup_step: "space_step b b' \<Longrightarrow> no_lost_wakeup b \<Longrightarrow> no_lost_wakeup b'"
proof (induction rule: space_step.induct)
  case (out b k v)
  then show ?case by (auto simp: no_lost_wakeup_def local_Out_def local_signal_def less_Suc_eq)
next
  case (inp b k l r)
  then show ?case using local_Inp_outcome [OF inp(1)] by (auto simp: no_lost_wakeup_def)
next
  case (close b)
  then show ?case by (auto simp: no_lost_wakeup_def local_Close_def local_signal_def less_Suc_eq)
next
  case (check b as w bs l r)
  then show ?case using local_try_outcome [OF check(3)] by (cases r) (auto simp: no_lost_wakeup_def)
qed (auto simp: no_lost_wakeup_def)

lemma exactly_once_step: "space_step b b' \<Longrightarrow> exactly_once b \<Longrightarrow> exactly_once b'"
proof (induction rule: space_step.induct)
  case (out b k v)
  then show ?case by (simp add: exactly_once_def) (simp add: local_Out_def)
next
  case (inp b k l r)
  then show ?case by (auto simp: exactly_once_def local_Inp_def add_taken_def split: list.splits)
next
  case (close b)
  then show ?case by (simp add: exactly_once_def local_Close_def local_signal_def queue_at_def)
next
  case (check b as w bs l r)
  then show ?case by (auto simp: exactly_once_def local_try_def add_taken_def split: list.splits if_splits)
qed (simp_all add: exactly_once_def)

lemma space_reach_inv: "space_reach b \<Longrightarrow> no_lost_wakeup b \<and> exactly_once b"
proof (induction rule: space_reach.induct)
  case new
  show ?case by (simp add: no_lost_wakeup_def exactly_once_def NewLocal_def queue_at_def)
qed (simp add: no_lost_wakeup_step exactly_once_step)

subsection \<open>Properties\<close>

text \<open>C26: In every reachable state of the space, under any interleaving of writers, takers, blocked readers and
  \<open>Close\<close>: the entries accepted under a key are exactly the entries taken from it followed by those still queued, in
  that order, so each is delivered once and first in first out; and a reader blocked on a channel that is not closed
  yet has nothing to read, so no wakeup is lost.\<close>

theorem space_exactly_once:
  assumes "space_reach b"
  shows "(\<forall>k. b_out b k = b_taken b k @ queue_at (b_space b) k)
    \<and> (\<forall>w \<in> set (b_waiters b). \<forall>g. w_phase w = Blocked g \<and> (queue_at (b_space b) (w_key w) \<noteq> [] \<or> lo_closed (b_space b)) \<longrightarrow>
        g < lo_notify (b_space b))"
  using space_reach_inv [OF assms] by (auto simp: exactly_once_def no_lost_wakeup_def)

subsection \<open>Blocked readers are served\<close>

abbreviation wphase :: "'v blocking \<Rightarrow> nat \<Rightarrow> 'v wait_phase" where
  "wphase b i \<equiv> w_phase (b_waiters b ! i)"

text \<open>What a step does to waiter number \<open>i\<close>. It returns only by its own check, and then with the head of its key's queue,
  which it takes if it is an \<open>In\<close>, or because the space is closed.\<close>

definition returns_entry :: "'v blocking \<Rightarrow> nat \<Rightarrow> 'v blocking \<Rightarrow> bool" where
  "returns_entry b i b' \<longleftrightarrow>
     (let w = b_waiters b ! i; q = queue_at (b_space b) (w_key w) in
      if lo_closed (b_space b) then wphase b' i = WaitDone WaitClosed \<and> b_space b' = b_space b
      else q \<noteq> [] \<and> wphase b' i = WaitDone (WaitValue (hd q))
        \<and> queue_at (b_space b') = (if w_take w then (queue_at (b_space b))(w_key w := tl q) else queue_at (b_space b)))"

definition waiter_moves :: "nat \<Rightarrow> 'v blocking \<Rightarrow> 'v blocking \<Rightarrow> bool" where
  "waiter_moves i b b' \<longleftrightarrow> i < length (b_waiters b') \<and> w_key (b_waiters b' ! i) = w_key (b_waiters b ! i)
     \<and> (wphase b' i = wphase b i
        \<or> (\<exists>g. wphase b i = Checking \<and> wphase b' i = Blocked g \<and> queue_at (b_space b) (w_key (b_waiters b ! i)) = [] \<and> \<not> lo_closed (b_space b))
        \<or> (wphase b i = Checking \<and> returns_entry b i b')
        \<or> (\<exists>g. wphase b i = Blocked g \<and> (wphase b' i = WaitCancelled \<or> wphase b' i = Checking)))"

lemma waiter_replaced:
  assumes "b_waiters b = as @ w # bs" "b_waiters b' = as @ w' # bs" "w_key w' = w_key w" "i < length (b_waiters b)"
    and "i = length as \<Longrightarrow> waiter_moves i b b'"
  shows "waiter_moves i b b'"
proof (cases "i = length as")
  case False
  then have "(as @ w' # bs) ! i = (as @ w # bs) ! i" by (auto simp: nth_append nth_Cons split: nat.split)
  with assms show ?thesis by (simp add: waiter_moves_def)
qed (rule assms(5))

lemma waiter_same: "b_waiters b' = b_waiters b @ ws \<Longrightarrow> i < length (b_waiters b) \<Longrightarrow> waiter_moves i b b'"
  by (simp add: waiter_moves_def nth_append)

lemma queue_at_pop_fun: "queue_at (local_pop l k q) = (queue_at l)(k := tl q)"
  by (rule ext) simp

lemma space_step_moves: "space_step b b' \<Longrightarrow> i < length (b_waiters b) \<Longrightarrow> waiter_moves i b b'"
proof (induction rule: space_step.induct)
  case (check b as w bs l r)
  show ?case
  proof (rule waiter_replaced [OF check(1), where w' = "w\<lparr>w_phase := after_try r\<rparr>"])
    assume i: "i = length as"
    let ?b = "b\<lparr>b_space := l, b_waiters := as @ w\<lparr>w_phase := after_try r\<rparr> # bs,
      b_taken := (if w_take w then add_taken (b_taken b) (w_key w) (wait_value r) else b_taken b)\<rparr>"
    have w: "b_waiters b ! i = w" "b_waiters ?b ! i = w\<lparr>w_phase := after_try r\<rparr>" using check(1) i by simp_all
    show "waiter_moves i b ?b"
    proof (cases r)
      case (WaitOn g)
      then have "queue_at (b_space b) (w_key w) = []" "\<not> lo_closed (b_space b)"
        using check(3) by (auto simp: local_try_def split: if_splits list.splits)
      then show ?thesis using check(1,2) i w WaitOn by (simp add: waiter_moves_def)
    next
      case WaitClosed
      then have "returns_entry b i ?b"
        using check(3) w by (auto simp: local_try_def returns_entry_def split: if_splits list.splits)
      then show ?thesis using check(1,2) i w by (simp add: waiter_moves_def)
    next
      case (WaitValue v)
      then have "returns_entry b i ?b"
        using check(3) w by (auto simp: local_try_def returns_entry_def queue_at_pop_fun split: if_splits list.splits)
      then show ?thesis using check(1,2) i w by (simp add: waiter_moves_def)
    qed
  qed (use check(4) in simp_all)
next
  case (wake b as w bs g)
  show ?case by (rule waiter_replaced [OF wake(1), where w' = "w\<lparr>w_phase := Checking\<rparr>"]) (use wake in \<open>simp_all add: waiter_moves_def\<close>)
next
  case (cancel b as w bs g)
  show ?case by (rule waiter_replaced [OF cancel(1), where w' = "w\<lparr>w_phase := WaitCancelled\<rparr>"]) (use cancel in \<open>simp_all add: waiter_moves_def\<close>)
next
  case (call b k tk)
  then show ?case by (intro waiter_same) simp_all
qed (intro waiter_same [where ws = "[]"], simp, assumption)+

text \<open>The fair steps of waiter number \<open>i\<close>: waking up when its channel is closed, and the check. The end of its context is
  not one of them.\<close>

definition waiter_acts :: "nat \<Rightarrow> 'v blocking \<Rightarrow> 'v blocking \<Rightarrow> bool" where
  "waiter_acts i b b' \<longleftrightarrow> space_step b b' \<and> i < length (b_waiters b) \<and> wphase b' i \<noteq> wphase b i \<and> wphase b' i \<noteq> WaitCancelled"

fun wait_over :: "'v wait_phase \<Rightarrow> bool" where
  "wait_over (WaitDone _) = True" | "wait_over WaitCancelled = True" | "wait_over _ = False"

fun wait_rank :: "'v wait_phase \<Rightarrow> nat" where
  "wait_rank (Blocked _) = 2" | "wait_rank Checking = 1" | "wait_rank _ = 0"

text \<open>The waiter's key has an entry, or the space is closed.\<close>

definition servable :: "nat \<Rightarrow> 'v blocking \<Rightarrow> bool" where
  "servable i b \<longleftrightarrow> queue_at (b_space b) (w_key (b_waiters b ! i)) \<noteq> [] \<or> lo_closed (b_space b)"

lemma waiter_enabled:
  assumes "no_lost_wakeup b" "i < length (b_waiters b)" "servable i b" "\<not> wait_over (wphase b i)"
  shows "\<exists>b'. waiter_acts i b b'"
proof -
  let ?w = "b_waiters b ! i"
  obtain as bs where w: "b_waiters b = as @ ?w # bs" and i: "i = length as"
    using id_take_nth_drop [OF assms(2)] assms(2) by (metis length_take min.absorb4)
  show ?thesis
  proof (cases "wphase b i")
    case Checking
    obtain l r where t: "local_try (w_take ?w) (w_key ?w) (b_space b) = (l, r)" by (cases "local_try (w_take ?w) (w_key ?w) (b_space b)")
    then have "after_try r = WaitDone r" using assms(3) by (cases r) (auto simp: servable_def local_try_def split: list.splits if_splits)
    then show ?thesis
      using space_step.check [OF w Checking t] Checking assms(2) i by (auto simp: waiter_acts_def)
  next
    case (Blocked g)
    have "?w \<in> set (b_waiters b)" using assms(2) by simp
    then have "g < lo_notify (b_space b)" using assms(1,3) Blocked unfolding no_lost_wakeup_def servable_def by blast
    from space_step.wake [OF w Blocked this] show ?thesis using Blocked assms(2) i by (auto simp: waiter_acts_def)
  qed (use assms(4) in simp_all)
qed

lemma waiter_moves_rank:
  "waiter_moves i b b' \<Longrightarrow> servable i b \<Longrightarrow> wphase b' i \<noteq> wphase b i \<Longrightarrow> wait_rank (wphase b' i) < wait_rank (wphase b i)"
  by (auto simp: waiter_moves_def servable_def returns_entry_def Let_def split: if_splits)

text \<open>In a fair run, a waiter that stays servable is over.\<close>

lemma fair_wait_over:
  assumes "run_of space_step \<sigma>" "weakly_fair (waiter_acts i) \<sigma>" "space_reach (\<sigma> 0)"
    and "i < length (b_waiters (\<sigma> n))" "\<forall>k\<ge>n. servable i (\<sigma> k)"
  shows "\<exists>k\<ge>n. wait_over (wphase (\<sigma> k) i)"
  using assms(4,5)
proof (induction "wait_rank (wphase (\<sigma> n) i)" arbitrary: n rule: less_induct)
  case less
  have inv: "no_lost_wakeup (\<sigma> k)" for k
    using run_keeps [where P = space_reach and n = 0, OF assms(1,3) le0] space_reach.step space_reach_inv by blast
  have len: "i < length (b_waiters (\<sigma> k))" if "n \<le> k" for k
    using less.prems(1) that
    by (rule run_keeps [where P = "\<lambda>b. i < length (b_waiters b)", OF assms(1)]) (use space_step_moves in \<open>auto simp: waiter_moves_def\<close>)
  show ?case
  proof (rule ccontr)
    assume no: "\<not> ?case"
    let ?r = "wait_rank (wphase (\<sigma> n) i)"
    have low: "\<not> wait_rank (wphase (\<sigma> k) i) < ?r" if "n \<le> k" for k
    proof
      assume "wait_rank (wphase (\<sigma> k) i) < ?r"
      from less.hyps [OF this len [OF that]] less.prems(2) that no show False by (meson order_trans)
    qed
    have same: "wphase (\<sigma> (Suc k)) i = wphase (\<sigma> k) i" if "n \<le> k" "wphase (\<sigma> k) i = wphase (\<sigma> n) i" for k
    proof (cases "\<sigma> (Suc k) = \<sigma> k")
      case False
      then have "waiter_moves i (\<sigma> k) (\<sigma> (Suc k))" using assms(1) space_step_moves len [OF that(1)] unfolding run_of_def by blast
      then show ?thesis using waiter_moves_rank less.prems(2) that low [of "Suc k"] by (metis le_SucI)
    qed simp
    have ph: "wphase (\<sigma> k) i = wphase (\<sigma> n) i" if "n \<le> k" for k
      using that by (induction rule: dec_induct) (simp_all add: same)
    have "\<exists>b'. waiter_acts i (\<sigma> k) b'" if "n \<le> k" for k
      using that inv len less.prems(2) no by (intro waiter_enabled) auto
    then obtain k where k: "n \<le> k" "waiter_acts i (\<sigma> k) (\<sigma> (Suc k))" using assms(2) unfolding weakly_fair_def by blast
    then show False using ph [of k] ph [of "Suc k"] by (simp add: waiter_acts_def)
  qed
qed

text \<open>C27: A blocked reader is served. In every run of the space in which the reader's own steps, waking on its closed
  channel and checking, are not postponed for ever: if from some point on, as long as it is waiting, its key has an entry or
  the space is closed, the call ends after finitely many steps: its context ends, or by a check of its own it returns the entry at the
  head of its key's queue, which is taken off the queue if the call is an \<open>In\<close> and stays if it is a \<open>Rd\<close>, or, if the space is
  closed, the closed error.\<close>

theorem space_unblocks:
  assumes "space_reach (\<sigma> 0)" "run_of space_step \<sigma>" "weakly_fair (waiter_acts i) \<sigma>" "i < length (b_waiters (\<sigma> n))"
    and "\<not> wait_over (w_phase (b_waiters (\<sigma> n) ! i))"
    and "\<forall>k\<ge>n. \<not> wait_over (w_phase (b_waiters (\<sigma> k) ! i)) \<longrightarrow>
      queue_at (b_space (\<sigma> k)) (w_key (b_waiters (\<sigma> n) ! i)) \<noteq> [] \<or> lo_closed (b_space (\<sigma> k))"
  shows "\<exists>k\<ge>n. w_phase (b_waiters (\<sigma> (Suc k)) ! i) = WaitCancelled
    \<or> (let w = b_waiters (\<sigma> k) ! i; q = queue_at (b_space (\<sigma> k)) (w_key w) in
       w_phase w = Checking \<and>
       (if lo_closed (b_space (\<sigma> k)) then w_phase (b_waiters (\<sigma> (Suc k)) ! i) = WaitDone WaitClosed \<and> b_space (\<sigma> (Suc k)) = b_space (\<sigma> k)
        else q \<noteq> [] \<and> w_phase (b_waiters (\<sigma> (Suc k)) ! i) = WaitDone (WaitValue (hd q))
          \<and> queue_at (b_space (\<sigma> (Suc k))) = (if w_take w then (queue_at (b_space (\<sigma> k)))(w_key w := tl q) else queue_at (b_space (\<sigma> k)))))"
proof -
  let ?K = "\<lambda>b. i < length (b_waiters b) \<and> w_key (b_waiters b ! i) = w_key (b_waiters (\<sigma> n) ! i)"
  have key: "?K (\<sigma> k)" if "n \<le> k" for k
  proof (rule run_keeps [where P = ?K, OF assms(2) _ that])
    fix b b' assume "space_step b b'" "?K b"
    then show "?K b'" using space_step_moves [of b b' i] by (simp add: waiter_moves_def)
  qed (use assms(4) in simp)
  have "\<exists>k\<ge>n. wait_over (wphase (\<sigma> k) i)"
  proof (rule ccontr)
    assume no: "\<not> ?thesis"
    have "servable i (\<sigma> k)" if "n \<le> k" for k
    proof -
      have "w_key (b_waiters (\<sigma> k) ! i) = w_key (b_waiters (\<sigma> n) ! i)" using key [OF that] by blast
      with no that assms(6) show ?thesis unfolding servable_def by auto
    qed
    then have "\<forall>k\<ge>n. servable i (\<sigma> k)" by blast
    from fair_wait_over [OF assms(2,3,1,4) this] no show False by blast
  qed
  then obtain k where "n \<le> k" "wait_over (wphase (\<sigma> k) i)" by blast
  from run_change [where D = "\<lambda>b. wait_over (wphase b i)", OF assms(2,5) this]
  obtain j where j: "n \<le> j" "\<not> wait_over (wphase (\<sigma> j) i)" "wait_over (wphase (\<sigma> (Suc j)) i)" "space_step (\<sigma> j) (\<sigma> (Suc j))" by blast
  have "waiter_moves i (\<sigma> j) (\<sigma> (Suc j))" using space_step_moves [OF j(4)] key [OF j(1)] by blast
  then have "wphase (\<sigma> (Suc j)) i = WaitCancelled \<or> wphase (\<sigma> j) i = Checking \<and> returns_entry (\<sigma> j) i (\<sigma> (Suc j))"
    using j(2,3) unfolding waiter_moves_def by (elim conjE disjE exE) simp_all
  then show ?thesis unfolding returns_entry_def Let_def by (intro exI [of _ j] conjI j(1))
qed

text \<open>The in-process space, while it is open, is a keyed queue: any sequence of \<open>Out\<close>, \<open>Inp\<close> and \<open>Rdp\<close> returns
  what the abstract first-in first-out queues return.\<close>

theorem local_refines_fifo:
  assumes "\<not> lo_closed l"
  shows "impl_run local_Out local_Inp local_Rdp l ops = fifo_run (queue_at l) ops"
  using assms by (rule local_queue.run_refines) (simp add: impl_ok_all)

text \<open>A reader of key 1 that blocked before an entry was written.\<close>

definition demo_blocked :: "nat blocking" where
  "demo_blocked = \<lparr>b_space = local_Out NewLocal [1] 5, b_waiters = [\<lparr>w_key = [1], w_take = True, w_phase = Blocked 0\<rparr>],
     b_out = (\<lambda>_. [])([1] := [5]), b_taken = (\<lambda>_. [])\<rparr>"

lemma demo_blocked_reach: "space_reach demo_blocked"
proof -
  let ?b = "\<lambda>ws. \<lparr>b_space = NewLocal, b_waiters = ws, b_out = (\<lambda>_. []), b_taken = (\<lambda>_. [])\<rparr> :: nat blocking"
  let ?w = "\<lambda>ph. \<lparr>w_key = [1], w_take = True, w_phase = ph\<rparr> :: nat waiter"
  have s1: "space_step (?b []) (?b [?w Checking])" using space_step.call [of "?b []" "[1]" True] by simp
  have "local_try True [1] NewLocal = (NewLocal, WaitOn 0)" by (simp add: local_try_def NewLocal_def queue_at_def)
  then have s2: "space_step (?b [?w Checking]) (?b [?w (Blocked 0)])"
    using space_step.check [of "?b [?w Checking]" "[]" "?w Checking" "[]" NewLocal "WaitOn 0"] by (simp add: add_taken_def)
  have s3: "space_step (?b [?w (Blocked 0)]) demo_blocked"
    using space_step.out [of "?b [?w (Blocked 0)]" "[1]" 5] by (simp add: demo_blocked_def NewLocal_def)
  show ?thesis by (rule space_reach.step [OF space_reach.step [OF space_reach.step [OF space_reach.new s1] s2] s3])
qed

theorem space_exactly_once_witness:
  "space_reach demo_blocked \<and> b_out demo_blocked [1] = b_taken demo_blocked [1] @ queue_at (b_space demo_blocked) [1]"
  using space_exactly_once [OF demo_blocked_reach] demo_blocked_reach by blast

text \<open>The run in which that reader wakes up, checks and takes the entry; then nothing more happens.\<close>

definition demo_served :: "nat blocking list" where
  "demo_served =
     [demo_blocked,
      demo_blocked\<lparr>b_waiters := [\<lparr>w_key = [1], w_take = True, w_phase = Checking\<rparr>]\<rparr>,
      demo_blocked\<lparr>b_space := local_pop (b_space demo_blocked) [1] [5],
        b_waiters := [\<lparr>w_key = [1], w_take = True, w_phase = WaitDone (WaitValue 5)\<rparr>], b_taken := (\<lambda>_. [])([1] := [5])\<rparr>]"

lemma demo_served_run: "run_of space_step (run_through demo_served)" "space_reach (run_through demo_served 0)"
proof -
  let ?w = "\<lambda>ph. \<lparr>w_key = [1], w_take = True, w_phase = ph\<rparr> :: nat waiter"
  let ?b1 = "demo_blocked\<lparr>b_waiters := [?w Checking]\<rparr>"
  have s1: "space_step demo_blocked ?b1"
    using space_step.wake [of demo_blocked "[]" "?w (Blocked 0)" "[]" 0]
    by (simp add: demo_blocked_def local_Out_def local_signal_def NewLocal_def)
  have "local_try True [1] (b_space demo_blocked) = (local_pop (b_space demo_blocked) [1] [5], WaitValue 5)"
    by (simp add: local_try_def demo_blocked_def local_Out_def local_signal_def NewLocal_def queue_at_def)
  then have s2: "space_step ?b1 (demo_blocked\<lparr>b_space := local_pop (b_space demo_blocked) [1] [5],
      b_waiters := [?w (WaitDone (WaitValue 5))], b_taken := (\<lambda>_. [])([1] := [5])\<rparr>)"
    using space_step.check [of ?b1 "[]" "?w Checking" "[]" "local_pop (b_space demo_blocked) [1] [5]" "WaitValue 5"]
    by (simp add: add_taken_def) (simp add: demo_blocked_def)
  from s1 s2 have "\<forall>i. Suc i < length demo_served \<longrightarrow> space_step (demo_served ! i) (demo_served ! Suc i)"
    by (auto simp: demo_served_def less_Suc_eq)
  then show "run_of space_step (run_through demo_served)" by (rule run_through_run)
  show "space_reach (run_through demo_served 0)" using demo_blocked_reach by (simp add: run_through_def demo_served_def)
qed

lemma demo_served_last: "2 \<le> k \<Longrightarrow> wait_over (w_phase (b_waiters (run_through demo_served k) ! 0)) \<and> length (b_waiters (run_through demo_served k)) = 1"
  by (cases "k = 2") (simp_all add: run_through_def demo_served_def)

lemma demo_served_fair: "weakly_fair (waiter_acts 0) (run_through demo_served)"
proof (rule weakly_fair_final [of 2], intro allI impI notI)
  fix k b' assume "2 \<le> k" and a: "waiter_acts 0 (run_through demo_served k) b'"
  from demo_served_last [OF this(1)] have "wait_over (wphase (run_through demo_served k) 0)" by blast
  with a space_step_moves [of "run_through demo_served k" b' 0] show False
    by (auto simp: waiter_acts_def waiter_moves_def)
qed

theorem space_unblocks_witness:
  "\<exists>k. w_phase (b_waiters (run_through demo_served (Suc k)) ! 0) = WaitCancelled
    \<or> w_phase (b_waiters (run_through demo_served k) ! 0) = Checking"
proof -
  have "\<not> wait_over (w_phase (b_waiters (run_through demo_served 0) ! 0))" "0 < length (b_waiters (run_through demo_served 0))"
    by (simp_all add: run_through_def demo_served_def demo_blocked_def)
  moreover have "\<not> wait_over (w_phase (b_waiters (run_through demo_served k) ! 0)) \<longrightarrow>
      queue_at (b_space (run_through demo_served k)) (w_key (b_waiters (run_through demo_served 0) ! 0)) \<noteq> []" for k
  proof (cases "2 \<le> k")
    case False
    then have "k = 0 \<or> k = 1" by auto
    then show ?thesis
      by (auto simp: run_through_def demo_served_def demo_blocked_def local_Out_def local_signal_def NewLocal_def queue_at_def)
  qed (use demo_served_last in blast)
  ultimately show ?thesis
    using space_unblocks [OF demo_served_run(2,1) demo_served_fair, of 0] by (auto simp: Let_def)
qed

theorem local_refines_fifo_witness:
  "impl_run local_Out local_Inp local_Rdp (NewLocal :: nat space) [OutOp [1] 5, OutOp [2] 6, OutOp [1] 7, InpOp [1], RdpOp [1], InpOp [3]]
     = [Some 5, Some 7, None]"
proof -
  have "impl_run local_Out local_Inp local_Rdp (NewLocal :: nat space) ops = fifo_run (\<lambda>_. []) ops" for ops
  proof -
    have "queue_at (NewLocal :: nat space) = (\<lambda>_. [])" by (rule ext) (simp add: NewLocal_def queue_at_def)
    with local_refines_fifo [of "NewLocal :: nat space" ops] show ?thesis by (simp add: NewLocal_def)
  qed
  then show ?thesis by (simp del: impl_run.simps)
qed

end
