(* ===== verification/Store.thy ===== *)
theory Store
  imports Framer Space
begin

text \<open>
  The durable store-and-forward queue, \<^verbatim>\<open>src/space/store.go\<close>: a keyed queue of payloads over an append-only log
  that is replayed on \<open>Open\<close>. The file is its bytes; every write of the log is given the outcome the operating
  system may have, so that failures and crashes are inputs of the model. A missing key of the Go map reads as
  the empty queue, so the map is a function to queues.
\<close>

subsection \<open>Log records\<close>

definition opOut :: byte where "opOut = 1"
definition opIn :: byte where "opIn = 2"

definition encodeRecord :: "byte \<Rightarrow> nat \<Rightarrow> bytes \<Rightarrow> bytes \<Rightarrow> bytes" where
  "encodeRecord op sq key val =
     (let body = op # be_bytes 8 sq
        @ (if op = opOut then be_bytes 4 (length key) @ key @ be_bytes 4 (length val) @ val else [])
      in be_bytes 4 (length body) @ body)"

datatype log_error = LogEOF | LogUnexpectedEOF | LogCorrupt

text \<open>The part of \<open>readRecord\<close> after the body has been read, with its bounds checks.\<close>

definition read_body :: "bytes \<Rightarrow> log_error + byte \<times> nat \<times> bytes \<times> bytes" where
  "read_body body =
     (let op = hd body; sq = be_val (take 8 (drop 1 body)) in
      if op \<noteq> opOut then Inr (op, sq, [], [])
      else if 9 + 4 > length body then Inl LogCorrupt
      else let kl = be_val (take 4 (drop 9 body)) in
        if 13 + kl + 4 > length body then Inl LogCorrupt
        else let key = take kl (drop 13 body); vl = be_val (take 4 (drop (13 + kl) body)) in
          if 13 + kl + 4 + vl > length body then Inl LogCorrupt
          else Inr (op, sq, key, take vl (drop (13 + kl + 4) body)))"

definition readRecord :: "bytes \<Rightarrow> log_error + (byte \<times> nat \<times> bytes \<times> bytes) \<times> bytes" where
  "readRecord s =
     (case ReadFull 4 s of
        Inl e \<Rightarrow> Inl (if e = FrameEOF then LogEOF else LogUnexpectedEOF)
      | Inr (lenBuf, s1) \<Rightarrow>
          let bodyLen = be_val lenBuf in
          if bodyLen < 9 then Inl LogCorrupt
          else case ReadFull bodyLen s1 of
            Inl _ \<Rightarrow> Inl LogUnexpectedEOF
          | Inr (body, s2) \<Rightarrow> (case read_body body of Inl e \<Rightarrow> Inl e | Inr r \<Rightarrow> Inr (r, s2)))"

lemma readRecord_shorter: "readRecord s = Inr (r, s') \<Longrightarrow> length s' < length s"
  by (auto simp: readRecord_def ReadFull_def Let_def split: sum.splits if_splits prod.splits)

subsection \<open>Replay\<close>

type_synonym log_entry = "nat \<times> bytes \<times> bytes"

text \<open>The loop of \<open>replay\<close>: the entries, the tombstones, and the next sequence number, a 64-bit counter.\<close>

function replay_read :: "bytes \<Rightarrow> log_entry list \<Rightarrow> nat list \<Rightarrow> nat \<Rightarrow> log_error + log_entry list \<times> nat list \<times> nat" where
  "replay_read s es tb sq =
     (case readRecord s of
        Inl e \<Rightarrow> if e = LogCorrupt then Inl e else Inr (es, tb, sq)
      | Inr ((op, n, key, val), s') \<Rightarrow>
          if op = opOut then replay_read s' (es @ [(n, key, val)]) tb (if n \<ge> sq then (n + 1) mod 2 ^ 64 else sq)
          else if op = opIn then replay_read s' es (n # tb) sq
          else replay_read s' es tb sq)"
  by pat_completeness auto
termination
  by (relation "measure (\<lambda>(s, _). length s)") (auto dest: readRecord_shorter)

declare replay_read.simps [simp del]

type_synonym srec = "nat \<times> bytes"

definition live_at :: "log_entry list \<Rightarrow> nat list \<Rightarrow> bytes \<Rightarrow> srec list" where
  "live_at es tb k = map (\<lambda>(n, _, v). (n, v)) (filter (\<lambda>(n, k', _). k' = k \<and> n \<notin> set tb) es)"

record store =
  s_log :: bytes
  s_data :: "bytes \<Rightarrow> srec list"
  s_seq :: nat
  s_sync :: bool
  s_closed :: bool

definition store_Open :: "bool \<Rightarrow> bytes \<Rightarrow> log_error + store" where
  "store_Open sy log =
     (case replay_read log [] [] 0 of
        Inl e \<Rightarrow> Inl e
      | Inr (es, tb, sq) \<Rightarrow> Inr \<lparr>s_log = log, s_data = live_at es tb, s_seq = sq, s_sync = sy, s_closed = False\<rparr>)"

subsection \<open>Operations\<close>

text \<open>What a write of the log may do: succeed, fail with some prefix written, or be written and fail to sync.\<close>

datatype io = IoOk | IoTorn nat | IoSyncFailed

datatype store_error = StoreClosed | StoreAppend | StoreSync

definition store_append :: "io \<Rightarrow> bytes \<Rightarrow> store \<Rightarrow> store \<times> store_error option" where
  "store_append i b st =
     (case i of
        IoOk \<Rightarrow> (st\<lparr>s_log := s_log st @ b\<rparr>, None)
      | IoTorn n \<Rightarrow> (st\<lparr>s_log := s_log st @ take n b\<rparr>, Some StoreAppend)
      | IoSyncFailed \<Rightarrow> (st\<lparr>s_log := s_log st @ b\<rparr>, if s_sync st then Some StoreSync else None))"

definition store_Push :: "io \<Rightarrow> store \<Rightarrow> bytes \<Rightarrow> bytes \<Rightarrow> store \<times> store_error option" where
  "store_Push i st k v =
     (if s_closed st then (st, Some StoreClosed)
      else case store_append i (encodeRecord opOut (s_seq st) k v) st of
        (st1, Some e) \<Rightarrow> (st1, Some e)
      | (st1, None) \<Rightarrow> (st1\<lparr>s_seq := (s_seq st + 1) mod 2 ^ 64, s_data := (s_data st)(k := s_data st k @ [(s_seq st, v)])\<rparr>, None))"

definition takeHead :: "io \<Rightarrow> store \<Rightarrow> bytes \<Rightarrow> store \<times> (store_error + bytes)" where
  "takeHead i st k =
     (case store_append i (encodeRecord opIn (fst (hd (s_data st k))) [] []) st of
        (st1, Some e) \<Rightarrow> (st1, Inl e)
      | (st1, None) \<Rightarrow> (st1\<lparr>s_data := (s_data st)(k := tl (s_data st k))\<rparr>, Inr (snd (hd (s_data st k)))))"

definition store_Pullp :: "io \<Rightarrow> store \<Rightarrow> bytes \<Rightarrow> store \<times> (store_error + bytes option)" where
  "store_Pullp i st k =
     (if s_closed st then (st, Inl StoreClosed)
      else if s_data st k = [] then (st, Inr None)
      else case takeHead i st k of (st1, Inl e) \<Rightarrow> (st1, Inl e) | (st1, Inr v) \<Rightarrow> (st1, Inr (Some v)))"

definition store_Peek :: "store \<Rightarrow> bytes \<Rightarrow> bytes option" where
  "store_Peek st k = (case s_data st k of [] \<Rightarrow> None | (_, v) # _ \<Rightarrow> Some v)"

definition store_Len :: "store \<Rightarrow> bytes \<Rightarrow> nat" where
  "store_Len st k = length (s_data st k)"

text \<open>One round of the loop of \<open>Pull\<close> under the lock; \<open>None\<close> says that the caller goes to wait.\<close>

definition store_Pull :: "io \<Rightarrow> store \<Rightarrow> bytes \<Rightarrow> store \<times> (store_error + bytes) option" where
  "store_Pull i st k =
     (if s_closed st then (st, Some (Inl StoreClosed))
      else if s_data st k \<noteq> [] then (case takeHead i st k of (st1, r) \<Rightarrow> (st1, Some r))
      else (st, None))"

text \<open>\<open>Compact\<close> with the order \<open>ks\<close> in which the map is iterated. It may fail before the old log is replaced, or
  after it was replaced but before the replacement is durable.\<close>

datatype compact_io = CompactFailed | CompactUnsynced | CompactDone

definition compacted :: "bytes list \<Rightarrow> store \<Rightarrow> bytes" where
  "compacted ks st = concat (map (\<lambda>k. concat (map (\<lambda>(n, v). encodeRecord opOut n k v) (s_data st k))) ks)"

definition store_Compact :: "compact_io \<Rightarrow> bytes list \<Rightarrow> store \<Rightarrow> store \<times> store_error option" where
  "store_Compact i ks st =
     (if s_closed st then (st, Some StoreClosed)
      else case i of
        CompactFailed \<Rightarrow> (st, Some StoreAppend)
      | CompactUnsynced \<Rightarrow> (st\<lparr>s_log := compacted ks st\<rparr>, Some StoreSync)
      | CompactDone \<Rightarrow> (st\<lparr>s_log := compacted ks st\<rparr>, None))"

definition store_Close :: "store \<Rightarrow> store" where
  "store_Close st = st\<lparr>s_closed := True\<rparr>"

subsection \<open>Reading back what was written\<close>

text \<open>A log as the records it was written from.\<close>

datatype log_rec = OutRec nat bytes bytes | InRec nat

fun enc :: "log_rec \<Rightarrow> bytes" where
  "enc (OutRec n k v) = encodeRecord opOut n k v"
| "enc (InRec n) = encodeRecord opIn n [] []"

fun rec_ok :: "log_rec \<Rightarrow> bool" where
  "rec_ok (OutRec n k v) \<longleftrightarrow> n < 2 ^ 64 \<and> length k + length v + 17 < 2 ^ 32"
| "rec_ok (InRec n) \<longleftrightarrow> n < 2 ^ 64"

fun outs :: "log_rec list \<Rightarrow> log_entry list" where
  "outs [] = []"
| "outs (OutRec n k v # rs) = (n, k, v) # outs rs"
| "outs (InRec n # rs) = outs rs"

fun ins :: "log_rec list \<Rightarrow> nat list" where
  "ins [] = []"
| "ins (OutRec n k v # rs) = ins rs"
| "ins (InRec n # rs) = n # ins rs"

lemma outs_append [simp]: "outs (rs @ rs') = outs rs @ outs rs'"
  by (induction rs rule: outs.induct) simp_all

lemma ins_append [simp]: "ins (rs @ rs') = ins rs @ ins rs'"
  by (induction rs rule: ins.induct) simp_all

text \<open>A record is a four-byte length and its body.\<close>

fun body_of :: "log_rec \<Rightarrow> bytes" where
  "body_of (OutRec n k v) = opOut # be_bytes 8 n @ be_bytes 4 (length k) @ k @ be_bytes 4 (length v) @ v"
| "body_of (InRec n) = opIn # be_bytes 8 n"

fun fields :: "log_rec \<Rightarrow> byte \<times> nat \<times> bytes \<times> bytes" where
  "fields (OutRec n k v) = (opOut, n, k, v)"
| "fields (InRec n) = (opIn, n, [], [])"

lemma ops_distinct [simp]: "opIn \<noteq> opOut" "opOut \<noteq> opIn"
  by (simp_all add: opIn_def opOut_def)

lemma enc_body: "enc r = be_bytes 4 (length (body_of r)) @ body_of r"
  by (cases r) (simp_all add: encodeRecord_def Let_def)

lemma body_length: "rec_ok r \<Longrightarrow> 9 \<le> length (body_of r) \<and> length (body_of r) < 256 ^ 4"
  by (cases r) simp_all

lemma read_body_of: "rec_ok r \<Longrightarrow> read_body (body_of r) = Inr (fields r)"
proof (cases r)
  case (OutRec n k v)
  assume "rec_ok r"
  then have "n < 256 ^ 8" "length k < 256 ^ 4" "length v < 256 ^ 4" using OutRec by simp_all
  then have v: "be_val (be_bytes 8 n) = n" "be_val (be_bytes 4 (length k)) = length k" "be_val (be_bytes 4 (length v)) = length v"
    by (simp_all only: be_val_be_bytes_id)
  let ?b = "opOut # be_bytes 8 n @ be_bytes 4 (length k) @ k @ be_bytes 4 (length v) @ v"
  have d0: "drop 9 ?b = be_bytes 4 (length k) @ k @ be_bytes 4 (length v) @ v" "drop 13 ?b = k @ be_bytes 4 (length v) @ v"
      "take 8 (drop 1 ?b) = be_bytes 8 n"
    by simp_all
  have "drop (13 + length k) ?b = drop (length k) (drop 13 ?b)" "drop (13 + length k + 4) ?b = drop (length k + 4) (drop 13 ?b)"
    by (simp_all only: drop_drop ac_simps)
  then have d: "drop (13 + length k) ?b = be_bytes 4 (length v) @ v" "drop (13 + length k + 4) ?b = v" unfolding d0 by simp_all
  show ?thesis unfolding OutRec body_of.simps read_body_def d0 using v d by (simp add: Let_def)
next
  case (InRec n)
  assume "rec_ok r"
  then have "be_val (be_bytes 8 n) = n" using InRec by (intro be_val_be_bytes_id) simp
  then show ?thesis by (simp add: InRec read_body_def)
qed

lemma readRecord_enc: "rec_ok r \<Longrightarrow> readRecord (enc r @ s) = Inr (fields r, s)"
proof -
  assume ok: "rec_ok r"
  note b = body_length [OF ok]
  then have v: "be_val (be_bytes 4 (length (body_of r))) = length (body_of r)" by (intro be_val_be_bytes_id) simp
  have "ReadFull 4 (enc r @ s) = Inr (be_bytes 4 (length (body_of r)), body_of r @ s)"
    using ReadFull_append [of "be_bytes 4 (length (body_of r))"] by (simp add: enc_body)
  then show ?thesis using b by (simp add: readRecord_def v ReadFull_append read_body_of [OF ok] not_less)
qed

text \<open>A torn record reads as the end of the log.\<close>

lemma ReadFull_short: "length s < n \<Longrightarrow> \<exists>e. ReadFull n s = Inl e"
  by (cases "s = []") (simp_all add: ReadFull_def)

lemma readRecord_torn:
  assumes "rec_ok r" "n < length (enc r)"
  shows "readRecord (take n (enc r)) = Inl LogEOF \<or> readRecord (take n (enc r)) = Inl LogUnexpectedEOF"
proof (cases "n < 4")
  case True
  then show ?thesis by (auto simp: readRecord_def ReadFull_def enc_body)
next
  case False
  note b = body_length [OF assms(1)]
  then have v: "be_val (be_bytes 4 (length (body_of r))) = length (body_of r)" by (intro be_val_be_bytes_id) simp
  have "ReadFull 4 (take n (enc r)) = Inr (be_bytes 4 (length (body_of r)), take (n - 4) (body_of r))"
    using False ReadFull_append [of "be_bytes 4 (length (body_of r))" "take (n - 4) (body_of r)"] by (simp add: enc_body)
  moreover obtain e where "ReadFull (length (body_of r)) (take (n - 4) (body_of r)) = Inl e"
    using ReadFull_short [of "take (n - 4) (body_of r)" "length (body_of r)"] assms(2) False by (force simp: enc_body)
  ultimately show ?thesis using b by (simp add: readRecord_def v)
qed

text \<open>The next sequence number after the entries of a log.\<close>

fun next_seq :: "nat \<Rightarrow> log_entry list \<Rightarrow> nat" where
  "next_seq sq [] = sq"
| "next_seq sq ((n, _, _) # es) = next_seq (if n \<ge> sq then (n + 1) mod 2 ^ 64 else sq) es"

lemma replay_recs:
  "list_all rec_ok rs \<Longrightarrow>
     replay_read (concat (map enc rs) @ s) es tb sq = replay_read s (es @ outs rs) (rev (ins rs) @ tb) (next_seq sq (outs rs))"
proof (induction rs arbitrary: es tb sq)
  case (Cons r rs)
  have "readRecord (concat (map enc (r # rs)) @ s) = Inr (fields r, concat (map enc rs) @ s)"
    using Cons.prems readRecord_enc [of r "concat (map enc rs) @ s"] by simp
  with Cons show ?case by (subst replay_read.simps) (cases r, simp_all)
qed simp

lemma replay_end:
  assumes "readRecord s = Inl LogEOF \<or> readRecord s = Inl LogUnexpectedEOF"
  shows "replay_read s es tb sq = Inr (es, tb, sq)"
  using assms by (subst replay_read.simps) auto

lemma replay_skip:
  assumes "readRecord s = Inr ((op, n, k, v), s')" "op \<noteq> opOut" "op \<noteq> opIn"
  shows "replay_read s es tb sq = replay_read s' es tb sq"
  using assms by (subst replay_read.simps) simp

lemma readRecord_Nil: "readRecord [] = Inl LogEOF"
  by (simp add: readRecord_def ReadFull_def)

lemma Open_recs:
  assumes "list_all rec_ok rs" "readRecord s = Inl LogEOF \<or> readRecord s = Inl LogUnexpectedEOF"
  shows "store_Open sy (concat (map enc rs) @ s) = Inr \<lparr>s_log = concat (map enc rs) @ s, s_data = live_at (outs rs) (ins rs),
    s_seq = next_seq 0 (outs rs), s_sync = sy, s_closed = False\<rparr>"
proof -
  have "live_at es (rev tb) = live_at es tb" for es tb by (rule ext) (simp add: live_at_def)
  then show ?thesis using replay_recs [OF assms(1), of s "[]" "[]" 0] replay_end [OF assms(2)] by (simp add: store_Open_def)
qed

subsection \<open>Invariant\<close>

text \<open>The log was written from records whose replay gives the queues. Tombstones belong to entries of the log, sequence
  numbers in use are below the counter, and no two queued entries share one.\<close>

definition log_of :: "log_rec list \<Rightarrow> store \<Rightarrow> bool" where
  "log_of rs st \<longleftrightarrow> s_log st = concat (map enc rs) \<and> list_all rec_ok rs \<and> s_data st = live_at (outs rs) (ins rs)
     \<and> set (ins rs) \<subseteq> fst ` set (outs rs) \<and> (\<forall>n \<in> fst ` set (outs rs). n < s_seq st)"

definition seqs_ok :: "store \<Rightarrow> bool" where
  "seqs_ok st \<longleftrightarrow> s_seq st < 2 ^ 64 \<and> (\<forall>k. distinct (map fst (s_data st k)))
     \<and> (\<forall>k k'. k \<noteq> k' \<longrightarrow> fst ` set (s_data st k) \<inter> fst ` set (s_data st k') = {})"

definition store_inv :: "store \<Rightarrow> bool" where
  "store_inv st \<longleftrightarrow> (\<exists>rs. log_of rs st) \<and> seqs_ok st"

text \<open>What the record format has room for.\<close>

definition can_push :: "store \<Rightarrow> bytes \<Rightarrow> bytes \<Rightarrow> bool" where
  "can_push st k v \<longleftrightarrow> s_seq st + 1 < 2 ^ 64 \<and> length k + length v + 17 < 2 ^ 32"

lemma live_at_out:
  assumes "n \<notin> set tb"
  shows "live_at (es @ [(n, k, v)]) tb = (live_at es tb)(k := live_at es tb k @ [(n, v)])"
  by (rule ext) (use assms in \<open>simp add: live_at_def\<close>)

lemma live_at_in: "live_at es (n # tb) k = filter (\<lambda>r. fst r \<noteq> n) (live_at es tb k)"
  by (induction es) (auto simp: live_at_def split: if_splits)

lemma live_at_tomb: "live_at es (tb @ [n]) = live_at es (n # tb)"
  by (rule ext) (simp add: live_at_def)

lemma store_inv_Push:
  assumes "store_inv st" "\<not> s_closed st" "can_push st k v"
  shows "store_inv (fst (store_Push IoOk st k v))"
proof -
  obtain rs where rs: "log_of rs st" and sq: "seqs_ok st" using assms(1) by (auto simp: store_inv_def)
  let ?st = "fst (store_Push IoOk st k v)"
  have new: "s_seq st \<notin> fst ` set (outs rs)" "s_seq st \<notin> set (ins rs)" using rs by (force simp: log_of_def)+
  have old: "s_seq st \<notin> fst ` set (s_data st j)" for j
    using rs by (force simp: log_of_def live_at_def)
  have "log_of (rs @ [OutRec (s_seq st) k v]) ?st"
    using rs assms(2,3) new by (auto simp: log_of_def store_Push_def store_append_def can_push_def live_at_out intro: less_SucI)
  moreover have "seqs_ok ?st"
    using sq assms(2,3) old by (simp add: seqs_ok_def store_Push_def store_append_def can_push_def)
  ultimately show ?thesis by (auto simp: store_inv_def)
qed

lemma filter_hd: "distinct (map fst xs) \<Longrightarrow> xs \<noteq> [] \<Longrightarrow> filter (\<lambda>r. fst r \<noteq> fst (hd xs)) xs = tl xs"
  by (cases xs) (auto simp: filter_id_conv rev_image_eqI)

lemma seqs_ok_sub:
  assumes "seqs_ok st" "\<And>j. set (d j) \<subseteq> set (s_data st j)" "\<And>j. distinct (map fst (d j))"
  shows "seqs_ok (st\<lparr>s_log := l, s_data := d\<rparr>)"
proof -
  have "fst ` set (d k) \<inter> fst ` set (d k') = {}" if "k \<noteq> k'" for k k'
  proof -
    have "fst ` set (d k) \<inter> fst ` set (d k') \<subseteq> fst ` set (s_data st k) \<inter> fst ` set (s_data st k')"
      using assms(2) by (intro Int_mono image_mono)
    also have "\<dots> = {}" using assms(1) that by (simp add: seqs_ok_def)
    finally show ?thesis by simp
  qed
  with assms(1,3) show ?thesis by (simp add: seqs_ok_def)
qed

lemma store_inv_Pullp:
  assumes "store_inv st"
  shows "store_inv (fst (store_Pullp IoOk st k))"
proof (cases "s_closed st \<or> s_data st k = []")
  case False
  obtain rs where rs: "log_of rs st" and sq: "seqs_ok st" using assms by (auto simp: store_inv_def)
  let ?st = "fst (store_Pullp IoOk st k)" and ?n = "fst (hd (s_data st k))"
  have st: "?st = st\<lparr>s_log := s_log st @ enc (InRec ?n), s_data := (s_data st)(k := tl (s_data st k))\<rparr>"
    using False by (simp add: store_Pullp_def takeHead_def store_append_def)
  have hd: "(?n, snd (hd (s_data st k))) \<in> set (s_data st k)" using False by simp
  then have mem: "?n \<in> fst ` set (outs rs)" using rs by (force simp: log_of_def live_at_def)
  have "filter (\<lambda>r. fst r \<noteq> ?n) (s_data st j) = ((s_data st)(k := tl (s_data st k))) j" for j
  proof (cases "j = k")
    case True
    then show ?thesis using sq False by (simp add: seqs_ok_def filter_hd)
  next
    case j: False
    have "fst ` set (s_data st j) \<inter> fst ` set (s_data st k) = {}" using sq j by (simp add: seqs_ok_def)
    moreover have "?n \<in> fst ` set (s_data st k)" using hd by force
    ultimately have "fst r \<noteq> ?n" if "r \<in> set (s_data st j)" for r using that by (metis IntI emptyE imageI)
    with j show ?thesis by (simp add: filter_id_conv)
  qed
  then have "live_at (outs rs) (ins rs @ [?n]) = (s_data st)(k := tl (s_data st k))"
    using rs by (intro ext) (simp add: log_of_def live_at_tomb live_at_in)
  moreover have "?n < 2 ^ 64" using mem rs sq by (force simp: log_of_def seqs_ok_def)
  ultimately have "log_of (rs @ [InRec ?n]) ?st" using rs mem unfolding st by (auto simp: log_of_def)
  moreover have "distinct (map fst (tl (s_data st k)))" "set (tl (s_data st k)) \<subseteq> set (s_data st k)"
    using sq False by (auto simp: seqs_ok_def map_tl distinct_tl dest: list.set_sel(2))
  then have "seqs_ok ?st" using sq unfolding st by (intro seqs_ok_sub) (auto simp: seqs_ok_def)
  ultimately show ?thesis by (auto simp: store_inv_def)
next
  case True
  with assms show ?thesis by (auto simp: store_Pullp_def)
qed

lemma outs_iff: "(n, k, v) \<in> set (outs rs) \<longleftrightarrow> OutRec n k v \<in> set rs"
  by (induction rs rule: outs.induct) auto

lemma live_mem: "(n, v) \<in> set (live_at es tb k) \<Longrightarrow> (n, k, v) \<in> set es"
  by (auto simp: live_at_def)

lemma live_rec_ok:
  assumes "list_all rec_ok rs" "(n, v) \<in> set (live_at (outs rs) tb k)"
  shows "rec_ok (OutRec n k v)" "n \<in> fst ` set (outs rs)"
proof -
  note m = live_mem [OF assms(2)]
  then show "rec_ok (OutRec n k v)" using assms(1) unfolding outs_iff list_all_iff by blast
  from m show "n \<in> fst ` set (outs rs)" by force
qed

lemma outs_of_queue: "outs (map (\<lambda>(n, v). OutRec n k v) q) = map (\<lambda>(n, v). (n, k, v)) q" "ins (map (\<lambda>(n, v). OutRec n k v) q) = []"
  by (induction q) auto

lemma live_at_append: "live_at (es @ es') tb k = live_at es tb k @ live_at es' tb k"
  by (simp add: live_at_def)

definition queue_recs :: "bytes list \<Rightarrow> store \<Rightarrow> log_rec list" where
  "queue_recs ks st = concat (map (\<lambda>k. map (\<lambda>(n, v). OutRec n k v) (s_data st k)) ks)"

lemma queue_recs_live:
  "distinct ks \<Longrightarrow> live_at (outs (queue_recs ks st)) [] j = (if j \<in> set ks then s_data st j else []) \<and> ins (queue_recs ks st) = []"
proof (induction ks)
  case (Cons k ks)
  have "live_at (map (\<lambda>(n, v). (n, k, v)) q) [] j = (if j = k then q else [])" for q by (induction q) (auto simp: live_at_def)
  with Cons show ?case by (auto simp: queue_recs_def outs_of_queue live_at_append)
qed (simp_all add: queue_recs_def live_at_def)

lemma queue_recs_mem: "OutRec n k v \<in> set (queue_recs ks st) \<Longrightarrow> (n, v) \<in> set (s_data st k)"
  by (auto simp: queue_recs_def)

lemma compacted_enc: "compacted ks st = concat (map enc (queue_recs ks st))"
  by (induction ks) (auto simp: compacted_def queue_recs_def comp_def case_prod_unfold)

lemma outs_mem: "n \<in> fst ` set (outs rs) \<Longrightarrow> \<exists>k v. OutRec n k v \<in> set rs"
  using outs_iff by force

lemma store_inv_Compact:
  assumes "store_inv st" "distinct ks" "set ks = {k. s_data st k \<noteq> []}"
  shows "store_inv (fst (store_Compact i ks st))"
proof -
  obtain rs where rs: "log_of rs st" and sq: "seqs_ok st" using assms(1) by (auto simp: store_inv_def)
  have mem: "rec_ok (OutRec n k v) \<and> n \<in> fst ` set (outs rs)" if "OutRec n k v \<in> set (queue_recs ks st)" for n k v
    using live_rec_ok [of rs n v "ins rs" k] queue_recs_mem [OF that] rs unfolding log_of_def by auto
  have "rec_ok r" if "r \<in> set (queue_recs ks st)" for r
  proof (cases r)
    case (OutRec n k v)
    with that mem show ?thesis by blast
  next
    case (InRec n)
    with that show ?thesis by (auto simp: queue_recs_def)
  qed
  then have "list_all rec_ok (queue_recs ks st)" by (simp add: list_all_iff)
  moreover have "live_at (outs (queue_recs ks st)) (ins (queue_recs ks st)) = s_data st"
    using queue_recs_live [OF assms(2), of st] assms(3) by (intro ext) auto
  moreover have "n < s_seq st" if "n \<in> fst ` set (outs (queue_recs ks st))" for n
    using outs_mem [OF that] mem rs unfolding log_of_def by blast
  ultimately have "log_of (queue_recs ks st) (st\<lparr>s_log := compacted ks st\<rparr>)"
    using queue_recs_live [OF assms(2), of st] by (auto simp: log_of_def compacted_enc)
  moreover have "seqs_ok (st\<lparr>s_log := compacted ks st\<rparr>)" using sq by (simp add: seqs_ok_def)
  ultimately have "store_inv (st\<lparr>s_log := compacted ks st\<rparr>)" by (auto simp: store_inv_def)
  with assms(1) show ?thesis by (simp add: store_Compact_def split: compact_io.split)
qed

lemma next_seq_bounds:
  assumes "\<forall>n \<in> fst ` set es. n < N" "sq \<le> N" "N < 2 ^ 64"
  shows "sq \<le> next_seq sq es \<and> next_seq sq es \<le> N \<and> (\<forall>n \<in> fst ` set es. n < next_seq sq es)"
  using assms
proof (induction sq es rule: next_seq.induct)
  case (2 sq n k v es)
  let ?sq = "if n \<ge> sq then (n + 1) mod 2 ^ 64 else sq"
  have sq': "?sq = (if n \<ge> sq then n + 1 else sq)" using 2(2,4) by simp
  then have "sq \<le> ?sq" "n < ?sq" "?sq \<le> N" using 2(2,3) by auto
  moreover have "\<forall>n \<in> fst ` set es. n < N" using 2(2) by simp
  from 2(1) [OF this calculation(3) 2(4)]
  have "?sq \<le> next_seq ?sq es" "next_seq ?sq es \<le> N" "\<forall>n \<in> fst ` set es. n < next_seq ?sq es" by simp_all
  moreover have "next_seq sq ((n, k, v) # es) = next_seq ?sq es" by (simp only: next_seq.simps)
  ultimately show ?case by (auto simp del: next_seq.simps)
qed simp

text \<open>Opening the log of a good store gives the store's queues back, whatever torn record follows it.\<close>

lemma reopen:
  assumes "store_inv st" "readRecord s = Inl LogEOF \<or> readRecord s = Inl LogUnexpectedEOF"
  shows "\<exists>st'. store_Open sy (s_log st @ s) = Inr st' \<and> s_data st' = s_data st \<and> (s = [] \<longrightarrow> store_inv st')"
proof -
  obtain rs where rs: "log_of rs st" and sq: "seqs_ok st" using assms(1) by (auto simp: store_inv_def)
  let ?st = "\<lparr>s_log = s_log st @ s, s_data = s_data st, s_seq = next_seq 0 (outs rs), s_sync = sy, s_closed = False\<rparr>"
  have "store_Open sy (s_log st @ s) = Inr ?st"
    using Open_recs [of rs s sy] rs assms(2) by (simp add: log_of_def)
  moreover have b: "next_seq 0 (outs rs) < 2 ^ 64" "\<forall>n \<in> fst ` set (outs rs). n < next_seq 0 (outs rs)"
    using next_seq_bounds [of "outs rs" "s_seq st" 0] rs sq by (auto simp: log_of_def seqs_ok_def)
  have "store_inv ?st" if "s = []"
    unfolding store_inv_def
  proof
    show "\<exists>rs. log_of rs ?st" using rs b(2) that by (intro exI [of _ rs]) (simp add: log_of_def)
    show "seqs_ok ?st" using sq b(1) by (simp add: seqs_ok_def)
  qed
  ultimately show ?thesis by (intro exI [of _ ?st]) simp
qed

text \<open>The states reached by operations whose writes succeed, with restarts at any point in between.\<close>

inductive store_reach :: "store \<Rightarrow> bool" where
  new: "store_Open sy [] = Inr st \<Longrightarrow> store_reach st"
| push: "store_reach st \<Longrightarrow> can_push st k v \<Longrightarrow> store_reach (fst (store_Push IoOk st k v))"
| pullp: "store_reach st \<Longrightarrow> store_reach (fst (store_Pullp IoOk st k))"
| compact: "store_reach st \<Longrightarrow> distinct ks \<Longrightarrow> set ks = {k. s_data st k \<noteq> []} \<Longrightarrow> store_reach (fst (store_Compact i ks st))"
| close: "store_reach st \<Longrightarrow> store_reach (store_Close st)"
| restart: "store_reach st \<Longrightarrow> store_Open sy (s_log st) = Inr st' \<Longrightarrow> store_reach st'"

lemma store_inv_new: "store_Open sy [] = Inr st \<Longrightarrow> store_inv st"
proof -
  assume o: "store_Open sy [] = Inr st"
  then have "st = \<lparr>s_log = [], s_data = live_at [] [], s_seq = 0, s_sync = sy, s_closed = False\<rparr>"
    using Open_recs [of "[]" "[]" sy] by (simp add: readRecord_Nil)
  then show ?thesis by (auto simp: store_inv_def log_of_def seqs_ok_def live_at_def intro!: exI [of _ "[]"])
qed

lemma store_reach_inv: "store_reach st \<Longrightarrow> store_inv st"
proof (induction rule: store_reach.induct)
  case (push st k v)
  then show ?case by (cases "s_closed st") (simp_all add: store_inv_Push, simp add: store_Push_def)
next
  case (close st)
  then show ?case by (simp add: store_inv_def log_of_def seqs_ok_def store_Close_def)
next
  case (restart st sy st')
  then show ?case using reopen [of st "[]" sy] by (auto simp: readRecord_Nil)
qed (simp_all add: store_inv_new store_inv_Pullp store_inv_Compact)

text \<open>A \<open>Pullp\<close> whose write succeeds, as a store and what was taken.\<close>

definition taken :: "store \<Rightarrow> bytes \<Rightarrow> store \<times> bytes option" where
  "taken st k = (case store_Pullp IoOk st k of (st', Inr r) \<Rightarrow> (st', r) | (st', Inl _) \<Rightarrow> (st', None))"

interpretation store_queue: keyed_queue "\<lambda>st. store_inv st \<and> \<not> s_closed st" "\<lambda>st k. map snd (s_data st k)" can_push
  "\<lambda>st k v. fst (store_Push IoOk st k v)"
  taken store_Peek
proof
  fix st :: store and k
  assume st: "store_inv st \<and> \<not> s_closed st"
  have inp: "taken st k =
      (fst (store_Pullp IoOk st k), case s_data st k of [] \<Rightarrow> None | r # _ \<Rightarrow> Some (snd r))"
    using st by (cases "s_data st k") (simp_all add: taken_def store_Pullp_def takeHead_def store_append_def)
  have "s_data (fst (store_Pullp IoOk st k)) = (s_data st)(k := tl (s_data st k))" "\<not> s_closed (fst (store_Pullp IoOk st k))"
    using st by (cases "s_data st k"; auto simp: store_Pullp_def takeHead_def store_append_def)+
  with st show
    "store_inv (fst (taken st k))
       \<and> \<not> s_closed (fst (taken st k))"
    "(\<lambda>k'. map snd (s_data (fst (taken st k)) k')) =
       (\<lambda>k. map snd (s_data st k))(k := tl (map snd (s_data st k)))"
    "snd (taken st k) =
       (case map snd (s_data st k) of [] \<Rightarrow> None | v # _ \<Rightarrow> Some v)"
    unfolding inp by (auto simp: store_inv_Pullp map_tl split: list.split)
  show "store_Peek st k = (case map snd (s_data st k) of [] \<Rightarrow> None | v # _ \<Rightarrow> Some v)"
    by (auto simp: store_Peek_def split: list.split)
next
  fix st :: store and k v
  assume "store_inv st \<and> \<not> s_closed st" "can_push st k v"
  then show "store_inv (fst (store_Push IoOk st k v)) \<and> \<not> s_closed (fst (store_Push IoOk st k v))"
    "(\<lambda>k'. map snd (s_data (fst (store_Push IoOk st k v)) k')) = (\<lambda>k. map snd (s_data st k))(k := map snd (s_data st k) @ [v])"
    by (auto simp: store_inv_Push) (auto simp: store_Push_def store_append_def)
qed

subsection \<open>Properties\<close>

text \<open>C9: The store is durable and crash-safe. From any state reached by operations whose writes succeed, compactions and
  restarts included: opening the log again gives exactly the queues in memory. And a crash in the middle of writing the
  record of a \<open>Push\<close>, or the tombstone of a \<open>Pullp\<close>, wherever it tears the record, leaves a log that opens to
  the queues before that operation.\<close>

theorem store_durable:
  assumes "store_reach st"
  shows "(\<exists>st'. store_Open sy (s_log st) = Inr st' \<and> s_data st' = s_data st)
    \<and> (can_push st k v \<and> n < length (encodeRecord opOut (s_seq st) k v) \<longrightarrow>
        (\<exists>st'. store_Open sy (s_log (fst (store_Push (IoTorn n) st k v))) = Inr st' \<and> s_data st' = s_data st))
    \<and> (m < 13 \<longrightarrow> (\<exists>st'. store_Open sy (s_log (fst (store_Pullp (IoTorn m) st k))) = Inr st' \<and> s_data st' = s_data st))"
proof (intro conjI impI)
  note inv = store_reach_inv [OF assms]
  have torn: "\<exists>st'. store_Open sy (s_log st @ take j (enc r)) = Inr st' \<and> s_data st' = s_data st" if "rec_ok r" "j < length (enc r)" for j r
    using reopen [OF inv readRecord_torn [OF that]] by blast
  show same: "\<exists>st'. store_Open sy (s_log st) = Inr st' \<and> s_data st' = s_data st"
    using reopen [OF inv, of "[]"] by (auto simp: readRecord_Nil)
  show "\<exists>st'. store_Open sy (s_log (fst (store_Push (IoTorn n) st k v))) = Inr st' \<and> s_data st' = s_data st"
    if "can_push st k v \<and> n < length (encodeRecord opOut (s_seq st) k v)"
    using torn [of "OutRec (s_seq st) k v" n] that same by (simp add: store_Push_def store_append_def can_push_def)
  assume "m < 13"
  show "\<exists>st'. store_Open sy (s_log (fst (store_Pullp (IoTorn m) st k))) = Inr st' \<and> s_data st' = s_data st"
  proof (cases "s_closed st \<or> s_data st k = []")
    case False
    obtain rs where rs: "log_of rs st" "seqs_ok st" using inv by (auto simp: store_inv_def)
    have "(fst (hd (s_data st k)), snd (hd (s_data st k))) \<in> set (live_at (outs rs) (ins rs) k)" using False rs by (simp add: log_of_def)
    then have "rec_ok (InRec (fst (hd (s_data st k))))" using live_rec_ok(1) [of rs] rs unfolding log_of_def by fastforce
    with torn [of "InRec (fst (hd (s_data st k)))" m] \<open>m < 13\<close> False show ?thesis
      by (simp add: store_Pullp_def takeHead_def store_append_def encodeRecord_def Let_def)
  qed (use same in \<open>auto simp: store_Pullp_def\<close>)
qed

text \<open>While it is open and within its record format, the store is a keyed queue: any sequence of \<open>Push\<close>, \<open>Pullp\<close>
  and \<open>Peek\<close> returns what the abstract first-in first-out queues return.\<close>

theorem store_refines_fifo:
  assumes "store_reach st" "\<not> s_closed st" "impl_ok (\<lambda>st k v. fst (store_Push IoOk st k v)) taken can_push st ops"
  shows "impl_run (\<lambda>st k v. fst (store_Push IoOk st k v)) taken store_Peek st ops = fifo_run (\<lambda>k. map snd (s_data st k)) ops"
  by (rule store_queue.run_refines) (use store_reach_inv [OF assms(1)] assms(2,3) in simp_all)

text \<open>C35: A torn record is skipped on replay but not removed, and the log is appended to behind it: after a crash that
  tore a record, the next \<open>Push\<close> is acknowledged and visible, and is gone after the following restart.\<close>

theorem store_torn_tail_loses_push:
  "\<exists>st st' st''. store_Open True (take 4 (encodeRecord opOut 0 [107] [1])) = Inr st
    \<and> store_Push IoOk st [107] [2] = (st', None) \<and> store_Peek st' [107] = Some [2]
    \<and> store_Open True (s_log st') = Inr st'' \<and> store_Peek st'' [107] = None"
proof -
  define t r where "t = take 4 (encodeRecord opOut 0 [107] [1])" and "r = encodeRecord opOut 0 [107] [2]"
  let ?st = "\<lparr>s_log = t, s_data = (\<lambda>_. []), s_seq = 0, s_sync = True, s_closed = False\<rparr>"
  let ?st' = "\<lparr>s_log = t @ r, s_data = (\<lambda>_. [])([107] := [(0, [2])]), s_seq = 1, s_sync = True, s_closed = False\<rparr>"
  let ?st'' = "\<lparr>s_log = t @ r, s_data = (\<lambda>_. []), s_seq = 0, s_sync = True, s_closed = False\<rparr>"
  have nil: "live_at [] tb = (\<lambda>_. [])" for tb by (rule ext) (simp add: live_at_def)
  have "readRecord t = Inl LogUnexpectedEOF" unfolding t_def by code_simp
  then have 1: "store_Open True t = Inr ?st" by (simp add: store_Open_def replay_end nil)
  have 2: "store_Push IoOk ?st [107] [2] = (?st', None)" by (simp add: store_Push_def store_append_def r_def)
  have tr: "t @ r = [0, 0, 0, 19, 0, 0, 0, 19, 1, 0, 0, 0, 0, 0, 0, 0, 0, 0, 0, 0, 1, 107, 0, 0, 0, 1, 2]"
    unfolding t_def r_def by code_simp
  have "readRecord (t @ r) = Inr ((0, be_val [0, 0, 19, 1, 0, 0, 0, 0], [], []), [0, 0, 1, 2])"
    unfolding tr by (simp add: readRecord_def ReadFull_def read_body_def opOut_def be_val_def)
  then have "replay_read (t @ r) [] [] 0 = replay_read [0, 0, 1, 2] [] [] 0" by (rule replay_skip) (simp_all add: opOut_def opIn_def)
  moreover have "readRecord [0, 0, 1, 2] = Inl LogUnexpectedEOF" by code_simp
  ultimately have 3: "store_Open True (t @ r) = Inr ?st''" by (simp add: store_Open_def nil replay_end)
  show ?thesis unfolding t_def [symmetric]
    by (intro exI [of _ ?st] exI [of _ ?st'] exI [of _ ?st'']) (use 1 2 3 in \<open>simp add: store_Peek_def\<close>)
qed

text \<open>A failed sync makes two records share a sequence number: the entry of a \<open>Push\<close> that reported the failure is in
  the log all the same, the next \<open>Push\<close> reuses its number, and after a restart taking the first of the two
  buries both: the acknowledged second entry is gone after another restart.\<close>

theorem store_sync_failure_loses_push:
  "\<exists>st1 st2 st3 st4 st5. store_Push IoSyncFailed \<lparr>s_log = [], s_data = (\<lambda>_. []), s_seq = 0, s_sync = True, s_closed = False\<rparr> [107] [1] = (st1, Some StoreSync)
    \<and> store_Push IoOk st1 [107] [2] = (st2, None)
    \<and> store_Open True (s_log st2) = Inr st3 \<and> s_data st3 [107] = [(0, [1]), (0, [2])]
    \<and> store_Pullp IoOk st3 [107] = (st4, Inr (Some [1])) \<and> store_Peek st4 [107] = Some [2]
    \<and> store_Open True (s_log st4) = Inr st5 \<and> store_Peek st5 [107] = None"
proof -
  define a b c where "a = enc (OutRec 0 [107] [1])" and "b = enc (OutRec 0 [107] [2])" and "c = enc (InRec 0)"
  let ?st = "\<lambda>l q n. \<lparr>s_log = l, s_data = q, s_seq = n, s_sync = True, s_closed = False\<rparr>"
  let ?two = "(\<lambda>_. [])([107] := [(0, [1]), (0, [2])])"
  have "store_Push IoSyncFailed (?st [] (\<lambda>_. []) 0) [107] [1] = (?st a (\<lambda>_. []) 0, Some StoreSync)"
    by (simp add: store_Push_def store_append_def a_def)
  moreover have "store_Push IoOk (?st a (\<lambda>_. []) 0) [107] [2] = (?st (a @ b) ((\<lambda>_. [])([107] := [(0, [2])])) 1, None)"
    by (simp add: store_Push_def store_append_def b_def)
  moreover have "live_at [(0, [107], [1]), (0, [107], [2])] [] = ?two" by (rule ext) (simp add: live_at_def)
  then have "store_Open True (a @ b) = Inr (?st (a @ b) ?two 1)"
    using Open_recs [of "[OutRec 0 [107] [1], OutRec 0 [107] [2]]" "[]" True] by (simp add: readRecord_Nil a_def b_def del: enc.simps)
  moreover have "store_Pullp IoOk (?st (a @ b) ?two 1) [107] = (?st (a @ b @ c) ((\<lambda>_. [])([107] := [(0, [2])])) 1, Inr (Some [1]))"
    by (simp add: store_Pullp_def takeHead_def store_append_def c_def)
  moreover have "live_at [(0, [107], [1]), (0, [107], [2])] [0] = (\<lambda>_. [])" by (rule ext) (simp add: live_at_def)
  then have "store_Open True (a @ b @ c) = Inr (?st (a @ b @ c) (\<lambda>_. []) 1)"
    using Open_recs [of "[OutRec 0 [107] [1], OutRec 0 [107] [2], InRec 0]" "[]" True]
    by (simp add: readRecord_Nil a_def b_def c_def del: enc.simps)
  ultimately show ?thesis
    by (intro exI [of _ "?st a (\<lambda>_. []) 0"] exI [of _ "?st (a @ b) ((\<lambda>_. [])([107] := [(0, [2])])) 1"] exI [of _ "?st (a @ b) ?two 1"]
        exI [of _ "?st (a @ b @ c) ((\<lambda>_. [])([107] := [(0, [2])])) 1"] exI [of _ "?st (a @ b @ c) (\<lambda>_. []) 1"])
      (simp add: store_Peek_def)
qed

definition demo_store :: store where
  "demo_store = \<lparr>s_log = [], s_data = (\<lambda>_. []), s_seq = 0, s_sync = True, s_closed = False\<rparr>"

lemma demo_store_reach: "store_reach demo_store"
proof (rule store_reach.new)
  show "store_Open True [] = Inr demo_store"
    using Open_recs [of "[]" "[]" True] by (simp add: readRecord_Nil demo_store_def fun_eq_iff) (simp add: live_at_def)
qed

theorem store_durable_witness:
  "can_push demo_store [107] [1] \<and> (\<exists>st'. store_Open True (s_log (fst (store_Push (IoTorn 4) demo_store [107] [1]))) = Inr st' \<and> s_data st' = s_data demo_store)"
proof -
  have "can_push demo_store [107] [1]" "4 < length (encodeRecord opOut (s_seq demo_store) [107] [1])"
    by (simp_all add: can_push_def demo_store_def encodeRecord_def Let_def)
  with store_durable [OF demo_store_reach, of True "[107]" "[1]" 4] show ?thesis by blast
qed

theorem store_refines_fifo_witness:
  "impl_run (\<lambda>st k v. fst (store_Push IoOk st k v)) taken store_Peek demo_store [OutOp [107] [1], OutOp [107] [2], InpOp [107], RdpOp [107], InpOp [108]]
     = [Some [1], Some [2], None]"
proof -
  let ?ops = "[OutOp [107] [1], OutOp [107] [2], InpOp [107], RdpOp [107], InpOp [108]] :: bytes queue_op list"
  have "impl_ok (\<lambda>st k v. fst (store_Push IoOk st k v)) taken can_push demo_store ?ops"
    by (simp add: can_push_def demo_store_def store_Push_def store_append_def)
  moreover have "\<not> s_closed demo_store" by (simp add: demo_store_def)
  ultimately have "impl_run (\<lambda>st k v. fst (store_Push IoOk st k v)) taken store_Peek demo_store ?ops = fifo_run (\<lambda>k. map snd (s_data demo_store k)) ?ops"
    using store_refines_fifo [OF demo_store_reach] by blast
  then show ?thesis by (simp add: demo_store_def)
qed

end
