(* ===== verification/Flow.thy ===== *)
theory Flow
  imports MessageOps
begin

text \<open>
  The transaction pipeline, \<^verbatim>\<open>src/flow/\<close>: stages that prepare in order and then, in a second phase, all commit
  or are all rolled back, with routing, a stage limit, retries and idempotent replay. The stages are the caller's
  code, so they are functions the pipeline is given; \<open>e_state\<close> stands for everything they read and write (the
  request, the property bag, the world). A run returns the sequence of calls it made.
\<close>

subsection \<open>Exchanges and stages\<close>

datatype 'e flow_error = ErrNoEntry | ErrUnknownGroup bytes | ErrTooManyStages | ErrAborted | ErrContext | ErrStage 'e

record ('w, 'e) exchange =
  e_id :: bytes
  e_response :: "message option"
  e_state :: 'w
  e_err :: "'e flow_error option"
  e_aborted :: bool

definition NewExchange :: "bytes \<Rightarrow> 'w \<Rightarrow> ('w, 'e) exchange" where
  "NewExchange i w = \<lparr>e_id = i, e_response = None, e_state = w, e_err = None, e_aborted = False\<rparr>"

definition exchange_Abort :: "'e flow_error option \<Rightarrow> ('w, 'e) exchange \<Rightarrow> ('w, 'e) exchange" where
  "exchange_Abort cause ex = (case cause of None \<Rightarrow> ex\<lparr>e_aborted := True\<rparr> | Some e \<Rightarrow> ex\<lparr>e_aborted := True, e_err := Some e\<rparr>)"

datatype action = ActContinue | ActSkip | ActDone

record stage_result =
  r_action :: action
  r_groups :: "bytes list"

definition Continue :: stage_result where "Continue = \<lparr>r_action = ActContinue, r_groups = []\<rparr>"
definition Skip :: stage_result where "Skip = \<lparr>r_action = ActSkip, r_groups = []\<rparr>"
definition Route :: "bytes list \<Rightarrow> stage_result" where "Route gs = \<lparr>r_action = ActContinue, r_groups = gs\<rparr>"
definition Done :: stage_result where "Done = \<lparr>r_action = ActDone, r_groups = []\<rparr>"

text \<open>A stage; \<open>None\<close> for the commit or abort half says that it does not implement that interface.\<close>

record ('w, 'e) stage =
  st_name :: bytes
  st_prepare :: "('w, 'e) exchange \<Rightarrow> ('w, 'e) exchange \<times> ('e flow_error + stage_result)"
  st_commit :: "(('w, 'e) exchange \<Rightarrow> ('w, 'e) exchange \<times> 'e option) option"
  st_abort :: "(('w, 'e) exchange \<Rightarrow> ('w, 'e) exchange \<times> 'e option) option"

definition Func :: "bytes \<Rightarrow> (('w, 'e) exchange \<Rightarrow> ('w, 'e) exchange \<times> ('e flow_error + stage_result)) \<Rightarrow> ('w, 'e) stage" where
  "Func name fn = \<lparr>st_name = name, st_prepare = fn, st_commit = None, st_abort = None\<rparr>"

subsection \<open>Journal, idempotency and the flow\<close>

datatype 'e event = EventBegin | EventCommitted | EventAborted "'e flow_error" | EventIdempotentHit

text \<open>What a run does, in order; a stage is named by its position in the work list, and a prepare has the stage's
  vote, or none if it failed.\<close>

datatype 'e call = CallPrepare nat "action option" | CallCommit nat | CallAbort nat | Journal "'e event"

record ('w, 'e) flow =
  f_groups :: "bytes \<rightharpoonup> ('w, 'e) stage list"
  f_entry :: bytes
  f_journal :: bool
  f_maxStages :: int
  f_idemKey :: "(('w, 'e) exchange \<Rightarrow> bytes option) option"

definition flow_New :: "('w, 'e) flow" where
  "flow_New = \<lparr>f_groups = Map.empty, f_entry = [], f_journal = False, f_maxStages = 1024, f_idemKey = None\<rparr>"

definition Group :: "('w, 'e) flow \<Rightarrow> bytes \<Rightarrow> ('w, 'e) stage list \<Rightarrow> ('w, 'e) flow" where
  "Group f name sts =
     (let f1 = f\<lparr>f_groups := (f_groups f)(name \<mapsto> (case f_groups f name of None \<Rightarrow> [] | Some g \<Rightarrow> g) @ sts)\<rparr> in
      if f_entry f = [] then f1\<lparr>f_entry := name\<rparr> else f1)"

definition resolve :: "('w, 'e) flow \<Rightarrow> bytes \<Rightarrow> 'e flow_error + ('w, 'e) stage list" where
  "resolve f name = (case f_groups f name of None \<Rightarrow> Inl (ErrUnknownGroup name) | Some g \<Rightarrow> Inr g)"

fun appendGroups :: "('w, 'e) flow \<Rightarrow> ('w, 'e) stage list \<Rightarrow> bytes list \<Rightarrow> 'e flow_error + ('w, 'e) stage list" where
  "appendGroups f work [] = Inr work"
| "appendGroups f work (name # names) = (case resolve f name of Inl e \<Rightarrow> Inl e | Inr g \<Rightarrow> appendGroups f (work @ g) names)"

definition emit :: "('w, 'e) flow \<Rightarrow> 'e event \<Rightarrow> 'e call list" where
  "emit f ev = (if f_journal f then [Journal ev] else [])"

text \<open>The prepare pass: the loop over the growing work list. \<open>ctx i\<close> says whether the context is done at round \<open>i\<close>.
  The result is the exchange, the stages that joined with their positions, the error, and the votes so far.\<close>

function prepare_loop ::
  "('w, 'e) flow \<Rightarrow> (nat \<Rightarrow> bool) \<Rightarrow> ('w, 'e) stage list \<Rightarrow> nat \<Rightarrow> ('w, 'e) exchange \<Rightarrow> (nat \<times> ('w, 'e) stage) list \<Rightarrow> action option list \<Rightarrow>
     ('w, 'e) exchange \<times> (nat \<times> ('w, 'e) stage) list \<times> 'e flow_error option \<times> action option list" where
  "prepare_loop f ctx work i ex joined votes =
     (if i \<ge> length work then (ex, joined, None, votes)
      else if int i \<ge> f_maxStages f then (ex, joined, Some ErrTooManyStages, votes)
      else if ctx i then (ex, joined, Some ErrContext, votes)
      else case st_prepare (work ! i) ex of
        (ex', Inl e) \<Rightarrow> (ex', joined, Some e, votes @ [None])
      | (ex', Inr res) \<Rightarrow>
          let joined' = (if r_action res = ActContinue then joined @ [(i, work ! i)] else joined);
              votes' = votes @ [Some (r_action res)] in
          if e_aborted ex' then (ex', joined', None, votes')
          else if r_action res = ActDone then (ex', joined', None, votes')
          else case appendGroups f work (r_groups res) of
            Inl e \<Rightarrow> (ex', joined', Some e, votes')
          | Inr work' \<Rightarrow> prepare_loop f ctx work' (Suc i) ex' joined' votes')"
  by pat_completeness auto
termination
  by (relation "measure (\<lambda>(f, ctx, work, i, ex, joined, votes). nat (f_maxStages f - int i))") auto

declare prepare_loop.simps [simp del]

text \<open>The second phase. Commit runs on every joined stage, and the errors are collected; abort runs in reverse.\<close>

fun commitJoined :: "(nat \<times> ('w, 'e) stage) list \<Rightarrow> ('w, 'e) exchange \<Rightarrow> ('w, 'e) exchange \<times> (bytes \<times> 'e) list \<times> 'e call list" where
  "commitJoined [] ex = (ex, [], [])"
| "commitJoined ((i, st) # js) ex =
     (case st_commit st of
        None \<Rightarrow> commitJoined js ex
      | Some c \<Rightarrow> (case c ex of (ex', err) \<Rightarrow> (case commitJoined js ex' of (ex'', errs, cs) \<Rightarrow>
          (ex'', (case err of None \<Rightarrow> errs | Some e \<Rightarrow> (st_name st, e) # errs), CallCommit i # cs))))"

fun abort_loop :: "(nat \<times> ('w, 'e) stage) list \<Rightarrow> ('w, 'e) exchange \<Rightarrow> ('w, 'e) exchange \<times> 'e call list" where
  "abort_loop [] ex = (ex, [])"
| "abort_loop ((i, st) # js) ex =
     (case st_abort st of
        None \<Rightarrow> abort_loop js ex
      | Some a \<Rightarrow> (case a ex of (ex', err) \<Rightarrow> (case abort_loop js ex' of (ex'', cs) \<Rightarrow> (ex'', CallAbort i # cs))))"

definition abortJoined :: "(nat \<times> ('w, 'e) stage) list \<Rightarrow> ('w, 'e) exchange \<Rightarrow> ('w, 'e) exchange \<times> 'e call list" where
  "abortJoined joined ex = abort_loop (rev joined) ex"

datatype 'e run_result = RunNil | RunErr "'e flow_error" | RunCommit "(bytes \<times> 'e) list"

text \<open>\<open>Run\<close> after the idempotency check, which is the part that calls stages.\<close>

definition run_stages ::
  "('w, 'e) flow \<Rightarrow> (nat \<Rightarrow> bool) \<Rightarrow> ('w, 'e) stage list \<Rightarrow> ('w, 'e) exchange \<Rightarrow> ('w, 'e) exchange \<times> 'e call list \<times> 'e run_result" where
  "run_stages f ctx entryStages ex =
     (case prepare_loop f ctx entryStages 0 ex [] [] of (ex1, joined, prepErr, votes) \<Rightarrow>
      let prepares = emit f EventBegin @ map2 CallPrepare [0..<length votes] votes in
      if prepErr \<noteq> None \<or> e_aborted ex1 then
        (let cause = (case prepErr of Some e \<Rightarrow> e | None \<Rightarrow> (case e_err ex1 of Some e \<Rightarrow> e | None \<Rightarrow> ErrAborted)) in
         case abortJoined joined (ex1\<lparr>e_aborted := True, e_err := Some cause\<rparr>) of
           (ex2, cs) \<Rightarrow> (ex2, prepares @ cs @ emit f (EventAborted cause), RunErr cause))
      else (case commitJoined joined ex1 of (ex2, errs, cs) \<Rightarrow>
        (ex2, prepares @ cs @ emit f EventCommitted, if errs = [] then RunNil else RunCommit errs)))"

text \<open>\<open>Run\<close>, over the interface of an idempotency store: \<open>lookup\<close> gives the response and whether the key is known.\<close>

definition Run ::
  "('s \<Rightarrow> bytes \<Rightarrow> message option \<times> bool) \<Rightarrow> ('s \<Rightarrow> bytes \<Rightarrow> message option \<Rightarrow> 's) \<Rightarrow>
     ('w, 'e) flow \<Rightarrow> (nat \<Rightarrow> bool) \<Rightarrow> ('w, 'e) exchange \<Rightarrow> 's \<Rightarrow> ('w, 'e) exchange \<times> 's \<times> 'e call list \<times> 'e run_result" where
  "Run lookup put f ctx ex s =
     (if f_entry f = [] then (ex, s, [], RunErr ErrNoEntry)
      else case resolve f (f_entry f) of
        Inl e \<Rightarrow> (ex, s, [], RunErr e)
      | Inr entryStages \<Rightarrow>
          (case (case f_idemKey f of None \<Rightarrow> None | Some kf \<Rightarrow> kf ex) of
             None \<Rightarrow> (case run_stages f ctx entryStages ex of (ex', cs, res) \<Rightarrow> (ex', s, cs, res))
           | Some k \<Rightarrow>
               (case lookup s k of
                  (resp, True) \<Rightarrow> (ex\<lparr>e_response := resp\<rparr>, s, emit f EventIdempotentHit, RunNil)
                | (_, False) \<Rightarrow>
                    (case run_stages f ctx entryStages ex of (ex', cs, res) \<Rightarrow>
                      (ex', if res = RunNil then put s k (e_response ex') else s, cs, res)))))"

subsection \<open>The in-memory store\<close>

type_synonym memory_store = "bytes \<rightharpoonup> message option"

definition NewMemoryStore :: memory_store where
  "NewMemoryStore = Map.empty"

definition memory_Lookup :: "memory_store \<Rightarrow> bytes \<Rightarrow> message option \<times> bool" where
  "memory_Lookup s k = (case s k of None \<Rightarrow> (None, False) | Some None \<Rightarrow> (None, True) | Some (Some m) \<Rightarrow> (Some (Clone m), True))"

definition memory_Store :: "memory_store \<Rightarrow> bytes \<Rightarrow> message option \<Rightarrow> memory_store" where
  "memory_Store s k resp = s(k \<mapsto> map_option Clone resp)"

subsection \<open>Retries\<close>

record 'e retry_policy =
  MaxAttempts :: int
  Retryable :: "('e flow_error \<Rightarrow> bool) option"

definition DefaultRetryPolicy :: "'e retry_policy" where
  "DefaultRetryPolicy = \<lparr>MaxAttempts = 3, Retryable = Some (\<lambda>_. True)\<rparr>"

definition normalised :: "'e retry_policy \<Rightarrow> 'e retry_policy" where
  "normalised p =
     (let p1 = (if MaxAttempts p \<le> 0 then p\<lparr>MaxAttempts := 3\<rparr> else p) in
      if Retryable p1 = None then p1\<lparr>Retryable := Some (\<lambda>_. True)\<rparr> else p1)"

text \<open>The attempts from \<open>attempt\<close> on; \<open>ctx a\<close> says whether the context ends while waiting after attempt \<open>a\<close>.\<close>

function retry_loop ::
  "('w, 'e) stage \<Rightarrow> 'e retry_policy \<Rightarrow> (int \<Rightarrow> bool) \<Rightarrow> int \<Rightarrow> ('w, 'e) exchange \<Rightarrow> ('w, 'e) exchange \<times> ('e flow_error + stage_result)" where
  "retry_loop inner p ctx attempt ex =
     (case st_prepare inner ex of
        (ex', Inr res) \<Rightarrow> (ex', Inr res)
      | (ex', Inl e) \<Rightarrow>
          if e_aborted ex' \<or> (case Retryable p of None \<Rightarrow> False | Some ok \<Rightarrow> \<not> ok e) then (ex', Inl e)
          else if attempt \<ge> MaxAttempts p then (ex', Inl e)
          else if ctx attempt then (ex', Inl ErrContext)
          else retry_loop inner p ctx (attempt + 1) ex')"
  by pat_completeness auto
termination
  by (relation "measure (\<lambda>(inner, p, ctx, attempt, ex). nat (MaxAttempts p - attempt))") auto

declare retry_loop.simps [simp del]

definition Retry :: "(int \<Rightarrow> bool) \<Rightarrow> ('w, 'e) stage \<Rightarrow> 'e retry_policy \<Rightarrow> ('w, 'e) stage" where
  "Retry ctx inner policy =
     \<lparr>st_name = st_name inner, st_prepare = retry_loop inner (normalised policy) ctx 1,
      st_commit = Some (case st_commit inner of Some c \<Rightarrow> c | None \<Rightarrow> (\<lambda>ex. (ex, None))),
      st_abort = Some (case st_abort inner of Some a \<Rightarrow> a | None \<Rightarrow> (\<lambda>ex. (ex, None)))\<rparr>"

subsection \<open>The two phases\<close>

lemma prepare_loop_end [simp]: "length work \<le> i \<Longrightarrow> prepare_loop f ctx work i ex joined votes = (ex, joined, None, votes)"
  by (subst prepare_loop.simps) simp

text \<open>What a run is measured against. For a work list and the exchange it starts from: the exchange before the stage at a
  position prepares, what that stage returns, and whether the run goes on to the next position.\<close>

primrec prep_state :: "('w, 'e) stage list \<Rightarrow> ('w, 'e) exchange \<Rightarrow> nat \<Rightarrow> ('w, 'e) exchange" where
  "prep_state work ex 0 = ex"
| "prep_state work ex (Suc k) = fst (st_prepare (work ! k) (prep_state work ex k))"

definition prep_result :: "('w, 'e) stage list \<Rightarrow> ('w, 'e) exchange \<Rightarrow> nat \<Rightarrow> 'e flow_error + stage_result" where
  "prep_result work ex k = snd (st_prepare (work ! k) (prep_state work ex k))"

definition vote :: "'e flow_error + stage_result \<Rightarrow> action option" where
  "vote r = (case r of Inl _ \<Rightarrow> None | Inr res \<Rightarrow> Some (r_action res))"

definition goes_on :: "('w, 'e) flow \<Rightarrow> ('w, 'e) stage list \<Rightarrow> ('w, 'e) exchange \<Rightarrow> nat \<Rightarrow> bool" where
  "goes_on f work ex k \<longleftrightarrow> (case prep_result work ex k of
       Inl _ \<Rightarrow> False
     | Inr res \<Rightarrow> \<not> e_aborted (prep_state work ex (Suc k)) \<and> r_action res \<noteq> ActDone \<and> (\<forall>g \<in> set (r_groups res). f_groups f g \<noteq> None))"

text \<open>The stages that the first \<open>n\<close> positions route to, and the positions that voted to join.\<close>

definition routed_by :: "('w, 'e) flow \<Rightarrow> ('w, 'e) stage list \<Rightarrow> ('w, 'e) exchange \<Rightarrow> nat \<Rightarrow> ('w, 'e) stage list" where
  "routed_by f work ex k = (case prep_result work ex k of
       Inl _ \<Rightarrow> []
     | Inr res \<Rightarrow> if goes_on f work ex k then concat (map (\<lambda>g. the (f_groups f g)) (r_groups res)) else [])"

definition routed :: "('w, 'e) flow \<Rightarrow> ('w, 'e) stage list \<Rightarrow> ('w, 'e) exchange \<Rightarrow> nat \<Rightarrow> ('w, 'e) stage list" where
  "routed f work ex n = concat (map (routed_by f work ex) [0..<n])"

definition joins :: "('w, 'e) stage list \<Rightarrow> ('w, 'e) exchange \<Rightarrow> nat \<Rightarrow> nat list" where
  "joins work ex n = filter (\<lambda>k. vote (prep_result work ex k) = Some ActContinue) [0..<n]"

definition abort_cause :: "('w, 'e) exchange \<Rightarrow> 'e flow_error" where
  "abort_cause ex = (case e_err ex of Some e \<Rightarrow> e | None \<Rightarrow> ErrAborted)"

text \<open>Why a run that prepared \<open>n\<close> stages aborts, if it does.\<close>

definition verdict :: "('w, 'e) flow \<Rightarrow> ('w, 'e) stage list \<Rightarrow> ('w, 'e) exchange \<Rightarrow> nat \<Rightarrow> 'e flow_error option" where
  "verdict f work ex n =
     (if 0 < n \<and> \<not> goes_on f work ex (n - 1) then
        (case prep_result work ex (n - 1) of
           Inl e \<Rightarrow> Some e
         | Inr res \<Rightarrow>
             if e_aborted (prep_state work ex n) then Some (abort_cause (prep_state work ex n))
             else if r_action res = ActDone then None
             else map_option ErrUnknownGroup (find (\<lambda>g. f_groups f g = None) (r_groups res)))
      else if n = length work then (if e_aborted (prep_state work ex n) then Some (abort_cause (prep_state work ex n)) else None)
      else if f_maxStages f \<le> int n then Some ErrTooManyStages
      else Some ErrContext)"

text \<open>The first phase of a run over \<open>work\<close>, which started from the stages \<open>sts\<close>, has ended after \<open>n\<close> stages.\<close>

definition phase_one :: "('w, 'e) flow \<Rightarrow> (nat \<Rightarrow> bool) \<Rightarrow> ('w, 'e) stage list \<Rightarrow> ('w, 'e) exchange \<Rightarrow> ('w, 'e) stage list \<Rightarrow> nat \<Rightarrow> bool" where
  "phase_one f ctx sts ex work n \<longleftrightarrow> work = sts @ routed f work ex n
     \<and> (\<forall>k < n. k < length work \<and> int k < f_maxStages f \<and> \<not> ctx k \<and> (Suc k < n \<longrightarrow> goes_on f work ex k))
     \<and> (n = length work \<or> f_maxStages f \<le> int n \<or> ctx n \<or> (0 < n \<and> \<not> goes_on f work ex (n - 1)))"

lemma prep_state_append: "k \<le> length work \<Longrightarrow> prep_state (work @ new) ex k = prep_state work ex k"
  by (induction k) (simp_all add: nth_append)

lemma prep_append:
  assumes "k < length work"
  shows "prep_result (work @ new) ex k = prep_result work ex k" "goes_on f (work @ new) ex k \<longleftrightarrow> goes_on f work ex k"
    "routed_by f (work @ new) ex k = routed_by f work ex k"
proof -
  show r: "prep_result (work @ new) ex k = prep_result work ex k"
    using assms by (simp add: prep_result_def prep_state_append nth_append)
  show g: "goes_on f (work @ new) ex k \<longleftrightarrow> goes_on f work ex k"
    using assms prep_state_append [of "Suc k" work new ex] by (simp add: goes_on_def r del: prep_state.simps split: sum.split)
  show "routed_by f (work @ new) ex k = routed_by f work ex k" by (simp add: routed_by_def r g split: sum.split)
qed

lemma routed_append: "n \<le> length work \<Longrightarrow> routed f (work @ new) ex n = routed f work ex n"
  by (auto simp: routed_def prep_append intro!: arg_cong [of _ _ concat])

lemma joins_append: "n \<le> length work \<Longrightarrow> joins (work @ new) ex n = joins work ex n"
  by (auto simp: joins_def prep_append intro!: filter_cong)

lemma routed_Suc: "routed f work ex (Suc n) = routed f work ex n @ routed_by f work ex n"
  by (simp add: routed_def)

lemma joins_Suc: "joins work ex (Suc n) = joins work ex n @ (if vote (prep_result work ex n) = Some ActContinue then [n] else [])"
  by (simp add: joins_def)

lemma joins_less: "k \<in> set (joins work ex n) \<Longrightarrow> k < n"
  by (simp add: joins_def)

lemma appendGroups_Inr:
  "appendGroups f work gs = Inr w \<longleftrightarrow> (\<forall>g \<in> set gs. f_groups f g \<noteq> None) \<and> w = work @ concat (map (\<lambda>g. the (f_groups f g)) gs)"
  by (induction gs arbitrary: work) (auto simp: resolve_def split: option.splits)

lemma appendGroups_Inl:
  "appendGroups f work gs = Inl e \<longleftrightarrow> map_option ErrUnknownGroup (find (\<lambda>g. f_groups f g = None) gs) = Some e"
  by (induction gs arbitrary: work) (auto simp: resolve_def split: option.splits)

text \<open>The prepare pass runs the first phase. \<open>outcome\<close> is what \<open>Run\<close> makes of the error and the abort mark.\<close>

definition outcome :: "'e flow_error option \<Rightarrow> ('w, 'e) exchange \<Rightarrow> 'e flow_error option" where
  "outcome err ex = (if err \<noteq> None \<or> e_aborted ex then Some (case err of Some e \<Rightarrow> e | None \<Rightarrow> abort_cause ex) else None)"

definition prepared :: "('w, 'e) stage list \<Rightarrow> ('w, 'e) exchange \<Rightarrow> nat \<Rightarrow> ('w, 'e) exchange \<Rightarrow> (nat \<times> ('w, 'e) stage) list \<Rightarrow> action option list \<Rightarrow> bool" where
  "prepared work ex0 n ex joined votes \<longleftrightarrow> ex = prep_state work ex0 n \<and> joined = map (\<lambda>k. (k, work ! k)) (joins work ex0 n)
     \<and> votes = map (\<lambda>k. vote (prep_result work ex0 k)) [0..<n]"

lemma prepared_append: "n \<le> length work \<Longrightarrow> prepared (work @ new) ex0 n ex joined votes \<longleftrightarrow> prepared work ex0 n ex joined votes"
proof -
  assume n: "n \<le> length work"
  have "map (\<lambda>k. (k, (work @ new) ! k)) (joins work ex0 n) = map (\<lambda>k. (k, work ! k)) (joins work ex0 n)"
    using n by (auto simp: nth_append dest!: joins_less)
  moreover have "map (\<lambda>k. vote (prep_result (work @ new) ex0 k)) [0..<n] = map (\<lambda>k. vote (prep_result work ex0 k)) [0..<n]"
    using n by (auto simp: prep_append)
  ultimately show ?thesis using n by (simp only: prepared_def prep_state_append joins_append)
qed

lemma prepared_Suc:
  assumes "prepared work ex0 n ex joined votes" "st_prepare (work ! n) ex = (ex1, r)"
  shows "prepared work ex0 (Suc n) ex1 (if vote r = Some ActContinue then joined @ [(n, work ! n)] else joined) (votes @ [vote r])"
    "prep_result work ex0 n = r" "prep_state work ex0 (Suc n) = ex1"
  using assms by (simp_all add: prepared_def prep_result_def joins_Suc)

lemma prepare_loop_phase_one:
  assumes "prepare_loop f ctx work i ex joined votes = (ex1, joined1, err, votes1)"
    and "work = sts @ routed f work ex0 i" "prepared work ex0 i ex joined votes"
    and "\<forall>k < i. k < length work \<and> int k < f_maxStages f \<and> \<not> ctx k \<and> goes_on f work ex0 k"
  shows "\<exists>W n. phase_one f ctx sts ex0 W n \<and> prepared W ex0 n ex1 joined1 votes1 \<and> outcome err ex1 = verdict f W ex0 n"
  using assms
proof (induction f ctx work i ex joined votes rule: prepare_loop.induct)
  case (1 f ctx work i ex joined votes)
  note run = 1(2) and W = 1(3) and P = 1(4) and past = 1(5)
  have len: "i \<le> length work" using past by (cases i) auto
  have last: "\<not> (0 < i \<and> \<not> goes_on f work ex0 (i - 1))" using past by (cases i) simp_all
  show ?case
  proof (cases "i \<ge> length work \<or> int i \<ge> f_maxStages f \<or> ctx i")
    case True
    then have r: "ex1 = ex \<and> joined1 = joined \<and> votes1 = votes \<and>
        err = (if i \<ge> length work then None else if int i \<ge> f_maxStages f then Some ErrTooManyStages else Some ErrContext)"
      using run by (subst (asm) prepare_loop.simps) (auto split: if_splits)
    have "phase_one f ctx sts ex0 work i" using W past len True by (auto simp: phase_one_def)
    moreover have "outcome err ex1 = verdict f work ex0 i"
      using r P len unfolding verdict_def if_not_P [OF last] by (simp add: outcome_def prepared_def)
    ultimately show ?thesis using P r by blast
  next
    case False
    obtain ex2 r where p: "st_prepare (work ! i) ex = (ex2, r)" by (cases "st_prepare (work ! i) ex")
    note P2 = prepared_Suc [OF P p]
    have stop: "phase_one f ctx sts ex0 work (Suc i)" if "\<not> goes_on f work ex0 i"
    proof -
      have "routed_by f work ex0 i = []" using that by (simp add: routed_by_def split: sum.split)
      then show ?thesis using W past False that by (auto simp: phase_one_def routed_Suc less_Suc_eq)
    qed
    show ?thesis
    proof (cases r)
      case (Inl e)
      then have no: "\<not> goes_on f work ex0 i" by (simp add: goes_on_def P2(2))
      have "ex1 = ex2 \<and> joined1 = joined \<and> err = Some e \<and> votes1 = votes @ [None]"
        using run p False Inl by (subst (asm) prepare_loop.simps) auto
      then show ?thesis
        using stop [OF no] P2 Inl no
        by (intro exI [of _ work] exI [of _ "Suc i"]) (simp add: verdict_def outcome_def vote_def del: prep_state.simps)
    next
      case (Inr res)
      let ?js = "if r_action res = ActContinue then joined @ [(i, work ! i)] else joined" and ?vs = "votes @ [Some (r_action res)]"
      have P3: "prepared work ex0 (Suc i) ex2 ?js ?vs" using P2(1) Inr by (simp add: vote_def cong: if_cong)
      show ?thesis
      proof (cases "goes_on f work ex0 i")
        case no: False
        have "ex1 = ex2 \<and> joined1 = ?js \<and> votes1 = ?vs
            \<and> err = (if e_aborted ex2 \<or> r_action res = ActDone then None else map_option ErrUnknownGroup (find (\<lambda>g. f_groups f g = None) (r_groups res)))"
        proof (cases "e_aborted ex2 \<or> r_action res = ActDone")
          case True
          then show ?thesis using run p False Inr by (subst (asm) prepare_loop.simps) (auto simp: Let_def split: if_splits)
        next
          case go: False
          then have "\<not> (\<forall>g \<in> set (r_groups res). f_groups f g \<noteq> None)" using no Inr by (simp add: goes_on_def P2 del: prep_state.simps)
          then obtain e where e: "appendGroups f work (r_groups res) = Inl e" using appendGroups_Inr by (metis obj_sumE)
          then show ?thesis using run p False Inr go appendGroups_Inl [of f work "r_groups res" e]
            by (subst (asm) prepare_loop.simps) (auto simp: Let_def)
        qed
        moreover have "outcome (if e_aborted ex2 \<or> r_action res = ActDone then None else map_option ErrUnknownGroup (find (\<lambda>g. f_groups f g = None) (r_groups res))) ex2
            = verdict f work ex0 (Suc i)"
        proof (cases "find (\<lambda>g. f_groups f g = None) (r_groups res)")
          case None
          then have "\<forall>g \<in> set (r_groups res). f_groups f g \<noteq> None" by (simp add: find_None_iff)
          then have "e_aborted ex2 \<or> r_action res = ActDone" using no Inr by (simp add: goes_on_def P2 del: prep_state.simps)
          then show ?thesis using no Inr None by (simp add: verdict_def outcome_def P2 del: prep_state.simps)
        next
          case (Some g)
          then show ?thesis using no Inr by (simp add: verdict_def outcome_def P2 del: prep_state.simps)
        qed
        ultimately show ?thesis using stop [OF no] P3 by blast
      next
        case go: True
        then have g: "\<not> e_aborted ex2" "r_action res \<noteq> ActDone" "\<forall>g \<in> set (r_groups res). f_groups f g \<noteq> None"
          using Inr by (simp_all add: goes_on_def P2 del: prep_state.simps)
        let ?new = "concat (map (\<lambda>g. the (f_groups f g)) (r_groups res))"
        have w: "appendGroups f work (r_groups res) = Inr (work @ ?new)" using g(3) by (simp add: appendGroups_Inr)
        have rec: "prepare_loop f ctx (work @ ?new) (Suc i) ex2 ?js ?vs = (ex1, joined1, err, votes1)"
          using run p Inr False g w by (subst (asm) prepare_loop.simps) (simp add: Let_def)
        have li: "i < length work" using False by simp
        have "routed f (work @ ?new) ex0 (Suc i) = routed f work ex0 i @ ?new"
          using li go Inr routed_append [of i work f ?new ex0] by (simp add: routed_Suc prep_append) (simp add: routed_by_def P2)
        then have W': "work @ ?new = sts @ routed f (work @ ?new) ex0 (Suc i)" using W by simp
        have past': "\<forall>k < Suc i. k < length (work @ ?new) \<and> int k < f_maxStages f \<and> \<not> ctx k \<and> goes_on f (work @ ?new) ex0 k"
          using past go False li by (auto simp: less_Suc_eq prep_append)
        have P': "prepared (work @ ?new) ex0 (Suc i) ex2 ?js ?vs" using P3 li by (simp add: prepared_append)
        show ?thesis
          by (rule 1(1) [OF _ _ _ p [symmetric] Inr refl refl _ _ w rec W' P' past']) (use False g in simp_all)
      qed
    qed
  qed
qed

text \<open>The second phase: what the commit or abort halves of stages do to the exchange, and the errors of the commits.\<close>

definition half :: "(('w, 'e) exchange \<Rightarrow> ('w, 'e) exchange \<times> 'e option) option \<Rightarrow> ('w, 'e) exchange \<Rightarrow> ('w, 'e) exchange" where
  "half h ex = (case h of None \<Rightarrow> ex | Some c \<Rightarrow> fst (c ex))"

definition commit_error :: "('w, 'e) stage \<Rightarrow> ('w, 'e) exchange \<Rightarrow> (bytes \<times> 'e) list" where
  "commit_error st ex = (case st_commit st of None \<Rightarrow> [] | Some c \<Rightarrow> (case snd (c ex) of None \<Rightarrow> [] | Some e \<Rightarrow> [(st_name st, e)]))"

definition commit_errors :: "('w, 'e) stage list \<Rightarrow> ('w, 'e) exchange \<Rightarrow> (bytes \<times> 'e) list" where
  "commit_errors sts ex = concat (map (\<lambda>j. commit_error (sts ! j) (fold (\<lambda>st. half (st_commit st)) (take j sts) ex)) [0..<length sts])"

lemma commit_errors_Cons: "commit_errors (st # sts) ex = commit_error st ex @ commit_errors sts (half (st_commit st) ex)"
proof -
  have "[0..<length (st # sts)] = 0 # map Suc [0..<length sts]" by (simp add: map_Suc_upt upt_conv_Cons del: upt_Suc)
  then show ?thesis by (simp add: commit_errors_def comp_def del: upt_Suc length_Cons)
qed

lemma commitJoined_eq:
  "commitJoined (map (\<lambda>k. (k, work ! k)) ks) ex =
     (fold (\<lambda>k. half (st_commit (work ! k))) ks ex, commit_errors (map (\<lambda>k. work ! k) ks) ex,
      map CallCommit (filter (\<lambda>k. st_commit (work ! k) \<noteq> None) ks))"
proof (induction ks arbitrary: ex)
  case Nil
  show ?case by (simp add: commit_errors_def)
next
  case (Cons k ks)
  show ?case
    by (simp add: Cons.IH commit_errors_Cons commit_error_def half_def split: option.split prod.split)
qed

lemma abort_loop_eq:
  "abort_loop (map (\<lambda>k. (k, work ! k)) ks) ex =
     (fold (\<lambda>k. half (st_abort (work ! k))) ks ex, map CallAbort (filter (\<lambda>k. st_abort (work ! k) \<noteq> None) ks))"
  by (induction ks arbitrary: ex) (simp_all add: half_def split: option.split prod.split)

text \<open>How the second phase of a run over \<open>work\<close> ends, after \<open>n\<close> stages have prepared.\<close>

definition phase_two :: "('w, 'e) flow \<Rightarrow> ('w, 'e) stage list \<Rightarrow> ('w, 'e) exchange \<Rightarrow> nat \<Rightarrow> ('w, 'e) exchange \<Rightarrow> 'e call list \<Rightarrow> 'e run_result \<Rightarrow> bool" where
  "phase_two f work ex n ex' cs res \<longleftrightarrow>
     (case verdict f work ex n of
        Some cause \<Rightarrow> res = RunErr cause
          \<and> ex' = fold (\<lambda>k. half (st_abort (work ! k))) (rev (joins work ex n)) ((prep_state work ex n)\<lparr>e_aborted := True, e_err := Some cause\<rparr>)
          \<and> cs = emit f EventBegin @ map (\<lambda>k. CallPrepare k (vote (prep_result work ex k))) [0..<n]
              @ map CallAbort (filter (\<lambda>k. st_abort (work ! k) \<noteq> None) (rev (joins work ex n))) @ emit f (EventAborted cause)
      | None \<Rightarrow> res = (let errs = commit_errors (map (\<lambda>k. work ! k) (joins work ex n)) (prep_state work ex n) in if errs = [] then RunNil else RunCommit errs)
          \<and> ex' = fold (\<lambda>k. half (st_commit (work ! k))) (joins work ex n) (prep_state work ex n)
          \<and> cs = emit f EventBegin @ map (\<lambda>k. CallPrepare k (vote (prep_result work ex k))) [0..<n]
              @ map CallCommit (filter (\<lambda>k. st_commit (work ! k) \<noteq> None) (joins work ex n)) @ emit f EventCommitted)"

lemma run_stages_phases:
  assumes "run_stages f ctx sts ex = (ex', cs, res)"
  shows "\<exists>work n. phase_one f ctx sts ex work n \<and> phase_two f work ex n ex' cs res"
proof -
  obtain ex1 joined err votes where p: "prepare_loop f ctx sts 0 ex [] [] = (ex1, joined, err, votes)"
    by (cases "prepare_loop f ctx sts 0 ex [] []")
  obtain W n where W: "phase_one f ctx sts ex W n" "prepared W ex n ex1 joined votes" "outcome err ex1 = verdict f W ex n"
    using prepare_loop_phase_one [OF p, of sts ex] by (auto simp: routed_def prepared_def joins_def)
  have calls: "map2 CallPrepare [0..<length votes] votes = map (\<lambda>k. CallPrepare k (vote (prep_result W ex k))) [0..<n]"
    using W(2) by (simp add: prepared_def map2_map_map zip_map2 zip_same_conv_map)
  have js: "joined = map (\<lambda>k. (k, W ! k)) (joins W ex n)" "ex1 = prep_state W ex n" using W(2) by (simp_all add: prepared_def)
  have "phase_two f W ex n ex' cs res"
  proof (cases "verdict f W ex n")
    case None
    then have "err = None" "\<not> e_aborted ex1" using W(3) by (auto simp: outcome_def split: if_splits)
    with assms p None show ?thesis
      by (simp add: phase_two_def run_stages_def calls commitJoined_eq js Let_def)
  next
    case (Some cause)
    then have "err \<noteq> None \<or> e_aborted ex1" "(case err of Some e \<Rightarrow> e | None \<Rightarrow> (case e_err ex1 of Some e \<Rightarrow> e | None \<Rightarrow> ErrAborted)) = cause"
      using W(3) by (auto simp: outcome_def abort_cause_def split: if_splits option.splits)
    from this [unfolded js(2)] assms p Some show ?thesis
      by (simp add: phase_two_def run_stages_def calls abortJoined_def rev_map abort_loop_eq js Let_def del: not_None_eq)
  qed
  with W(1) show ?thesis by blast
qed

lemma Run_cases:
  assumes "Run lookup put f ctx ex s = (ex', s', cs, res)"
  shows "s' = s \<or> res = RunNil"
  using assms by (auto simp: Run_def split: if_splits sum.splits option.splits prod.splits bool.splits)

text \<open>C10: A run is two-phase. For a run that is not answered from the idempotency store, there are a work list, which is
  the stages of the entry group followed by the groups routed to, and a number \<open>n\<close> of stages prepared, such that: the
  first \<open>n\<close> stages prepare one after the other, each on the exchange its predecessor left, none beyond the stage limit or
  the end of the context, and the pass ends only at the end of the list, the limit, the end of the context, or a stage
  that fails, aborts, votes done or routes to an unknown group. Then, if there is a cause to abort, exactly the stages
  that voted to join and have an abort half are aborted, in reverse order and nothing commits, the run returns the
  cause, and the abort is journalled with it; otherwise exactly the stages that voted to join and have a commit half
  commit, in order, each once and even after one has failed, the commit is journalled, the run returns the errors of the
  commits, and the response is stored under the idempotency key if there were none. The calls are listed in full, and the
  exchange returned is the one these calls leave.\<close>

theorem flow_two_phase:
  fixes f :: "('w, 'e) flow"
  assumes "Run lookup put f ctx ex s = (ex', s', cs, res)"
    and "f_entry f \<noteq> []" "f_groups f (f_entry f) = Some sts" "(case f_idemKey f of None \<Rightarrow> None | Some kf \<Rightarrow> kf ex) = key"
    and "case key of None \<Rightarrow> True | Some k \<Rightarrow> \<not> snd (lookup s k)"
  shows "\<exists>work n. work = sts @ routed f work ex n
    \<and> (\<forall>k < n. k < length work \<and> int k < f_maxStages f \<and> \<not> ctx k \<and> (Suc k < n \<longrightarrow> goes_on f work ex k))
    \<and> (n = length work \<or> f_maxStages f \<le> int n \<or> ctx n \<or> (0 < n \<and> \<not> goes_on f work ex (n - 1)))
    \<and> (case verdict f work ex n of
         Some cause \<Rightarrow> res = RunErr cause \<and> s' = s
           \<and> ex' = fold (\<lambda>k. half (st_abort (work ! k))) (rev (joins work ex n)) ((prep_state work ex n)\<lparr>e_aborted := True, e_err := Some cause\<rparr>)
           \<and> cs = emit f EventBegin @ map (\<lambda>k. CallPrepare k (vote (prep_result work ex k))) [0..<n]
               @ map CallAbort (filter (\<lambda>k. st_abort (work ! k) \<noteq> None) (rev (joins work ex n))) @ emit f (EventAborted cause)
       | None \<Rightarrow> res = (let errs = commit_errors (map (\<lambda>k. work ! k) (joins work ex n)) (prep_state work ex n) in if errs = [] then RunNil else RunCommit errs)
           \<and> s' = (case key of Some k \<Rightarrow> if res = RunNil then put s k (e_response ex') else s | None \<Rightarrow> s)
           \<and> ex' = fold (\<lambda>k. half (st_commit (work ! k))) (joins work ex n) (prep_state work ex n)
           \<and> cs = emit f EventBegin @ map (\<lambda>k. CallPrepare k (vote (prep_result work ex k))) [0..<n]
               @ map CallCommit (filter (\<lambda>k. st_commit (work ! k) \<noteq> None) (joins work ex n)) @ emit f EventCommitted)"
proof -
  have r: "run_stages f ctx sts ex = (ex', cs, res)" "s' = (case key of Some k \<Rightarrow> if res = RunNil then put s k (e_response ex') else s | None \<Rightarrow> s)"
    using assms by (auto simp: Run_def resolve_def split: option.splits prod.splits bool.splits)
  from run_stages_phases [OF r(1)] obtain work n where "phase_one f ctx sts ex work n" "phase_two f work ex n ex' cs res" by blast
  then show ?thesis unfolding phase_one_def phase_two_def
    using r(2) by (intro exI [of _ work] exI [of _ n] conjI) (auto split: option.splits)
qed

text \<open>A retried stage makes between one and the allowed number of attempts, one after the other on the same exchange, and
  returns what the last of them returned unless the context ended.\<close>

primrec attempts :: "('w, 'e) stage \<Rightarrow> nat \<Rightarrow> ('w, 'e) exchange \<Rightarrow> ('w, 'e) exchange" where
  "attempts st 0 ex = ex"
| "attempts st (Suc n) ex = attempts st n (fst (st_prepare st ex))"

lemma retry_loop_attempts:
  "retry_loop inner p ctx a ex = (ex', r) \<Longrightarrow>
     \<exists>n. int n \<le> max 0 (MaxAttempts p - a) \<and> ex' = attempts inner (Suc n) ex
       \<and> (r = snd (st_prepare inner (attempts inner n ex)) \<or> r = Inl ErrContext)"
proof (induction inner p ctx a ex rule: retry_loop.induct)
  case (1 inner p ctx a ex)
  obtain ex1 r1 where p: "st_prepare inner ex = (ex1, r1)" by (cases "st_prepare inner ex")
  show ?case
  proof (cases "(\<exists>e. r1 = Inl e \<and> \<not> e_aborted ex1 \<and> (case Retryable p of None \<Rightarrow> True | Some ok \<Rightarrow> ok e)) \<and> a < MaxAttempts p \<and> \<not> ctx a")
    case True
    then obtain e where e: "r1 = Inl e" "\<not> (e_aborted ex1 \<or> (case Retryable p of None \<Rightarrow> False | Some ok \<Rightarrow> \<not> ok e))"
      by (auto split: option.splits)
    have rec: "retry_loop inner p ctx (a + 1) ex1 = (ex', r)"
      using 1(2) p e True by (subst (asm) retry_loop.simps) (auto split: if_splits)
    from 1(1) [OF p [symmetric] e(1) e(2) _ _ rec] True
    obtain n where "int n \<le> max 0 (MaxAttempts p - (a + 1))" "ex' = attempts inner (Suc n) ex1"
        "r = snd (st_prepare inner (attempts inner n ex1)) \<or> r = Inl ErrContext" by auto
    with p True show ?thesis by (intro exI [of _ "Suc n"]) auto
  next
    case False
    with 1(2) p have "ex' = ex1 \<and> (r = r1 \<or> r = Inl ErrContext)"
      by (subst (asm) retry_loop.simps) (auto split: if_splits sum.splits option.splits)
    with p show ?thesis by (intro exI [of _ 0]) auto
  qed
qed

subsection \<open>Idempotent replay\<close>

text \<open>What the pipeline relies on from an idempotency store: a stored key is found with its response, in the form the
  store hands it out, and other keys are untouched.\<close>

locale idempotency_store =
  fixes lookup :: "'s \<Rightarrow> bytes \<Rightarrow> message option \<times> bool"
    and put :: "'s \<Rightarrow> bytes \<Rightarrow> message option \<Rightarrow> 's"
    and form :: "message \<Rightarrow> message"
  assumes lookup_put: "lookup (put s k r) k' = (if k' = k then (map_option form r, True) else lookup s k')"
begin

lemma replay:
  assumes "Run lookup put f ctx ex s = (ex', s', cs, RunNil)" "f_idemKey f = Some kf" "kf ex = Some k" "kf ex2 = Some k"
    and "\<not> snd (lookup s k)"
  shows "Run lookup put f ctx2 ex2 s' = (ex2\<lparr>e_response := map_option form (e_response ex')\<rparr>, s', emit f EventIdempotentHit, RunNil)"
proof -
  from assms obtain sts where sts: "f_entry f \<noteq> []" "resolve f (f_entry f) = Inr sts" "s' = put s k (e_response ex')"
    by (auto simp: Run_def split: if_splits sum.splits option.splits prod.splits bool.splits)
  with assms(2,4) show ?thesis by (simp add: Run_def lookup_put)
qed

lemma reprocess:
  assumes "Run lookup put f ctx ex s = (ex', s', cs, res)" "res \<noteq> RunNil"
  shows "lookup s' k = lookup s k"
  using Run_cases [OF assms(1)] assms(2) by auto

end

interpretation memory: idempotency_store memory_Lookup memory_Store "\<lambda>m. Clone (Clone m)"
  by unfold_locales (simp add: memory_Lookup_def memory_Store_def split: option.split)

text \<open>C28: A duplicate is answered, not reprocessed. After a run that returned no error for a new idempotency key, every
  run whose exchange has the same key calls no stage, returns no error and answers with the first run's response, in the
  copy the memory store hands out; while after a run that failed the key is as unknown as before.\<close>

theorem flow_idempotent_replay:
  assumes "Run memory_Lookup memory_Store f ctx ex s = (ex', s', cs, res)" "f_idemKey f = Some kf" "kf ex = Some k" "kf ex2 = Some k"
    and "s k = None"
  shows "if res = RunNil
    then Run memory_Lookup memory_Store f ctx2 ex2 s' =
      (ex2\<lparr>e_response := map_option (\<lambda>m. Clone (Clone m)) (e_response ex')\<rparr>, s', emit f EventIdempotentHit, RunNil)
    else memory_Lookup s' k = (None, False)"
proof (cases "res = RunNil")
  case True
  have "\<not> snd (memory_Lookup s k)" using assms(5) by (simp add: memory_Lookup_def)
  with assms(1-4) True show ?thesis by (simp add: memory.replay)
next
  case False
  with memory.reprocess [OF assms(1) False, of k] assms(5) show ?thesis by (simp add: memory_Lookup_def)
qed

text \<open>A run whose commit phase failed is journalled as committed: the event is emitted before the errors of the
  commits are looked at.\<close>

theorem flow_failed_commit_journalled:
  assumes "Run lookup put f ctx ex s = (ex', s', cs, RunCommit errs)" "f_journal f"
  shows "errs \<noteq> [] \<and> last cs = Journal EventCommitted"
proof -
  have "run_stages f ctx sts ex = (ex', cs, RunCommit errs) \<Longrightarrow> errs \<noteq> [] \<and> last cs = Journal EventCommitted" for sts
    using assms(2) by (auto simp: run_stages_def Let_def emit_def split: prod.splits if_splits)
  with assms(1) show ?thesis by (auto simp: Run_def split: if_splits sum.splits option.splits prod.splits bool.splits)
qed

subsection \<open>Instances\<close>

text \<open>A stage that reserves and commits, and one whose commit fails.\<close>

definition demo_stage :: "bool \<Rightarrow> (nat, nat) stage" where
  "demo_stage bad = \<lparr>st_name = [115], st_prepare = (\<lambda>ex. (ex\<lparr>e_state := e_state ex + 1\<rparr>, Inr Continue)),
     st_commit = Some (\<lambda>ex. (ex, if bad then Some 9 else None)), st_abort = Some (\<lambda>ex. (ex\<lparr>e_state := e_state ex - 1\<rparr>, None))\<rparr>"

definition demo_flow :: "bool \<Rightarrow> (nat, nat) flow" where
  "demo_flow bad = (Group flow_New [103] [demo_stage bad])\<lparr>f_journal := True, f_idemKey := Some (\<lambda>ex. Some (e_id ex))\<rparr>"

lemma demo_flow_run:
  "Run memory_Lookup memory_Store (demo_flow bad) (\<lambda>_. False) (NewExchange [1] 0) NewMemoryStore =
     (\<lparr>e_id = [1], e_response = None, e_state = 1, e_err = None, e_aborted = False\<rparr>,
      if bad then NewMemoryStore else NewMemoryStore([1] \<mapsto> None),
      [Journal EventBegin, CallPrepare 0 (Some ActContinue), CallCommit 0, Journal EventCommitted],
      if bad then RunCommit [([115], 9)] else RunNil)"
proof -
  have "prepare_loop (demo_flow bad) (\<lambda>_. False) [demo_stage bad] 0 (NewExchange [1] 0) [] [] =
      (\<lparr>e_id = [1], e_response = None, e_state = 1, e_err = None, e_aborted = False\<rparr>, [(0, demo_stage bad)], None, [Some ActContinue])"
    by (subst prepare_loop.simps, simp add: demo_flow_def Group_def flow_New_def demo_stage_def NewExchange_def Continue_def)
  then have "run_stages (demo_flow bad) (\<lambda>_. False) [demo_stage bad] (NewExchange [1] 0) =
      (\<lparr>e_id = [1], e_response = None, e_state = 1, e_err = None, e_aborted = False\<rparr>,
       [Journal EventBegin, CallPrepare 0 (Some ActContinue), CallCommit 0, Journal EventCommitted],
       if bad then RunCommit [([115], 9)] else RunNil)"
    by (simp add: run_stages_def emit_def demo_flow_def demo_stage_def)
  then show ?thesis
    by (simp add: Run_def demo_flow_def Group_def flow_New_def resolve_def NewExchange_def memory_Lookup_def NewMemoryStore_def memory_Store_def)
qed

theorem flow_two_phase_witness:
  "\<exists>work n. work = [demo_stage True] @ routed (demo_flow True) work (NewExchange [1] 0) n \<and> verdict (demo_flow True) work (NewExchange [1] 0) n = None
     \<and> RunCommit [([115], 9)] = RunCommit (commit_errors (map (\<lambda>k. work ! k) (joins work (NewExchange [1] 0) n)) (prep_state work (NewExchange [1] 0) n))
     \<and> [Journal EventBegin, CallPrepare 0 (Some ActContinue), CallCommit 0, Journal EventCommitted] =
         emit (demo_flow True) EventBegin @ map (\<lambda>k. CallPrepare k (vote (prep_result work (NewExchange [1] 0) k))) [0..<n]
           @ map CallCommit (filter (\<lambda>k. st_commit (work ! k) \<noteq> None) (joins work (NewExchange [1] 0) n)) @ emit (demo_flow True) EventCommitted"
proof -
  have f: "f_entry (demo_flow True) \<noteq> []" "f_groups (demo_flow True) (f_entry (demo_flow True)) = Some [demo_stage True]"
      "(case f_idemKey (demo_flow True) of None \<Rightarrow> None | Some kf \<Rightarrow> kf (NewExchange [1] 0)) = Some [1]"
    by (simp_all add: demo_flow_def Group_def flow_New_def NewExchange_def)
  have "\<not> snd (memory_Lookup NewMemoryStore [1])" by (simp add: memory_Lookup_def NewMemoryStore_def)
  from flow_two_phase [OF demo_flow_run [of True] f] this show ?thesis
    by (simp add: option.case_eq_if Let_def split: if_splits del: not_None_eq) blast
qed

theorem flow_idempotent_replay_witness:
  "Run memory_Lookup memory_Store (demo_flow False) (\<lambda>_. False) (NewExchange [1] 7) (NewMemoryStore([1] \<mapsto> None)) =
     (NewExchange [1] 7, NewMemoryStore([1] \<mapsto> None), [Journal EventIdempotentHit], RunNil)"
proof -
  have "f_idemKey (demo_flow False) = Some (\<lambda>ex. Some (e_id ex))" "NewMemoryStore [1] = None"
    by (simp_all add: demo_flow_def NewMemoryStore_def)
  with flow_idempotent_replay [OF demo_flow_run [of False] this(1), of "[1]" "NewExchange [1] 7" "\<lambda>_. False"]
  show ?thesis by (simp add: NewExchange_def emit_def demo_flow_def)
qed

theorem flow_failed_commit_journalled_witness:
  "\<exists>ex' s' cs. Run memory_Lookup memory_Store (demo_flow True) (\<lambda>_. False) (NewExchange [1] 0) NewMemoryStore = (ex', s', cs, RunCommit [([115], 9)])
     \<and> last cs = Journal EventCommitted"
proof -
  obtain ex' s' cs where r: "Run memory_Lookup memory_Store (demo_flow True) (\<lambda>_. False) (NewExchange [1] 0) NewMemoryStore = (ex', s', cs, RunCommit [([115], 9)])"
    using demo_flow_run [of True] by auto
  have "f_journal (demo_flow True)" by (simp add: demo_flow_def)
  with r flow_failed_commit_journalled [OF r] show ?thesis by blast
qed

end
