(* ===== verification/Rbac.thy ===== *)
theory Rbac
  imports Prelude "HOL-Library.List_Lexorder"
begin

text \<open>
  Role-based access control, \<^verbatim>\<open>src/rbac/rbac.go\<close> and \<^verbatim>\<open>src/rbac/credentials.go\<close>: users, roles, permissions with
  wildcards, and password verifiers. PBKDF2 and the source of salts are outside the program: the key derivation is
  the parameter \<open>kdf\<close> of the operations that use it, and a salt is the sixteen bytes read, if reading succeeds.
\<close>

subsection \<open>Credentials\<close>

definition DefaultIterations :: int where "DefaultIterations = 600000"
definition keyLen :: nat where "keyLen = 32"

record credential =
  Salt :: bytes
  Iterations :: int
  Hash :: bytes

type_synonym kdf = "bytes \<Rightarrow> bytes \<Rightarrow> int \<Rightarrow> nat \<Rightarrow> bytes option"

datatype rbac_error = ErrReadSalt | ErrDeriveKey | ErrNoSuchUser bytes

definition hashPassword :: "kdf \<Rightarrow> bytes option \<Rightarrow> bytes \<Rightarrow> int \<Rightarrow> rbac_error + credential" where
  "hashPassword kdf salt password iterations =
     (let it = (if iterations \<le> 0 then DefaultIterations else iterations) in
      case salt of
        None \<Rightarrow> Inl ErrReadSalt
      | Some sl \<Rightarrow> (case kdf password sl it keyLen of
            None \<Rightarrow> Inl ErrDeriveKey
          | Some h \<Rightarrow> Inr \<lparr>Salt = sl, Iterations = it, Hash = h\<rparr>))"

definition Verify :: "kdf \<Rightarrow> credential \<Rightarrow> bytes \<Rightarrow> bool" where
  "Verify kdf c password =
     (if Hash c = [] \<or> Iterations c \<le> 0 then False
      else case kdf password (Salt c) (Iterations c) (length (Hash c)) of None \<Rightarrow> False | Some got \<Rightarrow> got = Hash c)"

subsection \<open>The policy\<close>

record user_rec =
  u_roles :: "bytes set"
  u_cred :: "credential option"

record policy =
  p_roles :: "bytes \<rightharpoonup> bytes set"
  p_users :: "bytes \<rightharpoonup> user_rec"
  p_iterations :: int
  p_dummy :: "credential option"

text \<open>\<open>NewPolicy\<close> with the iterations of the options given to it, if any, and the salt of the dummy credential.\<close>

definition WithIterations :: "int \<Rightarrow> policy \<Rightarrow> policy" where
  "WithIterations n p = (if n > 0 then p\<lparr>p_iterations := n\<rparr> else p)"

definition NewPolicy :: "kdf \<Rightarrow> bytes option \<Rightarrow> int list \<Rightarrow> policy" where
  "NewPolicy kdf salt opts =
     (let p = fold WithIterations opts \<lparr>p_roles = Map.empty, p_users = Map.empty, p_iterations = DefaultIterations, p_dummy = None\<rparr> in
      case hashPassword kdf salt [] (p_iterations p) of Inl _ \<Rightarrow> p | Inr d \<Rightarrow> p\<lparr>p_dummy := Some d\<rparr>)"

definition AddRole :: "bytes \<Rightarrow> bytes list \<Rightarrow> policy \<Rightarrow> policy" where
  "AddRole name perms p = p\<lparr>p_roles := (p_roles p)(name \<mapsto> set perms)\<rparr>"

definition AddUser :: "bytes \<Rightarrow> bytes list \<Rightarrow> policy \<Rightarrow> policy" where
  "AddUser name roles p =
     p\<lparr>p_users := (p_users p)(name \<mapsto> \<lparr>u_roles = set roles,
        u_cred = (case p_users p name of None \<Rightarrow> None | Some existing \<Rightarrow> u_cred existing)\<rparr>)\<rparr>"

definition Grant :: "bytes \<Rightarrow> bytes \<Rightarrow> policy \<Rightarrow> rbac_error + policy" where
  "Grant user role p = (case p_users p user of None \<Rightarrow> Inl (ErrNoSuchUser user)
     | Some r \<Rightarrow> Inr (p\<lparr>p_users := (p_users p)(user \<mapsto> r\<lparr>u_roles := insert role (u_roles r)\<rparr>)\<rparr>))"

definition Revoke :: "bytes \<Rightarrow> bytes \<Rightarrow> policy \<Rightarrow> rbac_error + policy" where
  "Revoke user role p = (case p_users p user of None \<Rightarrow> Inl (ErrNoSuchUser user)
     | Some r \<Rightarrow> Inr (p\<lparr>p_users := (p_users p)(user \<mapsto> r\<lparr>u_roles := u_roles r - {role}\<rparr>)\<rparr>))"

definition SetPassword :: "kdf \<Rightarrow> bytes option \<Rightarrow> bytes \<Rightarrow> bytes \<Rightarrow> policy \<Rightarrow> rbac_error + policy" where
  "SetPassword kdf salt user password p =
     (case hashPassword kdf salt password (p_iterations p) of
        Inl e \<Rightarrow> Inl e
      | Inr cred \<Rightarrow> (case p_users p user of None \<Rightarrow> Inl (ErrNoSuchUser user)
          | Some r \<Rightarrow> Inr (p\<lparr>p_users := (p_users p)(user \<mapsto> r\<lparr>u_cred := Some cred\<rparr>)\<rparr>)))"

definition Authenticate :: "kdf \<Rightarrow> policy \<Rightarrow> bytes \<Rightarrow> bytes \<Rightarrow> bool" where
  "Authenticate kdf p user password =
     (case (case p_users p user of None \<Rightarrow> None | Some r \<Rightarrow> u_cred r) of None \<Rightarrow> False | Some cred \<Rightarrow> Verify kdf cred password)"

definition has_suffix :: "bytes \<Rightarrow> bytes \<Rightarrow> bool" where
  "has_suffix s suf \<longleftrightarrow> length suf \<le> length s \<and> drop (length s - length suf) s = suf"

definition has_prefix :: "bytes \<Rightarrow> bytes \<Rightarrow> bool" where
  "has_prefix s pre \<longleftrightarrow> take (length pre) s = pre"

text \<open>\<open>42\<close> is the asterisk and \<open>58\<close> the colon.\<close>

definition permMatch :: "bytes \<Rightarrow> bytes \<Rightarrow> bool" where
  "permMatch granted requested =
     (if granted = [42] \<or> granted = requested then True
      else if has_suffix granted [58, 42] then has_prefix requested (take (length granted - 1) granted)
      else False)"

definition Can :: "policy \<Rightarrow> bytes \<Rightarrow> bytes \<Rightarrow> bool" where
  "Can p user perm =
     (case p_users p user of
        None \<Rightarrow> False
      | Some r \<Rightarrow> (\<exists>role \<in> u_roles r. case p_roles p role of None \<Rightarrow> False | Some gs \<Rightarrow> (\<exists>granted \<in> gs. permMatch granted perm)))"

definition policy_Roles :: "policy \<Rightarrow> bytes \<Rightarrow> rbac_error + bytes list" where
  "policy_Roles p user = (case p_users p user of None \<Rightarrow> Inl (ErrNoSuchUser user) | Some r \<Rightarrow> Inr (sorted_list_of_set (u_roles r)))"

subsection \<open>Roles and permissions\<close>

text \<open>The abstract model: which user has which role, and which role has which permission.\<close>

definition user_roles :: "policy \<Rightarrow> (bytes \<times> bytes) set" where
  "user_roles p = {(u, role). \<exists>r. p_users p u = Some r \<and> role \<in> u_roles r}"

definition role_perms :: "policy \<Rightarrow> (bytes \<times> bytes) set" where
  "role_perms p = {(role, g). \<exists>gs. p_roles p role = Some gs \<and> g \<in> gs}"

lemma has_suffix_iff: "has_suffix s suf \<longleftrightarrow> (\<exists>p. s = p @ suf)"
proof
  assume "has_suffix s suf"
  then have "s = take (length s - length suf) s @ suf" by (metis append_take_drop_id has_suffix_def)
  then show "\<exists>p. s = p @ suf" ..
qed (auto simp: has_suffix_def)

lemma has_prefix_iff: "has_prefix s pre \<longleftrightarrow> (\<exists>r. s = pre @ r)"
  unfolding has_prefix_def by (metis append_eq_conv_conj append_take_drop_id)

lemma permMatch_iff:
  "permMatch g r \<longleftrightarrow> g = [42] \<or> g = r \<or> (\<exists>ns rest. g = ns @ [58, 42] \<and> r = ns @ 58 # rest)"
proof -
  have "take (length (ns @ [58, 42]) - 1) (ns @ [58, 42]) = ns @ [58 :: byte]" for ns by simp
  then show ?thesis by (auto simp: permMatch_def has_suffix_iff has_prefix_iff)
qed

lemma Can_iff: "Can p u perm \<longleftrightarrow> (\<exists>role g. (u, role) \<in> user_roles p \<and> (role, g) \<in> role_perms p \<and> permMatch g perm)"
  by (cases "p_users p u") (fastforce simp: Can_def user_roles_def role_perms_def split: option.splits)+

text \<open>The policy implements role-based access control. A user may do something exactly when a role assigned to the
  user has a permission that is the wildcard, the requested one, or a namespace wildcard over it; and every operation
  changes the two relations as it should: defining a role or a user replaces its row, granting adds one pair, revoking
  removes one, an unknown user is an error, and setting a password changes neither.\<close>

theorem rbac_refines:
  "(Can p u perm \<longleftrightarrow> (\<exists>role g. (u, role) \<in> user_roles p \<and> (role, g) \<in> role_perms p
      \<and> (g = [42] \<or> g = perm \<or> (\<exists>ns rest. g = ns @ [58, 42] \<and> perm = ns @ 58 # rest))))
   \<and> user_roles (AddRole n ps p) = user_roles p \<and> role_perms (AddRole n ps p) = {(r, g) \<in> role_perms p. r \<noteq> n} \<union> {n} \<times> set ps
   \<and> user_roles (AddUser n rs p) = {(v, r) \<in> user_roles p. v \<noteq> n} \<union> {n} \<times> set rs \<and> role_perms (AddUser n rs p) = role_perms p
   \<and> (case Grant n role p of Inl e \<Rightarrow> p_users p n = None \<and> e = ErrNoSuchUser n
      | Inr q \<Rightarrow> user_roles q = insert (n, role) (user_roles p) \<and> role_perms q = role_perms p)
   \<and> (case Revoke n role p of Inl e \<Rightarrow> p_users p n = None \<and> e = ErrNoSuchUser n
      | Inr q \<Rightarrow> user_roles q = user_roles p - {(n, role)} \<and> role_perms q = role_perms p)
   \<and> (case SetPassword kdf salt n pw p of Inl _ \<Rightarrow> True | Inr q \<Rightarrow> user_roles q = user_roles p \<and> role_perms q = role_perms p)"
proof (intro conjI)
  show "Can p u perm \<longleftrightarrow> (\<exists>role g. (u, role) \<in> user_roles p \<and> (role, g) \<in> role_perms p
      \<and> (g = [42] \<or> g = perm \<or> (\<exists>ns rest. g = ns @ [58, 42] \<and> perm = ns @ 58 # rest)))"
    by (simp add: Can_iff permMatch_iff)
qed (auto simp: user_roles_def role_perms_def AddRole_def AddUser_def Grant_def Revoke_def SetPassword_def split: option.splits sum.splits if_splits)

subsection \<open>Passwords\<close>

text \<open>Passwords. With a key derivation that returns as many bytes as asked for: after a successful \<open>SetPassword\<close> the
  user authenticates with that password, and with another one only if it derives the same key; nobody else's
  authentication changes; and redefining the user, granting and revoking keep the password. A user who does not exist
  or has no password never authenticates.\<close>

theorem rbac_passwords:
  assumes "\<forall>pw s i n k. kdf pw s i n = Some k \<longrightarrow> length k = n"
    and "SetPassword kdf salt u pw p = Inr q"
  shows "Authenticate kdf q u pw
    \<and> (Authenticate kdf q u pw' \<longleftrightarrow> (\<exists>s i. salt = Some s \<and> kdf pw' s i keyLen = kdf pw s i keyLen \<and> i = (if p_iterations p \<le> 0 then DefaultIterations else p_iterations p)))
    \<and> (v \<noteq> u \<longrightarrow> Authenticate kdf q v pw' = Authenticate kdf p v pw')
    \<and> Authenticate kdf (AddUser u rs q) u pw \<and> Authenticate kdf (AddRole n ps q) u pw
    \<and> (\<forall>q'. Grant w role q = Inr q' \<or> Revoke w role q = Inr q' \<longrightarrow> Authenticate kdf q' u pw)
    \<and> (p_users p v = None \<longrightarrow> \<not> Authenticate kdf p v pw')"
proof -
  obtain s h r where s: "salt = Some s" and k: "kdf pw s (if p_iterations p \<le> 0 then DefaultIterations else p_iterations p) keyLen = Some h"
      and r: "p_users p u = Some r"
      and q: "q = p\<lparr>p_users := (p_users p)(u \<mapsto> r\<lparr>u_cred := Some \<lparr>Salt = s, Iterations = (if p_iterations p \<le> 0 then DefaultIterations else p_iterations p), Hash = h\<rparr>\<rparr>)\<rparr>"
    using assms(2) by (auto simp: SetPassword_def hashPassword_def Let_def split: option.splits sum.splits)
  define it where "it = (if p_iterations p \<le> 0 then DefaultIterations else p_iterations p)"
  have it: "0 < it" by (simp add: it_def DefaultIterations_def)
  have "length h = keyLen" using assms(1) k by blast
  then have h: "length h = keyLen" "h \<noteq> []" by (auto simp: keyLen_def)
  have auth: "Verify kdf \<lparr>Salt = s, Iterations = it, Hash = h\<rparr> x \<longleftrightarrow> kdf x s it keyLen = Some h" for x
    using it h by (simp add: Verify_def split: option.split)
  show ?thesis
    using s k r q auth unfolding it_def [symmetric]
    by (auto simp: Authenticate_def AddUser_def AddRole_def Grant_def Revoke_def split: option.splits if_splits)
qed

text \<open>A key derivation for the instance: the password, cut or filled to the length.\<close>

definition demo_kdf :: kdf where
  "demo_kdf pw s i n = Some (take n (pw @ replicate n 0))"

definition demo_policy :: policy where
  "demo_policy = AddUser [117] [[114]] \<lparr>p_roles = Map.empty, p_users = Map.empty, p_iterations = 1, p_dummy = None\<rparr>"

theorem rbac_passwords_witness:
  "\<exists>q. SetPassword demo_kdf (Some [1]) [117] [5] demo_policy = Inr q \<and> Authenticate demo_kdf q [117] [5] \<and> \<not> Authenticate demo_kdf q [117] [6]"
proof -
  have k: "\<forall>pw s i n k. demo_kdf pw s i n = Some k \<longrightarrow> length k = n" by (auto simp: demo_kdf_def)
  obtain q where q: "SetPassword demo_kdf (Some [1]) [117] [5] demo_policy = Inr q"
    by (auto simp: SetPassword_def hashPassword_def demo_kdf_def demo_policy_def AddUser_def)
  have "demo_kdf [6] [1] i keyLen \<noteq> demo_kdf [5] [1] i keyLen" for i by (simp add: demo_kdf_def keyLen_def)
  with rbac_passwords [OF k q, where pw' = "[6]"] q show ?thesis by blast
qed

end
