(* ===== verification/MemStore.thy ===== *)
theory MemStore
  imports BERTLV "HOL-Library.List_Lexorder"
begin

text \<open>
  The collection/key/value store, \<^verbatim>\<open>src/store/store.go\<close>: the in-process backend. A collection that has lost its last
  key is removed, so the outer map never holds an empty collection. The JSON helpers are generic wrappers over an
  encoder outside the program and are not modelled.
\<close>

datatype kv_error = ErrNotFound bytes bytes

type_synonym mem_store = "bytes \<rightharpoonup> (bytes \<rightharpoonup> bytes)"

definition NewMemStore :: mem_store where
  "NewMemStore = Map.empty"

definition mem_Get :: "mem_store \<Rightarrow> bytes \<Rightarrow> bytes \<Rightarrow> kv_error + bytes" where
  "mem_Get m collection key =
     (case m collection of
        None \<Rightarrow> Inl (ErrNotFound collection key)
      | Some c \<Rightarrow> (case c key of None \<Rightarrow> Inl (ErrNotFound collection key) | Some v \<Rightarrow> Inr v))"

definition mem_Put :: "mem_store \<Rightarrow> bytes \<Rightarrow> bytes \<Rightarrow> bytes \<Rightarrow> mem_store" where
  "mem_Put m collection key value = m(collection \<mapsto> (case m collection of None \<Rightarrow> Map.empty | Some c \<Rightarrow> c)(key \<mapsto> value))"

definition mem_Delete :: "mem_store \<Rightarrow> bytes \<Rightarrow> bytes \<Rightarrow> mem_store" where
  "mem_Delete m collection key =
     (case m collection of
        None \<Rightarrow> m
      | Some c \<Rightarrow> (let c' = c(key := None) in if dom c' = {} then m(collection := None) else m(collection \<mapsto> c')))"

definition mem_List :: "mem_store \<Rightarrow> bytes \<Rightarrow> bytes list" where
  "mem_List m collection = sorted_list_of_set (case m collection of None \<Rightarrow> {} | Some c \<Rightarrow> dom c)"

subsection \<open>Properties\<close>

text \<open>The flat view of the store: a map from collection and key to the value.\<close>

definition mem_view :: "mem_store \<Rightarrow> bytes \<times> bytes \<Rightarrow> bytes option" where
  "mem_view m ck = (case m (fst ck) of None \<Rightarrow> None | Some c \<Rightarrow> c (snd ck))"

definition mem_ok :: "mem_store \<Rightarrow> bool" where
  "mem_ok m \<longleftrightarrow> (\<forall>cn c. m cn = Some c \<longrightarrow> finite (dom c) \<and> dom c \<noteq> {})"

lemma view_Put: "mem_view (mem_Put m c k v) = (mem_view m)((c, k) \<mapsto> v)"
  by (rule ext) (auto simp: mem_view_def mem_Put_def split: option.split prod.split)

lemma view_Delete: "mem_view (mem_Delete m c k) = (mem_view m)((c, k) := None)"
proof
  fix ck :: "bytes \<times> bytes"
  obtain c' k' where ck: "ck = (c', k')" by (cases ck)
  show "mem_view (mem_Delete m c k) ck = ((mem_view m)((c, k) := None)) ck"
  proof (cases "m c")
    case None
    then show ?thesis by (simp add: ck mem_view_def mem_Delete_def)
  next
    case (Some cm)
    show ?thesis
    proof (cases "dom (cm(k := None)) = {}")
      case True
      then have "(cm(k := None)) k' = None" by (simp only: dom_eq_empty_conv)
      moreover have "mem_Delete m c k = m(c := None)" by (simp only: mem_Delete_def Let_def Some option.case True simp_thms if_True)
      ultimately show ?thesis using Some by (auto simp: ck mem_view_def split: if_splits)
    next
      case False
      then have "mem_Delete m c k = m(c \<mapsto> cm(k := None))" using Some unfolding mem_Delete_def Let_def by simp
      with Some show ?thesis by (simp add: ck mem_view_def)
    qed
  qed
qed

interpretation mem_kv: keyed_store "\<lambda>m ck v. mem_Put m (fst ck) (snd ck) v" mem_view "\<lambda>ck. ck"
  by unfold_locales (simp add: view_Put)

inductive mem_reach :: "mem_store \<Rightarrow> bool" where
  new: "mem_reach NewMemStore"
| put: "mem_reach m \<Longrightarrow> mem_reach (mem_Put m c k v)"
| delete: "mem_reach m \<Longrightarrow> mem_reach (mem_Delete m c k)"

lemma mem_reach_ok: "mem_reach m \<Longrightarrow> mem_ok m"
proof (induction rule: mem_reach.induct)
  case new
  show ?case by (simp add: NewMemStore_def mem_ok_def)
next
  case (put m c k v)
  then show ?case by (auto simp: mem_ok_def mem_Put_def split: option.splits if_splits)
next
  case (delete m c k)
  then show ?case by (auto simp: mem_ok_def mem_Delete_def Let_def split: option.splits if_splits)
qed

text \<open>The store keeps what was put. In every reachable store a read returns the value last put under that collection
  and key and not deleted since, or says that there is none; a write or a deletion changes that entry only; and
  listing a collection gives exactly its keys, each once, in ascending byte order.\<close>

theorem mem_store_correct:
  assumes "mem_reach m"
  shows "mem_Get (mem_Put m c k v) c' k' = (if c' = c \<and> k' = k then Inr v else mem_Get m c' k')
    \<and> mem_Get (mem_Delete m c k) c' k' = (if c' = c \<and> k' = k then Inl (ErrNotFound c k) else mem_Get m c' k')
    \<and> mem_Get NewMemStore c k = Inl (ErrNotFound c k)
    \<and> sorted (mem_List m c) \<and> distinct (mem_List m c) \<and> (k \<in> set (mem_List m c) \<longleftrightarrow> (\<exists>v. mem_Get m c k = Inr v))"
proof -
  have get: "mem_Get m' c' k' = (case mem_view m' (c', k') of None \<Rightarrow> Inl (ErrNotFound c' k') | Some v \<Rightarrow> Inr v)" for m' c' k'
    by (simp add: mem_Get_def mem_view_def split: option.split)
  have fin: "finite (case m c of None \<Rightarrow> {} | Some cm \<Rightarrow> dom cm)"
    using mem_reach_ok [OF assms] by (auto simp: mem_ok_def split: option.split)
  have "k \<in> set (mem_List m c) \<longleftrightarrow> (\<exists>v. mem_Get m c k = Inr v)"
    using fin by (auto simp: mem_List_def mem_Get_def split: option.splits)
  then show ?thesis unfolding get by (simp add: view_Put view_Delete mem_List_def) (simp add: mem_view_def NewMemStore_def)
qed

theorem mem_store_correct_witness:
  "mem_reach (mem_Put NewMemStore [1] [2] [3]) \<and> mem_Get (mem_Put (mem_Put NewMemStore [1] [2] [3]) [1] [2] [4]) [1] [2] = Inr [4]"
proof -
  have r: "mem_reach (mem_Put NewMemStore [1] [2] [3])" by (intro mem_reach.intros)
  with mem_store_correct [OF r, of "[1]" "[2]" "[4]" "[1]" "[2]"] show ?thesis by simp
qed

end
