(* ===== verification/Des.thy ===== *)
theory Des
imports Prelude
begin

text \<open>The block cipher of the vault: DES (FIPS 46-3) as Go's \<^verbatim>\<open>crypto/des\<close> package provides it to
  \<^verbatim>\<open>src/vault\<close>, and triple DES in encrypt-decrypt-encrypt order.  A block is eight bytes; inside the
  cipher it is the list of its 64 bits, most significant first.  The tables are those of the standard.
  The lemmas show that decryption inverts encryption, for every key, by the Feistel argument; the
  published test vector is checked by evaluation.\<close>

section \<open>Tables\<close>

definition des_IP :: "nat list" where
  "des_IP = [58, 50, 42, 34, 26, 18, 10, 2, 60, 52, 44, 36, 28, 20, 12, 4, 62, 54, 46, 38, 30, 22, 14, 6, 64, 56, 48, 40, 32, 24, 16, 8, 57, 49, 41, 33, 25, 17,
    9, 1, 59, 51, 43, 35, 27, 19, 11, 3, 61, 53, 45, 37, 29, 21, 13, 5, 63, 55, 47, 39, 31, 23, 15, 7]"

definition des_FP :: "nat list" where
  "des_FP = [40, 8, 48, 16, 56, 24, 64, 32, 39, 7, 47, 15, 55, 23, 63, 31, 38, 6, 46, 14, 54, 22, 62, 30, 37, 5, 45, 13, 53, 21, 61, 29, 36, 4, 44, 12, 52, 20,
    60, 28, 35, 3, 43, 11, 51, 19, 59, 27, 34, 2, 42, 10, 50, 18, 58, 26, 33, 1, 41, 9, 49, 17, 57, 25]"

definition des_E :: "nat list" where
  "des_E = [32, 1, 2, 3, 4, 5, 4, 5, 6, 7, 8, 9, 8, 9, 10, 11, 12, 13, 12, 13, 14, 15, 16, 17, 16, 17, 18, 19, 20, 21, 20, 21, 22, 23, 24, 25, 24, 25, 26, 27,
    28, 29, 28, 29, 30, 31, 32, 1]"

definition des_P :: "nat list" where
  "des_P = [16, 7, 20, 21, 29, 12, 28, 17, 1, 15, 23, 26, 5, 18, 31, 10, 2, 8, 24, 14, 32, 27, 3, 9, 19, 13, 30, 6, 22, 11, 4, 25]"

definition des_PC1 :: "nat list" where
  "des_PC1 = [57, 49, 41, 33, 25, 17, 9, 1, 58, 50, 42, 34, 26, 18, 10, 2, 59, 51, 43, 35, 27, 19, 11, 3, 60, 52, 44, 36, 63, 55, 47, 39, 31, 23, 15, 7, 62, 54,
    46, 38, 30, 22, 14, 6, 61, 53, 45, 37, 29, 21, 13, 5, 28, 20, 12, 4]"

definition des_PC2 :: "nat list" where
  "des_PC2 = [14, 17, 11, 24, 1, 5, 3, 28, 15, 6, 21, 10, 23, 19, 12, 4, 26, 8, 16, 7, 27, 20, 13, 2, 41, 52, 31, 37, 47, 55, 30, 40, 51, 45, 33, 48, 44, 49, 39,
    56, 34, 53, 46, 42, 50, 36, 29, 32]"

definition des_shifts :: "nat list" where
  "des_shifts = [1, 1, 2, 2, 2, 2, 2, 2, 1, 2, 2, 2, 2, 2, 2, 1]"

definition des_S :: "nat list list" where
  "des_S = [[14, 4, 13, 1, 2, 15, 11, 8, 3, 10, 6, 12, 5, 9, 0, 7, 0, 15, 7, 4, 14, 2, 13, 1, 10, 6, 12, 11, 9, 5, 3, 8, 4, 1, 14, 8, 13, 6, 2, 11, 15, 12, 9, 7,
    3, 10, 5, 0, 15, 12, 8, 2, 4, 9, 1, 7, 5, 11, 3, 14, 10, 0, 6, 13],
   [15, 1, 8, 14, 6, 11, 3, 4, 9, 7, 2, 13, 12, 0, 5, 10, 3, 13, 4, 7, 15, 2, 8,
    14, 12, 0, 1, 10, 6, 9, 11, 5, 0, 14, 7, 11, 10, 4, 13, 1, 5, 8, 12, 6, 9, 3, 2, 15, 13, 8, 10, 1, 3, 15, 4, 2, 11, 6, 7, 12, 0, 5, 14, 9],
   [10,
    0, 9, 14, 6, 3, 15, 5, 1, 13, 12, 7, 11, 4, 2, 8, 13, 7, 0, 9, 3, 4, 6, 10, 2, 8, 5, 14, 12, 11, 15, 1, 13, 6, 4, 9, 8, 15, 3, 0, 11, 1, 2, 12, 5,
    10, 14, 7, 1, 10, 13, 0, 6, 9, 8, 7, 4, 15, 14, 3, 11, 5, 2, 12],
   [7, 13, 14, 3, 0, 6, 9, 10, 1, 2, 8, 5, 11, 12, 4, 15, 13, 8, 11, 5, 6, 15, 0,
    3, 4, 7, 2, 12, 1, 10, 14, 9, 10, 6, 9, 0, 12, 11, 7, 13, 15, 1, 3, 14, 5, 2, 8, 4, 3, 15, 0, 6, 10, 1, 13, 8, 9, 4, 5, 11, 12, 7, 2, 14],
   [2,
    12, 4, 1, 7, 10, 11, 6, 8, 5, 3, 15, 13, 0, 14, 9, 14, 11, 2, 12, 4, 7, 13, 1, 5, 0, 15, 10, 3, 9, 8, 6, 4, 2, 1, 11, 10, 13, 7, 8, 15, 9, 12, 5, 6,
    3, 0, 14, 11, 8, 12, 7, 1, 14, 2, 13, 6, 15, 0, 9, 10, 4, 5, 3],
   [12, 1, 10, 15, 9, 2, 6, 8, 0, 13, 3, 4, 14, 7, 5, 11, 10, 15, 4, 2, 7, 12, 9,
    5, 6, 1, 13, 14, 0, 11, 3, 8, 9, 14, 15, 5, 2, 8, 12, 3, 7, 0, 4, 10, 1, 13, 11, 6, 4, 3, 2, 12, 9, 5, 15, 10, 11, 14, 1, 7, 6, 0, 8, 13],
   [4,
    11, 2, 14, 15, 0, 8, 13, 3, 12, 9, 7, 5, 10, 6, 1, 13, 0, 11, 7, 4, 9, 1, 10, 14, 3, 5, 12, 2, 15, 8, 6, 1, 4, 11, 13, 12, 3, 7, 14, 10, 15, 6, 8,
    0, 5, 9, 2, 6, 11, 13, 8, 1, 4, 10, 7, 9, 5, 0, 15, 14, 2, 3, 12],
   [13, 2, 8, 4, 6, 15, 11, 1, 10, 9, 3, 14, 5, 0, 12, 7, 1, 15, 13, 8, 10, 3, 7,
    4, 12, 5, 6, 11, 0, 14, 9, 2, 7, 11, 4, 1, 9, 12, 14, 2, 0, 6, 10, 13, 15, 3, 5, 8, 2, 1, 14, 7, 4, 10, 8, 13, 15, 12, 9, 0, 3, 5, 6, 11]]"

section \<open>The cipher\<close>

type_synonym bits = "bool list"

definition byte_bits :: "byte \<Rightarrow> bits" where
  "byte_bits b = map (bit b) [7, 6, 5, 4, 3, 2, 1, 0]"

definition bits_nat :: "bits \<Rightarrow> nat" where
  "bits_nat = foldl (\<lambda>a b. 2 * a + of_bool b) 0"

definition unpack_bits :: "bytes \<Rightarrow> bits" where
  "unpack_bits bs = concat (map byte_bits bs)"

fun pack_bits :: "bits \<Rightarrow> bytes" where
  "pack_bits (a # b # c # d # e # f # g # h # r) = of_nat (bits_nat [a, b, c, d, e, f, g, h]) # pack_bits r"
| "pack_bits _ = []"

text \<open>Table entries count bits from one, as the standard does.\<close>

definition perm :: "nat list \<Rightarrow> bits \<Rightarrow> bits" where
  "perm t x = map (\<lambda>i. x ! (i - 1)) t"

definition xor_bits :: "bits \<Rightarrow> bits \<Rightarrow> bits" where
  "xor_bits x y = map2 (\<noteq>) x y"

fun subkeys :: "nat list \<Rightarrow> bits \<Rightarrow> bits \<Rightarrow> bits list" where
  "subkeys [] c d = []"
| "subkeys (s # ss) c d = (let c' = rotate s c; d' = rotate s d in perm des_PC2 (c' @ d') # subkeys ss c' d')"

definition key_schedule :: "bytes \<Rightarrow> bits list" where
  "key_schedule k = (let x = perm des_PC1 (unpack_bits k) in subkeys des_shifts (take 28 x) (drop 28 x))"

definition nibble_bits :: "nat \<Rightarrow> bits" where
  "nibble_bits n = [odd (n div 8), odd (n div 4), odd (n div 2), odd n]"

fun sbox_out :: "nat list list \<Rightarrow> bits \<Rightarrow> bits" where
  "sbox_out (s # ss) (a # b # c # d # e # f # r) =
     nibble_bits (s ! (16 * bits_nat [a, f] + bits_nat [b, c, d, e])) @ sbox_out ss r"
| "sbox_out _ _ = []"

definition round_fun :: "bits \<Rightarrow> bits \<Rightarrow> bits" where
  "round_fun r k = perm des_P (sbox_out des_S (xor_bits (perm des_E r) k))"

fun feistel :: "bits list \<Rightarrow> bits \<times> bits \<Rightarrow> bits \<times> bits" where
  "feistel [] lr = lr"
| "feistel (k # ks) (l, r) = feistel ks (r, xor_bits l (round_fun r k))"

definition des_crypt :: "bits list \<Rightarrow> bytes \<Rightarrow> bytes" where
  "des_crypt ks b = (let x = perm des_IP (unpack_bits b); (l, r) = feistel ks (take 32 x, drop 32 x)
     in pack_bits (perm des_FP (r @ l)))"

definition des_enc :: "bytes \<Rightarrow> bytes \<Rightarrow> bytes" where
  "des_enc k b = des_crypt (key_schedule k) b"

definition des_dec :: "bytes \<Rightarrow> bytes \<Rightarrow> bytes" where
  "des_dec k b = des_crypt (rev (key_schedule k)) b"

text \<open>Triple DES under a 24-byte key.\<close>

definition tdes_enc :: "bytes \<Rightarrow> bytes \<Rightarrow> bytes" where
  "tdes_enc k b = des_enc (drop 16 k) (des_dec (take 8 (drop 8 k)) (des_enc (take 8 k) b))"

definition tdes_dec :: "bytes \<Rightarrow> bytes \<Rightarrow> bytes" where
  "tdes_dec k b = des_dec (take 8 k) (des_enc (take 8 (drop 8 k)) (des_dec (drop 16 k) b))"

section \<open>Bits and bytes\<close>

lemma length_byte_bits [simp]: "length (byte_bits b) = 8"
  by (simp add: byte_bits_def)

lemma length_unpack_bits [simp]: "length (unpack_bits bs) = 8 * length bs"
  by (induction bs) (simp_all add: unpack_bits_def)

lemma byte_bits_of_nat:
  "byte_bits (of_nat (bits_nat [a, b, c, d, e, f, g, h])) = [a, b, c, d, e, f, g, h]"
  by (cases a; cases b; cases c; cases d; cases e; cases f; cases g; cases h) (simp_all add: byte_bits_def bits_nat_def)

lemma byte_bits_inject: "byte_bits b = byte_bits c \<Longrightarrow> b = c"
proof (rule bit_word_eqI)
  fix n
  assume eq: "byte_bits b = byte_bits c" and "n < LENGTH(8)"
  then have "n = 0 \<or> n = 1 \<or> n = 2 \<or> n = 3 \<or> n = 4 \<or> n = 5 \<or> n = 6 \<or> n = 7"
    by auto
  then show "bit b n = bit c n"
    using eq by (elim disjE) (simp_all add: byte_bits_def)
qed

lemma byte_of_bits:
  "of_nat (bits_nat [bit b 7, bit b 6, bit b 5, bit b 4, bit b 3, bit b 2, bit b 1, bit b 0]) = (b :: byte)"
  by (rule byte_bits_inject) (simp only: byte_bits_of_nat, simp add: byte_bits_def)

lemma pack_unpack_bits [simp]: "pack_bits (unpack_bits bs) = bs"
  using byte_of_bits by (induction bs) (simp_all add: unpack_bits_def byte_bits_def)

lemma unpack_pack_bits: "length x = 8 * n \<Longrightarrow> unpack_bits (pack_bits x) = x"
proof (induction n arbitrary: x)
  case (Suc n)
  then obtain a b c d e f g h r where "x = a # b # c # d # e # f # g # h # r" "length r = 8 * n"
    by (auto simp: length_Suc_conv eval_nat_numeral)
  then show ?case
    using Suc.IH byte_bits_of_nat by (simp add: unpack_bits_def)
qed (simp add: unpack_bits_def)

lemma length_pack_bits: "length x = 8 * n \<Longrightarrow> length (pack_bits x) = n"
  using unpack_pack_bits [of x n] length_unpack_bits [of "pack_bits x"] by simp

section \<open>Decryption inverts encryption\<close>

lemma length_perm [simp]: "length (perm t x) = length t"
  by (simp add: perm_def)

lemma perm_perm:
  "\<forall>i\<in>set t. 0 < i \<and> i \<le> length u \<Longrightarrow> perm t (perm u x) = perm (map (\<lambda>i. u ! (i - 1)) t) x"
  by (auto simp: perm_def)

lemma perm_id: "length x = n \<Longrightarrow> perm [1..<Suc n] x = x"
  by (rule nth_equalityI) (auto simp: perm_def simp del: upt_Suc)

lemma table_lengths [simp]: "length des_IP = 64" "length des_FP = 64" "length des_P = 32"
  by (simp_all add: des_IP_def des_FP_def des_P_def)

lemma table_range:
  "\<forall>i\<in>set des_IP. 0 < i \<and> i \<le> 64" "\<forall>i\<in>set des_FP. 0 < i \<and> i \<le> 64"
  by (simp_all add: des_IP_def des_FP_def)

lemma IP_FP_tables:
  "map (\<lambda>i. des_FP ! (i - 1)) des_IP = [1..<65]" "map (\<lambda>i. des_IP ! (i - 1)) des_FP = [1..<65]"
  by code_simp+

lemma IP_FP [simp]: "length x = 64 \<Longrightarrow> perm des_IP (perm des_FP x) = x" "length x = 64 \<Longrightarrow> perm des_FP (perm des_IP x) = x"
  using perm_id [of x 64] by (simp_all add: perm_perm table_range IP_FP_tables [simplified])

lemma length_xor_bits [simp]: "length (xor_bits x y) = min (length x) (length y)"
  by (simp add: xor_bits_def)

lemma xor_bits_twice: "length x \<le> length y \<Longrightarrow> xor_bits (xor_bits x y) y = x"
  by (rule nth_equalityI) (auto simp: xor_bits_def)

lemma length_round_fun [simp]: "length (round_fun r k) = 32"
  by (simp add: round_fun_def)

lemma feistel_append: "feistel (ks @ ks') lr = feistel ks' (feistel ks lr)"
  by (induction ks lr rule: feistel.induct) simp_all

lemma feistel_lengths:
  "feistel ks (l, r) = (l', r') \<Longrightarrow> length l = 32 \<Longrightarrow> length r = 32 \<Longrightarrow> length l' = 32 \<and> length r' = 32"
  by (induction ks "(l, r)" arbitrary: l r rule: feistel.induct) auto

lemma feistel_inverse:
  "feistel ks (l, r) = (l', r') \<Longrightarrow> length l = 32 \<Longrightarrow> length r = 32 \<Longrightarrow> feistel (rev ks) (r', l') = (r, l)"
  by (induction ks "(l, r)" arbitrary: l r rule: feistel.induct) (auto simp: feistel_append xor_bits_twice)

lemma des_crypt_inverse: "length b = 8 \<Longrightarrow> des_crypt (rev ks) (des_crypt ks b) = b"
proof -
  assume b: "length b = 8"
  define x where "x = perm des_IP (unpack_bits b)"
  obtain l r where lr: "feistel ks (take 32 x, drop 32 x) = (l, r)"
    by fastforce
  have x: "length (take 32 x) = 32" "length (drop 32 x) = 32"
    by (simp_all add: x_def)
  note len = feistel_lengths [OF lr x]
  have c: "des_crypt ks b = pack_bits (perm des_FP (r @ l))"
    using lr by (simp add: des_crypt_def x_def [symmetric])
  have "unpack_bits (des_crypt ks b) = perm des_FP (r @ l)"
    unfolding c by (rule unpack_pack_bits [of _ 8]) simp
  then have "perm des_IP (unpack_bits (des_crypt ks b)) = r @ l"
    using len by simp
  then show ?thesis
    using len feistel_inverse [OF lr x] b by (simp add: des_crypt_def x_def [symmetric]) (simp add: x_def)
qed

lemma length_des_crypt: "length (des_crypt ks b) = 8"
  by (simp add: des_crypt_def Let_def case_prod_beta length_pack_bits [of _ 8])

lemma length_des [simp]: "length (des_enc k b) = 8" "length (des_dec k b) = 8"
  by (simp_all add: des_enc_def des_dec_def length_des_crypt)

lemma des_inverse [simp]:
  "length b = 8 \<Longrightarrow> des_dec k (des_enc k b) = b" "length b = 8 \<Longrightarrow> des_enc k (des_dec k b) = b"
  using des_crypt_inverse [of b "key_schedule k"] des_crypt_inverse [of b "rev (key_schedule k)"]
  by (simp_all add: des_enc_def des_dec_def)

lemma length_tdes [simp]: "length (tdes_enc k b) = 8" "length (tdes_dec k b) = 8"
  by (simp_all add: tdes_enc_def tdes_dec_def)

lemma tdes_inverse [simp]:
  "length b = 8 \<Longrightarrow> tdes_dec k (tdes_enc k b) = b" "length b = 8 \<Longrightarrow> tdes_enc k (tdes_dec k b) = b"
  by (simp_all add: tdes_enc_def tdes_dec_def)

text \<open>The worked example of the literature: key 133457799BBCDFF1, block 0123456789ABCDEF.\<close>

lemma des_vector:
  "des_enc [0x13, 0x34, 0x57, 0x79, 0x9B, 0xBC, 0xDF, 0xF1] [0x01, 0x23, 0x45, 0x67, 0x89, 0xAB, 0xCD, 0xEF] =
   [0x85, 0xE8, 0x13, 0x54, 0x0F, 0x0A, 0xB4, 0x05]"
  by code_simp

end
