(* ===== verification/Cipher.thy ===== *)
theory Cipher
imports Des
begin

text \<open>Block-cipher modes and message authentication of the vault: \<^verbatim>\<open>src/vault/cipher.go\<close>,
  \<^verbatim>\<open>cmac.go\<close> and \<^verbatim>\<open>mac.go\<close>.  A \<^verbatim>\<open>cipher.Block\<close> is the pair of its two
  directions; every block the package builds is DES or triple DES, so the block size is 8.  The
  loops over blocks consume the rest of the buffer; the destination slices are the results.  The
  lemmas show that the modes invert each other, that CBC-MAC is the last block of a zero-IV CBC
  encryption, and that a MAC tells apart any two messages that differ within one block.\<close>

section \<open>Errors and sequencing\<close>

datatype vault_error =
    ErrKeyLen | ErrBlockMultiple | ErrIVLen | ErrMACAlgorithm | ErrMACLen
  | ErrFormat | ErrPINLen | ErrPINDigit | ErrPANDigit | ErrPANLen | ErrPINBlockLen
  | ErrControl | ErrLengthNibble | ErrPad | ErrRandom
  | ErrKSNLen | ErrVariantLen | ErrATCLen | ErrARQCLen | ErrARCLen
  | ErrEmptyKey | ErrBlockShort | ErrVersion | ErrBlockLength | ErrOptionalBlocks | ErrBody | ErrHexData
  | ErrAuthentication | ErrPlainShort | ErrKeyLength | ErrKeyUsageLen | ErrKeyVersionLen | ErrBlockTooLarge
  | ErrUnknownKey | ErrUsage | ErrSealedShort | ErrUnseal

definition and_then :: "'e + 'a \<Rightarrow> ('a \<Rightarrow> 'e + 'b) \<Rightarrow> 'e + 'b" where
  "and_then r f = (case r of Inl e \<Rightarrow> Inl e | Inr x \<Rightarrow> f x)"

lemma and_then_simps [simp]: "and_then (Inl e) f = Inl e" "and_then (Inr x) f = f x"
  by (simp_all add: and_then_def)

lemma and_then_Inr: "and_then r f = Inr y \<longleftrightarrow> (\<exists>x. r = Inr x \<and> f x = Inr y)"
  by (cases r) simp_all

text \<open>\<^verbatim>\<open>io.ReadFull\<close> on the randomness source, the bytes it will still deliver.\<close>

definition read_random :: "nat \<Rightarrow> bytes \<Rightarrow> vault_error + bytes" where
  "read_random n r = (if length r < n then Inl ErrRandom else Inr (take n r))"

section \<open>Ciphers and modes\<close>

record cipher_block =
  b_enc :: "bytes \<Rightarrow> bytes"
  b_dec :: "bytes \<Rightarrow> bytes"

definition tripleDESBlock :: "bytes \<Rightarrow> vault_error + cipher_block" where
  "tripleDESBlock key =
     (if length key = 24 then Inr \<lparr>b_enc = tdes_enc key, b_dec = tdes_dec key\<rparr>
      else if length key = 16 then let k = key @ take 8 key in Inr \<lparr>b_enc = tdes_enc k, b_dec = tdes_dec k\<rparr>
      else Inl ErrKeyLen)"

definition desBlock :: "bytes \<Rightarrow> vault_error + cipher_block" where
  "desBlock key = (if length key \<noteq> 8 then Inl ErrKeyLen else Inr \<lparr>b_enc = des_enc key, b_dec = des_dec key\<rparr>)"

definition xored :: "bytes \<Rightarrow> bytes \<Rightarrow> bytes" where
  "xored a b = map2 (XOR) a b"

definition blockEnc :: "cipher_block \<Rightarrow> bytes \<Rightarrow> bytes" where
  "blockEnc b src = b_enc b src"

definition blockDec :: "cipher_block \<Rightarrow> bytes \<Rightarrow> bytes" where
  "blockDec b src = b_dec b src"

function each_block :: "(bytes \<Rightarrow> bytes) \<Rightarrow> bytes \<Rightarrow> bytes" where
  "each_block f src = (if src = [] then [] else f (take 8 src) @ each_block f (drop 8 src))"
  by auto
termination
  by (relation "measure (\<lambda>(f, src). length src)") auto

declare each_block.simps [simp del]

definition ecbEncrypt :: "cipher_block \<Rightarrow> bytes \<Rightarrow> vault_error + bytes" where
  "ecbEncrypt b src = (if length src mod 8 \<noteq> 0 then Inl ErrBlockMultiple else Inr (each_block (b_enc b) src))"

definition ecbDecrypt :: "cipher_block \<Rightarrow> bytes \<Rightarrow> vault_error + bytes" where
  "ecbDecrypt b src = (if length src mod 8 \<noteq> 0 then Inl ErrBlockMultiple else Inr (each_block (b_dec b) src))"

text \<open>\<^verbatim>\<open>cipher.NewCBCEncrypter\<close> and \<^verbatim>\<open>NewCBCDecrypter\<close>: the chaining value is the previous
  ciphertext block.\<close>

function cbc_encrypt :: "cipher_block \<Rightarrow> bytes \<Rightarrow> bytes \<Rightarrow> bytes" where
  "cbc_encrypt b iv src = (if src = [] then [] else
     let c = b_enc b (xored (take 8 src) iv) in c @ cbc_encrypt b c (drop 8 src))"
  by auto
termination
  by (relation "measure (\<lambda>(b, iv, src). length src)") auto

function cbc_decrypt :: "cipher_block \<Rightarrow> bytes \<Rightarrow> bytes \<Rightarrow> bytes" where
  "cbc_decrypt b iv src = (if src = [] then [] else
     xored (b_dec b (take 8 src)) iv @ cbc_decrypt b (take 8 src) (drop 8 src))"
  by auto
termination
  by (relation "measure (\<lambda>(b, iv, src). length src)") auto

declare cbc_encrypt.simps [simp del] cbc_decrypt.simps [simp del]

definition cbcEncrypt :: "cipher_block \<Rightarrow> bytes \<Rightarrow> bytes \<Rightarrow> vault_error + bytes" where
  "cbcEncrypt b iv src =
     (if length iv \<noteq> 8 then Inl ErrIVLen
      else if length src mod 8 \<noteq> 0 then Inl ErrBlockMultiple
      else Inr (cbc_encrypt b iv src))"

definition cbcDecrypt :: "cipher_block \<Rightarrow> bytes \<Rightarrow> bytes \<Rightarrow> vault_error + bytes" where
  "cbcDecrypt b iv src =
     (if length iv \<noteq> 8 then Inl ErrIVLen
      else if length src mod 8 \<noteq> 0 then Inl ErrBlockMultiple
      else Inr (cbc_decrypt b iv src))"

section \<open>CMAC\<close>

text \<open>\<open>shifted\<close> is the loop of \<open>dbl\<close>: every byte takes the top bit of its successor.\<close>

fun shifted :: "bytes \<Rightarrow> bytes" where
  "shifted [] = []"
| "shifted [x] = [push_bit 1 x]"
| "shifted (x # y # r) = (push_bit 1 x OR drop_bit 7 y) # shifted (y # r)"

definition dbl :: "bytes \<Rightarrow> bytes" where
  "dbl inp =
     (let rb = (if length inp = 16 then 0x87 else 0x1B); msb = drop_bit 7 (hd inp); out = shifted inp
      in if msb = 1 then butlast out @ [last out XOR rb] else out)"

definition cmacSubkeys :: "cipher_block \<Rightarrow> bytes \<times> bytes" where
  "cmacSubkeys b = (let l = blockEnc b (replicate 8 0); k1 = dbl l; k2 = dbl k1 in (k1, k2))"

function mac_chain :: "cipher_block \<Rightarrow> bytes \<Rightarrow> bytes \<Rightarrow> bytes" where
  "mac_chain b x msg = (if msg = [] then x else mac_chain b (blockEnc b (xored x (take 8 msg))) (drop 8 msg))"
  by auto
termination
  by (relation "measure (\<lambda>(b, x, msg). length msg)") auto

declare mac_chain.simps [simp del]

definition cmacBlock :: "cipher_block \<Rightarrow> bytes \<Rightarrow> bytes" where
  "cmacBlock b msg =
     (let (k1, k2) = cmacSubkeys b; n = length msg;
          (last_block, rest) =
            (if n > 0 \<and> n mod 8 = 0 then (xored (drop (n - 8) msg) k1, take (n - 8) msg)
             else let m = n mod 8; block = drop (n - m) msg @ [0x80] @ replicate (7 - m) 0
               in (xored block k2, take (n - m) msg))
      in blockEnc b (xored (mac_chain b (replicate 8 0) rest) last_block))"

section \<open>ISO 9797-1 MACs\<close>

datatype mac_algorithm = MACAlg1 | MACAlg3 | MACOther int

datatype padding = Pad1 | Pad2 | PadOther int

text \<open>The padding loop appends zeros until the length is a multiple of \<open>bs\<close>, which is 8 in every call.\<close>

function zero_fill :: "bytes \<Rightarrow> nat \<Rightarrow> bytes" where
  "zero_fill out bs = (if bs = 0 \<or> length out mod bs = 0 then out else zero_fill (out @ [0]) bs)"
  by auto
termination
  by (relation "measure (\<lambda>(out, bs). if length out mod bs = 0 then 0 else bs - length out mod bs)")
    (auto simp: mod_Suc diff_less_mono2)

declare zero_fill.simps [simp del]

definition applyPadding :: "padding \<Rightarrow> bytes \<Rightarrow> nat \<Rightarrow> bytes" where
  "applyPadding pad data bs = (case pad of
       Pad2 \<Rightarrow> zero_fill (data @ [0x80]) bs
     | _ \<Rightarrow> if data = [] then replicate bs 0 else if length data mod bs = 0 then data else zero_fill data bs)"

definition cbcMAC :: "cipher_block \<Rightarrow> bytes \<Rightarrow> bytes" where
  "cbcMAC b data = mac_chain b (replicate 8 0) data"

definition GenerateMAC :: "mac_algorithm \<Rightarrow> padding \<Rightarrow> bytes \<Rightarrow> bytes \<Rightarrow> vault_error + bytes" where
  "GenerateMAC alg pad key data =
     (let padded = applyPadding pad data 8 in
      case alg of
        MACAlg1 \<Rightarrow> and_then (desBlock key) (\<lambda>b. Inr (cbcMAC b padded))
      | MACAlg3 \<Rightarrow>
          if length key \<noteq> 16 then Inl ErrKeyLen
          else and_then (desBlock (take 8 key)) (\<lambda>b1. and_then (desBlock (drop 8 key)) (\<lambda>b2.
            Inr (blockEnc b1 (blockDec b2 (cbcMAC b1 padded)))))
      | MACOther _ \<Rightarrow> Inl ErrMACAlgorithm)"

definition VerifyMAC :: "mac_algorithm \<Rightarrow> padding \<Rightarrow> bytes \<Rightarrow> bytes \<Rightarrow> bytes \<Rightarrow> vault_error + bool" where
  "VerifyMAC alg pad key data mac =
     and_then (GenerateMAC alg pad key data) (\<lambda>full.
       if mac = [] \<or> length mac > length full then Inl ErrMACLen
       else Inr (take (length mac) full = mac))"

text \<open>The prefix-keyed digest; SHA-256 is a parameter.\<close>

definition SHA256MAC :: "(bytes \<Rightarrow> bytes) \<Rightarrow> bytes \<Rightarrow> bytes \<Rightarrow> bytes" where
  "SHA256MAC sha256 key data = sha256 (key @ data)"

definition VerifySHA256MAC :: "(bytes \<Rightarrow> bytes) \<Rightarrow> bytes \<Rightarrow> bytes \<Rightarrow> bytes \<Rightarrow> vault_error + bool" where
  "VerifySHA256MAC sha256 key data mac =
     (let full = SHA256MAC sha256 key data in
      if mac = [] \<or> length mac > length full then Inl ErrMACLen
      else Inr (take (length mac) full = mac))"

section \<open>Exclusive or\<close>

lemma length_xored [simp]: "length (xored a b) = min (length a) (length b)"
  by (simp add: xored_def)

lemma xored_twice [simp]: "length a \<le> length b \<Longrightarrow> xored (xored a b) b = a"
  by (rule nth_equalityI) (auto simp: xored_def xor.assoc)

lemma xored_comm: "xored a b = xored b a"
  by (rule nth_equalityI) (auto simp: xored_def xor.commute)

lemma xored_inject: "length a = length c \<Longrightarrow> length b = length c \<Longrightarrow> xored a c = xored b c \<longleftrightarrow> a = b"
  by (metis order_refl xored_twice)

lemma xored_inject': "length a = length c \<Longrightarrow> length b = length c \<Longrightarrow> xored c a = xored c b \<longleftrightarrow> a = b"
  using xored_inject [of a c b] by (simp add: xored_comm)

section \<open>What a block cipher gives its clients\<close>

locale block_cipher =
  fixes b :: cipher_block
  assumes length_enc: "length x = 8 \<Longrightarrow> length (b_enc b x) = 8"
    and length_dec: "length x = 8 \<Longrightarrow> length (b_dec b x) = 8"
    and dec_enc: "length x = 8 \<Longrightarrow> b_dec b (b_enc b x) = x"
    and enc_dec: "length x = 8 \<Longrightarrow> b_enc b (b_dec b x) = x"
begin

lemma enc_inject: "length x = 8 \<Longrightarrow> length y = 8 \<Longrightarrow> b_enc b x = b_enc b y \<longleftrightarrow> x = y"
  by (metis dec_enc)

lemma dec_inject: "length x = 8 \<Longrightarrow> length y = 8 \<Longrightarrow> b_dec b x = b_dec b y \<longleftrightarrow> x = y"
  by (metis enc_dec)

lemma ecb_step:
  assumes "length src = 8 * Suc n"
  shows "length (take 8 src) = 8" "length (drop 8 src) = 8 * n" "src \<noteq> []"
  using assms by auto

lemma ecb_length: "length src = 8 * n \<Longrightarrow> length (each_block (b_enc b) src) = 8 * n"
proof (induction n arbitrary: src)
  case (Suc n)
  with ecb_step [OF Suc.prems] show ?case
    by (simp add: each_block.simps [of _ src] length_enc)
qed (simp add: each_block.simps)

lemma ecb_inverse: "length src = 8 * n \<Longrightarrow> each_block (b_dec b) (each_block (b_enc b) src) = src"
proof (induction n arbitrary: src)
  case (Suc n)
  note step = ecb_step [OF Suc.prems]
  have "each_block (b_enc b) src = b_enc b (take 8 src) @ each_block (b_enc b) (drop 8 src)"
    using step by (simp add: each_block.simps [of _ src])
  moreover have "length (b_enc b (take 8 src)) = 8"
    using step by (simp add: length_enc)
  ultimately show ?case
    using step Suc.IH [of "drop 8 src"] by (subst each_block.simps) (auto simp: dec_enc)
qed (simp add: each_block.simps)

lemma cbc_length: "length src = 8 * n \<Longrightarrow> length iv = 8 \<Longrightarrow> length (cbc_encrypt b iv src) = 8 * n"
proof (induction n arbitrary: src iv)
  case (Suc n)
  with ecb_step [OF Suc.prems(1)] show ?case
    by (simp add: cbc_encrypt.simps [of _ _ src] Let_def length_enc)
qed (simp add: cbc_encrypt.simps)

lemma cbc_inverse: "length src = 8 * n \<Longrightarrow> length iv = 8 \<Longrightarrow> cbc_decrypt b iv (cbc_encrypt b iv src) = src"
proof (induction n arbitrary: src iv)
  case (Suc n)
  note step = ecb_step [OF Suc.prems(1)]
  define c where "c = b_enc b (xored (take 8 src) iv)"
  have c: "length c = 8" "b_dec b c = xored (take 8 src) iv"
    using step Suc.prems by (simp_all add: c_def length_enc dec_enc)
  have "cbc_encrypt b iv src = c @ cbc_encrypt b c (drop 8 src)"
    using step by (simp add: cbc_encrypt.simps [of _ _ src] c_def Let_def)
  with c step Suc.prems Suc.IH [of "drop 8 src" c] show ?case
    by (subst cbc_decrypt.simps) (auto simp: Let_def)
qed (simp add: cbc_encrypt.simps cbc_decrypt.simps)

lemma chain_length: "length x = 8 \<Longrightarrow> length msg = 8 * n \<Longrightarrow> length (mac_chain b x msg) = 8"
proof (induction n arbitrary: x msg)
  case (Suc n)
  with ecb_step [OF Suc.prems(2)] show ?case
    by (simp add: mac_chain.simps [of _ _ msg] length_enc blockEnc_def)
qed (simp add: mac_chain.simps)

lemma chain_append: "length pre = 8 * n \<Longrightarrow> mac_chain b x (pre @ post) = mac_chain b (mac_chain b x pre) post"
proof (induction n arbitrary: x pre)
  case (Suc n)
  with ecb_step [OF Suc.prems] show ?case
    by (simp add: mac_chain.simps [of _ _ "pre @ post"] mac_chain.simps [of _ _ pre])
qed (simp add: mac_chain.simps [of _ _ "[]"])

lemma chain_inject: "length x = 8 \<Longrightarrow> length y = 8 \<Longrightarrow> length msg = 8 * n \<Longrightarrow> mac_chain b x msg = mac_chain b y msg \<longleftrightarrow> x = y"
proof (induction n arbitrary: x y msg)
  case (Suc n)
  with ecb_step [OF Suc.prems(3)] show ?case
    by (simp add: mac_chain.simps [of _ _ msg] length_enc blockEnc_def enc_inject xored_inject)
qed (simp add: mac_chain.simps)

text \<open>CBC-MAC is the last block of the CBC encryption.\<close>

lemma chain_is_cbc:
  "length msg = 8 * Suc n \<Longrightarrow> length x = 8 \<Longrightarrow> mac_chain b x msg = drop (8 * n) (cbc_encrypt b x msg)"
proof (induction n arbitrary: x msg)
  case 0
  then show ?case
    by (auto simp: cbc_encrypt.simps [of _ _ msg] cbc_encrypt.simps [of _ _ "[]"] mac_chain.simps [of _ _ msg]
        mac_chain.simps [of _ _ "[]"] Let_def blockEnc_def xored_comm [of x])
next
  case (Suc n)
  note step = ecb_step [OF Suc.prems(1)]
  define c where "c = b_enc b (xored (take 8 msg) x)"
  have "length c = 8"
    using step Suc.prems by (simp add: c_def length_enc)
  moreover have "mac_chain b x msg = mac_chain b c (drop 8 msg)"
    using step by (simp add: mac_chain.simps [of _ _ msg] c_def blockEnc_def xored_comm [of x])
  moreover have "cbc_encrypt b x msg = c @ cbc_encrypt b c (drop 8 msg)"
    using step by (simp add: cbc_encrypt.simps [of _ _ msg] c_def Let_def)
  ultimately show ?case
    using Suc.IH [of "drop 8 msg" c] step by simp
qed

text \<open>Messages that differ within one block have different chain values.\<close>

lemma chain_block_differs:
  assumes "length pre = 8 * k" "length post = 8 * n" "length p = 8" "length q = 8" "p \<noteq> q" "length x = 8"
  shows "mac_chain b x (pre @ p @ post) \<noteq> mac_chain b x (pre @ q @ post)"
proof -
  define y where "y = mac_chain b x pre"
  have y: "length y = 8"
    using assms by (simp add: y_def chain_length)
  have one: "mac_chain b y r = b_enc b (xored y r)" if "length r = 8" for r
    using that by (auto simp: mac_chain.simps [of _ _ r] mac_chain.simps [of _ _ "[]"] blockEnc_def)
  have split: "mac_chain b x (pre @ r @ post) = mac_chain b (b_enc b (xored y r)) post" if "length r = 8" for r
    using assms(1) that one [OF that] by (simp add: chain_append [of pre k] chain_append [of r 1] y_def)
  have "b_enc b (xored y p) \<noteq> b_enc b (xored y q)"
    using assms y by (simp add: enc_inject xored_inject')
  then show ?thesis
    using assms y by (simp add: split chain_inject length_enc)
qed

end

interpretation des_cipher: block_cipher "\<lparr>b_enc = des_enc k, b_dec = des_dec k\<rparr>" for k
  by unfold_locales simp_all

interpretation tdes_cipher: block_cipher "\<lparr>b_enc = tdes_enc k, b_dec = tdes_dec k\<rparr>" for k
  by unfold_locales simp_all

lemma desBlock_cipher: "desBlock key = Inr b \<Longrightarrow> block_cipher b"
  using des_cipher.block_cipher_axioms by (auto simp: desBlock_def split: if_splits)

lemma desBlock_ok: "length key = 8 \<Longrightarrow> desBlock key = Inr \<lparr>b_enc = des_enc key, b_dec = des_dec key\<rparr>"
  by (simp add: desBlock_def)

lemma tripleDESBlock_cipher: "tripleDESBlock key = Inr b \<Longrightarrow> block_cipher b"
  using tdes_cipher.block_cipher_axioms by (auto simp: tripleDESBlock_def Let_def split: if_splits)

lemma tripleDESBlock_ok: "length key = 16 \<or> length key = 24 \<longleftrightarrow> (\<exists>b. tripleDESBlock key = Inr b)"
  by (auto simp: tripleDESBlock_def Let_def)

section \<open>Padding\<close>

lemma zero_fill_eq: "zero_fill out 8 = out @ replicate ((8 - length out mod 8) mod 8) 0"
proof (induction out "8 :: nat" rule: zero_fill.induct)
  case (1 out)
  show ?case
  proof (cases "length out mod 8 = 0")
    case True
    then show ?thesis
      by (simp add: zero_fill.simps)
  next
    case False
    have step: "(8 - m) mod 8 = Suc ((8 - (if Suc m = 8 then 0 else Suc m)) mod 8)" if "m \<noteq> 0" "m < 8" for m :: nat
      using that by (auto simp: mod_less)
    have arith: "(8 - n mod 8) mod 8 = Suc ((8 - Suc n mod 8) mod 8)" if "n mod 8 \<noteq> 0" for n :: nat
      using step [OF that] by (simp add: mod_Suc)
    have "zero_fill out 8 = zero_fill (out @ [0]) 8"
      using False by (simp add: zero_fill.simps [of out])
    then show ?thesis
      using False 1 arith [OF False] by simp
  qed
qed

text \<open>Padding appends bytes that depend on the length only, and fills at least one block.\<close>

definition pad_suffix :: "padding \<Rightarrow> nat \<Rightarrow> bytes" where
  "pad_suffix pad n =
     (if pad = Pad2 then 0x80 # replicate ((8 - Suc n mod 8) mod 8) 0
      else if n = 0 then replicate 8 0 else replicate ((8 - n mod 8) mod 8) 0)"

lemma applyPadding_eq: "applyPadding pad data 8 = data @ pad_suffix pad (length data)"
  by (cases pad; cases "data = []") (simp_all only: applyPadding_def pad_suffix_def zero_fill_eq padding.simps length_append
    list.size append_Nil append_Cons append_assoc if_True if_False length_0_conv simp_thms split: if_split,
    simp_all)

lemma fill_dvd: "8 dvd m + (8 - m mod 8) mod (8 :: nat)"
proof -
  have "(m + (8 - m mod 8) mod 8) mod 8 = (m mod 8 + (8 - m mod 8)) mod 8"
    by (simp only: mod_add_right_eq mod_add_left_eq)
  also have "m mod 8 + (8 - m mod 8) = 8"
    using mod_less_divisor [of 8 m] by linarith
  finally have "(m + (8 - m mod 8) mod 8) mod 8 = 0"
    by (simp only: mod_self)
  then show ?thesis
    by (simp only: dvd_eq_mod_eq_0)
qed

lemma pad_suffix_fills: "8 dvd n + length (pad_suffix pad n)" "0 < n + length (pad_suffix pad n)"
  using fill_dvd [of n] fill_dvd [of "Suc n"] by (simp_all only: pad_suffix_def length_replicate list.size split: if_split) simp_all

lemma padded_length: obtains n where "length (applyPadding pad data 8) = 8 * Suc n"
proof -
  obtain k where "length data + length (pad_suffix pad (length data)) = 8 * k" "0 < k"
    using pad_suffix_fills [of "length data" pad] by (metis dvdE mult_0_right neq0_conv)
  then show thesis
    using that [of "k - 1"] by (simp add: applyPadding_eq)
qed

text \<open>Method 2 is unambiguous: the marker byte cannot be confused with the data.\<close>

lemma applyPadding_Pad2_inject: "applyPadding Pad2 d 8 = applyPadding Pad2 d' 8 \<longleftrightarrow> d = d'"
proof
  assume eq: "applyPadding Pad2 d 8 = applyPadding Pad2 d' 8"
  have strip: "dropWhile (\<lambda>x. x = 0) (rev (applyPadding Pad2 e 8)) = 0x80 # rev e" for e :: bytes
    by (simp add: applyPadding_def zero_fill_eq dropWhile_append dropWhile_replicate)
  show "d = d'"
    using strip [of d] unfolding eq strip by simp
qed simp

lemma applyPadding_Pad1_ambiguous: "applyPadding Pad1 [1] 8 = applyPadding Pad1 [1, 0] 8"
  by code_simp

section \<open>Messages that differ within one block\<close>

lemma chain_differs:
  assumes "block_cipher b" "length x = 8" "length p = 8 * n" "length q = 8 * n" "p \<noteq> q"
    and eq: "take (8 * k) p = take (8 * k) q" "drop (8 * k + 8) p = drop (8 * k + 8) q"
  shows "mac_chain b x p \<noteq> mac_chain b x q"
proof -
  have k: "k < n"
  proof (rule ccontr)
    assume "\<not> k < n"
    then have "take (8 * k) p = p" "take (8 * k) q = q"
      using assms by simp_all
    then show False
      using eq assms(5) by simp
  qed
  define u p' q' w where defs: "u = take (8 * k) p" "p' = take 8 (drop (8 * k) p)" "q' = take 8 (drop (8 * k) q)"
    "w = drop (8 * k + 8) p"
  have split: "take (8 * k) r @ take 8 (drop (8 * k) r) @ drop (8 * k + 8) r = r" for r :: bytes
    by (metis append_take_drop_id add.commute drop_drop)
  have p: "p = u @ p' @ w" and q: "q = u @ q' @ w"
    using split [of p] split [of q] by (simp_all only: defs eq)
  have len: "length u = 8 * k" "length p' = 8" "length q' = 8" "length w = 8 * (n - Suc k)"
    using assms(3,4) k by (simp_all add: defs algebra_simps)
  have ne: "p' \<noteq> q'"
    using assms(5) p q by auto
  show ?thesis
    using block_cipher.chain_block_differs [OF assms(1) len(1,4,2,3) ne assms(2)] unfolding p q .
qed

lemma cbcMAC_differs:
  assumes b: "block_cipher b" and len: "length data = length data'" and ne: "data \<noteq> data'"
    and eq: "take (8 * k) data = take (8 * k) data'" "drop (8 * k + 8) data = drop (8 * k + 8) data'"
  shows "cbcMAC b (applyPadding pad data 8) \<noteq> cbcMAC b (applyPadding pad data' 8)"
proof -
  define s where "s = pad_suffix pad (length data)"
  obtain n where n: "length (applyPadding pad data 8) = 8 * n"
    by (rule padded_length)
  have s: "applyPadding pad data 8 = data @ s" "applyPadding pad data' 8 = data' @ s"
    using len by (simp_all add: applyPadding_eq s_def)
  have "mac_chain b (replicate 8 0) (data @ s) \<noteq> mac_chain b (replicate 8 0) (data' @ s)"
    by (rule chain_differs [OF b, of _ _ n _ k]) (use len n ne eq in \<open>simp_all add: s\<close>)
  then show ?thesis
    by (simp add: cbcMAC_def s)
qed

lemma cbcMAC_length:
  assumes "block_cipher b"
  shows "length (cbcMAC b (applyPadding pad data 8)) = 8"
proof -
  obtain n where n: "length (applyPadding pad data 8) = 8 * Suc n"
    by (rule padded_length)
  show ?thesis
    unfolding cbcMAC_def by (rule block_cipher.chain_length [OF assms _ n]) simp
qed

lemma GenerateMAC_cases:
  assumes "GenerateMAC alg pad key data = Inr m"
  obtains b where "alg = MACAlg1" "length key = 8" "desBlock key = Inr b" "m = cbcMAC b (applyPadding pad data 8)"
  | b1 b2 where "alg = MACAlg3" "length key = 16" "desBlock (take 8 key) = Inr b1" "desBlock (drop 8 key) = Inr b2"
      "m = blockEnc b1 (blockDec b2 (cbcMAC b1 (applyPadding pad data 8)))"
proof (cases alg)
  case MACAlg1
  with assms have len: "length key = 8"
    by (simp add: GenerateMAC_def desBlock_def split: if_splits)
  show thesis
    using assms MACAlg1 by (intro that(1) [OF MACAlg1 len desBlock_ok [OF len]]) (simp add: GenerateMAC_def desBlock_ok [OF len])
next
  case MACAlg3
  with assms have len: "length key = 16"
    by (simp add: GenerateMAC_def split: if_splits)
  have b: "desBlock (take 8 key) = Inr \<lparr>b_enc = des_enc (take 8 key), b_dec = des_dec (take 8 key)\<rparr>"
    "desBlock (drop 8 key) = Inr \<lparr>b_enc = des_enc (drop 8 key), b_dec = des_dec (drop 8 key)\<rparr>"
    using len by (simp_all add: desBlock_ok)
  show thesis
    using assms MACAlg3 len by (intro that(2) [OF MACAlg3 len b]) (simp add: GenerateMAC_def b)
qed (use assms in \<open>simp add: GenerateMAC_def\<close>)

lemma GenerateMAC_length: "GenerateMAC alg pad key data = Inr m \<Longrightarrow> length m = 8"
  by (erule GenerateMAC_cases)
    (auto simp: cbcMAC_length desBlock_cipher blockEnc_def blockDec_def
      intro!: block_cipher.length_enc block_cipher.length_dec)

lemma GenerateMAC_ok:
  "(\<exists>m. GenerateMAC alg pad key data = Inr m) \<longleftrightarrow> alg = MACAlg1 \<and> length key = 8 \<or> alg = MACAlg3 \<and> length key = 16"
  by (cases alg) (simp_all add: GenerateMAC_def desBlock_def)

lemma GenerateMAC_differs:
  assumes m: "GenerateMAC alg pad key data = Inr m" and m': "GenerateMAC alg pad key data' = Inr m'"
    and diff: "length data = length data'" "data \<noteq> data'"
      "take (8 * k) data = take (8 * k) data'" "drop (8 * k + 8) data = drop (8 * k + 8) data'"
  shows "m \<noteq> m'"
  using m
proof (cases rule: GenerateMAC_cases)
  case (1 b)
  then have "m' = cbcMAC b (applyPadding pad data' 8)"
    using m' by (simp add: GenerateMAC_def)
  then show ?thesis
    using 1 cbcMAC_differs [OF desBlock_cipher diff] by blast
next
  case (2 b1 b2)
  then have "m' = blockEnc b1 (blockDec b2 (cbcMAC b1 (applyPadding pad data' 8)))"
    using m' by (simp add: GenerateMAC_def)
  moreover have "block_cipher b1" "block_cipher b2"
    using 2 desBlock_cipher by blast+
  ultimately show ?thesis
    using 2 cbcMAC_differs [OF _ diff, of b1] cbcMAC_length [of b1]
    by (simp add: blockEnc_def blockDec_def block_cipher.enc_inject block_cipher.dec_inject block_cipher.length_dec)
qed

section \<open>Properties\<close>

text \<open>C24: a MAC verifies for its own message, at every truncation, and the full MAC is rejected for
  every message of the same length that differs from it inside one 8-byte block, for both algorithms
  and every padding method.\<close>

theorem mac_detects_block_change:
  assumes "GenerateMAC alg pad key data = Inr m"
    and "length data = length data'" "data \<noteq> data'"
    and "take (8 * k) data = take (8 * k) data'" "drop (8 * k + 8) data = drop (8 * k + 8) data'"
    and "0 < n" "n \<le> 8"
  shows "VerifyMAC alg pad key data (take n m) = Inr True \<and> VerifyMAC alg pad key data' m = Inr False"
proof -
  have len: "length m = 8"
    using assms(1) by (rule GenerateMAC_length)
  obtain m' where m': "GenerateMAC alg pad key data' = Inr m'"
    using assms(1) GenerateMAC_ok by blast
  then have "m \<noteq> m'" "length m' = 8"
    using GenerateMAC_differs [OF assms(1) m' assms(2-5)] GenerateMAC_length by blast+
  then show ?thesis
    using assms(1,6,7) m' len by (auto simp: VerifyMAC_def min_def)
qed

theorem mac_detects_block_change_witness:
  "\<exists>m. GenerateMAC MACAlg3 Pad2 (replicate 16 7) [1, 2, 3] = Inr m \<and>
     VerifyMAC MACAlg3 Pad2 (replicate 16 7) [1, 2, 3] (take 4 m) = Inr True \<and>
     VerifyMAC MACAlg3 Pad2 (replicate 16 7) [1, 2, 4] m = Inr False"
proof -
  obtain m where "GenerateMAC MACAlg3 Pad2 (replicate 16 7) [1, 2, 3] = Inr m"
    using GenerateMAC_ok [of MACAlg3 Pad2 "replicate 16 7" "[1, 2, 3]"] by auto
  then show ?thesis
    using mac_detects_block_change [of MACAlg3 Pad2 "replicate 16 7" "[1, 2, 3]" m "[1, 2, 4]" 0 4] by auto
qed

text \<open>Algorithm 1 is the last block of the zero-IV CBC encryption of the padded data, as the
  source documents it, and the retail MAC under a key with equal halves is algorithm 1 under that half.\<close>

theorem mac_is_cbc:
  assumes "desBlock key = Inr b"
  shows "\<exists>ct. cbcEncrypt b (replicate 8 0) (applyPadding pad data 8) = Inr ct \<and>
      GenerateMAC MACAlg1 pad key data = Inr (drop (length ct - 8) ct) \<and>
      GenerateMAC MACAlg3 pad (key @ key) data = GenerateMAC MACAlg1 pad key data"
proof -
  have b: "block_cipher b" and key: "length key = 8"
    using assms desBlock_cipher by (auto simp: desBlock_def split: if_splits)
  obtain n where n: "length (applyPadding pad data 8) = 8 * Suc n"
    by (rule padded_length)
  define ct where "ct = cbc_encrypt b (replicate 8 0) (applyPadding pad data 8)"
  have ct: "length ct = 8 * Suc n"
    using block_cipher.cbc_length [OF b n, of "replicate 8 0"] by (simp add: ct_def)
  have mac: "cbcMAC b (applyPadding pad data 8) = drop (length ct - 8) ct"
    using block_cipher.chain_is_cbc [OF b n, of "replicate 8 0"] ct by (simp add: cbcMAC_def ct_def)
  have "cbcEncrypt b (replicate 8 0) (applyPadding pad data 8) = Inr ct"
    using n by (simp add: cbcEncrypt_def ct_def)
  moreover have "blockEnc b (blockDec b (cbcMAC b (applyPadding pad data 8))) = cbcMAC b (applyPadding pad data 8)"
    using cbcMAC_length [OF b] by (simp add: blockEnc_def blockDec_def block_cipher.enc_dec [OF b])
  ultimately show ?thesis
    using assms key mac by (simp add: GenerateMAC_def)
qed

theorem mac_is_cbc_witness:
  "\<exists>b ct. desBlock [1, 2, 3, 4, 5, 6, 7, 8] = Inr b \<and> cbcEncrypt b (replicate 8 0) (applyPadding Pad1 [] 8) = Inr ct \<and>
     GenerateMAC MACAlg1 Pad1 [1, 2, 3, 4, 5, 6, 7, 8] [] = Inr (drop (length ct - 8) ct)"
proof -
  obtain b where b: "desBlock [1, 2, 3, 4, 5, 6, 7, 8] = Inr b"
    by (simp add: desBlock_def)
  show ?thesis
    using mac_is_cbc [OF b, of Pad1 "[]"] b by blast
qed

end
