(* ===== verification/Dukpt.thy ===== *)
theory Dukpt
imports Cipher
begin

text \<open>Key derivation of the vault: DUKPT (\<^verbatim>\<open>src/vault/dukpt.go\<close>) and EMV session keys and
  cryptograms (\<^verbatim>\<open>src/vault/emv.go\<close>).  The transaction counter and the scanning bit are 32-bit
  words, as in the source.  The lemmas show the key tree of the DUKPT standard: the key of a counter is one
  generation step from the key of the counter with its lowest bit cleared.\<close>

section \<open>DUKPT\<close>

definition keyVariantMask :: bytes where
  "keyVariantMask = [0xC0, 0xC0, 0xC0, 0xC0, 0, 0, 0, 0, 0xC0, 0xC0, 0xC0, 0xC0, 0, 0, 0, 0]"

definition VariantPIN :: bytes where
  "VariantPIN = [0, 0, 0, 0, 0, 0, 0, 0xFF, 0, 0, 0, 0, 0, 0, 0, 0xFF]"

definition DeriveIPEK :: "bytes \<Rightarrow> bytes \<Rightarrow> vault_error + bytes" where
  "DeriveIPEK bdk ksn =
     (if length bdk \<noteq> 16 then Inl ErrKeyLen
      else if length ksn \<noteq> 10 then Inl ErrKSNLen
      else let base = take 8 ksn; base = base[7 := base ! 7 AND 0xE0] in
        and_then (tripleDESBlock bdk) (\<lambda>b1. let left = blockEnc b1 base in
          and_then (tripleDESBlock (xored bdk keyVariantMask)) (\<lambda>b2. let right = blockEnc b2 base in
            Inr (left @ right))))"

definition ksnCounter :: "bytes \<Rightarrow> 32 word" where
  "ksnCounter ksn = push_bit 16 (ucast (ksn ! 7 AND 0x1F)) OR push_bit 8 (ucast (ksn ! 8)) OR ucast (ksn ! 9)"

definition KSNCounter :: "bytes \<Rightarrow> vault_error + 32 word" where
  "KSNCounter ksn = (if length ksn \<noteq> 10 then Inl ErrKSNLen else Inr (ksnCounter ksn))"

definition setCounterBit :: "bytes \<Rightarrow> 32 word \<Rightarrow> bytes" where
  "setCounterBit reg shift =
     reg[5 := reg ! 5 OR (ucast (drop_bit 16 shift) AND 0x1F), 6 := reg ! 6 OR ucast (drop_bit 8 shift), 7 := reg ! 7 OR ucast shift]"

definition dukptEncRegister :: "bytes \<Rightarrow> bytes \<Rightarrow> vault_error + bytes" where
  "dukptEncRegister key reg =
     and_then (desBlock (take 8 key)) (\<lambda>b.
       let bottom = xored reg (take 8 (drop 8 key)); bottom = blockEnc b bottom in
       Inr (xored bottom (take 8 (drop 8 key))))"

definition dukptGenerateKey :: "bytes \<Rightarrow> bytes \<Rightarrow> vault_error + bytes" where
  "dukptGenerateKey key reg =
     and_then (dukptEncRegister key reg) (\<lambda>right.
       and_then (dukptEncRegister (xored key keyVariantMask) reg) (\<lambda>left. Inr (left @ right)))"

lemma drop_bit_1_less: "(w :: 32 word) \<noteq> 0 \<Longrightarrow> unat (drop_bit (Suc 0) w) < unat w"
  by (simp add: drop_bit_eq_div unat_div unat_gt_0)

text \<open>The loop of \<open>DeriveSessionKey\<close>, with its scanning bit.\<close>

function derive_loop :: "32 word \<Rightarrow> 32 word \<Rightarrow> bytes \<Rightarrow> bytes \<Rightarrow> vault_error + bytes" where
  "derive_loop counter shift reg curKey =
     (if shift = 0 then Inr curKey
      else if counter AND shift \<noteq> 0 then
        let reg = setCounterBit reg shift in
        and_then (dukptGenerateKey curKey reg) (\<lambda>ck. derive_loop counter (drop_bit 1 shift) reg ck)
      else derive_loop counter (drop_bit 1 shift) reg curKey)"
  by auto

termination
  by (relation "measure (\<lambda>(counter, shift, reg, curKey). unat shift)") (auto intro: drop_bit_1_less)

declare derive_loop.simps [simp del]

definition DeriveSessionKey :: "bytes \<Rightarrow> bytes \<Rightarrow> vault_error + bytes" where
  "DeriveSessionKey ipek ksn =
     (if length ipek \<noteq> 16 then Inl ErrKeyLen
      else if length ksn \<noteq> 10 then Inl ErrKSNLen
      else let counter = ksnCounter ksn; reg = drop 2 ksn; reg = reg[5 := reg ! 5 AND 0xE0, 6 := 0, 7 := 0]
        in derive_loop counter 0x100000 reg ipek)"

definition DeriveVariant :: "bytes \<Rightarrow> bytes \<Rightarrow> vault_error + bytes" where
  "DeriveVariant txKey variant = (if length txKey \<noteq> 16 \<or> length variant \<noteq> 16 then Inl ErrVariantLen else Inr (xored txKey variant))"

section \<open>EMV\<close>

definition DeriveEMVSessionKey :: "bytes \<Rightarrow> bytes \<Rightarrow> vault_error + bytes" where
  "DeriveEMVSessionKey mk atc =
     (if length mk \<noteq> 16 then Inl ErrKeyLen
      else if length atc \<noteq> 2 then Inl ErrATCLen
      else and_then (tripleDESBlock mk) (\<lambda>b.
        let f1 = [atc ! 0, atc ! 1, 0xF0, 0, 0, 0, 0, 0]; f2 = [atc ! 0, atc ! 1, 0x0F, 0, 0, 0, 0, 0] in
        Inr (blockEnc b f1 @ blockEnc b f2)))"

definition GenerateARQC :: "bytes \<Rightarrow> bytes \<Rightarrow> vault_error + bytes" where
  "GenerateARQC sessionKey data = GenerateMAC MACAlg3 Pad2 sessionKey data"

definition VerifyARQC :: "bytes \<Rightarrow> bytes \<Rightarrow> bytes \<Rightarrow> vault_error + bool" where
  "VerifyARQC sessionKey data arqc =
     and_then (GenerateARQC sessionKey data) (\<lambda>want. if length arqc \<noteq> length want then Inr False else Inr (want = arqc))"

definition GenerateARPC :: "bytes \<Rightarrow> bytes \<Rightarrow> bytes \<Rightarrow> vault_error + bytes" where
  "GenerateARPC sessionKey arqc arc =
     (if length arqc \<noteq> 8 then Inl ErrARQCLen
      else if length arc \<noteq> 2 then Inl ErrARCLen
      else and_then (tripleDESBlock sessionKey) (\<lambda>b. Inr (blockEnc b (xored arqc (arc @ replicate 6 0)))))"

section \<open>Lengths and totality\<close>

lemma length_mask [simp]: "length keyVariantMask = 16"
  by (simp add: keyVariantMask_def)

lemma dukptEncRegister_ok:
  "length key = 16 \<Longrightarrow> length reg = 8 \<Longrightarrow> \<exists>out. dukptEncRegister key reg = Inr out \<and> length out = 8"
  by (simp add: dukptEncRegister_def desBlock_ok blockEnc_def)

lemma dukptGenerateKey_ok:
  assumes "length key = 16" "length reg = 8"
  shows "\<exists>out. dukptGenerateKey key reg = Inr out \<and> length out = 16"
proof -
  obtain right left where "dukptEncRegister key reg = Inr right" "length right = 8"
    "dukptEncRegister (xored key keyVariantMask) reg = Inr left" "length left = 8"
    using dukptEncRegister_ok [OF assms] dukptEncRegister_ok [of "xored key keyVariantMask" reg] assms by auto
  then show ?thesis
    by (simp add: dukptGenerateKey_def)
qed

lemma length_setCounterBit [simp]: "length (setCounterBit reg shift) = length reg"
  by (simp add: setCounterBit_def)

section \<open>The loop as a walk over the set bits\<close>

primrec derive_bits :: "nat list \<Rightarrow> bytes \<Rightarrow> bytes \<Rightarrow> vault_error + bytes" where
  "derive_bits [] reg key = Inr key"
| "derive_bits (j # js) reg key =
     (let reg = setCounterBit reg (2 ^ j) in and_then (dukptGenerateKey key reg) (derive_bits js reg))"

definition walk_reg :: "nat list \<Rightarrow> bytes \<Rightarrow> bytes" where
  "walk_reg js reg = foldl (\<lambda>r j. setCounterBit r (2 ^ j)) reg js"

lemma derive_bits_snoc:
  "derive_bits (js @ [i]) reg key = and_then (derive_bits js reg key) (\<lambda>k. dukptGenerateKey k (walk_reg (js @ [i]) reg))"
proof (induction js arbitrary: reg key)
  case Nil
  show ?case
    by (cases "dukptGenerateKey key (setCounterBit reg (2 ^ i))") (simp_all add: walk_reg_def Let_def)
next
  case (Cons j js)
  show ?case
    by (cases "dukptGenerateKey key (setCounterBit reg (2 ^ j))") (simp_all add: walk_reg_def Let_def Cons)
qed

lemma and_power: "i < 32 \<Longrightarrow> (c :: 32 word) AND 2 ^ i \<noteq> 0 \<longleftrightarrow> bit c i"
  by (metis and_exp_eq_0_iff_not_bit)

lemma derive_loop_0: "derive_loop c 0 = derive_bits []"
  by (intro ext) (simp add: derive_loop.simps)

lemma derive_loop_bits:
  "i < 32 \<Longrightarrow> derive_loop c (2 ^ i) reg key = derive_bits (filter (bit c) (rev [0..<Suc i])) reg key"
proof (induction i arbitrary: reg key)
  case 0
  then show ?case
    using and_power [of 0 c] by (simp add: derive_loop.simps [of _ 1] derive_loop_0 Let_def)
next
  case (Suc i)
  have half: "drop_bit 1 (2 ^ Suc i :: 32 word) = 2 ^ i"
    by (rule bit_word_eqI) (use Suc.prems in \<open>auto simp: bit_simps\<close>)
  have nz: "(2 ^ Suc i :: 32 word) \<noteq> 0"
    using Suc.prems bit_exp_iff [where 'a = "32 word", of "Suc i" "Suc i"] by (intro notI) simp
  have IH: "derive_loop c (2 ^ i) = derive_bits (filter (bit c) (rev [0..<Suc i]))"
    using Suc by (intro ext) simp
  show ?case
    unfolding derive_loop.simps [of _ "2 ^ Suc i"] half IH
    using nz and_power [OF Suc.prems, of c] by (simp add: Let_def eta_contract_eq)
qed

section \<open>The counter and the register\<close>

text \<open>The register that carries the counter bits \<open>c\<close>, over the device's part of the serial number.\<close>

definition reg_with :: "bytes \<Rightarrow> byte \<Rightarrow> 32 word \<Rightarrow> bytes" where
  "reg_with p h c = p @ [h OR (ucast (drop_bit 16 c) AND 0x1F), ucast (drop_bit 8 c), ucast c]"

lemma and_mask_or: "(h OR (a AND m)) OR (b AND m) = (h OR ((a OR b) AND m) :: byte)"
  by (rule bit_word_eqI) (auto simp: bit_simps)

lemma setCounterBit_reg: "length p = 5 \<Longrightarrow> setCounterBit (reg_with p h c) s = reg_with p h (c OR s)"
proof -
  assume p: "length p = 5"
  have "ucast (drop_bit n (c OR s)) = (ucast (drop_bit n c) OR ucast (drop_bit n s) :: byte)" for n
    by (rule bit_word_eqI) (auto simp: bit_simps)
  from this [of 16] this [of 8] this [of 0] p show ?thesis
    by (simp add: setCounterBit_def reg_with_def nth_append list_update_append and_mask_or)
qed

lemma walk_reg_with:
  "length p = 5 \<Longrightarrow> walk_reg js (reg_with p h c) = reg_with p h (foldl (\<lambda>c j. c OR 2 ^ j) c js)"
  by (induction js arbitrary: c) (simp_all add: walk_reg_def setCounterBit_reg)

lemma bit_foldl_or:
  "bit (foldl (\<lambda>c j. c OR 2 ^ j) (c :: 32 word) js) n \<longleftrightarrow> bit c n \<or> n < 32 \<and> n \<in> set js"
  by (induction js arbitrary: c) (auto simp: bit_or_iff bit_exp_iff)

lemma mask_1F: "(0x1F :: byte) = mask 5"
  by (simp add: mask_eq_exp_minus_1)

lemma bit_ksnCounter:
  "bit (ksnCounter ksn) n \<longleftrightarrow>
     (if n < 8 then bit (ksn ! 9) n else if n < 16 then bit (ksn ! 8) (n - 8) else n < 21 \<and> bit (ksn ! 7) (n - 16))"
  by (auto simp: ksnCounter_def bit_simps mask_1F dest: bit_imp_le_length)

lemma ksn_register:
  assumes "length ksn = 10"
  shows "drop 2 ksn = reg_with (take 5 (drop 2 ksn)) (ksn ! 7 AND 0xE0) (ksnCounter ksn)"
proof -
  obtain a b c d e f g h i j where ksn: "ksn = [a, b, c, d, e, f, g, h, i, j]"
    using assms by (auto simp: length_Suc_conv eval_nat_numeral)
  have "(h AND 0xE0) OR (h AND 0x1F) = h"
  proof -
    have "(h AND 0xE0) OR (h AND 0x1F) = h AND (0xE0 OR 0x1F)"
      by (simp only: bit.conj_disj_distrib)
    also have "(0xE0 OR 0x1F :: byte) = - 1"
      by simp
    finally show ?thesis
      by simp
  qed
  moreover have "ucast (drop_bit 16 (ksnCounter ksn)) AND 0x1F = h AND 0x1F"
    by (rule bit_word_eqI) (auto simp: bit_simps bit_ksnCounter mask_1F ksn)
  moreover have "ucast (drop_bit 8 (ksnCounter ksn)) = i"
    by (rule bit_word_eqI) (auto simp: bit_simps bit_ksnCounter ksn)
  moreover have "ucast (ksnCounter ksn) = j"
    by (rule bit_word_eqI) (auto simp: bit_simps bit_ksnCounter ksn)
  ultimately show ?thesis
    by (simp add: reg_with_def ksn)
qed

lemma ksn_base:
  assumes "length ksn = 10"
  shows "(drop 2 ksn)[5 := drop 2 ksn ! 5 AND 0xE0, 6 := 0, 7 := 0] = reg_with (take 5 (drop 2 ksn)) (ksn ! 7 AND 0xE0) 0"
proof -
  obtain a b c d e f g h i j where ksn: "ksn = [a, b, c, d, e, f, g, h, i, j]"
    using assms by (auto simp: length_Suc_conv eval_nat_numeral)
  show ?thesis
    by (simp add: reg_with_def ksn)
qed

text \<open>The bits a derivation walks over, highest first.\<close>

definition counter_bits :: "bytes \<Rightarrow> nat list" where
  "counter_bits ksn = filter (bit (ksnCounter ksn)) (rev [0..<21])"

lemma DeriveSessionKey_bits:
  assumes "length ipek = 16" "length ksn = 10"
  shows "DeriveSessionKey ipek ksn =
    derive_bits (counter_bits ksn) (reg_with (take 5 (drop 2 ksn)) (ksn ! 7 AND 0xE0) 0) ipek"
  using derive_loop_bits [of 20 "ksnCounter ksn"] assms ksn_base [OF assms(2)]
  by (simp add: DeriveSessionKey_def Let_def counter_bits_def)

text \<open>After the last bit the register is the right part of the serial number.\<close>

lemma walk_counter_bits:
  assumes "length ksn = 10"
  shows "walk_reg (counter_bits ksn) (reg_with (take 5 (drop 2 ksn)) (ksn ! 7 AND 0xE0) 0) = drop 2 ksn"
proof -
  have "foldl (\<lambda>c j. c OR 2 ^ j) (0 :: 32 word) (counter_bits ksn) = ksnCounter ksn"
    by (rule bit_word_eqI) (auto simp: bit_foldl_or counter_bits_def bit_ksnCounter split: if_splits)
  then show ?thesis
    using assms ksn_register [OF assms] by (simp add: walk_reg_with)
qed

lemma derive_bits_ok:
  "length reg = 8 \<Longrightarrow> length key = 16 \<Longrightarrow> \<exists>k. derive_bits js reg key = Inr k \<and> length k = 16"
proof (induction js arbitrary: reg key)
  case (Cons j js)
  obtain k where "dukptGenerateKey key (setCounterBit reg (2 ^ j)) = Inr k" "length k = 16"
    using dukptGenerateKey_ok [of key "setCounterBit reg (2 ^ j)"] Cons.prems by auto
  with Cons show ?case
    by simp
qed simp

lemma counter_bits_lowest:
  assumes "bit (ksnCounter ksn) i" "\<forall>j<i. \<not> bit (ksnCounter ksn) j" "ksnCounter ksn' = unset_bit i (ksnCounter ksn)"
  shows "counter_bits ksn = counter_bits ksn' @ [i]"
proof -
  have "i < 21"
    using assms(1) by (simp add: bit_ksnCounter split: if_splits)
  then have "[0..<21] = [0..<i] @ [i] @ [Suc i..<21]"
    by (metis append_Cons append_Nil le_add_diff_inverse less_imp_le_nat upt_add_eq_append upt_rec zero_le)
  then have split: "rev [0..<21] = rev [Suc i..<21] @ [i] @ rev [0..<i]"
    by simp
  have low: "filter (bit (ksnCounter ksn)) (rev [0..<i]) = []" "filter (bit (ksnCounter ksn')) (rev [0..<i]) = []"
    using assms by (auto simp: filter_empty_conv bit_unset_bit_iff)
  have high: "filter (bit (ksnCounter ksn')) (rev [Suc i..<21]) = filter (bit (ksnCounter ksn)) (rev [Suc i..<21])"
    using assms(3) by (intro filter_cong) (auto simp: bit_unset_bit_iff)
  have "\<not> bit (ksnCounter ksn') i"
    using assms(3) by (simp add: bit_unset_bit_iff)
  then show ?thesis
    using assms(1) low high by (simp only: counter_bits_def split filter_append) simp
qed

text \<open>Two serial numbers of one device differ in the counter only.\<close>

definition same_device :: "bytes \<Rightarrow> bytes \<Rightarrow> bool" where
  "same_device ksn ksn' \<longleftrightarrow> take 7 ksn = take 7 ksn' \<and> ksn ! 7 AND 0xE0 = ksn' ! 7 AND 0xE0"

lemma same_device_base:
  assumes "same_device ksn ksn'" "length ksn = 10" "length ksn' = 10"
  shows "take 5 (drop 2 ksn) = take 5 (drop 2 ksn')"
    "(take 8 ksn)[7 := take 8 ksn ! 7 AND 0xE0] = (take 8 ksn')[7 := take 8 ksn' ! 7 AND 0xE0]"
proof -
  obtain a b c d e f g h i j where "ksn = [a, b, c, d, e, f, g, h, i, j]"
    using assms by (auto simp: length_Suc_conv eval_nat_numeral)
  moreover obtain a' b' c' d' e' f' g' h' i' j' where "ksn' = [a', b', c', d', e', f', g', h', i', j']"
    using assms by (auto simp: length_Suc_conv eval_nat_numeral)
  ultimately show "take 5 (drop 2 ksn) = take 5 (drop 2 ksn')"
    "(take 8 ksn)[7 := take 8 ksn ! 7 AND 0xE0] = (take 8 ksn')[7 := take 8 ksn' ! 7 AND 0xE0]"
    using assms(1) by (simp_all add: same_device_def)
qed

section \<open>Properties\<close>

text \<open>C25: the DUKPT key tree.  For a serial number whose counter has lowest set bit \<open>i\<close>, the transaction
  key is one generation step, on the serial number's register, from the transaction key of the same
  device at the counter with that bit cleared; so a device that keeps the keys of the future can
  reach every key.  Derivation always succeeds on keys and serial numbers of the right size, and the
  initial key does not depend on the counter.\<close>

theorem dukpt_key_tree:
  assumes "length ipek = 16" "length ksn = 10" "length ksn' = 10" "same_device ksn ksn'"
    and "bit (ksnCounter ksn) i" "\<forall>j<i. \<not> bit (ksnCounter ksn) j"
    and "ksnCounter ksn' = unset_bit i (ksnCounter ksn)"
  shows "DeriveIPEK bdk ksn' = DeriveIPEK bdk ksn \<and>
    (\<exists>k k'. DeriveSessionKey ipek ksn' = Inr k' \<and> DeriveSessionKey ipek ksn = Inr k \<and>
       dukptGenerateKey k' (drop 2 ksn) = Inr k \<and> length k' = 16 \<and> length k = 16)"
proof -
  define base where "base = reg_with (take 5 (drop 2 ksn)) (ksn ! 7 AND 0xE0) 0"
  have base: "base = reg_with (take 5 (drop 2 ksn')) (ksn' ! 7 AND 0xE0) 0" "length base = 8"
    using assms(2-4) same_device_base(1) [OF assms(4,2,3)] by (simp_all add: base_def same_device_def reg_with_def)
  have bits: "counter_bits ksn = counter_bits ksn' @ [i]"
    by (rule counter_bits_lowest) fact+
  obtain k' where k': "derive_bits (counter_bits ksn') base ipek = Inr k'" "length k' = 16"
    using derive_bits_ok base(2) assms(1) by blast
  obtain k where k: "derive_bits (counter_bits ksn) base ipek = Inr k" "length k = 16"
    using derive_bits_ok base(2) assms(1) by blast
  have "dukptGenerateKey k' (drop 2 ksn) = Inr k"
    using k k' walk_counter_bits [OF assms(2)] unfolding bits derive_bits_snoc base_def [symmetric] by simp
  moreover have "DeriveSessionKey ipek ksn' = Inr k'" "DeriveSessionKey ipek ksn = Inr k"
    using k k' base(1) by (simp_all add: DeriveSessionKey_bits assms(1-3) base_def)
  moreover have "DeriveIPEK bdk ksn' = DeriveIPEK bdk ksn"
    using assms(2,3) same_device_base(2) [OF assms(4,2,3)] by (simp add: DeriveIPEK_def Let_def)
  ultimately show ?thesis
    using k k' by blast
qed

theorem dukpt_key_tree_witness:
  "\<exists>k k'. DeriveSessionKey (replicate 16 1) [0xFF, 0xFF, 0x98, 0x76, 0x54, 0x32, 0x10, 0xE0, 0, 2] = Inr k' \<and>
     DeriveSessionKey (replicate 16 1) [0xFF, 0xFF, 0x98, 0x76, 0x54, 0x32, 0x10, 0xE0, 0, 3] = Inr k \<and>
     dukptGenerateKey k' [0x98, 0x76, 0x54, 0x32, 0x10, 0xE0, 0, 3] = Inr k"
proof -
  define ksn where "ksn c = [0xFF, 0xFF, 0x98, 0x76, 0x54, 0x32, 0x10, 0xE0, 0, c]" for c :: byte
  have counter: "ksnCounter (ksn c) = ucast c" for c
    by (simp add: ksn_def ksnCounter_def)
  have "same_device (ksn 3) (ksn 2)"
    by (simp add: ksn_def same_device_def)
  moreover have "bit (ksnCounter (ksn 3)) 0"
    unfolding counter by simp
  moreover have "ksnCounter (ksn 2) = unset_bit 0 (ksnCounter (ksn 3))"
    unfolding counter by (simp add: unset_bit_eq_and_not)
  ultimately show ?thesis
    using dukpt_key_tree [of "replicate 16 1" "ksn 3" "ksn 2" 0] by (simp add: ksn_def) blast
qed

text \<open>The published X9.24 vector of \<^verbatim>\<open>dukpt_test.go\<close>: the first transaction key of the device.\<close>

lemma dukpt_vector:
  "DeriveSessionKey [0x6A, 0xC2, 0x92, 0xFA, 0xA1, 0x31, 0x5B, 0x4D, 0x85, 0x8A, 0xB3, 0xA3, 0xD7, 0xD5, 0x93, 0x3A]
     [0xFF, 0xFF, 0x98, 0x76, 0x54, 0x32, 0x10, 0xE0, 0, 1] =
   Inr [0x04, 0x26, 0x66, 0xB4, 0x91, 0x84, 0xCF, 0xA3, 0x68, 0xDE, 0x96, 0x28, 0xD0, 0x39, 0x7B, 0xC9]"
  by code_simp

text \<open>EMV cryptograms.  The request cryptogram of the data is the only one that verifies; under one
  session key and request cryptogram, response cryptograms of different response codes differ; and different
  transaction counters give different session keys.\<close>

theorem emv_cryptograms:
  assumes "GenerateARQC sk data = Inr arqc" "length arc = 2" "length arc' = 2"
    and "DeriveEMVSessionKey mk atc = Inr k" "DeriveEMVSessionKey mk atc' = Inr k'"
  shows "VerifyARQC sk data a = Inr (a = arqc) \<and>
    (\<exists>p p'. GenerateARPC sk arqc arc = Inr p \<and> GenerateARPC sk arqc arc' = Inr p' \<and> (p = p' \<longleftrightarrow> arc = arc')) \<and>
    (k = k' \<longleftrightarrow> atc = atc')"
proof -
  have len: "length arqc = 8" "length sk = 16"
    using assms(1) GenerateMAC_length GenerateMAC_ok [of MACAlg3 Pad2 sk data] by (auto simp: GenerateARQC_def)
  then obtain b where b: "tripleDESBlock sk = Inr b" "block_cipher b"
    using tripleDESBlock_ok [of sk] tripleDESBlock_cipher by blast
  have "b_enc b (xored arqc (arc @ replicate 6 0)) = b_enc b (xored arqc (arc' @ replicate 6 0)) \<longleftrightarrow> arc = arc'"
    using assms(2,3) len by (simp add: block_cipher.enc_inject [OF b(2)] xored_inject')
  moreover have "VerifyARQC sk data a = Inr (a = arqc)"
    using assms(1) by (auto simp: VerifyARQC_def)
  moreover have "k = k' \<longleftrightarrow> atc = atc'"
  proof -
    obtain m where m: "tripleDESBlock mk = Inr m" "block_cipher m"
      "k = blockEnc m [atc ! 0, atc ! 1, 0xF0, 0, 0, 0, 0, 0] @ blockEnc m [atc ! 0, atc ! 1, 0x0F, 0, 0, 0, 0, 0]"
      "k' = blockEnc m [atc' ! 0, atc' ! 1, 0xF0, 0, 0, 0, 0, 0] @ blockEnc m [atc' ! 0, atc' ! 1, 0x0F, 0, 0, 0, 0, 0]"
      "length atc = 2" "length atc' = 2"
      using assms(4,5) tripleDESBlock_cipher by (auto simp: DeriveEMVSessionKey_def Let_def and_then_Inr split: if_splits)
    have "k = k' \<Longrightarrow> atc ! 0 = atc' ! 0 \<and> atc ! 1 = atc' ! 1"
      using m by (simp add: blockEnc_def block_cipher.enc_inject [OF m(2)] block_cipher.length_enc [OF m(2)])
    then show ?thesis
      using m by (auto simp: list_eq_iff_nth_eq less_Suc_eq eval_nat_numeral)
  qed
  ultimately show ?thesis
    using b(1) assms(2,3) len by (simp add: GenerateARPC_def blockEnc_def)
qed

theorem emv_cryptograms_witness:
  "\<exists>arqc k k'. GenerateARQC (replicate 16 5) [1, 2, 3] = Inr arqc \<and> DeriveEMVSessionKey (replicate 16 9) [0, 1] = Inr k \<and>
     DeriveEMVSessionKey (replicate 16 9) [0, 2] = Inr k' \<and> VerifyARQC (replicate 16 5) [1, 2, 3] arqc = Inr True \<and> k \<noteq> k'"
proof -
  obtain arqc where "GenerateARQC (replicate 16 5) [1, 2, 3] = Inr arqc"
    using GenerateMAC_ok [of MACAlg3 Pad2 "replicate 16 5" "[1, 2, 3]"] by (auto simp: GenerateARQC_def)
  moreover obtain k k' where "DeriveEMVSessionKey (replicate 16 9) [0, 1] = Inr k" "DeriveEMVSessionKey (replicate 16 9) [0, 2] = Inr k'"
    by (simp add: DeriveEMVSessionKey_def tripleDESBlock_def Let_def)
  ultimately show ?thesis
    using emv_cryptograms [of "replicate 16 5" "[1, 2, 3]" arqc "[0, 0]" "[0, 1]" "replicate 16 9" "[0, 1]" k "[0, 2]" k' arqc]
    by simp
qed

end
