(* ===== verification/PinBlock.thy ===== *)
theory PinBlock
imports Cipher
begin

text \<open>ISO 9564-1 PIN blocks, \<^verbatim>\<open>src/vault/pinblock.go\<close>.  A nibble is a byte below 16, as in the
  code's nibble slices; the randomness source is the bytes it will deliver.  The lemmas show that a
  block decodes exactly when the encoder can have produced it, so decoding inverts encoding and
  every other block is rejected.\<close>

section \<open>Nibbles\<close>

fun packNibbles :: "bytes \<Rightarrow> bytes" where
  "packNibbles (h # l # r) = (push_bit 4 h OR (l AND 0x0F)) # packNibbles r"
| "packNibbles _ = []"

primrec unpackNibbles :: "bytes \<Rightarrow> bytes" where
  "unpackNibbles [] = []"
| "unpackNibbles (x # r) = drop_bit 4 x # (x AND 0x0F) # unpackNibbles r"

section \<open>Formats\<close>

datatype pin_format = ISO0 | ISO1 | ISO3 | FormatOther int

definition pin_control :: "pin_format \<Rightarrow> byte option" where
  "pin_control f = (case f of ISO0 \<Rightarrow> Some 0 | ISO1 \<Rightarrow> Some 1 | ISO3 \<Rightarrow> Some 3 | FormatOther _ \<Rightarrow> None)"

text \<open>\<open>padNibbles\<close> returns the filled tail of \<open>n\<close> nibbles.\<close>

definition padNibbles :: "pin_format \<Rightarrow> nat \<Rightarrow> bytes \<Rightarrow> vault_error + bytes" where
  "padNibbles f n r = (case f of
       ISO0 \<Rightarrow> Inr (replicate n 0xF)
     | ISO1 \<Rightarrow> if n = 0 then Inr [] else and_then (read_random n r) (\<lambda>buf. Inr (map (\<lambda>b. b AND 0x0F) buf))
     | ISO3 \<Rightarrow> if n = 0 then Inr [] else and_then (read_random n r) (\<lambda>buf. Inr (map (\<lambda>b. 0xA + b mod 6) buf))
     | FormatOther _ \<Rightarrow> Inl ErrFormat)"

definition pinField :: "pin_format \<Rightarrow> bytes \<Rightarrow> bytes \<Rightarrow> vault_error + bytes" where
  "pinField f pin r = (case pin_control f of
       None \<Rightarrow> Inl ErrFormat
     | Some ctrl \<Rightarrow>
         let l = length pin in
         if l < 4 \<or> l > 12 then Inl ErrPINLen
         else if \<not> list_all is_digit pin then Inl ErrPINDigit
         else and_then (padNibbles f (14 - l) r) (\<lambda>tail.
           Inr (packNibbles ([ctrl, of_nat l] @ map (\<lambda>c. c - 48) pin @ tail))))"

definition panField :: "bytes \<Rightarrow> vault_error + bytes" where
  "panField pan =
     (if \<not> list_all is_digit pan then Inl ErrPANDigit
      else if length pan < 13 then Inl ErrPANLen
      else let acct = butlast pan; acct = drop (length acct - 12) acct
        in Inr (packNibbles (replicate 4 0 @ map (\<lambda>c. c - 48) acct)))"

definition checkPadding :: "pin_format \<Rightarrow> bytes \<Rightarrow> bool" where
  "checkPadding f pad = (case f of
       ISO0 \<Rightarrow> list_all (\<lambda>n. n = 0xF) pad
     | ISO3 \<Rightarrow> list_all (\<lambda>n. \<not> n < 0xA) pad
     | _ \<Rightarrow> True)"

definition EncodePINBlockRand :: "pin_format \<Rightarrow> bytes \<Rightarrow> bytes \<Rightarrow> bytes \<Rightarrow> vault_error + bytes" where
  "EncodePINBlockRand f pin pan r =
     and_then (pinField f pin r) (\<lambda>pf.
       if f = ISO0 \<or> f = ISO3 then and_then (panField pan) (\<lambda>af. Inr (xored pf af))
       else if f = ISO1 then Inr pf
       else Inl ErrFormat)"

definition DecodePINBlock :: "pin_format \<Rightarrow> bytes \<Rightarrow> bytes \<Rightarrow> vault_error + bytes" where
  "DecodePINBlock f block pan =
     (if length block \<noteq> 8 then Inl ErrPINBlockLen
      else case pin_control f of
        None \<Rightarrow> Inl ErrFormat
      | Some ctrl \<Rightarrow>
          and_then (if f = ISO0 \<or> f = ISO3 then and_then (panField pan) (\<lambda>af. Inr (xored block af)) else Inr block)
            (\<lambda>clear. let nibbles = unpackNibbles clear in
              if nibbles ! 0 \<noteq> ctrl then Inl ErrControl
              else let l = unat (nibbles ! 1) in
                if l < 4 \<or> l > 12 then Inl ErrLengthNibble
                else let ds = take l (drop 2 nibbles) in
                  if \<not> list_all (\<lambda>d. d \<le> 9) ds then Inl ErrPINDigit
                  else if \<not> checkPadding f (drop (2 + l) nibbles) then Inl ErrPad
                  else Inr (map (\<lambda>d. 48 + d) ds)))"

section \<open>Packing\<close>

lemma length_unpackNibbles [simp]: "length (unpackNibbles b) = 2 * length b"
  by (induction b) simp_all

lemma unpackNibbles_lt: "n \<in> set (unpackNibbles b) \<Longrightarrow> n < 16"
  by (induction b) (auto simp: and_15)

lemma packNibbles_unpack [simp]: "packNibbles (unpackNibbles b) = b"
  by (induction b) (simp_all add: and_15 nibble_self)

lemma unpackNibbles_pack: "length ns = 2 * k \<Longrightarrow> \<forall>n\<in>set ns. n < 16 \<Longrightarrow> unpackNibbles (packNibbles ns) = ns"
proof (induction k arbitrary: ns)
  case (Suc k)
  then obtain h l r where "ns = h # l # r" "length r = 2 * k"
    by (auto simp: length_Suc_conv)
  moreover have "drop_bit 4 (push_bit 4 h OR l) = h" "take_bit 4 (push_bit 4 h OR l) = l"
    if "h < 16" "l < 16" for h l :: byte
    using that by (simp_all add: nibble_self)
  ultimately show ?case
    using Suc by (simp add: and_15 nibble_self)
qed simp

lemma length_packNibbles: "length ns = 2 * k \<Longrightarrow> length (packNibbles ns) = k"
proof (induction k arbitrary: ns)
  case (Suc k)
  then obtain h l r where "ns = h # l # r" "length r = 2 * k"
    by (auto simp: length_Suc_conv)
  then show ?case
    using Suc.IH by simp
qed simp

section \<open>Padding nibbles\<close>

lemma mod_6_nibble: "0xA + b mod 6 < (16 :: byte) \<and> \<not> 0xA + b mod 6 < (0xA :: byte)"
proof -
  have "unat (b mod 6) < 6"
    by (simp add: unat_mod)
  then have "unat (0xA + b mod 6) = 10 + unat (b mod 6)"
    by (subst unat_add_lem [THEN iffD1]) simp_all
  with \<open>unat (b mod 6) < 6\<close> show ?thesis
    by (simp add: word_less_nat_alt)
qed

lemma mod_6_back: "\<not> t < 0xA \<Longrightarrow> t < 16 \<Longrightarrow> 0xA + (t - 0xA) mod 6 = (t :: byte)"
proof -
  assume t: "\<not> t < 0xA" "t < 16"
  then have "unat (t - 0xA) < 6"
    by (simp add: word_less_nat_alt unat_sub word_le_nat_alt)
  then have "(t - 0xA) mod 6 = t - 0xA"
    by (simp add: word_unat_eq_iff unat_mod)
  then show ?thesis
    by simp
qed

lemma padNibbles_sound:
  "padNibbles f n r = Inr tail \<Longrightarrow> length tail = n \<and> (\<forall>t\<in>set tail. t < 16) \<and> checkPadding f tail"
  using mod_6_nibble
  by (cases f) (auto simp: padNibbles_def checkPadding_def and_then_Inr read_random_def list_all_iff and_15 split: if_splits)

lemma padNibbles_complete:
  assumes "pin_control f \<noteq> None" "length tail = n" "\<forall>t\<in>set tail. t < 16" "checkPadding f tail"
  shows "\<exists>r. padNibbles f n r = Inr tail"
proof (cases f)
  case ISO0
  with assms have "tail = replicate n 0xF"
    by (auto simp: checkPadding_def list_all_iff intro: replicate_eqI)
  with ISO0 show ?thesis
    by (simp add: padNibbles_def)
next
  case ISO1
  have "map (\<lambda>b. b AND 0x0F) tail = tail"
    using assms(3) by (intro map_idI) (simp add: and_15 nibble_self)
  with ISO1 assms(2) have "padNibbles f n tail = Inr tail"
    by (auto simp: padNibbles_def read_random_def)
  then show ?thesis ..
next
  case ISO3
  have "map (\<lambda>b. 0xA + b mod 6) (map (\<lambda>t. t - 0xA) tail) = tail"
    unfolding map_map by (rule map_idI) (use ISO3 assms(3,4) mod_6_back in \<open>auto simp: checkPadding_def list_all_iff\<close>)
  with ISO3 assms(2) have "padNibbles f n (map (\<lambda>t. t - 0xA) tail) = Inr tail"
    by (auto simp: padNibbles_def read_random_def simp del: map_map)
  then show ?thesis ..
qed (use assms(1) in \<open>simp add: pin_control_def\<close>)

section \<open>The layout of the PIN field\<close>

definition pin_nibbles :: "byte \<Rightarrow> bytes \<Rightarrow> bytes \<Rightarrow> bytes" where
  "pin_nibbles ctrl pin tail = [ctrl, of_nat (length pin)] @ map (\<lambda>c. c - 48) pin @ tail"

lemma pin_digit_nibble: "is_digit c \<Longrightarrow> c - 48 \<le> 9 \<and> c - 48 < (16 :: byte)"
  by (auto simp: is_digit_def word_le_nat_alt word_less_nat_alt unat_sub)

lemma nibble_pin_digit: "d \<le> 9 \<Longrightarrow> is_digit (48 + d :: byte)"
proof -
  assume "d \<le> 9"
  then have "unat d \<le> 9"
    by (simp add: word_le_nat_alt)
  then have "unat (48 + d) = 48 + unat d"
    by (subst unat_add_lem [THEN iffD1]) simp_all
  with \<open>unat d \<le> 9\<close> show ?thesis
    by (simp add: is_digit_def word_le_nat_alt)
qed

lemma pin_nibbles_lt:
  assumes "pin_control f = Some ctrl" "length pin \<le> 12" "list_all is_digit pin" "\<forall>t\<in>set tail. t < 16"
  shows "\<forall>n\<in>set (pin_nibbles ctrl pin tail). n < 16"
proof -
  have "ctrl < 16"
    using assms(1) by (cases f) (auto simp: pin_control_def)
  moreover have "of_nat (length pin) < (16 :: byte)"
    using assms(2) by (simp add: word_less_nat_alt unat_of_nat_byte)
  ultimately show ?thesis
    using assms(3,4) pin_digit_nibble by (auto simp: pin_nibbles_def list_all_iff)
qed

lemma read_pin_nibbles:
  assumes "4 \<le> length pin" "length pin \<le> 12" "list_all is_digit pin" "ns = pin_nibbles ctrl pin tail"
  shows "ns ! 0 = ctrl \<and> unat (ns ! 1) = length pin \<and> list_all (\<lambda>d. d \<le> 9) (take (length pin) (drop 2 ns)) \<and>
    drop (2 + length pin) ns = tail \<and> map (\<lambda>d. 48 + d) (take (length pin) (drop 2 ns)) = pin"
proof -
  have "unat (of_nat (length pin) :: byte) = length pin"
    using assms(2) by (simp add: unat_of_nat_byte)
  moreover have "map (\<lambda>d. 48 + d) (map (\<lambda>c. c - 48) pin) = pin"
    by (simp add: map_idI)
  ultimately show ?thesis
    using assms(3,4) pin_digit_nibble by (auto simp: pin_nibbles_def list_all_iff)
qed

lemma pin_nibbles_read:
  assumes "length ns = 16" "ns ! 0 = ctrl" "unat (ns ! 1) = l" "l \<le> 12"
    and ds: "ds = take l (drop 2 ns)" "list_all (\<lambda>d. d \<le> 9) ds"
  shows "ns = pin_nibbles ctrl (map (\<lambda>d. 48 + d) ds) (drop (2 + l) ns) \<and>
    length ds = l \<and> list_all is_digit (map (\<lambda>d. 48 + d) ds)"
proof -
  have "length ds = l"
    using assms by simp
  obtain a b r where ns: "ns = a # b # r"
    using assms(1) by (auto simp: length_Suc_conv eval_nat_numeral)
  then have "b = of_nat l" "a = ctrl" "r = take l r @ drop l r" "ds = take l r"
    using assms by auto
  moreover have "map (\<lambda>c. c - 48) (map (\<lambda>d. 48 + d) ds) = ds"
    by (simp add: map_idI)
  ultimately show ?thesis
    using ns \<open>length ds = l\<close> ds(2) nibble_pin_digit by (auto simp: pin_nibbles_def list_all_iff)
qed

lemma panField_length: "panField pan = Inr af \<Longrightarrow> length af = 8"
  by (auto simp: panField_def Let_def split: if_splits intro!: length_packNibbles)

lemma pinField_iff:
  "pinField f pin r = Inr pf \<longleftrightarrow> (\<exists>ctrl tail. pin_control f = Some ctrl \<and> 4 \<le> length pin \<and> length pin \<le> 12 \<and>
     list_all is_digit pin \<and> padNibbles f (14 - length pin) r = Inr tail \<and> pf = packNibbles (pin_nibbles ctrl pin tail))"
  by (auto simp: pinField_def pin_nibbles_def Let_def and_then_Inr split: option.splits)

lemma pinField_unpack:
  assumes "pin_control f = Some ctrl" "4 \<le> length pin" "length pin \<le> 12" "list_all is_digit pin"
    and "length tail = 14 - length pin" "\<forall>t\<in>set tail. t < 16"
  shows "unpackNibbles (packNibbles (pin_nibbles ctrl pin tail)) = pin_nibbles ctrl pin tail \<and>
    length (packNibbles (pin_nibbles ctrl pin tail)) = 8"
proof -
  have "length (pin_nibbles ctrl pin tail) = 2 * 8"
    using assms by (simp add: pin_nibbles_def)
  then show ?thesis
    using unpackNibbles_pack length_packNibbles pin_nibbles_lt [OF assms(1,3,4,6)] by blast
qed

text \<open>The clear field decodes to a PIN exactly when the PIN field of that PIN is the field, for some padding.\<close>

definition decode_clear :: "pin_format \<Rightarrow> byte \<Rightarrow> bytes \<Rightarrow> vault_error + bytes" where
  "decode_clear f ctrl clear = (let nibbles = unpackNibbles clear in
     if nibbles ! 0 \<noteq> ctrl then Inl ErrControl
     else let l = unat (nibbles ! 1) in
       if l < 4 \<or> l > 12 then Inl ErrLengthNibble
       else let ds = take l (drop 2 nibbles) in
         if \<not> list_all (\<lambda>d. d \<le> 9) ds then Inl ErrPINDigit
         else if \<not> checkPadding f (drop (2 + l) nibbles) then Inl ErrPad
         else Inr (map (\<lambda>d. 48 + d) ds))"

lemma decode_clear_complete:
  assumes ctrl: "pin_control f = Some ctrl" and pf: "pinField f pin r = Inr clear"
  shows "decode_clear f ctrl clear = Inr pin \<and> length clear = 8"
proof -
  obtain tail where t: "4 \<le> length pin" "length pin \<le> 12" "list_all is_digit pin"
    "padNibbles f (14 - length pin) r = Inr tail" "clear = packNibbles (pin_nibbles ctrl pin tail)"
    using pf ctrl by (auto simp: pinField_iff)
  note pad = padNibbles_sound [OF t(4)]
  have u: "unpackNibbles clear = pin_nibbles ctrl pin tail" "length clear = 8"
    using pinField_unpack [OF ctrl t(1,2,3)] pad t(5) by blast+
  show ?thesis
    using read_pin_nibbles [OF t(1,2,3) u(1)] pad t(1,2) u(2) by (simp add: decode_clear_def Let_def)
qed

lemma decode_clear_sound:
  assumes ctrl: "pin_control f = Some ctrl" and len: "length clear = 8" and d: "decode_clear f ctrl clear = Inr pin"
  shows "\<exists>r. pinField f pin r = Inr clear"
proof -
  define ns where "ns = unpackNibbles clear"
  define l where "l = unat (ns ! 1)"
  define ds where "ds = take l (drop 2 ns)"
  define tail where "tail = drop (2 + l) ns"
  have c: "ns ! 0 = ctrl" "4 \<le> l" "l \<le> 12" "list_all (\<lambda>d. d \<le> 9) ds" "checkPadding f tail" "pin = map (\<lambda>d. 48 + d) ds"
    using d by (auto simp: decode_clear_def Let_def ns_def l_def ds_def tail_def split: if_splits)
  have ns: "length ns = 16"
    using len by (simp add: ns_def)
  have p: "ns = pin_nibbles ctrl pin tail" "length ds = l" "list_all is_digit pin"
    using pin_nibbles_read [OF ns c(1) l_def [symmetric] c(3) ds_def c(4)] by (simp_all add: c(6) tail_def)
  have "\<forall>t\<in>set tail. t < 16"
    using unpackNibbles_lt by (auto simp: tail_def ns_def dest: in_set_dropD)
  then obtain r where "padNibbles f (14 - length pin) r = Inr tail"
    using padNibbles_complete [of f tail "14 - length pin"] ctrl c p(2) ns by (auto simp: tail_def)
  moreover have "clear = packNibbles (pin_nibbles ctrl pin tail)"
    using p(1) packNibbles_unpack [of clear] by (simp add: ns_def)
  ultimately show ?thesis
    using c p ctrl by (auto simp: pinField_iff)
qed

lemma DecodePINBlock_eq:
  "DecodePINBlock f block pan =
     (if length block \<noteq> 8 then Inl ErrPINBlockLen else case pin_control f of None \<Rightarrow> Inl ErrFormat
      | Some ctrl \<Rightarrow> and_then (if f = ISO0 \<or> f = ISO3 then and_then (panField pan) (\<lambda>af. Inr (xored block af)) else Inr block)
          (decode_clear f ctrl))"
  unfolding DecodePINBlock_def decode_clear_def ..

lemma decode_encode_iff:
  "DecodePINBlock f block pan = Inr pin \<longleftrightarrow> (\<exists>r. EncodePINBlockRand f pin pan r = Inr block)"
proof (cases "f = ISO0 \<or> f = ISO3")
  case True
  then obtain ctrl where ctrl: "pin_control f = Some ctrl"
    by (auto simp: pin_control_def)
  show ?thesis
  proof
    assume "DecodePINBlock f block pan = Inr pin"
    then obtain af where af: "length block = 8" "panField pan = Inr af" "decode_clear f ctrl (xored block af) = Inr pin"
      using True ctrl by (auto simp: DecodePINBlock_eq and_then_Inr split: if_splits)
    then obtain r where "pinField f pin r = Inr (xored block af)"
      using decode_clear_sound [OF ctrl, of "xored block af"] panField_length [OF af(2)] by auto
    then have "EncodePINBlockRand f pin pan r = Inr block"
      using True af panField_length [OF af(2)] by (simp add: EncodePINBlockRand_def)
    then show "\<exists>r. EncodePINBlockRand f pin pan r = Inr block" ..
  next
    assume "\<exists>r. EncodePINBlockRand f pin pan r = Inr block"
    then obtain r pf af where "pinField f pin r = Inr pf" "panField pan = Inr af" "block = xored pf af"
      using True by (auto simp: EncodePINBlockRand_def and_then_Inr)
    then show "DecodePINBlock f block pan = Inr pin"
      using True ctrl decode_clear_complete [OF ctrl] panField_length by (simp add: DecodePINBlock_eq)
  qed
next
  case False
  show ?thesis
  proof (cases "f = ISO1")
    case True
    then have ctrl: "pin_control f = Some 1"
      by (simp add: pin_control_def)
    show ?thesis
      using True ctrl decode_clear_complete [OF ctrl] decode_clear_sound [OF ctrl, of block pin]
      by (auto simp: DecodePINBlock_eq EncodePINBlockRand_def and_then_Inr)
  next
    case other: False
    with False have "pin_control f = None"
      by (cases f) (auto simp: pin_control_def)
    then show ?thesis
      by (simp add: DecodePINBlock_eq EncodePINBlockRand_def pinField_def)
  qed
qed

section \<open>Properties\<close>

text \<open>C23: a PIN block decodes to a PIN exactly when encoding that PIN, with some randomness, gives that
  block: decoding inverts encoding whatever padding was drawn, and a block the encoder cannot have
  produced is rejected.  Encoding succeeds exactly for a known format, a PIN of 4 to 12 digits, a PAN of
  at least 13 digits where the format uses it, and enough randomness where the format draws it.\<close>

theorem pin_block_exact:
  "(DecodePINBlock f block pan = Inr pin \<longleftrightarrow> (\<exists>r. EncodePINBlockRand f pin pan r = Inr block)) \<and>
   ((\<exists>b. EncodePINBlockRand f pin pan r = Inr b) \<longleftrightarrow>
      f \<in> {ISO0, ISO1, ISO3} \<and> length pin \<in> {4..12} \<and> list_all is_digit pin \<and>
      (f \<noteq> ISO1 \<longrightarrow> list_all is_digit pan \<and> 13 \<le> length pan) \<and> (f \<noteq> ISO0 \<longrightarrow> 14 \<le> length pin + length r))"
proof -
  have "(\<exists>b. EncodePINBlockRand f pin pan r = Inr b) \<longleftrightarrow>
      f \<in> {ISO0, ISO1, ISO3} \<and> length pin \<in> {4..12} \<and> list_all is_digit pin \<and>
      (f \<noteq> ISO1 \<longrightarrow> list_all is_digit pan \<and> 13 \<le> length pan) \<and> (f \<noteq> ISO0 \<longrightarrow> 14 \<le> length pin + length r)"
    by (cases f) (auto simp: EncodePINBlockRand_def pinField_def padNibbles_def panField_def pin_control_def
        read_random_def Let_def and_then_def split: sum.splits if_splits)
  then show ?thesis
    using decode_encode_iff by blast
qed

theorem pin_block_exact_witness:
  "EncodePINBlockRand ISO0 (bytes_of ''1234'') (bytes_of ''4012345678909'') [] =
     Inr [0x04, 0x12, 0x74, 0xED, 0xCB, 0xA9, 0x87, 0x6F] \<and>
   DecodePINBlock ISO0 [0x04, 0x12, 0x74, 0xED, 0xCB, 0xA9, 0x87, 0x6F] (bytes_of ''4012345678909'') = Inr (bytes_of ''1234'')"
proof
  show enc: "EncodePINBlockRand ISO0 (bytes_of ''1234'') (bytes_of ''4012345678909'') [] =
      Inr [0x04, 0x12, 0x74, 0xED, 0xCB, 0xA9, 0x87, 0x6F]"
    by code_simp
  then show "DecodePINBlock ISO0 [0x04, 0x12, 0x74, 0xED, 0xCB, 0xA9, 0x87, 0x6F] (bytes_of ''4012345678909'') = Inr (bytes_of ''1234'')"
    using pin_block_exact [of ISO0 "[0x04, 0x12, 0x74, 0xED, 0xCB, 0xA9, 0x87, 0x6F]" "bytes_of ''4012345678909''"
        "bytes_of ''1234''" "[]"] by blast
qed

end
