(* ===== verification/KeyBlock.thy ===== *)
theory KeyBlock
imports Cipher Hex FieldPath
begin

text \<open>TR-31 version B key blocks, \<^verbatim>\<open>src/vault/keyblock.go\<close>: wrapping and unwrapping a key under a
  protection key, with the keys for encryption and authentication derived from it.  Texts are byte
  lists; the pad randomness is the bytes the source will deliver.  The lemmas show that unwrapping
  returns the wrapped key and header, exactly when wrapping succeeds, and that a change of the clear
  header is rejected.\<close>

section \<open>The header\<close>

record key_header =
  kb_Version :: byte
  kb_KeyUsage :: bytes
  kb_Algorithm :: byte
  kb_ModeOfUse :: byte
  kb_KeyVersion :: bytes
  kb_Exportability :: byte

text \<open>\<^verbatim>\<open>fmt.Sprintf("%04d", n)\<close>.\<close>

definition fmt_04d :: "nat \<Rightarrow> bytes" where
  "fmt_04d n = replicate (4 - length (fmt_nat n)) 48 @ fmt_nat n"

definition header_marshal :: "key_header \<Rightarrow> nat \<Rightarrow> vault_error + bytes" where
  "header_marshal h blockLen =
     (if length (kb_KeyUsage h) \<noteq> 2 then Inl ErrKeyUsageLen
      else let kv = (if kb_KeyVersion h = [] then [48, 48] else kb_KeyVersion h) in
        if length kv \<noteq> 2 then Inl ErrKeyVersionLen
        else if blockLen > 9999 then Inl ErrBlockTooLarge
        else Inr ([66] @ take 4 (fmt_04d blockLen) @ kb_KeyUsage h @ [kb_Algorithm h, kb_ModeOfUse h] @ kv @
          [kb_Exportability h] @ [48, 48] @ [48, 48]))"

definition parseHeader :: "bytes \<Rightarrow> vault_error + key_header" where
  "parseHeader b =
     (if length b < 16 then Inl ErrBlockShort
      else Inr \<lparr>kb_Version = b ! 0, kb_KeyUsage = take 2 (drop 5 b), kb_Algorithm = b ! 7, kb_ModeOfUse = b ! 8,
        kb_KeyVersion = take 2 (drop 9 b), kb_Exportability = b ! 11\<rparr>)"

definition kb_upperHex :: "bytes \<Rightarrow> bytes" where
  "kb_upperHex b = ToUpper (hex_encode b)"

fun atoiFixed_loop :: "nat \<Rightarrow> bytes \<Rightarrow> vault_error + nat" where
  "atoiFixed_loop n [] = Inr n"
| "atoiFixed_loop n (c # s) = (if c < 48 \<or> c > 57 then Inl ErrBlockLength else atoiFixed_loop (n * 10 + unat (c - 48)) s)"

definition atoiFixed :: "bytes \<Rightarrow> vault_error + nat" where
  "atoiFixed s = atoiFixed_loop 0 s"

section \<open>Key derivation\<close>

definition tr31kdf :: "cipher_block \<Rightarrow> nat \<Rightarrow> nat \<Rightarrow> nat \<Rightarrow> nat \<Rightarrow> bytes" where
  "tr31kdf b usage algo nbits iters =
     concat (map (\<lambda>ctr. cmacBlock b
       [of_nat ctr, of_nat (usage div 256), of_nat usage, 0, of_nat (algo div 256), of_nat algo,
        of_nat (nbits div 256), of_nat nbits]) [1..<Suc iters])"

definition tr31DeriveKeys :: "bytes \<Rightarrow> vault_error + bytes \<times> bytes" where
  "tr31DeriveKeys kbpk =
     and_then (tripleDESBlock kbpk) (\<lambda>b.
       let nbits = length kbpk * 8; iters = length kbpk div 8; algo = (if length kbpk = 24 then 1 else 0) in
       Inr (tr31kdf b 0 algo nbits iters, tr31kdf b 1 algo nbits iters))"

section \<open>Wrapping and unwrapping\<close>

definition WrapKeyBlockRand :: "bytes \<Rightarrow> key_header \<Rightarrow> bytes \<Rightarrow> bytes \<Rightarrow> vault_error + bytes" where
  "WrapKeyBlockRand kbpk hdr key r =
     (if length kbpk \<noteq> 16 \<and> length kbpk \<noteq> 24 then Inl ErrKeyLen
      else if key = [] then Inl ErrEmptyKey
      else let plain = be_bytes 2 (length key * 8) @ key; pad = (8 - length plain mod 8) mod 8 in
        and_then (if pad > 0 then and_then (read_random pad r) (\<lambda>rb. Inr (plain @ rb)) else Inr plain) (\<lambda>plain.
        let blockLen = 16 + 2 * length plain + 16 in
        and_then (header_marshal hdr blockLen) (\<lambda>header.
        and_then (tr31DeriveKeys kbpk) (\<lambda>(kbek, kbmk).
        and_then (tripleDESBlock kbmk) (\<lambda>bmac.
        let mac = cmacBlock bmac (header @ plain) in
        and_then (tripleDESBlock kbek) (\<lambda>benc.
        and_then (cbcEncrypt benc mac plain) (\<lambda>ct.
        Inr (header @ kb_upperHex ct @ kb_upperHex mac))))))))"

definition UnwrapKeyBlock :: "bytes \<Rightarrow> bytes \<Rightarrow> vault_error + key_header \<times> bytes" where
  "UnwrapKeyBlock kbpk block =
     (if length kbpk \<noteq> 16 \<and> length kbpk \<noteq> 24 then Inl ErrKeyLen
      else if length block < 16 then Inl ErrBlockShort
      else let header = take 16 block in
        and_then (parseHeader header) (\<lambda>hdr.
        if kb_Version hdr \<noteq> 66 then Inl ErrVersion
        else and_then (atoiFixed (take 4 (drop 1 block))) (\<lambda>blockLen.
        if blockLen \<noteq> length block then Inl ErrBlockLength
        else if take 2 (drop 12 block) \<noteq> [48, 48] then Inl ErrOptionalBlocks
        else let body = drop 16 block in
          if length body < 16 \<or> length body mod 16 \<noteq> 0 then Inl ErrBody
          else case hex_decode (take (length body - 16) body) of
            None \<Rightarrow> Inl ErrHexData
          | Some ct \<Rightarrow> (case hex_decode (drop (length body - 16) body) of
              None \<Rightarrow> Inl ErrHexData
            | Some mac \<Rightarrow>
                and_then (tr31DeriveKeys kbpk) (\<lambda>(kbek, kbmk).
                and_then (tripleDESBlock kbek) (\<lambda>benc.
                and_then (cbcDecrypt benc mac ct) (\<lambda>plain.
                and_then (tripleDESBlock kbmk) (\<lambda>bmac.
                let want = cmacBlock bmac (header @ plain) in
                if want \<noteq> mac then Inl ErrAuthentication
                else if length plain < 2 then Inl ErrPlainShort
                else let keyLen = be_val (take 2 plain) div 8 in
                  if 2 + keyLen > length plain then Inl ErrKeyLength
                  else Inr (hdr, take keyLen (drop 2 plain))))))))))"

section \<open>Text\<close>

lemma to_upper_hex_char: "n < 16 \<Longrightarrow> to_upper (hex_char n) = upper_hex_char (hex_char n)"
  by (rule nibble_list_all) (simp_all add: upt_rec hex_char_def upper_hex_char_def to_upper_def)

lemma kb_upperHex_eq: "kb_upperHex b = upperHex (hex_encode b)"
  by (induction b) (simp_all add: kb_upperHex_def ToUpper_def upperHex_def to_upper_hex_char and_15)

lemma length_kb_upperHex [simp]: "length (kb_upperHex b) = 2 * length b"
  by (simp add: kb_upperHex_eq)

lemma hex_decode_kb [simp]: "hex_decode (kb_upperHex b) = Some b"
  by (simp add: kb_upperHex_eq)

lemma length_fmt_04d: "n \<le> 9999 \<Longrightarrow> length (fmt_04d n) = 4"
  using fmt_nat_length [of 4 n] by (simp add: fmt_04d_def)

lemma atoiFixed_loop_digits:
  "list_all is_digit s \<Longrightarrow> atoiFixed_loop n s = Inr (foldl (\<lambda>n c. n * 10 + digit_val c) n s)"
  by (induction s arbitrary: n) (auto simp: is_digit_def digit_val_def)

lemma atoiFixed_fmt: "atoiFixed (fmt_04d n) = Inr n"
proof -
  have "list_all is_digit (fmt_04d n)"
    using fmt_nat_digits [of n] by (auto simp: fmt_04d_def list_all_iff)
  then have "atoiFixed (fmt_04d n) = Inr (dec_val (fmt_04d n))"
    by (simp add: atoiFixed_def atoiFixed_loop_digits dec_val_def)
  then show ?thesis
    by (simp add: fmt_04d_def)
qed

section \<open>CMAC\<close>

lemma length_shifted [simp]: "length (shifted x) = length x"
  by (induction x rule: shifted.induct) simp_all

lemma length_dbl: "x \<noteq> [] \<Longrightarrow> length (dbl x) = length x"
  by (cases x) (auto simp: dbl_def Let_def)

lemma cmacSubkeys_length:
  assumes "block_cipher b" "cmacSubkeys b = (k1, k2)"
  shows "length k1 = 8" "length k2 = 8"
proof -
  define l where "l = b_enc b (replicate 8 0)"
  have l: "length l = 8"
    using block_cipher.length_enc [OF assms(1), of "replicate 8 0"] by (simp add: l_def)
  then have "l \<noteq> []"
    by auto
  then have k1: "length (dbl l) = 8"
    using l by (simp add: length_dbl)
  then have "dbl l \<noteq> []"
    by auto
  then have "length (dbl (dbl l)) = 8"
    using k1 by (simp add: length_dbl)
  then show "length k1 = 8" "length k2 = 8"
    using k1 assms(2) by (auto simp: cmacSubkeys_def blockEnc_def Let_def l_def)
qed

text \<open>On whole blocks the last block is masked with the first subkey.\<close>

lemma cmac_whole:
  assumes "length msg = 8 * Suc n" "cmacSubkeys b = (k1, k2)"
  shows "cmacBlock b msg = b_enc b (xored (mac_chain b (replicate 8 0) (take (8 * n) msg)) (xored (drop (8 * n) msg) k1))"
  using assms by (simp add: cmacBlock_def blockEnc_def Let_def)

lemma cmac_length:
  assumes b: "block_cipher b" and len: "length msg = 8 * Suc n"
  shows "length (cmacBlock b msg) = 8"
proof -
  obtain k1 k2 where k: "cmacSubkeys b = (k1, k2)"
    by fastforce
  have "length (mac_chain b (replicate 8 0) (take (8 * n) msg)) = 8"
    using len by (intro block_cipher.chain_length [OF b, of _ _ n]) simp_all
  then show ?thesis
    using len cmacSubkeys_length [OF b k] by (simp add: cmac_whole [OF len k] block_cipher.length_enc [OF b])
qed

text \<open>Two messages that differ in one block before the last have different CMACs.\<close>

lemma cmac_differs:
  assumes b: "block_cipher b" and p: "length p = 8 * Suc n" and q: "length q = 8 * Suc n" and ne: "p \<noteq> q"
    and k: "k < n" "take (8 * k) p = take (8 * k) q" "drop (8 * k + 8) p = drop (8 * k + 8) q"
  shows "cmacBlock b p \<noteq> cmacBlock b q"
proof -
  obtain k1 k2 where sub: "cmacSubkeys b = (k1, k2)"
    by fastforce
  have last: "drop (8 * n) p = drop (8 * n) q"
  proof -
    have "8 * n = (8 * n - (8 * k + 8)) + (8 * k + 8)"
      using k(1) by simp
    then show ?thesis
      using k(3) by (metis drop_drop)
  qed
  have "take (8 * n) p \<noteq> take (8 * n) q"
    using ne last by (metis append_take_drop_id)
  moreover have "take (8 * k) (take (8 * n) p) = take (8 * k) (take (8 * n) q)"
    using k by (simp add: min_def)
  moreover have "drop (8 * k + 8) (take (8 * n) p) = drop (8 * k + 8) (take (8 * n) q)"
    using k(3) by (simp add: drop_take)
  ultimately have "mac_chain b (replicate 8 0) (take (8 * n) p) \<noteq> mac_chain b (replicate 8 0) (take (8 * n) q)"
    using p q by (intro chain_differs [OF b, of _ _ n _ k]) simp_all
  moreover have "length (mac_chain b (replicate 8 0) (take (8 * n) r)) = 8" if "length r = 8 * Suc n" for r
    using that by (intro block_cipher.chain_length [OF b, of _ _ n]) simp_all
  ultimately show ?thesis
    using p q last cmacSubkeys_length [OF b sub]
    by (simp add: cmac_whole [OF _ sub] block_cipher.enc_inject [OF b] xored_inject)
qed

section \<open>Derived keys\<close>

lemma tr31kdf_length: "block_cipher b \<Longrightarrow> length (tr31kdf b usage algo nbits iters) = 8 * iters"
proof -
  assume b: "block_cipher b"
  have one: "length (cmacBlock b [c0, c1, c2, c3, c4, c5, c6, c7]) = 8" for c0 c1 c2 c3 c4 c5 c6 c7
    by (rule cmac_length [OF b, of _ 0]) simp
  have "length (concat (map (\<lambda>ctr. cmacBlock b [of_nat ctr, of_nat (usage div 256), of_nat usage, 0, of_nat (algo div 256),
      of_nat algo, of_nat (nbits div 256), of_nat nbits]) cs)) = 8 * length cs" for cs :: "nat list"
    by (induction cs) (simp_all add: one)
  then show ?thesis
    unfolding tr31kdf_def by simp
qed

lemma tr31DeriveKeys_ok:
  assumes "length kbpk = 16 \<or> length kbpk = 24"
  obtains kbek kbmk benc bmac where "tr31DeriveKeys kbpk = Inr (kbek, kbmk)"
    "tripleDESBlock kbek = Inr benc" "block_cipher benc" "tripleDESBlock kbmk = Inr bmac" "block_cipher bmac"
proof -
  obtain b where b: "tripleDESBlock kbpk = Inr b" "block_cipher b"
    using assms tripleDESBlock_ok tripleDESBlock_cipher by blast
  define alg iters where "alg = (if length kbpk = 24 then 1 else 0 :: nat)" and "iters = length kbpk div 8"
  define kbek kbmk where "kbek = tr31kdf b 0 alg (length kbpk * 8) iters" and "kbmk = tr31kdf b 1 alg (length kbpk * 8) iters"
  have "length kbek = length kbpk" "length kbmk = length kbpk"
    using assms tr31kdf_length [OF b(2)] by (auto simp: kbek_def kbmk_def iters_def)
  then obtain benc bmac where c: "tripleDESBlock kbek = Inr benc" "tripleDESBlock kbmk = Inr bmac"
    using assms tripleDESBlock_ok by metis
  have "tr31DeriveKeys kbpk = Inr (kbek, kbmk)"
    using b(1) by (simp add: tr31DeriveKeys_def kbek_def kbmk_def alg_def iters_def Let_def)
  then show thesis
    using that c tripleDESBlock_cipher by blast
qed

section \<open>The shape of a wrapped block\<close>

text \<open>The confidential data before encryption.\<close>

definition kb_plain :: "bytes \<Rightarrow> bytes \<Rightarrow> bytes" where
  "kb_plain key r = (let plain = be_bytes 2 (length key * 8) @ key in plain @ take ((8 - length plain mod 8) mod 8) r)"

definition kb_pad :: "bytes \<Rightarrow> nat" where
  "kb_pad key = (8 - (2 + length key) mod 8) mod 8"

lemma kb_plain_length:
  assumes "kb_pad key \<le> length r" "key \<noteq> []"
  obtains n where "length (kb_plain key r) = 8 * Suc n"
proof -
  have len: "length (kb_plain key r) = (2 + length key) + (8 - (2 + length key) mod 8) mod 8"
    using assms(1) by (simp add: kb_plain_def kb_pad_def Let_def min_def)
  obtain k where "length (kb_plain key r) = 8 * k"
    using fill_dvd [of "2 + length key"] unfolding len by (rule dvdE)
  moreover have "0 < k"
    using calculation len by (cases k) simp_all
  ultimately show thesis
    using that [of "k - 1"] by simp
qed

lemma header_marshal_ok:
  assumes "header_marshal h n = Inr header"
  shows "length header = 16 \<and> n \<le> 9999 \<and> parseHeader header =
      Inr (h\<lparr>kb_Version := 66, kb_KeyVersion := (if kb_KeyVersion h = [] then [48, 48] else kb_KeyVersion h)\<rparr>) \<and>
    take 4 (drop 1 header) = fmt_04d n \<and> take 2 (drop 12 header) = [48, 48]"
proof -
  define kv where "kv = (if kb_KeyVersion h = [] then [48, 48] else kb_KeyVersion h)"
  have c: "length (kb_KeyUsage h) = 2" "length kv = 2" "n \<le> 9999"
    "header = [66] @ take 4 (fmt_04d n) @ kb_KeyUsage h @ [kb_Algorithm h, kb_ModeOfUse h] @ kv @ [kb_Exportability h] @ [48, 48] @ [48, 48]"
    using assms by (auto simp: header_marshal_def kv_def Let_def split: if_splits)
  obtain u1 u2 where u: "kb_KeyUsage h = [u1, u2]"
    using c(1) by (auto simp: length_Suc_conv eval_nat_numeral)
  obtain v1 v2 where v: "kv = [v1, v2]"
    using c(2) by (auto simp: length_Suc_conv eval_nat_numeral)
  obtain d1 d2 d3 d4 where d: "fmt_04d n = [d1, d2, d3, d4]"
    using length_fmt_04d [OF c(3)] by (auto simp: length_Suc_conv eval_nat_numeral)
  have "header = [66, d1, d2, d3, d4, u1, u2, kb_Algorithm h, kb_ModeOfUse h, v1, v2, kb_Exportability h, 48, 48, 48, 48]"
    using c(4) by (simp add: u v d)
  then show ?thesis
    using c(3) u by (simp add: parseHeader_def d kv_def [symmetric] v)
qed

lemma Wrap_shape:
  assumes w: "WrapKeyBlockRand kbpk hdr key r = Inr block"
  obtains header kbek kbmk benc bmac ct mac where
    "length kbpk = 16 \<or> length kbpk = 24" "key \<noteq> []" "kb_pad key \<le> length r"
    "header_marshal hdr (16 + 2 * length (kb_plain key r) + 16) = Inr header"
    "tr31DeriveKeys kbpk = Inr (kbek, kbmk)" "tripleDESBlock kbek = Inr benc" "tripleDESBlock kbmk = Inr bmac"
    "mac = cmacBlock bmac (header @ kb_plain key r)" "cbcEncrypt benc mac (kb_plain key r) = Inr ct"
    "block = header @ kb_upperHex ct @ kb_upperHex mac"
proof -
  have pad: "(if 0 < kb_pad key then and_then (read_random (kb_pad key) r) (\<lambda>rb. Inr ((be_bytes 2 (length key * 8) @ key) @ rb))
      else Inr (be_bytes 2 (length key * 8) @ key)) = (if kb_pad key \<le> length r then Inr (kb_plain key r) else Inl ErrRandom)"
    by (auto simp: read_random_def kb_plain_def kb_pad_def Let_def)
  have kp: "(8 - length (be_bytes 2 (length key * 8) @ key) mod 8) mod 8 = kb_pad key"
    by (simp add: kb_pad_def)
  show thesis
    using w that unfolding WrapKeyBlockRand_def Let_def kp pad
    by (auto simp: and_then_Inr split: if_splits)
qed

lemma Wrap_lengths:
  assumes "key \<noteq> []" "kb_pad key \<le> length r" "length header = 16" "block_cipher benc" "block_cipher bmac"
    and mac: "mac = cmacBlock bmac (header @ kb_plain key r)" and ct: "cbcEncrypt benc mac (kb_plain key r) = Inr ct"
  obtains n where "length (kb_plain key r) = 8 * Suc n" "length mac = 8" "length ct = 8 * Suc n"
    "cbcDecrypt benc mac ct = Inr (kb_plain key r)"
proof -
  obtain n where n: "length (kb_plain key r) = 8 * Suc n"
    using kb_plain_length assms(1,2) by blast
  have m: "length mac = 8"
    unfolding mac using n assms(3) by (intro cmac_length [OF assms(5), of _ "Suc (Suc n)"]) simp
  have c: "ct = cbc_encrypt benc mac (kb_plain key r)"
    using ct n m by (simp add: cbcEncrypt_def)
  have l: "length ct = 8 * Suc n"
    unfolding c by (rule block_cipher.cbc_length [OF assms(4) n m])
  have "cbcDecrypt benc mac ct = Inr (kb_plain key r)"
    using m l block_cipher.cbc_inverse [OF assms(4) n m] by (simp add: cbcDecrypt_def c)
  with n m l that show thesis
    by blast
qed

lemma kb_plain_key:
  assumes "32 + 2 * length (kb_plain key r) \<le> 9999"
  shows "be_val (take 2 (kb_plain key r)) div 8 = length key" "take (length key) (drop 2 (kb_plain key r)) = key"
    "2 + length key \<le> length (kb_plain key r)"
proof -
  have "length key * 8 < 256 ^ 2"
    using assms by (simp add: kb_plain_def Let_def)
  then have "be_val (be_bytes 2 (length key * 8)) = length key * 8"
    by (rule be_val_be_bytes_id)
  then show "be_val (take 2 (kb_plain key r)) div 8 = length key" "take (length key) (drop 2 (kb_plain key r)) = key"
    "2 + length key \<le> length (kb_plain key r)"
    by (simp_all add: kb_plain_def Let_def)
qed

text \<open>What unwrapping does with a block whose header and body have the right lengths.\<close>

lemma Unwrap_body:
  assumes kbpk: "length kbpk = 16 \<or> length kbpk = 24" and header: "length header = 16" "parseHeader header = Inr hdr"
    and body: "length ct = 8 * Suc n" "length mac = 8"
    and keys: "tr31DeriveKeys kbpk = Inr (kbek, kbmk)" "tripleDESBlock kbek = Inr benc" "tripleDESBlock kbmk = Inr bmac"
    and plain: "cbcDecrypt benc mac ct = Inr plain"
  shows "UnwrapKeyBlock kbpk (header @ kb_upperHex ct @ kb_upperHex mac) =
    (if kb_Version hdr \<noteq> 66 then Inl ErrVersion
     else and_then (atoiFixed (take 4 (drop 1 header))) (\<lambda>blockLen.
       if blockLen \<noteq> 32 + 2 * length ct then Inl ErrBlockLength
       else if take 2 (drop 12 header) \<noteq> [48, 48] then Inl ErrOptionalBlocks
       else if cmacBlock bmac (header @ plain) \<noteq> mac then Inl ErrAuthentication
       else if length plain < 2 then Inl ErrPlainShort
       else let keyLen = be_val (take 2 plain) div 8 in
         if 2 + keyLen > length plain then Inl ErrKeyLength else Inr (hdr, take keyLen (drop 2 plain))))"
proof -
  define block where "block = header @ kb_upperHex ct @ kb_upperHex mac"
  have b: "length block = 32 + 2 * length ct" "take 16 block = header" "drop 16 block = kb_upperHex ct @ kb_upperHex mac"
    "take 4 (drop 1 block) = take 4 (drop 1 header)" "take 2 (drop 12 block) = take 2 (drop 12 header)"
    using header body by (simp_all add: block_def)
  have l: "length (kb_upperHex ct @ kb_upperHex mac) = 16 * Suc (Suc n)"
    "take (length (kb_upperHex ct @ kb_upperHex mac) - 16) (kb_upperHex ct @ kb_upperHex mac) = kb_upperHex ct"
    "drop (length (kb_upperHex ct @ kb_upperHex mac) - 16) (kb_upperHex ct @ kb_upperHex mac) = kb_upperHex mac"
    using body by simp_all
  have k: "\<not> (length kbpk \<noteq> 16 \<and> length kbpk \<noteq> 24)" "\<not> length block < 16"
    "\<not> (length (kb_upperHex ct @ kb_upperHex mac) < 16 \<or> length (kb_upperHex ct @ kb_upperHex mac) mod 16 \<noteq> 0)"
    using kbpk b(1) unfolding l(1) by auto
  show ?thesis
    unfolding UnwrapKeyBlock_def block_def [symmetric] Let_def b l(2,3) header(2)
    using k by (simp only: if_False if_True hex_decode_kb option.case and_then_simps keys plain prod.case b(1))
qed

lemma header_marshal_iff:
  "(\<exists>header. header_marshal h n = Inr header) \<longleftrightarrow>
     length (kb_KeyUsage h) = 2 \<and> (kb_KeyVersion h = [] \<or> length (kb_KeyVersion h) = 2) \<and> n \<le> 9999"
  by (auto simp: header_marshal_def Let_def)

lemma Wrap_succeeds:
  assumes kbpk: "length kbpk = 16 \<or> length kbpk = 24" and key: "key \<noteq> []" "kb_pad key \<le> length r"
    and h: "header_marshal hdr (16 + 2 * length (kb_plain key r) + 16) = Inr header"
  shows "\<exists>block. WrapKeyBlockRand kbpk hdr key r = Inr block"
proof -
  obtain kbek kbmk benc bmac where keys: "tr31DeriveKeys kbpk = Inr (kbek, kbmk)"
    "tripleDESBlock kbek = Inr benc" "tripleDESBlock kbmk = Inr bmac" "block_cipher bmac"
    using tr31DeriveKeys_ok [OF kbpk] by metis
  obtain n where n: "length (kb_plain key r) = 8 * Suc n"
    using kb_plain_length key by blast
  define mac where "mac = cmacBlock bmac (header @ kb_plain key r)"
  have "length mac = 8"
    unfolding mac_def using n header_marshal_ok [OF h] by (intro cmac_length [OF keys(4), of _ "Suc (Suc n)"]) simp
  then have ct: "cbcEncrypt benc mac (kb_plain key r) = Inr (cbc_encrypt benc mac (kb_plain key r))"
    using n by (simp add: cbcEncrypt_def)
  have pad: "(if 0 < kb_pad key then and_then (read_random (kb_pad key) r) (\<lambda>rb. Inr ((be_bytes 2 (length key * 8) @ key) @ rb))
      else Inr (be_bytes 2 (length key * 8) @ key)) = Inr (kb_plain key r)"
    using key by (auto simp: read_random_def kb_plain_def kb_pad_def Let_def)
  have kp: "(8 - length (be_bytes 2 (length key * 8) @ key) mod 8) mod 8 = kb_pad key"
    by (simp add: kb_pad_def)
  show ?thesis
    unfolding WrapKeyBlockRand_def Let_def kp pad using kbpk key h keys ct by (auto simp: mac_def)
qed

lemma wrapped_unwraps:
  assumes "WrapKeyBlockRand kbpk hdr key r = Inr block"
  shows "UnwrapKeyBlock kbpk block =
    Inr (hdr\<lparr>kb_Version := 66, kb_KeyVersion := (if kb_KeyVersion hdr = [] then [48, 48] else kb_KeyVersion hdr)\<rparr>, key)"
  using assms
proof (rule Wrap_shape)
  fix header kbek kbmk benc bmac ct mac
  assume kbpk: "length kbpk = 16 \<or> length kbpk = 24" and key: "key \<noteq> []" "kb_pad key \<le> length r"
    and h: "header_marshal hdr (16 + 2 * length (kb_plain key r) + 16) = Inr header"
    and keys: "tr31DeriveKeys kbpk = Inr (kbek, kbmk)" "tripleDESBlock kbek = Inr benc" "tripleDESBlock kbmk = Inr bmac"
    and mac: "mac = cmacBlock bmac (header @ kb_plain key r)" and ct: "cbcEncrypt benc mac (kb_plain key r) = Inr ct"
    and block: "block = header @ kb_upperHex ct @ kb_upperHex mac"
  note hd = header_marshal_ok [OF h]
  obtain n where n: "length (kb_plain key r) = 8 * Suc n" "length mac = 8" "length ct = 8 * Suc n"
    "cbcDecrypt benc mac ct = Inr (kb_plain key r)"
    using Wrap_lengths [OF key _ _ _ mac ct] hd keys tripleDESBlock_cipher by blast
  have plain: "32 + 2 * length (kb_plain key r) \<le> 9999"
    using hd by simp
  have parsed: "parseHeader header =
      Inr (hdr\<lparr>kb_Version := 66, kb_KeyVersion := (if kb_KeyVersion hdr = [] then [48, 48] else kb_KeyVersion hdr)\<rparr>)"
    using hd by simp
  show ?thesis
    unfolding block using hd n mac plain kb_plain_key [OF plain]
    by (subst Unwrap_body [OF kbpk _ parsed n(3,2) keys n(4)]) (simp_all add: atoiFixed_fmt Let_def)
qed

section \<open>Properties\<close>

text \<open>Unwrapping a wrapped key under the same protection key returns the key and the header, with the
  version fixed to B and an empty key version read back as 00.  Wrapping succeeds exactly for a protection
  key of 16 or 24 bytes, a non-empty key, a two-character usage, an empty or two-character key version,
  enough pad randomness, and a block of at most 9999 characters.\<close>

theorem keyblock_roundtrip:
  "(\<forall>block. WrapKeyBlockRand kbpk hdr key r = Inr block \<longrightarrow> UnwrapKeyBlock kbpk block =
      Inr (hdr\<lparr>kb_Version := 66, kb_KeyVersion := (if kb_KeyVersion hdr = [] then [48, 48] else kb_KeyVersion hdr)\<rparr>, key)) \<and>
   ((\<exists>block. WrapKeyBlockRand kbpk hdr key r = Inr block) \<longleftrightarrow>
      (length kbpk = 16 \<or> length kbpk = 24) \<and> key \<noteq> [] \<and> length (kb_KeyUsage hdr) = 2 \<and>
      (kb_KeyVersion hdr = [] \<or> length (kb_KeyVersion hdr) = 2) \<and> kb_pad key \<le> length r \<and>
      32 + 2 * (2 + length key + kb_pad key) \<le> 9999)"
proof -
  have len: "length (kb_plain key r) = 2 + length key + kb_pad key" if "kb_pad key \<le> length r"
    using that by (simp add: kb_plain_def kb_pad_def Let_def min_def)
  have "(\<exists>block. WrapKeyBlockRand kbpk hdr key r = Inr block) \<longleftrightarrow>
      (length kbpk = 16 \<or> length kbpk = 24) \<and> key \<noteq> [] \<and> kb_pad key \<le> length r \<and>
      (\<exists>header. header_marshal hdr (16 + 2 * length (kb_plain key r) + 16) = Inr header)"
    using Wrap_succeeds by (blast elim: Wrap_shape)
  then show ?thesis
    using wrapped_unwraps len by (auto simp: header_marshal_iff)
qed

theorem keyblock_roundtrip_witness:
  "\<exists>block. WrapKeyBlockRand (replicate 16 1) \<lparr>kb_Version = 0, kb_KeyUsage = [80, 48], kb_Algorithm = 84, kb_ModeOfUse = 69,
       kb_KeyVersion = [], kb_Exportability = 69\<rparr> (replicate 16 2) (replicate 6 3) = Inr block \<and>
     UnwrapKeyBlock (replicate 16 1) block = Inr (\<lparr>kb_Version = 66, kb_KeyUsage = [80, 48], kb_Algorithm = 84, kb_ModeOfUse = 69,
       kb_KeyVersion = [48, 48], kb_Exportability = 69\<rparr>, replicate 16 2)"
  using keyblock_roundtrip [of "replicate 16 1" "\<lparr>kb_Version = 0, kb_KeyUsage = [80, 48], kb_Algorithm = 84, kb_ModeOfUse = 69,
       kb_KeyVersion = [], kb_Exportability = 69\<rparr>" "replicate 16 2" "replicate 6 3"]
  by (auto simp: kb_pad_def)

text \<open>C22: the clear header is authenticated.  A wrapped block whose 16-character header is altered, inside
  either of its two 8-character halves, is rejected; in particular the key usage, the algorithm, the mode of
  use and the exportability cannot be changed.\<close>

theorem keyblock_header_authentic:
  assumes "WrapKeyBlockRand kbpk hdr key r = Inr block"
    and "length h' = 16" "h' \<noteq> take 16 block"
    and "take 8 h' = take 8 block \<or> drop 8 h' = drop 8 (take 16 block)"
  shows "\<exists>e. UnwrapKeyBlock kbpk (h' @ drop 16 block) = Inl e"
  using assms(1)
proof (rule Wrap_shape)
  fix header kbek kbmk benc bmac ct mac
  assume kbpk: "length kbpk = 16 \<or> length kbpk = 24" and key: "key \<noteq> []" "kb_pad key \<le> length r"
    and h: "header_marshal hdr (16 + 2 * length (kb_plain key r) + 16) = Inr header"
    and keys: "tr31DeriveKeys kbpk = Inr (kbek, kbmk)" "tripleDESBlock kbek = Inr benc" "tripleDESBlock kbmk = Inr bmac"
    and mac: "mac = cmacBlock bmac (header @ kb_plain key r)" and ct: "cbcEncrypt benc mac (kb_plain key r) = Inr ct"
    and block: "block = header @ kb_upperHex ct @ kb_upperHex mac"
  have hd: "length header = 16"
    using header_marshal_ok [OF h] by simp
  have bmac: "block_cipher bmac"
    using keys tripleDESBlock_cipher by blast
  obtain n where n: "length (kb_plain key r) = 8 * Suc n" "length mac = 8" "length ct = 8 * Suc n"
    "cbcDecrypt benc mac ct = Inr (kb_plain key r)"
    using Wrap_lengths [OF key hd _ _ mac ct] keys tripleDESBlock_cipher by blast
  have b: "take 16 block = header" "take 8 block = take 8 header" "drop 16 block = kb_upperHex ct @ kb_upperHex mac"
    using hd by (simp_all add: block)
  obtain k :: nat where k: "k < 2" "take (8 * k) h' = take (8 * k) header" "drop (8 * k + 8) h' = drop (8 * k + 8) header"
  proof (cases "take 8 h' = take 8 header")
    case True
    then show thesis
      using that [of 1] assms(2) hd by simp
  next
    case False
    then show thesis
      using that [of 0] assms(4) b hd by simp
  qed
  have "cmacBlock bmac (h' @ kb_plain key r) \<noteq> cmacBlock bmac (header @ kb_plain key r)"
    by (rule cmac_differs [OF bmac, of _ "Suc (Suc n)" _ k]) (use assms(2,3) hd n(1) k b in auto)
  then have "cmacBlock bmac (h' @ kb_plain key r) \<noteq> mac"
    by (simp add: mac)
  moreover obtain hdr' where "parseHeader h' = Inr hdr'"
    using assms(2) by (simp add: parseHeader_def)
  ultimately show ?thesis
    unfolding b(3) using Unwrap_body [OF kbpk assms(2) _ n(3,2) keys n(4), of hdr']
    by (cases "atoiFixed (take 4 (drop 1 h'))") auto
qed

theorem keyblock_header_authentic_witness:
  "\<exists>block e. WrapKeyBlockRand (replicate 16 1) \<lparr>kb_Version = 0, kb_KeyUsage = [80, 48], kb_Algorithm = 84, kb_ModeOfUse = 69,
       kb_KeyVersion = [], kb_Exportability = 78\<rparr> (replicate 16 2) (replicate 6 3) = Inr block \<and>
     UnwrapKeyBlock (replicate 16 1) ((take 16 block)[11 := 69] @ drop 16 block) = Inl e"
proof -
  define hdr where "hdr = \<lparr>kb_Version = 0, kb_KeyUsage = [80, 48], kb_Algorithm = 84, kb_ModeOfUse = 69,
    kb_KeyVersion = [], kb_Exportability = 78\<rparr>"
  have marshal: "header_marshal hdr 80 = Inr [66, 48, 48, 56, 48, 80, 48, 84, 69, 48, 48, 78, 48, 48, 48, 48]"
    by (simp add: header_marshal_def hdr_def fmt_04d_def fmt_nat.simps digit_of_def numeral_2_eq_2)
  have plain: "length (kb_plain (replicate 16 2) (replicate 6 3)) = 24"
    by (simp add: kb_plain_def Let_def)
  have "\<exists>block. WrapKeyBlockRand (replicate 16 1) hdr (replicate 16 2) (replicate 6 3) = Inr block"
    by (rule Wrap_succeeds) (simp_all add: kb_pad_def plain marshal)
  then obtain block where block: "WrapKeyBlockRand (replicate 16 1) hdr (replicate 16 2) (replicate 6 3) = Inr block" ..
  then have h: "take 16 block = [66, 48, 48, 56, 48, 80, 48, 84, 69, 48, 48, 78, 48, 48, 48, 48]"
    using plain marshal by (rule_tac Wrap_shape) auto
  have "take 8 block = take 8 (take 16 block)"
    by simp
  then obtain e where "UnwrapKeyBlock (replicate 16 1) ((take 16 block)[11 := 69] @ drop 16 block) = Inl e"
    using keyblock_header_authentic [OF block, of "(take 16 block)[11 := 69]"] unfolding h by auto
  then show ?thesis
    using block unfolding hdr_def by blast
qed

end
