(* ===== verification/Vault.thy ===== *)
theory Vault
imports PinBlock KeyBlock
begin

text \<open>The two software vaults, \<^verbatim>\<open>src/vault/vault.go\<close> and \<^verbatim>\<open>sealed.go\<close>.  A vault is the map from
  key references to what it stores; each operation is atomic under the vault's mutex and is a function
  of the state and of the random bytes it draws.  AES-GCM, which seals the stored keys, is a parameter
  with its documented law.  Zeroising buffers has no effect on results and is left out.  The lemmas show
  that PIN translation preserves the PIN, and that the sealed vault refines the clear one guarded by key
  usage.\<close>

section \<open>The clear vault\<close>

type_synonym soft_vault = "bytes \<rightharpoonup> bytes"

definition NewSoftVault :: soft_vault where
  "NewSoftVault = Map.empty"

definition soft_SetKey :: "soft_vault \<Rightarrow> bytes \<Rightarrow> bytes \<Rightarrow> soft_vault" where
  "soft_SetKey v ref key = v(ref \<mapsto> key)"

definition soft_ImportKeyBlock :: "soft_vault \<Rightarrow> bytes \<Rightarrow> bytes \<Rightarrow> bytes \<Rightarrow> soft_vault \<times> (vault_error + key_header)" where
  "soft_ImportKeyBlock v ref kbpk block = (case UnwrapKeyBlock kbpk block of
       Inl e \<Rightarrow> (v, Inl e)
     | Inr (hdr, key) \<Rightarrow> (soft_SetKey v ref key, Inr hdr))"

definition soft_key :: "soft_vault \<Rightarrow> bytes \<Rightarrow> vault_error + bytes" where
  "soft_key v ref = (case v ref of None \<Rightarrow> Inl ErrUnknownKey | Some k \<Rightarrow> Inr k)"

definition soft_EncryptPINBlock :: "bytes \<Rightarrow> soft_vault \<Rightarrow> bytes \<Rightarrow> pin_format \<Rightarrow> bytes \<Rightarrow> bytes \<Rightarrow> vault_error + bytes" where
  "soft_EncryptPINBlock r v keyRef f pin pan =
     and_then (soft_key v keyRef) (\<lambda>k.
     and_then (EncodePINBlockRand f pin pan r) (\<lambda>clear.
     and_then (tripleDESBlock k) (\<lambda>b.
     ecbEncrypt b clear)))"

definition soft_TranslatePIN ::
  "bytes \<Rightarrow> soft_vault \<Rightarrow> bytes \<Rightarrow> bytes \<Rightarrow> bytes \<Rightarrow> bytes \<Rightarrow> pin_format \<Rightarrow> pin_format \<Rightarrow> vault_error + bytes" where
  "soft_TranslatePIN r v srcRef dstRef encBlock pan srcFormat dstFormat =
     and_then (soft_key v srcRef) (\<lambda>ks.
     and_then (soft_key v dstRef) (\<lambda>kd.
     and_then (tripleDESBlock ks) (\<lambda>bs.
     and_then (ecbDecrypt bs encBlock) (\<lambda>clear.
     and_then (DecodePINBlock srcFormat clear pan) (\<lambda>pin.
     and_then (EncodePINBlockRand dstFormat pin pan r) (\<lambda>reblock.
     and_then (tripleDESBlock kd) (\<lambda>bd.
     ecbEncrypt bd reblock)))))))"

definition soft_GenerateMAC :: "soft_vault \<Rightarrow> bytes \<Rightarrow> mac_algorithm \<Rightarrow> padding \<Rightarrow> bytes \<Rightarrow> vault_error + bytes" where
  "soft_GenerateMAC v keyRef alg pad data = and_then (soft_key v keyRef) (\<lambda>k. GenerateMAC alg pad k data)"

definition soft_VerifyMAC :: "soft_vault \<Rightarrow> bytes \<Rightarrow> mac_algorithm \<Rightarrow> padding \<Rightarrow> bytes \<Rightarrow> bytes \<Rightarrow> vault_error + bool" where
  "soft_VerifyMAC v keyRef alg pad data mac = and_then (soft_key v keyRef) (\<lambda>k. VerifyMAC alg pad k data mac)"

section \<open>The sealed vault\<close>

datatype key_usage = UsageAny | UsagePIN | UsageMAC | UsageData | UsageKEK

record key_meta =
  m_Usage :: key_usage
  m_Version :: int
  m_Label :: bytes

datatype audit_op = AuditSetKey | AuditImportKey | AuditEncryptPIN | AuditTranslatePIN | AuditMAC | AuditVerifyMAC

record audit_event =
  a_Op :: audit_op
  a_KeyRef :: bytes
  a_OK :: bool
  a_Err :: "vault_error option"

text \<open>The AEAD cipher: seal and open under a nonce, and the nonce size.  \<open>aead_law\<close> is the documented
  contract of \<^verbatim>\<open>cipher.AEAD\<close>: what was sealed under a nonce opens under it.\<close>

record aead =
  aead_Seal :: "bytes \<Rightarrow> bytes \<Rightarrow> bytes"
  aead_Open :: "bytes \<Rightarrow> bytes \<Rightarrow> bytes option"
  aead_NonceSize :: nat

definition aead_law :: "aead \<Rightarrow> bool" where
  "aead_law a \<longleftrightarrow> (\<forall>nonce key. length nonce = aead_NonceSize a \<longrightarrow> aead_Open a nonce (aead_Seal a nonce key) = Some key)"

record sealed_key =
  sk_blob :: bytes
  sk_kcv :: "bytes option"
  sk_meta :: key_meta

record sealed_vault =
  sv_aead :: aead
  sv_audit :: bool
  sv_events :: "audit_event list"
  sv_keys :: "bytes \<rightharpoonup> sealed_key"

text \<open>\<open>newAEAD\<close> stands for \<^verbatim>\<open>aes.NewCipher\<close> followed by \<^verbatim>\<open>cipher.NewGCM\<close>, which accept every AES key size.\<close>

definition NewSealedVault :: "(bytes \<Rightarrow> aead) \<Rightarrow> bytes \<Rightarrow> bool \<Rightarrow> vault_error + sealed_vault" where
  "NewSealedVault newAEAD kek audit =
     (if length kek \<notin> {16, 24, 32} then Inl ErrKeyLen
      else Inr \<lparr>sv_aead = newAEAD kek, sv_audit = audit, sv_events = [], sv_keys = Map.empty\<rparr>)"

definition sealed_emit :: "sealed_vault \<Rightarrow> audit_event \<Rightarrow> sealed_vault" where
  "sealed_emit v e = (if sv_audit v then v\<lparr>sv_events := sv_events v @ [e]\<rparr> else v)"

definition KeyCheckValue :: "bytes \<Rightarrow> bytes option" where
  "KeyCheckValue key =
     (case (if length key = 8 then desBlock key else if length key = 16 \<or> length key = 24 then tripleDESBlock key else Inl ErrKeyLen) of
        Inl _ \<Rightarrow> None
      | Inr b \<Rightarrow> Some (take 3 (blockEnc b (replicate 8 0))))"

definition sealed_seal :: "bytes \<Rightarrow> sealed_vault \<Rightarrow> bytes \<Rightarrow> vault_error + bytes" where
  "sealed_seal r v key =
     and_then (read_random (aead_NonceSize (sv_aead v)) r) (\<lambda>nonce. Inr (nonce @ aead_Seal (sv_aead v) nonce key))"

definition sealed_open :: "sealed_vault \<Rightarrow> bytes \<Rightarrow> vault_error + bytes" where
  "sealed_open v blob =
     (let ns = aead_NonceSize (sv_aead v) in
      if length blob < ns then Inl ErrSealedShort
      else case aead_Open (sv_aead v) (take ns blob) (drop ns blob) of None \<Rightarrow> Inl ErrUnseal | Some key \<Rightarrow> Inr key)"

definition sealed_SetKey :: "bytes \<Rightarrow> sealed_vault \<Rightarrow> bytes \<Rightarrow> bytes \<Rightarrow> key_meta \<Rightarrow> sealed_vault \<times> vault_error option" where
  "sealed_SetKey r v ref key meta = (case sealed_seal r v key of
       Inl e \<Rightarrow> (sealed_emit v \<lparr>a_Op = AuditSetKey, a_KeyRef = ref, a_OK = False, a_Err = Some e\<rparr>, Some e)
     | Inr blob \<Rightarrow>
         (sealed_emit (v\<lparr>sv_keys := (sv_keys v)(ref \<mapsto> \<lparr>sk_blob = blob, sk_kcv = KeyCheckValue key, sk_meta = meta\<rparr>)\<rparr>)
            \<lparr>a_Op = AuditSetKey, a_KeyRef = ref, a_OK = True, a_Err = None\<rparr>, None))"

definition sealed_ImportKeyBlock ::
  "bytes \<Rightarrow> sealed_vault \<Rightarrow> bytes \<Rightarrow> bytes \<Rightarrow> bytes \<Rightarrow> key_usage \<Rightarrow> sealed_vault \<times> (vault_error + key_header)" where
  "sealed_ImportKeyBlock r v ref kbpk block usage = (case UnwrapKeyBlock kbpk block of
       Inl e \<Rightarrow> (sealed_emit v \<lparr>a_Op = AuditImportKey, a_KeyRef = ref, a_OK = False, a_Err = Some e\<rparr>, Inl e)
     | Inr (hdr, key) \<Rightarrow>
         (case sealed_SetKey r v ref key \<lparr>m_Usage = usage, m_Version = 0, m_Label = []\<rparr> of
            (v', Some e) \<Rightarrow> (v', Inl e)
          | (v', None) \<Rightarrow> (v', Inr hdr)))"

definition sealed_KCV :: "sealed_vault \<Rightarrow> bytes \<Rightarrow> bytes option" where
  "sealed_KCV v ref = (case sv_keys v ref of Some sk \<Rightarrow> sk_kcv sk | None \<Rightarrow> None)"

definition withKey :: "sealed_vault \<Rightarrow> bytes \<Rightarrow> key_usage \<Rightarrow> (bytes \<Rightarrow> vault_error + 'a) \<Rightarrow> vault_error + 'a" where
  "withKey v ref want fn = (case sv_keys v ref of
       None \<Rightarrow> Inl ErrUnknownKey
     | Some sk \<Rightarrow>
         if want \<noteq> UsageAny \<and> m_Usage (sk_meta sk) \<noteq> UsageAny \<and> m_Usage (sk_meta sk) \<noteq> want then Inl ErrUsage
         else and_then (sealed_open v (sk_blob sk)) fn)"

text \<open>The audited result of an operation.\<close>

definition audited :: "sealed_vault \<Rightarrow> audit_op \<Rightarrow> bytes \<Rightarrow> vault_error + 'a \<Rightarrow> sealed_vault \<times> (vault_error + 'a)" where
  "audited v oper ref res = (sealed_emit v \<lparr>a_Op = oper, a_KeyRef = ref, a_OK = (case res of Inl _ \<Rightarrow> False | Inr _ \<Rightarrow> True),
      a_Err = (case res of Inl e \<Rightarrow> Some e | Inr _ \<Rightarrow> None)\<rparr>, res)"

definition sealed_EncryptPINBlock ::
  "bytes \<Rightarrow> sealed_vault \<Rightarrow> bytes \<Rightarrow> pin_format \<Rightarrow> bytes \<Rightarrow> bytes \<Rightarrow> sealed_vault \<times> (vault_error + bytes)" where
  "sealed_EncryptPINBlock r v keyRef f pin pan = audited v AuditEncryptPIN keyRef
     (withKey v keyRef UsagePIN (\<lambda>key.
        and_then (EncodePINBlockRand f pin pan r) (\<lambda>clear. and_then (tripleDESBlock key) (\<lambda>b. ecbEncrypt b clear))))"

definition sealed_TranslatePIN ::
  "bytes \<Rightarrow> sealed_vault \<Rightarrow> bytes \<Rightarrow> bytes \<Rightarrow> bytes \<Rightarrow> bytes \<Rightarrow> pin_format \<Rightarrow> pin_format \<Rightarrow> sealed_vault \<times> (vault_error + bytes)" where
  "sealed_TranslatePIN r v srcRef dstRef encBlock pan srcFormat dstFormat =
     audited v AuditTranslatePIN (srcRef @ bytes_of ''->'' @ dstRef)
     (withKey v srcRef UsagePIN (\<lambda>srcKey. withKey v dstRef UsagePIN (\<lambda>dstKey.
        and_then (tripleDESBlock srcKey) (\<lambda>bs.
        and_then (ecbDecrypt bs encBlock) (\<lambda>clr.
        and_then (DecodePINBlock srcFormat clr pan) (\<lambda>pin.
        and_then (EncodePINBlockRand dstFormat pin pan r) (\<lambda>reblock.
        and_then (tripleDESBlock dstKey) (\<lambda>bd.
        ecbEncrypt bd reblock))))))))"

definition sealed_GenerateMAC ::
  "sealed_vault \<Rightarrow> bytes \<Rightarrow> mac_algorithm \<Rightarrow> padding \<Rightarrow> bytes \<Rightarrow> sealed_vault \<times> (vault_error + bytes)" where
  "sealed_GenerateMAC v keyRef alg pad data =
     audited v AuditMAC keyRef (withKey v keyRef UsageMAC (\<lambda>key. GenerateMAC alg pad key data))"

definition sealed_VerifyMAC ::
  "sealed_vault \<Rightarrow> bytes \<Rightarrow> mac_algorithm \<Rightarrow> padding \<Rightarrow> bytes \<Rightarrow> bytes \<Rightarrow> sealed_vault \<times> (vault_error + bool)" where
  "sealed_VerifyMAC v keyRef alg pad data mac =
     audited v AuditVerifyMAC keyRef (withKey v keyRef UsageMAC (\<lambda>key. VerifyMAC alg pad key data mac))"

section \<open>PIN translation\<close>

text \<open>An encrypted block holds a PIN under a key of the vault when it decrypts and decodes to it.\<close>

definition holds_pin :: "soft_vault \<Rightarrow> bytes \<Rightarrow> pin_format \<Rightarrow> bytes \<Rightarrow> bytes \<Rightarrow> bytes \<Rightarrow> bool" where
  "holds_pin v ref f pan enc pin \<longleftrightarrow> (\<exists>k b clear. v ref = Some k \<and> tripleDESBlock k = Inr b \<and>
     ecbDecrypt b enc = Inr clear \<and> DecodePINBlock f clear pan = Inr pin)"

lemma ecb_roundtrip:
  assumes "tripleDESBlock k = Inr b" "length clear = 8" "ecbEncrypt b clear = Inr enc"
  shows "ecbDecrypt b enc = Inr clear"
proof -
  have b: "block_cipher b"
    using assms(1) by (rule tripleDESBlock_cipher)
  have "enc = each_block (b_enc b) clear"
    using assms(2,3) by (simp add: ecbEncrypt_def)
  then show ?thesis
    using block_cipher.ecb_length [OF b, of clear 1] block_cipher.ecb_inverse [OF b, of clear 1] assms(2)
    by (simp add: ecbDecrypt_def)
qed

lemma DecodePINBlock_length: "DecodePINBlock f block pan = Inr pin \<Longrightarrow> length block = 8"
  by (simp add: DecodePINBlock_def split: if_splits)

lemma encrypted_holds_pin:
  assumes "soft_EncryptPINBlock r v ref f pin pan = Inr enc"
  shows "holds_pin v ref f pan enc pin"
proof -
  obtain k clear b where c: "v ref = Some k" "EncodePINBlockRand f pin pan r = Inr clear" "tripleDESBlock k = Inr b"
    "ecbEncrypt b clear = Inr enc"
    using assms by (auto simp: soft_EncryptPINBlock_def soft_key_def and_then_Inr split: option.splits)
  then have d: "DecodePINBlock f clear pan = Inr pin"
    using decode_encode_iff by blast
  with c ecb_roundtrip [OF c(3) _ c(4)] DecodePINBlock_length [OF d] show ?thesis
    by (auto simp: holds_pin_def)
qed

lemma translate_iff:
  "soft_TranslatePIN r v src dst enc pan sf df = Inr out \<longleftrightarrow>
     (\<exists>pin. holds_pin v src sf pan enc pin \<and> soft_EncryptPINBlock r v dst df pin pan = Inr out)"
proof
  assume "soft_TranslatePIN r v src dst enc pan sf df = Inr out"
  then obtain ks kd bs clear pin reblock bd where "v src = Some ks" "v dst = Some kd" "tripleDESBlock ks = Inr bs"
    "ecbDecrypt bs enc = Inr clear" "DecodePINBlock sf clear pan = Inr pin" "EncodePINBlockRand df pin pan r = Inr reblock"
    "tripleDESBlock kd = Inr bd" "ecbEncrypt bd reblock = Inr out"
    by (auto simp: soft_TranslatePIN_def soft_key_def and_then_Inr split: option.splits)
  then have "holds_pin v src sf pan enc pin \<and> soft_EncryptPINBlock r v dst df pin pan = Inr out"
    by (simp add: holds_pin_def soft_EncryptPINBlock_def soft_key_def)
  then show "\<exists>pin. holds_pin v src sf pan enc pin \<and> soft_EncryptPINBlock r v dst df pin pan = Inr out" ..
next
  assume "\<exists>pin. holds_pin v src sf pan enc pin \<and> soft_EncryptPINBlock r v dst df pin pan = Inr out"
  then obtain ks kd bs clear pin reblock bd where "v src = Some ks" "v dst = Some kd" "tripleDESBlock ks = Inr bs"
    "ecbDecrypt bs enc = Inr clear" "DecodePINBlock sf clear pan = Inr pin" "EncodePINBlockRand df pin pan r = Inr reblock"
    "tripleDESBlock kd = Inr bd" "ecbEncrypt bd reblock = Inr out"
    unfolding holds_pin_def by (auto simp: soft_EncryptPINBlock_def soft_key_def and_then_Inr split: option.splits)
  then show "soft_TranslatePIN r v src dst enc pan sf df = Inr out"
    by (simp add: soft_TranslatePIN_def soft_key_def)
qed

section \<open>The sealed vault against the clear one\<close>

datatype vault_op =
    VSetKey bytes bytes bytes key_meta
  | VImport bytes bytes bytes bytes key_usage
  | VEncryptPIN bytes bytes pin_format bytes bytes
  | VTranslatePIN bytes bytes bytes bytes bytes pin_format pin_format
  | VGenerateMAC bytes mac_algorithm padding bytes
  | VVerifyMAC bytes mac_algorithm padding bytes bytes

datatype vault_out = OutDone | OutHeader key_header | OutBytes bytes | OutBool bool

fun sealed_do :: "sealed_vault \<Rightarrow> vault_op \<Rightarrow> sealed_vault \<times> (vault_error + vault_out)" where
  "sealed_do v (VSetKey r ref key meta) =
     (case sealed_SetKey r v ref key meta of (v', None) \<Rightarrow> (v', Inr OutDone) | (v', Some e) \<Rightarrow> (v', Inl e))"
| "sealed_do v (VImport r ref kbpk block usage) = apsnd (map_sum id OutHeader) (sealed_ImportKeyBlock r v ref kbpk block usage)"
| "sealed_do v (VEncryptPIN r ref f pin pan) = apsnd (map_sum id OutBytes) (sealed_EncryptPINBlock r v ref f pin pan)"
| "sealed_do v (VTranslatePIN r src dst enc pan sf df) =
     apsnd (map_sum id OutBytes) (sealed_TranslatePIN r v src dst enc pan sf df)"
| "sealed_do v (VGenerateMAC ref alg pad data) = apsnd (map_sum id OutBytes) (sealed_GenerateMAC v ref alg pad data)"
| "sealed_do v (VVerifyMAC ref alg pad data mac) = apsnd (map_sum id OutBool) (sealed_VerifyMAC v ref alg pad data mac)"

primrec sealed_run :: "sealed_vault \<Rightarrow> vault_op list \<Rightarrow> sealed_vault \<times> (vault_error + vault_out) list" where
  "sealed_run v [] = (v, [])"
| "sealed_run v (x # xs) = (case sealed_do v x of (v', res) \<Rightarrow> apsnd ((#) res) (sealed_run v' xs))"

text \<open>The contract: a clear vault whose operations check the usage of every key they name.\<close>

definition guarded :: "soft_vault \<times> (bytes \<Rightarrow> key_usage) \<Rightarrow> bytes \<Rightarrow> key_usage \<Rightarrow> vault_error + 'a \<Rightarrow> vault_error + 'a" where
  "guarded g ref want res = (case fst g ref of
       None \<Rightarrow> Inl ErrUnknownKey
     | Some _ \<Rightarrow> if snd g ref = UsageAny \<or> snd g ref = want then res else Inl ErrUsage)"

fun guarded_do :: "nat \<Rightarrow> soft_vault \<times> (bytes \<Rightarrow> key_usage) \<Rightarrow> vault_op \<Rightarrow>
    (soft_vault \<times> (bytes \<Rightarrow> key_usage)) \<times> (vault_error + vault_out)" where
  "guarded_do ns g (VSetKey r ref key meta) =
     (if length r < ns then (g, Inl ErrRandom)
      else ((soft_SetKey (fst g) ref key, (snd g)(ref := m_Usage meta)), Inr OutDone))"
| "guarded_do ns g (VImport r ref kbpk block usage) = (case soft_ImportKeyBlock (fst g) ref kbpk block of
       (_, Inl e) \<Rightarrow> (g, Inl e)
     | (s', Inr hdr) \<Rightarrow> if length r < ns then (g, Inl ErrRandom) else ((s', (snd g)(ref := usage)), Inr (OutHeader hdr)))"
| "guarded_do ns g (VEncryptPIN r ref f pin pan) =
     (g, map_sum id OutBytes (guarded g ref UsagePIN (soft_EncryptPINBlock r (fst g) ref f pin pan)))"
| "guarded_do ns g (VTranslatePIN r src dst enc pan sf df) =
     (g, map_sum id OutBytes (guarded g src UsagePIN (guarded g dst UsagePIN (soft_TranslatePIN r (fst g) src dst enc pan sf df))))"
| "guarded_do ns g (VGenerateMAC ref alg pad data) =
     (g, map_sum id OutBytes (guarded g ref UsageMAC (soft_GenerateMAC (fst g) ref alg pad data)))"
| "guarded_do ns g (VVerifyMAC ref alg pad data mac) =
     (g, map_sum id OutBool (guarded g ref UsageMAC (soft_VerifyMAC (fst g) ref alg pad data mac)))"

primrec guarded_run :: "nat \<Rightarrow> soft_vault \<times> (bytes \<Rightarrow> key_usage) \<Rightarrow> vault_op list \<Rightarrow>
    (soft_vault \<times> (bytes \<Rightarrow> key_usage)) \<times> (vault_error + vault_out) list" where
  "guarded_run ns g [] = (g, [])"
| "guarded_run ns g (x # xs) = (case guarded_do ns g x of (g', res) \<Rightarrow> apsnd ((#) res) (guarded_run ns g' xs))"

text \<open>The simulation: every sealed key opens to the clear key, with its usage and check value.\<close>

fun key_sim :: "(bytes \<Rightarrow> vault_error + bytes) \<Rightarrow> sealed_key option \<Rightarrow> bytes option \<Rightarrow> key_usage \<Rightarrow> bool" where
  "key_sim opn None k u \<longleftrightarrow> k = None"
| "key_sim opn (Some sk) k u \<longleftrightarrow> (\<exists>key. k = Some key \<and> opn (sk_blob sk) = Inr key \<and> u = m_Usage (sk_meta sk) \<and>
     sk_kcv sk = KeyCheckValue key)"

definition sealed_sim :: "sealed_vault \<Rightarrow> soft_vault \<times> (bytes \<Rightarrow> key_usage) \<Rightarrow> bool" where
  "sealed_sim v g \<longleftrightarrow> (\<forall>ref. key_sim (sealed_open v) (sv_keys v ref) (fst g ref) (snd g ref))"

lemma sealed_sim_at: "sealed_sim v g \<Longrightarrow> key_sim (sealed_open v) (sv_keys v ref) (fst g ref) (snd g ref)"
  by (simp add: sealed_sim_def)

lemma withKey_sim:
  assumes "sealed_sim v g" "want \<noteq> UsageAny"
  shows "withKey v ref want fn = guarded g ref want (and_then (soft_key (fst g) ref) fn)"
proof (cases "sv_keys v ref")
  case None
  then show ?thesis
    using sealed_sim_at [OF assms(1), of ref] by (simp add: withKey_def guarded_def)
next
  case (Some sk)
  then obtain key where "fst g ref = Some key" "sealed_open v (sk_blob sk) = Inr key" "snd g ref = m_Usage (sk_meta sk)"
    using sealed_sim_at [OF assms(1), of ref] by auto
  with Some assms(2) show ?thesis
    by (simp add: withKey_def guarded_def soft_key_def)
qed

lemma sealed_emit_simps [simp]:
  "sv_aead (sealed_emit v e) = sv_aead v" "sv_keys (sealed_emit v e) = sv_keys v" "sv_audit (sealed_emit v e) = sv_audit v"
  by (simp_all add: sealed_emit_def)

lemma sealed_open_cong: "sv_aead v = sv_aead w \<Longrightarrow> sealed_open v = sealed_open w"
  by (intro ext) (simp add: sealed_open_def Let_def)

lemma sealed_sim_cong:
  assumes "sv_aead v = sv_aead w" "sv_keys v = sv_keys w"
  shows "sealed_sim v g = sealed_sim w g"
  unfolding sealed_sim_def sealed_open_cong [OF assms(1)] assms(2) ..

lemma sealed_sim_emit [simp]: "sealed_sim (sealed_emit v e) g = sealed_sim v g"
  by (rule sealed_sim_cong) simp_all

lemma seal_open:
  assumes "aead_law (sv_aead v)" "sealed_seal r v key = Inr blob"
  shows "sealed_open v blob = Inr key"
proof -
  define ns where "ns = aead_NonceSize (sv_aead v)"
  have b: "length (take ns r) = ns" "blob = take ns r @ aead_Seal (sv_aead v) (take ns r) key"
    using assms(2) by (auto simp: sealed_seal_def read_random_def and_then_Inr ns_def split: if_splits)
  have t: "take ns blob = take ns r" "drop ns blob = aead_Seal (sv_aead v) (take ns r) key" "\<not> length blob < ns"
    using b by simp_all
  have "aead_Open (sv_aead v) (take ns r) (aead_Seal (sv_aead v) (take ns r) key) = Some key"
    using assms(1) b(1) unfolding aead_law_def ns_def by blast
  with t show ?thesis
    by (simp add: sealed_open_def ns_def [symmetric])
qed

lemma sealed_seal_iff: "(\<exists>blob. sealed_seal r v key = Inr blob) \<longleftrightarrow> aead_NonceSize (sv_aead v) \<le> length r"
  "sealed_seal r v key = Inl e \<longleftrightarrow> e = ErrRandom \<and> length r < aead_NonceSize (sv_aead v)"
  by (auto simp: sealed_seal_def read_random_def)

lemma SetKey_sim:
  assumes sim: "sealed_sim v (s, u)" and law: "aead_law (sv_aead v)" and ok: "aead_NonceSize (sv_aead v) \<le> length r"
  shows "\<exists>v'. sealed_SetKey r v ref key meta = (v', None) \<and> sv_aead v' = sv_aead v \<and>
    sealed_sim v' (soft_SetKey s ref key, u(ref := m_Usage meta))"
proof -
  obtain blob where blob: "sealed_seal r v key = Inr blob"
    using ok sealed_seal_iff by blast
  define w where "w = v\<lparr>sv_keys := (sv_keys v)(ref \<mapsto> \<lparr>sk_blob = blob, sk_kcv = KeyCheckValue key, sk_meta = meta\<rparr>)\<rparr>"
  have "sealed_open w = sealed_open v"
    by (rule sealed_open_cong) (simp add: w_def)
  then have "sealed_sim w (soft_SetKey s ref key, u(ref := m_Usage meta))"
    using sim seal_open [OF law blob] unfolding sealed_sim_def by (simp add: soft_SetKey_def) (simp add: w_def)
  then show ?thesis
    using blob by (auto simp: sealed_SetKey_def w_def)
qed

lemma SetKey_fails:
  "length r < aead_NonceSize (sv_aead v) \<Longrightarrow> sealed_SetKey r v ref key meta =
     (sealed_emit v \<lparr>a_Op = AuditSetKey, a_KeyRef = ref, a_OK = False, a_Err = Some ErrRandom\<rparr>, Some ErrRandom)"
  using sealed_seal_iff(2) [of r v key ErrRandom] by (simp add: sealed_SetKey_def)

lemma sealed_do_sim:
  assumes sim: "sealed_sim v g" and law: "aead_law (sv_aead v)"
    and s: "sealed_do v x = (v', res)" and g: "guarded_do (aead_NonceSize (sv_aead v)) g x = (g', res')"
  shows "res = res' \<and> sealed_sim v' g' \<and> sv_aead v' = sv_aead v"
proof (cases x)
  case (VSetKey r ref key meta)
  show ?thesis
  proof (cases "length r < aead_NonceSize (sv_aead v)")
    case True
    then show ?thesis
      using sim s g VSetKey by (auto simp: SetKey_fails)
  next
    case False
    then show ?thesis
      using SetKey_sim [of v "fst g" "snd g" r ref key meta] sim law s g VSetKey by auto
  qed
next
  case (VImport r ref kbpk block usage)
  show ?thesis
  proof (cases "UnwrapKeyBlock kbpk block")
    case (Inl e)
    then show ?thesis
      using sim s g VImport by (auto simp: sealed_ImportKeyBlock_def soft_ImportKeyBlock_def)
  next
    case (Inr hk)
    obtain hdr key where hk: "hk = (hdr, key)"
      by fastforce
    show ?thesis
    proof (cases "length r < aead_NonceSize (sv_aead v)")
      case True
      then show ?thesis
        using sim s g VImport Inr hk by (auto simp: sealed_ImportKeyBlock_def soft_ImportKeyBlock_def SetKey_fails)
    next
      case False
      then show ?thesis
        using SetKey_sim [of v "fst g" "snd g" r ref key "\<lparr>m_Usage = usage, m_Version = 0, m_Label = []\<rparr>"] sim law s g VImport Inr hk
        by (auto simp: sealed_ImportKeyBlock_def soft_ImportKeyBlock_def)
    qed
  qed
next
  case (VEncryptPIN r ref f pin pan)
  then show ?thesis
    using sim s g by (auto simp: sealed_EncryptPINBlock_def audited_def withKey_sim [OF sim] soft_EncryptPINBlock_def)
next
  case (VTranslatePIN r src dst enc pan sf df)
  have "guarded g src UsagePIN (and_then (soft_key (fst g) src) (\<lambda>ks. guarded g dst UsagePIN (and_then (soft_key (fst g) dst) (fn ks)))) =
    guarded g src UsagePIN (guarded g dst UsagePIN (and_then (soft_key (fst g) src) (\<lambda>ks. and_then (soft_key (fst g) dst) (fn ks))))"
    for fn :: "bytes \<Rightarrow> bytes \<Rightarrow> vault_error + bytes"
    by (auto simp: guarded_def soft_key_def split: option.splits)
  with VTranslatePIN show ?thesis
    using sim s g by (auto simp: sealed_TranslatePIN_def audited_def withKey_sim [OF sim] soft_TranslatePIN_def)
next
  case (VGenerateMAC ref alg pad data)
  then show ?thesis
    using sim s g by (auto simp: sealed_GenerateMAC_def audited_def withKey_sim [OF sim] soft_GenerateMAC_def)
next
  case (VVerifyMAC ref alg pad data mac)
  then show ?thesis
    using sim s g by (auto simp: sealed_VerifyMAC_def audited_def withKey_sim [OF sim] soft_VerifyMAC_def)
qed

text \<open>Every operation reports exactly one event, which says whether it succeeded.\<close>

definition succeeded :: "vault_error + 'a \<Rightarrow> bool" where
  "succeeded res = (case res of Inl _ \<Rightarrow> False | Inr _ \<Rightarrow> True)"

lemma audited_map:
  "apsnd (map_sum id f) (audited v oper ref out) = (v', res) \<Longrightarrow> sv_audit v \<Longrightarrow>
   \<exists>e. sv_events v' = sv_events v @ [e] \<and> a_OK e = succeeded res \<and> sv_audit v'"
  by (cases out) (auto simp: audited_def sealed_emit_def succeeded_def)

lemma SetKey_audit:
  "sealed_SetKey r v ref key meta = (v', err) \<Longrightarrow> sv_audit v \<Longrightarrow>
   \<exists>e. sv_events v' = sv_events v @ [e] \<and> a_OK e = (err = None) \<and> sv_audit v'"
  by (cases "sealed_seal r v key") (auto simp: sealed_SetKey_def sealed_emit_def)

lemma sealed_do_audit:
  "sealed_do v x = (v', res) \<Longrightarrow> sv_audit v \<Longrightarrow> \<exists>e. sv_events v' = sv_events v @ [e] \<and> a_OK e = succeeded res \<and> sv_audit v'"
proof (induction v x rule: sealed_do.induct)
  case (1 v r ref key meta)
  then show ?case
    using SetKey_audit [of r v ref key meta] by (cases "sealed_SetKey r v ref key meta") (auto simp: succeeded_def split: option.splits)
next
  case (2 v r ref kbpk block usage)
  show ?case
  proof (cases "UnwrapKeyBlock kbpk block")
    case (Inl e)
    with 2 show ?thesis
      by (auto simp: sealed_ImportKeyBlock_def sealed_emit_def succeeded_def)
  next
    case (Inr hk)
    define meta where "meta = \<lparr>m_Usage = usage, m_Version = 0, m_Label = []\<rparr>"
    obtain w err where w: "sealed_SetKey r v ref (snd hk) meta = (w, err)"
      by fastforce
    with 2 Inr show ?thesis
      using SetKey_audit [of r v ref "snd hk" meta] unfolding sealed_do.simps sealed_ImportKeyBlock_def meta_def [symmetric]
      by (cases err) (auto simp: succeeded_def case_prod_beta)
  qed
qed (simp_all add: sealed_EncryptPINBlock_def sealed_TranslatePIN_def sealed_GenerateMAC_def sealed_VerifyMAC_def audited_map)

lemma sealed_run_audit:
  "sealed_run v xs = (v', rs) \<Longrightarrow> sv_audit v \<Longrightarrow> map a_OK (sv_events v') = map a_OK (sv_events v) @ map succeeded rs"
proof (induction xs arbitrary: v rs)
  case (Cons x xs)
  obtain w res where w: "sealed_do v x = (w, res)"
    by fastforce
  obtain rs' where r: "sealed_run w xs = (v', rs')" "rs = res # rs'"
    using Cons.prems(1) w by (auto simp: apsnd_def map_prod_def split: prod.splits)
  show ?case
    using Cons.IH [OF r(1)] sealed_do_audit [OF w Cons.prems(2)] r(2) by auto
qed simp

lemma sealed_run_sim:
  "sealed_sim v g \<Longrightarrow> aead_law (sv_aead v) \<Longrightarrow> sealed_run v xs = (v', rs) \<Longrightarrow>
   guarded_run (aead_NonceSize (sv_aead v)) g xs = (g', rs') \<Longrightarrow> rs = rs' \<and> sealed_sim v' g'"
proof (induction xs arbitrary: v g rs rs')
  case (Cons x xs)
  obtain w res where w: "sealed_do v x = (w, res)"
    by fastforce
  obtain h res' where h: "guarded_do (aead_NonceSize (sv_aead v)) g x = (h, res')"
    by fastforce
  obtain qs where r: "sealed_run w xs = (v', qs)" "rs = res # qs"
    using Cons.prems(3) w by (auto simp: apsnd_def map_prod_def split: prod.splits)
  obtain qs' where r': "guarded_run (aead_NonceSize (sv_aead v)) h xs = (g', qs')" "rs' = res' # qs'"
    using Cons.prems(4) h by (auto simp: apsnd_def map_prod_def split: prod.splits)
  have step: "res = res'" "sealed_sim w h" "sv_aead w = sv_aead v"
    using sealed_do_sim [OF Cons.prems(1,2) w h] by auto
  show ?case
    using Cons.IH [OF step(2) _ r(1)] step Cons.prems(2) r r' by auto
qed auto

section \<open>Properties\<close>

text \<open>C11: PIN translation preserves the PIN.  An encrypted PIN block holds the PIN it was made from; a
  translation succeeds exactly when the source block holds a PIN and that PIN can be encrypted under the
  destination key and format, and its result is that encryption, so the translated block holds the same
  PIN.  This holds for every choice of the random padding.\<close>

theorem translate_preserves_pin:
  "(soft_EncryptPINBlock r v ref f pin pan = Inr enc \<longrightarrow> holds_pin v ref f pan enc pin) \<and>
   (soft_TranslatePIN r v src dst enc pan sf df = Inr out \<longleftrightarrow>
     (\<exists>p. holds_pin v src sf pan enc p \<and> soft_EncryptPINBlock r v dst df p pan = Inr out \<and> holds_pin v dst df pan out p))"
  using encrypted_holds_pin translate_iff by metis

theorem translate_preserves_pin_witness:
  "\<exists>enc. soft_EncryptPINBlock [] [[1] \<mapsto> replicate 16 1] [1] ISO0 (bytes_of ''1234'') (bytes_of ''4012345678909'') = Inr enc \<and>
     holds_pin [[1] \<mapsto> replicate 16 1] [1] ISO0 (bytes_of ''4012345678909'') enc (bytes_of ''1234'')"
proof -
  have "EncodePINBlockRand ISO0 (bytes_of ''1234'') (bytes_of ''4012345678909'') [] =
      Inr [0x04, 0x12, 0x74, 0xED, 0xCB, 0xA9, 0x87, 0x6F]"
    by code_simp
  then obtain enc where "soft_EncryptPINBlock [] [[1] \<mapsto> replicate 16 1] [1] ISO0 (bytes_of ''1234'') (bytes_of ''4012345678909'') = Inr enc"
    by (simp add: soft_EncryptPINBlock_def soft_key_def tripleDESBlock_def ecbEncrypt_def Let_def)
  then show ?thesis
    using translate_preserves_pin by blast
qed

text \<open>C12: the sealed vault refines the clear vault guarded by key usage.  For every sequence of operations,
  a sealed vault over an AEAD cipher that opens what it seals returns the same results as a clear
  vault that checks, for each key an operation names, that the key exists and that its usage permits the
  operation; its check values are those of the clear keys; and with auditing on, the hook has seen exactly
  one event per operation, marked with that operation's success.\<close>

theorem sealed_refines_soft:
  assumes "NewSealedVault newAEAD kek audit = Inr v" "aead_law (newAEAD kek)"
    and "sealed_run v ops = (v', rs)"
    and "guarded_run (aead_NonceSize (newAEAD kek)) (NewSoftVault, \<lambda>_. UsageAny) ops = ((s, u), rs')"
  shows "rs = rs' \<and> (\<forall>ref. sealed_KCV v' ref = Option.bind (s ref) KeyCheckValue) \<and>
    (audit \<longrightarrow> map a_OK (sv_events v') = map succeeded rs)"
proof -
  have v: "sv_aead v = newAEAD kek" "sv_keys v = Map.empty" "sv_audit v = audit" "sv_events v = []"
    using assms(1) by (auto simp: NewSealedVault_def split: if_splits)
  have "sealed_sim v (NewSoftVault, \<lambda>_. UsageAny)"
    by (simp add: sealed_sim_def v(2) NewSoftVault_def)
  then have sim: "rs = rs'" "sealed_sim v' (s, u)"
    using sealed_run_sim [of v _ ops v' rs] assms v(1) by auto
  have "sealed_KCV v' ref = Option.bind (s ref) KeyCheckValue" for ref
    using sealed_sim_at [OF sim(2), of ref] by (cases "sv_keys v' ref") (auto simp: sealed_KCV_def)
  moreover have "audit \<longrightarrow> map a_OK (sv_events v') = map succeeded rs"
    using sealed_run_audit [OF assms(3)] v by auto
  ultimately show ?thesis
    using sim(1) by blast
qed

definition demo_aead :: "bytes \<Rightarrow> aead" where
  "demo_aead kek = \<lparr>aead_Seal = (\<lambda>nonce key. rev key @ nonce), aead_Open = (\<lambda>nonce blob. Some (rev (take (length blob - length nonce) blob))),
     aead_NonceSize = 12\<rparr>"

theorem sealed_refines_soft_witness:
  "\<exists>v v' rs. NewSealedVault demo_aead (replicate 16 0) True = Inr v \<and>
     sealed_run v [VSetKey (replicate 12 7) [1] (replicate 16 1) \<lparr>m_Usage = UsageMAC, m_Version = 0, m_Label = []\<rparr>,
       VEncryptPIN [] [1] ISO0 (bytes_of ''1234'') (bytes_of ''4012345678909'')] = (v', rs) \<and>
     rs = [Inr OutDone, Inl ErrUsage] \<and> map a_OK (sv_events v') = [True, False]"
proof -
  define ops where "ops = [VSetKey (replicate 12 7) [1] (replicate 16 1) \<lparr>m_Usage = UsageMAC, m_Version = 0, m_Label = []\<rparr>,
    VEncryptPIN [] [1] ISO0 (bytes_of ''1234'') (bytes_of ''4012345678909'')]"
  obtain v where v: "NewSealedVault demo_aead (replicate 16 0) True = Inr v"
    by (simp add: NewSealedVault_def)
  obtain v' rs where run: "sealed_run v ops = (v', rs)"
    by fastforce
  have law: "aead_law (demo_aead (replicate 16 0))"
    by (simp add: aead_law_def demo_aead_def)
  obtain s u where "guarded_run (aead_NonceSize (demo_aead (replicate 16 0))) (NewSoftVault, \<lambda>_. UsageAny) ops =
      ((s, u), [Inr OutDone, Inl ErrUsage])"
    by (simp add: ops_def demo_aead_def guarded_def soft_SetKey_def)
  then show ?thesis
    using sealed_refines_soft [OF v law run] v run by (auto simp: ops_def succeeded_def)
qed

end
