(* ===== verification/Payshield.thy ===== *)
theory Payshield
  imports Vault Framer
begin

text \<open>
  The payment-HSM adapter (adapters/payshield): the host-command fields (proto.go), the transport
  (client.go), the vault operations of the adapter (payshield.go) and the simulator that answers them
  with the software vault (simulator.go).

  A byte stream is a list; the client keeps the bytes it has not read yet, because they outlive the
  command that provoked them.  The network is an argument of a command: from the frame the client writes
  it gives the bytes that arrive before the deadline (\<^verbatim>\<open>None\<close> is a failing write).  Dialling, the
  accept loop and the two timeouts are not modelled.  The lemmas show that the adapter over the simulator
  computes what the software vault computes, in which messages it does not, and that a command that
  timed out leaves its answer to the next one.
\<close>

section \<open>proto.go\<close>

definition codeOK :: bytes where "codeOK = bytes_of ''00''"
definition codeVerifyFail :: bytes where "codeVerifyFail = bytes_of ''01''"
definition codeKeyNotFound :: bytes where "codeKeyNotFound = bytes_of ''10''"
definition codeFormatError :: bytes where "codeFormatError = bytes_of ''20''"
definition codeBadCommand :: bytes where "codeBadCommand = bytes_of ''30''"

text \<open>The errors of the adapter; \<open>HostError\<close> is the exported one.\<close>

datatype ps_error =
    HostError bytes bytes
  | PsClosed | PsTooLarge | PsWrite | PsRead frame_error | PsShortResponse | PsResponseCode
  | PsAlgorithm | PsField

definition incrementCmd :: "bytes \<Rightarrow> bytes" where
  "incrementCmd cmd = (if cmd = [] then [] else butlast cmd @ [last cmd + 1])"

definition algCode :: "mac_algorithm \<Rightarrow> ps_error + bytes" where
  "algCode alg = (case alg of MACAlg1 \<Rightarrow> Inr (bytes_of ''1'') | MACAlg3 \<Rightarrow> Inr (bytes_of ''3'') | _ \<Rightarrow> Inl PsAlgorithm)"

definition algFromCode :: "bytes \<Rightarrow> mac_algorithm option" where
  "algFromCode s = (if s = bytes_of ''1'' then Some MACAlg1 else if s = bytes_of ''3'' then Some MACAlg3 else None)"

definition padCode :: "padding \<Rightarrow> bytes" where
  "padCode pad = (if pad = Pad2 then bytes_of ''2'' else bytes_of ''1'')"

definition padFromCode :: "bytes \<Rightarrow> padding" where
  "padFromCode s = (if s = bytes_of ''2'' then Pad2 else Pad1)"

definition defaultFormatCodes :: "pin_format \<rightharpoonup> bytes" where
  "defaultFormatCodes f = (case f of
       ISO0 \<Rightarrow> Some (bytes_of ''01'') | ISO1 \<Rightarrow> Some (bytes_of ''05'') | ISO3 \<Rightarrow> Some (bytes_of ''47'') | _ \<Rightarrow> None)"

text \<open>\<^verbatim>\<open>fmt.Sprintf("%04d", n)\<close>: at least four digits.\<close>

definition fmt04 :: "nat \<Rightarrow> bytes" where
  "fmt04 n = replicate (4 - length (fmt_nat n)) 48 @ fmt_nat n"

definition fw_str :: "bytes \<Rightarrow> bytes \<Rightarrow> bytes" where
  "fw_str b s = (b @ fmt04 (length s)) @ s"

definition fw_hexBytes :: "bytes \<Rightarrow> bytes \<Rightarrow> bytes" where
  "fw_hexBytes b p = fw_str b (hex_encode p)"

record field_reader =
  fr_b :: bytes
  fr_i :: nat
  fr_err :: bool

definition newFieldReader :: "bytes \<Rightarrow> field_reader" where
  "newFieldReader b = \<lparr>fr_b = b, fr_i = 0, fr_err = False\<rparr>"

definition fr_str :: "field_reader \<Rightarrow> bytes \<times> field_reader" where
  "fr_str r =
     (if fr_err r then ([], r)
      else if fr_i r + 4 > length (fr_b r) then ([], r\<lparr>fr_err := True\<rparr>)
      else case parse_int 64 (take 4 (drop (fr_i r) (fr_b r))) of
        Inl _ \<Rightarrow> ([], r\<lparr>fr_err := True\<rparr>)
      | Inr n \<Rightarrow>
          if n < 0 then ([], r\<lparr>fr_err := True\<rparr>)
          else let r = r\<lparr>fr_i := fr_i r + 4\<rparr> in
            if int (fr_i r) + n > int (length (fr_b r)) then ([], r\<lparr>fr_err := True\<rparr>)
            else (take (nat n) (drop (fr_i r) (fr_b r)), r\<lparr>fr_i := fr_i r + nat n\<rparr>))"

definition fr_hexBytes :: "field_reader \<Rightarrow> bytes \<times> field_reader" where
  "fr_hexBytes r =
     (let (s, r) = fr_str r in
      if fr_err r then ([], r)
      else case hex_decode s of None \<Rightarrow> ([], r\<lparr>fr_err := True\<rparr>) | Some p \<Rightarrow> (p, r))"

section \<open>Configuration\<close>

record ps_config =
  Header :: bytes
  EncryptPINCmd :: bytes
  TranslateCmd :: bytes
  GenerateMACCmd :: bytes
  VerifyMACCmd :: bytes
  FormatCodes :: "pin_format \<rightharpoonup> bytes"

definition withDefaults :: "ps_config \<Rightarrow> ps_config" where
  "withDefaults c =
     (let c = if EncryptPINCmd c = [] then c\<lparr>EncryptPINCmd := bytes_of ''BA''\<rparr> else c;
          c = if TranslateCmd c = [] then c\<lparr>TranslateCmd := bytes_of ''CC''\<rparr> else c;
          c = if GenerateMACCmd c = [] then c\<lparr>GenerateMACCmd := bytes_of ''M6''\<rparr> else c
      in if VerifyMACCmd c = [] then c\<lparr>VerifyMACCmd := bytes_of ''M8''\<rparr> else c)"

definition formatCode :: "ps_config \<Rightarrow> pin_format \<Rightarrow> bytes option" where
  "formatCode c f = (case FormatCodes c f of Some s \<Rightarrow> Some s | None \<Rightarrow> defaultFormatCodes f)"

definition formatFromCode :: "ps_config \<Rightarrow> bytes \<Rightarrow> pin_format option" where
  "formatFromCode c code = find (\<lambda>f. formatCode c f = Some code) [ISO0, ISO1, ISO3]"

section \<open>client.go\<close>

record ps_client =
  cl_cfg :: ps_config
  cl_open :: bool
  cl_in :: bytes

type_synonym network = "bytes \<Rightarrow> bytes option"

definition cl_close :: "ps_client \<Rightarrow> ps_client" where
  "cl_close c = c\<lparr>cl_open := False\<rparr>"

definition writeFrame :: "bytes \<Rightarrow> bytes" where
  "writeFrame payload = be_bytes 2 (length payload) @ payload"

text \<open>\<open>ReadFull\<close> takes whatever there is, also when that is too little; the second component is what
  stays unread.\<close>

definition readFrame :: "bytes \<Rightarrow> (frame_error + bytes) \<times> bytes" where
  "readFrame s = (case ReadFull 2 s of
       Inl e \<Rightarrow> (Inl e, [])
     | Inr (hdr, s) \<Rightarrow> (case ReadFull (be_val hdr) s of
          Inl e \<Rightarrow> (Inl e, [])
        | Inr (payload, s) \<Rightarrow> (Inr payload, s)))"

definition cl_do :: "network \<Rightarrow> ps_client \<Rightarrow> bytes \<Rightarrow> bytes \<Rightarrow> ps_client \<times> (ps_error + bytes \<times> bytes)" where
  "cl_do net c cmd data =
     (if \<not> cl_open c then (c, Inl PsClosed)
      else let payload = Header (cl_cfg c) @ cmd @ data in
        if length payload > 0xFFFF then (c, Inl PsTooLarge)
        else case net (writeFrame payload) of
          None \<Rightarrow> (c, Inl PsWrite)
        | Some arrived \<Rightarrow>
            let (resp, unread) = readFrame (cl_in c @ arrived); c = c\<lparr>cl_in := unread\<rparr> in
            case resp of
              Inl e \<Rightarrow> (c, Inl (PsRead e))
            | Inr resp \<Rightarrow>
                let h = length (Header (cl_cfg c)) in
                if length resp < h + 4 then (c, Inl PsShortResponse)
                else let resp = drop h resp in
                  if take 2 resp \<noteq> incrementCmd cmd then (c, Inl PsResponseCode)
                  else (c, Inr (take 2 (drop 2 resp), drop 4 resp)))"

section \<open>The adapter's operations (payshield.go)\<close>

text \<open>\<open>Open\<close>, once the connection is established.\<close>

definition ps_Open :: "ps_config \<Rightarrow> ps_client" where
  "ps_Open cfg = \<lparr>cl_cfg = withDefaults cfg, cl_open = True, cl_in = []\<rparr>"

definition ps_Close :: "ps_client \<Rightarrow> ps_client" where
  "ps_Close v = cl_close v"

definition ps_EncryptPINBlock ::
  "network \<Rightarrow> ps_client \<Rightarrow> bytes \<Rightarrow> pin_format \<Rightarrow> bytes \<Rightarrow> bytes \<Rightarrow> ps_client \<times> (ps_error + bytes)" where
  "ps_EncryptPINBlock net v keyRef format pin pan = (case formatCode (cl_cfg v) format of
       None \<Rightarrow> (v, Inl (HostError (bytes_of ''EncryptPINBlock'') codeFormatError))
     | Some fc \<Rightarrow>
         let f = fw_str [] keyRef; f = fw_str f fc; f = fw_str f pin; f = fw_str f pan;
             (v, r) = cl_do net v (EncryptPINCmd (cl_cfg v)) f in
         case r of
           Inl e \<Rightarrow> (v, Inl e)
         | Inr (ec, data) \<Rightarrow>
             if ec \<noteq> codeOK then (v, Inl (HostError (bytes_of ''EncryptPINBlock'') ec))
             else let (out, rd) = fr_hexBytes (newFieldReader data) in
               if fr_err rd then (v, Inl PsField) else (v, Inr out))"

definition ps_TranslatePIN ::
  "network \<Rightarrow> ps_client \<Rightarrow> bytes \<Rightarrow> bytes \<Rightarrow> bytes \<Rightarrow> bytes \<Rightarrow> pin_format \<Rightarrow> pin_format \<Rightarrow>
     ps_client \<times> (ps_error + bytes)" where
  "ps_TranslatePIN net v srcRef dstRef encBlock pan srcFormat dstFormat = (case formatCode (cl_cfg v) srcFormat of
       None \<Rightarrow> (v, Inl (HostError (bytes_of ''TranslatePIN'') codeFormatError))
     | Some sf \<Rightarrow> (case formatCode (cl_cfg v) dstFormat of
         None \<Rightarrow> (v, Inl (HostError (bytes_of ''TranslatePIN'') codeFormatError))
       | Some df \<Rightarrow>
           let f = fw_str [] srcRef; f = fw_str f dstRef; f = fw_str f sf; f = fw_str f df; f = fw_str f pan;
               f = fw_hexBytes f encBlock;
               (v, r) = cl_do net v (TranslateCmd (cl_cfg v)) f in
           case r of
             Inl e \<Rightarrow> (v, Inl e)
           | Inr (ec, data) \<Rightarrow>
               if ec \<noteq> codeOK then (v, Inl (HostError (bytes_of ''TranslatePIN'') ec))
               else let (out, rd) = fr_hexBytes (newFieldReader data) in
                 if fr_err rd then (v, Inl PsField) else (v, Inr out)))"

definition macBody :: "bytes \<Rightarrow> mac_algorithm \<Rightarrow> padding \<Rightarrow> bytes \<Rightarrow> ps_error + bytes" where
  "macBody keyRef alg pad data = (case algCode alg of
       Inl e \<Rightarrow> Inl e
     | Inr ac \<Rightarrow>
         let f = fw_str [] keyRef; f = fw_str f ac; f = fw_str f (padCode pad) in Inr (fw_hexBytes f data))"

definition ps_GenerateMAC ::
  "network \<Rightarrow> ps_client \<Rightarrow> bytes \<Rightarrow> mac_algorithm \<Rightarrow> padding \<Rightarrow> bytes \<Rightarrow> ps_client \<times> (ps_error + bytes)" where
  "ps_GenerateMAC net v keyRef alg pad data = (case macBody keyRef alg pad data of
       Inl e \<Rightarrow> (v, Inl e)
     | Inr body \<Rightarrow>
         let (v, r) = cl_do net v (GenerateMACCmd (cl_cfg v)) body in
         case r of
           Inl e \<Rightarrow> (v, Inl e)
         | Inr (ec, resp) \<Rightarrow>
             if ec \<noteq> codeOK then (v, Inl (HostError (bytes_of ''GenerateMAC'') ec))
             else let (mac, rd) = fr_hexBytes (newFieldReader resp) in
               if fr_err rd then (v, Inl PsField) else (v, Inr mac))"

definition ps_VerifyMAC ::
  "network \<Rightarrow> ps_client \<Rightarrow> bytes \<Rightarrow> mac_algorithm \<Rightarrow> padding \<Rightarrow> bytes \<Rightarrow> bytes \<Rightarrow> ps_client \<times> (ps_error + bool)" where
  "ps_VerifyMAC net v keyRef alg pad data mac = (case macBody keyRef alg pad data of
       Inl e \<Rightarrow> (v, Inl e)
     | Inr body \<Rightarrow>
         let (v, r) = cl_do net v (VerifyMACCmd (cl_cfg v)) (fw_hexBytes body mac) in
         case r of
           Inl e \<Rightarrow> (v, Inl e)
         | Inr (ec, _) \<Rightarrow>
             if ec = codeOK then (v, Inr True)
             else if ec = codeVerifyFail then (v, Inr False)
             else (v, Inl (HostError (bytes_of ''VerifyMAC'') ec)))"


section \<open>simulator.go\<close>

definition hostCodeFor :: "vault_error \<Rightarrow> bytes" where
  "hostCodeFor e = (if e = ErrUnknownKey then codeKeyNotFound else codeFormatError)"

definition readMACBody :: "bytes \<Rightarrow> (bytes \<times> mac_algorithm \<times> padding \<times> bytes) option" where
  "readMACBody data =
     (let (keyRef, rd) = fr_str (newFieldReader data);
          (ac, rd) = fr_str rd;
          (pc, rd) = fr_str rd;
          (msg, rd) = fr_hexBytes rd in
      if fr_err rd then None
      else case algFromCode ac of None \<Rightarrow> None | Some alg \<Rightarrow> Some (keyRef, alg, padFromCode pc, msg))"

definition sim_encryptPIN :: "ps_config \<Rightarrow> bytes \<Rightarrow> soft_vault \<Rightarrow> bytes \<Rightarrow> bytes \<times> bytes" where
  "sim_encryptPIN cfg r v data =
     (let (keyRef, rd) = fr_str (newFieldReader data);
          (code, rd) = fr_str rd;
          (pin, rd) = fr_str rd;
          (pan, rd) = fr_str rd in
      if fr_err rd then (codeFormatError, [])
      else case formatFromCode cfg code of
        None \<Rightarrow> (codeFormatError, [])
      | Some format \<Rightarrow> (case soft_EncryptPINBlock r v keyRef format pin pan of
          Inl e \<Rightarrow> (hostCodeFor e, [])
        | Inr out \<Rightarrow> (codeOK, fw_hexBytes [] out)))"

definition sim_translate :: "ps_config \<Rightarrow> bytes \<Rightarrow> soft_vault \<Rightarrow> bytes \<Rightarrow> bytes \<times> bytes" where
  "sim_translate cfg r v data =
     (let (srcRef, rd) = fr_str (newFieldReader data);
          (dstRef, rd) = fr_str rd;
          (srcCode, rd) = fr_str rd;
          (dstCode, rd) = fr_str rd;
          (pan, rd) = fr_str rd;
          (block, rd) = fr_hexBytes rd in
      if fr_err rd then (codeFormatError, [])
      else case (formatFromCode cfg srcCode, formatFromCode cfg dstCode) of
        (Some srcFmt, Some dstFmt) \<Rightarrow> (case soft_TranslatePIN r v srcRef dstRef block pan srcFmt dstFmt of
          Inl e \<Rightarrow> (hostCodeFor e, [])
        | Inr out \<Rightarrow> (codeOK, fw_hexBytes [] out))
      | _ \<Rightarrow> (codeFormatError, []))"

definition sim_genMAC :: "soft_vault \<Rightarrow> bytes \<Rightarrow> bytes \<times> bytes" where
  "sim_genMAC v data = (case readMACBody data of
       None \<Rightarrow> (codeFormatError, [])
     | Some (keyRef, alg, pad, msg) \<Rightarrow> (case soft_GenerateMAC v keyRef alg pad msg of
          Inl e \<Rightarrow> (hostCodeFor e, [])
        | Inr mac \<Rightarrow> (codeOK, fw_hexBytes [] mac)))"

definition sim_verifyMAC :: "soft_vault \<Rightarrow> bytes \<Rightarrow> bytes \<times> bytes" where
  "sim_verifyMAC v data =
     (let (keyRef, rd) = fr_str (newFieldReader data);
          (ac, rd) = fr_str rd;
          (pc, rd) = fr_str rd;
          (msg, rd) = fr_hexBytes rd;
          (mac, rd) = fr_hexBytes rd in
      if fr_err rd then (codeFormatError, [])
      else case algFromCode ac of
        None \<Rightarrow> (codeFormatError, [])
      | Some alg \<Rightarrow> (case soft_VerifyMAC v keyRef alg (padFromCode pc) msg mac of
          Inl e \<Rightarrow> (hostCodeFor e, [])
        | Inr ok \<Rightarrow> (if ok then codeOK else codeVerifyFail, [])))"

text \<open>The random bytes a command may draw are its argument \<open>r\<close>.\<close>

definition sim_dispatch :: "ps_config \<Rightarrow> bytes \<Rightarrow> soft_vault \<Rightarrow> bytes \<Rightarrow> bytes \<Rightarrow> bytes \<times> bytes \<times> bytes" where
  "sim_dispatch cfg r v cmd data =
     (incrementCmd cmd,
      if cmd = EncryptPINCmd cfg then sim_encryptPIN cfg r v data
      else if cmd = TranslateCmd cfg then sim_translate cfg r v data
      else if cmd = GenerateMACCmd cfg then sim_genMAC v data
      else if cmd = VerifyMACCmd cfg then sim_verifyMAC v data
      else (codeBadCommand, []))"

text \<open>One turn of the loop of \<open>handle\<close>: the answer to a payload; \<^verbatim>\<open>None\<close> ends the connection.\<close>

definition sim_answer :: "ps_config \<Rightarrow> bytes \<Rightarrow> soft_vault \<Rightarrow> bytes \<Rightarrow> bytes option" where
  "sim_answer cfg r v payload =
     (let h = length (Header cfg) in
      if length payload < h + 2 then None
      else let body = drop h payload;
               (respCode, errCode, respData) = sim_dispatch cfg r v (take 2 body) (drop 2 body)
        in Some (writeFrame (Header cfg @ respCode @ errCode @ respData)))"

lemma readFrame_shrinks: "readFrame s = (Inr p, s') \<Longrightarrow> length s' < length s"
  by (auto simp: readFrame_def ReadFull_def split: sum.splits if_splits prod.splits)

text \<open>\<open>handle\<close> on everything a connection receives; \<open>rs n\<close> is the randomness of the \<open>n\<close>-th command.\<close>

function sim_handle :: "ps_config \<Rightarrow> (nat \<Rightarrow> bytes) \<Rightarrow> soft_vault \<Rightarrow> nat \<Rightarrow> bytes \<Rightarrow> bytes" where
  "sim_handle cfg rs v n s = (case readFrame s of
       (Inl _, _) \<Rightarrow> []
     | (Inr payload, s') \<Rightarrow> (case sim_answer cfg (rs n) v payload of
          None \<Rightarrow> []
        | Some out \<Rightarrow> out @ sim_handle cfg rs v (Suc n) s'))"
  by pat_completeness auto
termination
  by (relation "measure (\<lambda>(cfg, rs, v, n, s). length s)") (auto dest: readFrame_shrinks [OF sym])

declare sim_handle.simps [simp del]

section \<open>Fields\<close>

lemma fmt04_short: "n < 10000 \<Longrightarrow> length (fmt04 n) = 4"
  using fmt_nat_length [of 4 n] by (simp add: fmt04_def)

lemma fmt04_digits: "list_all is_digit (fmt04 n)"
  using fmt_nat_digits [of n] by (auto simp: fmt04_def list_all_iff)

lemma parse_fmt04: "n < 10000 \<Longrightarrow> parse_int 64 (fmt04 n) = Inr (int n)"
  using parse_int_digits [of "fmt04 n" 64] fmt04_digits [of n] by (simp add: fmt04_def)

text \<open>What is left to read decides; the position moves to the end of the field.\<close>

lemma fr_str_field:
  assumes "drop i b = fmt04 (length s) @ s @ rest" "length s < 10000"
  shows "fr_str \<lparr>fr_b = b, fr_i = i, fr_err = False\<rparr> = (s, \<lparr>fr_b = b, fr_i = i + 4 + length s, fr_err = False\<rparr>) \<and>
    drop (i + 4 + length s) b = rest"
proof -
  note l = fmt04_short [OF assms(2)]
  have len: "length b - i = 4 + length s + length rest"
    using arg_cong [OF assms(1), of length] l by simp
  have at: "drop (i + 4) b = s @ rest" "drop (i + (4 + length s)) b = rest"
    using arg_cong [OF assms(1), of "drop 4"] arg_cong [OF assms(1), of "drop (4 + length s)"] l
    by (simp_all add: add.commute)
  show ?thesis
    using assms l len at by (simp add: fr_str_def parse_fmt04 Let_def add.commute add.left_commute)
qed

lemma fr_hexBytes_field:
  assumes "drop i b = fmt04 (length (hex_encode p)) @ hex_encode p @ rest" "length p < 5000"
  shows "fr_hexBytes \<lparr>fr_b = b, fr_i = i, fr_err = False\<rparr> =
      (p, \<lparr>fr_b = b, fr_i = i + 4 + 2 * length p, fr_err = False\<rparr>) \<and>
    drop (i + 4 + 2 * length p) b = rest"
  using fr_str_field [OF assms(1)] assms(2) by (simp add: fr_hexBytes_def)

lemma fw_hexBytes_read:
  assumes "length p < 5000"
  shows "\<exists>rd. fr_hexBytes (newFieldReader (fw_hexBytes [] p)) = (p, rd) \<and> \<not> fr_err rd"
  using fr_hexBytes_field [of 0 "fw_hexBytes [] p" p "[]"] assms
  by (simp add: fw_hexBytes_def fw_str_def newFieldReader_def)


section \<open>Frames and commands\<close>

lemma readFrame_writeFrame: "length p \<le> 0xFFFF \<Longrightarrow> readFrame (writeFrame p @ s) = (Inr p, s)"
  using ReadFull_append [of "be_bytes 2 (length p)" "p @ s"] ReadFull_append [of p s]
  by (simp add: readFrame_def writeFrame_def be_val_be_bytes)

lemma readFrame_Nil: "readFrame [] = (Inl FrameEOF, [])"
  by (simp add: readFrame_def ReadFull_def)

lemma sim_handle_Nil: "sim_handle cfg rs v n [] = []"
  by (simp add: sim_handle.simps readFrame_Nil)

lemma length_incrementCmd [simp]: "length (incrementCmd cmd) = length cmd"
  by (simp add: incrementCmd_def)

lemmas host_codes = codeOK_def codeVerifyFail_def codeKeyNotFound_def codeFormatError_def codeBadCommand_def

definition sim_reply :: "ps_config \<Rightarrow> bytes \<Rightarrow> soft_vault \<Rightarrow> bytes \<Rightarrow> bytes \<Rightarrow> bytes" where
  "sim_reply cfg r v cmd data =
     (case sim_dispatch cfg r v cmd data of (rc, ec, d) \<Rightarrow> writeFrame (Header cfg @ rc @ ec @ d))"

text \<open>The answers come in the order of the commands.\<close>

lemma sim_handle_frame:
  assumes "length cmd = 2" "length (Header cfg) + 2 + length data \<le> 0xFFFF"
  shows "sim_handle cfg rs v n (writeFrame (Header cfg @ cmd @ data) @ s) =
    sim_reply cfg (rs n) v cmd data @ sim_handle cfg rs v (Suc n) s"
  using assms
  by (simp add: sim_handle.simps [of cfg rs v n] readFrame_writeFrame sim_answer_def sim_reply_def split: prod.split)

text \<open>A client that finds the reply to \<open>cmd\<close> at the front of its input takes it.\<close>

lemma cl_do_reply:
  assumes "cl_open c" "length cmd = 2" "length (Header (cl_cfg c)) + 2 + length data \<le> 0xFFFF"
    and "net (writeFrame (Header (cl_cfg c) @ cmd @ data)) = Some arrived"
    and "cl_in c @ arrived = writeFrame (Header (cl_cfg c) @ incrementCmd cmd @ ec @ d) @ unread"
    and "length ec = 2" "length (Header (cl_cfg c)) + 4 + length d \<le> 0xFFFF"
  shows "cl_do net c cmd data = (c\<lparr>cl_in := unread\<rparr>, Inr (ec, d))"
  using assms by (simp add: cl_do_def readFrame_writeFrame Let_def)

section \<open>The simulator's results are short\<close>

lemma ecbEncrypt_length: "tripleDESBlock k = Inr b \<Longrightarrow> length clear = 8 \<Longrightarrow> ecbEncrypt b clear = Inr enc \<Longrightarrow> length enc = 8"
  using block_cipher.ecb_length [OF tripleDESBlock_cipher, of k b clear 1] by (simp add: ecbEncrypt_def split: if_splits)

lemma EncodePINBlockRand_length: "EncodePINBlockRand f pin pan r = Inr b \<Longrightarrow> length b = 8"
  using decode_encode_iff DecodePINBlock_length by blast

lemma soft_results_length:
  "\<forall>out. soft_EncryptPINBlock r v keyRef f pin pan = Inr out \<longrightarrow> length out = 8"
  "\<forall>out. soft_TranslatePIN r v srcRef dstRef blk pan sf df = Inr out \<longrightarrow> length out = 8"
  "\<forall>out. soft_GenerateMAC v keyRef alg pad data = Inr out \<longrightarrow> length out = 8"
  by (auto simp: soft_EncryptPINBlock_def soft_TranslatePIN_def soft_GenerateMAC_def and_then_Inr
      dest!: EncodePINBlockRand_length dest: ecbEncrypt_length GenerateMAC_length)

section \<open>The simulator reads what the adapter writes\<close>

text \<open>The error code and the data that carry a result of the software vault.\<close>

definition host_reply :: "vault_error + bytes \<Rightarrow> bytes \<times> bytes" where
  "host_reply r = (case r of Inl e \<Rightarrow> (hostCodeFor e, []) | Inr out \<Rightarrow> (codeOK, fw_hexBytes [] out))"

definition host_verdict :: "vault_error + bool \<Rightarrow> bytes \<times> bytes" where
  "host_verdict r = (case r of Inl e \<Rightarrow> (hostCodeFor e, []) | Inr ok \<Rightarrow> (if ok then codeOK else codeVerifyFail, []))"

lemma sim_encryptPIN_reads:
  assumes "length k < 10000" "length fc < 10000" "length pin < 10000" "length pan < 10000"
    and "formatFromCode cfg fc = Some f"
  shows "sim_encryptPIN cfg r v (fw_str (fw_str (fw_str (fw_str [] k) fc) pin) pan) =
    host_reply (soft_EncryptPINBlock r v k f pin pan)"
proof -
  define b where "b = fw_str (fw_str (fw_str (fw_str [] k) fc) pin) pan"
  have "drop 0 b = fmt04 (length k) @ k @ fmt04 (length fc) @ fc @ fmt04 (length pin) @ pin @ fmt04 (length pan) @ pan @ []"
    by (simp add: fw_str_def b_def)
  note f1 = fr_str_field [OF this assms(1)]
  note f2 = fr_str_field [OF conjunct2 [OF f1] assms(2)]
  note f3 = fr_str_field [OF conjunct2 [OF f2] assms(3)]
  note f4 = fr_str_field [OF conjunct2 [OF f3] assms(4)]
  show ?thesis
    unfolding b_def [symmetric]
    by (simp add: sim_encryptPIN_def newFieldReader_def host_reply_def assms(5) f1 [THEN conjunct1, simplified]
        f2 [THEN conjunct1, simplified] f3 [THEN conjunct1, simplified] f4 [THEN conjunct1, simplified])
qed

lemma sim_translate_reads:
  assumes "length ks < 10000" "length kd < 10000" "length sc < 10000" "length dc < 10000" "length pan < 10000"
    and "length blk < 5000" and "formatFromCode cfg sc = Some sf" "formatFromCode cfg dc = Some df"
  shows "sim_translate cfg r v (fw_hexBytes (fw_str (fw_str (fw_str (fw_str (fw_str [] ks) kd) sc) dc) pan) blk) =
    host_reply (soft_TranslatePIN r v ks kd blk pan sf df)"
proof -
  define b where "b = fw_hexBytes (fw_str (fw_str (fw_str (fw_str (fw_str [] ks) kd) sc) dc) pan) blk"
  have "drop 0 b = fmt04 (length ks) @ ks @ fmt04 (length kd) @ kd @ fmt04 (length sc) @ sc @ fmt04 (length dc) @ dc @
      fmt04 (length pan) @ pan @ fmt04 (length (hex_encode blk)) @ hex_encode blk @ []"
    by (simp add: fw_str_def fw_hexBytes_def b_def)
  note f1 = fr_str_field [OF this assms(1)]
  note f2 = fr_str_field [OF conjunct2 [OF f1] assms(2)]
  note f3 = fr_str_field [OF conjunct2 [OF f2] assms(3)]
  note f4 = fr_str_field [OF conjunct2 [OF f3] assms(4)]
  note f5 = fr_str_field [OF conjunct2 [OF f4] assms(5)]
  note f6 = fr_hexBytes_field [OF conjunct2 [OF f5] assms(6)]
  show ?thesis
    unfolding b_def [symmetric]
    by (simp add: sim_translate_def newFieldReader_def host_reply_def assms(7,8) f1 [THEN conjunct1, simplified]
        f2 [THEN conjunct1, simplified] f3 [THEN conjunct1, simplified] f4 [THEN conjunct1, simplified]
        f5 [THEN conjunct1, simplified] f6 [THEN conjunct1, simplified])
qed


lemma mac_codes [simp]: "algCode alg = Inr ac \<Longrightarrow> algFromCode ac = Some alg" "algCode alg = Inr ac \<Longrightarrow> length ac = 1"
  "length (padCode pad) = 1"
  by (auto simp: algCode_def algFromCode_def padCode_def bytes_of_def split: mac_algorithm.splits)

text \<open>The device knows two paddings; the others mean the first, as they do in the software vault.\<close>

lemma padding_code: "GenerateMAC alg (padFromCode (padCode pad)) = GenerateMAC alg pad"
proof -
  have "applyPadding (padFromCode (padCode pad)) = applyPadding pad"
    by (cases pad) (auto simp: padFromCode_def padCode_def applyPadding_def bytes_of_def fun_eq_iff)
  then show ?thesis
    by (simp add: GenerateMAC_def fun_eq_iff)
qed

lemma soft_padding_code:
  "soft_GenerateMAC v k alg (padFromCode (padCode pad)) data = soft_GenerateMAC v k alg pad data"
  "soft_VerifyMAC v k alg (padFromCode (padCode pad)) data mac = soft_VerifyMAC v k alg pad data mac"
  by (simp_all add: soft_GenerateMAC_def soft_VerifyMAC_def VerifyMAC_def padding_code)

lemma mac_fields:
  assumes "algCode alg = Inr ac" "length k < 10000" "length data < 5000"
    and b: "b = fw_hexBytes (fw_str (fw_str (fw_str [] k) ac) (padCode pad)) data @ rest"
  obtains i where "fr_str \<lparr>fr_b = b, fr_i = 0, fr_err = False\<rparr> = (k, \<lparr>fr_b = b, fr_i = 4 + length k, fr_err = False\<rparr>)"
    "fr_str \<lparr>fr_b = b, fr_i = 4 + length k, fr_err = False\<rparr> = (ac, \<lparr>fr_b = b, fr_i = 9 + length k, fr_err = False\<rparr>)"
    "fr_str \<lparr>fr_b = b, fr_i = 9 + length k, fr_err = False\<rparr> = (padCode pad, \<lparr>fr_b = b, fr_i = 14 + length k, fr_err = False\<rparr>)"
    "fr_hexBytes \<lparr>fr_b = b, fr_i = 14 + length k, fr_err = False\<rparr> = (data, \<lparr>fr_b = b, fr_i = i, fr_err = False\<rparr>)"
    "drop i b = rest"
proof -
  have "drop 0 b = fmt04 (length k) @ k @ fmt04 (length ac) @ ac @ fmt04 (length (padCode pad)) @ padCode pad @
      fmt04 (length (hex_encode data)) @ hex_encode data @ rest"
    by (simp add: fw_str_def fw_hexBytes_def b)
  note f1 = fr_str_field [OF this assms(2)]
  have "length ac < 10000" "length (padCode pad) < 10000"
    using assms(1) by simp_all
  note f2 = fr_str_field [OF conjunct2 [OF f1] this(1)]
  note f3 = fr_str_field [OF conjunct2 [OF f2] \<open>length (padCode pad) < 10000\<close>]
  note f4 = fr_hexBytes_field [OF conjunct2 [OF f3] assms(3)]
  have ac: "length ac = 1"
    using assms(1) by simp
  show ?thesis
    by (rule that [of "18 + length k + 2 * length data"])
      (insert conjunct1 [OF f1] conjunct1 [OF f2] conjunct1 [OF f3] f4, simp_all add: ac add.commute add.left_commute)
qed

lemma sim_genMAC_reads:
  assumes "algCode alg = Inr ac" "length k < 10000" "length data < 5000"
  shows "sim_genMAC v (fw_hexBytes (fw_str (fw_str (fw_str [] k) ac) (padCode pad)) data) =
    host_reply (soft_GenerateMAC v k alg pad data)"
proof -
  define b where "b = fw_hexBytes (fw_str (fw_str (fw_str [] k) ac) (padCode pad)) data @ []"
  obtain i where f: "fr_str \<lparr>fr_b = b, fr_i = 0, fr_err = False\<rparr> = (k, \<lparr>fr_b = b, fr_i = 4 + length k, fr_err = False\<rparr>)"
    "fr_str \<lparr>fr_b = b, fr_i = 4 + length k, fr_err = False\<rparr> = (ac, \<lparr>fr_b = b, fr_i = 9 + length k, fr_err = False\<rparr>)"
    "fr_str \<lparr>fr_b = b, fr_i = 9 + length k, fr_err = False\<rparr> = (padCode pad, \<lparr>fr_b = b, fr_i = 14 + length k, fr_err = False\<rparr>)"
    "fr_hexBytes \<lparr>fr_b = b, fr_i = 14 + length k, fr_err = False\<rparr> = (data, \<lparr>fr_b = b, fr_i = i, fr_err = False\<rparr>)"
    using mac_fields [OF assms b_def] by blast
  have "readMACBody b = Some (k, alg, padFromCode (padCode pad), data)"
    using assms(1) by (simp add: readMACBody_def newFieldReader_def f)
  then show ?thesis
    by (simp add: sim_genMAC_def host_reply_def soft_padding_code b_def)
qed

lemma sim_verifyMAC_reads:
  assumes "algCode alg = Inr ac" "length k < 10000" "length data < 5000" "length mac < 5000"
  shows "sim_verifyMAC v (fw_hexBytes (fw_hexBytes (fw_str (fw_str (fw_str [] k) ac) (padCode pad)) data) mac) =
    host_verdict (soft_VerifyMAC v k alg pad data mac)"
proof -
  define b where "b = fw_hexBytes (fw_str (fw_str (fw_str [] k) ac) (padCode pad)) data @
      (fmt04 (length (hex_encode mac)) @ hex_encode mac @ [])"
  obtain i where f: "fr_str \<lparr>fr_b = b, fr_i = 0, fr_err = False\<rparr> = (k, \<lparr>fr_b = b, fr_i = 4 + length k, fr_err = False\<rparr>)"
    "fr_str \<lparr>fr_b = b, fr_i = 4 + length k, fr_err = False\<rparr> = (ac, \<lparr>fr_b = b, fr_i = 9 + length k, fr_err = False\<rparr>)"
    "fr_str \<lparr>fr_b = b, fr_i = 9 + length k, fr_err = False\<rparr> = (padCode pad, \<lparr>fr_b = b, fr_i = 14 + length k, fr_err = False\<rparr>)"
    "fr_hexBytes \<lparr>fr_b = b, fr_i = 14 + length k, fr_err = False\<rparr> = (data, \<lparr>fr_b = b, fr_i = i, fr_err = False\<rparr>)"
    and rest: "drop i b = fmt04 (length (hex_encode mac)) @ hex_encode mac @ []"
    using mac_fields [OF assms(1-3) b_def] by blast
  have "fw_hexBytes (fw_hexBytes (fw_str (fw_str (fw_str [] k) ac) (padCode pad)) data) mac = b"
    by (simp add: b_def fw_hexBytes_def [of _ mac] fw_str_def [of _ "hex_encode mac"])
  then show ?thesis
    using assms(1) fr_hexBytes_field [OF rest assms(4)]
    by (simp add: sim_verifyMAC_def newFieldReader_def f host_verdict_def soft_padding_code)
qed


section \<open>The adapter over the simulator\<close>

text \<open>A configuration under which the commands and formats can be told apart.\<close>

definition ps_wf :: "ps_config \<Rightarrow> bool" where
  "ps_wf cfg \<longleftrightarrow>
     (let cmds = [EncryptPINCmd cfg, TranslateCmd cfg, GenerateMACCmd cfg, VerifyMACCmd cfg];
          codes = map (\<lambda>f. the (formatCode cfg f)) [ISO0, ISO1, ISO3] in
      length (Header cfg) \<le> 1000 \<and> list_all (\<lambda>c. length c = 2) cmds \<and> distinct cmds \<and>
      list_all (\<lambda>c. length c < 10000) codes \<and> distinct codes)"

definition iso_formats :: "pin_format set" where
  "iso_formats = {ISO0, ISO1, ISO3}"

lemma formats_told_apart:
  assumes "ps_wf cfg" "f \<in> iso_formats"
  obtains fc where "formatCode cfg f = Some fc" "length fc < 10000" "formatFromCode cfg fc = Some f"
proof -
  have ex: "\<exists>fc. formatCode cfg g = Some fc" if "g \<in> iso_formats" for g
    using that by (auto simp: iso_formats_def formatCode_def defaultFormatCodes_def split: option.split)
  obtain c0 c1 c3 where c: "formatCode cfg ISO0 = Some c0" "formatCode cfg ISO1 = Some c1" "formatCode cfg ISO3 = Some c3"
    using ex [of ISO0] ex [of ISO1] ex [of ISO3] by (auto simp: iso_formats_def)
  show thesis
    using assms c that by (auto simp: ps_wf_def iso_formats_def formatFromCode_def)
qed

lemma ps_wf_cmds:
  assumes "ps_wf cfg"
  shows "length (Header cfg) \<le> 1000" "length (EncryptPINCmd cfg) = 2" "length (TranslateCmd cfg) = 2"
    "length (GenerateMACCmd cfg) = 2" "length (VerifyMACCmd cfg) = 2"
    "sim_dispatch cfg r v (EncryptPINCmd cfg) d = (incrementCmd (EncryptPINCmd cfg), sim_encryptPIN cfg r v d)"
    "sim_dispatch cfg r v (TranslateCmd cfg) d = (incrementCmd (TranslateCmd cfg), sim_translate cfg r v d)"
    "sim_dispatch cfg r v (GenerateMACCmd cfg) d = (incrementCmd (GenerateMACCmd cfg), sim_genMAC v d)"
    "sim_dispatch cfg r v (VerifyMACCmd cfg) d = (incrementCmd (VerifyMACCmd cfg), sim_verifyMAC v d)"
  using assms by (auto simp: ps_wf_def sim_dispatch_def)

definition simulated :: "ps_client \<Rightarrow> (nat \<Rightarrow> bytes) \<Rightarrow> soft_vault \<Rightarrow> nat \<Rightarrow> network" where
  "simulated c rs v n w = Some (sim_handle (cl_cfg c) rs v n w)"

text \<open>A client ready for a command: connected, with every earlier answer read.\<close>

definition cl_ready :: "ps_client \<Rightarrow> bool" where
  "cl_ready c \<longleftrightarrow> ps_wf (cl_cfg c) \<and> cl_open c \<and> cl_in c = []"

lemma cl_do_simulated:
  assumes c: "cl_ready c" and cmd: "length cmd = 2" and len: "length data \<le> 61000"
    and disp: "sim_dispatch (cl_cfg c) (rs n) v cmd data = (incrementCmd cmd, ec, d)" and "length ec = 2" "length d \<le> 20"
  shows "cl_do (simulated c rs v n) c cmd data = (c, Inr (ec, d))"
proof -
  have h: "length (Header (cl_cfg c)) \<le> 1000"
    using c by (simp add: cl_ready_def ps_wf_cmds)
  have "simulated c rs v n (writeFrame (Header (cl_cfg c) @ cmd @ data)) =
      Some (writeFrame (Header (cl_cfg c) @ incrementCmd cmd @ ec @ d))"
    using sim_handle_frame [of cmd "cl_cfg c" data rs v n "[]"] cmd len h disp
    by (simp add: simulated_def sim_reply_def sim_handle_Nil)
  then have "cl_do (simulated c rs v n) c cmd data = (c\<lparr>cl_in := []\<rparr>, Inr (ec, d))"
    using assms h by (intro cl_do_reply) (simp_all add: cl_ready_def)
  then show ?thesis
    using c by (simp add: cl_ready_def)
qed

text \<open>What the caller gets for a result of the software vault.\<close>

definition host_result :: "bytes \<Rightarrow> vault_error + 'a \<Rightarrow> ps_error + 'a" where
  "host_result op r = (case r of Inl e \<Rightarrow> Inl (HostError op (hostCodeFor e)) | Inr x \<Rightarrow> Inr x)"

lemma hostCodeFor_error: "hostCodeFor e \<noteq> codeOK" "hostCodeFor e \<noteq> codeVerifyFail" "length (hostCodeFor e) = 2"
  by (auto simp: hostCodeFor_def host_codes bytes_of_def)

lemma length_fw_hexBytes: "length p = 8 \<Longrightarrow> length (fw_hexBytes [] p) = 20"
  by (simp add: fw_hexBytes_def fw_str_def fmt04_short)

lemma host_reply_short:
  assumes "\<forall>out. r = Inr out \<longrightarrow> length out = 8"
  shows "length (fst (host_reply r)) = 2" "length (snd (host_reply r)) \<le> 20"
  using assms by (auto simp: host_reply_def hostCodeFor_error length_fw_hexBytes codeOK_def split: sum.split)

lemma host_verdict_short: "length (fst (host_verdict r)) = 2" "length (snd (host_verdict r)) \<le> 20"
  by (auto simp: host_verdict_def hostCodeFor_error host_codes split: sum.split)

lemma host_reply_result:
  assumes "host_reply r = (ec, d)" and "\<forall>out. r = Inr out \<longrightarrow> length out = 8"
  shows "ec \<noteq> codeOK \<and> host_result op r = Inl (HostError op ec) \<or>
    ec = codeOK \<and> (\<exists>out rd. fr_hexBytes (newFieldReader d) = (out, rd) \<and> \<not> fr_err rd \<and> host_result op r = Inr out)"
proof (cases r)
  case (Inl e)
  with assms(1) hostCodeFor_error [of e] show ?thesis
    by (auto simp: host_reply_def host_result_def)
next
  case (Inr out)
  with assms show ?thesis
    using fw_hexBytes_read [of out] by (auto simp: host_reply_def host_result_def)
qed

lemma length_fw: "length (fw_str b s) = length b + length (fmt04 (length s)) + length s"
  "length (fw_hexBytes b p) = length b + length (fmt04 (2 * length p)) + 2 * length p"
  by (simp_all add: fw_str_def fw_hexBytes_def)

lemma ps_EncryptPINBlock_simulated:
  assumes c: "cl_ready c" and f: "f \<in> iso_formats"
    and len: "length k < 10000" "length pin < 10000" "length pan < 10000"
  shows "ps_EncryptPINBlock (simulated c rs v n) c k f pin pan =
    (c, host_result (bytes_of ''EncryptPINBlock'') (soft_EncryptPINBlock (rs n) v k f pin pan))"
proof -
  have wf: "ps_wf (cl_cfg c)" using c by (simp add: cl_ready_def)
  obtain fc where fc: "formatCode (cl_cfg c) f = Some fc" "length fc < 10000" "formatFromCode (cl_cfg c) fc = Some f"
    using formats_told_apart [OF wf f] .
  let ?b = "fw_str (fw_str (fw_str (fw_str [] k) fc) pin) pan"
  let ?r = "soft_EncryptPINBlock (rs n) v k f pin pan"
  obtain ec d where r: "host_reply ?r = (ec, d)" by fastforce
  have "sim_dispatch (cl_cfg c) (rs n) v (EncryptPINCmd (cl_cfg c)) ?b = (incrementCmd (EncryptPINCmd (cl_cfg c)), ec, d)"
    using sim_encryptPIN_reads [OF len(1) fc(2) len(2,3) fc(3), of "rs n" v] r by (simp add: ps_wf_cmds [OF wf])
  moreover have "length ?b \<le> 61000"
    using len fc(2) by (simp add: length_fw fmt04_short)
  ultimately have "cl_do (simulated c rs v n) c (EncryptPINCmd (cl_cfg c)) ?b = (c, Inr (ec, d))"
    using cl_do_simulated [OF c ps_wf_cmds(2) [OF wf]] host_reply_short [of ?r] r soft_results_length(1) by fastforce
  then show ?thesis
    using host_reply_result [where op = "bytes_of ''EncryptPINBlock''", OF r soft_results_length(1)]
    by (auto simp: ps_EncryptPINBlock_def fc(1))
qed


lemma ps_TranslatePIN_simulated:
  assumes c: "cl_ready c" and f: "sf \<in> iso_formats" "df \<in> iso_formats"
    and len: "length ks < 10000" "length kd < 10000" "length pan < 10000" "length blk < 5000"
  shows "ps_TranslatePIN (simulated c rs v n) c ks kd blk pan sf df =
    (c, host_result (bytes_of ''TranslatePIN'') (soft_TranslatePIN (rs n) v ks kd blk pan sf df))"
proof -
  have wf: "ps_wf (cl_cfg c)" using c by (simp add: cl_ready_def)
  obtain sc where sc: "formatCode (cl_cfg c) sf = Some sc" "length sc < 10000" "formatFromCode (cl_cfg c) sc = Some sf"
    using formats_told_apart [OF wf f(1)] .
  obtain dc where dc: "formatCode (cl_cfg c) df = Some dc" "length dc < 10000" "formatFromCode (cl_cfg c) dc = Some df"
    using formats_told_apart [OF wf f(2)] .
  let ?b = "fw_hexBytes (fw_str (fw_str (fw_str (fw_str (fw_str [] ks) kd) sc) dc) pan) blk"
  let ?r = "soft_TranslatePIN (rs n) v ks kd blk pan sf df"
  obtain ec d where r: "host_reply ?r = (ec, d)" by fastforce
  have "sim_dispatch (cl_cfg c) (rs n) v (TranslateCmd (cl_cfg c)) ?b = (incrementCmd (TranslateCmd (cl_cfg c)), ec, d)"
    using sim_translate_reads [OF len(1,2) sc(2) dc(2) len(3,4) sc(3) dc(3), of "rs n" v] r by (simp add: ps_wf_cmds [OF wf])
  moreover have "length ?b \<le> 61000"
    using len sc(2) dc(2) by (simp add: length_fw fmt04_short)
  ultimately have "cl_do (simulated c rs v n) c (TranslateCmd (cl_cfg c)) ?b = (c, Inr (ec, d))"
    using cl_do_simulated [OF c ps_wf_cmds(3) [OF wf]] host_reply_short [of ?r] r soft_results_length(2) by fastforce
  then show ?thesis
    using host_reply_result [where op = "bytes_of ''TranslatePIN''", OF r soft_results_length(2)]
    by (auto simp: ps_TranslatePIN_def sc(1) dc(1))
qed

definition mac_algorithms :: "mac_algorithm set" where
  "mac_algorithms = {MACAlg1, MACAlg3}"

lemma mac_algorithms_code:
  assumes "alg \<in> mac_algorithms"
  obtains ac where "algCode alg = Inr ac" "length ac = 1"
    "\<And>k pad data. macBody k alg pad data = Inr (fw_hexBytes (fw_str (fw_str (fw_str [] k) ac) (padCode pad)) data)"
  using assms by (auto simp: mac_algorithms_def macBody_def algCode_def)

text \<open>Whatever the device reads in the command, its answer is what the caller gets.\<close>

lemma ps_GenerateMAC_answer:
  assumes c: "cl_ready c" and body: "macBody k alg pad data = Inr b" "length b \<le> 61000"
    and sim: "sim_genMAC v b = host_reply (soft_GenerateMAC v k' alg' pad' msg)"
  shows "ps_GenerateMAC (simulated c rs v n) c k alg pad data =
    (c, host_result (bytes_of ''GenerateMAC'') (soft_GenerateMAC v k' alg' pad' msg))"
proof -
  have wf: "ps_wf (cl_cfg c)" using c by (simp add: cl_ready_def)
  let ?r = "soft_GenerateMAC v k' alg' pad' msg"
  obtain ec d where r: "host_reply ?r = (ec, d)" by fastforce
  have "sim_dispatch (cl_cfg c) (rs n) v (GenerateMACCmd (cl_cfg c)) b = (incrementCmd (GenerateMACCmd (cl_cfg c)), ec, d)"
    using sim r by (simp add: ps_wf_cmds [OF wf])
  then have "cl_do (simulated c rs v n) c (GenerateMACCmd (cl_cfg c)) b = (c, Inr (ec, d))"
    using cl_do_simulated [OF c ps_wf_cmds(4) [OF wf] body(2)] host_reply_short [of ?r] r soft_results_length(3) by fastforce
  then show ?thesis
    using host_reply_result [where op = "bytes_of ''GenerateMAC''", OF r soft_results_length(3)]
    by (auto simp: ps_GenerateMAC_def body(1))
qed

lemma ps_GenerateMAC_simulated:
  assumes c: "cl_ready c" and alg: "alg \<in> mac_algorithms" and len: "length k < 10000" "length data < 5000"
  shows "ps_GenerateMAC (simulated c rs v n) c k alg pad data =
    (c, host_result (bytes_of ''GenerateMAC'') (soft_GenerateMAC v k alg pad data))"
proof -
  obtain ac where ac: "algCode alg = Inr ac" "length ac = 1"
    "macBody k alg pad data = Inr (fw_hexBytes (fw_str (fw_str (fw_str [] k) ac) (padCode pad)) data)"
    using mac_algorithms_code [OF alg] by metis
  show ?thesis
    using ac len by (intro ps_GenerateMAC_answer [OF c ac(3)] sim_genMAC_reads) (simp_all add: length_fw fmt04_short)
qed

lemma verify_command:
  assumes alg: "alg \<in> mac_algorithms" and len: "length k < 10000" "length data < 5000" "length mac < 5000"
  obtains b where "macBody k alg pad data = Inr b" "length (fw_hexBytes b mac) \<le> 61000"
    "sim_verifyMAC v (fw_hexBytes b mac) = host_verdict (soft_VerifyMAC v k alg pad data mac)"
proof -
  obtain ac where ac: "algCode alg = Inr ac" "length ac = 1"
    "macBody k alg pad data = Inr (fw_hexBytes (fw_str (fw_str (fw_str [] k) ac) (padCode pad)) data)"
    using mac_algorithms_code [OF alg] by metis
  show ?thesis
    by (rule that [OF ac(3)]) (use ac len sim_verifyMAC_reads in \<open>auto simp: length_fw fmt04_short\<close>)
qed

text \<open>The verdict a reply stands for.\<close>

lemma verdict_result:
  assumes "host_verdict r = (ec, d)"
  shows "ec = codeOK \<and> host_result op r = Inr True \<or>
    ec \<noteq> codeOK \<and> ec = codeVerifyFail \<and> host_result op r = Inr False \<or>
    ec \<noteq> codeOK \<and> ec \<noteq> codeVerifyFail \<and> host_result op r = Inl (HostError op ec)"
proof -
  have "codeVerifyFail \<noteq> codeOK" by (simp add: host_codes bytes_of_def)
  then show ?thesis
    using assms hostCodeFor_error by (cases r) (auto simp: host_verdict_def host_result_def split: if_splits)
qed

lemma ps_VerifyMAC_simulated:
  assumes c: "cl_ready c" and alg: "alg \<in> mac_algorithms" and len: "length k < 10000" "length data < 5000" "length mac < 5000"
  shows "ps_VerifyMAC (simulated c rs v n) c k alg pad data mac =
    (c, host_result (bytes_of ''VerifyMAC'') (soft_VerifyMAC v k alg pad data mac))"
proof -
  have wf: "ps_wf (cl_cfg c)" using c by (simp add: cl_ready_def)
  obtain b where b: "macBody k alg pad data = Inr b" "length (fw_hexBytes b mac) \<le> 61000"
    "sim_verifyMAC v (fw_hexBytes b mac) = host_verdict (soft_VerifyMAC v k alg pad data mac)"
    using verify_command [OF alg len] by blast
  obtain ec d where r: "host_verdict (soft_VerifyMAC v k alg pad data mac) = (ec, d)" by fastforce
  have "sim_dispatch (cl_cfg c) (rs n) v (VerifyMACCmd (cl_cfg c)) (fw_hexBytes b mac) =
      (incrementCmd (VerifyMACCmd (cl_cfg c)), ec, d)"
    using b r by (simp add: ps_wf_cmds [OF wf])
  then have "cl_do (simulated c rs v n) c (VerifyMACCmd (cl_cfg c)) (fw_hexBytes b mac) = (c, Inr (ec, d))"
    using cl_do_simulated [OF c ps_wf_cmds(5) [OF wf] b(2)] host_verdict_short r by (metis fst_conv snd_conv)
  then show ?thesis
    using verdict_result [OF r, of "bytes_of ''VerifyMAC''"]
    by (elim disjE conjE) (simp_all add: ps_VerifyMAC_def b(1))
qed


section \<open>Long messages\<close>

lemma hex_encode_append: "hex_encode (xs @ ys) = hex_encode xs @ hex_encode ys"
  by (induction xs) simp_all

lemma hex_encode_chars: "c \<in> set (hex_encode xs) \<Longrightarrow> from_hex_char c \<noteq> None"
  by (induction xs) auto

lemma hex_decode_total: "even (length s) \<Longrightarrow> \<forall>c\<in>set s. from_hex_char c \<noteq> None \<Longrightarrow> \<exists>p. hex_decode s = Some p"
proof (induction s rule: induct_list012)
  case (3 a b cs)
  then obtain x y p where "from_hex_char a = Some x" "from_hex_char b = Some y" "hex_decode cs = Some p"
    by auto
  then show ?case by simp
qed simp_all

text \<open>The device takes the fifth digit of the length as the first character of the value.\<close>

definition seen_by_device :: "bytes \<Rightarrow> bytes" where
  "seen_by_device data = the (hex_decode (48 # take 999 (hex_encode data)))"

lemma seen_by_device_decodes:
  assumes "500 \<le> length data"
  shows "hex_decode (48 # take 999 (hex_encode data)) = Some (seen_by_device data)" "length (seen_by_device data) = 500"
proof -
  have "\<forall>c\<in>set (48 # take 999 (hex_encode data)). from_hex_char c \<noteq> None"
    using hex_encode_chars [OF in_set_takeD] by (simp add: from_hex_char_def [of 48] del: not_None_eq)
  moreover have l: "length (48 # take 999 (hex_encode data)) = 1000"
    using assms by simp
  ultimately obtain p where "hex_decode (48 # take 999 (hex_encode data)) = Some p"
    using hex_decode_total [of "48 # take 999 (hex_encode data)"] by auto
  then show d: "hex_decode (48 # take 999 (hex_encode data)) = Some (seen_by_device data)"
    by (simp add: seen_by_device_def)
  show "length (seen_by_device data) = 500"
    using length_hex_decode [OF d] l by simp
qed

lemma seen_by_device_prefix:
  assumes "500 \<le> length data"
  shows "seen_by_device data = seen_by_device (take 500 data)"
proof -
  have "hex_encode data = hex_encode (take 500 data) @ hex_encode (drop 500 data)"
    by (simp add: hex_encode_append [symmetric])
  then have "take 999 (hex_encode data) = take 999 (hex_encode (take 500 data))"
    using assms by simp
  then show ?thesis by (simp add: seen_by_device_def)
qed

lemma fmt04_10000: "fmt04 10000 = [49, 48, 48, 48, 48]"
  by (simp add: fmt04_def fmt_nat.simps digit_of_def)

lemma sim_genMAC_long:
  assumes ac: "algCode alg = Inr ac" "length ac = 1" and len: "length k < 10000" "length data = 5000"
  shows "sim_genMAC v (fw_hexBytes (fw_str (fw_str (fw_str [] k) ac) (padCode pad)) data) =
    host_reply (soft_GenerateMAC v k alg pad (seen_by_device data))"
proof -
  define b where "b = fw_hexBytes (fw_str (fw_str (fw_str [] k) ac) (padCode pad)) data"
  define hx where "hx = hex_encode data"
  have split: "48 # hx = (48 # take 999 hx) @ drop 999 hx" by simp
  have p: "length (48 # take 999 hx) = 1000"
    using len by (simp add: hx_def)
  have f1000: "fmt04 (length (48 # take 999 hx)) = [49, 48, 48, 48]"
    unfolding p by (simp add: fmt04_def fmt_nat.simps digit_of_def)
  have "b = fmt04 (length k) @ k @ fmt04 (length ac) @ ac @ fmt04 (length (padCode pad)) @ padCode pad @ fmt04 10000 @ hx"
    using len by (simp add: fw_str_def fw_hexBytes_def b_def hx_def)
  also have "fmt04 10000 @ hx = [49, 48, 48, 48] @ (48 # hx)"
    by (simp add: fmt04_10000)
  also have "\<dots> = fmt04 (length (48 # take 999 hx)) @ (48 # take 999 hx) @ drop 999 hx"
    by (simp only: split f1000 append_assoc)
  finally have "drop 0 b = fmt04 (length k) @ k @ fmt04 (length ac) @ ac @ fmt04 (length (padCode pad)) @ padCode pad @
      fmt04 (length (48 # take 999 hx)) @ (48 # take 999 hx) @ drop 999 hx"
    by simp
  note f1 = fr_str_field [OF this len(1)]
  have short: "length ac < 10000" "length (padCode pad) < 10000" "length (48 # take 999 hx) < 10000"
    using ac p by simp_all
  note f2 = fr_str_field [OF conjunct2 [OF f1] short(1)]
  note f3 = fr_str_field [OF conjunct2 [OF f2] short(2)]
  note f4 = fr_str_field [OF conjunct2 [OF f3] short(3)]
  have "hex_decode (48 # take 999 hx) = Some (seen_by_device data)"
    unfolding hx_def using len by (intro seen_by_device_decodes) simp
  then have "readMACBody b = Some (k, alg, padFromCode (padCode pad), seen_by_device data)"
    by (simp only: readMACBody_def newFieldReader_def fr_hexBytes_def conjunct1 [OF f1] conjunct1 [OF f2] conjunct1 [OF f3]
        conjunct1 [OF f4] mac_codes(1) [OF ac(1)] Let_def prod.case field_reader.simps if_False option.case)
  then show ?thesis
    by (simp add: sim_genMAC_def host_reply_def soft_padding_code b_def)
qed


lemma ps_GenerateMAC_long:
  assumes c: "cl_ready c" and alg: "alg \<in> mac_algorithms" and len: "length k < 10000" "length data = 5000"
  shows "ps_GenerateMAC (simulated c rs v n) c k alg pad data =
    (c, host_result (bytes_of ''GenerateMAC'') (soft_GenerateMAC v k alg pad (seen_by_device data)))"
proof -
  obtain ac where ac: "algCode alg = Inr ac" "length ac = 1"
    "macBody k alg pad data = Inr (fw_hexBytes (fw_str (fw_str (fw_str [] k) ac) (padCode pad)) data)"
    using mac_algorithms_code [OF alg] by metis
  show ?thesis
    using ac len
    by (intro ps_GenerateMAC_answer [OF c ac(3)] sim_genMAC_long) (simp_all add: length_fw fmt04_short fmt04_10000)
qed

section \<open>A late answer\<close>

text \<open>The frame of a verify command.\<close>

definition verify_frame :: "ps_config \<Rightarrow> bytes \<Rightarrow> mac_algorithm \<Rightarrow> padding \<Rightarrow> bytes \<Rightarrow> bytes \<Rightarrow> bytes" where
  "verify_frame cfg k alg pad data mac =
     (case macBody k alg pad data of
        Inl _ \<Rightarrow> []
      | Inr b \<Rightarrow> writeFrame (Header cfg @ VerifyMACCmd cfg @ fw_hexBytes b mac))"

text \<open>The device answers everything the connection carried so far, and the answers arrive only now.\<close>

definition late :: "bytes \<Rightarrow> ps_config \<Rightarrow> (nat \<Rightarrow> bytes) \<Rightarrow> soft_vault \<Rightarrow> nat \<Rightarrow> network" where
  "late sent cfg rs v n w = Some (sim_handle cfg rs v n (sent @ w))"

lemma ps_VerifyMAC_times_out:
  assumes c: "cl_ready c" and b: "macBody k alg pad data = Inr b" "length (fw_hexBytes b mac) \<le> 61000"
  shows "ps_VerifyMAC (\<lambda>_. Some []) c k alg pad data mac = (c, Inl (PsRead FrameEOF))"
  using c b ps_wf_cmds(1,5) [of "cl_cfg c"]
  by (simp add: ps_VerifyMAC_def cl_do_def cl_ready_def readFrame_Nil Let_def)

lemma ps_VerifyMAC_late:
  assumes c: "cl_ready c" and b1: "macBody k alg pad data1 = Inr b1" "length (fw_hexBytes b1 mac1) \<le> 61000"
    and s1: "sim_verifyMAC v (fw_hexBytes b1 mac1) = host_verdict r"
    and b2: "macBody k alg pad data2 = Inr b2" "length (fw_hexBytes b2 mac2) \<le> 61000"
  shows "ps_VerifyMAC (late (verify_frame (cl_cfg c) k alg pad data1 mac1) (cl_cfg c) rs v n) c k alg pad data2 mac2 =
    (c\<lparr>cl_in := sim_reply (cl_cfg c) (rs (Suc n)) v (VerifyMACCmd (cl_cfg c)) (fw_hexBytes b2 mac2)\<rparr>,
     host_result (bytes_of ''VerifyMAC'') r)"
proof -
  have wf: "ps_wf (cl_cfg c)" and o: "cl_open c" "cl_in c = []" using c by (simp_all add: cl_ready_def)
  note cmd = ps_wf_cmds(1,5) [OF wf]
  obtain ec d where r: "host_verdict r = (ec, d)" by fastforce
  let ?reply1 = "writeFrame (Header (cl_cfg c) @ incrementCmd (VerifyMACCmd (cl_cfg c)) @ ec @ d)"
  let ?reply2 = "sim_reply (cl_cfg c) (rs (Suc n)) v (VerifyMACCmd (cl_cfg c)) (fw_hexBytes b2 mac2)"
  have "late (verify_frame (cl_cfg c) k alg pad data1 mac1) (cl_cfg c) rs v n
      (writeFrame (Header (cl_cfg c) @ VerifyMACCmd (cl_cfg c) @ fw_hexBytes b2 mac2)) = Some (?reply1 @ ?reply2)"
    using sim_handle_frame [of "VerifyMACCmd (cl_cfg c)" "cl_cfg c" "fw_hexBytes b2 mac2" rs v "Suc n" "[]"] cmd b1 b2
      s1 r by (simp add: late_def verify_frame_def sim_handle_frame sim_handle_Nil sim_reply_def ps_wf_cmds(9) [OF wf])
  moreover have "length ec = 2" "length d \<le> 20"
    using host_verdict_short [of r] r by simp_all
  ultimately have "cl_do (late (verify_frame (cl_cfg c) k alg pad data1 mac1) (cl_cfg c) rs v n) c (VerifyMACCmd (cl_cfg c))
      (fw_hexBytes b2 mac2) = (c\<lparr>cl_in := ?reply2\<rparr>, Inr (ec, d))"
    using o cmd b2(2) by (intro cl_do_reply) simp_all
  then show ?thesis
    using verdict_result [OF r, of "bytes_of ''VerifyMAC''"]
    by (elim disjE conjE) (simp_all add: ps_VerifyMAC_def b2(1))
qed

section \<open>Properties\<close>

text \<open>C13: over the simulator the adapter is the software vault.  On a connection with no unread answer and a
  configuration whose command codes and format codes can be told apart, each of the four operations of the
  adapter, writing its fields, framing the command, being dispatched, parsed, executed and answered, gives
  exactly the result of the software vault on the same arguments; an error of the vault becomes the host
  error with its code; and the connection is ready for the next command.  References, PIN and PAN have
  to be shorter than ten thousand bytes, blocks, messages and codes shorter than five thousand.\<close>

theorem payshield_refines_soft:
  assumes "cl_ready c" "{f, sf, df} \<subseteq> iso_formats" "alg \<in> mac_algorithms"
    and "length k < 10000" "length kd < 10000" "length pin < 10000" "length pan < 10000"
    and "length blk < 5000" "length data < 5000" "length mac < 5000"
  shows "ps_EncryptPINBlock (simulated c rs v n) c k f pin pan =
      (c, host_result (bytes_of ''EncryptPINBlock'') (soft_EncryptPINBlock (rs n) v k f pin pan)) \<and>
    ps_TranslatePIN (simulated c rs v n) c k kd blk pan sf df =
      (c, host_result (bytes_of ''TranslatePIN'') (soft_TranslatePIN (rs n) v k kd blk pan sf df)) \<and>
    ps_GenerateMAC (simulated c rs v n) c k alg pad data =
      (c, host_result (bytes_of ''GenerateMAC'') (soft_GenerateMAC v k alg pad data)) \<and>
    ps_VerifyMAC (simulated c rs v n) c k alg pad data mac =
      (c, host_result (bytes_of ''VerifyMAC'') (soft_VerifyMAC v k alg pad data mac))"
  using assms
  by (simp add: ps_EncryptPINBlock_simulated ps_TranslatePIN_simulated ps_GenerateMAC_simulated ps_VerifyMAC_simulated)

definition ps_default_config :: ps_config where
  "ps_default_config = \<lparr>Header = [], EncryptPINCmd = [], TranslateCmd = [], GenerateMACCmd = [], VerifyMACCmd = [],
     FormatCodes = Map.empty\<rparr>"

lemma default_ready: "cl_ready (ps_Open ps_default_config)"
  by (simp add: cl_ready_def ps_Open_def ps_default_config_def withDefaults_def ps_wf_def formatCode_def
      defaultFormatCodes_def bytes_of_def)

theorem payshield_refines_soft_witness:
  "ps_VerifyMAC (simulated (ps_Open ps_default_config) (\<lambda>_. []) Map.empty 0) (ps_Open ps_default_config) [1] MACAlg1 Pad1 [2] [3] =
    (ps_Open ps_default_config, Inl (HostError (bytes_of ''VerifyMAC'') codeKeyNotFound))"
  using payshield_refines_soft [OF default_ready, of ISO0 ISO0 ISO0 MACAlg1 "[1]" "[]" "[]" "[]" "[]" "[2]" "[3]" "\<lambda>_. []" Map.empty 0 Pad1]
  by (simp add: iso_formats_def mac_algorithms_def soft_VerifyMAC_def soft_key_def host_result_def hostCodeFor_def)

text \<open>C37: a long message is not authenticated.  The length of a field is written with four digits or more
  and read with four, so of a five-thousand-byte message the device sees the first tenth, shifted by a digit: two messages of
  that length with the same first five hundred bytes get the same code, with no error, and it is the code
  of a third message of five hundred bytes.\<close>

theorem payshield_long_mac_ignores_tail:
  assumes "cl_ready c" "alg \<in> mac_algorithms" "length k < 10000"
    and "length data = 5000" "length data' = 5000" "take 500 data = take 500 data'"
  shows "ps_GenerateMAC (simulated c rs v n) c k alg pad data = ps_GenerateMAC (simulated c rs v n) c k alg pad data' \<and>
    (\<exists>msg. length msg = 500 \<and> ps_GenerateMAC (simulated c rs v n) c k alg pad data =
       (c, host_result (bytes_of ''GenerateMAC'') (soft_GenerateMAC v k alg pad msg)))"
proof -
  have "seen_by_device data = seen_by_device data'"
    using assms seen_by_device_prefix [of data] seen_by_device_prefix [of data'] by simp
  then show ?thesis
    using assms seen_by_device_decodes(2) [of data] by (auto simp: ps_GenerateMAC_long)
qed

theorem payshield_long_mac_ignores_tail_witness:
  "\<exists>mac. \<forall>b \<in> {0, 1}.
    ps_GenerateMAC (simulated (ps_Open ps_default_config) (\<lambda>_. []) [[1] \<mapsto> replicate 8 7] 0) (ps_Open ps_default_config)
      [1] MACAlg1 Pad1 (replicate 500 9 @ replicate 4500 b) = (ps_Open ps_default_config, Inr mac)"
proof -
  let ?run = "\<lambda>b. ps_GenerateMAC (simulated (ps_Open ps_default_config) (\<lambda>_. []) [[1] \<mapsto> replicate 8 7] 0)
    (ps_Open ps_default_config) [1] MACAlg1 Pad1 (replicate 500 9 @ replicate 4500 b)"
  obtain msg where same: "?run 0 = ?run 1" and run: "?run 0 = (ps_Open ps_default_config,
      host_result (bytes_of ''GenerateMAC'') (soft_GenerateMAC [[1] \<mapsto> replicate 8 7] [1] MACAlg1 Pad1 msg))"
    using payshield_long_mac_ignores_tail [OF default_ready, of MACAlg1 "[1]" "replicate 500 9 @ replicate 4500 0"
        "replicate 500 9 @ replicate 4500 1" "\<lambda>_. []" "[[1] \<mapsto> replicate 8 7]" 0 Pad1]
    by (auto simp: mac_algorithms_def)
  have "length (replicate 8 (7 :: byte)) = 8" by simp
  then obtain mac where "GenerateMAC MACAlg1 Pad1 (replicate 8 7) msg = Inr mac"
    using GenerateMAC_ok by blast
  then have "?run 0 = (ps_Open ps_default_config, Inr mac)"
    using run by (simp add: soft_GenerateMAC_def soft_key_def host_result_def)
  then have "?run 0 = (ps_Open ps_default_config, Inr mac)" "?run 1 = (ps_Open ps_default_config, Inr mac)"
    using same by (simp_all only:)
  then show ?thesis by blast
qed

text \<open>C36: a late answer is taken for the next one.  A command whose answer does not arrive before the deadline
  fails, but the connection stays in use: when both answers arrive, the next verification returns the
  verdict on the first message, and the verdict on the second stays in the input for the command after it.\<close>

theorem payshield_stale_verdict:
  assumes "cl_ready c" "alg \<in> mac_algorithms" "length k < 10000"
    and "length data1 < 5000" "length mac1 < 5000" "length data2 < 5000" "length mac2 < 5000"
  shows "ps_VerifyMAC (\<lambda>_. Some []) c k alg pad data1 mac1 = (c, Inl (PsRead FrameEOF)) \<and>
    (\<exists>c'. ps_VerifyMAC (late (verify_frame (cl_cfg c) k alg pad data1 mac1) (cl_cfg c) rs v n) c k alg pad data2 mac2 =
      (c', host_result (bytes_of ''VerifyMAC'') (soft_VerifyMAC v k alg pad data1 mac1)) \<and> cl_open c' \<and> cl_in c' \<noteq> [])"
proof -
  obtain b1 where b1: "macBody k alg pad data1 = Inr b1" "length (fw_hexBytes b1 mac1) \<le> 61000"
    "sim_verifyMAC v (fw_hexBytes b1 mac1) = host_verdict (soft_VerifyMAC v k alg pad data1 mac1)"
    using verify_command [OF assms(2-5)] by blast
  obtain b2 where b2: "macBody k alg pad data2 = Inr b2" "length (fw_hexBytes b2 mac2) \<le> 61000"
    using verify_command [OF assms(2,3,6,7)] by blast
  have "sim_reply cfg r v cmd d \<noteq> []" for cfg r cmd d
  proof -
    have "length (be_bytes 2 m) \<noteq> 0" for m by simp
    then show ?thesis by (auto simp: sim_reply_def writeFrame_def simp del: length_be_bytes split: prod.split)
  qed
  moreover have "cl_open c" using assms(1) by (simp add: cl_ready_def)
  ultimately show ?thesis
    using ps_VerifyMAC_times_out [OF assms(1) b1(1,2)] ps_VerifyMAC_late [OF assms(1) b1(1,2,3) b2] by simp
qed

theorem payshield_stale_verdict_witness:
  "\<exists>mac c'. ps_VerifyMAC (late (verify_frame (cl_cfg (ps_Open ps_default_config)) [1] MACAlg1 Pad1 [2] mac)
      (cl_cfg (ps_Open ps_default_config)) (\<lambda>_. []) [[1] \<mapsto> replicate 8 7] 0) (ps_Open ps_default_config) [1] MACAlg1 Pad1 [66] [] =
    (c', Inr True) \<and> soft_VerifyMAC [[1] \<mapsto> replicate 8 7] [1] MACAlg1 Pad1 [66] [] = Inl ErrMACLen"
proof -
  have *: "length (replicate 8 (7 :: byte)) = 8" by simp
  obtain mac where mac: "GenerateMAC MACAlg1 Pad1 (replicate 8 7) [2] = Inr mac"
    using GenerateMAC_ok * by blast
  obtain full where full: "GenerateMAC MACAlg1 Pad1 (replicate 8 7) [66] = Inr full"
    using GenerateMAC_ok * by blast
  have "soft_VerifyMAC [[1] \<mapsto> replicate 8 7] [1] MACAlg1 Pad1 [2] mac = Inr True"
    using mac GenerateMAC_length [OF mac] by (auto simp: soft_VerifyMAC_def soft_key_def VerifyMAC_def)
  moreover have "soft_VerifyMAC [[1] \<mapsto> replicate 8 7] [1] MACAlg1 Pad1 [66] [] = Inl ErrMACLen"
    using full by (simp add: soft_VerifyMAC_def soft_key_def VerifyMAC_def)
  ultimately show ?thesis
    using payshield_stale_verdict [OF default_ready, of MACAlg1 "[1]" "[2]" mac "[66]" "[]" Pad1 "\<lambda>_. []"
        "[[1] \<mapsto> replicate 8 7]" 0] GenerateMAC_length [OF mac]
    by (auto simp: mac_algorithms_def host_result_def)
qed

end
