(* ===== verification/Host.thy ===== *)
theory Host
imports Prelude
begin

text \<open>The component host, \<^verbatim>\<open>src/runtime/host.go\<close> with the component contract of
  \<^verbatim>\<open>component.go\<close>.  Every lifecycle method runs under the host's mutex, so it is one function on the
  host's state.  What a component's \<open>Start\<close> and \<open>Stop\<close> return is an argument of the operation, a
  map from the component to its error if any.  The calls made to components are recorded in order in
  \<open>h_trace\<close>, an observation that no operation reads.  The lemmas show that starting and stopping
  alternate for every component and that stopping runs in reverse registration order.\<close>

section \<open>State and operations\<close>

text \<open>A component is its name and an identity.\<close>

record component =
  c_Name :: bytes
  c_id :: nat

datatype lifecycle = EvStart bytes bool | EvStop bytes

record host =
  h_order :: "bytes list"
  h_comps :: "bytes \<rightharpoonup> component"
  h_running :: "bytes set"
  h_started :: bool
  h_trace :: "lifecycle list"

datatype 'e host_error =
    ErrHostDuplicate bytes | ErrHostNotFound bytes | ErrHostRunning
  | ErrHostStart bytes 'e "(bytes \<times> 'e) list" | ErrHostStop "(bytes \<times> 'e) list" | ErrHostDeploy bytes 'e | ErrHostUndeploy 'e

definition host_New :: host where
  "host_New = \<lparr>h_order = [], h_comps = Map.empty, h_running = {}, h_started = False, h_trace = []\<rparr>"

definition host_add :: "component \<Rightarrow> host \<Rightarrow> 'e host_error + host" where
  "host_add c h =
     (if h_comps h (c_Name c) \<noteq> None then Inl (ErrHostDuplicate (c_Name c))
      else Inr (h\<lparr>h_comps := (h_comps h)(c_Name c \<mapsto> c), h_order := h_order h @ [c_Name c]\<rparr>))"

definition host_Register :: "component \<Rightarrow> host \<Rightarrow> host \<times> 'e host_error option" where
  "host_Register c h =
     (if h_started h then (h, Some ErrHostRunning)
      else case host_add c h of Inl e \<Rightarrow> (h, Some e) | Inr h' \<Rightarrow> (h', None))"

text \<open>\<open>startOne\<close> and \<open>stopOne\<close> look the component up by name; the host invariant below shows
  that it is there.\<close>

definition startOne :: "(component \<Rightarrow> 'e option) \<Rightarrow> bytes \<Rightarrow> host \<Rightarrow> host \<times> 'e option" where
  "startOne sf name h = (case sf (the (h_comps h name)) of
       Some e \<Rightarrow> (h\<lparr>h_trace := h_trace h @ [EvStart name False]\<rparr>, Some e)
     | None \<Rightarrow> (h\<lparr>h_running := insert name (h_running h), h_trace := h_trace h @ [EvStart name True]\<rparr>, None))"

definition stopOne :: "(component \<Rightarrow> 'e option) \<Rightarrow> bytes \<Rightarrow> host \<Rightarrow> host \<times> 'e option" where
  "stopOne pf name h =
     (h\<lparr>h_running := h_running h - {name}, h_trace := h_trace h @ [EvStop name]\<rparr>, pf (the (h_comps h name)))"

text \<open>The loop shared by \<open>stopStarted\<close> and \<open>Stop\<close>, over the names that remain.\<close>

fun stop_loop :: "(component \<Rightarrow> 'e option) \<Rightarrow> bytes list \<Rightarrow> host \<Rightarrow> host \<times> (bytes \<times> 'e) list" where
  "stop_loop pf [] h = (h, [])"
| "stop_loop pf (name # names) h =
     (if name \<notin> h_running h then stop_loop pf names h
      else case stopOne pf name h of (h1, err) \<Rightarrow>
        (case stop_loop pf names h1 of (h2, errs) \<Rightarrow> (h2, (case err of None \<Rightarrow> errs | Some e \<Rightarrow> (name, e) # errs))))"

definition stopStarted :: "(component \<Rightarrow> 'e option) \<Rightarrow> host \<Rightarrow> host \<times> (bytes \<times> 'e) list" where
  "stopStarted pf h = stop_loop pf (rev (h_order h)) h"

fun start_loop :: "(component \<Rightarrow> 'e option) \<Rightarrow> (component \<Rightarrow> 'e option) \<Rightarrow> bytes list \<Rightarrow> host \<Rightarrow> host \<times> 'e host_error option" where
  "start_loop sf pf [] h = (h, None)"
| "start_loop sf pf (name # names) h = (case startOne sf name h of
       (h1, Some e) \<Rightarrow> (case stopStarted pf h1 of (h2, errs) \<Rightarrow> (h2, Some (ErrHostStart name e errs)))
     | (h1, None) \<Rightarrow> start_loop sf pf names h1)"

definition host_Start :: "(component \<Rightarrow> 'e option) \<Rightarrow> (component \<Rightarrow> 'e option) \<Rightarrow> host \<Rightarrow> host \<times> 'e host_error option" where
  "host_Start sf pf h =
     (if h_started h then (h, Some ErrHostRunning)
      else case start_loop sf pf (h_order h) h of
        (h', Some e) \<Rightarrow> (h', Some e)
      | (h', None) \<Rightarrow> (h'\<lparr>h_started := True\<rparr>, None))"

definition host_Stop :: "(component \<Rightarrow> 'e option) \<Rightarrow> host \<Rightarrow> host \<times> 'e host_error option" where
  "host_Stop pf h = (case stop_loop pf (rev (h_order h)) h of
       (h', errs) \<Rightarrow> (h'\<lparr>h_started := False\<rparr>, if errs = [] then None else Some (ErrHostStop errs)))"

definition host_remove :: "bytes \<Rightarrow> host \<Rightarrow> host" where
  "host_remove name h =
     h\<lparr>h_comps := (h_comps h)(name := None), h_running := h_running h - {name}, h_order := remove1 name (h_order h)\<rparr>"

definition host_Deploy :: "(component \<Rightarrow> 'e option) \<Rightarrow> component \<Rightarrow> host \<Rightarrow> host \<times> 'e host_error option" where
  "host_Deploy sf c h = (case host_add c h of
       Inl e \<Rightarrow> (h, Some e)
     | Inr h1 \<Rightarrow>
         if h_started h1 then (case startOne sf (c_Name c) h1 of
             (h2, Some e) \<Rightarrow> (host_remove (c_Name c) h2, Some (ErrHostDeploy (c_Name c) e))
           | (h2, None) \<Rightarrow> (h2, None))
         else (h1, None))"

definition host_Undeploy :: "(component \<Rightarrow> 'e option) \<Rightarrow> bytes \<Rightarrow> host \<Rightarrow> host \<times> 'e host_error option" where
  "host_Undeploy pf name h =
     (if h_comps h name = None then (h, Some (ErrHostNotFound name))
      else case (if name \<in> h_running h then stopOne pf name h else (h, None)) of
        (h1, err) \<Rightarrow> (host_remove name h1, map_option ErrHostUndeploy err))"

definition host_Components :: "host \<Rightarrow> bytes list" where
  "host_Components h = h_order h"

text \<open>\<open>Run\<close> starts the host, waits for its context to be cancelled and stops it.\<close>

definition host_Run :: "(component \<Rightarrow> 'e option) \<Rightarrow> (component \<Rightarrow> 'e option) \<Rightarrow> host \<Rightarrow> host \<times> 'e host_error option" where
  "host_Run sf pf h = (case host_Start sf pf h of (h', Some e) \<Rightarrow> (h', Some e) | (h', None) \<Rightarrow> host_Stop pf h')"

text \<open>The states a host can be in; the errors of components are their texts.\<close>

inductive host_reach :: "host \<Rightarrow> bool" where
  new: "host_reach host_New"
| register: "host_reach h \<Longrightarrow> host_reach (fst (host_Register c h :: host \<times> bytes host_error option))"
| start: "host_reach h \<Longrightarrow> host_reach (fst (host_Start (sf :: component \<Rightarrow> bytes option) pf h))"
| stop: "host_reach h \<Longrightarrow> host_reach (fst (host_Stop (pf :: component \<Rightarrow> bytes option) h))"
| deploy: "host_reach h \<Longrightarrow> host_reach (fst (host_Deploy (sf :: component \<Rightarrow> bytes option) c h))"
| undeploy: "host_reach h \<Longrightarrow> host_reach (fst (host_Undeploy (pf :: component \<Rightarrow> bytes option) name h))"

text \<open>A host that runs two components.\<close>

definition two_components :: host where
  "two_components = fst (host_Start (\<lambda>_. None :: bytes option) (\<lambda>_. None)
     (fst (host_Register \<lparr>c_Name = [2], c_id = 1\<rparr>
       (fst (host_Register \<lparr>c_Name = [1], c_id = 0\<rparr> host_New :: host \<times> bytes host_error option)) :: host \<times> bytes host_error option)))"

section \<open>Traces\<close>

text \<open>Replaying a trace gives the components that are up, in the order they were started; a start of a
  component that is up, or a stop of one that is not, is not a lifecycle.\<close>

fun replay_trace :: "bytes list \<Rightarrow> lifecycle list \<Rightarrow> bytes list option" where
  "replay_trace up [] = Some up"
| "replay_trace up (EvStart n ok # es) = (if n \<in> set up then None else replay_trace (if ok then up @ [n] else up) es)"
| "replay_trace up (EvStop n # es) = (if n \<in> set up then replay_trace (remove1 n up) es else None)"

lemma replay_trace_append: "replay_trace up (es @ fs) = Option.bind (replay_trace up es) (\<lambda>up'. replay_trace up' fs)"
  by (induction up es rule: replay_trace.induct) simp_all

section \<open>The invariant\<close>

definition host_inv :: "host \<Rightarrow> bool" where
  "host_inv h \<longleftrightarrow> distinct (h_order h) \<and> (\<forall>n. n \<in> set (h_order h) \<longleftrightarrow> h_comps h n \<noteq> None) \<and>
     (\<forall>n c. h_comps h n = Some c \<longrightarrow> c_Name c = n) \<and>
     h_running h = (if h_started h then set (h_order h) else {}) \<and>
     replay_trace [] (h_trace h) = Some (if h_started h then h_order h else [])"

text \<open>Stopping a list of names that are all up, from the last to the first.\<close>

lemma stop_loop_all:
  assumes "set ns \<subseteq> h_running h" "distinct ns"
  shows "\<exists>errs. stop_loop pf ns h = (h\<lparr>h_running := h_running h - set ns, h_trace := h_trace h @ map EvStop ns\<rparr>, errs)"
  using assms
proof (induction ns arbitrary: h)
  case (Cons n ns)
  define h1 where "h1 = h\<lparr>h_running := h_running h - {n}, h_trace := h_trace h @ [EvStop n]\<rparr>"
  obtain errs where "stop_loop pf ns h1 = (h1\<lparr>h_running := h_running h1 - set ns, h_trace := h_trace h1 @ map EvStop ns\<rparr>, errs)"
    using Cons.IH [of h1] Cons.prems by (auto simp: h1_def)
  moreover have "h_running h - {n} - set ns = h_running h - insert n (set ns)"
    by blast
  ultimately show ?case
    using Cons.prems by (simp add: stopOne_def h1_def)
qed simp

text \<open>Names that are not running are skipped.\<close>

lemma stop_loop_skip:
  "set ns \<inter> h_running h = {} \<Longrightarrow> stop_loop pf ns h = (h, [])"
  by (induction ns) auto

lemma stop_loop_append:
  "stop_loop pf (ns @ ms) h = (case stop_loop pf ns h of (h1, es) \<Rightarrow> (case stop_loop pf ms h1 of (h2, fs) \<Rightarrow> (h2, es @ fs)))"
  by (induction pf ns h rule: stop_loop.induct) (auto split: prod.split option.split)

lemma replay_stops: "replay_trace (up @ ns) (map EvStop (rev ns)) = Some up" if "distinct (up @ ns)"
  using that
proof (induction ns rule: rev_induct)
  case (snoc n ns)
  have "remove1 n (up @ ns @ [n]) = up @ ns"
    using snoc.prems by (auto simp: remove1_append)
  with snoc show ?case
    by simp
qed simp

text \<open>Starting: either every remaining component comes up, or the first that fails is followed by the
  stop of everything started, in reverse.\<close>

lemma stopStarted_prefix:
  assumes "h_order h = pre @ ns" "distinct (h_order h)" "h_running h = set pre"
  shows "\<exists>errs. stopStarted pf h = (h\<lparr>h_running := {}, h_trace := h_trace h @ map EvStop (rev pre)\<rparr>, errs)"
proof -
  have skip: "stop_loop pf (rev ns) h = (h, [])"
    using assms by (intro stop_loop_skip) auto
  obtain errs where "stop_loop pf (rev pre) h = (h\<lparr>h_running := h_running h - set (rev pre), h_trace := h_trace h @ map EvStop (rev pre)\<rparr>, errs)"
    using stop_loop_all [of "rev pre" h pf] assms by auto
  then show ?thesis
    using skip assms(1,3) by (simp add: stopStarted_def stop_loop_append)
qed

lemma start_loop_result:
  assumes "h_order h = pre @ ns" "distinct (h_order h)" "h_running h = set pre" "start_loop sf pf ns h = (h', r)"
  shows "(r = None \<and> h' = h\<lparr>h_running := set (h_order h), h_trace := h_trace h @ map (\<lambda>n. EvStart n True) ns\<rparr>) \<or>
    (\<exists>as n bs e. r = Some e \<and> ns = as @ n # bs \<and>
       h' = h\<lparr>h_running := {}, h_trace := h_trace h @ map (\<lambda>n. EvStart n True) as @ [EvStart n False] @ map EvStop (rev (pre @ as))\<rparr>)"
  using assms
proof (induction ns arbitrary: pre h)
  case (Cons n ns)
  show ?case
  proof (cases "sf (the (h_comps h n))")
    case None
    define h1 where "h1 = h\<lparr>h_running := insert n (h_running h), h_trace := h_trace h @ [EvStart n True]\<rparr>"
    have "start_loop sf pf ns h1 = (h', r)"
      using Cons.prems(4) None by (simp add: startOne_def h1_def)
    then have IH: "(r = None \<and> h' = h1\<lparr>h_running := set (h_order h1), h_trace := h_trace h1 @ map (\<lambda>n. EvStart n True) ns\<rparr>) \<or>
      (\<exists>as m bs e. r = Some e \<and> ns = as @ m # bs \<and>
         h' = h1\<lparr>h_running := {}, h_trace := h_trace h1 @ map (\<lambda>n. EvStart n True) as @ [EvStart m False] @ map EvStop (rev ((pre @ [n]) @ as))\<rparr>)"
      using Cons.prems by (intro Cons.IH) (auto simp: h1_def)
    then show ?thesis
    proof (elim disjE exE conjE)
      fix as m bs e
      assume *: "r = Some e" "ns = as @ m # bs"
        "h' = h1\<lparr>h_running := {}, h_trace := h_trace h1 @ map (\<lambda>n. EvStart n True) as @ [EvStart m False] @ map EvStop (rev ((pre @ [n]) @ as))\<rparr>"
      have "n # ns = (n # as) @ m # bs"
        using * by simp
      with * show ?thesis
        by (intro disjI2 exI [of _ "n # as"] exI [of _ m] exI [of _ bs] exI [of _ e]) (simp add: h1_def)
    qed (simp add: h1_def)
  next
    case (Some e)
    define h1 where "h1 = h\<lparr>h_trace := h_trace h @ [EvStart n False]\<rparr>"
    obtain errs where "stopStarted pf h1 = (h1\<lparr>h_running := {}, h_trace := h_trace h1 @ map EvStop (rev pre)\<rparr>, errs)"
      using stopStarted_prefix [of h1 pre "n # ns" pf] Cons.prems by (auto simp: h1_def)
    then have "r = Some (ErrHostStart n e errs)" "h' = h1\<lparr>h_running := {}, h_trace := h_trace h1 @ map EvStop (rev pre)\<rparr>"
      using Cons.prems(4) Some by (simp_all add: startOne_def h1_def)
    then show ?thesis
      by (intro disjI2 exI [of _ "[]"] exI [of _ n] exI [of _ ns] exI) (auto simp: h1_def)
  qed
qed simp

lemma replay_starts: "distinct (up @ ns) \<Longrightarrow> replay_trace up (map (\<lambda>n. EvStart n True) ns) = Some (up @ ns)"
  by (induction ns arbitrary: up) auto

section \<open>Every operation keeps the invariant\<close>

lemma host_inv_add: "host_inv h \<Longrightarrow> \<not> h_started h \<Longrightarrow> host_add c h = Inr h' \<Longrightarrow> host_inv h'"
  by (auto simp: host_inv_def host_add_def split: if_splits)

lemma host_inv_Register: "host_inv h \<Longrightarrow> host_inv (fst (host_Register c h))"
  using host_inv_add by (auto simp: host_Register_def split: sum.split)

lemma host_Start_result:
  assumes inv: "host_inv h" "\<not> h_started h" and s: "host_Start sf pf h = (h', r)"
  shows "(r = None \<and> h' = h\<lparr>h_running := set (h_order h), h_started := True, h_trace := h_trace h @ map (\<lambda>n. EvStart n True) (h_order h)\<rparr>) \<or>
    (\<exists>as n bs e. r = Some e \<and> h_order h = as @ n # bs \<and>
       h' = h\<lparr>h_trace := h_trace h @ map (\<lambda>n. EvStart n True) as @ [EvStart n False] @ map EvStop (rev as)\<rparr>)"
proof -
  have h: "distinct (h_order h)" "h_running h = {}"
    using inv by (auto simp: host_inv_def)
  obtain h1 r1 where loop: "start_loop sf pf (h_order h) h = (h1, r1)"
    by fastforce
  have same: "h\<lparr>h_running := {}, h_trace := t\<rparr> = h\<lparr>h_trace := t\<rparr>" for t
    using h(2) by simp
  have res: "h' = (if r1 = None then h1\<lparr>h_started := True\<rparr> else h1)" "r = r1"
    using s inv(2) loop by (auto simp: host_Start_def split: option.splits)
  have "(r1 = None \<and> h1 = h\<lparr>h_running := set (h_order h), h_trace := h_trace h @ map (\<lambda>n. EvStart n True) (h_order h)\<rparr>) \<or>
    (\<exists>as n bs e. r1 = Some e \<and> h_order h = as @ n # bs \<and>
       h1 = h\<lparr>h_running := {}, h_trace := h_trace h @ map (\<lambda>n. EvStart n True) as @ [EvStart n False] @ map EvStop (rev ([] @ as))\<rparr>)"
    by (rule start_loop_result [OF _ _ _ loop]) (simp_all add: h)
  then show ?thesis
  proof (elim disjE exE conjE)
    fix as n bs e
    assume "r1 = Some e" "h_order h = as @ n # bs"
      "h1 = h\<lparr>h_running := {}, h_trace := h_trace h @ map (\<lambda>n. EvStart n True) as @ [EvStart n False] @ map EvStop (rev ([] @ as))\<rparr>"
    then show ?thesis
      by (intro disjI2 exI [of _ as] exI [of _ n] exI [of _ bs] exI [of _ e]) (simp add: res same)
  qed (simp add: res)
qed

lemma host_inv_Start: "host_inv h \<Longrightarrow> host_inv (fst (host_Start sf pf h))"
proof (cases "h_started h")
  case False
  assume inv: "host_inv h"
  obtain h' r where s: "host_Start sf pf h = (h', r)"
    by fastforce
  have up: "replay_trace [] (h_trace h) = Some []" and d: "distinct (h_order h)"
    using inv False by (auto simp: host_inv_def)
  have "host_inv h'"
    using host_Start_result [OF inv False s]
  proof (elim disjE exE conjE)
    assume "h' = h\<lparr>h_running := set (h_order h), h_started := True, h_trace := h_trace h @ map (\<lambda>n. EvStart n True) (h_order h)\<rparr>"
    then show ?thesis
      using inv up replay_starts [of "[]" "h_order h"] by (simp add: host_inv_def replay_trace_append)
  next
    fix as n bs e
    assume *: "h_order h = as @ n # bs" "h' = h\<lparr>h_trace := h_trace h @ map (\<lambda>n. EvStart n True) as @ [EvStart n False] @ map EvStop (rev as)\<rparr>"
    then show ?thesis
      using inv False up d replay_starts [of "[]" as] replay_stops [of "[]" as] by (auto simp: host_inv_def replay_trace_append)
  qed
  then show ?thesis
    by (simp add: s)
qed (simp add: host_Start_def)

lemma host_Stop_result:
  assumes "host_inv h"
  shows "\<exists>err. host_Stop pf h = (h\<lparr>h_running := {}, h_started := False,
    h_trace := h_trace h @ map EvStop (rev (if h_started h then h_order h else []))\<rparr>, err)"
proof (cases "h_started h")
  case True
  then have "set (rev (h_order h)) \<subseteq> h_running h" "distinct (rev (h_order h))" "h_running h - set (rev (h_order h)) = {}"
    using assms by (auto simp: host_inv_def)
  with True stop_loop_all [of "rev (h_order h)" h pf] show ?thesis
    by (auto simp: host_Stop_def)
next
  case False
  then have "h_running h = {}"
    using assms by (simp add: host_inv_def)
  with False stop_loop_skip [of "rev (h_order h)" h pf] show ?thesis
    by (auto simp: host_Stop_def)
qed

lemma host_inv_Stop: "host_inv h \<Longrightarrow> host_inv (fst (host_Stop pf h))"
proof -
  assume inv: "host_inv h"
  obtain err where s: "host_Stop pf h = (h\<lparr>h_running := {}, h_started := False,
      h_trace := h_trace h @ map EvStop (rev (if h_started h then h_order h else []))\<rparr>, err)"
    using host_Stop_result [OF inv] by blast
  have "replay_trace (if h_started h then h_order h else []) (map EvStop (rev (if h_started h then h_order h else []))) = Some []"
    using inv replay_stops [of "[]" "h_order h"] by (simp add: host_inv_def)
  then show ?thesis
    using inv by (simp add: s host_inv_def replay_trace_append)
qed

lemma host_inv_Deploy: "host_inv h \<Longrightarrow> host_inv (fst (host_Deploy sf c h))"
proof (cases "h_comps h (c_Name c)")
  case (Some d)
  then show "host_inv h \<Longrightarrow> ?thesis"
    by (simp add: host_Deploy_def host_add_def)
next
  case None
  assume inv: "host_inv h"
  define n where "n = c_Name c"
  have n: "n \<notin> set (h_order h)"
    using inv None by (auto simp: host_inv_def n_def)
  define h1 where "h1 = h\<lparr>h_comps := (h_comps h)(n \<mapsto> c), h_order := h_order h @ [n]\<rparr>"
  have add: "host_add c h = Inr h1"
    using None by (simp add: host_add_def h1_def n_def)
  show ?thesis
  proof (cases "h_started h")
    case False
    then show ?thesis
      using host_inv_add [OF inv False add] by (simp add: host_Deploy_def add h1_def)
  next
    case True
    show ?thesis
    proof (cases "sf c")
      case None
      then show ?thesis
        using inv True n by (auto simp: host_Deploy_def add h1_def startOne_def host_inv_def replay_trace_append n_def [symmetric])
    next
      case (Some e)
      have "(h_comps h)(n := None) = h_comps h"
        using None by (auto simp: n_def)
      with Some show ?thesis
        using inv True n by (auto simp: host_Deploy_def add h1_def startOne_def host_inv_def host_remove_def replay_trace_append
            remove1_append n_def [symmetric] remove1_idem)
    qed
  qed
qed

lemma host_inv_Undeploy: "host_inv h \<Longrightarrow> host_inv (fst (host_Undeploy pf name h))"
proof (cases "h_comps h name")
  case (Some c)
  assume inv: "host_inv h"
  have n: "name \<in> set (h_order h)"
    using inv Some by (auto simp: host_inv_def)
  show ?thesis
    using inv n Some by (cases "h_started h") (auto simp: host_Undeploy_def stopOne_def host_remove_def host_inv_def replay_trace_append)
qed (simp add: host_Undeploy_def)

lemma host_reach_inv: "host_reach h \<Longrightarrow> host_inv h"
proof (induction rule: host_reach.induct)
  case new
  then show ?case
    by (simp add: host_inv_def host_New_def)
qed (simp_all add: host_inv_Register host_inv_Start host_inv_Stop host_inv_Deploy host_inv_Undeploy)

section \<open>Properties\<close>

text \<open>C14: the host's lifecycle.  In every reachable state the calls made so far form a lifecycle: no
  component is started while it is up or stopped while it is down, and the components that are up are all the
  registered ones, in registration order, when the host is started, and none when it is not.  Stopping
  stops every one of them exactly once in reverse registration order, whatever the components return.
  Starting either starts all of them in order, or stops at the first failure and stops in reverse exactly
  those that had started.\<close>

theorem host_lifecycle:
  assumes "host_reach h"
  shows "replay_trace [] (h_trace h) = Some (if h_started h then host_Components h else []) \<and>
    distinct (host_Components h) \<and> h_running h = (if h_started h then set (host_Components h) else {}) \<and>
    h_trace (fst (host_Stop pf h)) = h_trace h @ map EvStop (rev (if h_started h then host_Components h else [])) \<and>
    (\<not> h_started h \<longrightarrow>
      h_trace (fst (host_Start sf pf h)) = h_trace h @ map (\<lambda>n. EvStart n True) (host_Components h) \<or>
      (\<exists>as n bs. host_Components h = as @ n # bs \<and> h_trace (fst (host_Start sf pf h)) =
         h_trace h @ map (\<lambda>n. EvStart n True) as @ [EvStart n False] @ map EvStop (rev as)))"
proof -
  have inv: "host_inv h"
    by (rule host_reach_inv) fact
  obtain err where stop: "host_Stop pf h = (h\<lparr>h_running := {}, h_started := False,
      h_trace := h_trace h @ map EvStop (rev (if h_started h then h_order h else []))\<rparr>, err)"
    using host_Stop_result [OF inv] by blast
  obtain h' r where start: "host_Start sf pf h = (h', r)"
    by fastforce
  have "h_trace (fst (host_Start sf pf h)) = h_trace h @ map (\<lambda>n. EvStart n True) (h_order h) \<or>
      (\<exists>as n bs. h_order h = as @ n # bs \<and> h_trace (fst (host_Start sf pf h)) =
         h_trace h @ map (\<lambda>n. EvStart n True) as @ [EvStart n False] @ map EvStop (rev as))" if "\<not> h_started h"
    using host_Start_result [OF inv that start] start by fastforce
  then show ?thesis
    using inv by (simp add: stop host_Components_def host_inv_def)
qed

theorem host_lifecycle_witness:
  "h_trace (fst (host_Stop (\<lambda>_. None :: bytes option) two_components)) = [EvStart [1] True, EvStart [2] True, EvStop [2], EvStop [1]]"
proof -
  have "host_reach two_components"
    unfolding two_components_def by (intro host_reach.intros)
  from host_lifecycle [OF this, of "\<lambda>_. None :: bytes option"]
  have "h_trace (fst (host_Stop (\<lambda>_. None :: bytes option) two_components)) =
      h_trace two_components @ map EvStop (rev (if h_started two_components then host_Components two_components else []))"
    by blast
  then show ?thesis
    by (simp add: two_components_def host_Start_def host_Register_def host_add_def host_New_def startOne_def host_Components_def)
qed

end
