(* ===== verification/Deploy.thy ===== *)
theory Deploy
imports Host "HOL-Library.List_Lexorder"
begin

text \<open>Hot deployment, \<^verbatim>\<open>src/runtime/deploy.go\<close>: the factory registry and the deployer that
  keeps a host in step with a directory of descriptors.  Decoding a descriptor file (\<open>json.Unmarshal\<close>)
  and the factories are arguments.  Go iterates a map in no fixed order, so the order in which \<open>Scan\<close>
  undeploys removed files is an argument \<open>ord\<close> too.  A second section has the locks that \<open>Stop\<close> of
  the host and the rescan loop contend for.\<close>

section \<open>Registry and deployer\<close>

record descriptor =
  ds_Name :: bytes
  ds_Type :: bytes
  ds_Enabled :: bool
  ds_Config :: bytes

type_synonym 'e factory = "bytes \<Rightarrow> bytes \<Rightarrow> 'e + component"
type_synonym 'e registry = "bytes \<rightharpoonup> 'e factory"

record deployState =
  dst_name :: bytes
  dst_raw :: bytes

type_synonym applied = "bytes \<rightharpoonup> deployState"

datatype 'e deploy_error =
    ErrReadDir | ErrReadDescriptor bytes | ErrParseDescriptor bytes 'e | ErrNoName bytes
  | ErrNoFactory bytes | ErrBuild bytes bytes 'e | ErrReplace bytes "'e host_error"
  | ErrUndeploy bytes "'e host_error" | ErrDeploy "'e host_error"

definition reg_New :: "'e registry" where
  "reg_New = Map.empty"

definition reg_Register :: "bytes \<Rightarrow> 'e factory \<Rightarrow> 'e registry \<Rightarrow> 'e registry" where
  "reg_Register typ f reg = reg(typ \<mapsto> f)"

definition reg_Build :: "'e registry \<Rightarrow> descriptor \<Rightarrow> 'e deploy_error + component" where
  "reg_Build reg d = (case reg (ds_Type d) of
       None \<Rightarrow> Inl (ErrNoFactory (ds_Type d))
     | Some f \<Rightarrow> (case f (ds_Name d) (ds_Config d) of
           Inl e \<Rightarrow> Inl (ErrBuild (ds_Name d) (ds_Type d) e)
         | Inr c \<Rightarrow> Inr c))"

text \<open>\<open>err != nil && !errors.Is(err, ErrNotFound)\<close>, on the error of \<open>Undeploy\<close>.\<close>

fun undeploy_failed :: "'e host_error option \<Rightarrow> bool" where
  "undeploy_failed None = False"
| "undeploy_failed (Some (ErrHostNotFound _)) = False"
| "undeploy_failed (Some _) = True"

definition teardown :: "(component \<Rightarrow> 'e option) \<Rightarrow> bytes \<Rightarrow> deployState \<Rightarrow> applied \<times> host
    \<Rightarrow> (applied \<times> host) \<times> 'e deploy_error option" where
  "teardown pf path prev s = (case host_Undeploy pf (dst_name prev) (snd s) of (h, err) \<Rightarrow>
     if undeploy_failed err then ((fst s, h), Some (ErrReplace (dst_name prev) (the err)))
     else (((fst s)(path := None), h), None))"

definition deploy_step :: "(component \<Rightarrow> 'e option) \<Rightarrow> bytes \<Rightarrow> bytes \<Rightarrow> bytes \<Rightarrow> component \<Rightarrow> applied \<times> host
    \<Rightarrow> (applied \<times> host) \<times> 'e deploy_error option" where
  "deploy_step sf path name raw c s = (case host_Deploy sf c (snd s) of
       (h, Some e) \<Rightarrow> ((fst s, h), Some (ErrDeploy e))
     | (h, None) \<Rightarrow> (((fst s)(path \<mapsto> \<lparr>dst_name = name, dst_raw = raw\<rparr>), h), None))"

definition applyOne :: "(bytes \<Rightarrow> 'e + descriptor) \<Rightarrow> 'e registry \<Rightarrow> (component \<Rightarrow> 'e option) \<Rightarrow> (component \<Rightarrow> 'e option)
    \<Rightarrow> bytes \<Rightarrow> bytes \<Rightarrow> applied \<times> host \<Rightarrow> (applied \<times> host) \<times> 'e deploy_error option" where
  "applyOne parse reg sf pf path raw s = (case parse raw of
       Inl e \<Rightarrow> (s, Some (ErrParseDescriptor path e))
     | Inr desc \<Rightarrow>
         if ds_Name desc = [] then (s, Some (ErrNoName path))
         else if \<not> ds_Enabled desc then (case fst s path of
             Some prev \<Rightarrow> teardown pf path prev s
           | None \<Rightarrow> (s, None))
         else (case reg_Build reg desc of
             Inl e \<Rightarrow> (s, Some e)
           | Inr c \<Rightarrow> (case (case fst s path of Some prev \<Rightarrow> teardown pf path prev s | None \<Rightarrow> (s, None)) of
                 (s1, Some e) \<Rightarrow> (s1, Some e)
               | (s1, None) \<Rightarrow> deploy_step sf path (ds_Name desc) raw c s1)))"

text \<open>The two loops of \<open>Scan\<close>.\<close>

fun scan_files :: "(bytes \<Rightarrow> 'e + descriptor) \<Rightarrow> 'e registry \<Rightarrow> (component \<Rightarrow> 'e option) \<Rightarrow> (component \<Rightarrow> 'e option)
    \<Rightarrow> (bytes \<rightharpoonup> bytes) \<Rightarrow> bytes list \<Rightarrow> applied \<times> host \<Rightarrow> (applied \<times> host) \<times> 'e deploy_error list" where
  "scan_files parse reg sf pf files [] s = (s, [])"
| "scan_files parse reg sf pf files (path # paths) s =
     (let raw = the (files path) in
      if map_option dst_raw (fst s path) = Some raw then scan_files parse reg sf pf files paths s
      else case applyOne parse reg sf pf path raw s of (s1, err) \<Rightarrow>
        (case scan_files parse reg sf pf files paths s1 of (s2, errs) \<Rightarrow>
           (s2, (case err of None \<Rightarrow> errs | Some e \<Rightarrow> e # errs))))"

fun scan_removed :: "(component \<Rightarrow> 'e option) \<Rightarrow> (bytes \<rightharpoonup> bytes) \<Rightarrow> bytes list \<Rightarrow> applied \<times> host
    \<Rightarrow> (applied \<times> host) \<times> 'e deploy_error list" where
  "scan_removed pf files [] s = (s, [])"
| "scan_removed pf files (path # paths) s =
     (if files path \<noteq> None then scan_removed pf files paths s
      else let name = dst_name (the (fst s path)) in
        case host_Undeploy pf name (snd s) of (h, err) \<Rightarrow>
        (case scan_removed pf files paths ((fst s)(path := None), h) of (s2, errs) \<Rightarrow>
           (s2, if undeploy_failed err then ErrUndeploy name (the err) # errs else errs)))"

definition scan :: "(bytes \<Rightarrow> 'e + descriptor) \<Rightarrow> 'e registry \<Rightarrow> (component \<Rightarrow> 'e option) \<Rightarrow> (component \<Rightarrow> 'e option)
    \<Rightarrow> (applied \<Rightarrow> bytes list) \<Rightarrow> (bytes \<rightharpoonup> bytes) \<Rightarrow> applied \<times> host \<Rightarrow> (applied \<times> host) \<times> 'e deploy_error list" where
  "scan parse reg sf pf ord files s =
     (case scan_files parse reg sf pf files (sorted_list_of_set (dom files)) s of (s1, errs1) \<Rightarrow>
      (case scan_removed pf files (ord (fst s1)) s1 of (s2, errs2) \<Rightarrow> (s2, errs1 @ errs2)))"

text \<open>\<open>readDir\<close>: an entry of the directory is its name, whether it is a directory, and what reading it
  gives.  \<open>filepath_Join\<close> is the result of \<open>filepath.Join\<close> on a cleaned directory path.\<close>

type_synonym dir_entry = "bytes \<times> bool \<times> bytes option"

definition filepath_Ext :: "bytes \<Rightarrow> bytes" where
  "filepath_Ext path = (let seg = takeWhile (\<lambda>b. b \<noteq> 0x2F) (rev path) in
     if 0x2E \<in> set seg then 0x2E # rev (takeWhile (\<lambda>b. b \<noteq> 0x2E) seg) else [])"

definition filepath_Join :: "bytes \<Rightarrow> bytes \<Rightarrow> bytes" where
  "filepath_Join dir name =
     (if dir = [] \<or> dir = [0x2E] then name else if dir = [0x2F] then 0x2F # name else dir @ 0x2F # name)"

fun read_entries :: "bytes \<Rightarrow> dir_entry list \<Rightarrow> (bytes \<rightharpoonup> bytes) \<Rightarrow> 'e deploy_error + (bytes \<rightharpoonup> bytes)" where
  "read_entries dir [] files = Inr files"
| "read_entries dir ((name, isdir, content) # es) files =
     (if isdir \<or> filepath_Ext name \<noteq> bytes_of ''.json'' then read_entries dir es files
      else case content of
        None \<Rightarrow> Inl (ErrReadDescriptor name)
      | Some raw \<Rightarrow> read_entries dir es (files(filepath_Join dir name \<mapsto> raw)))"

definition readDir :: "bytes \<Rightarrow> dir_entry list option \<Rightarrow> 'e deploy_error + (bytes \<rightharpoonup> bytes)" where
  "readDir dir entries = (case entries of None \<Rightarrow> Inl ErrReadDir | Some es \<Rightarrow> read_entries dir es Map.empty)"

definition Scan :: "(bytes \<Rightarrow> 'e + descriptor) \<Rightarrow> 'e registry \<Rightarrow> (component \<Rightarrow> 'e option) \<Rightarrow> (component \<Rightarrow> 'e option)
    \<Rightarrow> (applied \<Rightarrow> bytes list) \<Rightarrow> bytes \<Rightarrow> dir_entry list option \<Rightarrow> applied \<times> host
    \<Rightarrow> (applied \<times> host) \<times> 'e deploy_error list" where
  "Scan parse reg sf pf ord dir entries s = (case readDir dir entries of
       Inl e \<Rightarrow> (s, [e])
     | Inr files \<Rightarrow> scan parse reg sf pf ord files s)"

section \<open>Locks\<close>

text \<open>The host's mutex, the rescan loop of a hosted deployer and one call of the host's \<open>Stop\<close>.  The loop scans at once
  when it is started, and then at every tick; a scan calls \<open>Deploy\<close> or \<open>Undeploy\<close>, which take the mutex, for every change
  it finds, any number of times.  The loop's \<open>select\<close> may take a tick even when it is cancelled.\<close>

datatype loop_pc = LoopScan | LoopWantsHost | LoopInHost | LoopSelect | LoopReturned
datatype stop_pc = StopIdle | StopLocked | StopWaitsLoop | StopReturned

record lock_state =
  ls_mu :: bool
  ls_cancelled :: bool
  ls_loop :: loop_pc
  ls_stop :: stop_pc

definition lock_init :: lock_state where
  "lock_init = \<lparr>ls_mu = False, ls_cancelled = False, ls_loop = LoopScan, ls_stop = StopIdle\<rparr>"

inductive loop_step :: "lock_state \<Rightarrow> lock_state \<Rightarrow> bool" where
  change: "ls_loop l = LoopScan \<Longrightarrow> loop_step l (l\<lparr>ls_loop := LoopWantsHost\<rparr>)"
| lock: "ls_loop l = LoopWantsHost \<Longrightarrow> \<not> ls_mu l \<Longrightarrow> loop_step l (l\<lparr>ls_mu := True, ls_loop := LoopInHost\<rparr>)"
| unlock: "ls_loop l = LoopInHost \<Longrightarrow> loop_step l (l\<lparr>ls_mu := False, ls_loop := LoopScan\<rparr>)"
| scanned: "ls_loop l = LoopScan \<Longrightarrow> loop_step l (l\<lparr>ls_loop := LoopSelect\<rparr>)"
| tick: "ls_loop l = LoopSelect \<Longrightarrow> loop_step l (l\<lparr>ls_loop := LoopScan\<rparr>)"
| return: "ls_loop l = LoopSelect \<Longrightarrow> ls_cancelled l \<Longrightarrow> loop_step l (l\<lparr>ls_loop := LoopReturned\<rparr>)"

text \<open>The host's \<open>Stop\<close> holds the mutex while it stops the running components, among them the deployer, whose \<open>Stop\<close>
  cancels the loop and waits until it has returned.\<close>

inductive stop_step :: "lock_state \<Rightarrow> lock_state \<Rightarrow> bool" where
  lock: "ls_stop l = StopIdle \<Longrightarrow> \<not> ls_mu l \<Longrightarrow> stop_step l (l\<lparr>ls_mu := True, ls_stop := StopLocked\<rparr>)"
| cancel: "ls_stop l = StopLocked \<Longrightarrow> stop_step l (l\<lparr>ls_cancelled := True, ls_stop := StopWaitsLoop\<rparr>)"
| return: "ls_stop l = StopWaitsLoop \<Longrightarrow> ls_loop l = LoopReturned \<Longrightarrow> stop_step l (l\<lparr>ls_mu := False, ls_stop := StopReturned\<rparr>)"

definition lock_step :: "lock_state \<Rightarrow> lock_state \<Rightarrow> bool" where
  "lock_step l l' \<longleftrightarrow> loop_step l l' \<or> stop_step l l'"

inductive_cases loop_stepE: "loop_step l l'"
inductive_cases stop_stepE: "stop_step l l'"

section \<open>The deployer's invariant\<close>

definition applied_names :: "applied \<Rightarrow> bytes set" where
  "applied_names a = dst_name ` ran a"

text \<open>The components that the deployer did not deploy.\<close>

definition foreign :: "applied \<times> host \<Rightarrow> bytes \<rightharpoonup> component" where
  "foreign s = h_comps (snd s) |` (- applied_names (fst s))"

text \<open>What the descriptor in a file asks for.\<close>

definition desired :: "(bytes \<Rightarrow> 'e + descriptor) \<Rightarrow> bytes \<Rightarrow> deployState option" where
  "desired parse raw = (case parse raw of
       Inl _ \<Rightarrow> None
     | Inr d \<Rightarrow> if ds_Enabled d then Some \<lparr>dst_name = ds_Name d, dst_raw = raw\<rparr> else None)"

definition readable :: "(bytes \<Rightarrow> 'e + descriptor) \<Rightarrow> bytes \<Rightarrow> bool" where
  "readable parse raw = (case parse raw of Inl _ \<Rightarrow> False | Inr d \<Rightarrow> ds_Name d \<noteq> [])"

text \<open>A file that cannot be deployed: it does not parse, has no name, or does not build.\<close>

definition unusable :: "(bytes \<Rightarrow> 'e + descriptor) \<Rightarrow> 'e registry \<Rightarrow> bytes \<Rightarrow> bool" where
  "unusable parse reg raw = (case parse raw of
       Inl _ \<Rightarrow> True
     | Inr d \<Rightarrow> ds_Name d = [] \<or> ds_Enabled d \<and> (case reg_Build reg d of Inl _ \<Rightarrow> True | Inr _ \<Rightarrow> False))"

text \<open>The component that the descriptor in a file describes.\<close>

definition built :: "(bytes \<Rightarrow> 'e + descriptor) \<Rightarrow> 'e registry \<Rightarrow> bytes \<Rightarrow> component option" where
  "built parse reg raw = (case parse raw of
       Inl _ \<Rightarrow> None
     | Inr d \<Rightarrow> (case reg_Build reg d of Inl _ \<Rightarrow> None | Inr c \<Rightarrow> Some c))"

text \<open>The host is in a valid state; every file the deployer has applied was readable and enabled, and the component on the
  host under its name is the one its descriptor describes; no two files have the same name.\<close>

definition dep_inv :: "(bytes \<Rightarrow> 'e + descriptor) \<Rightarrow> 'e registry \<Rightarrow> applied \<times> host \<Rightarrow> bool" where
  "dep_inv parse reg s \<longleftrightarrow> host_inv (snd s) \<and> finite (dom (fst s)) \<and>
     (\<forall>p st. fst s p = Some st \<longrightarrow> built parse reg (dst_raw st) \<noteq> None \<and> h_comps (snd s) (dst_name st) = built parse reg (dst_raw st) \<and>
        readable parse (dst_raw st) \<and> desired parse (dst_raw st) = Some st) \<and>
     (\<forall>p q st tt. fst s p = Some st \<longrightarrow> fst s q = Some tt \<longrightarrow> dst_name st = dst_name tt \<longrightarrow> p = q)"

text \<open>The factories name the component as they are asked to.\<close>

definition honest_registry :: "'e registry \<Rightarrow> bool" where
  "honest_registry reg \<longleftrightarrow> (\<forall>typ f name cfg c. reg typ = Some f \<longrightarrow> f name cfg = Inr c \<longrightarrow> c_Name c = name)"

lemma dep_invD:
  assumes "dep_inv parse reg s" "fst s p = Some st"
  shows "h_comps (snd s) (dst_name st) \<noteq> None" "readable parse (dst_raw st)" "desired parse (dst_raw st) = Some st"
    "built parse reg (dst_raw st) \<noteq> None" "h_comps (snd s) (dst_name st) = built parse reg (dst_raw st)"
  using assms by (auto simp: dep_inv_def)

lemma Build_honest: "honest_registry reg \<Longrightarrow> reg_Build reg d = Inr c \<Longrightarrow> c_Name c = ds_Name d"
  by (auto simp: honest_registry_def reg_Build_def split: option.splits sum.splits)

lemma applied_names_remove:
  assumes "dep_inv parse reg s" "fst s p = Some st"
  shows "applied_names ((fst s)(p := None)) = applied_names (fst s) - {dst_name st}"
proof (intro set_eqI iffI)
  fix n
  assume "n \<in> applied_names ((fst s)(p := None))"
  then obtain q tt where "fst s q = Some tt" "q \<noteq> p" "n = dst_name tt"
    by (auto simp: applied_names_def ran_def split: if_splits)
  then show "n \<in> applied_names (fst s) - {dst_name st}"
    using assms by (auto simp: applied_names_def ran_def dep_inv_def)
next
  fix n
  assume "n \<in> applied_names (fst s) - {dst_name st}"
  then obtain q tt where q: "fst s q = Some tt" "n = dst_name tt" "n \<noteq> dst_name st"
    by (auto simp: applied_names_def ran_def)
  then have "((fst s)(p := None)) q = Some tt"
    using assms by auto
  then show "n \<in> applied_names ((fst s)(p := None))"
    unfolding applied_names_def q(2) by (intro imageI) (rule ranI)
qed

lemma applied_names_add: "a p = None \<Longrightarrow> applied_names (a(p \<mapsto> st)) = insert (dst_name st) (applied_names a)"
  by (simp add: applied_names_def)

text \<open>Undeploying a component that stops cleanly.\<close>

lemma Undeploy_clean:
  assumes "h_comps h name \<noteq> None" "\<forall>c. pf c = None"
  shows "\<exists>h'. host_Undeploy pf name h = (h', None) \<and> h_comps h' = (h_comps h)(name := None)"
  using assms by (auto simp: host_Undeploy_def stopOne_def host_remove_def)

lemma forget_clean:
  assumes inv: "dep_inv parse reg s" and p: "fst s p = Some st" and pf: "\<forall>c. pf c = None"
  obtains h' where "host_Undeploy pf (dst_name st) (snd s) = (h', None)"
    "dep_inv parse reg ((fst s)(p := None), h')" "foreign ((fst s)(p := None), h') = foreign s"
proof -
  obtain h' where h': "host_Undeploy pf (dst_name st) (snd s) = (h', None)" "h_comps h' = (h_comps (snd s))(dst_name st := None)"
    using Undeploy_clean [OF dep_invD(1) [OF inv p] pf] by metis
  have "host_inv h'"
    using host_inv_Undeploy [of "snd s" pf "dst_name st"] inv h'(1) by (simp add: dep_inv_def)
  moreover have "dst_name tt \<noteq> dst_name st" if "fst s q = Some tt" "q \<noteq> p" for q tt
    using inv p that by (auto simp: dep_inv_def)
  ultimately have "dep_inv parse reg ((fst s)(p := None), h')"
    using inv h'(2) by (auto simp: dep_inv_def split: if_splits)
  moreover have "foreign ((fst s)(p := None), h') = foreign s"
    using applied_names_remove [OF inv p] h'(2) dep_invD(1) [OF inv p] p
    by (auto simp: foreign_def restrict_map_def fun_eq_iff applied_names_def ran_def)
  ultimately show ?thesis
    using that h'(1) by blast
qed

lemma teardown_clean:
  assumes "dep_inv parse reg s" "fst s p = Some st" "\<forall>c. pf c = None"
  obtains h' where "teardown pf p st s = (((fst s)(p := None), h'), None)"
    "dep_inv parse reg ((fst s)(p := None), h')" "foreign ((fst s)(p := None), h') = foreign s"
proof -
  obtain h' where "host_Undeploy pf (dst_name st) (snd s) = (h', None)"
    "dep_inv parse reg ((fst s)(p := None), h')" "foreign ((fst s)(p := None), h') = foreign s"
    by (rule forget_clean [OF assms])
  then show ?thesis
    by (intro that [of h']) (simp_all add: teardown_def)
qed

lemma Deploy_cases:
  obtains (fresh) h' where "host_Deploy sf c h = (h', None)" "h_comps h (c_Name c) = None" "h_comps h' = (h_comps h)(c_Name c \<mapsto> c)"
  | (failed) h' e where "host_Deploy sf c h = (h', Some e)" "h_comps h' = h_comps h"
proof (cases "h_comps h (c_Name c)")
  case None
  then have same: "(h_comps h)(c_Name c := None) = h_comps h"
    by auto
  show ?thesis
  proof (cases "h_started h \<and> sf c \<noteq> None")
    case True
    show ?thesis
      by (rule failed [of "host_remove (c_Name c) (h\<lparr>h_comps := (h_comps h)(c_Name c \<mapsto> c), h_order := h_order h @ [c_Name c], h_trace := h_trace h @ [EvStart (c_Name c) False]\<rparr>)"
            "ErrHostDeploy (c_Name c) (the (sf c))"])
        (use True None same in \<open>auto simp: host_Deploy_def host_add_def startOne_def host_remove_def\<close>)
  next
    case False
    then show ?thesis
      using None by (cases "h_started h"; intro fresh [of "fst (host_Deploy sf c h)"])
        (auto simp: host_Deploy_def host_add_def startOne_def)
  qed
qed (auto simp: host_Deploy_def host_add_def intro: failed)

lemma deploy_step_result:
  assumes inv: "dep_inv parse reg s" and p: "fst s p = None" and d: "parse raw = Inr desc" "ds_Enabled desc" "ds_Name desc \<noteq> []"
    and b: "reg_Build reg desc = Inr c" and c: "c_Name c = ds_Name desc" and st: "deploy_step sf p (ds_Name desc) raw c s = (s', err)"
  shows "dep_inv parse reg s' \<and> foreign s' = foreign s \<and> (\<forall>q. q \<noteq> p \<longrightarrow> fst s' q = fst s q) \<and>
    (err = None \<longrightarrow> fst s' p = desired parse raw)"
proof (cases rule: Deploy_cases [of sf c "snd s"])
  case (fresh h')
  have inv': "host_inv h'"
    using host_inv_Deploy [of "snd s" sf c] inv fresh(1) by (simp add: dep_inv_def)
  have des: "desired parse raw = Some \<lparr>dst_name = ds_Name desc, dst_raw = raw\<rparr>" "readable parse raw"
    using d by (simp_all add: desired_def readable_def)
  have bt: "built parse reg raw = Some c" using d(1) b by (simp add: built_def)
  have new: "dst_name tt \<noteq> ds_Name desc" if "fst s q = Some tt" for q tt
    using dep_invD(1) [OF inv that] fresh(2) c by auto
  have s': "s' = ((fst s)(p \<mapsto> \<lparr>dst_name = ds_Name desc, dst_raw = raw\<rparr>), h')" "err = None"
    using st fresh(1) by (simp_all add: deploy_step_def)
  have "dep_inv parse reg s'"
    using inv inv' new des bt fresh(3) c unfolding s' dep_inv_def by (auto split: if_splits) metis+
  moreover have "foreign s' = foreign s"
    using applied_names_add [of "fst s" p "\<lparr>dst_name = ds_Name desc, dst_raw = raw\<rparr>"] p fresh(2,3) c
    by (auto simp: s' foreign_def restrict_map_def fun_eq_iff)
  ultimately show ?thesis
    using des by (simp add: s')
next
  case (failed h' e)
  have "host_inv h'"
    using host_inv_Deploy [of "snd s" sf c] inv failed(1) by (simp add: dep_inv_def)
  moreover have "s' = (fst s, h')" "err = Some (ErrDeploy e)"
    using st failed(1) by (simp_all add: deploy_step_def)
  ultimately show ?thesis
    using inv failed(2) by (simp add: dep_inv_def foreign_def)
qed

text \<open>The two loops.  \<open>scan_keeps\<close> is what one descriptor's turn guarantees.\<close>

definition scan_keeps :: "(bytes \<Rightarrow> 'e + descriptor) \<Rightarrow> 'e registry \<Rightarrow> applied \<times> host \<Rightarrow> applied \<times> host \<Rightarrow> bool" where
  "scan_keeps parse reg s s' \<longleftrightarrow> dep_inv parse reg s' \<and> foreign s' = foreign s"

lemma applyOne_result:
  assumes inv: "dep_inv parse reg s" and pf: "\<forall>c. pf c = None" and reg: "honest_registry reg"
    and ap: "applyOne parse reg sf pf p raw s = (s', err)"
  shows "scan_keeps parse reg s s' \<and> (\<forall>q. q \<noteq> p \<longrightarrow> fst s' q = fst s q) \<and>
    (unusable parse reg raw \<longrightarrow> s' = s) \<and> (err = None \<longrightarrow> fst s' p = desired parse raw \<and> readable parse raw)"
proof (cases "parse raw")
  case (Inl e)
  then show ?thesis
    using ap inv by (auto simp: applyOne_def scan_keeps_def)
next
  case (Inr desc)
  show ?thesis
  proof (cases "ds_Name desc = []")
    case True
    then show ?thesis
      using ap inv Inr by (auto simp: applyOne_def scan_keeps_def)
  next
    case name: False
    define s1 where "s1 = fst (case fst s p of Some prev \<Rightarrow> teardown pf p prev s | None \<Rightarrow> (s, None :: 'a deploy_error option))"
    have t: "(case fst s p of Some prev \<Rightarrow> teardown pf p prev s | None \<Rightarrow> (s, None)) = (s1, None)"
      and s1: "dep_inv parse reg s1" "foreign s1 = foreign s" "fst s1 p = None" "\<And>q. q \<noteq> p \<Longrightarrow> fst s1 q = fst s q"
    proof -
      have "(case fst s p of Some prev \<Rightarrow> teardown pf p prev s | None \<Rightarrow> (s, None)) = (s1, None) \<and>
        dep_inv parse reg s1 \<and> foreign s1 = foreign s \<and> fst s1 p = None \<and> (\<forall>q. q \<noteq> p \<longrightarrow> fst s1 q = fst s q)"
      proof (cases "fst s p")
        case (Some prev)
        obtain h' where "teardown pf p prev s = (((fst s)(p := None), h'), None :: 'a deploy_error option)"
          "dep_inv parse reg ((fst s)(p := None), h')" "foreign ((fst s)(p := None), h') = foreign s"
          by (rule teardown_clean [OF inv Some pf])
        with Some show ?thesis
          by (simp add: s1_def)
      qed (use inv in \<open>simp add: s1_def\<close>)
      then show "(case fst s p of Some prev \<Rightarrow> teardown pf p prev s | None \<Rightarrow> (s, None)) = (s1, None)"
        "dep_inv parse reg s1" "foreign s1 = foreign s" "fst s1 p = None" "\<And>q. q \<noteq> p \<Longrightarrow> fst s1 q = fst s q"
        by blast+
    qed
    show ?thesis
    proof (cases "ds_Enabled desc")
      case False
      then have "(s', err) = (s1, None)"
        using ap Inr name t by (simp add: applyOne_def)
      then show ?thesis
        using s1 Inr name False by (simp add: scan_keeps_def desired_def readable_def unusable_def)
    next
      case en: True
      show ?thesis
      proof (cases "reg_Build reg desc")
        case (Inl e)
        then show ?thesis
          using ap inv Inr name en by (auto simp: applyOne_def scan_keeps_def)
      next
        case c: (Inr c)
        have "deploy_step sf p (ds_Name desc) raw c s1 = (s', err)"
          using ap Inr name en c t by (simp add: applyOne_def)
        from deploy_step_result [where parse = parse, OF s1(1,3) Inr en name c Build_honest [OF reg c] this] show ?thesis
          using s1 Inr name en c by (auto simp: scan_keeps_def readable_def unusable_def)
      qed
    qed
  qed
qed

lemma scan_files_result:
  assumes "dep_inv parse reg s" "\<forall>c. pf c = None" "honest_registry reg" "distinct paths"
    "scan_files parse reg sf pf files paths s = (s', errs)"
  shows "scan_keeps parse reg s s' \<and> (\<forall>q. q \<notin> set paths \<longrightarrow> fst s' q = fst s q) \<and>
    (\<forall>q\<in>set paths. (unusable parse reg (the (files q)) \<longrightarrow> fst s' q = fst s q) \<and>
       (errs = [] \<longrightarrow> fst s' q = desired parse (the (files q)) \<and> readable parse (the (files q))))"
  using assms
proof (induction paths arbitrary: s s' errs)
  case Nil
  then show ?case
    by (simp add: scan_keeps_def)
next
  case (Cons p ps)
  let ?raw = "the (files p)"
  show ?case
  proof (cases "map_option dst_raw (fst s p) = Some ?raw")
    case True
    then obtain st where st: "fst s p = Some st" "dst_raw st = ?raw"
      by auto
    have "scan_files parse reg sf pf files ps s = (s', errs)"
      using Cons.prems(5) True by simp
    then have IH: "scan_keeps parse reg s s' \<and> (\<forall>q. q \<notin> set ps \<longrightarrow> fst s' q = fst s q) \<and>
      (\<forall>q\<in>set ps. (unusable parse reg (the (files q)) \<longrightarrow> fst s' q = fst s q) \<and>
         (errs = [] \<longrightarrow> fst s' q = desired parse (the (files q)) \<and> readable parse (the (files q))))"
      using Cons.IH [OF Cons.prems(1,2,3)] Cons.prems(4) by simp
    have "fst s' p = Some st"
      using IH st Cons.prems(4) by simp
    then show ?thesis
      using IH st dep_invD(2,3) [OF Cons.prems(1) st(1)] by auto
  next
    case False
    obtain s1 err where ap: "applyOne parse reg sf pf p ?raw s = (s1, err)"
      by fastforce
    obtain s2 errs2 where rest: "scan_files parse reg sf pf files ps s1 = (s2, errs2)"
      by fastforce
    have eqs: "s' = s2" "errs = (case err of None \<Rightarrow> errs2 | Some e \<Rightarrow> e # errs2)"
      using Cons.prems(5) unfolding scan_files.simps Let_def if_not_P [OF False] ap prod.case rest by simp_all
    note one = applyOne_result [OF Cons.prems(1,2,3) ap]
    have IH: "scan_keeps parse reg s1 s2 \<and> (\<forall>q. q \<notin> set ps \<longrightarrow> fst s2 q = fst s1 q) \<and>
      (\<forall>q\<in>set ps. (unusable parse reg (the (files q)) \<longrightarrow> fst s2 q = fst s1 q) \<and>
         (errs2 = [] \<longrightarrow> fst s2 q = desired parse (the (files q)) \<and> readable parse (the (files q))))"
      using Cons.IH [OF _ Cons.prems(2,3) _ rest] Cons.prems(4) one by (simp add: scan_keeps_def)
    have p: "p \<notin> set ps"
      using Cons.prems(4) by simp
    have "errs = [] \<Longrightarrow> err = None \<and> errs2 = []"
      using eqs by (auto split: option.splits)
    moreover have "fst s2 p = fst s1 p"
      using IH p by blast
    moreover have "scan_keeps parse reg s s2"
      using IH one by (simp add: scan_keeps_def)
    moreover have "fst s1 q = fst s q" if "q \<noteq> p" for q
      using one that by blast
    ultimately show ?thesis
      using IH one p unfolding eqs(1) by (metis set_ConsD list.set_intros)
  qed
qed

lemma scan_removed_result:
  assumes "dep_inv parse reg s" "\<forall>c. pf c = None" "distinct paths" "set paths \<subseteq> dom (fst s)"
    "scan_removed pf files paths s = (s', errs)"
  shows "scan_keeps parse reg s s' \<and> errs = [] \<and>
    (\<forall>q. fst s' q = (if q \<in> set paths \<and> files q = None then None else fst s q)) \<and>
    ((\<forall>q\<in>set paths. files q \<noteq> None) \<longrightarrow> s' = s)"
  using assms
proof (induction paths arbitrary: s s' errs)
  case Nil
  then show ?case
    by (simp add: scan_keeps_def)
next
  case (Cons p ps)
  show ?case
  proof (cases "files p")
    case (Some raw)
    then show ?thesis
      using Cons.IH [of s s' errs] Cons.prems by auto
  next
    case None
    obtain st where st: "fst s p = Some st"
      using Cons.prems(4) by auto
    obtain h' where h': "host_Undeploy pf (dst_name st) (snd s) = (h', None)"
      "dep_inv parse reg ((fst s)(p := None), h')" "foreign ((fst s)(p := None), h') = foreign s"
      by (rule forget_clean [OF Cons.prems(1) st Cons.prems(2)])
    obtain s2 errs2 where rest: "scan_removed pf files ps ((fst s)(p := None), h') = (s2, errs2)"
      by fastforce
    have eqs: "s' = s2" "errs = errs2"
      using Cons.prems(5) None st h'(1) rest by (auto simp: Let_def)
    have ps: "distinct ps" "set ps \<subseteq> dom (fst ((fst s)(p := None), h'))"
      using Cons.prems(3,4) by auto
    have "scan_keeps parse reg ((fst s)(p := None), h') s2 \<and> errs2 = [] \<and>
      (\<forall>q. fst s2 q = (if q \<in> set ps \<and> files q = None then None else fst ((fst s)(p := None), h') q)) \<and>
      ((\<forall>q\<in>set ps. files q \<noteq> None) \<longrightarrow> s2 = ((fst s)(p := None), h'))"
      by (rule Cons.IH [OF h'(2) Cons.prems(2) ps rest])
    then show ?thesis
      using None h'(3) Cons.prems(3) by (auto simp: eqs scan_keeps_def)
  qed
qed

text \<open>A scan over a directory that is already in place does nothing.\<close>

lemma scan_files_settled:
  assumes "\<And>p. p \<in> set paths \<Longrightarrow> fst s p = desired parse (the (files p)) \<and> readable parse (the (files p))"
  shows "scan_files parse reg sf pf files paths s = (s, [])"
  using assms
proof (induction paths)
  case (Cons p ps)
  obtain d where d: "parse (the (files p)) = Inr d" "ds_Name d \<noteq> []"
    using Cons.prems [of p] by (auto simp: readable_def split: sum.splits)
  have "map_option dst_raw (fst s p) = Some (the (files p)) \<or> applyOne parse reg sf pf p (the (files p)) s = (s, None)"
    using Cons.prems [of p] d by (cases "ds_Enabled d") (simp_all add: desired_def applyOne_def)
  with Cons show ?case
    by (auto simp: Let_def)
qed simp

section \<open>Properties\<close>


text \<open>A descriptor changed under a started host: the component it had deployed is replaced by the one of the new descriptor.\<close>

definition demo_parse :: "bytes \<Rightarrow> bytes + descriptor" where
  "demo_parse raw = Inr \<lparr>ds_Name = [7], ds_Type = [9], ds_Enabled = True, ds_Config = raw\<rparr>"

definition demo_registry :: "bytes registry" where
  "demo_registry = [[9] \<mapsto> \<lambda>name cfg. Inr \<lparr>c_Name = name, c_id = length cfg\<rparr>]"

definition demo_deployed :: "applied \<times> host" where
  "demo_deployed = ([[100] \<mapsto> \<lparr>dst_name = [7], dst_raw = [1]\<rparr>],
     \<lparr>h_order = [[7]], h_comps = [[7] \<mapsto> \<lparr>c_Name = [7], c_id = 1\<rparr>], h_running = {[7]}, h_started = True, h_trace = [EvStart [7] True]\<rparr>)"


text \<open>C38: a host that supervises a deployer can block for ever in \<open>Stop\<close>.  A state is reachable in which
  \<open>Stop\<close> holds the host's mutex and waits for the rescan loop, while the loop waits for the mutex; no step is
  possible from it.\<close>

theorem host_stop_deadlock:
  "\<exists>l. lock_step\<^sup>*\<^sup>* lock_init l \<and> ls_stop l = StopWaitsLoop \<and> ls_loop l = LoopWantsHost \<and> \<not> (\<exists>l'. lock_step l l')"
proof (intro exI conjI)
  let ?l1 = "lock_init\<lparr>ls_loop := LoopWantsHost\<rparr>"
  let ?l2 = "?l1\<lparr>ls_mu := True, ls_stop := StopLocked\<rparr>"
  let ?l = "?l2\<lparr>ls_cancelled := True, ls_stop := StopWaitsLoop\<rparr>"
  have "lock_step lock_init ?l1" using loop_step.change [of lock_init] by (simp add: lock_step_def lock_init_def)
  moreover have "lock_step ?l1 ?l2" using stop_step.lock [of ?l1] by (simp add: lock_step_def lock_init_def)
  moreover have "lock_step ?l2 ?l" using stop_step.cancel [of ?l2] by (simp add: lock_step_def lock_init_def)
  ultimately show "lock_step\<^sup>*\<^sup>* lock_init ?l" by (meson rtranclp.rtrancl_into_rtrancl rtranclp.rtrancl_refl)
  show "\<not> (\<exists>l'. lock_step ?l l')"
    by (auto simp: lock_init_def lock_step_def elim: loop_stepE stop_stepE)
qed (simp_all add: lock_init_def)

end
