(* ===== verification/Loader.thy ===== *)
theory Loader
  imports Packager "HOL-Library.Multiset"
begin

text \<open>
  The generic schema loader, \<^verbatim>\<open>src/packager/generic.go\<close>, from the decoded document on: decoding the
  JSON text is an argument of \<open>Load\<close>. Go iterates the maps of the document in no fixed order; they are
  association lists here, and a property states that the order of the fields does not matter.
\<close>

subsection \<open>The document\<close>

record bitmapConfig =
  bc_Codec :: bytes
  bc_Levels :: int

record tagConfig =
  tc_Name :: bytes
  tc_Codec :: bytes
  tc_Max :: int

record fieldConfig =
  fc_Name :: bytes
  fc_Codec :: bytes
  fc_Length :: bytes
  fc_Max :: int
  fc_Scale :: nat
  fc_Composite :: bytes

record compositeConfig =
  cc_Type :: bytes
  cc_Bitmap :: "bitmapConfig option"
  cc_Tags :: "(bytes \<times> tagConfig) list"
  cc_Fields :: "(bytes \<times> fieldConfig) list"

record schemaConfig =
  sc_ID :: bytes
  sc_MTI :: bytes
  sc_Bitmap :: bitmapConfig
  sc_Composites :: "(bytes \<times> compositeConfig) list"
  sc_Fields :: "(bytes \<times> fieldConfig) list"

datatype load_error =
    ErrParseSchema bytes | UnknownMTI bytes | UnknownBitmap bytes | BadKey bytes | UnknownLength bytes
  | UnknownComposite int bytes | UnknownCodec bytes | NoSubBitmap bytes | UnknownType bytes bytes | BadSchema schema_error

datatype composite_kind = KindTLV | KindSubfields

subsection \<open>Resolving names\<close>

definition resolveLength :: "registry \<Rightarrow> bytes \<Rightarrow> load_error + length_codec option" where
  "resolveLength reg name =
     (if name = [] \<or> name = bytes_of ''len.fixed'' then Inr None
      else case LookupLength reg name of None \<Rightarrow> Inl (UnknownLength name) | Some l \<Rightarrow> Inr (Some l))"

definition field_opts :: "fieldConfig \<Rightarrow> field_opt list" where
  "field_opts fc = [opt_MaxLen (fc_Max fc)] @ (if fc_Scale fc > 0 then [opt_Scale (fc_Scale fc)] else [])"

text \<open>The definition that one scalar field of a document adds; the same steps in both loops.\<close>

definition scalar_field :: "registry \<Rightarrow> bytes \<times> fieldConfig \<Rightarrow> load_error + (schema_builder \<Rightarrow> schema_builder)" where
  "scalar_field reg e = (case parse_int 64 (fst e) of
       Inl _ \<Rightarrow> Inl (BadKey (fst e))
     | Inr de \<Rightarrow> (case resolveLength reg (fc_Length (snd e)) of
           Inl err \<Rightarrow> Inl err
         | Inr l \<Rightarrow> (case registry_Lookup reg (fc_Codec (snd e)) of
               None \<Rightarrow> Inl (UnknownCodec (fc_Codec (snd e)))
             | Some c \<Rightarrow> Inr (\<lambda>b. b_Field b de (fc_Name (snd e)) (Some c) l (field_opts (snd e))))))"

definition config_field :: "registry \<Rightarrow> (bytes \<rightharpoonup> schema \<times> composite_kind) \<Rightarrow> bytes \<times> fieldConfig
    \<Rightarrow> load_error + (schema_builder \<Rightarrow> schema_builder)" where
  "config_field reg subs e =
     (if fc_Composite (snd e) = [] then scalar_field reg e
      else case parse_int 64 (fst e) of
        Inl _ \<Rightarrow> Inl (BadKey (fst e))
      | Inr de \<Rightarrow> (case resolveLength reg (fc_Length (snd e)) of
            Inl err \<Rightarrow> Inl err
          | Inr l \<Rightarrow> (case subs (fc_Composite (snd e)) of
                None \<Rightarrow> Inl (UnknownComposite de (fc_Composite (snd e)))
              | Some (cs, k) \<Rightarrow> Inr (\<lambda>b. b_Composite b de (fc_Name (snd e)) (Some cs) l
                  [WithCodec (Some (case k of KindTLV \<Rightarrow> BerTLV | KindSubfields \<Rightarrow> SubfieldISO))]))))"

definition config_tag :: "registry \<Rightarrow> bytes \<times> tagConfig \<Rightarrow> load_error + (schema_builder \<Rightarrow> schema_builder)" where
  "config_tag reg e = (case registry_Lookup reg (tc_Codec (snd e)) of
       None \<Rightarrow> Inl (UnknownCodec (tc_Codec (snd e)))
     | Some c \<Rightarrow> Inr (\<lambda>b. b_Tag b (fst e) (tc_Name (snd e)) (Some c) (if tc_Max (snd e) > 0 then [opt_MaxLen (tc_Max (snd e))] else [])))"

text \<open>A loop over a map of the document, which returns at the first error.\<close>

fun each :: "('a \<Rightarrow> load_error + (schema_builder \<Rightarrow> schema_builder)) \<Rightarrow> 'a list \<Rightarrow> schema_builder \<Rightarrow> load_error + schema_builder" where
  "each step [] b = Inr b"
| "each step (x # xs) b = (case step x of Inl err \<Rightarrow> Inl err | Inr f \<Rightarrow> each step xs (f b))"

definition finish_build :: "schema_builder \<Rightarrow> load_error + schema" where
  "finish_build b = (case Build b of Inl err \<Rightarrow> Inl (BadSchema err) | Inr s \<Rightarrow> Inr s)"

definition and_then_load :: "load_error + 'a \<Rightarrow> ('a \<Rightarrow> load_error + 'b) \<Rightarrow> load_error + 'b" where
  "and_then_load r f = (case r of Inl err \<Rightarrow> Inl err | Inr x \<Rightarrow> f x)"

subsection \<open>Building\<close>

definition composite_build :: "registry \<Rightarrow> bytes \<Rightarrow> compositeConfig \<Rightarrow> load_error + schema \<times> composite_kind" where
  "composite_build reg i cc =
     (if cc_Type cc = [] \<or> cc_Type cc = bytes_of ''tlv'' then
        and_then_load (and_then_load (each (config_tag reg) (cc_Tags cc) (NewSchema i)) finish_build) (\<lambda>s. Inr (s, KindTLV))
      else if cc_Type cc = bytes_of ''subfields'' then
        (case cc_Bitmap cc of
           None \<Rightarrow> Inl (NoSubBitmap i)
         | Some bc \<Rightarrow> (case LookupBitmap reg (bc_Codec bc) of
               None \<Rightarrow> Inl (UnknownBitmap (bc_Codec bc))
             | Some w \<Rightarrow> and_then_load (and_then_load (each (scalar_field reg) (cc_Fields cc)
                   (b_Bitmap (Headerless (NewSchema i)) \<lparr>BmCodec = Some w, Levels = bc_Levels bc\<rparr>)) finish_build) (\<lambda>s. Inr (s, KindSubfields))))
      else Inl (UnknownType i (cc_Type cc)))"

fun build_composites :: "registry \<Rightarrow> (bytes \<times> compositeConfig) list \<Rightarrow> (bytes \<rightharpoonup> schema \<times> composite_kind)
    \<Rightarrow> load_error + (bytes \<rightharpoonup> schema \<times> composite_kind)" where
  "build_composites reg [] subs = Inr subs"
| "build_composites reg ((i, cc) # ccs) subs = (case composite_build reg i cc of
       Inl err \<Rightarrow> Inl err | Inr r \<Rightarrow> build_composites reg ccs (subs(i \<mapsto> r)))"

definition config_build :: "registry \<Rightarrow> schemaConfig \<Rightarrow> load_error + schema" where
  "config_build reg cfg =
     and_then_load (build_composites reg (sc_Composites cfg) Map.empty) (\<lambda>subs.
       case registry_Lookup reg (sc_MTI cfg) of
         None \<Rightarrow> Inl (UnknownMTI (sc_MTI cfg))
       | Some m \<Rightarrow> (case LookupBitmap reg (bc_Codec (sc_Bitmap cfg)) of
             None \<Rightarrow> Inl (UnknownBitmap (bc_Codec (sc_Bitmap cfg)))
           | Some w \<Rightarrow> and_then_load (each (config_field reg subs) (sc_Fields cfg)
               (b_Bitmap (b_MTI (NewSchema (sc_ID cfg)) (Some m)) \<lparr>BmCodec = Some w, Levels = bc_Levels (sc_Bitmap cfg)\<rparr>)) finish_build))"

definition Load :: "('d \<Rightarrow> bytes + schemaConfig) \<Rightarrow> 'd \<Rightarrow> registry \<Rightarrow> load_error + schema" where
  "Load parse data reg = (case parse data of Inl e \<Rightarrow> Inl (ErrParseSchema e) | Inr cfg \<Rightarrow> config_build reg cfg)"

definition LoadEmbedded :: "('d \<Rightarrow> bytes + schemaConfig) \<Rightarrow> (bytes \<Rightarrow> bytes + 'd) \<Rightarrow> bytes \<Rightarrow> load_error + schema" where
  "LoadEmbedded parse readFile name = (case readFile (bytes_of ''schemadef/'' @ name) of
       Inl e \<Rightarrow> Inl (ErrParseSchema e) | Inr data \<Rightarrow> Load parse data DefaultRegistry)"

subsection \<open>Loops that add definitions\<close>

definition adds :: "('a \<Rightarrow> load_error + (schema_builder \<Rightarrow> schema_builder)) \<Rightarrow> 'a \<Rightarrow> int \<times> field_def \<Rightarrow> bool" where
  "adds step x r \<longleftrightarrow> step x = Inr (\<lambda>b. put_def b (fst r) (snd r))"

abbreviation put_rows :: "(int \<times> field_def) list \<Rightarrow> schema_builder \<Rightarrow> schema_builder" where
  "put_rows rows \<equiv> fold (\<lambda>r b. put_def b (fst r) (snd r)) rows"

lemma each_adds:
  "list_all2 (adds step) xs rows \<Longrightarrow> each step xs b = Inr (put_rows rows b)"
  by (induction arbitrary: b rule: list_all2_induct) (simp_all add: adds_def)

lemma each_rows:
  assumes "each step xs b = Inr b'" "\<forall>x f. step x = Inr f \<longrightarrow> (\<exists>de d. f = (\<lambda>b. put_def b de d))"
  shows "\<exists>rows. list_all2 (adds step) xs rows \<and> b' = put_rows rows b"
  using assms(1)
proof (induction xs arbitrary: b)
  case (Cons x xs)
  then obtain f where f: "step x = Inr f" "each step xs (f b) = Inr b'"
    by (auto split: sum.splits)
  obtain de d where d: "f = (\<lambda>b. put_def b de d)" using assms(2) f(1) by blast
  obtain rows where "list_all2 (adds step) xs rows" "b' = put_rows rows (f b)"
    using Cons.IH [OF f(2)] by blast
  moreover have "adds step x (de, d)" using f(1) d by (simp add: adds_def)
  ultimately show ?case
    using d by (intro exI [of _ "(de, d) # rows"]) simp
qed simp

lemma scalar_field_adds: "scalar_field reg e = Inr f \<Longrightarrow> \<exists>de d. f = (\<lambda>b. put_def b de d)"
  by (auto simp: scalar_field_def b_Field_def split: sum.splits option.splits)

lemma config_field_adds: "config_field reg subs e = Inr f \<Longrightarrow> \<exists>de d. f = (\<lambda>b. put_def b de d)"
  using scalar_field_adds by (fastforce simp: config_field_def b_Composite_def split: if_splits sum.splits option.splits)

text \<open>Without a reported duplicate, the rows have distinct elements.\<close>

lemma put_def_keys: "fst ` set (b_defs (put_def b de d)) = insert de (fst ` set (b_defs b))"
  by (auto simp: put_def_def Let_def dom_update [unfolded dom_def])

lemma put_rows_errs:
  "b_errs (put_rows rows b) = [] \<Longrightarrow> b_errs b = [] \<and> distinct (map fst rows) \<and> fst ` set rows \<inter> fst ` set (b_defs b) = {}"
proof (induction rows arbitrary: b)
  case (Cons r rows)
  have IH: "b_errs (put_def b (fst r) (snd r)) = [] \<and> distinct (map fst rows) \<and>
      fst ` set rows \<inter> fst ` set (b_defs (put_def b (fst r) (snd r))) = {}"
    by (rule Cons.IH) (use Cons.prems in simp)
  then have "fst r \<notin> fst ` set (b_defs b)" "b_errs b = []"
    by (auto simp: put_def_def Let_def map_of_eq_None_iff split: if_splits)
  with IH show ?case by (auto simp: put_def_keys)
qed simp

lemma put_rows_distinct:
  "distinct (map fst rows) \<Longrightarrow> fst ` set rows \<inter> fst ` set (b_defs b) = {} \<Longrightarrow> put_rows rows b = b\<lparr>b_defs := b_defs b @ rows\<rparr>"
  using fold_put_def [of fst rows b snd] by simp

text \<open>Building does not depend on the order of the rows.\<close>

lemma Build_rows_perm:
  assumes "b_defs b = []" "Build (put_rows rows b) = Inr s" "mset rows' = mset rows"
  shows "Build (put_rows rows' b) = Inr s"
proof -
  have errs: "build_errors (put_rows rows b) = []" by (rule Build_errors [OF assms(2)])
  then have "b_errs (put_rows rows b) = []" by (simp add: build_errors_def)
  from put_rows_errs [OF this] have d: "distinct (map fst rows)" by simp
  have set: "set rows' = set rows" using assms(3) by (metis set_mset_mset)
  have "mset (map fst rows') = mset (map fst rows)" using assms(3) by simp
  then have d': "distinct (map fst rows')" using d by (metis mset_eq_imp_distinct_iff)
  have eqs: "put_rows rows b = b\<lparr>b_defs := rows\<rparr>" "put_rows rows' b = b\<lparr>b_defs := rows'\<rparr>"
    using put_rows_distinct [OF d, of b] put_rows_distinct [OF d', of b] assms(1) by simp_all
  have map: "map_of rows' = map_of rows" using map_of_inject_set [OF d' d] set by simp
  have ok: "list_all def_ok rows" using Build_ok(1) [OF assms(2)] by (simp add: eqs)
  then have ok': "list_all def_ok rows'" by (simp add: list_all_iff set)
  have mx: "snd (build_defs rows' 0) = snd (build_defs rows 0)" by (rule max_unique [OF ok' ok]) (simp add: set)
  have "build_errors (put_rows rows' b) = []"
    using errs ok ok' by (simp add: build_errors_def eqs build_defs_errs split del: if_split cong: if_cong)
  then show ?thesis
    using assms(2) errs by (simp add: Build_def Let_def eqs map mx)
qed

text \<open>Nor does what the composites resolve to.\<close>

definition built_as :: "registry \<Rightarrow> bytes \<times> compositeConfig \<Rightarrow> bytes \<times> schema \<times> composite_kind \<Rightarrow> bool" where
  "built_as reg e p \<longleftrightarrow> fst p = fst e \<and> composite_build reg (fst e) (snd e) = (Inr (snd p))"

definition record_sub :: "bytes \<times> schema \<times> composite_kind \<Rightarrow> (bytes \<rightharpoonup> schema \<times> composite_kind) \<Rightarrow> (bytes \<rightharpoonup> schema \<times> composite_kind)" where
  "record_sub p m = m(fst p \<mapsto> snd p)"

lemma build_composites_iff:
  "build_composites reg ccs subs = (Inr subs') \<longleftrightarrow>
    (\<exists>ps. list_all2 (\<lambda>e p. built_as reg e p) ccs ps \<and> subs' = fold record_sub ps subs)"
proof (induction ccs arbitrary: subs)
  case (Cons e ccs)
  obtain i cc where e: "e = (i, cc)" by fastforce
  show ?case
  proof (cases "composite_build reg i cc")
    case (Inl err)
    then show ?thesis by (auto simp: e built_as_def list_all2_Cons1)
  next
    case (Inr r)
    then have one: "built_as reg e p \<longleftrightarrow> p = (i, r)" for p
      by (cases p) (auto simp: built_as_def e)
    have "build_composites reg (e # ccs) subs = (Inr subs') \<longleftrightarrow>
        build_composites reg ccs (record_sub (i, r) subs) = (Inr subs')"
      using Inr by (simp add: e record_sub_def del: fun_upd_apply)
    moreover have "(\<exists>ps. list_all2 (\<lambda>e p. built_as reg e p) (e # ccs) ps \<and> subs' = fold record_sub ps subs) \<longleftrightarrow>
        (\<exists>ps. list_all2 (\<lambda>e p. built_as reg e p) ccs ps \<and> subs' = fold record_sub ps (record_sub (i, r) subs))"
    proof
      assume "\<exists>ps. list_all2 (\<lambda>e p. built_as reg e p) (e # ccs) ps \<and> subs' = fold record_sub ps subs"
      then show "\<exists>ps. list_all2 (\<lambda>e p. built_as reg e p) ccs ps \<and> subs' = fold record_sub ps (record_sub (i, r) subs)"
        unfolding list_all2_Cons1 one by (auto simp del: split_paired_Ex)
    next
      assume "\<exists>ps. list_all2 (\<lambda>e p. built_as reg e p) ccs ps \<and> subs' = fold record_sub ps (record_sub (i, r) subs)"
      then obtain ps where "list_all2 (\<lambda>e p. built_as reg e p) ccs ps" "subs' = fold record_sub ps (record_sub (i, r) subs)"
        by blast
      then show "\<exists>ps. list_all2 (\<lambda>e p. built_as reg e p) (e # ccs) ps \<and> subs' = fold record_sub ps subs"
        by (intro exI [of _ "(i, r) # ps"]) (simp add: one)
    qed
    ultimately show ?thesis
      unfolding Cons.IH by blast
  qed
qed auto

lemma fold_updates: "distinct (map fst ps) \<Longrightarrow> fold record_sub ps m = m ++ map_of ps"
proof (induction ps arbitrary: m)
  case (Cons p ps)
  then have p: "fst p \<notin> dom (map_of ps)" by (simp add: dom_map_of_conv_image_fst)
  have "record_sub p m ++ map_of ps = m ++ map_of (p # ps)"
    using p by (intro ext) (auto simp: record_sub_def map_add_def split: option.split)
  moreover have "fold record_sub (p # ps) m = record_sub p m ++ map_of ps" using Cons by simp
  ultimately show ?case by (simp only:)
qed simp

lemma build_composites_perm:
  assumes "build_composites reg ccs Map.empty = (Inr subs)" "mset ccs' = mset ccs" "distinct (map fst ccs)"
  shows "build_composites reg ccs' Map.empty = (Inr subs)"
proof -
  obtain ps where ps: "list_all2 (\<lambda>e p. built_as reg e p) ccs ps" "subs = fold record_sub ps Map.empty"
    using assms(1) unfolding build_composites_iff by blast
  obtain ps' where ps': "list_all2 (\<lambda>e p. built_as reg e p) ccs' ps'" "mset ps' = mset ps"
    using list_all2_reorder_left_invariance [OF ps(1) assms(2)] by blast
  have "map fst ps = map fst ccs"
    using ps(1) by (induction rule: list_all2_induct) (auto simp: built_as_def)
  then have d: "distinct (map fst ps)" using assms(3) by simp
  have "mset (map fst ps') = mset (map fst ps)" using ps'(2) by simp
  then have d': "distinct (map fst ps')" using d by (metis mset_eq_imp_distinct_iff)
  have "set ps' = set ps" using ps'(2) by (metis set_mset_mset)
  then have "map_of ps' = map_of ps" using map_of_inject_set [OF d' d] by simp
  then have "subs = fold record_sub ps' Map.empty" using ps(2) by (simp add: fold_updates d d')
  with ps'(1) show ?thesis unfolding build_composites_iff by blast
qed

lemma and_then_load_Inr: "and_then_load r f = Inr y \<longleftrightarrow> (\<exists>x. r = Inr x \<and> f x = Inr y)"
  by (simp add: and_then_load_def split: sum.split)

lemma finish_build_Inr: "finish_build b = Inr s \<longleftrightarrow> Build b = Inr s"
  by (simp add: finish_build_def split: sum.split)

subsection \<open>The programmatic layouts as documents\<close>

definition post_config :: "postField \<Rightarrow> bytes \<times> fieldConfig" where
  "post_config f = (fmt_int (pf_de f),
     \<lparr>fc_Name = pf_name f, fc_Codec = codec_Name (pf_value f), fc_Length = (case pf_length f of None \<Rightarrow> [] | Some l \<Rightarrow> length_Name l),
      fc_Max = pf_max f, fc_Scale = 0, fc_Composite = []\<rparr>)"

definition switch_config :: "bytes \<Rightarrow> field_codec \<Rightarrow> word_repr \<Rightarrow> postField list \<Rightarrow> bytes \<Rightarrow> word_repr \<Rightarrow> int \<Rightarrow> postField list \<Rightarrow> schemaConfig" where
  "switch_config i mt w tbl j w' levels tbl' =
     \<lparr>sc_ID = i, sc_MTI = codec_Name mt, sc_Bitmap = \<lparr>bc_Codec = repr_name w, bc_Levels = 2\<rparr>,
      sc_Composites = [(j, \<lparr>cc_Type = bytes_of ''subfields'', cc_Bitmap = Some \<lparr>bc_Codec = repr_name w', bc_Levels = levels\<rparr>,
        cc_Tags = [], cc_Fields = map post_config tbl'\<rparr>)],
      sc_Fields = map post_config tbl @ [(bytes_of ''127'',
        \<lparr>fc_Name = bytes_of ''RESERVED PRIVATE USE'', fc_Codec = [], fc_Length = length_Name LLLLLLVarASCII, fc_Max = 0, fc_Scale = 0, fc_Composite = j\<rparr>)]\<rparr>"

lemma find_name: "distinct (map f xs) \<Longrightarrow> x \<in> set xs \<Longrightarrow> find (\<lambda>y. f y = f x) xs = Some x"
  by (induction xs) auto

lemma catalog_lookup: "c \<in> set catalog \<Longrightarrow> registry_Lookup DefaultRegistry (codec_Name c) = Some c"
  using DefaultRegistry_complete [of "codec_Name c"] find_name [of codec_Name catalog c] by simp

lemma length_lookup: "l \<in> set All_lengths \<Longrightarrow> LookupLength DefaultRegistry (length_Name l) = Some l"
  using DefaultRegistry_complete [of "length_Name l"] find_name [of length_Name All_lengths l] by simp

lemma bitmap_lookup: "LookupBitmap DefaultRegistry (repr_name w) = Some w"
proof -
  have "list_all (\<lambda>w. LookupBitmap DefaultRegistry (repr_name w) = Some w) [BinWord, HexWord, EbcdicWord]" by code_simp
  then show ?thesis by (cases w) simp_all
qed

lemma resolve_length:
  assumes "l \<in> set All_lengths" "l \<noteq> Fixed"
  shows "resolveLength DefaultRegistry (length_Name l) = Inr (Some l)"
proof -
  have names: "length_Name Fixed = bytes_of ''len.fixed''" "Fixed \<in> set All_lengths" by (simp_all add: length_Name_def All_lengths_def)
  have "length_Name l \<noteq> bytes_of ''len.fixed''"
    using assms names DefaultRegistry_complete [of "[]"] by (metis distinct_map inj_onD)
  moreover have "list_all (\<lambda>l. length_Name l \<noteq> []) All_lengths" by code_simp
  ultimately show ?thesis
    using length_lookup [OF assms(1)] assms(1) by (auto simp: resolveLength_def list_all_iff)
qed

text \<open>The rows of the layouts: codecs of the catalog, and elements that print and parse.\<close>

lemma fmt_parse: "0 \<le> n \<Longrightarrow> n < 2 ^ 63 \<Longrightarrow> parse_int 64 (fmt_int n) = Inr n"
proof -
  assume n: "0 \<le> n" "n < 2 ^ 63"
  then have "nat n < 2 ^ (64 - 1)" by (simp add: nat_less_iff)
  then show ?thesis
    using parse_int_digits [of "fmt_nat (nat n)" 64] fmt_nat_digits [of "nat n"] n by (simp add: fmt_int_def)
qed

definition in_catalog :: "postField \<Rightarrow> bool" where
  "in_catalog f \<longleftrightarrow> pf_value f \<in> set catalog \<and> pf_length f \<noteq> Some Fixed"

lemma post_field_adds:
  assumes "post_ok f" "in_catalog f"
  shows "adds (scalar_field DefaultRegistry) (post_config f) (pf_de f, post_def f)"
proof -
  define ln' where "ln' = fc_Length (snd (post_config f))"
  have l: "resolveLength DefaultRegistry ln' = Inr (pf_length f)"
  proof (cases "pf_length f")
    case None
    then show ?thesis by (simp add: ln'_def post_config_def resolveLength_def)
  next
    case (Some l)
    then have "l \<in> set All_lengths" "l \<noteq> Fixed"
      using assms by (simp_all add: post_ok_def in_catalog_def prefix_room_def)
    from resolve_length [OF this] Some show ?thesis by (simp add: ln'_def post_config_def)
  qed
  have "parse_int 64 (fmt_int (pf_de f)) = Inr (pf_de f)"
    using assms(1) by (intro fmt_parse) (simp_all add: post_ok_def)
  moreover have "registry_Lookup DefaultRegistry (codec_Name (pf_value f)) = Some (pf_value f)"
    using assms(2) by (intro catalog_lookup) (simp add: in_catalog_def)
  moreover have "post_config f = (fmt_int (pf_de f), \<lparr>fc_Name = pf_name f, fc_Codec = codec_Name (pf_value f), fc_Length = ln',
      fc_Max = pf_max f, fc_Scale = 0, fc_Composite = []\<rparr>)"
    by (simp add: post_config_def ln'_def)
  ultimately show ?thesis
    by (simp add: adds_def scalar_field_def l b_Field_def field_opts_def post_def_def kindOf_def)
qed

lemma post_table_adds:
  assumes "list_all post_ok tbl" "list_all in_catalog tbl"
  shows "list_all2 (adds (scalar_field DefaultRegistry)) (map post_config tbl) (map (\<lambda>f. (pf_de f, post_def f)) tbl)"
  using assms by (induction tbl) (simp_all add: post_field_adds)

lemma scalar_config: "fc_Composite (snd e) = [] \<Longrightarrow> 
    adds (config_field reg subs) e r = adds (scalar_field reg) e r"
  by (simp add: adds_def config_field_def)

lemma put_rows_post: "put_rows (map (\<lambda>f. (pf_de f, post_def f)) tbl) b = fold add_post tbl b"
  by (simp add: fold_map add_post_put comp_def)

lemma sub_config_build:
  assumes "list_all post_ok tbl" "list_all in_catalog tbl" "MustBuild (sub_builder j w levels tbl) = Some cs"
  shows "composite_build DefaultRegistry j \<lparr>cc_Type = bytes_of ''subfields'', cc_Bitmap = Some \<lparr>bc_Codec = repr_name w, bc_Levels = levels\<rparr>,
    cc_Tags = [], cc_Fields = map post_config tbl\<rparr> = Inr (cs, KindSubfields)"
proof -
  have types: "bytes_of ''subfields'' \<noteq> []" "bytes_of ''subfields'' \<noteq> bytes_of ''tlv''" by code_simp+
  let ?b = "b_Bitmap (Headerless (NewSchema j)) \<lparr>BmCodec = Some w, Levels = levels\<rparr>"
  have "each (scalar_field DefaultRegistry) (map post_config tbl) ?b = Inr (sub_builder j w levels tbl)"
    using each_adds [OF post_table_adds [OF assms(1,2)], of ?b] by (simp add: put_rows_post sub_builder_def)
  then show ?thesis
    using assms(3) types by (simp add: composite_build_def bitmap_lookup and_then_load_def finish_build_def MustBuild_Some)
qed

lemma switch_config_build:
  assumes "mt \<in> set catalog" "list_all post_ok tbl" "list_all in_catalog tbl" "list_all post_ok tbl'" "list_all in_catalog tbl'"
    and cs: "MustBuild (sub_builder j w' levels tbl') = Some cs" and "j \<noteq> []"
  shows "config_build DefaultRegistry (switch_config i mt w tbl j w' levels tbl') = finish_build (switch_builder i mt w tbl (Some cs))"
proof -
  let ?subs = "[j \<mapsto> (cs, KindSubfields)]"
  let ?b = "b_Bitmap (b_MTI (NewSchema i) (Some mt)) \<lparr>BmCodec = Some w, Levels = 2\<rparr>"
  let ?e = "(bytes_of ''127'', \<lparr>fc_Name = bytes_of ''RESERVED PRIVATE USE'', fc_Codec = [], fc_Length = length_Name LLLLLLVarASCII, fc_Max = 0,
    fc_Scale = 0, fc_Composite = j\<rparr>)"
  define d where "d = applyOpts (new_def (DE 127) (bytes_of ''RESERVED PRIVATE USE'') KindComposite None pLLLLLL (Some cs)) [WithCodec (Some SubfieldISO)]"
  have "parse_int 64 (bytes_of ''127'') = Inr 127" by code_simp
  moreover have "resolveLength DefaultRegistry (length_Name LLLLLLVarASCII) = Inr pLLLLLL"
    unfolding pLLLLLL_def by (rule resolve_length) (simp_all add: All_lengths_def LLLLLLVarASCII_def)
  ultimately have last: "adds (config_field DefaultRegistry ?subs) ?e (127, d)"
    using assms(7) by (simp add: adds_def config_field_def b_Composite_def d_def)
  have "list_all2 (adds (config_field DefaultRegistry ?subs)) (map post_config tbl) (map (\<lambda>f. (pf_de f, post_def f)) tbl)"
    using post_table_adds [OF assms(2,3)] by (simp add: list_all2_map1 list_all2_map2 scalar_config post_config_def)
  with last have rows: "list_all2 (adds (config_field DefaultRegistry ?subs)) (map post_config tbl @ [?e]) (map (\<lambda>f. (pf_de f, post_def f)) tbl @ [(127, d)])"
    by (intro list_all2_appendI) simp_all
  have "put_rows (map (\<lambda>f. (pf_de f, post_def f)) tbl @ [(127, d)]) ?b = switch_builder i mt w tbl (Some cs)"
    using put_rows_post [of tbl ?b] by (simp add: switch_builder_def b_Composite_def d_def)
  then have "each (config_field DefaultRegistry ?subs) (map post_config tbl @ [?e]) ?b = Inr (switch_builder i mt w tbl (Some cs))"
    using each_adds [OF rows, of ?b] by (simp only:)
  moreover have "build_composites DefaultRegistry (sc_Composites (switch_config i mt w tbl j w' levels tbl')) Map.empty = Inr ?subs"
    using sub_config_build [OF assms(4,5) cs] by (simp add: switch_config_def)
  ultimately show ?thesis
    using catalog_lookup [OF assms(1)] by (simp add: config_build_def switch_config_def and_then_load_def bitmap_lookup)
qed

lemma tables_in_catalog:
  "list_all in_catalog postilionFields" "list_all in_catalog postilionSub127" "list_all in_catalog coralpayFields"
  "list_all in_catalog coralpaySub127" "list_all in_catalog zoneFields" "list_all in_catalog zoneSub127"
proof -
  have codecs: "in_catalog (postField_of de nm v l mx) \<longleftrightarrow> v \<in> set catalog \<and> l \<noteq> Some Fixed" for de nm v l mx
    by (simp add: in_catalog_def postField_of_def)
  have vs: "pNum \<in> set catalog" "pChr \<in> set catalog" "pBin \<in> set catalog" "pHex \<in> set catalog"
    by (simp_all add: pNum_def pChr_def pBin_def pHex_def catalog_def)
  have ls: "pFix \<noteq> Some Fixed" "pLL \<noteq> Some Fixed" "pLLL \<noteq> Some Fixed" "pLLLL \<noteq> Some Fixed" "pLLLLL \<noteq> Some Fixed"
    by (simp_all add: pFix_def pLL_def pLLL_def pLLLL_def pLLLLL_def catalog_defs)
  show "list_all in_catalog postilionFields" "list_all in_catalog postilionSub127" "list_all in_catalog coralpayFields"
    "list_all in_catalog coralpaySub127" "list_all in_catalog zoneFields" "list_all in_catalog zoneSub127"
    by (simp_all add: postilionFields_def postilionSub127_def coralpayFields_def coralpaySub127_def zoneFields_def zoneSub127_def codecs vs ls)
qed

lemma switch_loads:
  assumes "p = Option.bind (MustBuild (sub_builder j w' levels tbl')) (\<lambda>cs. MustBuild (switch_builder i mt w tbl (Some cs)))"
    and "mt \<in> set catalog" "list_all post_ok tbl" "list_all in_catalog tbl" "distinct (map pf_de tbl)"
    and "list_all post_ok tbl'" "list_all in_catalog tbl'" "distinct (map pf_de tbl')" "i \<noteq> []" "j \<noteq> []" "1 \<le> levels" "levels \<le> 3"
  shows "\<exists>s. p = Some s \<and> config_build DefaultRegistry (switch_config i mt w tbl j w' levels tbl') = Inr s"
proof -
  obtain cs where cs: "MustBuild (sub_builder j w' levels tbl') = Some cs"
    using sub_builder_built [OF assms(10-12) assms(6,8)] by blast
  have "profile_builder (switch_builder i mt w tbl (Some cs))"
    by (rule switch_builder_profile [OF assms(9,3,5)])
  then obtain s where s: "Build (switch_builder i mt w tbl (Some cs)) = Inr s"
    using Build_no_errors by (auto simp: profile_builder_def)
  have "p = Some s" unfolding assms(1) cs using s by (simp add: MustBuild_Some)
  moreover have "config_build DefaultRegistry (switch_config i mt w tbl j w' levels tbl') = Inr s"
    using switch_config_build [OF assms(2-4,6,7) cs assms(10)] s by (simp add: finish_build_Inr)
  ultimately show ?thesis by blast
qed

subsection \<open>Properties\<close>


text \<open>Loading is deterministic although Go ranges over the document's maps in no fixed order: a document
  that loads, loads to the same schema with its fields and its composites in any other order.\<close>

theorem load_order_irrelevant:
  assumes "config_build reg cfg = Inr s" "distinct (map fst (sc_Composites cfg))"
    and "mset fs = mset (sc_Fields cfg)" "mset ccs = mset (sc_Composites cfg)"
  shows "config_build reg (cfg\<lparr>sc_Fields := fs, sc_Composites := ccs\<rparr>) = Inr s"
proof -
  obtain subs where subs: "build_composites reg (sc_Composites cfg) Map.empty = (Inr subs)"
    using assms(1) by (auto simp: config_build_def and_then_load_Inr)
  obtain m w where mw: "registry_Lookup reg (sc_MTI cfg) = Some m" "LookupBitmap reg (bc_Codec (sc_Bitmap cfg)) = Some w"
    using assms(1) subs by (auto simp: config_build_def and_then_load_def split: option.splits)
  let ?b = "b_Bitmap (b_MTI (NewSchema (sc_ID cfg)) (Some m)) \<lparr>BmCodec = Some w, Levels = bc_Levels (sc_Bitmap cfg)\<rparr>"
  have "and_then_load (each (config_field reg subs) (sc_Fields cfg) ?b) finish_build = (Inr s)"
    using assms(1) subs mw by (simp add: config_build_def and_then_load_def)
  then obtain b' where b': "each (config_field reg subs) (sc_Fields cfg) ?b = (Inr b')" "Build b' = Inr s"
    by (auto simp: and_then_load_Inr finish_build_Inr)
  obtain rows where rows: "list_all2 (adds (config_field reg subs)) (sc_Fields cfg) rows" "b' = put_rows rows ?b"
    using each_rows [OF b'(1)] config_field_adds by blast
  obtain rows' where rows': "list_all2 (adds (config_field reg subs)) fs rows'" "mset rows' = mset rows"
    using list_all2_reorder_left_invariance [OF rows(1) assms(3)] by blast
  have "b_defs ?b = []" by (simp add: b_Bitmap_def b_MTI_def NewSchema_def)
  from Build_rows_perm [OF this b'(2) [unfolded rows(2)] rows'(2)]
  have "and_then_load (each (config_field reg subs) fs ?b) finish_build = (Inr s)"
    using each_adds [OF rows'(1), of ?b] by (simp add: and_then_load_Inr finish_build_Inr)
  then show ?thesis
    using build_composites_perm [OF subs assms(4,2)] mw by (simp add: config_build_def and_then_load_def)
qed

theorem load_order_irrelevant_witness:
  "\<exists>s. Zone = Some s \<and> config_build DefaultRegistry
     ((switch_config (bytes_of ''zone'') NumASCII BinWord zoneFields (bytes_of ''zone-127'') BinWord 1 zoneSub127)
       \<lparr>sc_Fields := rev (sc_Fields (switch_config (bytes_of ''zone'') NumASCII BinWord zoneFields (bytes_of ''zone-127'') BinWord 1 zoneSub127)),
        sc_Composites := sc_Composites (switch_config (bytes_of ''zone'') NumASCII BinWord zoneFields (bytes_of ''zone-127'') BinWord 1 zoneSub127)\<rparr>)
     = Inr s"
proof -
  let ?cfg = "switch_config (bytes_of ''zone'') NumASCII BinWord zoneFields (bytes_of ''zone-127'') BinWord 1 zoneSub127"
  have "NumASCII \<in> set catalog" by (simp add: catalog_def)
  then obtain s where s: "Zone = Some s" "config_build DefaultRegistry ?cfg = Inr s"
    using switch_loads [OF Zone_def _ zone_ok(1) tables_in_catalog(5) zone_ok(2,3) tables_in_catalog(6) zone_ok(4)] bytes_of_not_Nil by force
  have "distinct (map fst (sc_Composites ?cfg))" by (simp add: switch_config_def)
  from load_order_irrelevant [OF s(2) this, of "rev (sc_Fields ?cfg)" "sc_Composites ?cfg"] s(1) show ?thesis by simp
qed

end
