(* ===== verification/Connector.thy ===== *)
theory Connector
imports Prelude
begin

text \<open>The connector, \<^verbatim>\<open>src/connector/connector.go\<close>: a supervised connection to a remote switch that is
  re-established when it drops.  A supervisor goroutine dials, runs the sign-on hook, publishes the
  multiplexer, serves it and reconnects; \<open>Stop\<close> cancels it and waits.  The state has the published
  multiplexer, the multiplexers that are open, and one program counter per supervisor; the step relation
  interleaves the supervisors with the client and with connections that die on their own.  Dialling and the
  hooks are the network's and the client's code, so every outcome of them is a step.\<close>

section \<open>Configuration and backoff\<close>

text \<open>A \<open>time.Duration\<close> is a signed 64-bit integer.\<close>

type_synonym duration = "64 word"

record conn_config =
  cf_Name :: bytes
  cf_Network :: bytes
  cf_Addr :: bytes
  cf_Keyer :: bool
  cf_MinBackoff :: duration
  cf_MaxBackoff :: duration
  cf_Keepalive :: bool

datatype conn_error = ErrNotConnected | ErrConnClosed | ErrNameRequired | ErrAddrRequired | ErrKeyerRequired

definition connector_New :: "conn_config \<Rightarrow> conn_error + conn_config" where
  "connector_New cfg =
     (if cf_Name cfg = [] then Inl ErrNameRequired
      else if cf_Addr cfg = [] then Inl ErrAddrRequired
      else if \<not> cf_Keyer cfg then Inl ErrKeyerRequired
      else let cfg = (if cf_Network cfg = [] then cfg\<lparr>cf_Network := bytes_of ''tcp''\<rparr> else cfg);
               cfg = (if sint (cf_MinBackoff cfg) \<le> 0 then cfg\<lparr>cf_MinBackoff := 250 * 1000000\<rparr> else cfg);
               cfg = (if sint (cf_MaxBackoff cfg) \<le> 0 then cfg\<lparr>cf_MaxBackoff := 30 * 1000000000\<rparr> else cfg)
        in Inr cfg)"

definition nextBackoff :: "duration \<Rightarrow> duration \<Rightarrow> duration" where
  "nextBackoff cur mx = (let cur = cur * 2 in if sint cur > sint mx then mx else cur)"

section \<open>State\<close>

datatype sup_pc =
    SupCheck | SupConnect | SupConnected nat | SupServe nat bool | SupClosing nat | SupUnpublished nat
  | SupSleep | SupReturned

record supervisor =
  sp_pc :: sup_pc
  sp_cancelled :: bool
  sp_backoff :: duration

record connector =
  cn_mux :: "nat option"
  cn_sups :: "supervisor list"
  cn_cancel :: "nat option"
  cn_closed :: bool
  cn_stopping :: bool
  cn_open :: "nat set"
  cn_made :: "nat set"
  cn_signed :: "nat set"

definition connector0 :: connector where
  "connector0 = \<lparr>cn_mux = None, cn_sups = [], cn_cancel = None, cn_closed = False, cn_stopping = False,
     cn_open = {}, cn_made = {}, cn_signed = {}\<rparr>"

section \<open>Client calls\<close>

definition connector_Start :: "conn_config \<Rightarrow> connector \<Rightarrow> connector \<times> conn_error option" where
  "connector_Start cfg c =
     (if cn_closed c then (c, Some ErrConnClosed)
      else (c\<lparr>cn_cancel := Some (length (cn_sups c)),
              cn_sups := cn_sups c @ [\<lparr>sp_pc = SupCheck, sp_cancelled = False, sp_backoff = cf_MinBackoff cfg\<rparr>]\<rparr>, None))"

text \<open>\<open>Stop\<close> up to its wait, and the condition under which the wait ends.\<close>

definition connector_Stop :: "connector \<Rightarrow> connector" where
  "connector_Stop c = c\<lparr>cn_closed := True, cn_stopping := True,
     cn_sups := (case cn_cancel c of None \<Rightarrow> cn_sups c | Some i \<Rightarrow> (cn_sups c)[i := (cn_sups c ! i)\<lparr>sp_cancelled := True\<rparr>])\<rparr>"

definition Stop_returns :: "connector \<Rightarrow> bool" where
  "Stop_returns c \<longleftrightarrow> list_all (\<lambda>s. sp_pc s = SupReturned) (cn_sups c)"

definition connector_Request :: "(nat \<Rightarrow> bytes \<Rightarrow> 'r) \<Rightarrow> connector \<Rightarrow> bytes \<Rightarrow> conn_error + 'r" where
  "connector_Request mux_Request c req = (case cn_mux c of None \<Rightarrow> Inl ErrNotConnected | Some m \<Rightarrow> Inr (mux_Request m req))"

definition connector_Send :: "(nat \<Rightarrow> bytes \<Rightarrow> 'r) \<Rightarrow> connector \<Rightarrow> bytes \<Rightarrow> conn_error + 'r" where
  "connector_Send mux_Send c req = (case cn_mux c of None \<Rightarrow> Inl ErrNotConnected | Some m \<Rightarrow> Inr (mux_Send m req))"

definition Connected :: "connector \<Rightarrow> bool" where
  "Connected c \<longleftrightarrow> cn_mux c \<noteq> None"

section \<open>The supervisor\<close>

text \<open>One step of a supervisor: its state before and after, and the effect on the rest.  \<open>connect\<close> makes
  a multiplexer with a fresh identity once the dial succeeds; when the sign-on hook fails it closes it
  again.  \<open>serve\<close> has a flag for the keepalive in flight.\<close>

inductive sup_step :: "conn_config \<Rightarrow> supervisor \<Rightarrow> connector \<Rightarrow> supervisor \<Rightarrow> connector \<Rightarrow> bool" for cfg where
  check_exit: "sp_pc s = SupCheck \<Longrightarrow> sp_cancelled s \<Longrightarrow> sup_step cfg s c (s\<lparr>sp_pc := SupReturned\<rparr>) c"
| check_go: "sp_pc s = SupCheck \<Longrightarrow> \<not> sp_cancelled s \<Longrightarrow> sup_step cfg s c (s\<lparr>sp_pc := SupConnect\<rparr>) c"
| dial_fail: "sp_pc s = SupConnect \<Longrightarrow>
    sup_step cfg s c (s\<lparr>sp_pc := if sp_cancelled s then SupReturned else SupSleep\<rparr>) c"
| signon_fail: "sp_pc s = SupConnect \<Longrightarrow> m \<notin> cn_made c \<Longrightarrow>
    sup_step cfg s c (s\<lparr>sp_pc := if sp_cancelled s then SupReturned else SupSleep\<rparr>) (c\<lparr>cn_made := insert m (cn_made c)\<rparr>)"
| connected: "sp_pc s = SupConnect \<Longrightarrow> m \<notin> cn_made c \<Longrightarrow>
    sup_step cfg s c (s\<lparr>sp_pc := SupConnected m\<rparr>)
      (c\<lparr>cn_made := insert m (cn_made c), cn_open := insert m (cn_open c), cn_signed := insert m (cn_signed c)\<rparr>)"
| publish: "sp_pc s = SupConnected m \<Longrightarrow> sup_step cfg s c (s\<lparr>sp_pc := SupServe m False\<rparr>) (c\<lparr>cn_mux := Some m\<rparr>)"
| serve_cancelled: "sp_pc s = SupServe m ka \<Longrightarrow> sp_cancelled s \<Longrightarrow> sup_step cfg s c (s\<lparr>sp_pc := SupClosing m\<rparr>) c"
| serve_down: "sp_pc s = SupServe m ka \<Longrightarrow> m \<notin> cn_open c \<Longrightarrow> sup_step cfg s c (s\<lparr>sp_pc := SupClosing m\<rparr>) c"
| keepalive_tick: "sp_pc s = SupServe m ka \<Longrightarrow> cf_Keepalive cfg \<Longrightarrow> sup_step cfg s c (s\<lparr>sp_pc := SupServe m True\<rparr>) c"
| keepalive_ok: "sp_pc s = SupServe m True \<Longrightarrow> sup_step cfg s c (s\<lparr>sp_pc := SupServe m False\<rparr>) c"
| keepalive_fail: "sp_pc s = SupServe m True \<Longrightarrow> sup_step cfg s c (s\<lparr>sp_pc := SupClosing m\<rparr>) c"
| unpublish: "sp_pc s = SupClosing m \<Longrightarrow>
    sup_step cfg s c (s\<lparr>sp_pc := SupUnpublished m\<rparr>) (if cn_mux c = Some m then c\<lparr>cn_mux := None\<rparr> else c)"
| close: "sp_pc s = SupUnpublished m \<Longrightarrow> b = sp_backoff s \<or> b = cf_MinBackoff cfg \<Longrightarrow>
    sup_step cfg s c (s\<lparr>sp_pc := if sp_cancelled s then SupReturned else SupSleep, sp_backoff := b\<rparr>) (c\<lparr>cn_open := cn_open c - {m}\<rparr>)"
| sleep_over: "sp_pc s = SupSleep \<Longrightarrow>
    sup_step cfg s c (s\<lparr>sp_pc := SupCheck, sp_backoff := nextBackoff (sp_backoff s) (cf_MaxBackoff cfg)\<rparr>) c"
| sleep_cancelled: "sp_pc s = SupSleep \<Longrightarrow> sp_cancelled s \<Longrightarrow> sup_step cfg s c (s\<lparr>sp_pc := SupReturned\<rparr>) c"

text \<open>The whole: the client, a supervisor, or a connection that dies.\<close>

inductive conn_step :: "conn_config \<Rightarrow> connector \<Rightarrow> connector \<Rightarrow> bool" for cfg where
  start: "conn_step cfg c (fst (connector_Start cfg c))"
| stop: "conn_step cfg c (connector_Stop c)"
| stop_done: "cn_stopping c \<Longrightarrow> Stop_returns c \<Longrightarrow> conn_step cfg c (c\<lparr>cn_stopping := False\<rparr>)"
| supervisor: "cn_sups c = as @ s # bs \<Longrightarrow> sup_step cfg s c s' c' \<Longrightarrow> conn_step cfg c (c'\<lparr>cn_sups := as @ s' # bs\<rparr>)"
| dies: "m \<in> cn_open c \<Longrightarrow> conn_step cfg c (c\<lparr>cn_open := cn_open c - {m}\<rparr>)"

inductive conn_reach :: "conn_config \<Rightarrow> connector \<Rightarrow> bool" for cfg where
  init: "conn_reach cfg connector0"
| step: "conn_reach cfg c \<Longrightarrow> conn_step cfg c c' \<Longrightarrow> conn_reach cfg c'"

inductive_cases sup_stepE: "sup_step cfg s c s' c'"
inductive_cases conn_stepE: "conn_step cfg c c'"

section \<open>Ownership\<close>

text \<open>The multiplexer a supervisor is responsible for, and whether it still has to withdraw it.\<close>

fun holds :: "sup_pc \<Rightarrow> nat option" where
  "holds (SupConnected m) = Some m"
| "holds (SupServe m ka) = Some m"
| "holds (SupClosing m) = Some m"
| "holds (SupUnpublished m) = Some m"
| "holds _ = None"

fun publishes :: "sup_pc \<Rightarrow> nat option" where
  "publishes (SupServe m ka) = Some m"
| "publishes (SupClosing m) = Some m"
| "publishes _ = None"

definition bounded_backoff :: "conn_config \<Rightarrow> duration \<Rightarrow> bool" where
  "bounded_backoff cfg b \<longleftrightarrow> 0 < sint b \<and> sint b \<le> sint (cf_MaxBackoff cfg)"

definition conn_inv :: "conn_config \<Rightarrow> connector \<Rightarrow> bool" where
  "conn_inv cfg c \<longleftrightarrow>
     (\<forall>m. cn_mux c = Some m \<longrightarrow> m \<in> cn_signed c \<and> (\<exists>s \<in> set (cn_sups c). publishes (sp_pc s) = Some m)) \<and>
     (\<forall>m \<in> cn_open c. \<exists>s \<in> set (cn_sups c). holds (sp_pc s) = Some m) \<and>
     (\<forall>s \<in> set (cn_sups c). \<forall>m. holds (sp_pc s) = Some m \<longrightarrow> m \<in> cn_signed c) \<and>
     (\<forall>s \<in> set (cn_sups c). bounded_backoff cfg (sp_backoff s)) \<and>
     (\<forall>s \<in> set (cn_sups c). sp_pc s = SupReturned \<longrightarrow> sp_cancelled s) \<and>
     (\<forall>i. cn_cancel c = Some i \<longrightarrow> i < length (cn_sups c))"

lemma sint_double:
  fixes b :: duration
  assumes "0 < sint b" "sint b < 2 ^ 62"
  shows "sint (b * 2) = sint b * 2"
proof -
  have "sint (b * 2) = signed_take_bit 63 (sint b * 2)"
    using sint_word_ariths(3) [of b 2] by simp
  also have "\<dots> = sint b * 2"
    using assms by (intro signed_take_bit_int_eq_self) simp_all
  finally show ?thesis .
qed

lemma nextBackoff_bounded:
  assumes "bounded_backoff cfg b" "sint (cf_MaxBackoff cfg) < 2 ^ 62"
  shows "bounded_backoff cfg (nextBackoff b (cf_MaxBackoff cfg))"
proof -
  have "sint (b * 2) = sint b * 2"
    using assms by (intro sint_double) (simp_all add: bounded_backoff_def)
  with assms show ?thesis
    by (simp add: bounded_backoff_def nextBackoff_def Let_def)
qed

text \<open>Backoff bounds that make sense: positive, ordered, and small enough to double.\<close>

definition wf_config :: "conn_config \<Rightarrow> bool" where
  "wf_config cfg \<longleftrightarrow> bounded_backoff cfg (cf_MinBackoff cfg) \<and> sint (cf_MaxBackoff cfg) < 2 ^ 62"

text \<open>What a supervisor's step does to the invariant's parts.\<close>

lemma sup_step_sups: "sup_step cfg s c s' c' \<Longrightarrow> cn_sups c' = cn_sups c \<and> cn_cancel c' = cn_cancel c \<and> cn_closed c' = cn_closed c \<and>
    cn_stopping c' = cn_stopping c"
  by (erule sup_stepE) (auto split: if_split)

lemma sup_step_backoff:
  "sup_step cfg s c s' c' \<Longrightarrow> wf_config cfg \<Longrightarrow> bounded_backoff cfg (sp_backoff s) \<Longrightarrow> bounded_backoff cfg (sp_backoff s')"
  by (erule sup_stepE) (auto simp: wf_config_def nextBackoff_bounded)

lemma sup_step_returned:
  "sup_step cfg s c s' c' \<Longrightarrow> sp_cancelled s' = sp_cancelled s \<and> (sp_pc s' = SupReturned \<longrightarrow> sp_cancelled s)"
  by (erule sup_stepE) (auto split: if_splits)

lemma sup_step_open:
  "sup_step cfg s c s' c' \<Longrightarrow> m \<in> cn_open c' \<Longrightarrow> holds (sp_pc s') = Some m \<or> m \<in> cn_open c \<and> holds (sp_pc s) \<noteq> Some m"
  by (erule sup_stepE) (auto split: if_splits)

lemma sup_step_signed:
  "sup_step cfg s c s' c' \<Longrightarrow> (holds (sp_pc s) = Some m \<longrightarrow> m \<in> cn_signed c) \<Longrightarrow> holds (sp_pc s') = Some m \<Longrightarrow> m \<in> cn_signed c'"
  by (erule sup_stepE) (auto split: if_splits)

lemma sup_step_signed_mono: "sup_step cfg s c s' c' \<Longrightarrow> cn_signed c \<subseteq> cn_signed c'"
  by (erule sup_stepE) (auto split: if_splits)

lemma sup_step_mux:
  "sup_step cfg s c s' c' \<Longrightarrow> cn_mux c' = Some m \<Longrightarrow>
     publishes (sp_pc s') = Some m \<and> (holds (sp_pc s) = Some m) \<or> cn_mux c = Some m \<and> publishes (sp_pc s) \<noteq> Some m"
  by (erule sup_stepE) (auto split: if_splits)

lemma conn_inv_sup:
  assumes inv: "conn_inv cfg c" and wf: "wf_config cfg" and c: "cn_sups c = as @ s # bs" and st: "sup_step cfg s c s' c'"
  shows "conn_inv cfg (c'\<lparr>cn_sups := as @ s' # bs\<rparr>)"
proof -
  have mux: "m \<in> cn_signed c' \<and> (\<exists>x \<in> set (as @ s' # bs). publishes (sp_pc x) = Some m)" if "cn_mux c' = Some m" for m
    using sup_step_mux [OF st that] inv c sup_step_signed_mono [OF st] by (auto simp: conn_inv_def)
  have opn: "\<exists>x \<in> set (as @ s' # bs). holds (sp_pc x) = Some m" if "m \<in> cn_open c'" for m
    using sup_step_open [OF st that] inv c by (auto simp: conn_inv_def)
  have sgn: "m \<in> cn_signed c'" if "x \<in> set (as @ s' # bs)" "holds (sp_pc x) = Some m" for x m
  proof (cases "x = s'")
    case True
    then show ?thesis
      using that(2) inv c by (intro sup_step_signed [OF st]) (auto simp: conn_inv_def)
  next
    case False
    then have "x \<in> set (cn_sups c)"
      using that(1) c by auto
    then show ?thesis
      using that(2) inv sup_step_signed_mono [OF st] by (auto simp: conn_inv_def)
  qed
  have "bounded_backoff cfg (sp_backoff s')"
    by (rule sup_step_backoff [OF st wf]) (use inv c in \<open>simp add: conn_inv_def\<close>)
  moreover have "sp_pc s' = SupReturned \<longrightarrow> sp_cancelled s'"
    using sup_step_returned [OF st] by simp
  ultimately show ?thesis
    using mux opn sgn inv c sup_step_sups [OF st] unfolding conn_inv_def by simp
qed

lemma conn_inv_start: "conn_inv cfg c \<Longrightarrow> wf_config cfg \<Longrightarrow> conn_inv cfg (fst (connector_Start cfg c))"
  by (fastforce simp: conn_inv_def connector_Start_def wf_config_def less_Suc_eq)

lemma conn_inv_stop: "conn_inv cfg c \<Longrightarrow> conn_inv cfg (connector_Stop c)"
proof (cases "cn_cancel c")
  case None
  then show "conn_inv cfg c \<Longrightarrow> ?thesis"
    by (simp add: conn_inv_def connector_Stop_def)
next
  case (Some i)
  assume inv: "conn_inv cfg c"
  then have i: "i < length (cn_sups c)"
    using Some by (simp add: conn_inv_def)
  define s where "s = cn_sups c ! i"
  obtain as bs where c: "cn_sups c = as @ s # bs" "length as = i"
    using id_take_nth_drop [OF i] i s_def by (metis length_take min.absorb4)
  have "connector_Stop c = c\<lparr>cn_closed := True, cn_stopping := True, cn_sups := as @ s\<lparr>sp_cancelled := True\<rparr> # bs\<rparr>"
    using Some c(1) by (simp add: connector_Stop_def c(2) [symmetric])
  then show ?thesis
    using inv c by (simp add: conn_inv_def)
qed

lemma conn_step_inv: "conn_step cfg c c' \<Longrightarrow> wf_config cfg \<Longrightarrow> conn_inv cfg c \<Longrightarrow> conn_inv cfg c'"
proof (erule conn_stepE)
  fix m
  assume "conn_inv cfg c" "m \<in> cn_open c" "c' = c\<lparr>cn_open := cn_open c - {m}\<rparr>"
  then show ?thesis
    by (simp add: conn_inv_def)
next
  assume "conn_inv cfg c" "c' = c\<lparr>cn_stopping := False\<rparr>"
  then show ?thesis
    by (simp add: conn_inv_def)
qed (auto simp: conn_inv_start conn_inv_stop conn_inv_sup)

lemma conn_reach_inv: "conn_reach cfg c \<Longrightarrow> wf_config cfg \<Longrightarrow> conn_inv cfg c"
  by (induction rule: conn_reach.induct) (auto simp: conn_inv_def connector0_def dest: conn_step_inv)

section \<open>Stopping\<close>

text \<open>How many of its own steps a cancelled supervisor is from its return.\<close>

fun rank :: "sup_pc \<Rightarrow> nat" where
  "rank SupReturned = 0"
| "rank (SupClosing m) = 2"
| "rank (SupServe m ka) = 3"
| "rank (SupConnected m) = 4"
| "rank _ = 1"

lemma cancelled_progress:
  assumes "sp_cancelled s" "sp_pc s \<noteq> SupReturned"
  shows "\<exists>s' c'. sup_step cfg s c s' c' \<and> rank (sp_pc s') < rank (sp_pc s)"
proof (cases "sp_pc s")
  case SupCheck
  then show ?thesis using check_exit [OF SupCheck assms(1)] by fastforce
next
  case SupConnect
  then show ?thesis using dial_fail [OF SupConnect] assms(1) by fastforce
next
  case (SupConnected m)
  then show ?thesis using publish [OF SupConnected] by fastforce
next
  case (SupServe m ka)
  then show ?thesis using serve_cancelled [OF SupServe assms(1)] by fastforce
next
  case (SupClosing m)
  then show ?thesis using unpublish [OF SupClosing] by fastforce
next
  case (SupUnpublished m)
  then show ?thesis using close [OF SupUnpublished, of "sp_backoff s"] assms(1) by fastforce
next
  case SupSleep
  then show ?thesis using sleep_cancelled [OF SupSleep assms(1)] by fastforce
qed (use assms(2) in simp)

definition total_rank :: "connector \<Rightarrow> nat" where
  "total_rank c = sum_list (map (\<lambda>s. rank (sp_pc s)) (cn_sups c))"

lemma all_cancelled_returns:
  "\<forall>s \<in> set (cn_sups c). sp_cancelled s \<Longrightarrow> \<exists>c'. (conn_step cfg)\<^sup>*\<^sup>* c c' \<and> Stop_returns c'"
proof (induction "total_rank c" arbitrary: c rule: less_induct)
  case less
  show ?case
  proof (cases "Stop_returns c")
    case False
    then obtain s where s: "s \<in> set (cn_sups c)" "sp_pc s \<noteq> SupReturned"
      by (auto simp: Stop_returns_def list_all_iff)
    then obtain as bs where c: "cn_sups c = as @ s # bs"
      by (meson split_list)
    obtain s' c' where st: "sup_step cfg s c s' c'" "rank (sp_pc s') < rank (sp_pc s)"
      using cancelled_progress less.prems s by blast
    define d where "d = c'\<lparr>cn_sups := as @ s' # bs\<rparr>"
    have "conn_step cfg c d"
      unfolding d_def by (rule conn_step.supervisor [OF c st(1)])
    moreover have "total_rank d < total_rank c"
      using st(2) c by (simp add: total_rank_def d_def)
    moreover have "\<forall>s \<in> set (cn_sups d). sp_cancelled s"
      using less.prems c sup_step_returned [OF st(1)] by (auto simp: d_def)
    ultimately show ?thesis
      using less.hyps [of d] by (meson converse_rtranclp_into_rtranclp)
  qed blast
qed

section \<open>Properties\<close>

text \<open>C19: the connector is safe under every interleaving.  The multiplexer it publishes is one whose
  sign-on succeeded and that a supervisor is serving or about to withdraw; every open connection is held by a
  supervisor, so none leaks; when \<open>Stop\<close> returns nothing is published and every connection ever made is
  closed; and the reconnect backoff stays positive and within its maximum.\<close>

theorem connector_safe:
  assumes "conn_reach cfg c" "wf_config cfg"
  shows "(\<forall>m. cn_mux c = Some m \<longrightarrow> m \<in> cn_signed c \<and> (\<exists>s \<in> set (cn_sups c). publishes (sp_pc s) = Some m)) \<and>
    (\<forall>m \<in> cn_open c. \<exists>s \<in> set (cn_sups c). holds (sp_pc s) = Some m) \<and>
    (Stop_returns c \<longrightarrow> \<not> Connected c \<and> cn_open c = {}) \<and>
    (\<forall>s \<in> set (cn_sups c). 0 < sint (sp_backoff s) \<and> sint (sp_backoff s) \<le> sint (cf_MaxBackoff cfg))"
proof -
  have inv: "conn_inv cfg c"
    by (rule conn_reach_inv) fact+
  moreover have "\<not> Connected c \<and> cn_open c = {}" if "Stop_returns c"
  proof -
    have "holds (sp_pc s) = None \<and> publishes (sp_pc s) = None" if "s \<in> set (cn_sups c)" for s
      using \<open>Stop_returns c\<close> that by (simp add: Stop_returns_def list_all_iff)
    then show ?thesis
      using inv by (force simp: conn_inv_def Connected_def)
  qed
  ultimately show ?thesis
    by (simp add: conn_inv_def bounded_backoff_def)
qed

definition default_config :: conn_config where
  "default_config = \<lparr>cf_Name = [97], cf_Network = bytes_of ''tcp'', cf_Addr = [98], cf_Keyer = True,
     cf_MinBackoff = 250 * 1000000, cf_MaxBackoff = 30 * 1000000000, cf_Keepalive = True\<rparr>"

lemma default_config_wf: "wf_config default_config"
  by (simp add: wf_config_def bounded_backoff_def default_config_def)

theorem connector_safe_witness: "\<not> Connected (connector_Stop connector0) \<and> cn_open (connector_Stop connector0) = {}"
proof -
  have "conn_reach default_config (connector_Stop connector0)"
    by (rule conn_reach.step [OF conn_reach.init conn_step.stop])
  from connector_safe [OF this default_config_wf] show ?thesis
    by (simp add: Stop_returns_def connector_Stop_def connector0_def)
qed

text \<open>\<open>Stop\<close> can return.  From every state after \<open>Stop\<close> was called on a connector that was started once,
  wherever the supervisor is (dialling, signing on, serving or sleeping), a run exists in which it returns.\<close>

theorem connector_Stop_can_return:
  assumes "cn_sups c = [s]" "cn_cancel c = Some 0"
  shows "\<exists>c'. (conn_step cfg)\<^sup>*\<^sup>* (connector_Stop c) c' \<and> Stop_returns c'"
  by (rule all_cancelled_returns) (use assms in \<open>simp add: connector_Stop_def\<close>)

theorem connector_Stop_can_return_witness:
  "\<exists>c'. (conn_step default_config)\<^sup>*\<^sup>* (connector_Stop (fst (connector_Start default_config connector0))) c' \<and> Stop_returns c'"
  by (rule connector_Stop_can_return) (simp_all add: connector_Start_def connector0_def)

text \<open>A second \<open>Start\<close> makes \<open>Stop\<close> hang.  \<open>Start\<close> does not check that a supervisor is running and overwrites
  its cancel function; \<open>Stop\<close> then cancels only the second supervisor and waits for both, and in no
  continuation does it return.\<close>

theorem connector_double_start_hangs:
  assumes "(conn_step cfg)\<^sup>*\<^sup>* (connector_Stop (fst (connector_Start cfg (fst (connector_Start cfg connector0))))) c"
  shows "\<not> Stop_returns c"
proof -
  define stuck where "stuck c \<longleftrightarrow> cn_closed c \<and> cn_cancel c = Some 1 \<and>
    (\<exists>s ss. cn_sups c = s # ss \<and> ss \<noteq> [] \<and> \<not> sp_cancelled s \<and> sp_pc s \<noteq> SupReturned)" for c :: connector
  have step: "stuck c'" if "stuck c" "conn_step cfg c c'" for c c'
    using that(2)
  proof (cases rule: conn_step.cases)
    case (supervisor as s bs s' d)
    then show ?thesis
      using that(1) sup_step_sups [OF supervisor(3)] sup_step_returned [OF supervisor(3)] by (cases as) (auto simp: stuck_def)
  next
    case stop
    then show ?thesis
      using that(1) by (auto simp: stuck_def connector_Stop_def)
  qed (use that(1) in \<open>auto simp: stuck_def connector_Start_def\<close>)
  have "stuck c"
    using assms
  proof (induction rule: rtranclp_induct)
    case base
    show ?case
      by (simp add: stuck_def connector_Stop_def connector_Start_def connector0_def)
  qed (use step in blast)
  then show ?thesis
    by (auto simp: stuck_def Stop_returns_def)
qed

theorem connector_double_start_hangs_witness:
  "\<not> Stop_returns (connector_Stop (fst (connector_Start default_config (fst (connector_Start default_config connector0)))))"
  by (rule connector_double_start_hangs) blast

end
