(* ===== verification/Listener.thy ===== *)
theory Listener
imports Main
begin

text \<open>The listener, \<^verbatim>\<open>src/listener/listener.go\<close>: the accept loop, one goroutine per connection, and
  \<open>Close\<close>.  Accepting and the handlers are the operating system's and the client's code: a connection may
  arrive whenever the socket is open, and a handler may return at any time.  The mutex is held only within a
  step, the atomic \<open>closed\<close> flag and the wait group are fields of the state.\<close>

section \<open>State\<close>

datatype serve_pc = ServeAccept | ServeAccepted nat | ServeTracked nat | ServeReturned
datatype handler_pc = HandlerRun | HandlerClose | HandlerUntrack | HandlerDone
datatype close_pc = CloseSocket | CloseSweep | CloseWait | CloseReturned

record listener =
  ln_socket :: bool
  ln_closed :: bool
  ln_conns :: "nat set"
  ln_wg :: nat
  ln_open :: "nat set"
  ln_made :: "nat set"
  ln_serve :: serve_pc
  ln_handlers :: "(nat \<times> handler_pc) list"
  ln_closers :: "close_pc list"
  ln_swept :: bool

definition Listen :: listener where
  "Listen = \<lparr>ln_socket = True, ln_closed = False, ln_conns = {}, ln_wg = 0, ln_open = {}, ln_made = {},
     ln_serve = ServeAccept, ln_handlers = [], ln_closers = [], ln_swept = False\<rparr>"

section \<open>Operations\<close>

definition track :: "nat \<Rightarrow> listener \<Rightarrow> listener \<times> bool" where
  "track l s = (if ln_closed s then (s, False) else (s\<lparr>ln_conns := insert l (ln_conns s)\<rparr>, True))"

definition untrack :: "nat \<Rightarrow> listener \<Rightarrow> listener" where
  "untrack l s = s\<lparr>ln_conns := ln_conns s - {l}\<rparr>"

text \<open>The accept loop, from one visible action to the next.\<close>

inductive serve_step :: "listener \<Rightarrow> listener \<Rightarrow> bool" where
  accept: "ln_serve s = ServeAccept \<Longrightarrow> ln_socket s \<Longrightarrow> l \<notin> ln_made s \<Longrightarrow>
    serve_step s (s\<lparr>ln_serve := ServeAccepted l, ln_made := insert l (ln_made s), ln_open := insert l (ln_open s)\<rparr>)"
| accept_error: "ln_serve s = ServeAccept \<Longrightarrow> serve_step s (s\<lparr>ln_serve := ServeReturned\<rparr>)"
| tracked: "ln_serve s = ServeAccepted l \<Longrightarrow> track l s = (s', True) \<Longrightarrow> serve_step s (s'\<lparr>ln_serve := ServeTracked l\<rparr>)"
| refused: "ln_serve s = ServeAccepted l \<Longrightarrow> track l s = (s', False) \<Longrightarrow>
    serve_step s (s'\<lparr>ln_serve := ServeReturned, ln_open := ln_open s' - {l}\<rparr>)"
| spawn: "ln_serve s = ServeTracked l \<Longrightarrow>
    serve_step s (s\<lparr>ln_serve := ServeAccept, ln_wg := ln_wg s + 1, ln_handlers := ln_handlers s @ [(l, HandlerRun)]\<rparr>)"

text \<open>The goroutine of one connection: the handler, then the deferred calls in reverse order.\<close>

inductive handler_step :: "nat \<times> handler_pc \<Rightarrow> listener \<Rightarrow> nat \<times> handler_pc \<Rightarrow> listener \<Rightarrow> bool" where
  handled: "handler_step (l, HandlerRun) s (l, HandlerClose) s"
| closed: "handler_step (l, HandlerClose) s (l, HandlerUntrack) (s\<lparr>ln_open := ln_open s - {l}\<rparr>)"
| finished: "handler_step (l, HandlerUntrack) s (l, HandlerDone) ((untrack l s)\<lparr>ln_wg := ln_wg s - 1\<rparr>)"

text \<open>A call of \<open>Close\<close>.  The atomic swap decides which call closes the socket and sweeps.\<close>

definition Close_call :: "listener \<Rightarrow> listener" where
  "Close_call s = s\<lparr>ln_closed := True, ln_closers := ln_closers s @ [if ln_closed s then CloseWait else CloseSocket]\<rparr>"

inductive close_step :: "close_pc \<Rightarrow> listener \<Rightarrow> close_pc \<Rightarrow> listener \<Rightarrow> bool" where
  socket: "close_step CloseSocket s CloseSweep (s\<lparr>ln_socket := False\<rparr>)"
| sweep_conns: "close_step CloseSweep s CloseWait (s\<lparr>ln_open := ln_open s - ln_conns s, ln_swept := True\<rparr>)"
| waited: "ln_wg s = 0 \<Longrightarrow> close_step CloseWait s CloseReturned s"

inductive listener_step :: "listener \<Rightarrow> listener \<Rightarrow> bool" where
  serve: "serve_step s s' \<Longrightarrow> listener_step s s'"
| handler: "ln_handlers s = as @ h # bs \<Longrightarrow> handler_step h s h' s' \<Longrightarrow> listener_step s (s'\<lparr>ln_handlers := as @ h' # bs\<rparr>)"
| close_call: "listener_step s (Close_call s)"
| closer: "ln_closers s = as @ c # bs \<Longrightarrow> close_step c s c' s' \<Longrightarrow> listener_step s (s'\<lparr>ln_closers := as @ c' # bs\<rparr>)"

inductive listener_reach :: "listener \<Rightarrow> bool" where
  init: "listener_reach Listen"
| step: "listener_reach s \<Longrightarrow> listener_step s s' \<Longrightarrow> listener_reach s'"

inductive_cases serve_stepE: "serve_step s s'"
inductive_cases handler_stepE: "handler_step h s h' s'"
inductive_cases close_stepE: "close_step c s c' s'"
inductive_cases listener_stepE: "listener_step s s'"

section \<open>Invariant\<close>

definition alive :: "listener \<Rightarrow> nat" where
  "alive s = length (filter (\<lambda>h. snd h \<noteq> HandlerDone) (ln_handlers s))"

text \<open>Links have one owner: the accept loop or one goroutine.\<close>

definition owned :: "listener \<Rightarrow> bool" where
  "owned s \<longleftrightarrow> distinct (map fst (ln_handlers s)) \<and> (\<forall>h \<in> set (ln_handlers s). fst h \<in> ln_made s) \<and> ln_open s \<subseteq> ln_made s \<and>
     (\<forall>l. ln_serve s = ServeAccepted l \<or> ln_serve s = ServeTracked l \<longrightarrow> l \<in> ln_made s \<and> (\<forall>h \<in> set (ln_handlers s). fst h \<noteq> l))"

text \<open>An open link is either about to be tracked, or tracked and owned.\<close>

definition accounted :: "listener \<Rightarrow> bool" where
  "accounted s \<longleftrightarrow> (\<forall>l \<in> ln_open s. ln_serve s = ServeAccepted l \<or>
     l \<in> ln_conns s \<and> (ln_serve s = ServeTracked l \<or> (l, HandlerRun) \<in> set (ln_handlers s) \<or> (l, HandlerClose) \<in> set (ln_handlers s)))"

text \<open>After the sweep only a link that is still to be refused is open.\<close>

definition swept_clean :: "listener \<Rightarrow> bool" where
  "swept_clean s \<longleftrightarrow> (ln_swept s \<longrightarrow> ln_closed s \<and> \<not> ln_socket s \<and> (\<forall>l \<in> ln_open s. ln_serve s = ServeAccepted l)) \<and>
     (CloseSweep \<in> set (ln_closers s) \<longrightarrow> \<not> ln_socket s) \<and> (ln_closers s \<noteq> [] \<longrightarrow> ln_closed s)"

definition listener_inv :: "listener \<Rightarrow> bool" where
  "listener_inv s \<longleftrightarrow> ln_wg s = alive s \<and> owned s \<and> accounted s \<and> swept_clean s"

lemmas listener_inv_defs = alive_def owned_def accounted_def swept_clean_def

lemma track_True: "track l s = (t, True) \<longleftrightarrow> \<not> ln_closed s \<and> t = s\<lparr>ln_conns := insert l (ln_conns s)\<rparr>"
  and track_False: "track l s = (t, False) \<longleftrightarrow> ln_closed s \<and> t = s"
  by (auto simp: track_def)

lemma inv_serve: "serve_step s s' \<Longrightarrow> listener_inv s \<Longrightarrow> listener_inv s'"
proof -
  assume st: "serve_step s s'" and inv: "listener_inv s"
  then have parts: "ln_wg s = alive s" "owned s" "accounted s" "swept_clean s"
    by (simp_all add: listener_inv_def)
  have "ln_wg s' = alive s'"
    using st parts(1) by (cases rule: serve_step.cases) (simp_all add: alive_def track_True track_False)
  moreover have "owned s'"
    using st parts(2)
  proof (cases rule: serve_step.cases)
    case (accept l)
    with parts(2) show ?thesis
      by (simp add: owned_def) blast
  next
    case (spawn l)
    with parts(2) show ?thesis
      by (simp add: owned_def) (metis image_iff)
  qed (auto simp: owned_def track_True track_False simp del: split_paired_All)
  moreover have "accounted s'"
    using st parts(3)
  proof (cases rule: serve_step.cases)
    case (accept l)
    with parts(3) show ?thesis
      by (auto simp: accounted_def)
  next
    case accept_error
    with parts(3) show ?thesis
      by (auto simp: accounted_def)
  next
    case (tracked l t)
    with parts(3) show ?thesis
      by (auto simp: accounted_def track_True)
  next
    case (refused l t)
    with parts(3) show ?thesis
      by (auto simp: accounted_def track_False)
  next
    case (spawn l)
    with parts(3) show ?thesis
      by (auto simp: accounted_def)
  qed
  moreover have "swept_clean s'"
    using st parts(4)
  proof (cases rule: serve_step.cases)
    case (tracked l t)
    with parts(4) show ?thesis
      by (simp add: swept_clean_def track_True)
  next
    case (refused l t)
    with parts(4) show ?thesis
      by (simp add: swept_clean_def track_False)
  next
    case (spawn l)
    with parts(4) show ?thesis
      by (simp add: swept_clean_def)
  qed (simp_all add: swept_clean_def)
  ultimately show ?thesis
    by (simp add: listener_inv_def)
qed

text \<open>The goroutine of a link is unique.\<close>

lemma owned_unique: "owned s \<Longrightarrow> ln_handlers s = as @ (l, p) # bs \<Longrightarrow> (l, q) \<in> set (ln_handlers s) \<Longrightarrow> q = p"
  unfolding owned_def by (rule eq_key_imp_eq_value [of "ln_handlers s" l]) (blast, assumption, simp)

lemma inv_handler:
  assumes st: "handler_step h s h' t" and s: "ln_handlers s = as @ h # bs" and inv: "listener_inv s"
  shows "listener_inv (t\<lparr>ln_handlers := as @ h' # bs\<rparr>)"
proof -
  let ?t = "t\<lparr>ln_handlers := as @ h' # bs\<rparr>"
  have own: "owned s" and acc: "accounted s"
    using inv by (simp_all add: listener_inv_def)
  have "ln_wg ?t = alive ?t"
    using st s inv by (cases rule: handler_step.cases) (auto simp: listener_inv_def alive_def untrack_def)
  moreover have "owned ?t"
    using st s own by (cases rule: handler_step.cases) (auto simp: owned_def untrack_def)
  moreover have "accounted ?t"
    using st
  proof (cases rule: handler_step.cases)
    case (handled l)
    with acc s show ?thesis
      by (auto simp: accounted_def)
  next
    case (closed l)
    with acc s show ?thesis
      by (auto simp: accounted_def)
  next
    case (finished l)
    have "l \<notin> ln_open s"
    proof
      assume l: "l \<in> ln_open s"
      have "ln_serve s \<noteq> ServeAccepted l" "ln_serve s \<noteq> ServeTracked l"
        using own s finished(1) by (auto simp: owned_def)
      then have "(l, HandlerRun) \<in> set (ln_handlers s) \<or> (l, HandlerClose) \<in> set (ln_handlers s)"
        using acc l by (auto simp: accounted_def)
      then show False
        using owned_unique [OF own s [unfolded finished(1)]] by blast
    qed
    with finished acc s show ?thesis
      by (auto simp: accounted_def untrack_def)
  qed
  moreover have "swept_clean ?t"
    using st inv by (cases rule: handler_step.cases) (auto simp: listener_inv_def swept_clean_def untrack_def)
  ultimately show ?thesis
    by (simp add: listener_inv_def)
qed

lemma inv_close:
  assumes "close_step c s c' t" "ln_closers s = as @ c # bs" "listener_inv s"
  shows "listener_inv (t\<lparr>ln_closers := as @ c' # bs\<rparr>)"
  using assms(1)
proof (cases rule: close_step.cases)
  case sweep_conns
  then show ?thesis
    using assms(2,3) by (auto simp: listener_inv_def listener_inv_defs)
qed (use assms(2,3) in \<open>auto simp: listener_inv_def listener_inv_defs\<close>)

lemma inv_close_call: "listener_inv s \<Longrightarrow> listener_inv (Close_call s)"
  by (auto simp: listener_inv_def listener_inv_defs Close_call_def)

lemma listener_reach_inv: "listener_reach s \<Longrightarrow> listener_inv s"
proof (induction rule: listener_reach.induct)
  case init
  show ?case
    by (simp add: listener_inv_def listener_inv_defs Listen_def)
next
  case (step s s')
  from step.hyps(2) step.IH show ?case
    by (cases rule: listener_step.cases) (auto simp: inv_serve inv_handler inv_close inv_close_call)
qed

section \<open>Properties\<close>

text \<open>C20: the listener leaks no connection under any interleaving.  The wait group counts exactly the goroutines
  that have not finished; every open connection is about to be tracked or is tracked and owned by the accept
  loop or its goroutine; and once \<open>Close\<close> has swept, every connection is closed, except one that was
  accepted before and that the accept loop is about to refuse and close itself.\<close>

theorem listener_no_leak:
  assumes "listener_reach s"
  shows "ln_wg s = length (filter (\<lambda>h. snd h \<noteq> HandlerDone) (ln_handlers s)) \<and>
    (\<forall>l \<in> ln_open s. ln_serve s = ServeAccepted l \<or>
       l \<in> ln_conns s \<and> (ln_serve s = ServeTracked l \<or> (l, HandlerRun) \<in> set (ln_handlers s) \<or> (l, HandlerClose) \<in> set (ln_handlers s))) \<and>
    (ln_swept s \<longrightarrow> (\<forall>l \<in> ln_open s. ln_serve s = ServeAccepted l))"
  using listener_reach_inv [OF assms] unfolding listener_inv_def listener_inv_defs by blast

theorem listener_no_leak_witness: "ln_wg Listen = 0 \<and> ln_open Listen = {}"
  using listener_no_leak [OF listener_reach.init] by (simp add: Listen_def)

text \<open>C39: \<open>Close\<close> does not wait for all handlers.  The accept loop adds to the wait group only after it has
  tracked the connection and released the mutex; a \<open>Close\<close> in between finds the wait group at zero and
  returns, and the handler starts after that.\<close>

theorem listener_close_before_handler:
  "\<exists>s. listener_reach s \<and> CloseReturned \<in> set (ln_closers s) \<and> (0, HandlerRun) \<in> set (ln_handlers s)"
proof -
  define s1 where "s1 = Listen\<lparr>ln_serve := ServeAccepted 0, ln_made := {0}, ln_open := {0}\<rparr>"
  define s2 where "s2 = s1\<lparr>ln_conns := {0}, ln_serve := ServeTracked 0\<rparr>"
  define s3 where "s3 = Close_call s2"
  define s4 where "s4 = s3\<lparr>ln_socket := False, ln_closers := [CloseSweep]\<rparr>"
  define s5 where "s5 = s4\<lparr>ln_open := {}, ln_swept := True, ln_closers := [CloseWait]\<rparr>"
  define s6 where "s6 = s5\<lparr>ln_closers := [CloseReturned]\<rparr>"
  define s7 where "s7 = s6\<lparr>ln_serve := ServeAccept, ln_wg := 1, ln_handlers := [(0, HandlerRun)]\<rparr>"
  note defs = s1_def s2_def s3_def s4_def s5_def s6_def s7_def Listen_def Close_call_def
  have "serve_step Listen (Listen\<lparr>ln_serve := ServeAccepted 0, ln_made := insert 0 (ln_made Listen), ln_open := insert 0 (ln_open Listen)\<rparr>)"
    by (rule accept) (simp_all add: Listen_def)
  then have 1: "listener_step Listen s1"
    by (intro listener_step.serve) (simp add: s1_def Listen_def)
  have "serve_step s1 ((s1\<lparr>ln_conns := insert 0 (ln_conns s1)\<rparr>)\<lparr>ln_serve := ServeTracked 0\<rparr>)"
    by (rule tracked) (simp_all add: track_True s1_def Listen_def)
  then have 2: "listener_step s1 s2"
    by (intro listener_step.serve) (simp add: s1_def s2_def Listen_def)
  have 3: "listener_step s2 s3"
    unfolding s3_def by (rule listener_step.close_call)
  have "listener_step s3 ((s3\<lparr>ln_socket := False\<rparr>)\<lparr>ln_closers := [] @ CloseSweep # []\<rparr>)"
    by (rule closer [OF _ socket]) (simp add: defs)
  then have 4: "listener_step s3 s4"
    by (simp add: s4_def)
  have "listener_step s4 ((s4\<lparr>ln_open := ln_open s4 - ln_conns s4, ln_swept := True\<rparr>)\<lparr>ln_closers := [] @ CloseWait # []\<rparr>)"
    by (rule closer [OF _ sweep_conns]) (simp add: s4_def)
  then have 5: "listener_step s4 s5"
    by (simp add: defs)
  have "listener_step s5 (s5\<lparr>ln_closers := [] @ CloseReturned # []\<rparr>)"
    by (rule closer [OF _ waited]) (simp_all add: defs)
  then have 6: "listener_step s5 s6"
    by (simp add: s6_def)
  have "serve_step s6 (s6\<lparr>ln_serve := ServeAccept, ln_wg := ln_wg s6 + 1, ln_handlers := ln_handlers s6 @ [(0, HandlerRun)]\<rparr>)"
    by (rule spawn) (simp add: defs)
  then have 7: "listener_step s6 s7"
    by (intro listener_step.serve) (simp add: defs)
  have "listener_reach s7"
    by (rule listener_reach.step [OF listener_reach.step [OF listener_reach.step [OF listener_reach.step [OF listener_reach.step [OF
        listener_reach.step [OF listener_reach.step [OF listener_reach.init 1] 2] 3] 4] 5] 6] 7])
  moreover have "ln_closers s7 = [CloseReturned]" "ln_handlers s7 = [(0, HandlerRun)]"
    by (simp_all add: s7_def s6_def)
  ultimately show ?thesis
    by (intro exI [of _ s7]) simp
qed

end
