(* ===== verification/RuntimeConfig.thy ===== *)
theory RuntimeConfig
imports FieldPath "HOL-Library.Sublist"
begin

text \<open>Configuration, \<^verbatim>\<open>src/runtime/config.go\<close>, and its watcher, \<^verbatim>\<open>src/runtime/watch.go\<close>: the
  tree of values, the overrides from environment variables, the lookups, and hot reload.  Decoding JSON is an
  argument, \<open>'f\<close> is the type of its numbers (\<open>float64\<close>).  Nested maps are values here, so writing through a
  pointer to a child map is writing the child back into its parent.\<close>

section \<open>Values and paths\<close>

datatype 'f jval =
    JNull | JBool bool | JNum 'f | JStr bytes | JArr "'f jval list" | JObj "bytes \<rightharpoonup> 'f jval"

type_synonym 'f tree = "bytes \<rightharpoonup> 'f jval"

text \<open>\<open>strings.Split\<close> on one byte.\<close>

fun split_on :: "byte \<Rightarrow> bytes \<Rightarrow> bytes list" where
  "split_on c [] = [[]]"
| "split_on c (b # bs) = (if b = c then [] # split_on c bs
     else case split_on c bs of [] \<Rightarrow> [[b]] | s # ss \<Rightarrow> (b # s) # ss)"

definition to_lower :: "byte \<Rightarrow> byte" where
  "to_lower b = (if 65 \<le> b \<and> b \<le> 90 then b + 32 else b)"

fun setPath :: "'f tree \<Rightarrow> bytes list \<Rightarrow> 'f jval \<Rightarrow> 'f tree" where
  "setPath m [] v = m"
| "setPath m [s] v = m(s \<mapsto> v)"
| "setPath m (s # t # ss) v = (case m s of
       None \<Rightarrow> m(s \<mapsto> JObj (setPath Map.empty (t # ss) v))
     | Some (JObj c) \<Rightarrow> m(s \<mapsto> JObj (setPath c (t # ss) v))
     | Some _ \<Rightarrow> m)"

fun lookup_node :: "'f jval \<Rightarrow> bytes list \<Rightarrow> 'f jval option" where
  "lookup_node cur [] = Some cur"
| "lookup_node (JObj m) (s # ss) = (case m s of None \<Rightarrow> None | Some x \<Rightarrow> lookup_node x ss)"
| "lookup_node _ (s # ss) = None"

definition lookup :: "'f tree \<Rightarrow> bytes list \<Rightarrow> 'f jval option" where
  "lookup t segs = lookup_node (JObj t) segs"

section \<open>Environment overrides\<close>

text \<open>\<open>coerce\<close> keeps a decoded number, boolean or null and the text otherwise; \<open>parse\<close> is
  \<open>json.Unmarshal\<close> into an interface.\<close>

definition coerce :: "(bytes \<Rightarrow> 'f jval option) \<Rightarrow> bytes \<Rightarrow> 'f jval" where
  "coerce parse s = (case parse s of
       Some (JNum n) \<Rightarrow> JNum n | Some (JBool b) \<Rightarrow> JBool b | Some JNull \<Rightarrow> JNull | _ \<Rightarrow> JStr s)"

definition env_prefix :: "bytes \<Rightarrow> bytes" where
  "env_prefix pfx0 = (if pfx0 \<noteq> [] \<and> last pfx0 = 95 then pfx0 else pfx0 @ [95])"

text \<open>The path and the value of one \<open>KEY=value\<close> pair, if it carries the prefix.\<close>

definition env_override :: "(bytes \<Rightarrow> 'f jval option) \<Rightarrow> bytes \<Rightarrow> bytes \<Rightarrow> (bytes list \<times> 'f jval) option" where
  "env_override parse pfx kv =
     (if 61 \<notin> set kv then None
      else let key = takeWhile (\<lambda>b. b \<noteq> 61) kv; val = tl (dropWhile (\<lambda>b. b \<noteq> 61) kv) in
        if take (length pfx) key \<noteq> pfx then None
        else Some (split_on 46 (map to_lower (map (\<lambda>b. if b = 95 then 46 else b) (drop (length pfx) key))), coerce parse val))"

text \<open>White space is that of ASCII.  A nil map (\<open>None\<close>) panics when it is written; the tree is nil when the document is \<open>null\<close>.\<close>

datatype config_error = ErrLoadConfig | ErrParseConfig | ConfigPanic

fun applyEnvOverrides :: "(bytes \<Rightarrow> 'f jval option) \<Rightarrow> bytes \<Rightarrow> bytes list \<Rightarrow> 'f tree option \<Rightarrow> config_error + 'f tree option" where
  "applyEnvOverrides parse pfx [] t = Inr t"
| "applyEnvOverrides parse pfx (kv # kvs) t = (case env_override parse pfx kv of
       None \<Rightarrow> applyEnvOverrides parse pfx kvs t
     | Some (segs, v) \<Rightarrow> (case t of
           None \<Rightarrow> Inl ConfigPanic
         | Some m \<Rightarrow> applyEnvOverrides parse pfx kvs (Some (setPath m segs v))))"

definition blank :: "bytes \<Rightarrow> bool" where
  "blank data \<longleftrightarrow> list_all (\<lambda>b. b \<in> {9, 10, 11, 12, 13, 32}) data"

text \<open>\<open>parse_doc\<close> decodes a document into a tree: an error, the nil map for \<open>null\<close>, or a map.\<close>

definition buildTree :: "(bytes \<Rightarrow> 'f tree option option) \<Rightarrow> (bytes \<Rightarrow> 'f jval option) \<Rightarrow> bytes \<Rightarrow> bytes list \<Rightarrow> bytes
    \<Rightarrow> config_error + 'f tree option" where
  "buildTree parse_doc parse pfx0 environ data =
     (case (if blank data then Some (Some Map.empty) else parse_doc data) of
        None \<Rightarrow> Inl ErrParseConfig
      | Some t \<Rightarrow> if pfx0 = [] then Inr t else applyEnvOverrides parse (env_prefix pfx0) environ t)"

section \<open>Configuration and lookups\<close>

record 'f runtime_config =
  rc_tree :: "'f tree option"
  rc_path :: bytes
  rc_prefix :: bytes
  rc_environ :: "bytes list"

definition config_Parse :: "(bytes \<Rightarrow> 'f tree option option) \<Rightarrow> (bytes \<Rightarrow> 'f jval option) \<Rightarrow> bytes \<Rightarrow> bytes list \<Rightarrow> bytes
    \<Rightarrow> config_error + 'f runtime_config" where
  "config_Parse parse_doc parse pfx0 environ data = (case buildTree parse_doc parse pfx0 environ data of
       Inl e \<Rightarrow> Inl e
     | Inr t \<Rightarrow> Inr \<lparr>rc_tree = t, rc_path = [], rc_prefix = pfx0, rc_environ = environ\<rparr>)"

definition config_Load :: "(bytes \<Rightarrow> 'f tree option option) \<Rightarrow> (bytes \<Rightarrow> 'f jval option) \<Rightarrow> bytes \<Rightarrow> bytes list \<Rightarrow> (bytes \<rightharpoonup> bytes) \<Rightarrow> bytes
    \<Rightarrow> config_error + 'f runtime_config" where
  "config_Load parse_doc parse pfx0 environ fs path = (case fs path of
       None \<Rightarrow> Inl ErrLoadConfig
     | Some data \<Rightarrow> (case config_Parse parse_doc parse pfx0 environ data of
           Inl e \<Rightarrow> Inl e | Inr c \<Rightarrow> Inr (c\<lparr>rc_path := path\<rparr>)))"

definition config_Reload :: "(bytes \<Rightarrow> 'f tree option option) \<Rightarrow> (bytes \<Rightarrow> 'f jval option) \<Rightarrow> (bytes \<rightharpoonup> bytes) \<Rightarrow> 'f runtime_config
    \<Rightarrow> 'f runtime_config \<times> config_error option" where
  "config_Reload parse_doc parse fs c =
     (if rc_path c = [] then (c, None)
      else case fs (rc_path c) of
        None \<Rightarrow> (c, Some ErrLoadConfig)
      | Some data \<Rightarrow> (case buildTree parse_doc parse (rc_prefix c) (rc_environ c) data of
            Inl e \<Rightarrow> (c, Some e)
          | Inr t \<Rightarrow> (c\<lparr>rc_tree := t\<rparr>, None)))"

text \<open>Reading a nil map is reading an empty one.\<close>

definition config_Get :: "'f runtime_config \<Rightarrow> bytes \<Rightarrow> 'f jval option" where
  "config_Get c path = lookup (case rc_tree c of None \<Rightarrow> Map.empty | Some t \<Rightarrow> t) (split_on 46 path)"

definition config_String :: "'f runtime_config \<Rightarrow> bytes \<Rightarrow> bytes \<Rightarrow> bytes" where
  "config_String c path d = (case config_Get c path of Some (JStr s) \<Rightarrow> s | _ \<Rightarrow> d)"

definition config_Int :: "('f \<Rightarrow> int) \<Rightarrow> 'f runtime_config \<Rightarrow> bytes \<Rightarrow> int \<Rightarrow> int" where
  "config_Int to_int c path d = (case config_Get c path of
       Some (JNum n) \<Rightarrow> to_int n
     | Some (JStr s) \<Rightarrow> (case parse_int 64 s of Inr i \<Rightarrow> i | Inl _ \<Rightarrow> d)
     | _ \<Rightarrow> d)"

definition ParseBool :: "bytes \<Rightarrow> bool option" where
  "ParseBool s =
     (if s \<in> set (map bytes_of [''1'', ''t'', ''T'', ''true'', ''TRUE'', ''True'']) then Some True
      else if s \<in> set (map bytes_of [''0'', ''f'', ''F'', ''false'', ''FALSE'', ''False'']) then Some False
      else None)"

definition config_Bool :: "'f runtime_config \<Rightarrow> bytes \<Rightarrow> bool \<Rightarrow> bool" where
  "config_Bool c path d = (case config_Get c path of
       Some (JBool b) \<Rightarrow> b
     | Some (JStr s) \<Rightarrow> (case ParseBool s of Some b \<Rightarrow> b | None \<Rightarrow> d)
     | _ \<Rightarrow> d)"

section \<open>The watcher\<close>

text \<open>A stamp is the modification time and size of the file, \<open>None\<close> when it cannot be read.\<close>

type_synonym stamp = "(int \<times> int) option"

record 'f watcher =
  w_cfg :: "'f runtime_config"
  w_last :: stamp
  w_reloads :: nat

definition watcher_check :: "(bytes \<Rightarrow> 'f tree option option) \<Rightarrow> (bytes \<Rightarrow> 'f jval option) \<Rightarrow> (bytes \<rightharpoonup> bytes) \<Rightarrow> stamp \<Rightarrow> 'f watcher \<Rightarrow> 'f watcher" where
  "watcher_check parse_doc parse fs s w =
     (if s = None \<or> s = w_last w then w
      else case config_Reload parse_doc parse fs (w_cfg w) of
        (c, Some e) \<Rightarrow> w\<lparr>w_last := s, w_cfg := c\<rparr>
      | (c, None) \<Rightarrow> w\<lparr>w_last := s, w_cfg := c, w_reloads := w_reloads w + 1\<rparr>)"

section \<open>Overrides and lookups\<close>

text \<open>A path is blocked when a proper prefix of it leads to a value that is not a map.\<close>

fun blocked :: "'f tree \<Rightarrow> bytes list \<Rightarrow> bool" where
  "blocked m (s # t # ss) = (case m s of None \<Rightarrow> False | Some (JObj c) \<Rightarrow> blocked c (t # ss) | Some _ \<Rightarrow> True)"
| "blocked m _ = False"

lemma blocked_setPath: "blocked m segs \<Longrightarrow> setPath m segs v = m"
proof (induction m segs v rule: setPath.induct)
  case (3 m s t ss v)
  then show ?case
    by (auto split: option.splits jval.splits)
qed simp_all

lemma lookup_Cons: "lookup m (s # ss) = (case m s of None \<Rightarrow> None | Some x \<Rightarrow> lookup_node x ss)"
  by (simp add: lookup_def)

lemma lookup_set_same: "segs \<noteq> [] \<Longrightarrow> \<not> blocked m segs \<Longrightarrow> lookup (setPath m segs v) segs = Some v"
proof (induction m segs v rule: setPath.induct)
  case (3 m s t ss v)
  show ?case
  proof (cases "m s")
    case None
    have "\<not> blocked Map.empty (t # ss)"
      by (cases ss) simp_all
    with None 3 show ?thesis
      by (simp add: lookup_def)
  next
    case (Some x)
    with 3 show ?thesis
      by (cases x) (simp_all add: lookup_def)
  qed
qed (simp_all add: lookup_def)

lemma lookup_set_other:
  "\<not> prefix segs q \<Longrightarrow> \<not> prefix q segs \<Longrightarrow> lookup (setPath m segs v) q = lookup m q"
proof (induction m segs v arbitrary: q rule: setPath.induct)
  case (2 m s v)
  then obtain r qs where "q = r # qs" "r \<noteq> s"
    by (cases q) auto
  then show ?case
    by (simp add: lookup_Cons)
next
  case (3 m s t ss v)
  then obtain r qs where q: "q = r # qs"
    by (cases q) auto
  show ?case
  proof (cases "r = s")
    case False
    then show ?thesis
      by (auto simp: q lookup_Cons split: option.split jval.split)
  next
    case True
    then have qs: "\<not> prefix (t # ss) qs" "\<not> prefix qs (t # ss)"
      using 3 q by simp_all
    then obtain r' qs' where qs': "qs = r' # qs'"
      by (cases qs) auto
    show ?thesis
    proof (cases "m s")
      case None
      have "lookup (setPath Map.empty (t # ss) v) qs = lookup Map.empty qs"
        by (rule "3.IH"(1) [OF None qs])
      then show ?thesis
        using None True by (simp add: q qs' lookup_Cons)
    next
      case (Some x)
      show ?thesis
      proof (cases x)
        case (JObj c)
        have "lookup (setPath c (t # ss) v) qs = lookup c qs"
          using "3.IH"(2) [OF Some JObj qs] .
        then show ?thesis
          using Some JObj True by (simp add: q lookup_Cons) (simp add: lookup_def)
      qed (use Some True in \<open>simp_all add: q lookup_Cons\<close>)
    qed
  qed
qed simp

section \<open>Properties\<close>

text \<open>An environment override writes its path and nothing else.  When a proper prefix of the path is declared
  as a value that is not a map the override is skipped and the tree is unchanged; otherwise the path then reads
  as the override.  Paths that neither extend nor are extended by it read as before.\<close>

theorem config_override:
  assumes "segs \<noteq> []"
  shows "(if blocked m segs then setPath m segs v = m else lookup (setPath m segs v) segs = Some v) \<and>
    (\<forall>q. \<not> prefix segs q \<and> \<not> prefix q segs \<longrightarrow> lookup (setPath m segs v) q = lookup m q)"
  using assms by (simp add: blocked_setPath lookup_set_same lookup_set_other)

theorem config_override_witness:
  "lookup (setPath [[1] \<mapsto> JObj [[2] \<mapsto> JNull]] [[1], [3]] (JBool True)) [[1], [3]] = Some (JBool True :: unit jval)"
  using config_override [of "[[1], [3]]" "[[1] \<mapsto> JObj [[2] \<mapsto> JNull]] :: unit tree" "JBool True"] by simp

text \<open>A configuration document \<open>null\<close> with an environment override panics: decoding it leaves the nil map, and
  the first override writes to it.\<close>

theorem config_null_panics:
  assumes "\<not> blank data" "parse_doc data = Some None" "pfx0 \<noteq> []"
    and "environ = pre @ kv # post" "env_override parse (env_prefix pfx0) kv \<noteq> None"
  shows "buildTree parse_doc parse pfx0 environ data = Inl ConfigPanic"
proof -
  have "applyEnvOverrides parse pfx (xs @ kv # ys) None = Inl ConfigPanic" if "env_override parse pfx kv \<noteq> None" for pfx xs ys
    using that by (induction xs) (auto split: option.splits)
  with assms show ?thesis
    by (simp add: buildTree_def)
qed

theorem config_null_panics_witness:
  "buildTree (\<lambda>_. Some None) (\<lambda>_. None :: unit jval option) (bytes_of ''APP'') [bytes_of ''APP_X=1''] (bytes_of ''null'') = Inl ConfigPanic"
proof (rule config_null_panics [of _ _ _ _ "[]"])
  show "\<not> blank (bytes_of ''null'')" "bytes_of ''APP'' \<noteq> []"
    by code_simp+
  show "env_override (\<lambda>_. None :: unit jval option) (env_prefix (bytes_of ''APP'')) (bytes_of ''APP_X=1'') \<noteq> None"
    by (simp add: env_override_def env_prefix_def bytes_of_def)
qed simp_all

text \<open>Reloading is loading again: it succeeds exactly when loading the file would, with the same result.\<close>

theorem reload_is_load:
  assumes "rc_path c \<noteq> []"
  shows "config_Reload parse_doc parse fs c = (c', None) \<longleftrightarrow>
    config_Load parse_doc parse (rc_prefix c) (rc_environ c) fs (rc_path c) = Inr c'"
  using assms by (auto simp: config_Reload_def config_Load_def config_Parse_def split: option.split sum.split)

text \<open>A reload that fails is not tried again: the stamp is recorded before the reload, so later checks that see
  the same stamp do nothing, although the file may be readable by then.\<close>

theorem watcher_failed_reload_dropped:
  assumes "s \<noteq> None" "s \<noteq> w_last w" "config_Reload parse_doc parse fs (w_cfg w) = (c, Some e)"
  shows "watcher_check parse_doc parse fs' s (watcher_check parse_doc parse fs s w) = watcher_check parse_doc parse fs s w"
  using assms by (simp add: watcher_check_def)

end
