(* ===== verification/Spec2Isabelle.thy ===== *)
theory Spec2Isabelle
  imports Validate Describe SchemaBuilder TlvRoundTrip TextTLV Pool Correlation Store Flow Rbac MemStore Dukpt Vault Payshield
    Deploy Loader Connector Listener RuntimeConfig
begin

text \<open>
  Verification library of isopace, a framework for ISO-8583 payment switches written in Go.

  \<^bold>\<open>The program.\<close>  A payment message is a message type, a presence bitmap and up to 192 data elements, each
  laid out by a schema.  The message engine (\<^verbatim>\<open>src/iso8583\<close>) parses a wire image into spans, decodes elements when
  they are read, and marshals a message back; it calls the value, length and bitmap codecs (\<^verbatim>\<open>src/fieldcodec\<close>,
  \<^verbatim>\<open>src/lengthcodec\<close>) that the schema names.  Schemas come from a builder, from the shipped profiles or from a
  configuration document (\<^verbatim>\<open>src/packager\<close>).  Messages travel in frames over links (\<^verbatim>\<open>src/link\<close>), which a pool or a
  supervised connector (\<^verbatim>\<open>src/connector\<close>) keeps connected and a listener (\<^verbatim>\<open>src/listener\<close>) accepts; a multiplexer
  (\<^verbatim>\<open>src/mux\<close>) correlates requests and responses on a link.  Transactions run through a two-phase pipeline
  (\<^verbatim>\<open>src/flow\<close>) and are queued in a tuple space or in a durable log (\<^verbatim>\<open>src/space\<close>).  PINs, MACs and keys are handled
  by the vault (\<^verbatim>\<open>src/vault\<close>) or by an HSM behind an adapter with the same interface (\<^verbatim>\<open>src/adapters/payshield\<close>).
  A host (\<^verbatim>\<open>src/runtime\<close>) starts, stops and redeploys the components of a switch.

  \<^bold>\<open>Conventions.\<close>  A byte is an \<^verbatim>\<open>8 word\<close>, byte slices and Go strings are lists of bytes.  Go's \<^verbatim>\<open>int\<close> is \<^verbatim>\<open>int\<close> or \<^verbatim>\<open>nat\<close>,
  except where wrap-around matters: bitmaps, durations, amounts and counters keep their width or write it out.
  A failing operation returns a sum with its error on the left; every error return of the source is a branch.
  An operation that mutates its receiver returns the updated record.  Goroutines are steps: the state of a
  component is a record, a critical section or a blocking call is one rule of an \<^verbatim>\<open>inductive\<close> step relation, and
  properties hold for every state reachable in any order of the steps.  A Go map that is ranged over is a map
  with its iteration order as an argument.

  \<^bold>\<open>Theories.\<close>
  \<^item> \<^emph>\<open>Vocabulary.\<close>  Prelude holds bytes, slices, strconv and big-endian integers; Errors the engine's errors; Hex
    Go's hexadecimal text.
  \<^item> \<^emph>\<open>Codecs.\<close>  BCD and EBCDIC (\<^verbatim>\<open>src/internal\<close>), Decimal, FieldPath and Bitmap (\<^verbatim>\<open>src/iso8583\<close>), BitmapCodec,
    LengthCodec and FieldCodec.  Each encoding is shown to be read back by its decoder, inputs out of range to
    be refused, and the optimised bit loops to visit what the set specification says.
  \<^item> \<^emph>\<open>Message engine.\<close>  Model holds schemas, values and messages; Unmarshal the structural parse; BERTLV, Engine
    and TlvRoundTrip the encoders and composites; MessageOps the operations of \<^verbatim>\<open>message.go\<close>; MessageInv the invariant and
    that every operation keeps it; MessageProps and RoundTrip what callers rely on: a parse tiles its input,
    writes are read back, untouched messages are marshalled verbatim, and built messages survive the wire.
    SchemaBuilder shows that a schema that was built cannot make the parser leave its buffer; Validate that
    validation reports exactly the violations; Describe that dumps and log values keep card data to
    themselves.  TextTLV is \<^verbatim>\<open>src/tlv\<close>.
  \<^item> \<^emph>\<open>Profiles.\<close>  PackagerTables transcribes the directories of the shipped layouts; Packager assembles the ten profiles and
    shows them sound and round-tripping; Loader is the configuration loader, which yields the same
    schemas whatever the order of the document.
  \<^item> \<^emph>\<open>Transport.\<close>  Framer and Link (frames and filters are inverse), Pool (slots, reconnection, Close), Connector
    (supervision, sign-on, backoff, Stop), Listener (tracking and Close), Mux (a response goes to the request
    with its key, no waiter is left behind), Correlation (the standard key over engine and multiplexer).
  \<^item> \<^emph>\<open>Transactions.\<close>  Flow (prepare, commit, abort, retry, idempotency), Space (exactly-once delivery and no lost
    wake-up), Store (the log with torn writes, failing syncs and compaction, as a refinement of a queue), MemStore
    and Rbac.
  \<^item> \<^emph>\<open>Cryptography.\<close>  Des defines DES in full; Cipher the block modes and MACs; PinBlock, KeyBlock and Dukpt the
    standards built on them; Vault the clear and the sealed software vault, the second a refinement of the
    first; Payshield the HSM adapter with its wire protocol and simulator, a refinement of the software vault.
  \<^item> \<^emph>\<open>Runtime.\<close>  Host (ordered start with roll-back, reverse stop), Deploy (directory reconciliation and
    the locks it takes), RuntimeConfig (overrides, lookup, reload).

  \<^bold>\<open>Interfaces.\<close>  The locales presence_set, word_codec, length_prefix, value_codec, framer, keyed_store,
  keyed_queue, idempotency_store and block_cipher state what one component relies on in another; each is
  interpreted on the model's own definitions and the client lemmas are proved inside it once.

  \<^bold>\<open>Bounds.\<close>  No operation is modelled with fuel: loops are structural or carry a termination proof.  The composite
  codecs recurse over the nesting of the schema.  The results about the engine that need a bound on lengths take
  it from the schema; the HSM adapter's fields are bounded by the four digits of its length field, and what
  happens beyond is a theorem.

  \<^bold>\<open>Parameters.\<close>  Code that is not in the repository is an argument: PBKDF2, SHA-256 and AES-GCM (with its law
  that opening undoes sealing), JSON decoding, component factories, dialling, sign-on hooks, handlers and file
  operations, which may fail at any point; and of the standard library \<^verbatim>\<open>strconv.Quote\<close>, which needs the Unicode tables.

  \<^bold>\<open>Where the code falls short.\<close>  Properties of kind error state behaviour that contradicts the documentation of
  the operation: a clone that loses modifications, a stale deletion in the multiplexer, an acknowledged push lost
  after a torn write, an HSM answer taken for the next one, a MAC over a tenth of a long message, a deadlock between host
  and deployer, a listener whose Close returns too early, chip data that shows eight digits of the account number.  Further such theorems
  (a connector that cannot be stopped after two starts, a panic on a null configuration) stand in their theories.

  \<^bold>\<open>Not modelled.\<close>  Reflection (\<^verbatim>\<open>bind.go\<close>, \<^verbatim>\<open>get.go\<close>, unmarshalling of configuration into structs) has no counterpart
  in HOL.  Other human-readable output (logging, traces, the renderers of \<^verbatim>\<open>src/render\<close>) presents values
  that the engine model already gives, in formats of the standard library's XML and JSON packages.  Sockets, TLS, HTTP
  (\<^verbatim>\<open>src/gateway\<close>, \<^verbatim>\<open>src/ops\<close>) and the adapters to OpenTelemetry, SQL and PKCS#11 are calls into the operating system or into
  third-party libraries.  The deployment command (\<^verbatim>\<open>src/teq\<close>, \<^verbatim>\<open>src/cmd\<close>), the examples and the vector generator
  only assemble the packages above.
\<close>

end
